(* ===== verification/Prelude.thy ===== *)
theory Prelude
  imports Main "HOL-Library.AList" "HOL-Library.Word" "HOL-Library.Monad_Syntax"
begin

text \<open>
  What the component theories share.

  \<^item> Rust's fixed-width integers are naturals together with their bound; the checked and
    saturating operations of the source are written out below, and an unchecked
    subtraction that would underflow is a panic.
  \<^item> A panic is the value \<open>None\<close> of the option monad, so that a theorem
    \<open>f x = Some y\<close> says that the code returns.
  \<^item> A \<open>HashMap\<close> is an association list with distinct keys. The order of the list is
    the iteration order, which Rust leaves unspecified: the theorems quantify over all
    lists with distinct keys, hence over all iteration orders.
  \<^item> Two interfaces that several components share: a hash map (locale \<open>hash_map\<close>),
    interpreted on the association lists, and a component whose operations keep an
    invariant and never panic (locale \<open>panic_free\<close>).
\<close>

section \<open>Automation\<close>

named_theorems rust_int \<open>definitions of the checked and saturating integer operations\<close>
named_theorems hm_simps \<open>lookup equations of hash maps\<close>

section \<open>Fixed-width integers\<close>

type_synonym byte = "8 word"

definition u64_max :: nat where
  "u64_max = 18446744073709551615"

definition u32_max :: nat where
  "u32_max = 4294967295"

text \<open>\<open>checked_add\<close>: \<open>None\<close> on overflow (an ordinary value, not a panic).\<close>

definition checked_add_u64 :: "nat \<Rightarrow> nat \<Rightarrow> nat option" where
  "checked_add_u64 a b = (if a + b \<le> u64_max then Some (a + b) else None)"

definition sat_add_u64 :: "nat \<Rightarrow> nat \<Rightarrow> nat" where
  "sat_add_u64 a b = min (a + b) u64_max"

definition sat_add_u32 :: "nat \<Rightarrow> nat \<Rightarrow> nat" where
  "sat_add_u32 a b = min (a + b) u32_max"

text \<open>\<open>saturating_sub\<close> is subtraction on the naturals.\<close>

abbreviation (input) sat_sub :: "nat \<Rightarrow> nat \<Rightarrow> nat" where
  "sat_sub a b \<equiv> a - b"

text \<open>The unchecked operators \<open>-\<close> and \<open>+\<close> panic on underflow and overflow.\<close>

definition sub_u64 :: "nat \<Rightarrow> nat \<Rightarrow> nat option" where
  "sub_u64 a b = (if b \<le> a then Some (a - b) else None)"

definition add_u32 :: "nat \<Rightarrow> nat \<Rightarrow> nat option" where
  "add_u32 a b = (if a + b \<le> u32_max then Some (a + b) else None)"

declare checked_add_u64_def [rust_int] sat_add_u64_def [rust_int] sat_add_u32_def [rust_int]
  sub_u64_def [rust_int] add_u32_def [rust_int]

lemma sub_u64_Some [simp]: "b \<le> a \<Longrightarrow> sub_u64 a b = Some (a - b)"
  by (simp add: sub_u64_def)

lemma sat_add_u64_exact: "a + b \<le> u64_max \<Longrightarrow> sat_add_u64 a b = a + b"
  by (simp add: sat_add_u64_def)

lemma sat_add_u64_bound [simp]: "sat_add_u64 a b \<le> u64_max"
  by (simp add: sat_add_u64_def)

lemma sat_add_u64_mono: "a \<le> u64_max \<Longrightarrow> a \<le> sat_add_u64 a b"
  by (simp add: sat_add_u64_def)

lemma sat_add_u64_sum: "sat_add_u64 (sat_add_u64 a b) c = sat_add_u64 a (b + c)"
  by (simp add: sat_add_u64_def)

lemma sat_add_u64_0: "a \<le> u64_max \<Longrightarrow> sat_add_u64 a 0 = a"
  by (simp add: sat_add_u64_def)

lemma sat_add_u32_bound [simp]: "sat_add_u32 a b \<le> u32_max"
  by (simp add: sat_add_u32_def)

lemma sat_add_u32_mono: "a \<le> u32_max \<Longrightarrow> a \<le> sat_add_u32 a b"
  by (simp add: sat_add_u32_def)

section \<open>Slices of vectors\<close>

text \<open>
  \<open>v[i..]\<close>, \<open>v.drain(0..i)\<close>, \<open>v[i] = x\<close> and \<open>v[i..i+n].copy_from_slice(ws)\<close> panic out of
  range.
\<close>

definition slice_from :: "'a list \<Rightarrow> nat \<Rightarrow> 'a list option" where
  "slice_from xs i = (if i \<le> length xs then Some (drop i xs) else None)"

definition vec_get :: "'a list \<Rightarrow> nat \<Rightarrow> 'a option" where
  "vec_get xs i = (if i < length xs then Some (xs ! i) else None)"

definition vec_set :: "'a list \<Rightarrow> nat \<Rightarrow> 'a \<Rightarrow> 'a list option" where
  "vec_set xs i x = (if i < length xs then Some (xs[i := x]) else None)"

definition splice :: "'a list \<Rightarrow> nat \<Rightarrow> 'a list \<Rightarrow> 'a list option" where
  "splice xs i ws = (if i + length ws \<le> length xs
     then Some (take i xs @ ws @ drop (i + length ws) xs) else None)"

definition resize :: "'a list \<Rightarrow> nat \<Rightarrow> 'a \<Rightarrow> 'a list" where
  "resize xs n x = take n xs @ replicate (n - length xs) x"

lemma length_resize [simp]: "length (resize xs n x) = n"
  by (simp add: resize_def)

lemma nth_resize: "i < n \<Longrightarrow> resize xs n x ! i = (if i < length xs then xs ! i else x)"
  by (auto simp: resize_def nth_append min_def)

lemma length_splice: "splice xs i ws = Some ys \<Longrightarrow> length ys = length xs"
  by (auto simp: splice_def split: if_splits)

lemma nth_splice:
  assumes "splice xs i ws = Some ys" and "j < length xs"
  shows "ys ! j = (if i \<le> j \<and> j < i + length ws then ws ! (j - i) else xs ! j)"
  using assms by (auto simp: splice_def nth_append min_def split: if_splits)

section \<open>Hash maps\<close>

type_synonym ('k, 'v) hmap = "('k \<times> 'v) list"

abbreviation hm_get :: "('k, 'v) hmap \<Rightarrow> 'k \<Rightarrow> 'v option" where
  "hm_get \<equiv> map_of"

abbreviation hm_insert :: "'k \<Rightarrow> 'v \<Rightarrow> ('k, 'v) hmap \<Rightarrow> ('k, 'v) hmap" where
  "hm_insert \<equiv> AList.update"

abbreviation hm_remove :: "'k \<Rightarrow> ('k, 'v) hmap \<Rightarrow> ('k, 'v) hmap" where
  "hm_remove \<equiv> AList.delete"

definition hm_ok :: "('k, 'v) hmap \<Rightarrow> bool" where
  "hm_ok m \<longleftrightarrow> distinct (map fst m)"

text \<open>What a client may rely on, whatever the representation.\<close>

locale hash_map =
  fixes get :: "'m \<Rightarrow> 'k \<Rightarrow> 'v option"
    and ins :: "'k \<Rightarrow> 'v \<Rightarrow> 'm \<Rightarrow> 'm"
    and rem :: "'k \<Rightarrow> 'm \<Rightarrow> 'm"
    and items :: "'m \<Rightarrow> ('k \<times> 'v) list"
    and ok :: "'m \<Rightarrow> bool"
  assumes get_ins: "get (ins k v m) = (get m)(k \<mapsto> v)"
    and get_rem: "get (rem k m) = (get m)(k := None)"
    and ok_ins: "ok m \<Longrightarrow> ok (ins k v m)"
    and ok_rem: "ok m \<Longrightarrow> ok (rem k m)"
    and items_get: "ok m \<Longrightarrow> (k, v) \<in> set (items m) \<longleftrightarrow> get m k = Some v"
    and items_distinct: "ok m \<Longrightarrow> distinct (map fst (items m))"
begin

lemma get_fold_rem: "get (fold rem ks m) k = (if k \<in> set ks then None else get m k)"
  by (induction ks arbitrary: m) (auto simp: get_rem)

lemma ok_fold_rem: "ok m \<Longrightarrow> ok (fold rem ks m)"
  by (induction ks arbitrary: m) (auto simp: ok_rem)

lemma get_ins_same: "get (ins k v m) k = Some v"
  by (simp add: get_ins)

lemma get_ins_other: "k' \<noteq> k \<Longrightarrow> get (ins k v m) k' = get m k'"
  by (simp add: get_ins)

lemma get_rem_other: "k' \<noteq> k \<Longrightarrow> get (rem k m) k' = get m k'"
  by (simp add: get_rem)

end

lemma hm_get_insert [hm_simps, simp]: "hm_get (hm_insert k v m) = (hm_get m)(k \<mapsto> v)"
  by (rule update_conv')

lemma hm_get_remove [hm_simps, simp]: "hm_get (hm_remove k m) = (hm_get m)(k := None)"
  by (rule delete_conv')

interpretation hm: hash_map hm_get hm_insert hm_remove "\<lambda>m. m" hm_ok
  by unfold_locales
    (auto simp: hm_ok_def delete_conv' update_conv' distinct_update distinct_delete
      intro: map_of_is_SomeI dest: map_of_SomeD)

lemma hm_ok_Nil [simp]: "hm_ok []"
  by (simp add: hm_ok_def)

lemma hm_ok_filter: "hm_ok m \<Longrightarrow> hm_ok (filter P m)"
  by (simp add: hm_ok_def distinct_map_filter)

lemma hm_length_remove_less:
  assumes "hm_get m k = Some v"
  shows "length (hm_remove k m) < length m"
proof -
  from assms have "(k, v) \<in> set m" by (rule map_of_SomeD)
  then show ?thesis
    unfolding AList.delete_eq by (intro length_filter_less [of "(k, v)"]) auto
qed

lemma hm_length_card: "hm_ok m \<Longrightarrow> length m = card (dom (hm_get m))"
  unfolding hm_ok_def dom_map_of_conv_image_fst
  by (metis distinct_card length_map set_map)

lemma hm_dom_remove: "dom (hm_get (hm_remove k m)) = dom (hm_get m) - {k}"
  by (auto split: if_splits)

lemma hm_remove_le: "hm_get (hm_remove k m) \<subseteq>\<^sub>m hm_get m"
  by (simp only: hm_get_remove upd_None_map_le)

lemma hm_length_remove: "hm_ok m \<Longrightarrow> hm_get m k = Some v \<Longrightarrow> length (hm_remove k m) = length m - 1"
  by (simp only: hm_length_card hm.ok_rem hm_dom_remove) (simp add: domI)

lemma hm_length_insert:
  "hm_ok m \<Longrightarrow> hm_get m k = Some v' \<Longrightarrow> length (hm_insert k v m) = length m"
  by (simp only: hm_length_card hm.ok_ins hm_get_insert) (simp add: insert_absorb domI)

lemma map_le_SomeD: "m \<subseteq>\<^sub>m m' \<Longrightarrow> m k = Some v \<Longrightarrow> m' k = Some v"
  by (metis domI map_le_def)

lemma hm_values: "hm_ok m \<Longrightarrow> (k, v) \<in> set m \<longleftrightarrow> hm_get m k = Some v"
  by (rule hm.items_get)

section \<open>Components that never panic\<close>

text \<open>
  A component with steps that may panic, an invariant, and the events its caller may
  send. The laws are about one step; the lemmas are about whole runs.
\<close>

fun run_steps :: "('s \<Rightarrow> 'e \<Rightarrow> 's option) \<Rightarrow> 's \<Rightarrow> 'e list \<Rightarrow> 's option" where
  "run_steps step s [] = Some s"
| "run_steps step s (e # es) = Option.bind (step s e) (\<lambda>s'. run_steps step s' es)"

text \<open>
  Some steps spend a budget (a counter that is incremented without an overflow check): the
  invariant is indexed by what has been spent, and a step succeeds while the budget lasts.
\<close>

locale budgeted =
  fixes step :: "'s \<Rightarrow> 'e \<Rightarrow> 's option"
    and inv :: "nat \<Rightarrow> 's \<Rightarrow> bool"
    and ok_event :: "'e \<Rightarrow> bool"
    and cost :: "'e \<Rightarrow> nat"
    and limit :: nat
  assumes step_ok: "inv n s \<Longrightarrow> ok_event e \<Longrightarrow> n + cost e \<le> limit \<Longrightarrow>
    \<exists>s'. step s e = Some s' \<and> inv (n + cost e) s'"
begin

lemma run_ok:
  "inv n s \<Longrightarrow> list_all ok_event es \<Longrightarrow> n + sum_list (map cost es) \<le> limit \<Longrightarrow>
   \<exists>s'. run_steps step s es = Some s' \<and> inv (n + sum_list (map cost es)) s'"
proof (induction es arbitrary: n s)
  case Nil
  then show ?case by simp
next
  case (Cons e es)
  then obtain s1 where "step s e = Some s1" "inv (n + cost e) s1"
    using step_ok [of n s e] by auto
  with Cons.IH [of "n + cost e" s1] Cons.prems show ?case by (simp add: add.assoc)
qed

end

locale panic_free =
  fixes step :: "'s \<Rightarrow> 'e \<Rightarrow> 's option"
    and inv :: "'s \<Rightarrow> bool"
    and ok_event :: "'e \<Rightarrow> bool"
  assumes step_total: "inv s \<Longrightarrow> ok_event e \<Longrightarrow> step s e \<noteq> None"
    and step_inv: "inv s \<Longrightarrow> ok_event e \<Longrightarrow> step s e = Some s' \<Longrightarrow> inv s'"

sublocale panic_free \<subseteq> free: budgeted step "\<lambda>_. inv" ok_event "\<lambda>_. 0" 0
proof unfold_locales
  fix n s e assume "inv s" "ok_event e"
  then show "\<exists>s'. step s e = Some s' \<and> inv s'" using step_total [of s e] step_inv [of s e] by auto
qed

context panic_free
begin

lemma run_total: "inv s \<Longrightarrow> list_all ok_event es \<Longrightarrow> \<exists>s'. run_steps step s es = Some s' \<and> inv s'"
  using free.run_ok [of s es 0] by simp

lemma run_inv: "inv s \<Longrightarrow> list_all ok_event es \<Longrightarrow> run_steps step s es = Some s' \<Longrightarrow> inv s'"
  using run_total [of s es] by auto

end

lemma run_steps_append:
  "run_steps step s (xs @ ys) = Option.bind (run_steps step s xs) (\<lambda>s'. run_steps step s' ys)"
  by (induction xs arbitrary: s) (simp_all add: bind_assoc)

end
