(* ===== verification/Transcript_Activity.thy ===== *)
theory Transcript_Activity
  imports Prelude
begin

text \<open>
  The activity fold over transcript deltas: \<open>infra/transcript_activity.rs\<close>.

  \<open>ActivityCounters\<close> sums payload bytes, counts deltas and counts, per signal class, the
  deltas that match it. The classes come from a compiled \<open>regex::bytes::RegexSet\<close>, which
  is not code of the repository: the set is represented by the function from a payload to
  the matched pattern indices, and what the code relies on (each index once, below the
  number of compiled patterns) is the predicate \<open>scanner_ok\<close>.
\<close>

section \<open>Model\<close>

definition MAX_SIGNAL_CLASSES :: nat where
  "MAX_SIGNAL_CLASSES = 16"

text \<open>\<open>set\<close> of the source is \<open>matches\<close> here: the compiled regex set, as what it matches.\<close>

record signature_scanner =
  matches :: "byte list \<Rightarrow> nat list"
  class_count :: nat

datatype 'e scanner_error = InvalidRegex 'e

text \<open>
  \<open>SignatureScanner::compile\<close>. \<open>regex_set_new\<close> stands for \<open>RegexSet::new\<close>; the
  \<open>debug_assert!\<close> on the number of patterns is a panic of a debug build.
\<close>

definition scanner_compile ::
  "(string list \<Rightarrow> 'e + (byte list \<Rightarrow> nat list)) \<Rightarrow> string list
    \<Rightarrow> ('e scanner_error + signature_scanner) option" where
  "scanner_compile regex_set_new enabled_patterns =
     (if length enabled_patterns \<le> MAX_SIGNAL_CLASSES then
        Some (case regex_set_new enabled_patterns of
            Inl e \<Rightarrow> Inl (InvalidRegex e)
          | Inr s \<Rightarrow> Inr \<lparr>matches = s, class_count = length enabled_patterns\<rparr>)
      else None)"

definition scanner_empty :: signature_scanner where
  "scanner_empty = \<lparr>matches = (\<lambda>_. []), class_count = 0\<rparr>"

definition scan :: "signature_scanner \<Rightarrow> byte list \<Rightarrow> nat list" where
  "scan s bytes = matches s bytes"

record activity_counters =
  bytes_total :: nat
  delta_count :: nat
  class_counts :: "nat list"

definition counters_new :: activity_counters where
  "counters_new = \<lparr>bytes_total = 0, delta_count = 0,
     class_counts = replicate MAX_SIGNAL_CLASSES 0\<rparr>"

text \<open>The loop of \<open>fold\<close> over the matched classes; the array access may panic.\<close>

fun bump_classes :: "nat list \<Rightarrow> nat list \<Rightarrow> nat list option" where
  "bump_classes cs [] = Some cs"
| "bump_classes cs (i # is) = do {
     c \<leftarrow> vec_get cs i;
     cs' \<leftarrow> vec_set cs i (sat_add_u32 c 1);
     bump_classes cs' is }"

definition counters_fold ::
  "activity_counters \<Rightarrow> byte list \<Rightarrow> signature_scanner \<Rightarrow> activity_counters option" where
  "counters_fold c bytes s = do {
     cs \<leftarrow> bump_classes (class_counts c) (scan s bytes);
     Some \<lparr>bytes_total = sat_add_u64 (bytes_total c) (length bytes),
           delta_count = sat_add_u32 (delta_count c) 1,
           class_counts = cs\<rparr> }"

text \<open>\<open>ActivitySnapshot\<close> has the fields of the counters and no other.\<close>

record activity_snapshot =
  snap_bytes_total :: nat
  snap_delta_count :: nat
  snap_class_counts :: "nat list"

definition counters_snapshot :: "activity_counters \<Rightarrow> activity_snapshot" where
  "counters_snapshot c = \<lparr>snap_bytes_total = bytes_total c, snap_delta_count = delta_count c,
     snap_class_counts = class_counts c\<rparr>"

definition activity_snapshot_empty :: activity_snapshot where
  "activity_snapshot_empty = \<lparr>snap_bytes_total = 0, snap_delta_count = 0,
     snap_class_counts = replicate MAX_SIGNAL_CLASSES 0\<rparr>"

section \<open>Invariants\<close>

definition scanner_ok :: "signature_scanner \<Rightarrow> bool" where
  "scanner_ok s \<longleftrightarrow> class_count s \<le> MAX_SIGNAL_CLASSES \<and>
     (\<forall>bytes. distinct (matches s bytes) \<and> (\<forall>i \<in> set (matches s bytes). i < class_count s))"

definition counters_inv :: "activity_counters \<Rightarrow> bool" where
  "counters_inv c \<longleftrightarrow> bytes_total c \<le> u64_max \<and> delta_count c \<le> u32_max \<and>
     length (class_counts c) = MAX_SIGNAL_CLASSES \<and> (\<forall>n \<in> set (class_counts c). n \<le> u32_max)"

section \<open>The fold is total\<close>

lemma scanner_ok_empty [simp]: "scanner_ok scanner_empty"
  by (simp add: scanner_ok_def scanner_empty_def MAX_SIGNAL_CLASSES_def)

lemma scanner_ok_index: "scanner_ok s \<Longrightarrow> i \<in> set (scan s bytes) \<Longrightarrow> i < MAX_SIGNAL_CLASSES"
  by (fastforce simp: scanner_ok_def scan_def)

lemma scanner_ok_distinct: "scanner_ok s \<Longrightarrow> distinct (scan s bytes)"
  by (simp add: scanner_ok_def scan_def)

lemma counters_inv_new [simp]: "counters_inv counters_new"
  by (simp add: counters_inv_def counters_new_def u64_max_def u32_max_def)

lemma bump_classes_total:
  "\<forall>i \<in> set is. i < length cs \<Longrightarrow> distinct is \<Longrightarrow>
   \<exists>cs'. bump_classes cs is = Some cs' \<and> length cs' = length cs \<and>
     (\<forall>j < length cs. cs' ! j = (if j \<in> set is then sat_add_u32 (cs ! j) 1 else cs ! j))"
proof (induction "is" arbitrary: cs)
  case Nil
  then show ?case by simp
next
  case (Cons i "is")
  let ?cs = "cs[i := sat_add_u32 (cs ! i) 1]"
  from Cons.prems have i: "i < length cs" and "\<forall>j \<in> set is. j < length ?cs" "distinct is" "i \<notin> set is"
    by auto
  with Cons.IH [of ?cs] obtain cs' where
    "bump_classes ?cs is = Some cs'" "length cs' = length cs"
    "\<forall>j < length cs. cs' ! j = (if j \<in> set is then sat_add_u32 (?cs ! j) 1 else ?cs ! j)"
    by auto
  with i \<open>i \<notin> set is\<close> show ?case
    by (auto simp: vec_get_def vec_set_def nth_list_update)
qed

lemma counters_fold_total:
  assumes "scanner_ok s" and "counters_inv c"
  shows "\<exists>c'. counters_fold c bytes s = Some c' \<and> counters_inv c' \<and>
    bytes_total c' = sat_add_u64 (bytes_total c) (length bytes) \<and>
    delta_count c' = sat_add_u32 (delta_count c) 1 \<and>
    (\<forall>j < MAX_SIGNAL_CLASSES. class_counts c' ! j =
       (if j \<in> set (scan s bytes) then sat_add_u32 (class_counts c ! j) 1 else class_counts c ! j))"
proof -
  from assms(2) have len: "length (class_counts c) = MAX_SIGNAL_CLASSES"
    and small: "\<forall>n \<in> set (class_counts c). n \<le> u32_max"
    by (auto simp: counters_inv_def)
  from bump_classes_total [of "scan s bytes" "class_counts c"] obtain cs where cs:
    "bump_classes (class_counts c) (scan s bytes) = Some cs" "length cs = MAX_SIGNAL_CLASSES"
    "\<forall>j < MAX_SIGNAL_CLASSES. cs ! j =
       (if j \<in> set (scan s bytes) then sat_add_u32 (class_counts c ! j) 1 else class_counts c ! j)"
    using scanner_ok_index [OF assms(1)] scanner_ok_distinct [OF assms(1)] len by auto
  from cs small len have "\<forall>n \<in> set cs. n \<le> u32_max"
    by (simp add: all_set_conv_all_nth)
  with cs show ?thesis
    by (simp add: counters_fold_def counters_inv_def)
qed

end
