(* ===== verification/Transcript_Buffer.thy ===== *)
theory Transcript_Buffer
  imports Transcript_Activity
begin

text \<open>
  The per-session transcript accumulator: \<open>infra/session_transcript.rs\<close>.

  \<open>TranscriptBuffer\<close> merges deltas of a byte stream by logical offset into one span
  \<open>[base_offset, base_offset + data.len())\<close>, remembers the sub-ranges of the span it never
  received (\<open>holes\<close>), drops the head of the span when the byte cap or the hole cap is
  exceeded, and serves the contiguous tail. Every operation that can panic in Rust
  (unchecked subtraction, slice out of range) returns \<open>None\<close> there.

  The abstract view is \<open>content\<close>: the partial map from logical stream offsets to the
  bytes the buffer can account for. The lemmas give, for each step of \<open>apply_delta\<close>, what
  it does to \<open>content\<close>, to the invariant and to the elision counter.
\<close>

section \<open>Model\<close>

definition DEFAULT_TRANSCRIPT_BUFFER_MAX_BYTES :: nat where
  "DEFAULT_TRANSCRIPT_BUFFER_MAX_BYTES = 4194304"

definition MAX_HOLE_RANGES :: nat where
  "MAX_HOLE_RANGES = 64"

type_synonym hole = "nat \<times> nat"

record transcript_buffer =
  base_offset :: nat
  data :: "byte list"
  holes :: "hole list"
  high_water :: nat
  elided_bytes :: nat
  max_bytes :: nat
  activity :: activity_counters
  scanner :: signature_scanner

record transcript_purge_record =
  purged_session_id :: string
  bytes_purged :: nat

record hole_info =
  hole_start :: nat
  hole_end :: nat

record transcript_snapshot =
  snap_bytes :: "byte list"
  snap_base_offset :: nat
  snap_high_water :: nat
  snap_elided_bytes :: nat
  snap_holes :: "hole_info list"

definition session_key :: "string \<Rightarrow> string \<Rightarrow> string \<Rightarrow> string" where
  "session_key tenant project session_id = session_id"

definition buffer_new :: "nat \<Rightarrow> signature_scanner \<Rightarrow> transcript_buffer" where
  "buffer_new max_b sc = \<lparr>base_offset = 0, data = [], holes = [], high_water = 0,
     elided_bytes = 0, max_bytes = max_b, activity = counters_new, scanner = sc\<rparr>"

subsection \<open>Helpers of \<open>apply_delta\<close>\<close>

fun hole_sum :: "nat \<Rightarrow> hole list \<Rightarrow> nat option" where
  "hole_sum acc [] = Some acc"
| "hole_sum acc ((s, e) # hs) = do { d \<leftarrow> sub_u64 e s; hole_sum (sat_add_u64 acc d) hs }"

definition total_hole_bytes :: "transcript_buffer \<Rightarrow> nat option" where
  "total_hole_bytes b = hole_sum 0 (holes b)"

definition hole_bytes_below :: "nat \<Rightarrow> nat \<Rightarrow> hole list \<Rightarrow> nat" where
  "hole_bytes_below base new_base hs =
     fold (\<lambda>(s, e) acc. sat_add_u64 acc (sat_sub (min e new_base) (max s base))) hs 0"

definition truncate_holes :: "nat \<Rightarrow> hole list \<Rightarrow> hole list" where
  "truncate_holes new_base hs =
     map (\<lambda>(s, e). (max s new_base, e)) (filter (\<lambda>(s, e). \<not> e \<le> new_base) hs)"

definition advance_base :: "transcript_buffer \<Rightarrow> nat \<Rightarrow> transcript_buffer option" where
  "advance_base b new_base =
     (let span_end = sat_add_u64 (base_offset b) (length (data b)) in
      if span_end \<le> new_base then do {
        th \<leftarrow> total_hole_bytes b;
        let received = sat_sub (length (data b)) th;
        Some (b\<lparr>elided_bytes := sat_add_u64 (elided_bytes b) received,
                data := [], holes := [], base_offset := new_base\<rparr>) }
      else do {
        drop_len \<leftarrow> sub_u64 new_base (base_offset b);
        let below = hole_bytes_below (base_offset b) new_base (holes b);
        rest \<leftarrow> slice_from (data b) drop_len;
        Some (b\<lparr>elided_bytes := sat_add_u64 (elided_bytes b) (sat_sub drop_len below),
                data := rest, holes := truncate_holes new_base (holes b),
                base_offset := new_base\<rparr>) })"

fun subtract_range :: "nat \<Rightarrow> nat \<Rightarrow> hole list \<Rightarrow> hole list" where
  "subtract_range s e [] = []"
| "subtract_range s e ((hs, he) # rest) =
     (if he \<le> s \<or> e \<le> hs then (hs, he) # subtract_range s e rest
      else if s \<le> hs \<and> he \<le> e then subtract_range s e rest
      else if s \<le> hs then (e, he) # subtract_range s e rest
      else if he \<le> e then (hs, s) # subtract_range s e rest
      else (hs, s) # (e, he) # subtract_range s e rest)"

definition subtract_range_from_holes :: "transcript_buffer \<Rightarrow> nat \<Rightarrow> nat \<Rightarrow> transcript_buffer" where
  "subtract_range_from_holes b s e = b\<lparr>holes := subtract_range s e (holes b)\<rparr>"

definition collapse_to_newest :: "transcript_buffer \<Rightarrow> transcript_buffer option" where
  "collapse_to_newest b =
     (if holes b = [] then Some b
      else do {
        let last_hole_end = snd (last (holes b));
        width \<leftarrow> sub_u64 last_hole_end (base_offset b);
        th \<leftarrow> total_hole_bytes b;
        let dropped_received = sat_sub width th;
        rest \<leftarrow> slice_from (data b) width;
        Some (b\<lparr>elided_bytes := sat_add_u64 (elided_bytes b) dropped_received,
                data := rest, holes := [], base_offset := last_hole_end\<rparr>) })"

text \<open>Step 2 of \<open>apply_delta\<close>: clip the delta at the floor.\<close>

definition clip_to_floor ::
  "transcript_buffer \<Rightarrow> nat \<Rightarrow> byte list \<Rightarrow> (transcript_buffer \<times> nat \<times> byte list) option" where
  "clip_to_floor b offset bytes =
     (if offset < base_offset b then do {
        clip \<leftarrow> sub_u64 (base_offset b) offset;
        write_bytes \<leftarrow> slice_from bytes clip;
        Some (b\<lparr>elided_bytes := sat_add_u64 (elided_bytes b) clip\<rparr>, base_offset b, write_bytes) }
      else Some (b, offset, bytes))"

text \<open>Step 3: extend the span, opening a hole if the delta starts past its end.\<close>

definition extend_span :: "transcript_buffer \<Rightarrow> nat \<Rightarrow> nat \<Rightarrow> transcript_buffer option" where
  "extend_span b write_offset end_off =
     (let span_end = sat_add_u64 (base_offset b) (length (data b));
          b1 = (if span_end < write_offset
                then b\<lparr>holes := holes b @ [(span_end, write_offset)]\<rparr> else b)
      in if span_end < end_off then do {
           n \<leftarrow> sub_u64 end_off (base_offset b1);
           Some (b1\<lparr>data := resize (data b1) n 0\<rparr>) }
         else Some b1)"

text \<open>Step 4: the in-place write.\<close>

definition write_span :: "transcript_buffer \<Rightarrow> nat \<Rightarrow> byte list \<Rightarrow> transcript_buffer option" where
  "write_span b write_offset write_bytes = do {
     rel \<leftarrow> sub_u64 write_offset (base_offset b);
     d \<leftarrow> splice (data b) rel write_bytes;
     Some (b\<lparr>data := d\<rparr>) }"

definition fold_activity :: "transcript_buffer \<Rightarrow> byte list \<Rightarrow> transcript_buffer option" where
  "fold_activity b bytes = do {
     a \<leftarrow> counters_fold (activity b) bytes (scanner b);
     Some (b\<lparr>activity := a\<rparr>) }"

text \<open>Steps 2 to 6 and the fold, for a delta that ends above the floor.\<close>

definition merge_delta ::
  "transcript_buffer \<Rightarrow> nat \<Rightarrow> byte list \<Rightarrow> nat \<Rightarrow> transcript_buffer option" where
  "merge_delta b offset bytes end_off = do {
     (b, write_offset, write_bytes) \<leftarrow> clip_to_floor b offset bytes;
     b \<leftarrow> extend_span b write_offset end_off;
     b \<leftarrow> write_span b write_offset write_bytes;
     let b = subtract_range_from_holes b write_offset end_off;
     b \<leftarrow> (if MAX_HOLE_RANGES < length (holes b) then collapse_to_newest b else Some b);
     fold_activity b bytes }"

definition apply_delta ::
  "transcript_buffer \<Rightarrow> nat \<Rightarrow> byte list \<Rightarrow> transcript_buffer option" where
  "apply_delta b offset bytes =
     (case checked_add_u64 offset (length bytes) of
        None \<Rightarrow> Some b
      | Some end_off \<Rightarrow>
          (let b = b\<lparr>high_water := max (high_water b) end_off\<rparr> in
           if length bytes = 0 then fold_activity b bytes
           else do {
             let required_base = sat_sub end_off (max_bytes b);
             b \<leftarrow> (if base_offset b < required_base then advance_base b required_base else Some b);
             if end_off \<le> base_offset b
             then Some (b\<lparr>elided_bytes := sat_add_u64 (elided_bytes b) (length bytes)\<rparr>)
             else merge_delta b offset bytes end_off }))"

subsection \<open>Readers and purge\<close>

definition contiguous_run_start_rel :: "transcript_buffer \<Rightarrow> nat option" where
  "contiguous_run_start_rel b =
     (if holes b = [] then Some 0 else sub_u64 (snd (last (holes b))) (base_offset b))"

definition snapshot_block :: "transcript_buffer \<Rightarrow> nat \<Rightarrow> byte list option" where
  "snapshot_block b start_rel = slice_from (data b) start_rel"

text \<open>The outer option is the panic, the inner one the value \<open>None\<close> of the source.\<close>

definition contiguous_tail :: "transcript_buffer \<Rightarrow> nat \<Rightarrow> byte list option option" where
  "contiguous_tail b window =
     (if data b = [] \<or> window = 0 then Some None
      else do {
        start_rel \<leftarrow> contiguous_run_start_rel b;
        avail \<leftarrow> sub_u64 (length (data b)) start_rel;
        let tk = min window avail;
        start \<leftarrow> sub_u64 (length (data b)) tk;
        blk \<leftarrow> snapshot_block b start;
        Some (Some blk) })"

definition snapshot :: "transcript_buffer \<Rightarrow> transcript_snapshot option" where
  "snapshot b = do {
     bytes \<leftarrow> (if data b = [] then Some []
              else do { s \<leftarrow> contiguous_run_start_rel b; snapshot_block b s });
     Some \<lparr>snap_bytes = bytes, snap_base_offset = base_offset b,
           snap_high_water = high_water b, snap_elided_bytes = elided_bytes b,
           snap_holes = map (\<lambda>(s, e). \<lparr>hole_start = s, hole_end = e\<rparr>) (holes b)\<rparr> }"

definition clear :: "transcript_buffer \<Rightarrow> nat \<times> transcript_buffer" where
  "clear b = (length (data b), b\<lparr>data := [], holes := [], base_offset := high_water b\<rparr>)"

definition buffer_len :: "transcript_buffer \<Rightarrow> nat" where
  "buffer_len b = length (data b)"

definition buffer_is_empty :: "transcript_buffer \<Rightarrow> bool" where
  "buffer_is_empty b \<longleftrightarrow> data b = []"

definition activity_snapshot_of :: "transcript_buffer \<Rightarrow> activity_snapshot" where
  "activity_snapshot_of b = counters_snapshot (activity b)"

section \<open>Abstract view and invariant\<close>

fun in_holes :: "nat \<Rightarrow> hole list \<Rightarrow> bool" where
  "in_holes x [] = False"
| "in_holes x ((s, e) # hs) = ((s \<le> x \<and> x < e) \<or> in_holes x hs)"

definition span_end_of :: "transcript_buffer \<Rightarrow> nat" where
  "span_end_of b = base_offset b + length (data b)"

definition content :: "transcript_buffer \<Rightarrow> nat \<rightharpoonup> byte" where
  "content b x =
     (if base_offset b \<le> x \<and> x < span_end_of b \<and> \<not> in_holes x (holes b)
      then Some (data b ! (x - base_offset b)) else None)"

definition delta_map :: "nat \<Rightarrow> byte list \<Rightarrow> nat \<rightharpoonup> byte" where
  "delta_map offset bytes x =
     (if offset \<le> x \<and> x < offset + length bytes then Some (bytes ! (x - offset)) else None)"

text \<open>Holes are non-empty, sorted, disjoint, and strictly inside the span (I2).\<close>

fun holes_ok :: "nat \<Rightarrow> nat \<Rightarrow> hole list \<Rightarrow> bool" where
  "holes_ok lo hi [] = True"
| "holes_ok lo hi ((s, e) # hs) = (lo \<le> s \<and> s < e \<and> e < hi \<and> holes_ok e hi hs)"

definition holes_zero :: "transcript_buffer \<Rightarrow> bool" where
  "holes_zero b \<longleftrightarrow> (\<forall>x. base_offset b \<le> x \<longrightarrow> x < span_end_of b \<longrightarrow> in_holes x (holes b) \<longrightarrow>
     data b ! (x - base_offset b) = 0)"

definition span_inv :: "transcript_buffer \<Rightarrow> bool" where
  "span_inv b \<longleftrightarrow> length (data b) \<le> max_bytes b \<and>
     holes_ok (base_offset b) (span_end_of b) (holes b) \<and>
     span_end_of b \<le> high_water b \<and> high_water b \<le> u64_max \<and> elided_bytes b \<le> u64_max \<and>
     counters_inv (activity b) \<and> scanner_ok (scanner b)"

definition buf_inv :: "transcript_buffer \<Rightarrow> bool" where
  "buf_inv b \<longleftrightarrow> span_inv b \<and> holes_zero b \<and> length (holes b) \<le> MAX_HOLE_RANGES"

section \<open>Hole lists\<close>

lemma holes_ok_mono: "holes_ok lo hi hs \<Longrightarrow> lo' \<le> lo \<Longrightarrow> hi \<le> hi' \<Longrightarrow> holes_ok lo' hi' hs"
  by (induction lo hi hs arbitrary: lo' rule: holes_ok.induct) auto

lemma in_holes_append [simp]: "in_holes x (hs @ hs') \<longleftrightarrow> in_holes x hs \<or> in_holes x hs'"
  by (induction hs) auto

lemma in_holes_bounds: "holes_ok lo hi hs \<Longrightarrow> in_holes x hs \<Longrightarrow> lo \<le> x \<and> x < hi"
  by (induction lo hi hs rule: holes_ok.induct) auto

lemma holes_ok_snoc:
  "holes_ok lo hi hs \<Longrightarrow> lo \<le> hi \<Longrightarrow> hi \<le> s \<Longrightarrow> s < e \<Longrightarrow> e < hi' \<Longrightarrow> holes_ok lo hi' (hs @ [(s, e)])"
  by (induction lo hi hs rule: holes_ok.induct) auto

lemma holes_ok_last:
  "holes_ok lo hi hs \<Longrightarrow> hs \<noteq> [] \<Longrightarrow> lo < snd (last hs) \<and> snd (last hs) < hi"
  by (induction lo hi hs rule: holes_ok.induct) fastforce+

lemma in_holes_last: "holes_ok lo hi hs \<Longrightarrow> in_holes x hs \<Longrightarrow> x < snd (last hs)"
proof (induction lo hi hs rule: holes_ok.induct)
  case (2 lo hi s e hs)
  then show ?case using holes_ok_last [of e hi hs] by (cases "hs = []") auto
qed simp

lemma holes_ok_subtract:
  "holes_ok lo hi hs \<Longrightarrow> s < e \<Longrightarrow> holes_ok lo hi (subtract_range s e hs)"
  by (induction lo hi hs rule: holes_ok.induct)
    (auto simp: not_le intro: holes_ok_mono)

lemma in_holes_subtract:
  "s < e \<Longrightarrow> in_holes x (subtract_range s e hs) \<longleftrightarrow> in_holes x hs \<and> \<not> (s \<le> x \<and> x < e)"
  by (induction s e hs rule: subtract_range.induct) auto

text \<open>A write adds at most one hole: only one hole can contain both ends strictly.\<close>

lemma subtract_range_above: "holes_ok lo hi hs \<Longrightarrow> e \<le> lo \<Longrightarrow> subtract_range s e hs = hs"
  by (induction lo hi hs rule: holes_ok.induct) auto

lemma subtract_range_below: "holes_ok lo (Suc s) hs \<Longrightarrow> subtract_range s e hs = hs"
  by (induction lo "Suc s" hs rule: holes_ok.induct) auto

lemma length_subtract_range:
  "holes_ok lo hi hs \<Longrightarrow> length (subtract_range s e hs) \<le> Suc (length hs)"
  by (induction lo hi hs rule: holes_ok.induct) (auto simp: not_le subtract_range_above)

lemma holes_ok_truncate:
  "holes_ok lo hi hs \<Longrightarrow> lo \<le> nb \<Longrightarrow> holes_ok nb hi (truncate_holes nb hs)"
proof (induction lo hi hs rule: holes_ok.induct)
  case (1 lo hi)
  then show ?case by (simp add: truncate_holes_def)
next
  case (2 lo hi s e hs)
  show ?case
  proof (cases "e \<le> nb")
    case True
    with 2 show ?thesis by (simp add: truncate_holes_def)
  next
    case False
    with "2.prems" have above: "holes_ok e hi hs" "nb \<le> e" by auto
    have "truncate_holes nb hs = hs"
      using above by (induction e hi hs rule: holes_ok.induct) (auto simp: truncate_holes_def)
    moreover have "truncate_holes nb ((s, e) # hs) = (max s nb, e) # truncate_holes nb hs"
      using False by (simp add: truncate_holes_def)
    ultimately show ?thesis using False "2.prems" by auto
  qed
qed

lemma in_holes_truncate: "in_holes x (truncate_holes nb hs) \<longleftrightarrow> in_holes x hs \<and> nb \<le> x"
  by (induction hs) (auto simp: truncate_holes_def)

lemma length_truncate [simp]: "length (truncate_holes nb hs) \<le> length hs"
  by (simp add: truncate_holes_def)

subsection \<open>Counting hole bytes\<close>

lemma finite_in_holes [simp]: "finite {x. in_holes x hs}" "finite {x. x < m \<and> in_holes x hs}"
proof -
  have "{x. in_holes x hs} = (\<Union>(s, e) \<in> set hs. {s..<e})"
    by (induction hs) auto
  then show "finite {x. in_holes x hs}" by auto
  then show "finite {x. x < m \<and> in_holes x hs}" by simp
qed

lemma card_holes_below:
  "holes_ok lo hi hs \<Longrightarrow>
   card {x. x < m \<and> in_holes x hs} = (\<Sum>(s, e) \<leftarrow> hs. min e m - s)"
proof (induction lo hi hs rule: holes_ok.induct)
  case (1 lo hi)
  then show ?case by simp
next
  case (2 lo hi s e hs)
  have "{x. x < m \<and> in_holes x ((s, e) # hs)} = {s..<min e m} \<union> {x. x < m \<and> in_holes x hs}"
    by auto
  moreover have "{s..<min e m} \<inter> {x. x < m \<and> in_holes x hs} = {}"
    using "2.prems" in_holes_bounds [of e hi hs] by fastforce
  ultimately show ?case
    using 2 by (simp add: card_Un_disjoint)
qed

lemma card_holes_bound:
  assumes "holes_ok lo hi hs"
  shows "card {x. x < m \<and> in_holes x hs} \<le> m - lo"
proof -
  have "{x. x < m \<and> in_holes x hs} \<subseteq> {lo..<m}"
    using in_holes_bounds [OF assms] by auto
  then have "card {x. x < m \<and> in_holes x hs} \<le> card {lo..<m}" by (intro card_mono) auto
  then show ?thesis by simp
qed

lemma fold_sat_add:
  "acc + sum_list ns \<le> u64_max \<Longrightarrow> fold (\<lambda>n acc. sat_add_u64 acc n) ns acc = acc + sum_list ns"
  by (induction ns arbitrary: acc) (auto simp: sat_add_u64_exact)

lemma hole_bytes_below_card:
  assumes ok: "holes_ok lo hi hs" and "nb \<le> u64_max"
  shows "hole_bytes_below lo nb hs = card {x. x < nb \<and> in_holes x hs}"
proof -
  have eq: "map (\<lambda>(s, e). min e nb - max s lo') hs = map (\<lambda>(s, e). min e nb - s) hs"
    if "lo' \<le> lo" for lo'
    using ok that by (induction lo hi hs rule: holes_ok.induct) auto
  have "hole_bytes_below lo nb hs
      = fold (\<lambda>n acc. sat_add_u64 acc n) (map (\<lambda>(s, e). min e nb - max s lo) hs) 0"
    by (simp add: hole_bytes_below_def fold_map comp_def case_prod_unfold)
  also have "\<dots> = (\<Sum>(s, e) \<leftarrow> hs. min e nb - s)"
    using card_holes_below [OF ok, of nb] card_holes_bound [OF ok, of nb] assms(2)
    by (simp add: eq fold_sat_add)
  finally show ?thesis by (simp add: card_holes_below [OF ok])
qed

lemma hole_sum_card:
  assumes "holes_ok lo hi hs" and "hi \<le> m" and "m \<le> u64_max"
  shows "hole_sum 0 hs = Some (card {x. x < m \<and> in_holes x hs})"
proof -
  have sum: "hole_sum acc hs = Some (fold (\<lambda>n acc. sat_add_u64 acc n) (map (\<lambda>(s, e). min e m - s) hs) acc)"
    for acc
    using assms(1,2) by (induction lo hi hs arbitrary: acc rule: holes_ok.induct) auto
  show ?thesis
    using card_holes_below [OF assms(1), of m] card_holes_bound [OF assms(1), of m] assms(3)
    by (simp add: sum fold_sat_add)
qed

section \<open>The steps of a merge\<close>

text \<open>Bytes the buffer can account for below an offset, and the fields a step leaves alone.\<close>

definition received_below :: "transcript_buffer \<Rightarrow> nat \<Rightarrow> nat" where
  "received_below b m = card {x \<in> dom (content b). x < m}"

definition same_meta :: "transcript_buffer \<Rightarrow> transcript_buffer \<Rightarrow> bool" where
  "same_meta b b' \<longleftrightarrow> high_water b' = high_water b \<and> max_bytes b' = max_bytes b \<and>
     activity b' = activity b \<and> scanner b' = scanner b"

lemma dom_content:
  "dom (content b) = {x. base_offset b \<le> x \<and> x < span_end_of b \<and> \<not> in_holes x (holes b)}"
  by (auto simp: content_def dom_def)

lemma content_upto:
  assumes "span_inv b" and "base_offset b \<le> m" and "m \<le> span_end_of b"
  shows "received_below b m = (m - base_offset b) - card {x. x < m \<and> in_holes x (holes b)}"
proof -
  let ?H = "{x. x < m \<and> in_holes x (holes b)}"
  have sub: "?H \<subseteq> {base_offset b..<m}"
    using assms(1) in_holes_bounds by (fastforce simp: span_inv_def)
  have "{x \<in> dom (content b). x < m} = {base_offset b..<m} - ?H"
    using assms(3) by (auto simp: dom_content)
  then show ?thesis
    using sub by (simp add: received_below_def card_Diff_subset)
qed

lemma received_below_cap: "span_end_of b \<le> m \<Longrightarrow> received_below b m = received_below b (span_end_of b)"
  unfolding received_below_def by (rule arg_cong [of _ _ card]) (auto simp: dom_content)

lemma advance_base_spec:
  assumes inv: "span_inv b" "holes_zero b" and new: "base_offset b < nb" "nb \<le> high_water b"
  obtains b' where "advance_base b nb = Some b'" and "span_inv b'" and "holes_zero b'"
    and "base_offset b' = nb" and "span_end_of b' = max nb (span_end_of b)" and "same_meta b b'"
    and "content b' = content b |` {nb..}" and "length (holes b') \<le> length (holes b)"
    and "elided_bytes b' = sat_add_u64 (elided_bytes b) (received_below b nb)"
proof -
  let ?se = "span_end_of b"
  from inv new have hok: "holes_ok (base_offset b) ?se (holes b)" and u: "?se \<le> u64_max" "nb \<le> u64_max"
    and sat: "sat_add_u64 (base_offset b) (length (data b)) = ?se"
    by (auto simp: span_inv_def sat_add_u64_def span_end_of_def)
  show thesis
  proof (cases "?se \<le> nb")
    case True
    let ?b = "b\<lparr>elided_bytes := sat_add_u64 (elided_bytes b) (received_below b nb),
                data := [], holes := [], base_offset := nb\<rparr>"
    have "received_below b nb = length (data b) - card {x. x < ?se \<and> in_holes x (holes b)}"
      using received_below_cap [OF True] content_upto [OF inv(1), of ?se] by (simp add: span_end_of_def)
    then have eq: "advance_base b nb = Some ?b"
      using True hole_sum_card [OF hok order_refl u(1)]
      by (simp add: advance_base_def sat total_hole_bytes_def Let_def)
    have cont: "content ?b = content b |` {nb..}"
      using True by (auto simp: content_def restrict_map_def span_end_of_def fun_eq_iff)
    show thesis
      by (rule that [OF eq]) (use True inv new cont in \<open>auto simp: span_inv_def holes_zero_def span_end_of_def same_meta_def\<close>)
  next
    case False
    let ?d = "nb - base_offset b"
    let ?b = "b\<lparr>elided_bytes := sat_add_u64 (elided_bytes b) (received_below b nb),
                data := drop ?d (data b), holes := truncate_holes nb (holes b), base_offset := nb\<rparr>"
    from False new have d: "?d \<le> length (data b)" by (simp add: span_end_of_def)
    have "received_below b nb = ?d - hole_bytes_below (base_offset b) nb (holes b)"
      using content_upto [OF inv(1), of nb] False new hole_bytes_below_card [OF hok u(2)] by simp
    then have eq: "advance_base b nb = Some ?b"
      using False new d by (simp add: advance_base_def sat Let_def slice_from_def)
    have se: "span_end_of ?b = ?se"
      using False new d by (simp add: span_end_of_def)
    have cont: "content ?b = content b |` {nb..}"
      using False new d
      by (auto simp: content_def restrict_map_def se in_holes_truncate fun_eq_iff)
    have zero: "holes_zero ?b"
      unfolding holes_zero_def
    proof (intro allI impI)
      fix x assume x: "base_offset ?b \<le> x" "x < span_end_of ?b" "in_holes x (holes ?b)"
      then have "data b ! (x - base_offset b) = 0"
        using inv(2) new by (simp add: se in_holes_truncate holes_zero_def)
      then show "data ?b ! (x - base_offset ?b) = 0"
        using x new d by simp
    qed
    show thesis
      by (rule that [OF eq])
        (use False inv new cont zero se holes_ok_truncate [OF hok, of nb] in
          \<open>auto simp: span_inv_def same_meta_def\<close>)
  qed
qed

lemma collapse_spec:
  assumes inv: "span_inv b" and ne: "holes b \<noteq> []"
  obtains b' where "collapse_to_newest b = Some b'" and "span_inv b'" and "holes_zero b'"
    and "base_offset b' = snd (last (holes b))" and "holes b' = []"
    and "span_end_of b' = span_end_of b" and "same_meta b b'"
    and "content b' = content b |` {base_offset b'..}"
    and "elided_bytes b' = sat_add_u64 (elided_bytes b) (received_below b (base_offset b'))"
proof -
  let ?le = "snd (last (holes b))" and ?se = "span_end_of b"
  let ?w = "?le - base_offset b"
  from inv have hok: "holes_ok (base_offset b) ?se (holes b)" and u: "?se \<le> u64_max"
    by (auto simp: span_inv_def)
  note last = holes_ok_last [OF hok ne]
  let ?b = "b\<lparr>elided_bytes := sat_add_u64 (elided_bytes b) (received_below b ?le),
              data := drop ?w (data b), holes := [], base_offset := ?le\<rparr>"
  from last have w: "?w \<le> length (data b)" by (auto simp: span_end_of_def)
  have "{x. x < ?se \<and> in_holes x (holes b)} = {x. x < ?le \<and> in_holes x (holes b)}"
    using last in_holes_last [OF hok] by fastforce
  then have "received_below b ?le = ?w - card {x. x < ?se \<and> in_holes x (holes b)}"
    using content_upto [OF inv, of ?le] last by simp
  then have eq: "collapse_to_newest b = Some ?b"
    using ne last w hole_sum_card [OF hok order_refl u]
    by (simp add: collapse_to_newest_def total_hole_bytes_def slice_from_def Let_def)
  have se: "span_end_of ?b = ?se"
    using last w by (simp add: span_end_of_def)
  have above: "\<not> in_holes x (holes b)" if "?le \<le> x" for x
    using in_holes_last [OF hok, of x] that by auto
  have cont: "content ?b = content b |` {?le..}"
  proof
    fix x show "content ?b x = (content b |` {?le..}) x"
      using above [of x] last w
      by (auto simp: content_def restrict_map_def se)
  qed
  show thesis
    by (rule that [OF eq])
      (use inv last cont se in \<open>auto simp: span_inv_def holes_zero_def same_meta_def\<close>)
qed


text \<open>Steps 3 to 5 together: after them the delta is the content of its range.\<close>

definition overwrite_span ::
  "transcript_buffer \<Rightarrow> nat \<Rightarrow> byte list \<Rightarrow> nat \<Rightarrow> transcript_buffer option" where
  "overwrite_span b write_offset write_bytes end_off = do {
     b \<leftarrow> extend_span b write_offset end_off;
     b \<leftarrow> write_span b write_offset write_bytes;
     Some (subtract_range_from_holes b write_offset end_off) }"

lemma extend_span_spec:
  assumes inv: "span_inv b" and wo: "base_offset b \<le> wo" "wo < en" "en \<le> high_water b"
  obtains b' where "extend_span b wo en = Some b'" and "base_offset b' = base_offset b"
    and "span_end_of b' = max (span_end_of b) en" and "same_meta b b'"
    and "elided_bytes b' = elided_bytes b"
    and "holes b' = holes b @ (if span_end_of b < wo then [(span_end_of b, wo)] else [])"
    and "holes_ok (base_offset b') (span_end_of b') (holes b')"
    and "\<And>i. i < length (data b') \<Longrightarrow> data b' ! i = (if i < length (data b) then data b ! i else 0)"
proof -
  let ?se = "span_end_of b"
  from inv have hok: "holes_ok (base_offset b) ?se (holes b)"
    and sat: "sat_add_u64 (base_offset b) (length (data b)) = ?se"
    by (auto simp: span_inv_def sat_add_u64_def span_end_of_def)
  let ?hs = "holes b @ (if ?se < wo then [(?se, wo)] else [])"
  let ?d = "if ?se < en then resize (data b) (en - base_offset b) 0 else data b"
  let ?b = "b\<lparr>holes := ?hs, data := ?d\<rparr>"
  have eq: "extend_span b wo en = Some ?b"
    using wo by (simp add: extend_span_def sat Let_def)
  have se: "span_end_of ?b = max ?se en"
    using wo by (auto simp: span_end_of_def)
  have "holes_ok (base_offset b) (max ?se en) ?hs"
    using hok wo holes_ok_snoc [OF hok, of ?se wo "max ?se en"]
    by (auto intro: holes_ok_mono simp: span_end_of_def)
  with eq se show thesis
    by (intro that [of ?b]) (auto simp: same_meta_def nth_resize)
qed

lemma overwrite_span_spec:
  assumes inv: "span_inv b" "holes_zero b"
    and wo: "base_offset b \<le> wo" "wo < en" "en \<le> high_water b" "en \<le> base_offset b + max_bytes b"
    and len: "length ws = en - wo"
  obtains b' where "overwrite_span b wo ws en = Some b'" and "span_inv b'" and "holes_zero b'"
    and "base_offset b' = base_offset b" and "span_end_of b' = max (span_end_of b) en"
    and "same_meta b b'" and "elided_bytes b' = elided_bytes b"
    and "content b' = content b ++ delta_map wo ws"
    and "length (holes b') \<le> Suc (length (holes b))"
proof -
  obtain b1 where b1: "extend_span b wo en = Some b1" "base_offset b1 = base_offset b"
    "span_end_of b1 = max (span_end_of b) en" "same_meta b b1" "elided_bytes b1 = elided_bytes b"
    "holes b1 = holes b @ (if span_end_of b < wo then [(span_end_of b, wo)] else [])"
    "holes_ok (base_offset b1) (span_end_of b1) (holes b1)"
    and nth1: "\<And>i. i < length (data b1) \<Longrightarrow> data b1 ! i = (if i < length (data b) then data b ! i else 0)"
    using extend_span_spec [OF inv(1) wo(1-3)] by blast
  let ?rel = "wo - base_offset b"
  have rel: "?rel + length ws \<le> length (data b1)"
    using wo len b1(2,3) by (simp add: span_end_of_def)
  then obtain d where d: "splice (data b1) ?rel ws = Some d"
    by (simp add: splice_def)
  note dlen = length_splice [OF d] and dnth = nth_splice [OF d]
  let ?b = "b1\<lparr>data := d, holes := subtract_range wo en (holes b1)\<rparr>"
  have eq: "overwrite_span b wo ws en = Some ?b"
    using b1 wo d by (simp add: overwrite_span_def write_span_def subtract_range_from_holes_def)
  have se: "span_end_of ?b = span_end_of b1"
    using dlen by (simp add: span_end_of_def)
  have read: "data ?b ! (x - base_offset b) =
      (if wo \<le> x \<and> x < en then ws ! (x - wo)
       else if x < span_end_of b then data b ! (x - base_offset b) else 0)"
    if "base_offset b \<le> x" "x < span_end_of b1" for x
    using that wo len dnth [of "x - base_offset b"] nth1 [of "x - base_offset b"] b1(2)
    by (auto simp: span_end_of_def)
  have holes': "in_holes x (holes ?b) \<longleftrightarrow>
      (in_holes x (holes b) \<or> (span_end_of b \<le> x \<and> x < wo)) \<and> \<not> (wo \<le> x \<and> x < en)" for x
    using wo by (auto simp: in_holes_subtract b1(6))
  have below: "in_holes x (holes b) \<Longrightarrow> x < span_end_of b" for x
    using inv(1) in_holes_bounds by (fastforce simp: span_inv_def)
  have cont: "content ?b = content b ++ delta_map wo ws"
  proof
    fix x
    show "content ?b x = (content b ++ delta_map wo ws) x"
      using read [of x] holes' [of x] wo len
      by (auto simp: content_def delta_map_def se b1(2,3) map_add_def)
  qed
  have zero: "holes_zero ?b"
    unfolding holes_zero_def
  proof (intro allI impI)
    fix x assume x: "base_offset ?b \<le> x" "x < span_end_of ?b" "in_holes x (holes ?b)"
    then show "data ?b ! (x - base_offset ?b) = 0"
      using read [of x] holes' [of x] below [of x] inv(2)
      by (auto simp: se b1(2) holes_zero_def)
  qed
  have hok: "holes_ok (base_offset ?b) (span_end_of ?b) (holes ?b)"
    using b1(7) wo by (simp only: se) (simp add: holes_ok_subtract)
  have "length (holes ?b) \<le> Suc (length (holes b))"
  proof (cases "span_end_of b < wo")
    case True
    have "holes_ok (base_offset b) (Suc wo) (holes b1)"
      using holes_ok_snoc [of "base_offset b" "span_end_of b" "holes b" "span_end_of b" wo "Suc wo"]
        inv(1) True by (simp add: b1(6) span_inv_def span_end_of_def)
    then show ?thesis using True by (simp add: subtract_range_below b1(6))
  next
    case False
    then show ?thesis using length_subtract_range [OF b1(7), of wo en] by (simp add: b1(6))
  qed
  moreover have "span_inv ?b"
    using inv(1) b1 wo hok dlen
    by (auto simp: span_inv_def same_meta_def se span_end_of_def)
  ultimately show thesis
    using eq cont zero b1 se by (intro that [of ?b]) (auto simp: same_meta_def)
qed


lemma clip_to_floor_spec:
  assumes "base_offset b < offset + length bytes"
  shows "clip_to_floor b offset bytes =
     Some (b\<lparr>elided_bytes := (if offset < base_offset b
              then sat_add_u64 (elided_bytes b) (base_offset b - offset) else elided_bytes b)\<rparr>,
           max offset (base_offset b), drop (base_offset b - offset) bytes)"
  using assms by (auto simp: clip_to_floor_def slice_from_def)

lemma delta_map_drop:
  "delta_map (max offset m) (drop (m - offset) bytes) = delta_map offset bytes |` {m..}"
  by (auto simp: delta_map_def restrict_map_def fun_eq_iff max_def)

lemma dom_delta_map: "dom (delta_map offset bytes) = {offset..<offset + length bytes}"
  by (auto simp: delta_map_def dom_def)

lemma fold_activity_spec:
  assumes "span_inv b"
  obtains b' where "fold_activity b bytes = Some b'" and "b' = b\<lparr>activity := activity b'\<rparr>"
    and "counters_fold (activity b) bytes (scanner b) = Some (activity b')" and "span_inv b'"
proof -
  from counters_fold_total [of "scanner b" "activity b" bytes] assms obtain c where
    "counters_fold (activity b) bytes (scanner b) = Some c" "counters_inv c"
    by (auto simp: span_inv_def)
  then show thesis
    using assms by (intro that [of "b\<lparr>activity := c\<rparr>"])
      (auto simp: fold_activity_def span_inv_def span_end_of_def)
qed

lemma content_activity [simp]:
  "content (b\<lparr>activity := a\<rparr>) = content b" "content (b\<lparr>elided_bytes := e\<rparr>) = content b"
  "content (b\<lparr>high_water := h\<rparr>) = content b"
  by (simp_all add: content_def span_end_of_def fun_eq_iff)

lemma span_end_activity [simp]:
  "span_end_of (b\<lparr>activity := a\<rparr>) = span_end_of b" "span_end_of (b\<lparr>elided_bytes := e\<rparr>) = span_end_of b"
  "span_end_of (b\<lparr>high_water := h\<rparr>) = span_end_of b"
  by (simp_all add: span_end_of_def)

lemma holes_zero_activity [simp]:
  "holes_zero (b\<lparr>activity := a\<rparr>) = holes_zero b" "holes_zero (b\<lparr>elided_bytes := e\<rparr>) = holes_zero b"
  "holes_zero (b\<lparr>high_water := h\<rparr>) = holes_zero b"
  by (simp_all add: holes_zero_def)

text \<open>Step 6 of \<open>apply_delta\<close>, the hole cap.\<close>

definition cap_holes :: "transcript_buffer \<Rightarrow> transcript_buffer option" where
  "cap_holes b = (if MAX_HOLE_RANGES < length (holes b) then collapse_to_newest b else Some b)"

lemma cap_holes_spec:
  assumes inv: "span_inv b" "holes_zero b"
  obtains b' where "cap_holes b = Some b'" and "buf_inv b'" and "same_meta b b'"
    and "base_offset b \<le> base_offset b'" and "span_end_of b' = span_end_of b"
    and "length (holes b) \<le> MAX_HOLE_RANGES \<Longrightarrow> b' = b"
    and "content b' = content b |` {base_offset b'..}"
    and "elided_bytes b' = sat_add_u64 (elided_bytes b) (received_below b (base_offset b'))"
proof (cases "MAX_HOLE_RANGES < length (holes b)")
  case True
  then have ne: "holes b \<noteq> []" by auto
  obtain b' where b': "collapse_to_newest b = Some b'" "span_inv b'" "holes_zero b'"
    "base_offset b' = snd (last (holes b))" "holes b' = []" "span_end_of b' = span_end_of b"
    "same_meta b b'" "content b' = content b |` {base_offset b'..}"
    "elided_bytes b' = sat_add_u64 (elided_bytes b) (received_below b (base_offset b'))"
    using collapse_spec [OF inv(1) ne] by blast
  moreover from holes_ok_last [OF _ ne] inv(1) have "base_offset b \<le> snd (last (holes b))"
    by (auto simp: span_inv_def intro: less_imp_le)
  ultimately show thesis
    using True by (intro that [of b']) (auto simp: cap_holes_def buf_inv_def)
next
  case False
  have "content b = content b |` {base_offset b..}"
    by (auto simp: content_def restrict_map_def fun_eq_iff)
  moreover have "received_below b (base_offset b) = 0"
    by (auto simp: received_below_def dom_content)
  moreover from inv have "elided_bytes b \<le> u64_max" by (simp add: span_inv_def)
  ultimately show thesis
    using False inv by (intro that [of b])
      (auto simp: cap_holes_def buf_inv_def same_meta_def sat_add_u64_0)
qed

lemma merge_delta_eq:
  "merge_delta b offset bytes en = do {
     (b, wo, ws) \<leftarrow> clip_to_floor b offset bytes;
     b \<leftarrow> overwrite_span b wo ws en;
     b \<leftarrow> cap_holes b;
     fold_activity b bytes }"
  by (simp add: merge_delta_def overwrite_span_def cap_holes_def case_prod_unfold Let_def)

lemma merge_delta_spec:
  assumes inv: "buf_inv b" and en: "en = offset + length bytes"
    and bounds: "base_offset b < en" "bytes \<noteq> []" "en \<le> high_water b" "en \<le> base_offset b + max_bytes b"
  defines "merged \<equiv> content b ++ delta_map offset bytes"
  obtains b' where "merge_delta b offset bytes en = Some b'" and "buf_inv b'"
    and "high_water b' = high_water b" and "max_bytes b' = max_bytes b" and "scanner b' = scanner b"
    and "counters_fold (activity b) bytes (scanner b) = Some (activity b')"
    and "base_offset b \<le> base_offset b'" and "span_end_of b' = max (span_end_of b) en"
    and "length (holes b) < MAX_HOLE_RANGES \<Longrightarrow> base_offset b' = base_offset b"
    and "length (holes b) < MAX_HOLE_RANGES \<Longrightarrow> length (holes b') \<le> Suc (length (holes b))"
    and "content b' = merged |` {base_offset b'..}"
    and "elided_bytes b' = sat_add_u64 (elided_bytes b)
      ((base_offset b - offset) + card {x \<in> dom merged. base_offset b \<le> x \<and> x < base_offset b'})"
proof -
  let ?wo = "max offset (base_offset b)" and ?ws = "drop (base_offset b - offset) bytes"
  let ?b0 = "b\<lparr>elided_bytes := (if offset < base_offset b
      then sat_add_u64 (elided_bytes b) (base_offset b - offset) else elided_bytes b)\<rparr>"
  from inv have inv0: "span_inv ?b0" "holes_zero ?b0"
    by (auto simp: buf_inv_def span_inv_def)
  have clip: "clip_to_floor b offset bytes = Some (?b0, ?wo, ?ws)"
    using bounds en by (intro clip_to_floor_spec) simp
  have wo: "base_offset ?b0 \<le> ?wo" "?wo < en" "en \<le> high_water ?b0" "en \<le> base_offset ?b0 + max_bytes ?b0"
    and len: "length ?ws = en - ?wo"
    using bounds en by auto
  obtain b1 where b1: "overwrite_span ?b0 ?wo ?ws en = Some b1" "span_inv b1" "holes_zero b1"
    "base_offset b1 = base_offset b" "span_end_of b1 = max (span_end_of b) en" "same_meta ?b0 b1"
    "elided_bytes b1 = elided_bytes ?b0" "content b1 = content b ++ delta_map ?wo ?ws"
    "length (holes b1) \<le> Suc (length (holes b))"
    using overwrite_span_spec [OF inv0 wo len] by auto
  obtain b2 where b2: "cap_holes b1 = Some b2" "buf_inv b2" "same_meta b1 b2"
    "base_offset b1 \<le> base_offset b2" "span_end_of b2 = span_end_of b1"
    "length (holes b1) \<le> MAX_HOLE_RANGES \<Longrightarrow> b2 = b1"
    "content b2 = content b1 |` {base_offset b2..}"
    "elided_bytes b2 = sat_add_u64 (elided_bytes b1) (received_below b1 (base_offset b2))"
    using cap_holes_spec [OF b1(2,3)] by blast
  obtain b3 where b3: "fold_activity b2 bytes = Some b3" "b3 = b2\<lparr>activity := activity b3\<rparr>"
    "counters_fold (activity b2) bytes (scanner b2) = Some (activity b3)" "span_inv b3"
    using fold_activity_spec [of b2 bytes] b2(2) by (auto simp: buf_inv_def)
  have c1: "content b1 = merged |` {base_offset b..}"
    using b1(8) by (auto simp: merged_def delta_map_drop restrict_map_def map_add_def content_def fun_eq_iff
        split: option.splits)
  have c3: "content b3 = content b2" "base_offset b3 = base_offset b2" "holes b3 = holes b2"
    "span_end_of b3 = span_end_of b2" "high_water b3 = high_water b2" "max_bytes b3 = max_bytes b2"
    "scanner b3 = scanner b2" "elided_bytes b3 = elided_bytes b2" "holes_zero b3 = holes_zero b2"
    by (subst b3(2), simp)+
  have "received_below b1 (base_offset b2) = card {x \<in> dom merged. base_offset b \<le> x \<and> x < base_offset b2}"
    unfolding received_below_def by (rule arg_cong [of _ _ card]) (auto simp: c1 restrict_map_def split: if_splits)
  moreover have "elided_bytes b1 = sat_add_u64 (elided_bytes b) (base_offset b - offset)"
    using b1(7) inv by (auto simp: buf_inv_def span_inv_def sat_add_u64_0)
  ultimately have el: "elided_bytes b3 = sat_add_u64 (elided_bytes b)
      ((base_offset b - offset) + card {x \<in> dom merged. base_offset b \<le> x \<and> x < base_offset b3})"
    by (simp add: b2(8) c3 sat_add_u64_sum)
  show thesis
  proof (rule that)
    show "merge_delta b offset bytes en = Some b3"
      by (simp add: merge_delta_eq clip b1(1) b2(1) b3(1))
    show "content b3 = merged |` {base_offset b3..}"
      using b1(4) b2(4) by (simp add: c3 b2(7) c1 Int_absorb1)
    show "length (holes b) < MAX_HOLE_RANGES \<Longrightarrow> length (holes b3) \<le> Suc (length (holes b))"
      using b1(9) b2(6) by (simp add: c3)
  qed (use b1 b2 b3(3,4) el in \<open>auto simp: c3 buf_inv_def same_meta_def\<close>)
qed


section \<open>The merge as a whole\<close>

text \<open>The floor a non-empty delta with end \<open>en\<close> imposes: the byte cap, on top of the old floor.\<close>

definition cap_floor :: "transcript_buffer \<Rightarrow> nat \<Rightarrow> nat" where
  "cap_floor b en = max (base_offset b) (en - max_bytes b)"

lemma advance_to_floor:
  assumes inv: "buf_inv b" and en: "en \<le> high_water b"
  obtains b' where
    "(if base_offset b < en - max_bytes b then advance_base b (en - max_bytes b) else Some b) = Some b'"
    and "buf_inv b'" and "base_offset b' = cap_floor b en" and "same_meta b b'"
    and "span_end_of b' = max (cap_floor b en) (span_end_of b)"
    and "content b' = content b |` {cap_floor b en..}" and "length (holes b') \<le> length (holes b)"
    and "elided_bytes b' = sat_add_u64 (elided_bytes b) (received_below b (cap_floor b en))"
proof (cases "base_offset b < en - max_bytes b")
  case True
  from inv have i: "span_inv b" "holes_zero b" by (auto simp: buf_inv_def)
  from True have fl: "cap_floor b en = en - max_bytes b" by (simp add: cap_floor_def)
  from en have nb: "en - max_bytes b \<le> high_water b" by simp
  obtain b' where
    "advance_base b (en - max_bytes b) = Some b'" "span_inv b'" "holes_zero b'"
    "base_offset b' = en - max_bytes b" "span_end_of b' = max (en - max_bytes b) (span_end_of b)"
    "same_meta b b'" "content b' = content b |` {en - max_bytes b..}"
    "length (holes b') \<le> length (holes b)"
    "elided_bytes b' = sat_add_u64 (elided_bytes b) (received_below b (en - max_bytes b))"
    using advance_base_spec [OF i True nb] by blast
  then show thesis
    using True inv by (intro that [of b']) (auto simp: fl buf_inv_def)
next
  case False
  then have fl: "cap_floor b en = base_offset b" by (simp add: cap_floor_def)
  have "content b = content b |` {base_offset b..}" "received_below b (base_offset b) = 0"
    by (auto simp: content_def restrict_map_def fun_eq_iff received_below_def dom_content)
  moreover from inv have "elided_bytes b \<le> u64_max" "base_offset b \<le> span_end_of b"
    by (auto simp: buf_inv_def span_inv_def span_end_of_def)
  ultimately show thesis
    using False inv by (intro that [of b]) (auto simp: fl same_meta_def sat_add_u64_0)
qed

lemma map_add_restrict_below:
  fixes m :: nat
  assumes "dom g \<subseteq> {..<m}"
  shows "(f ++ g) |` {m..} = f |` {m..}"
proof
  fix x
  show "((f ++ g) |` {m..}) x = (f |` {m..}) x"
    using assms by (cases "m \<le> x") (auto simp: restrict_map_def map_add_def split: option.splits)
qed

lemma restrict_add_restrict:
  "m \<le> n \<Longrightarrow> ((f |` {m..}) ++ g) |` {n..} = (f ++ g) |` {n..}"
  for m n :: nat
  by (auto simp: restrict_map_def map_add_def fun_eq_iff split: option.splits)

lemma buf_inv_high_water:
  "buf_inv b \<Longrightarrow> high_water b \<le> h \<Longrightarrow> h \<le> u64_max \<Longrightarrow> buf_inv (b\<lparr>high_water := h\<rparr>)"
  by (auto simp: buf_inv_def span_inv_def)

lemma apply_delta_overflow: "u64_max < offset + length bytes \<Longrightarrow> apply_delta b offset bytes = Some b"
  by (simp add: apply_delta_def checked_add_u64_def)

lemma apply_delta_empty:
  assumes inv: "buf_inv b" and off: "offset \<le> u64_max"
  obtains b' where "apply_delta b offset [] = Some b'" and "buf_inv b'"
    and "b' = b\<lparr>high_water := max (high_water b) offset, activity := activity b'\<rparr>"
    and "counters_fold (activity b) [] (scanner b) = Some (activity b')"
proof -
  let ?b = "b\<lparr>high_water := max (high_water b) offset\<rparr>"
  have inv': "buf_inv ?b"
    using inv off by (intro buf_inv_high_water) (auto simp: buf_inv_def span_inv_def)
  then obtain b' where "fold_activity ?b [] = Some b'" "b' = ?b\<lparr>activity := activity b'\<rparr>"
    "counters_fold (activity b) [] (scanner b) = Some (activity b')" "span_inv b'"
    using fold_activity_spec [of ?b "[]"] by (auto simp: buf_inv_def)
  moreover from this inv' have "buf_inv b'"
    unfolding buf_inv_def
    by (metis holes_zero_activity(1) transcript_buffer.select_convs(3) transcript_buffer.surjective
        transcript_buffer.update_convs(7))
  ultimately show thesis
    using off by (intro that [of b']) (auto simp: apply_delta_def checked_add_u64_def)
qed


lemma apply_delta_nonempty:
  assumes inv: "buf_inv b" and en: "en = offset + length bytes" "en \<le> u64_max" and ne: "bytes \<noteq> []"
  defines "merged \<equiv> content b ++ delta_map offset bytes"
  obtains b' where "apply_delta b offset bytes = Some b'" and "buf_inv b'"
    and "high_water b' = max (high_water b) en" and "max_bytes b' = max_bytes b" and "scanner b' = scanner b"
    and "if en \<le> cap_floor b en then activity b' = activity b
         else counters_fold (activity b) bytes (scanner b) = Some (activity b')"
    and "cap_floor b en \<le> base_offset b'" and "span_end_of b' = max (base_offset b') (max (span_end_of b) en)"
    and "length (holes b) < MAX_HOLE_RANGES \<Longrightarrow> base_offset b' = cap_floor b en"
    and "length (holes b) < MAX_HOLE_RANGES \<Longrightarrow> length (holes b') \<le> Suc (length (holes b))"
    and "content b' = merged |` {base_offset b'..}"
    and "elided_bytes b' = sat_add_u64 (elided_bytes b)
       (received_below b (cap_floor b en) + card {x \<in> dom (delta_map offset bytes). x < cap_floor b en}
        + card {x \<in> dom merged. cap_floor b en \<le> x \<and> x < base_offset b'})"
proof -
  let ?b = "b\<lparr>high_water := max (high_water b) en\<rparr>" and ?f = "cap_floor b en"
  have fl: "cap_floor ?b en = ?f" "received_below ?b ?f = received_below b ?f"
    by (simp_all add: cap_floor_def received_below_def)
  have inv': "buf_inv ?b"
    using inv en by (intro buf_inv_high_water) (auto simp: buf_inv_def span_inv_def)
  have hw: "en \<le> high_water ?b" by simp
  obtain b1 where raw:
    "(if base_offset ?b < en - max_bytes ?b then advance_base ?b (en - max_bytes ?b) else Some ?b) = Some b1"
    "buf_inv b1" "base_offset b1 = cap_floor ?b en" "same_meta ?b b1"
    "span_end_of b1 = max (cap_floor ?b en) (span_end_of ?b)"
    "content b1 = content ?b |` {cap_floor ?b en..}" "length (holes b1) \<le> length (holes ?b)"
    "elided_bytes b1 = sat_add_u64 (elided_bytes ?b) (received_below ?b (cap_floor ?b en))"
    using advance_to_floor [OF inv' hw] by blast
  have b1:
    "(if base_offset b < en - max_bytes b then advance_base ?b (en - max_bytes b) else Some ?b) = Some b1"
    "base_offset b1 = ?f" "span_end_of b1 = max ?f (span_end_of b)"
    "content b1 = content b |` {?f..}" "length (holes b1) \<le> length (holes b)"
    "elided_bytes b1 = sat_add_u64 (elided_bytes b) (received_below b ?f)"
    "high_water b1 = max (high_water b) en" "max_bytes b1 = max_bytes b"
    "activity b1 = activity b" "scanner b1 = scanner b"
    using raw by (simp_all add: fl same_meta_def cong: if_cong)
  note inv1 = raw(2)
  have eq: "apply_delta b offset bytes =
      (if en \<le> ?f then Some (b1\<lparr>elided_bytes := sat_add_u64 (elided_bytes b1) (length bytes)\<rparr>)
       else merge_delta b1 offset bytes en)"
    using en ne b1(1,2) by (simp add: apply_delta_def checked_add_u64_def Let_def cong: if_cong)
  have dcard: "card {x \<in> dom (delta_map offset bytes). x < ?f} = min (length bytes) (?f - offset)"
  proof -
    have "{x \<in> dom (delta_map offset bytes). x < ?f} = {offset..<min ?f (offset + length bytes)}"
      by (auto simp: dom_delta_map)
    then show ?thesis by auto
  qed
  show thesis
  proof (cases "en \<le> ?f")
    case True
    let ?b' = "b1\<lparr>elided_bytes := sat_add_u64 (elided_bytes b1) (length bytes)\<rparr>"
    have "dom (delta_map offset bytes) \<subseteq> {..<?f}"
      using True by (auto simp: dom_delta_map en)
    then have cont: "content ?b' = merged |` {?f..}"
      by (simp add: b1 merged_def map_add_restrict_below)
    have inv2: "buf_inv ?b'"
      using inv1 by (simp add: buf_inv_def span_inv_def)
    have el: "elided_bytes ?b' = sat_add_u64 (elided_bytes b)
       (received_below b ?f + card {x \<in> dom (delta_map offset bytes). x < ?f}
        + card {x \<in> dom merged. ?f \<le> x \<and> x < base_offset ?b'})"
    proof -
      have "card {x \<in> dom (delta_map offset bytes). x < ?f} = length bytes"
        using True dcard en(1) by linarith
      moreover have none: "{x \<in> dom merged. ?f \<le> x \<and> x < ?f} = {}" by auto
      ultimately show ?thesis by (simp add: b1(2,6) sat_add_u64_sum none)
    qed
    show thesis
      by (rule that [of ?b']) (use True b1 cont inv2 el eq in simp_all)
  next
    case False
    have room: "base_offset b1 < en" "en \<le> high_water b1" "en \<le> base_offset b1 + max_bytes b1"
      using b1(2,7,8) False by (simp_all add: cap_floor_def)
    let ?m = "content b1 ++ delta_map offset bytes"
    obtain b2 where b2: "merge_delta b1 offset bytes en = Some b2" "buf_inv b2"
      "high_water b2 = high_water b1" "max_bytes b2 = max_bytes b1" "scanner b2 = scanner b1"
      "counters_fold (activity b1) bytes (scanner b1) = Some (activity b2)"
      "base_offset b1 \<le> base_offset b2" "span_end_of b2 = max (span_end_of b1) en"
      "length (holes b1) < MAX_HOLE_RANGES \<Longrightarrow> base_offset b2 = base_offset b1"
      "length (holes b1) < MAX_HOLE_RANGES \<Longrightarrow> length (holes b2) \<le> Suc (length (holes b1))"
      "content b2 = ?m |` {base_offset b2..}"
      "elided_bytes b2 = sat_add_u64 (elided_bytes b1)
        ((base_offset b1 - offset) + card {x \<in> dom ?m. base_offset b1 \<le> x \<and> x < base_offset b2})"
      using merge_delta_spec [OF inv1 en(1) room(1) ne room(2,3)] by blast
    have cont: "content b2 = merged |` {base_offset b2..}"
      using b2(7,11) restrict_add_restrict [of ?f "base_offset b2"] by (simp add: b1 merged_def)
    have dropped: "{x \<in> dom ?m. ?f \<le> x \<and> x < base_offset b2} = {x \<in> dom merged. ?f \<le> x \<and> x < base_offset b2}"
      by (auto simp: merged_def b1 restrict_map_def dom_def)
    have clip: "card {x \<in> dom (delta_map offset bytes). x < ?f} = ?f - offset"
      using False dcard en(1) by linarith
    have el: "elided_bytes b2 = sat_add_u64 (elided_bytes b)
       (received_below b ?f + card {x \<in> dom (delta_map offset bytes). x < ?f}
        + card {x \<in> dom merged. ?f \<le> x \<and> x < base_offset b2})"
      unfolding b2(12) b1(2,6) dropped clip by (simp only: sat_add_u64_sum add.assoc)
    have se: "span_end_of b2 = max (base_offset b2) (max (span_end_of b) en)"
      using b2(8) b1(3) False by (auto simp: span_end_of_def max_def)
    show thesis
      by (rule that [of b2]) (use False b1 b2(1-10) cont el se eq in simp_all)
  qed
qed

end
