(* ===== verification/Buffer_Heap.thy ===== *)
theory Buffer_Heap
  imports Transcript_Buffer
begin

text \<open>
  Shared buffers: \<open>Arc<Mutex<TranscriptBuffer>>\<close>.

  The session registry and the held-buffer store hand the same buffer to each other by
  cloning its \<open>Arc\<close>, so buffers live in a store of cells and the components keep addresses;
  \<open>Arc::ptr_eq\<close> is equality of addresses. A cell carries the poison flag of its mutex: a
  lock of a poisoned mutex is an error, which every caller recovers from by clearing the
  buffer and the flag (\<open>lock_buffer\<close> and \<open>purge_record_for\<close> in \<open>infra/session.rs\<close>,
  \<open>purge_record\<close> in \<open>infra/transcript_hold.rs\<close>).
\<close>

section \<open>Model\<close>

type_synonym arc = nat

record cell =
  poisoned :: bool
  buf :: transcript_buffer

record heap =
  cells :: "arc \<Rightarrow> cell"
  next_arc :: arc

definition arc_new :: "heap \<Rightarrow> transcript_buffer \<Rightarrow> arc \<times> heap" where
  "arc_new h b = (next_arc h,
     h\<lparr>cells := (cells h)(next_arc h := \<lparr>poisoned = False, buf = b\<rparr>), next_arc := Suc (next_arc h)\<rparr>)"

definition set_cell :: "arc \<Rightarrow> cell \<Rightarrow> heap \<Rightarrow> heap" where
  "set_cell a c h = h\<lparr>cells := (cells h)(a := c)\<rparr>"

definition buf_at :: "heap \<Rightarrow> arc \<Rightarrow> transcript_buffer" where
  "buf_at h a = buf (cells h a)"

text \<open>\<open>lock_buffer\<close>: the heap after the lock is taken, recovered if it was poisoned.\<close>

definition lock_buffer :: "heap \<Rightarrow> arc \<Rightarrow> heap" where
  "lock_buffer h a =
     (if poisoned (cells h a)
      then set_cell a \<lparr>poisoned = False, buf = snd (clear (buf_at h a))\<rparr> h else h)"

text \<open>
  The body that \<open>purge_record_for\<close> and \<open>purge_record\<close> share: clear under the lock, poisoned
  or not, and report the bytes, nothing for an empty buffer.
\<close>

definition purge_arc :: "string \<Rightarrow> arc \<Rightarrow> heap \<Rightarrow> transcript_purge_record option \<times> heap" where
  "purge_arc session_id a h =
     (let (purged, b) = clear (buf_at h a);
          h' = set_cell a \<lparr>poisoned = False, buf = b\<rparr> h
      in (if purged = 0 then None
          else Some \<lparr>purged_session_id = session_key ''default'' '''' session_id, bytes_purged = purged\<rparr>,
          h'))"

text \<open>\<open>buf.apply_delta\<close> under the lock.\<close>

definition heap_apply_delta :: "heap \<Rightarrow> arc \<Rightarrow> nat \<Rightarrow> byte list \<Rightarrow> heap option" where
  "heap_apply_delta h a offset bytes =
     (let h1 = lock_buffer h a in do {
        b \<leftarrow> apply_delta (buf_at h1 a) offset bytes;
        Some (set_cell a \<lparr>poisoned = False, buf = b\<rparr> h1) })"

section \<open>Invariant and frame\<close>

text \<open>Every allocated buffer satisfies its invariant.\<close>

definition heap_inv :: "heap \<Rightarrow> bool" where
  "heap_inv h \<longleftrightarrow> (\<forall>a < next_arc h. buf_inv (buf_at h a))"

lemma buf_at_set_cell [simp]: "buf_at (set_cell a c h) a' = (if a' = a then buf c else buf_at h a')"
  by (simp add: buf_at_def set_cell_def)

lemma next_arc_set_cell [simp]: "next_arc (set_cell a c h) = next_arc h"
  by (simp add: set_cell_def)

lemma buf_inv_clear: "buf_inv b \<Longrightarrow> buf_inv (snd (clear b))"
  by (simp add: clear_def buf_inv_def span_inv_def holes_zero_def span_end_of_def)

lemma heap_inv_set_cell: "heap_inv h \<Longrightarrow> buf_inv (buf c) \<Longrightarrow> heap_inv (set_cell a c h)"
  by (simp add: heap_inv_def)

lemma arc_new_fresh:
  "arc_new h b = (a, h') \<Longrightarrow> a = next_arc h \<and> next_arc h' = Suc (next_arc h) \<and> buf_at h' a = b \<and>
   (\<forall>a' < next_arc h. cells h' a' = cells h a')"
  by (auto simp: arc_new_def buf_at_def)

lemma heap_inv_arc_new: "heap_inv h \<Longrightarrow> buf_inv b \<Longrightarrow> heap_inv (snd (arc_new h b))"
  by (auto simp: heap_inv_def arc_new_def buf_at_def less_Suc_eq)

lemma lock_buffer_props [simp]:
  "next_arc (lock_buffer h a) = next_arc h"
  "a' \<noteq> a \<Longrightarrow> cells (lock_buffer h a) a' = cells h a'"
  "\<not> poisoned (cells h a) \<Longrightarrow> lock_buffer h a = h"
  by (auto simp: lock_buffer_def set_cell_def)

lemma heap_inv_lock: "heap_inv h \<Longrightarrow> heap_inv (lock_buffer h a)"
  by (auto simp: lock_buffer_def heap_inv_def buf_inv_clear)

lemma purge_arc_props:
  assumes "purge_arc sid a h = (r, h')"
  shows "next_arc h' = next_arc h" and "\<And>a'. a' \<noteq> a \<Longrightarrow> cells h' a' = cells h a'"
    and "data (buf_at h' a) = []" and "buf_at h' a = snd (clear (buf_at h a))"
    and "r = (if data (buf_at h a) = [] then None
       else Some \<lparr>purged_session_id = sid, bytes_purged = length (data (buf_at h a))\<rparr>)"
  using assms by (auto simp: purge_arc_def clear_def set_cell_def buf_at_def session_key_def Let_def)

lemma heap_inv_purge: "heap_inv h \<Longrightarrow> purge_arc sid a h = (r, h') \<Longrightarrow> heap_inv h'"
  by (auto simp: purge_arc_def Let_def heap_inv_def case_prod_unfold buf_inv_clear)

lemma purge_twice: "purge_arc sid a h = (r, h') \<Longrightarrow> fst (purge_arc sid' a h') = None"
  using purge_arc_props(3) [of sid a h r h'] by (auto simp: purge_arc_def clear_def Let_def)

lemma heap_apply_delta_props:
  assumes "heap_apply_delta h a offset bytes = Some h'"
  shows "next_arc h' = next_arc h" and "\<And>a'. a' \<noteq> a \<Longrightarrow> cells h' a' = cells h a'"
    and "apply_delta (buf_at (lock_buffer h a) a) offset bytes = Some (buf_at h' a)"
proof -
  from assms obtain b where "apply_delta (buf_at (lock_buffer h a) a) offset bytes = Some b"
    "h' = set_cell a \<lparr>poisoned = False, buf = b\<rparr> (lock_buffer h a)"
    by (auto simp: heap_apply_delta_def Let_def bind_eq_Some_conv)
  then show "next_arc h' = next_arc h" "\<And>a'. a' \<noteq> a \<Longrightarrow> cells h' a' = cells h a'"
    "apply_delta (buf_at (lock_buffer h a) a) offset bytes = Some (buf_at h' a)"
    by (auto simp: set_cell_def buf_at_def)
qed

end
