(* ===== verification/Transcript_Hold.thy ===== *)
theory Transcript_Hold
  imports Buffer_Heap
begin

text \<open>
  The bounded store of held transcript buffers: \<open>infra/transcript_hold.rs\<close>.

  A drained session leaves its buffer here under its feature cycle; the buffer keeps
  merging deltas, goes back to the registry when the session registers again under the same
  cycle, and is otherwise purged by mismatch, by the session cap (oldest activity first) or
  by age. The store is reached through the trait \<open>HeldBufferScan\<close> of \<open>infra/session.rs\<close>;
  the locale \<open>held_buffer_scan\<close> states what the registry relies on, over the abstract view
  "which buffer is held for which session under which cycle", and is interpreted on the
  operations of the store.

  \<open>Instant\<close> and \<open>Duration\<close> are naturals; the clock reading is an argument. The audit sink
  receives pairs of records and trigger, returned in the order the code emits them. The
  lock of the store recovers from poison without touching the map, so it leaves no trace.
\<close>

section \<open>Model\<close>

definition TRIGGER_CAP_EVICT :: string where
  "TRIGGER_CAP_EVICT = ''cap_evict''"

definition TRIGGER_READOPT_MISMATCH :: string where
  "TRIGGER_READOPT_MISMATCH = ''readopt_mismatch''"

type_synonym audit_event = "transcript_purge_record list \<times> string"

record held_buffer =
  held_arc :: arc
  held_cycle :: string
  held_activity_at :: nat

type_synonym held_map = "(string, held_buffer) hmap"

record transcript_hold =
  held :: held_map
  max_sessions :: nat

definition hold_new :: "nat \<Rightarrow> transcript_hold" where
  "hold_new max_s = \<lparr>held = [], max_sessions = max max_s 1\<rparr>"

definition purge_record :: "string \<Rightarrow> held_buffer \<Rightarrow> heap \<Rightarrow> transcript_purge_record option \<times> heap" where
  "purge_record session_id hb h = purge_arc session_id (held_arc hb) h"

text \<open>\<open>Iterator::min_by_key\<close> on the activity: the first minimum in iteration order.\<close>

fun oldest :: "held_map \<Rightarrow> (string \<times> held_buffer) option" where
  "oldest [] = None"
| "oldest (x # xs) = (case oldest xs of
      None \<Rightarrow> Some x
    | Some y \<Rightarrow> Some (if held_activity_at (snd y) < held_activity_at (snd x) then y else x))"

lemma oldest_in: "oldest m = Some (sid, hb) \<Longrightarrow> (sid, hb) \<in> set m"
  by (induction m arbitrary: sid hb) (auto split: option.splits if_splits)

lemma length_remove_key: "(k, v) \<in> set m \<Longrightarrow> length (hm_remove k m) < length m"
  unfolding AList.delete_eq by (intro length_filter_less [of "(k, v)"]) auto

fun opt_list :: "'a option \<Rightarrow> 'a list" where
  "opt_list None = []"
| "opt_list (Some x) = [x]"

function enforce_cap :: "nat \<Rightarrow> held_map \<Rightarrow> heap \<Rightarrow> transcript_purge_record list \<times> held_map \<times> heap" where
  "enforce_cap cap m h =
     (if cap < length m then
        (case oldest m of
           None \<Rightarrow> ([], m, h)
         | Some (sid, hb) \<Rightarrow>
             (let (r, h1) = purge_record sid hb h;
                  (rs, m', h') = enforce_cap cap (hm_remove sid m) h1
              in (opt_list r @ rs, m', h')))
      else ([], m, h))"
  by pat_completeness auto
termination
  by (relation "measure (\<lambda>(cap, m, h). length m)")
    (auto dest!: oldest_in length_remove_key)

declare enforce_cap.simps [simp del]

definition hold_on_drain ::
  "transcript_hold \<Rightarrow> heap \<Rightarrow> nat \<Rightarrow> string \<Rightarrow> arc \<Rightarrow> string \<Rightarrow> transcript_hold \<times> heap \<times> audit_event list" where
  "hold_on_drain th h now session_id a feature_cycle =
     (if feature_cycle = [] then (th, h, [])
      else
        (let m = hm_insert session_id
                   \<lparr>held_arc = a, held_cycle = feature_cycle, held_activity_at = now\<rparr> (held th);
             (evicted, m', h') = enforce_cap (max_sessions th) m h
         in (th\<lparr>held := m'\<rparr>, h', if evicted = [] then [] else [(evicted, TRIGGER_CAP_EVICT)])))"

definition readopt ::
  "transcript_hold \<Rightarrow> heap \<Rightarrow> string \<Rightarrow> string \<Rightarrow> arc option \<times> transcript_hold \<times> heap \<times> audit_event list" where
  "readopt th h session_id registering_feature_cycle =
     (case hm_get (held th) session_id of
        None \<Rightarrow> (None, th, h, [])
      | Some hb \<Rightarrow>
          (let th' = th\<lparr>held := hm_remove session_id (held th)\<rparr> in
           if registering_feature_cycle \<noteq> [] \<and> held_cycle hb = registering_feature_cycle
           then (Some (held_arc hb), th', h, [])
           else
             (let (r, h') = purge_record session_id hb h
              in (None, th', h',
                  case r of None \<Rightarrow> [] | Some rec \<Rightarrow> [([rec], TRIGGER_READOPT_MISMATCH)]))))"

fun sweep_held ::
  "string list \<Rightarrow> held_map \<Rightarrow> heap \<Rightarrow> transcript_purge_record list \<times> held_map \<times> heap" where
  "sweep_held [] m h = ([], m, h)"
| "sweep_held (sid # sids) m h =
     (case hm_get m sid of
        None \<Rightarrow> sweep_held sids m h
      | Some hb \<Rightarrow>
          (let (r, h1) = purge_record sid hb h;
               (rs, m', h') = sweep_held sids (hm_remove sid m) h1
           in (opt_list r @ rs, m', h')))"

definition sweep_expired ::
  "transcript_hold \<Rightarrow> heap \<Rightarrow> nat \<Rightarrow> nat \<Rightarrow> transcript_purge_record list \<times> transcript_hold \<times> heap" where
  "sweep_expired th h now ttl =
     (let expired = map fst (filter (\<lambda>(_, hb). ttl \<le> sat_sub now (held_activity_at hb)) (held th));
          (rs, m', h') = sweep_held expired (held th) h
      in (rs, th\<lparr>held := m'\<rparr>, h'))"

definition held_arcs_for_feature :: "transcript_hold \<Rightarrow> string \<Rightarrow> (string \<times> arc) list" where
  "held_arcs_for_feature th feature_cycle =
     map (\<lambda>(sid, hb). (sid, held_arc hb)) (filter (\<lambda>(_, hb). held_cycle hb = feature_cycle) (held th))"

definition held_arc_for_session :: "transcript_hold \<Rightarrow> nat \<Rightarrow> string \<Rightarrow> arc option \<times> transcript_hold" where
  "held_arc_for_session th now session_id =
     (case hm_get (held th) session_id of
        None \<Rightarrow> (None, th)
      | Some hb \<Rightarrow> (Some (held_arc hb),
          th\<lparr>held := hm_insert session_id (hb\<lparr>held_activity_at := now\<rparr>) (held th)\<rparr>))"

section \<open>Purging held buffers\<close>

text \<open>
  Both loops that remove held buffers, the cap eviction and the sweep, are runs of one
  step: remove a held session, purge its buffer, keep the record if there is one.
\<close>

inductive purges ::
  "held_map \<Rightarrow> heap \<Rightarrow> transcript_purge_record list \<Rightarrow> held_map \<Rightarrow> heap \<Rightarrow> bool" where
  purges_done: "purges m h [] m h"
| purges_step: "hm_get m sid = Some hb \<Longrightarrow> purge_record sid hb h = (r, h1) \<Longrightarrow>
    purges (hm_remove sid m) h1 rs m' h' \<Longrightarrow> purges m h (opt_list r @ rs) m' h'"

definition arcs_of :: "held_map \<Rightarrow> arc set" where
  "arcs_of m = {held_arc hb | sid hb. hm_get m sid = Some hb}"

text \<open>Distinct sessions hold distinct buffers.\<close>

definition arcs_inj :: "held_map \<Rightarrow> bool" where
  "arcs_inj m \<longleftrightarrow> (\<forall>s s' hb hb'. hm_get m s = Some hb \<longrightarrow> hm_get m s' = Some hb' \<longrightarrow>
     held_arc hb = held_arc hb' \<longrightarrow> s = s')"

text \<open>The records a purge of the sessions that are in \<open>m\<close> and no longer in \<open>m'\<close> must emit.\<close>

definition owed :: "held_map \<Rightarrow> held_map \<Rightarrow> heap \<Rightarrow> transcript_purge_record set" where
  "owed m m' h = {\<lparr>purged_session_id = sid, bytes_purged = length (data (buf_at h (held_arc hb)))\<rparr> | sid hb.
     hm_get m sid = Some hb \<and> hm_get m' sid = None \<and> data (buf_at h (held_arc hb)) \<noteq> []}"

lemma purges_ok: "purges m h rs m' h' \<Longrightarrow> hm_ok m \<Longrightarrow> hm_ok m'"
  by (induction rule: purges.induct) (auto intro: hm.ok_rem)

lemma purges_map_le: "purges m h rs m' h' \<Longrightarrow> hm_get m' \<subseteq>\<^sub>m hm_get m"
  by (induction rule: purges.induct) (auto intro: map_le_trans [OF _ hm_remove_le] simp del: hm_get_remove)

text \<open>A session is recorded at most once.\<close>

lemma purges_distinct:
  "purges m h rs m' h' \<Longrightarrow> distinct (map purged_session_id rs) \<and> purged_session_id ` set rs \<subseteq> dom (hm_get m)"
proof (induction rule: purges.induct)
  case (purges_step m sid hb h r h1 rs m' h')
  have "purged_session_id x = sid" if "r = Some x" for x
    using purges_step.hyps(2) that by (auto simp: purge_record_def purge_arc_def session_key_def Let_def split: prod.splits if_splits)
  then show ?case using purges_step.IH purges_step.hyps(1) by (cases r) (auto split: if_splits)
qed simp

lemma purges_next_arc: "purges m h rs m' h' \<Longrightarrow> next_arc h' = next_arc h"
  by (induction rule: purges.induct) (auto simp: purge_record_def dest: purge_arc_props(1))

lemma purges_heap_inv: "purges m h rs m' h' \<Longrightarrow> heap_inv h \<Longrightarrow> heap_inv h'"
  by (induction rule: purges.induct) (auto simp: purge_record_def dest: heap_inv_purge)

lemma purges_frame: "purges m h rs m' h' \<Longrightarrow> a \<notin> arcs_of m \<Longrightarrow> cells h' a = cells h a"
proof (induction rule: purges.induct)
  case (purges_step m sid hb h r h1 rs m' h')
  then have "a \<noteq> held_arc hb" "a \<notin> arcs_of (hm_remove sid m)"
    by (auto simp: arcs_of_def split: if_splits)
  with purges_step show ?case
    using purge_arc_props(2) [of sid "held_arc hb" h r h1 a] by (simp add: purge_record_def)
qed simp

lemma arcs_inj_remove: "arcs_inj m \<Longrightarrow> arcs_inj (hm_remove sid m)"
  unfolding arcs_inj_def by (simp split: if_splits)

lemma arcs_inj_le: "arcs_inj m \<Longrightarrow> hm_get m' \<subseteq>\<^sub>m hm_get m \<Longrightarrow> arcs_inj m'"
  unfolding arcs_inj_def map_le_def by (metis domI)

lemma purges_spec:
  "purges m h rs m' h' \<Longrightarrow> arcs_inj m \<Longrightarrow>
   set rs = owed m m' h \<and>
   (\<forall>sid hb. hm_get m sid = Some hb \<longrightarrow>
      (if hm_get m' sid = None then data (buf_at h' (held_arc hb)) = []
       else cells h' (held_arc hb) = cells h (held_arc hb)))"
proof (induction rule: purges.induct)
  case (purges_done m h)
  then show ?case by (auto simp: owed_def)
next
  case (purges_step m sid hb h r h1 rs m' h')
  let ?m = "hm_remove sid m"
  note p = purge_arc_props [OF purges_step.hyps(2) [unfolded purge_record_def]]
  have IH: "set rs = owed ?m m' h1"
    "\<And>s b. hm_get ?m s = Some b \<Longrightarrow>
      (if hm_get m' s = None then data (buf_at h' (held_arc b)) = []
       else cells h' (held_arc b) = cells h1 (held_arc b))"
    using purges_step.IH arcs_inj_remove [OF purges_step.prems] by blast+
  have gone: "hm_get m' sid = None"
    using purges_map_le [OF purges_step.hyps(3)] by (auto simp: map_le_def dom_def)
  have other: "held_arc b \<noteq> held_arc hb" if "hm_get m s = Some b" "s \<noteq> sid" for s b
    using purges_step.prems purges_step.hyps(1) that by (auto simp: arcs_inj_def)
  then have same: "cells h1 (held_arc b) = cells h (held_arc b)" "buf_at h1 (held_arc b) = buf_at h (held_arc b)"
    if "hm_get m s = Some b" "s \<noteq> sid" for s b
    using p(2) that by (auto simp: buf_at_def)
  have "held_arc hb \<notin> arcs_of ?m"
    using other by (clarsimp simp: arcs_of_def split: if_splits) metis
  then have "buf_at h' (held_arc hb) = buf_at h1 (held_arc hb)"
    using purges_frame [OF purges_step.hyps(3)] by (simp add: buf_at_def)
  then have here: "data (buf_at h' (held_arc hb)) = []" using p(3) by simp
  have "owed ?m m' h1 = {\<lparr>purged_session_id = s, bytes_purged = length (data (buf_at h (held_arc b)))\<rparr> | s b.
     s \<noteq> sid \<and> hm_get m s = Some b \<and> hm_get m' s = None \<and> data (buf_at h (held_arc b)) \<noteq> []}"
    unfolding owed_def by (auto simp: same split: if_splits)
  then have "set (opt_list r @ rs) = owed m m' h"
    using IH(1) p(5) gone purges_step.hyps(1) by (auto simp: owed_def)
  moreover have "if hm_get m' s = None then data (buf_at h' (held_arc b)) = []
       else cells h' (held_arc b) = cells h (held_arc b)" if "hm_get m s = Some b" for s b
    using that here gone IH(2) [of s b] same(1) [of s b] purges_step.hyps(1) by (cases "s = sid") auto
  ultimately show ?case by blast
qed

lemma sweep_held_purges: "sweep_held sids m h = (rs, m', h') \<Longrightarrow> purges m h rs m' h'"
proof (induction sids m h arbitrary: rs m' h' rule: sweep_held.induct)
  case (2 sid sids m h)
  then show ?case
    by (auto split: option.splits prod.splits intro: purges.intros)
qed (auto intro: purges.intros)

lemma sweep_held_get:
  "sweep_held sids m h = (rs, m', h') \<Longrightarrow> hm_get m' k = (if k \<in> set sids then None else hm_get m k)"
proof (induction sids m h arbitrary: rs m' h' rule: sweep_held.induct)
  case (2 sid sids m h)
  then show ?case by (auto split: option.splits prod.splits)
qed simp

lemma oldest_None: "oldest m = None \<longleftrightarrow> m = []"
  by (cases m) (auto split: option.splits)

lemma oldest_min: "oldest m = Some (sid, hb) \<Longrightarrow> (s, b) \<in> set m \<Longrightarrow> held_activity_at hb \<le> held_activity_at b"
proof (induction m arbitrary: sid hb)
  case (Cons x xs)
  then show ?case
    by (cases "oldest xs") (fastforce simp: oldest_None split: if_splits)+
qed simp

lemma enforce_cap_purges:
  "enforce_cap cap m h = (rs, m', h') \<Longrightarrow> hm_ok m \<Longrightarrow>
   purges m h rs m' h' \<and> length m' = min cap (length m) \<and>
   (\<forall>s b s' b'. hm_get m s = Some b \<longrightarrow> hm_get m' s = None \<longrightarrow> hm_get m' s' = Some b' \<longrightarrow>
      held_activity_at b \<le> held_activity_at b')"
proof (induction cap m h arbitrary: rs m' h' rule: enforce_cap.induct)
  case (1 cap m h)
  show ?case
  proof (cases "cap < length m")
    case False
    with 1 show ?thesis by (auto simp: enforce_cap.simps [of cap m h] intro: purges_done)
  next
    case True
    then obtain sid hb where old: "oldest m = Some (sid, hb)"
      by (cases "oldest m") (auto simp: oldest_None)
    have mem: "(sid, hb) \<in> set m" by (rule oldest_in [OF old])
    then have get: "hm_get m sid = Some hb" using "1.prems"(2) by (simp add: hm_ok_def)
    obtain r h1 where p: "purge_record sid hb h = (r, h1)" by fastforce
    obtain rs1 m1 h2 where e: "enforce_cap cap (hm_remove sid m) h1 = (rs1, m1, h2)" by (metis prod_cases3)
    from "1.prems"(1) True old p e have res: "rs = opt_list r @ rs1" "m' = m1" "h' = h2"
      by (auto simp: enforce_cap.simps [of cap m h])
    have IH: "purges (hm_remove sid m) h1 rs1 m1 h2" "length m1 = min cap (length (hm_remove sid m))"
      "\<And>s b s' b'. hm_get (hm_remove sid m) s = Some b \<Longrightarrow> hm_get m1 s = None \<Longrightarrow> hm_get m1 s' = Some b' \<Longrightarrow>
        held_activity_at b \<le> held_activity_at b'"
      using "1.IH" [OF True old refl refl p [symmetric] e] hm.ok_rem [OF "1.prems"(2)] by blast+
    have run: "purges m h rs m' h'"
      unfolding res by (rule purges_step [OF get p IH(1)])
    have len: "length m' = min cap (length m)"
      using IH(2) True hm_length_remove [OF "1.prems"(2) get] by (simp add: res)
    have "held_activity_at b \<le> held_activity_at b'"
      if "hm_get m s = Some b" "hm_get m' s = None" "hm_get m' s' = Some b'" for s b s' b'
    proof (cases "s = sid")
      case True
      from that(3) purges_map_le [OF run] have "hm_get m s' = Some b'"
        by (auto simp: map_le_def dom_def)
      then have "(s', b') \<in> set m" by (rule map_of_SomeD)
      with True that(1) get oldest_min [OF old] show ?thesis by simp
    next
      case False
      with that IH(3) [of s b s' b'] show ?thesis by (simp add: res)
    qed
    with run len show ?thesis by blast
  qed
qed


section \<open>The contract of \<open>HeldBufferScan\<close>\<close>

datatype hold_op =
    Drain nat string arc string
  | Adopt string string
  | Route nat string
  | Expire nat nat

text \<open>
  \<open>view\<close> says which buffer is held for a session and under which cycle. A drain may evict
  held sessions but never invents one; an adoption returns the held buffer exactly when the
  cycles agree and always ends the hold; a routed delta and a scan read the view.
\<close>

locale held_buffer_scan =
  fixes view :: "'s \<Rightarrow> string \<Rightarrow> (arc \<times> string) option"
    and ok :: "'s \<Rightarrow> bool"
    and scan_for :: "'s \<Rightarrow> string \<Rightarrow> (string \<times> arc) list"
    and drain_in :: "'s \<Rightarrow> nat \<Rightarrow> string \<Rightarrow> arc \<Rightarrow> string \<Rightarrow> 's"
    and adopt :: "'s \<Rightarrow> string \<Rightarrow> string \<Rightarrow> arc option \<times> 's"
    and route :: "'s \<Rightarrow> nat \<Rightarrow> string \<Rightarrow> arc option \<times> 's"
    and expire :: "'s \<Rightarrow> nat \<Rightarrow> nat \<Rightarrow> 's"
  assumes scan_view: "ok s \<Longrightarrow> (sid, a) \<in> set (scan_for s f) \<longleftrightarrow> view s sid = Some (a, f)"
    and drain_ok: "ok s \<Longrightarrow> ok (drain_in s now sid a f)"
    and drain_le: "ok s \<Longrightarrow> view (drain_in s now sid a f) \<subseteq>\<^sub>m (view s)(sid \<mapsto> (a, f)) \<or> drain_in s now sid a f = s"
    and adopt_eq: "ok s \<Longrightarrow> fst (adopt s sid f) = Some a \<longleftrightarrow> view s sid = Some (a, f)"
    and adopt_view: "ok s \<Longrightarrow> view (snd (adopt s sid f)) = (view s)(sid := None)"
    and adopt_ok: "ok s \<Longrightarrow> ok (snd (adopt s sid f))"
    and route_eq: "fst (route s now sid) = map_option fst (view s sid)"
    and route_view: "view (snd (route s now sid)) = view s"
    and route_ok: "ok s \<Longrightarrow> ok (snd (route s now sid))"
    and expire_le: "ok s \<Longrightarrow> view (expire s now ttl) \<subseteq>\<^sub>m view s"
    and expire_ok: "ok s \<Longrightarrow> ok (expire s now ttl)"
begin

primrec do_op :: "'s \<Rightarrow> hold_op \<Rightarrow> 's" where
  "do_op s (Drain now sid a f) = drain_in s now sid a f"
| "do_op s (Adopt sid f) = snd (adopt s sid f)"
| "do_op s (Route now sid) = snd (route s now sid)"
| "do_op s (Expire now ttl) = expire s now ttl"

lemma do_op_ok: "ok s \<Longrightarrow> ok (do_op s x)"
  by (cases x) (simp_all add: drain_ok adopt_ok route_ok expire_ok)

lemma fold_ok: "ok s \<Longrightarrow> ok (fold (\<lambda>x s. do_op s x) ops s)"
  by (induction ops arbitrary: s) (simp_all add: do_op_ok)

lemma do_op_origin:
  assumes "ok s" and "view (do_op s x) sid = Some (a, f)"
  shows "view s sid = Some (a, f) \<or> (\<exists>now. x = Drain now sid a f)"
proof (cases x)
  case (Drain now sid' a' f')
  from drain_le [OF assms(1), of now sid' a' f'] show ?thesis
  proof
    assume "view (drain_in s now sid' a' f') \<subseteq>\<^sub>m (view s)(sid' \<mapsto> (a', f'))"
    from map_le_SomeD [OF this, of sid] assms(2) Drain show ?thesis by (auto split: if_splits)
  qed (use assms Drain in simp)
next
  case (Expire now ttl)
  with assms map_le_SomeD [OF expire_le [OF assms(1), of now ttl]] show ?thesis by simp
qed (use assms in \<open>auto simp: adopt_view route_view split: if_splits\<close>)

lemma run_origin:
  assumes "ok s" and "view (fold (\<lambda>x s. do_op s x) ops s) sid = Some (a, f)"
  shows "view s sid = Some (a, f) \<or> (\<exists>now. Drain now sid a f \<in> set ops)"
  using assms
proof (induction ops arbitrary: s)
  case (Cons x ops)
  then show ?case using do_op_ok [of s x] do_op_origin [of s x sid a f] by fastforce
qed simp

lemma adopted_was_drained:
  assumes "ok s" and "view s = Map.empty" and "fst (adopt (fold (\<lambda>x s. do_op s x) ops s) sid f) = Some a"
  shows "\<exists>now. Drain now sid a f \<in> set ops"
  using run_origin [OF assms(1), of ops sid a f] adopt_eq [OF fold_ok [OF assms(1)]] assms(2,3) by auto

lemma adopted_once:
  "ok s \<Longrightarrow> fst (adopt (snd (adopt s sid f)) sid f') = None"
  using adopt_eq [OF adopt_ok, of s sid f sid f'] adopt_view [of s sid f]
  by (cases "fst (adopt (snd (adopt s sid f)) sid f')") auto

end

section \<open>The store satisfies the contract\<close>

definition hold_inv :: "transcript_hold \<Rightarrow> bool" where
  "hold_inv th \<longleftrightarrow> hm_ok (held th) \<and> 1 \<le> max_sessions th \<and> length (held th) \<le> max_sessions th \<and>
     (\<forall>sid hb. hm_get (held th) sid = Some hb \<longrightarrow> held_cycle hb \<noteq> [])"

definition held_view :: "transcript_hold \<Rightarrow> string \<Rightarrow> (arc \<times> string) option" where
  "held_view th sid = map_option (\<lambda>hb. (held_arc hb, held_cycle hb)) (hm_get (held th) sid)"

lemma hold_inv_new [simp]: "hold_inv (hold_new n)"
  by (simp add: hold_inv_def hold_new_def)

lemma held_view_le: "hm_get (held th') \<subseteq>\<^sub>m hm_get (held th) \<Longrightarrow> held_view th' \<subseteq>\<^sub>m held_view th"
  by (fastforce simp: map_le_def held_view_def dom_def)

lemma hold_inv_le:
  "hold_inv th \<Longrightarrow> hm_ok m \<Longrightarrow> hm_get m \<subseteq>\<^sub>m hm_get (held th) \<Longrightarrow> length m \<le> max_sessions th \<Longrightarrow>
   hold_inv (th\<lparr>held := m\<rparr>)"
  unfolding hold_inv_def map_le_def by (simp, metis domI)

lemma hm_le_length: "hm_ok m \<Longrightarrow> hm_ok m' \<Longrightarrow> hm_get m' \<subseteq>\<^sub>m hm_get m \<Longrightarrow> length m' \<le> length m"
  by (simp add: hm_length_card card_mono finite_dom_map_of map_le_implies_dom_le)

lemma hold_on_drain_spec:
  assumes inv: "hold_inv th" and f: "f \<noteq> []" and run: "hold_on_drain th h now sid a f = (th', h', ev)"
  defines "m \<equiv> hm_insert sid \<lparr>held_arc = a, held_cycle = f, held_activity_at = now\<rparr> (held th)"
  obtains rs where "purges m h rs (held th') h'" and "ev = (if rs = [] then [] else [(rs, TRIGGER_CAP_EVICT)])"
    and "hold_inv th'" and "max_sessions th' = max_sessions th"
    and "length (held th') = min (max_sessions th) (length m)"
    and "\<And>s b s' b'. hm_get m s = Some b \<Longrightarrow> hm_get (held th') s = None \<Longrightarrow>
      hm_get (held th') s' = Some b' \<Longrightarrow> held_activity_at b \<le> held_activity_at b'"
proof -
  obtain rs m' h2 where e: "enforce_cap (max_sessions th) m h = (rs, m', h2)" by (metis prod_cases3)
  have ok: "hm_ok m" using inv by (simp add: m_def hold_inv_def hm.ok_ins)
  note p = enforce_cap_purges [OF e ok]
  have res: "th' = th\<lparr>held := m'\<rparr>" "h' = h2" "ev = (if rs = [] then [] else [(rs, TRIGGER_CAP_EVICT)])"
    using run f e by (auto simp: hold_on_drain_def m_def Let_def)
  from p have pu: "purges m h rs m' h2" and len: "length m' = min (max_sessions th) (length m)" by blast+
  have "held_cycle b \<noteq> []" if "hm_get m' s = Some b" for s b
    using map_le_SomeD [OF purges_map_le [OF pu] that] inv f
    by (auto simp: m_def hold_inv_def split: if_splits)
  then have inv': "hold_inv th'"
    using inv len purges_ok [OF pu ok] by (auto simp: res hold_inv_def)
  show thesis
  proof (rule that)
    show "purges m h rs (held th') h'" using pu by (simp add: res)
    fix s b s' b'
    show "hm_get m s = Some b \<Longrightarrow> hm_get (held th') s = None \<Longrightarrow> hm_get (held th') s' = Some b' \<Longrightarrow>
      held_activity_at b \<le> held_activity_at b'"
      using p by (simp add: res)
  qed (use res len inv' in simp_all)
qed

lemma readopt_spec:
  assumes "hold_inv th"
  shows "readopt th h sid f = (r, th', h', ev) \<Longrightarrow>
    held th' = (if hm_get (held th) sid = None then held th else hm_remove sid (held th)) \<and>
    max_sessions th' = max_sessions th \<and> hold_inv th' \<and>
    r = (case held_view th sid of Some (a, f') \<Rightarrow> if f' = f then Some a else None | None \<Rightarrow> None)"
proof -
  have "hold_inv (th\<lparr>held := hm_remove sid (held th)\<rparr>)"
    using assms hm_le_length [OF _ _ hm_remove_le, of "held th" sid]
    by (intro hold_inv_le [OF assms _ hm_remove_le]) (auto simp: hold_inv_def hm.ok_rem intro: le_trans)
  moreover have "\<And>hb. hm_get (held th) sid = Some hb \<Longrightarrow> held_cycle hb \<noteq> []"
    using assms by (auto simp: hold_inv_def)
  ultimately show "readopt th h sid f = (r, th', h', ev) \<Longrightarrow> ?thesis"
    using assms by (auto simp: readopt_def held_view_def Let_def split: option.splits if_splits prod.splits)
qed

lemma route_spec:
  assumes "hold_inv th"
  shows "hold_inv (snd (held_arc_for_session th now sid))"
    and "held_view (snd (held_arc_for_session th now sid)) = held_view th"
proof -
  show "held_view (snd (held_arc_for_session th now sid)) = held_view th"
    by (auto simp: held_arc_for_session_def held_view_def fun_eq_iff split: option.splits)
  show "hold_inv (snd (held_arc_for_session th now sid))"
  proof (cases "hm_get (held th) sid")
    case None
    with assms show ?thesis by (simp add: held_arc_for_session_def)
  next
    case (Some hb)
    let ?m = "hm_insert sid (hb\<lparr>held_activity_at := now\<rparr>) (held th)"
    have "hm_ok ?m" using assms by (simp add: hold_inv_def hm.ok_ins)
    moreover have "length ?m = length (held th)"
      using Some assms by (simp add: hold_inv_def hm_length_insert)
    ultimately show ?thesis
      using Some assms by (auto simp: held_arc_for_session_def hold_inv_def)
  qed
qed

lemma sweep_expired_spec:
  assumes inv: "hold_inv th" and run: "sweep_expired th h now ttl = (rs, th', h')"
  shows "purges (held th) h rs (held th') h'" and "max_sessions th' = max_sessions th" and "hold_inv th'"
    and "hm_get (held th') sid = (case hm_get (held th) sid of
       Some hb \<Rightarrow> if ttl \<le> now - held_activity_at hb then None else Some hb | None \<Rightarrow> None)"
proof -
  let ?ex = "map fst (filter (\<lambda>(_, hb). ttl \<le> now - held_activity_at hb) (held th))"
  from run obtain m' where s: "sweep_held ?ex (held th) h = (rs, m', h')" and th': "th' = th\<lparr>held := m'\<rparr>"
    by (auto simp: sweep_expired_def Let_def split: prod.splits)
  show p: "purges (held th) h rs (held th') h'"
    using sweep_held_purges [OF s] by (simp add: th')
  show "max_sessions th' = max_sessions th" by (simp add: th')
  have ok: "hm_ok (held th)" using inv by (simp add: hold_inv_def)
  have "length m' \<le> length (held th)"
    using hm_le_length [OF ok purges_ok [OF p ok] purges_map_le [OF p]] by (simp add: th')
  then show "hold_inv th'"
    unfolding th' using inv purges_ok [OF p ok] purges_map_le [OF p]
    by (intro hold_inv_le) (auto simp: th' hold_inv_def)
  have "sid \<in> set ?ex \<longleftrightarrow> (\<exists>hb. hm_get (held th) sid = Some hb \<and> ttl \<le> now - held_activity_at hb)"
    using ok hm_values [OF ok] by force
  then show "hm_get (held th') sid = (case hm_get (held th) sid of
       Some hb \<Rightarrow> if ttl \<le> now - held_activity_at hb then None else Some hb | None \<Rightarrow> None)"
    using sweep_held_get [OF s, of sid] by (auto simp: th' split: option.splits)
qed

text \<open>The operations as the trait's caller sees them, on the store and the heap together.\<close>

definition drain_state :: "transcript_hold \<times> heap \<Rightarrow> nat \<Rightarrow> string \<Rightarrow> arc \<Rightarrow> string \<Rightarrow> transcript_hold \<times> heap" where
  "drain_state s now sid a f = (case hold_on_drain (fst s) (snd s) now sid a f of (th, h, ev) \<Rightarrow> (th, h))"

definition adopt_state :: "transcript_hold \<times> heap \<Rightarrow> string \<Rightarrow> string \<Rightarrow> arc option \<times> transcript_hold \<times> heap" where
  "adopt_state s sid f = (case readopt (fst s) (snd s) sid f of (r, th, h, ev) \<Rightarrow> (r, th, h))"

definition route_state :: "transcript_hold \<times> heap \<Rightarrow> nat \<Rightarrow> string \<Rightarrow> arc option \<times> transcript_hold \<times> heap" where
  "route_state s now sid = (case held_arc_for_session (fst s) now sid of (r, th) \<Rightarrow> (r, th, snd s))"

definition expire_state :: "transcript_hold \<times> heap \<Rightarrow> nat \<Rightarrow> nat \<Rightarrow> transcript_hold \<times> heap" where
  "expire_state s now ttl = (case sweep_expired (fst s) (snd s) now ttl of (rs, th, h) \<Rightarrow> (th, h))"

interpretation hold: held_buffer_scan "\<lambda>s. held_view (fst s)" "\<lambda>s. hold_inv (fst s)"
  "\<lambda>s. held_arcs_for_feature (fst s)" drain_state adopt_state route_state expire_state
proof unfold_locales
  fix s :: "transcript_hold \<times> heap" and sid f :: string and a :: arc and now ttl :: nat
  obtain th h where s: "s = (th, h)" by (cases s)
  show "fst (route_state s now sid) = map_option fst (held_view (fst s) sid)"
    by (auto simp: route_state_def held_arc_for_session_def held_view_def split: option.splits)
  show "(\<lambda>s. held_view (fst s)) (snd (route_state s now sid)) = held_view (fst s)"
    by (auto simp: route_state_def held_arc_for_session_def held_view_def fun_eq_iff split: option.splits)
  assume inv: "hold_inv (fst s)"
  then have ok: "hm_ok (held th)" by (simp add: s hold_inv_def)
  show "(sid, a) \<in> set (held_arcs_for_feature (fst s) f) \<longleftrightarrow> held_view (fst s) sid = Some (a, f)"
    using hm_values [OF ok, of sid] by (force simp: s held_arcs_for_feature_def held_view_def)
  obtain th1 h1 ev1 where d: "hold_on_drain th h now sid a f = (th1, h1, ev1)" by (metis prod_cases3)
  show "hold_inv (fst (drain_state s now sid a f))"
    using inv d by (cases "f = []") (auto simp: s drain_state_def hold_on_drain_def elim: hold_on_drain_spec)
  show "held_view (fst (drain_state s now sid a f)) \<subseteq>\<^sub>m (held_view (fst s))(sid \<mapsto> (a, f)) \<or>
      drain_state s now sid a f = s"
  proof (cases "f = []")
    case True
    then show ?thesis by (simp add: s drain_state_def hold_on_drain_def)
  next
    case False
    let ?m = "hm_insert sid \<lparr>held_arc = a, held_cycle = f, held_activity_at = now\<rparr> (held th)"
    obtain rs where "purges ?m h rs (held th1) h1"
      using hold_on_drain_spec [OF _ False d] inv by (auto simp: s)
    then have "hm_get (held th1) \<subseteq>\<^sub>m hm_get ?m" by (rule purges_map_le)
    then have "held_view th1 \<subseteq>\<^sub>m held_view (th\<lparr>held := ?m\<rparr>)"
      by (intro held_view_le) simp
    moreover have "held_view (th\<lparr>held := ?m\<rparr>) = (held_view th)(sid \<mapsto> (a, f))"
      by (auto simp: held_view_def fun_eq_iff)
    ultimately show ?thesis using d by (simp add: s drain_state_def)
  qed
  obtain r2 th2 h2 ev2 where ad: "readopt th h sid f = (r2, th2, h2, ev2)" by (metis prod_cases4)
  note ad2 = readopt_spec [OF inv [unfolded s fst_conv] ad]
  show "fst (adopt_state s sid f) = Some a \<longleftrightarrow> held_view (fst s) sid = Some (a, f)"
    using ad ad2 by (auto simp: s adopt_state_def split: option.splits if_splits)
  show "held_view (fst (snd (adopt_state s sid f))) = (held_view (fst s))(sid := None)"
    using ad ad2 by (auto simp: s adopt_state_def held_view_def fun_eq_iff)
  show "hold_inv (fst (snd (adopt_state s sid f)))"
    using ad ad2 by (simp add: s adopt_state_def)
  show "hold_inv (fst (snd (route_state s now sid)))"
    using route_spec(1) [OF inv, of now sid] by (simp add: route_state_def case_prod_unfold)
  obtain rs3 th3 h3 where ex: "sweep_expired th h now ttl = (rs3, th3, h3)" by (metis prod_cases3)
  note ex2 = sweep_expired_spec [OF inv [unfolded s fst_conv] ex]
  show "held_view (fst (expire_state s now ttl)) \<subseteq>\<^sub>m held_view (fst s)"
    using ex held_view_le [OF purges_map_le [OF ex2(1)]] by (simp add: s expire_state_def)
  show "hold_inv (fst (expire_state s now ttl))"
    using ex ex2(3) by (simp add: s expire_state_def)
qed


section \<open>Properties of the store\<close>

text \<open>
  C5. No re-adoption under a wrong cycle (\#981). After any sequence of trait calls on a new
  store, if registering a session under cycle \<open>f\<close> hands a buffer back, then that very buffer
  was handed to the store by a drain of the same session under the same cycle \<open>f\<close>.
\<close>

theorem readopt_only_own_cycle:
  assumes "fst (adopt_state (fold (\<lambda>x s. hold.do_op s x) ops (hold_new cap, h)) sid f) = Some a"
  shows "\<exists>now. Drain now sid a f \<in> set ops"
  by (rule hold.adopted_was_drained [OF _ _ assms]) (simp, simp add: held_view_def hold_new_def fun_eq_iff)

definition sample_heap :: heap where
  "sample_heap = \<lparr>cells = (\<lambda>_. \<lparr>poisoned = False, buf = (buffer_new 8 scanner_empty)\<lparr>data := [1, 2]\<rparr>\<rparr>),
     next_arc = 3\<rparr>"

theorem readopt_only_own_cycle_witness:
  "fst (adopt_state (fold (\<lambda>x s. hold.do_op s x) [Drain 5 ''s1'' 0 ''crt-1'', Route 6 ''s1'']
     (hold_new 2, sample_heap)) ''s1'' ''crt-1'') = Some 0 \<and>
   (\<exists>now. Drain now ''s1'' 0 ''crt-1'' \<in> set [Drain 5 ''s1'' 0 ''crt-1'', Route 6 ''s1''])"
proof -
  have "fst (adopt_state (fold (\<lambda>x s. hold.do_op s x) [Drain 5 ''s1'' 0 ''crt-1'', Route 6 ''s1'']
     (hold_new 2, sample_heap)) ''s1'' ''crt-1'') = Some 0"
    by (simp add: drain_state_def hold_on_drain_def enforce_cap.simps hold_new_def route_state_def
        held_arc_for_session_def adopt_state_def readopt_def)
  with readopt_only_own_cycle [OF this] show ?thesis by blast
qed

text \<open>
  C6. Bounded memory and loud eviction (R-02, R-16). Holding a drained buffer leaves at most
  \<open>max_sessions\<close> sessions held; a session is evicted only if no session that stays is older;
  and where distinct sessions hold distinct buffers, the audit records emitted are exactly
  one per evicted session with a non-empty buffer, with its byte count, in one batch; every
  evicted buffer is emptied and every other one is left as it was.
\<close>

theorem hold_on_drain_bounded_and_loud:
  assumes "hold_inv th" and "f \<noteq> []" and "hold_on_drain th h now sid a f = (th', h', ev)"
  defines "m \<equiv> hm_insert sid \<lparr>held_arc = a, held_cycle = f, held_activity_at = now\<rparr> (held th)"
  assumes "arcs_inj m"
  shows "length (held th') \<le> max_sessions th \<and> hold_inv th' \<and>
    (\<forall>s b s' b'. hm_get m s = Some b \<longrightarrow> hm_get (held th') s = None \<longrightarrow> hm_get (held th') s' = Some b' \<longrightarrow>
       held_activity_at b \<le> held_activity_at b') \<and>
    (\<exists>rs. ev = (if rs = [] then [] else [(rs, TRIGGER_CAP_EVICT)]) \<and>
       set rs = owed m (held th') h \<and> distinct (map purged_session_id rs)) \<and>
    (\<forall>s b. hm_get m s = Some b \<longrightarrow>
       (if hm_get (held th') s = None then data (buf_at h' (held_arc b)) = [] else buf_at h' (held_arc b) = buf_at h (held_arc b)))"
proof -
  obtain rs where rs: "purges m h rs (held th') h'" "ev = (if rs = [] then [] else [(rs, TRIGGER_CAP_EVICT)])"
    "hold_inv th'" "max_sessions th' = max_sessions th"
    "\<And>s b s' b'. hm_get m s = Some b \<Longrightarrow> hm_get (held th') s = None \<Longrightarrow>
      hm_get (held th') s' = Some b' \<Longrightarrow> held_activity_at b \<le> held_activity_at b'"
    using hold_on_drain_spec [OF assms(1-3)] unfolding m_def by blast
  note p = purges_spec [OF rs(1) assms(5)]
  have bound: "length (held th') \<le> max_sessions th" using rs(3,4) by (simp add: hold_inv_def)
  have recs: "set rs = owed m (held th') h \<and> distinct (map purged_session_id rs)"
    using p purges_distinct [OF rs(1)] by blast
  have cells: "if hm_get (held th') s = None then data (buf_at h' (held_arc b)) = []
      else buf_at h' (held_arc b) = buf_at h (held_arc b)" if "hm_get m s = Some b" for s b
    using conjunct2 [OF p, rule_format, OF that] by (auto simp: buf_at_def split: if_splits)
  show ?thesis by (intro conjI allI impI bound rs(3) exI [of _ rs] rs(2) recs) (fact rs(5), fact cells)
qed

text \<open>
  Loud re-adoption. For a held session, registering under the held cycle returns the
  buffer and touches neither the heap nor the audit log; under any other cycle it returns
  nothing, empties the buffer, and emits exactly one \<open>readopt_mismatch\<close> record with the byte
  count if the buffer was not empty. Either way the session is no longer held.
\<close>

theorem readopt_loud:
  assumes "hold_inv th" and "hm_get (held th) sid = Some hb"
    and "readopt th h sid f = (r, th', h', ev)"
  shows "hm_get (held th') sid = None \<and>
    (if held_cycle hb = f then r = Some (held_arc hb) \<and> h' = h \<and> ev = []
     else r = None \<and> data (buf_at h' (held_arc hb)) = [] \<and>
       ev = (if data (buf_at h (held_arc hb)) = [] then []
             else [([\<lparr>purged_session_id = sid, bytes_purged = length (data (buf_at h (held_arc hb)))\<rparr>],
                    TRIGGER_READOPT_MISMATCH)]))"
proof -
  have "held_cycle hb \<noteq> []" using assms(1,2) by (auto simp: hold_inv_def)
  then show ?thesis
    using assms(2,3) purge_arc_props(3,5) [of sid "held_arc hb" h]
    by (auto simp: readopt_def purge_record_def Let_def split: if_splits prod.splits option.splits)
qed

text \<open>
  Independent reclamation by age (R-02). The sweep ends the hold of exactly the sessions
  whose last activity is at least \<open>ttl\<close> ago; where distinct sessions hold distinct buffers it
  returns exactly one record per such session with a non-empty buffer, empties those buffers
  and leaves the buffers of all other held sessions alone.
\<close>

theorem sweep_expired_exact:
  assumes "hold_inv th" and "arcs_inj (held th)" and "sweep_expired th h now ttl = (rs, th', h')"
  shows "(\<forall>sid. hm_get (held th') sid = (case hm_get (held th) sid of
       Some hb \<Rightarrow> if ttl \<le> now - held_activity_at hb then None else Some hb | None \<Rightarrow> None)) \<and>
    set rs = owed (held th) (held th') h \<and>
    (\<forall>sid hb. hm_get (held th) sid = Some hb \<longrightarrow>
       (if ttl \<le> now - held_activity_at hb then data (buf_at h' (held_arc hb)) = []
        else buf_at h' (held_arc hb) = buf_at h (held_arc hb)))"
proof -
  note s = sweep_expired_spec [OF assms(1,3)]
  note p = purges_spec [OF s(1) assms(2)]
  have "if ttl \<le> now - held_activity_at hb then data (buf_at h' (held_arc hb)) = []
        else buf_at h' (held_arc hb) = buf_at h (held_arc hb)" if "hm_get (held th) sid = Some hb" for sid hb
    using conjunct2 [OF p, rule_format, OF that] s(4) [of sid] that by (auto simp: buf_at_def split: if_splits)
  with p s(4) show ?thesis by blast
qed

definition sample_hold :: transcript_hold where
  "sample_hold = \<lparr>held = [(''s1'', \<lparr>held_arc = 0, held_cycle = ''a'', held_activity_at = 10\<rparr>),
     (''s2'', \<lparr>held_arc = 1, held_cycle = ''b'', held_activity_at = 4\<rparr>)], max_sessions = 2\<rparr>"

lemma hold_inv_sample: "hold_inv sample_hold"
  by (auto simp: hold_inv_def sample_hold_def hm_ok_def split: if_splits)

lemma arcs_inj_sample: "arcs_inj (held sample_hold)"
  by (auto simp: arcs_inj_def sample_hold_def split: if_splits)

lemma arcs_inj_sample3:
  "arcs_inj (hm_insert ''s3'' \<lparr>held_arc = 2, held_cycle = ''a'', held_activity_at = 12\<rparr> (held sample_hold))"
  by (auto simp: arcs_inj_def sample_hold_def split: if_splits)

theorem hold_on_drain_bounded_and_loud_witness:
  "\<exists>th' h' ev. hold_on_drain sample_hold sample_heap 12 ''s3'' 2 ''a'' = (th', h', ev) \<and>
     length (held th') \<le> max_sessions sample_hold \<and>
     ev = [([\<lparr>purged_session_id = ''s2'', bytes_purged = 2\<rparr>], TRIGGER_CAP_EVICT)] \<and>
     {\<lparr>purged_session_id = ''s2'', bytes_purged = 2\<rparr>} =
       owed (hm_insert ''s3'' \<lparr>held_arc = 2, held_cycle = ''a'', held_activity_at = 12\<rparr> (held sample_hold)) (held th') sample_heap"
proof -
  obtain th' h' ev where run: "hold_on_drain sample_hold sample_heap 12 ''s3'' 2 ''a'' = (th', h', ev)"
    by (metis prod_cases3)
  then have ev: "ev = [([\<lparr>purged_session_id = ''s2'', bytes_purged = 2\<rparr>], TRIGGER_CAP_EVICT)]"
    by (auto simp: hold_on_drain_def sample_hold_def sample_heap_def enforce_cap.simps purge_record_def purge_arc_def
        clear_def buf_at_def set_cell_def session_key_def buffer_new_def Let_def split: prod.splits)
  obtain rs where "ev = (if rs = [] then [] else [(rs, TRIGGER_CAP_EVICT)])" and owed: "set rs =
      owed (hm_insert ''s3'' \<lparr>held_arc = 2, held_cycle = ''a'', held_activity_at = 12\<rparr> (held sample_hold)) (held th') sample_heap"
    and bound: "length (held th') \<le> max_sessions sample_hold"
    using hold_on_drain_bounded_and_loud [OF hold_inv_sample _ run arcs_inj_sample3] by auto
  then have "rs = [\<lparr>purged_session_id = ''s2'', bytes_purged = 2\<rparr>]" unfolding ev by (simp split: if_splits)
  with owed have "{\<lparr>purged_session_id = ''s2'', bytes_purged = 2\<rparr>} =
      owed (hm_insert ''s3'' \<lparr>held_arc = 2, held_cycle = ''a'', held_activity_at = 12\<rparr> (held sample_hold)) (held th') sample_heap"
    by simp
  with run ev bound show ?thesis by blast
qed

theorem readopt_loud_witness:
  "\<exists>r th' h' ev. readopt sample_hold sample_heap ''s1'' ''b'' = (r, th', h', ev) \<and> hm_get (held th') ''s1'' = None \<and>
     r = None \<and> ev = [([\<lparr>purged_session_id = ''s1'', bytes_purged = 2\<rparr>], TRIGGER_READOPT_MISMATCH)]"
proof -
  obtain r th' h' ev where run: "readopt sample_hold sample_heap ''s1'' ''b'' = (r, th', h', ev)"
    by (metis prod_cases4)
  have "hm_get (held sample_hold) ''s1'' = Some \<lparr>held_arc = 0, held_cycle = ''a'', held_activity_at = 10\<rparr>"
    by (simp add: sample_hold_def)
  from readopt_loud [OF hold_inv_sample this run] run show ?thesis
    by (auto simp: sample_heap_def buf_at_def buffer_new_def)
qed

theorem sweep_expired_exact_witness:
  "\<exists>rs th' h'. sweep_expired sample_hold sample_heap 12 5 = (rs, th', h') \<and>
     hm_get (held th') ''s2'' = None \<and> hm_get (held th') ''s1'' \<noteq> None \<and>
     set rs = owed (held sample_hold) (held th') sample_heap \<and> data (buf_at h' 1) = []"
proof -
  obtain rs th' h' where run: "sweep_expired sample_hold sample_heap 12 5 = (rs, th', h')"
    by (metis prod_cases3)
  from sweep_expired_exact [OF hold_inv_sample arcs_inj_sample run] have
    s: "\<And>sid. hm_get (held th') sid = (case hm_get (held sample_hold) sid of
       Some hb \<Rightarrow> if 5 \<le> 12 - held_activity_at hb then None else Some hb | None \<Rightarrow> None)"
    "set rs = owed (held sample_hold) (held th') sample_heap"
    and d: "\<And>sid hb. hm_get (held sample_hold) sid = Some hb \<Longrightarrow>
       5 \<le> 12 - held_activity_at hb \<Longrightarrow> data (buf_at h' (held_arc hb)) = []"
    by auto
  have "data (buf_at h' 1) = []"
    using d [of "''s2''"] by (simp add: sample_hold_def)
  moreover have "hm_get (held th') ''s2'' = None" "hm_get (held th') ''s1'' \<noteq> None"
    by (simp_all add: s(1) sample_hold_def)
  ultimately show ?thesis using run s(2) by blast
qed

end
