(* ===== verification/Session_State.thy ===== *)
theory Session_State
  imports Transcript_Hold "HOL-Library.Char_ord" "HOL-Library.List_Lexorder" "HOL-Library.Sublist"
begin

text \<open>
  The per-session state and the decisions taken from it: the types of
  \<open>infra/session.rs\<close>, the majority vote over topic signals, the rework threshold and the
  signal output of a closed session.

  \<open>String\<close> is \<open>string\<close> (bytes); its order is the lexicographic byte order. A confidence is
  an \<open>f64\<close> that is only stored, so it is kept as its 64 bits. A \<open>HashSet\<close> that is only
  tested for membership is a set; one that is iterated is built from a list with
  \<open>remdups\<close>, and the result is sorted or is a search whose answer no order changes.
\<close>

section \<open>Model\<close>

definition STALE_SESSION_THRESHOLD_SECS :: nat where
  "STALE_SESSION_THRESHOLD_SECS = 4 * 3600"

definition REWORK_EDIT_CYCLE_THRESHOLD :: nat where
  "REWORK_EDIT_CYCLE_THRESHOLD = 3"

record topic_tally =
  tally_count :: nat
  tally_last_seen :: nat

record rework_event =
  tool_name :: string
  file_path :: "string option"
  had_failure :: bool
  rework_timestamp :: nat

datatype agent_action_type = ExplicitUnhelpful | ExplicitHelpful | Correction | Deprecation

record session_action =
  action_entry_id :: nat
  action_type :: agent_action_type
  action_timestamp :: nat

datatype session_outcome = Success | Rework | Abandoned

record signal_output =
  out_session_id :: string
  helpful_entry_ids :: "nat list"
  flagged_entry_ids :: "nat list"
  final_outcome :: session_outcome

datatype set_feature_result = FeatureSet | AlreadyMatches | Overridden string

datatype inferred_origin = Registered | Voted

datatype feature_source = Declared | Inferred inferred_origin

record injection_record =
  inj_entry_id :: nat
  inj_confidence :: "64 word"
  inj_timestamp :: nat

record session_state =
  session_id :: string
  role :: "string option"
  feature :: "string option"
  feature_src :: feature_source
  injection_history :: "injection_record list"
  coaccess_seen :: "nat list set"
  compaction_count :: nat
  signaled_entries :: "nat set"
  rework_events :: "rework_event list"
  agent_actions :: "session_action list"
  last_activity_at :: nat
  topic_signals :: "(string, topic_tally) hmap"
  current_phase :: "string option"
  category_counts :: "(string, nat) hmap"
  current_goal :: "string option"
  confirmed_entries :: "nat set"
  transcript :: arc

subsection \<open>Majority vote\<close>

text \<open>\<open>signals[k]\<close> of a key of the map; the candidates are keys of the map.\<close>

definition tally_of :: "(string, topic_tally) hmap \<Rightarrow> string \<Rightarrow> topic_tally" where
  "tally_of signals k = the (hm_get signals k)"

definition max_or_0 :: "nat list \<Rightarrow> nat" where
  "max_or_0 ns = fold max ns 0"

fun min_string :: "string list \<Rightarrow> string option" where
  "min_string [] = None"
| "min_string (x # xs) = (case min_string xs of None \<Rightarrow> Some x | Some y \<Rightarrow> Some (min x y))"

definition majority_vote_internal :: "(string, topic_tally) hmap \<Rightarrow> string option" where
  "majority_vote_internal signals =
     (if signals = [] then None
      else
        (let max_count = max_or_0 (map (tally_count \<circ> snd) signals);
             candidates = map fst (filter (\<lambda>(_, t). tally_count t = max_count) signals)
         in case candidates of
              [c] \<Rightarrow> Some c
            | _ \<Rightarrow>
                (let max_last_seen = max_or_0 (map (\<lambda>k. tally_last_seen (tally_of signals k)) candidates);
                     recency = filter (\<lambda>k. tally_last_seen (tally_of signals k) = max_last_seen) candidates
                 in case recency of [c] \<Rightarrow> Some c | _ \<Rightarrow> min_string recency)))"

subsection \<open>Rework threshold\<close>

definition is_edit_tool :: "string \<Rightarrow> bool" where
  "is_edit_tool t \<longleftrightarrow> t = ''Edit'' \<or> t = ''Write'' \<or> t = ''MultiEdit''"

fun rework_scan :: "string \<Rightarrow> bool \<Rightarrow> bool \<Rightarrow> nat \<Rightarrow> rework_event list \<Rightarrow> bool" where
  "rework_scan path last_was_edit failure_since n [] = False"
| "rework_scan path last_was_edit failure_since n (e # es) =
     (if is_edit_tool (tool_name e) \<and> file_path e = Some path then
        (if last_was_edit \<and> failure_since then
           (if REWORK_EDIT_CYCLE_THRESHOLD \<le> Suc n then True else rework_scan path True False (Suc n) es)
         else rework_scan path True False n es)
      else if tool_name e = ''Bash'' \<and> had_failure e then rework_scan path last_was_edit True n es
      else rework_scan path last_was_edit failure_since n es)"

definition edited_paths :: "rework_event list \<Rightarrow> string list" where
  "edited_paths es = remdups (List.map_filter file_path (filter (\<lambda>e. is_edit_tool (tool_name e)) es))"

definition has_crossed_rework_threshold :: "session_state \<Rightarrow> bool" where
  "has_crossed_rework_threshold st =
     list_ex (\<lambda>path. rework_scan path False False 0 (rework_events st)) (edited_paths (rework_events st))"

subsection \<open>Signal output\<close>

definition final_outcome_of :: "string \<Rightarrow> bool \<Rightarrow> session_outcome" where
  "final_outcome_of hook_outcome rework_crossed =
     (if rework_crossed then Rework else if hook_outcome = ''success'' then Success else Abandoned)"

definition eligible_entries :: "session_state \<Rightarrow> nat list" where
  "eligible_entries st =
     (let explicit_unhelpful =
            set (map action_entry_id (filter (\<lambda>a. action_type a = ExplicitUnhelpful) (agent_actions st)));
          all_injected = remdups (map inj_entry_id (injection_history st))
      in sort (filter (\<lambda>i. i \<notin> explicit_unhelpful) (filter (\<lambda>i. i \<notin> signaled_entries st) all_injected)))"

definition build_signal_output_from_state :: "session_state \<Rightarrow> string \<Rightarrow> signal_output" where
  "build_signal_output_from_state st hook_outcome =
     (case final_outcome_of hook_outcome (has_crossed_rework_threshold st) of
        Abandoned \<Rightarrow> \<lparr>out_session_id = session_id st, helpful_entry_ids = [], flagged_entry_ids = [],
            final_outcome = Abandoned\<rparr>
      | Success \<Rightarrow> \<lparr>out_session_id = session_id st, helpful_entry_ids = eligible_entries st,
            flagged_entry_ids = [], final_outcome = Success\<rparr>
      | Rework \<Rightarrow> \<lparr>out_session_id = session_id st, helpful_entry_ids = [],
            flagged_entry_ids = eligible_entries st, final_outcome = Rework\<rparr>)"

section \<open>Majority vote\<close>

lemma max_or_0_eq: "ns \<noteq> [] \<Longrightarrow> max_or_0 ns = Max (set ns)"
  by (cases ns) (simp_all add: max_or_0_def Max.set_eq_fold [symmetric])

lemma min_string_eq: "xs \<noteq> [] \<Longrightarrow> min_string xs = Some (Min (set xs))"
proof (induction xs)
  case (Cons x xs)
  then show ?case by (cases "xs = []") simp_all
qed simp

text \<open>The documented preference: more votes, then more recent, then lexicographically smaller.\<close>

definition preferred :: "string \<times> topic_tally \<Rightarrow> string \<times> topic_tally \<Rightarrow> bool" where
  "preferred x y \<longleftrightarrow>
     tally_count (snd y) < tally_count (snd x) \<or>
     tally_count (snd y) = tally_count (snd x) \<and>
       (tally_last_seen (snd y) < tally_last_seen (snd x) \<or>
        tally_last_seen (snd y) = tally_last_seen (snd x) \<and> fst x < fst y)"

lemma preferred_total: "fst x \<noteq> fst y \<Longrightarrow> preferred x y \<or> preferred y x"
  by (auto simp: preferred_def)

lemma preferred_asym: "preferred x y \<Longrightarrow> \<not> preferred y x"
  by (auto simp: preferred_def)

lemma majority_vote_wins:
  assumes ok: "hm_ok signals" and ne: "signals \<noteq> []"
  obtains k t where "majority_vote_internal signals = Some k" and "hm_get signals k = Some t"
    and "\<And>k' t'. hm_get signals k' = Some t' \<Longrightarrow> k' \<noteq> k \<Longrightarrow> preferred (k, t) (k', t')"
proof -
  define M where "M = max_or_0 (map (tally_count \<circ> snd) signals)"
  define C where "C = map fst (filter (\<lambda>(_, t). tally_count t = M) signals)"
  define ls where "ls = (\<lambda>k. tally_last_seen (tally_of signals k))"
  define L where "L = max_or_0 (map ls C)"
  define R where "R = filter (\<lambda>k. ls k = L) C"
  have val: "(k, t) \<in> set signals \<longleftrightarrow> hm_get signals k = Some t" for k t by (rule hm_values [OF ok])
  have M: "M = Max (tally_count ` snd ` set signals)" using ne by (simp add: M_def max_or_0_eq image_image)
  have cand: "k \<in> set C \<longleftrightarrow> (\<exists>t. hm_get signals k = Some t \<and> tally_count t = M)" for k
    using val [of k] by (force simp: C_def)
  have maxM: "tally_count t \<le> M" if "hm_get signals k = Some t" for k t
    using that val unfolding M by (intro Max_ge) force+
  have "M \<in> tally_count ` snd ` set signals" unfolding M using ne by (intro Max_in) auto
  then obtain k0 t0 where "(k0, t0) \<in> set signals" "tally_count t0 = M" by auto
  then have "k0 \<in> set C" using cand val by blast
  then have C: "C \<noteq> []" by auto
  then have L: "L = Max (ls ` set C)" by (simp add: L_def max_or_0_eq)
  have maxL: "ls k \<le> L" if "k \<in> set C" for k using that unfolding L by (intro Max_ge) auto
  have "L \<in> ls ` set C" unfolding L using C by (intro Max_in) auto
  then have R: "R \<noteq> []" by (auto simp: R_def filter_empty_conv)
  have "majority_vote_internal signals =
      (case C of [c] \<Rightarrow> Some c | _ \<Rightarrow> (case R of [c] \<Rightarrow> Some c | _ \<Rightarrow> min_string R))"
    using ne unfolding majority_vote_internal_def Let_def R_def L_def ls_def C_def M_def by simp
  also have "\<dots> = Some (Min (set R))"
  proof (cases "\<exists>c. C = [c]")
    case True
    then obtain c where c: "C = [c]" by blast
    then have "R = [c]" using R by (auto simp: R_def split: if_splits)
    with c show ?thesis by simp
  next
    case False
    then have "(case C of [c] \<Rightarrow> Some c | _ \<Rightarrow> (case R of [c] \<Rightarrow> Some c | _ \<Rightarrow> min_string R)) =
        (case R of [c] \<Rightarrow> Some c | _ \<Rightarrow> min_string R)"
      by (auto split: list.splits)
    also have "\<dots> = Some (Min (set R))"
      using R min_string_eq [OF R] by (auto split: list.splits)
    finally show ?thesis .
  qed
  finally have vote: "majority_vote_internal signals = Some (Min (set R))" .
  have "Min (set R) \<in> set R" using R by (intro Min_in) auto
  then have inC: "Min (set R) \<in> set C" and lsw: "ls (Min (set R)) = L" by (auto simp: R_def)
  from inC cand obtain t where t: "hm_get signals (Min (set R)) = Some t" "tally_count t = M" by blast
  show thesis
  proof (rule that [OF vote t(1)])
    fix k' t' assume k': "hm_get signals k' = Some t'" "k' \<noteq> Min (set R)"
    show "preferred (Min (set R), t) (k', t')"
    proof (cases "k' \<in> set C")
      case False
      then have "tally_count t' \<noteq> M" using cand k'(1) by blast
      then show ?thesis using maxM [OF k'(1)] t(2) by (simp add: preferred_def)
    next
      case inC': True
      then have cnt: "tally_count t' = M" using cand k'(1) by force
      show ?thesis
      proof (cases "ls k' = L")
        case True
        then have "k' \<in> set R" using inC' by (simp add: R_def)
        then have "Min (set R) \<le> k'" by (intro Min_le) auto
        then show ?thesis
          using cnt t k' True lsw by (auto simp: preferred_def tally_of_def ls_def)
      next
        case False
        with maxL [OF inC'] have "ls k' < L" by simp
        then show ?thesis using cnt t k'(1) lsw by (simp add: preferred_def tally_of_def ls_def)
      qed
    qed
  qed
qed

text \<open>
  The majority vote. A topic is elected exactly when it is in the map and beats every
  other topic: by count, on equal counts by the more recent observation, on equal times by
  the smaller name. So nobody is elected only over an empty map, and the answer does not
  depend on the iteration order of the hash map.
\<close>

theorem majority_vote_elects:
  assumes "hm_ok signals"
  shows "(majority_vote_internal signals = Some k \<longleftrightarrow>
      (\<exists>t. hm_get signals k = Some t \<and>
        (\<forall>k' t'. hm_get signals k' = Some t' \<longrightarrow> k' \<noteq> k \<longrightarrow> preferred (k, t) (k', t')))) \<and>
    (majority_vote_internal signals = None \<longleftrightarrow> signals = [])"
proof (cases "signals = []")
  case True
  then show ?thesis by (simp add: majority_vote_internal_def)
next
  case False
  obtain w t where w: "majority_vote_internal signals = Some w" "hm_get signals w = Some t"
    and wins: "\<And>k' t'. hm_get signals k' = Some t' \<Longrightarrow> k' \<noteq> w \<Longrightarrow> preferred (w, t) (k', t')"
    using majority_vote_wins [OF assms False] by metis
  have "k = w" if "hm_get signals k = Some u"
    and "\<forall>k' t'. hm_get signals k' = Some t' \<longrightarrow> k' \<noteq> k \<longrightarrow> preferred (k, u) (k', t')" for u
    using that wins [of k u] w(2) preferred_asym by blast
  with w wins False show ?thesis by (simp, metis option.inject)
qed

theorem majority_vote_elects_witness:
  "hm_ok [(''b'', \<lparr>tally_count = 2, tally_last_seen = 9\<rparr>), (''a'', \<lparr>tally_count = 2, tally_last_seen = 9\<rparr>)] \<and>
   majority_vote_internal [(''b'', \<lparr>tally_count = 2, tally_last_seen = 9\<rparr>),
     (''a'', \<lparr>tally_count = 2, tally_last_seen = 9\<rparr>)] = Some ''a''"
proof -
  let ?s = "[(''b'', \<lparr>tally_count = 2, tally_last_seen = 9\<rparr>), (''a'', \<lparr>tally_count = 2, tally_last_seen = 9\<rparr>)]"
  have "hm_ok ?s" by (simp add: hm_ok_def)
  moreover from majority_vote_elects [OF this, of "''a''"] have "majority_vote_internal ?s = Some ''a''"
    by (auto simp: preferred_def split: if_splits)
  ultimately show ?thesis by blast
qed

section \<open>Rework threshold\<close>

text \<open>A list has a subsequence whose elements satisfy the given predicates in order.\<close>

definition pattern_in :: "('a \<Rightarrow> bool) list \<Rightarrow> 'a list \<Rightarrow> bool" where
  "pattern_in ps es \<longleftrightarrow> (\<exists>ws. subseq ws es \<and> list_all2 (\<lambda>P w. P w) ps ws)"

lemma pattern_in_Nil [simp]: "pattern_in [] es"
  by (auto simp: pattern_in_def)

lemma pattern_in_empty [simp]: "\<not> pattern_in (P # ps) []"
  by (auto simp: pattern_in_def list_all2_Cons1)

lemma pattern_in_weaken: "pattern_in ps es \<Longrightarrow> pattern_in ps (e # es)"
  by (auto simp: pattern_in_def)

lemma pattern_in_tl: "pattern_in (P # ps) es \<Longrightarrow> pattern_in ps es"
  by (auto simp: pattern_in_def list_all2_Cons1 dest: subseq_Cons')

text \<open>Matching greedily is complete.\<close>

lemma pattern_in_Cons:
  "pattern_in (P # ps) (e # es) = (if P e then pattern_in ps es else pattern_in (P # ps) es)"
proof (cases "P e")
  case True
  have "pattern_in (P # ps) (e # es) \<Longrightarrow> pattern_in ps es"
    by (auto simp: pattern_in_def list_all2_Cons1 split: if_splits) (blast dest: subseq_Cons')+
  moreover have "pattern_in ps es \<Longrightarrow> pattern_in (P # ps) (e # es)"
    using True by (auto simp: pattern_in_def list_all2_Cons1 intro: exI [of _ "e # _"])
  ultimately show ?thesis using True by auto
next
  case False
  have "pattern_in (P # ps) (e # es) \<Longrightarrow> pattern_in (P # ps) es"
    using False by (fastforce simp: pattern_in_def list_all2_Cons1 split: if_splits)
  with False show ?thesis by (auto intro: pattern_in_weaken)
qed

definition edits :: "string \<Rightarrow> rework_event \<Rightarrow> bool" where
  "edits path e \<longleftrightarrow> is_edit_tool (tool_name e) \<and> file_path e = Some path"

definition bash_failed :: "rework_event \<Rightarrow> bool" where
  "bash_failed e \<longleftrightarrow> tool_name e = ''Bash'' \<and> had_failure e"

text \<open>What is still to come after \<open>n\<close> cycles, from a state of the scan.\<close>

primrec fail_edit :: "string \<Rightarrow> nat \<Rightarrow> (rework_event \<Rightarrow> bool) list" where
  "fail_edit path 0 = []"
| "fail_edit path (Suc n) = bash_failed # edits path # fail_edit path n"

lemma edits_not_bash: "edits path e \<Longrightarrow> \<not> bash_failed e"
  by (auto simp: edits_def bash_failed_def is_edit_tool_def)

lemma rework_scan_pattern:
  "n < 3 \<Longrightarrow> rework_scan path lwe fs n es =
     pattern_in (if \<not> lwe then edits path # fail_edit path (3 - n)
                 else if fs then tl (fail_edit path (3 - n)) else fail_edit path (3 - n)) es"
proof (induction path lwe fs n es rule: rework_scan.induct)
  case (1 path lwe fs n)
  then have "3 - n = Suc (2 - n)" by simp
  then show ?case by simp
next
  case (2 path lwe fs n e es)
  note step = rework_scan.simps(2) [of path lwe fs n e es, folded edits_def bash_failed_def]
  have d: "3 - n = Suc (2 - n)" using \<open>n < 3\<close> by simp
  show ?case
  proof (cases "edits path e")
    case True
    note IH = "2.IH"(1,2) [folded edits_def bash_failed_def, OF True]
    show ?thesis
    proof (cases "lwe \<and> fs")
      case cyc: True
      show ?thesis
      proof (cases "n = 2")
        case False
        then have "\<not> REWORK_EDIT_CYCLE_THRESHOLD \<le> Suc n" "Suc n < 3"
          using \<open>n < 3\<close> by (simp_all add: REWORK_EDIT_CYCLE_THRESHOLD_def)
        with IH(1) [OF cyc] cyc True step d show ?thesis by (simp add: pattern_in_Cons)
      qed (use cyc True step in \<open>simp add: pattern_in_Cons REWORK_EDIT_CYCLE_THRESHOLD_def\<close>)
    next
      case False
      with IH(2) [OF False \<open>n < 3\<close>] True step d edits_not_bash [OF True] show ?thesis
        by (auto simp: pattern_in_Cons)
    qed
  next
    case ned: False
    note IH = "2.IH"(3,4) [folded edits_def bash_failed_def, OF ned]
    show ?thesis
    proof (cases "bash_failed e")
      case True
      with IH(1) [OF True \<open>n < 3\<close>] ned step d show ?thesis by (auto simp: pattern_in_Cons)
    next
      case False
      with IH(2) [OF False \<open>n < 3\<close>] ned step d show ?thesis by (auto simp: pattern_in_Cons)
    qed
  qed
qed

lemma pattern_in_cycles:
  "pattern_in [edits p, bash_failed, edits p, bash_failed, edits p, bash_failed, edits p] es \<longleftrightarrow>
     (\<exists>e0 f1 e1 f2 e2 f3 e3. subseq [e0, f1, e1, f2, e2, f3, e3] es \<and>
        edits p e0 \<and> edits p e1 \<and> edits p e2 \<and> edits p e3 \<and>
        bash_failed f1 \<and> bash_failed f2 \<and> bash_failed f3)" (is "?l = ?r")
proof
  assume ?l
  then show ?r unfolding pattern_in_def list_all2_Cons1 by (elim exE conjE) (simp, blast)
next
  assume ?r
  then obtain e0 f1 e1 f2 e2 f3 e3 where "subseq [e0, f1, e1, f2, e2, f3, e3] es"
    "edits p e0" "edits p e1" "edits p e2" "edits p e3" "bash_failed f1" "bash_failed f2" "bash_failed f3"
    by blast
  then show ?l
    unfolding pattern_in_def by (intro exI [of _ "[e0, f1, e1, f2, e2, f3, e3]"]) simp
qed

text \<open>
  The rework threshold. The scan reports rework exactly when the events contain, in this
  order and with anything in between, an edit of one path, a failed \<open>Bash\<close>, an edit of that
  path, a failed \<open>Bash\<close>, an edit, a failed \<open>Bash\<close> and an edit: three edit-fail-edit cycles.
\<close>

theorem rework_threshold_iff:
  "has_crossed_rework_threshold st \<longleftrightarrow>
     (\<exists>path e0 f1 e1 f2 e2 f3 e3. subseq [e0, f1, e1, f2, e2, f3, e3] (rework_events st) \<and>
        edits path e0 \<and> edits path e1 \<and> edits path e2 \<and> edits path e3 \<and>
        bash_failed f1 \<and> bash_failed f2 \<and> bash_failed f3)"
proof -
  let ?pat = "\<lambda>path. [edits path, bash_failed, edits path, bash_failed, edits path, bash_failed, edits path]"
  have scan: "rework_scan path False False 0 es = pattern_in (?pat path) es" for path es
    using rework_scan_pattern [of 0 path False False es] by (simp add: eval_nat_numeral)
  have path: "path \<in> set (edited_paths es)" if "pattern_in (?pat path) es" for path es
  proof -
    from that obtain e ws where "subseq (e # ws) es" and e: "edits path e"
      by (auto simp: pattern_in_def list_all2_Cons1)
    then have "e \<in> set es" using subseq_order.order_trans [of "[e]" "e # ws" es] by (simp add: subseq_singleton_left)
    with e show ?thesis by (auto simp: edited_paths_def edits_def List.map_filter_def image_iff intro!: bexI [of _ e])
  qed
  have "has_crossed_rework_threshold st \<longleftrightarrow> (\<exists>path. pattern_in (?pat path) (rework_events st))"
    using path by (auto simp: has_crossed_rework_threshold_def list_ex_iff scan)
  then show ?thesis by (simp only: pattern_in_cycles)
qed

section \<open>Signal output\<close>

lemma eligible_entries_props:
  "sorted (eligible_entries st)" "distinct (eligible_entries st)"
  "i \<in> set (eligible_entries st) \<longleftrightarrow> i \<in> inj_entry_id ` set (injection_history st) \<and> i \<notin> signaled_entries st \<and>
     \<not> (\<exists>a \<in> set (agent_actions st). action_entry_id a = i \<and> action_type a = ExplicitUnhelpful)"
  unfolding eligible_entries_def Let_def by (simp, simp, force)

lemma eligible_entries_fresh: "injection_history st = [] \<Longrightarrow> eligible_entries st = []"
  by (simp add: eligible_entries_def)

text \<open>
  The signals of a closed session (FR-04). The outcome is \<open>Rework\<close> when the threshold is
  crossed whatever the hook says, else \<open>Success\<close> exactly for the hook outcome \<open>success\<close>, else
  \<open>Abandoned\<close>. An entry is reported at most once, in increasing order, only if it was
  injected, was not signalled before and was not marked unhelpful by the agent: as helpful
  on success, as flagged on rework, and never both.
\<close>

theorem signal_output_correct:
  "let out = build_signal_output_from_state st hook_outcome;
       reported = {i. i \<in> inj_entry_id ` set (injection_history st) \<and> i \<notin> signaled_entries st \<and>
         \<not> (\<exists>a. a \<in> set (agent_actions st) \<and> action_entry_id a = i \<and> action_type a = ExplicitUnhelpful)}
   in out_session_id out = session_id st \<and>
      final_outcome out = (if has_crossed_rework_threshold st then Rework
        else if hook_outcome = ''success'' then Success else Abandoned) \<and>
      sorted_wrt (<) (helpful_entry_ids out) \<and> sorted_wrt (<) (flagged_entry_ids out) \<and>
      set (helpful_entry_ids out) = (if final_outcome out = Success then reported else {}) \<and>
      set (flagged_entry_ids out) = (if final_outcome out = Rework then reported else {})"
proof -
  have "sorted_wrt (<) (eligible_entries st)"
    using eligible_entries_props(1,2) by (simp add: strict_sorted_iff)
  moreover have "set (eligible_entries st) = {i. i \<in> inj_entry_id ` set (injection_history st) \<and> i \<notin> signaled_entries st \<and>
         \<not> (\<exists>a. a \<in> set (agent_actions st) \<and> action_entry_id a = i \<and> action_type a = ExplicitUnhelpful)}"
    using eligible_entries_props(3) by blast
  ultimately show ?thesis
    by (simp add: build_signal_output_from_state_def final_outcome_of_def Let_def)
qed

end
