(* ===== verification/Transcript_Props.thy ===== *)
theory Transcript_Props
  imports Transcript_Buffer
begin

text \<open>
  The properties of the transcript buffer, over the step lemmas of \<open>Transcript_Buffer\<close>:
  totality and invariant of \<open>apply_delta\<close>, its refinement of the map of received bytes, the
  accounting of elided bytes, order independence, and what the readers and the purge return.
\<close>

section \<open>No panic, and the invariant\<close>

lemma apply_delta_cases:
  assumes inv: "buf_inv b"
  obtains (overflow) "u64_max < offset + length bytes" "apply_delta b offset bytes = Some b"
  | (accepted) b' where "offset + length bytes \<le> u64_max" "apply_delta b offset bytes = Some b'"
      "buf_inv b'" "high_water b' = max (high_water b) (offset + length bytes)"
      "max_bytes b' = max_bytes b" "scanner b' = scanner b"
      "base_offset b \<le> base_offset b'"
      "content b' = (content b ++ delta_map offset bytes) |` {base_offset b'..}"
proof (cases "u64_max < offset + length bytes")
  case True
  then show thesis by (intro overflow) (simp_all add: apply_delta_overflow)
next
  case False
  show thesis
  proof (cases "bytes = []")
    case True
    with False have "offset \<le> u64_max" by simp
    then obtain b' where b': "apply_delta b offset [] = Some b'" "buf_inv b'"
      "b' = b\<lparr>high_water := max (high_water b) offset, activity := activity b'\<rparr>"
      using apply_delta_empty [OF inv] by blast
    have "content b = content b |` {base_offset b..}" "delta_map offset [] = Map.empty"
      by (auto simp: content_def restrict_map_def delta_map_def fun_eq_iff)
    then have "content b' = (content b ++ delta_map offset []) |` {base_offset b'..}"
      by (subst (1 2) b'(3)) simp
    moreover have "high_water b' = max (high_water b) offset" "max_bytes b' = max_bytes b"
      "scanner b' = scanner b" "base_offset b' = base_offset b"
      by (subst b'(3), simp)+
    ultimately show thesis
      using True False b' by (intro accepted [of b']) simp_all
  next
    case ne: False
    from False have "offset + length bytes \<le> u64_max" by simp
    from apply_delta_nonempty [OF inv refl this ne] obtain b' where b':
      "apply_delta b offset bytes = Some b'" "buf_inv b'"
      "high_water b' = max (high_water b) (offset + length bytes)"
      "max_bytes b' = max_bytes b" "scanner b' = scanner b"
      "cap_floor b (offset + length bytes) \<le> base_offset b'"
      "content b' = (content b ++ delta_map offset bytes) |` {base_offset b'..}"
      by blast
    moreover from b'(6) have "base_offset b \<le> base_offset b'" by (simp add: cap_floor_def)
    ultimately show thesis
      using False by (intro accepted [of b']) simp_all
  qed
qed

definition delta_step :: "transcript_buffer \<Rightarrow> nat \<times> byte list \<Rightarrow> transcript_buffer option" where
  "delta_step b d = apply_delta b (fst d) (snd d)"

interpretation buffer: panic_free delta_step buf_inv "\<lambda>d. True"
proof unfold_locales
  fix b :: transcript_buffer and d :: "nat \<times> byte list"
  assume "buf_inv b"
  then show "delta_step b d \<noteq> None"
    by (rule apply_delta_cases [of b "fst d" "snd d"]) (auto simp: delta_step_def)
next
  fix b b' :: transcript_buffer and d :: "nat \<times> byte list"
  assume inv: "buf_inv b" and step: "delta_step b d = Some b'"
  show "buf_inv b'"
    by (rule apply_delta_cases [OF inv, of "fst d" "snd d"]) (use inv step in \<open>auto simp: delta_step_def\<close>)
qed

lemma buf_inv_new: "scanner_ok sc \<Longrightarrow> buf_inv (buffer_new cap sc)"
  by (simp add: buf_inv_def span_inv_def buffer_new_def holes_zero_def span_end_of_def)

text \<open>
  C1. Never-panics contract of the transcript buffer: starting from a new buffer with any
  cap and any scanner whose class indices are in range, any sequence of deltas (any
  offsets, any payloads) is processed without a panic, and the result satisfies I1 (the
  span is at most \<open>max_bytes\<close> long), I2 (at most 64 holes, sorted, disjoint, strictly
  inside the span) and I4 (hole regions are zero-filled).
\<close>

theorem buffer_never_panics:
  assumes "scanner_ok sc"
  shows "\<exists>b. run_steps delta_step (buffer_new cap sc) deltas = Some b \<and> buf_inv b"
  using buffer.run_total [OF buf_inv_new [OF assms]] by (simp add: list_all_iff)

theorem buffer_never_panics_witness:
  "scanner_ok scanner_empty \<and>
   (\<exists>b. run_steps delta_step (buffer_new 4 scanner_empty)
      [(2, [1, 2]), (0, [9]), (18446744073709551615, [7, 7]), (3, [5, 5, 5])] = Some b \<and> buf_inv b)"
  by (intro conjI scanner_ok_empty buffer_never_panics)


section \<open>Refinement: the buffer is the map of received bytes above its floor\<close>

text \<open>
  C2. Functional refinement of \<open>apply_delta\<close>. For every delta whose end fits in 64 bits the
  call returns, and the content afterwards is the old content overwritten by the delta,
  cut at the new floor. The floor never moves down, and while fewer than 64 holes are open
  it is exactly the maximum of the old floor and \<open>end - max_bytes\<close>: nothing above the ring
  tail is lost.
\<close>

theorem apply_delta_refines:
  assumes "buf_inv b" and "offset + length bytes \<le> u64_max"
  shows "\<exists>b'. apply_delta b offset bytes = Some b' \<and>
    content b' = (content b ++ delta_map offset bytes) |` {base_offset b'..} \<and>
    base_offset b \<le> base_offset b' \<and>
    (length (holes b) < MAX_HOLE_RANGES \<longrightarrow> bytes \<noteq> [] \<longrightarrow>
       base_offset b' = max (base_offset b) (offset + length bytes - max_bytes b))"
proof (cases "bytes = []")
  case True
  then show ?thesis
    using assms apply_delta_cases [of b offset bytes thesis for thesis] by (metis not_le)
next
  case False
  obtain b' where "apply_delta b offset bytes = Some b'"
    "cap_floor b (offset + length bytes) \<le> base_offset b'"
    "length (holes b) < MAX_HOLE_RANGES \<Longrightarrow> base_offset b' = cap_floor b (offset + length bytes)"
    "content b' = (content b ++ delta_map offset bytes) |` {base_offset b'..}"
    using apply_delta_nonempty [OF assms(1) refl assms(2) False] by blast
  then show ?thesis by (auto simp: cap_floor_def)
qed

definition sample_buffer :: transcript_buffer where
  "sample_buffer = (buffer_new 8 scanner_empty)\<lparr>data := [1, 2, 0, 0, 5], holes := [(2, 4)], high_water := 5\<rparr>"

lemma buf_inv_sample: "buf_inv sample_buffer"
proof -
  have "holes_zero sample_buffer"
    unfolding holes_zero_def
  proof (intro allI impI)
    fix x
    assume "in_holes x (holes sample_buffer)"
    then have "x = 2 \<or> x = 3" by (auto simp: sample_buffer_def)
    then show "data sample_buffer ! (x - base_offset sample_buffer) = 0"
      by (auto simp: sample_buffer_def buffer_new_def)
  qed
  then show ?thesis
    by (simp add: buf_inv_def span_inv_def sample_buffer_def buffer_new_def span_end_of_def
        MAX_HOLE_RANGES_def u64_max_def)
qed

theorem apply_delta_refines_witness:
  "buf_inv sample_buffer \<and> (3::nat) + length [7 :: byte] \<le> u64_max \<and>
   (\<exists>b'. apply_delta sample_buffer 3 [7] = Some b' \<and>
      content b' = (content sample_buffer ++ delta_map 3 [7]) |` {base_offset b'..} \<and>
      base_offset sample_buffer \<le> base_offset b' \<and>
      (length (holes sample_buffer) < MAX_HOLE_RANGES \<longrightarrow> [7 :: byte] \<noteq> [] \<longrightarrow>
         base_offset b' = max (base_offset sample_buffer) (3 + length [7 :: byte] - max_bytes sample_buffer)))"
proof -
  have "(3::nat) + length [7 :: byte] \<le> u64_max" by (simp add: u64_max_def)
  then show ?thesis using buf_inv_sample apply_delta_refines [OF buf_inv_sample] by blast
qed

text \<open>
  Elision accounting. A non-empty delta raises \<open>elided_bytes\<close> (saturating) by exactly:
  the received bytes that the ring tail drops, plus the bytes of the delta below the
  floor, plus the received bytes that the hole cap drops. Zero-filled hole bytes are
  never counted.
\<close>

theorem elided_bytes_exact:
  assumes "buf_inv b" and "offset + length bytes \<le> u64_max" and "bytes \<noteq> []"
    and "apply_delta b offset bytes = Some b'"
  defines "floor \<equiv> max (base_offset b) (offset + length bytes - max_bytes b)"
  shows "elided_bytes b' = sat_add_u64 (elided_bytes b)
    (card {x \<in> dom (content b). x < floor} + card {x \<in> dom (delta_map offset bytes). x < floor} +
     card {x \<in> dom (content b ++ delta_map offset bytes). floor \<le> x \<and> x < base_offset b'})"
proof -
  obtain b'' where "apply_delta b offset bytes = Some b''"
    "elided_bytes b'' = sat_add_u64 (elided_bytes b)
       (received_below b (cap_floor b (offset + length bytes))
        + card {x \<in> dom (delta_map offset bytes). x < cap_floor b (offset + length bytes)}
        + card {x \<in> dom (content b ++ delta_map offset bytes).
            cap_floor b (offset + length bytes) \<le> x \<and> x < base_offset b''})"
    using apply_delta_nonempty [OF assms(1) refl assms(2,3)] by blast
  with assms(4) show ?thesis by (simp add: floor_def cap_floor_def received_below_def)
qed

lemma sample_ring_tail:
  "apply_delta sample_buffer 8 [9, 9] = Some (sample_buffer\<lparr>base_offset := 2,
     data := [0, 0, 5, 0, 0, 0, 9, 9], holes := [(2, 4), (5, 8)], high_water := 10, elided_bytes := 2,
     activity := \<lparr>bytes_total = 2, delta_count = 1, class_counts = replicate 16 0\<rparr>\<rparr>)"
  by (simp add: apply_delta_def checked_add_u64_def u64_max_def u32_max_def sample_buffer_def buffer_new_def
      advance_base_def merge_delta_def clip_to_floor_def extend_span_def write_span_def
      subtract_range_from_holes_def fold_activity_def counters_fold_def scan_def scanner_empty_def
      counters_new_def sat_add_u64_def sat_add_u32_def hole_bytes_below_def truncate_holes_def
      slice_from_def splice_def resize_def MAX_HOLE_RANGES_def MAX_SIGNAL_CLASSES_def Let_def)
    (simp add: numeral_3_eq_3)

theorem elided_bytes_exact_witness:
  "\<exists>b'. apply_delta sample_buffer 8 [9, 9] = Some b' \<and>
     elided_bytes b' = sat_add_u64 (elided_bytes sample_buffer)
      (card {x \<in> dom (content sample_buffer). x < max (base_offset sample_buffer) (8 + length [9::byte, 9] - max_bytes sample_buffer)} +
       card {x \<in> dom (delta_map 8 [9, 9]). x < max (base_offset sample_buffer) (8 + length [9::byte, 9] - max_bytes sample_buffer)} +
       card {x \<in> dom (content sample_buffer ++ delta_map 8 [9, 9]).
          max (base_offset sample_buffer) (8 + length [9::byte, 9] - max_bytes sample_buffer) \<le> x \<and> x < base_offset b'})"
proof -
  have "8 + length [9::byte, 9] \<le> u64_max" "[9::byte, 9] \<noteq> []" by (simp_all add: u64_max_def)
  from elided_bytes_exact [OF buf_inv_sample this sample_ring_tail] sample_ring_tail show ?thesis by blast
qed


section \<open>Order independence\<close>

text \<open>A list of deltas cut out of one stream, in any order, overlapping or repeated.\<close>

definition slices_of :: "byte list \<Rightarrow> (nat \<times> byte list) list \<Rightarrow> bool" where
  "slices_of s ds \<longleftrightarrow>
     (\<forall>(off, bs) \<in> set ds. off + length bs \<le> length s \<and> bs = take (length bs) (drop off s))"

definition covered :: "(nat \<times> byte list) list \<Rightarrow> nat set" where
  "covered ds = (\<Union>(off, bs) \<in> set ds. {off..<off + length bs})"

definition last_end :: "(nat \<times> byte list) list \<Rightarrow> nat" where
  "last_end ds = Max (insert 0 ((\<lambda>(off, bs). off + length bs) ` {d \<in> set ds. snd d \<noteq> []}))"

definition holds_slices :: "byte list \<Rightarrow> (nat \<times> byte list) list \<Rightarrow> transcript_buffer \<Rightarrow> bool" where
  "holds_slices s ds b \<longleftrightarrow> buf_inv b \<and> base_offset b = 0 \<and> elided_bytes b = 0 \<and> length s \<le> max_bytes b \<and>
     span_end_of b = last_end ds \<and> length (holes b) \<le> length ds \<and>
     content b = (\<lambda>x. if x \<in> covered ds then Some (s ! x) else None)"

lemma covered_snoc [simp]: "covered (ds @ [(off, bs)]) = covered ds \<union> {off..<off + length bs}"
  by (auto simp: covered_def)

lemma last_end_snoc:
  "last_end (ds @ [(off, bs)]) = (if bs = [] then last_end ds else max (last_end ds) (off + length bs))"
proof -
  let ?f = "\<lambda>(off, bs :: byte list). off + length bs"
  have "{d \<in> set (ds @ [(off, bs)]). snd d \<noteq> []} =
      (if bs = [] then {} else {(off, bs)}) \<union> {d \<in> set ds. snd d \<noteq> []}" by auto
  then show ?thesis
    by (auto simp: last_end_def insert_commute [of 0] Max_insert max.commute simp del: set_append)
qed

lemma holds_slices_step:
  assumes hold: "holds_slices s ds b" and sl: "slices_of s [(off, bs)]"
    and few: "length ds < MAX_HOLE_RANGES" and small: "length s \<le> u64_max"
  obtains b' where "delta_step b (off, bs) = Some b'" and "holds_slices s (ds @ [(off, bs)]) b'"
proof -
  from sl have fit: "off + length bs \<le> length s" and bs: "bs = take (length bs) (drop off s)"
    by (auto simp: slices_of_def)
  from hold have inv: "buf_inv b" by (simp add: holds_slices_def)
  show thesis
  proof (cases "bs = []")
    case True
    from fit small have "off \<le> u64_max" by simp
    then obtain b' where b': "apply_delta b off [] = Some b'" "buf_inv b'"
      "b' = b\<lparr>high_water := max (high_water b) off, activity := activity b'\<rparr>"
      using apply_delta_empty [OF inv] by blast
    have "content b' = content b" "span_end_of b' = span_end_of b" "base_offset b' = base_offset b"
      "elided_bytes b' = elided_bytes b" "max_bytes b' = max_bytes b" "holes b' = holes b"
      by (subst b'(3), simp)+
    with True b' hold show thesis
      by (intro that [of b']) (auto simp: delta_step_def holds_slices_def last_end_snoc)
  next
    case False
    from fit small have en: "off + length bs \<le> u64_max" by simp
    from hold few have few': "length (holes b) < MAX_HOLE_RANGES" by (simp add: holds_slices_def)
    from hold fit have floor: "cap_floor b (off + length bs) = 0"
      by (simp add: cap_floor_def holds_slices_def)
    obtain b' where b': "apply_delta b off bs = Some b'" "buf_inv b'" "max_bytes b' = max_bytes b"
      "span_end_of b' = max (base_offset b') (max (span_end_of b) (off + length bs))"
      "base_offset b' = cap_floor b (off + length bs)" "length (holes b') \<le> Suc (length (holes b))"
      "content b' = (content b ++ delta_map off bs) |` {base_offset b'..}"
      "elided_bytes b' = sat_add_u64 (elided_bytes b)
       (received_below b (cap_floor b (off + length bs))
        + card {x \<in> dom (delta_map off bs). x < cap_floor b (off + length bs)}
        + card {x \<in> dom (content b ++ delta_map off bs).
            cap_floor b (off + length bs) \<le> x \<and> x < base_offset b'})"
      using apply_delta_nonempty [OF inv refl en False] few' by blast
    have base: "base_offset b' = 0" using b'(5) floor by simp
    have nth: "bs ! i = s ! (off + i)" if "i < length bs" for i
      using that fit by (subst bs) simp
    have cont: "content b' = (\<lambda>x. if x \<in> covered (ds @ [(off, bs)]) then Some (s ! x) else None)"
      using hold nth
      by (auto simp: b'(7) base holds_slices_def fun_eq_iff restrict_map_def map_add_def delta_map_def)
    have "elided_bytes b' = 0"
      using hold b'(8) by (simp add: floor base received_below_def holds_slices_def sat_add_u64_0)
    with base cont b' hold False show thesis
      by (intro that [of b']) (auto simp: delta_step_def holds_slices_def last_end_snoc)
  qed
qed

lemma holds_slices_run:
  assumes "holds_slices s ds b" and "slices_of s es" and "length s \<le> u64_max"
    and "length ds + length es \<le> MAX_HOLE_RANGES"
  shows "\<exists>b'. run_steps delta_step b es = Some b' \<and> holds_slices s (ds @ es) b'"
  using assms
proof (induction es arbitrary: ds b)
  case Nil
  then show ?case by simp
next
  case (Cons e es)
  obtain off bs where e: "e = (off, bs)" by (cases e)
  from Cons.prems(2) e have one: "slices_of s [(off, bs)]" and sl: "slices_of s es"
    by (auto simp: slices_of_def)
  from Cons.prems(4) have few: "length ds < MAX_HOLE_RANGES" by simp
  obtain b1 where b1: "delta_step b (off, bs) = Some b1" "holds_slices s (ds @ [(off, bs)]) b1"
    using holds_slices_step [OF Cons.prems(1) one few Cons.prems(3)] by blast
  from Cons.IH [OF b1(2) sl Cons.prems(3)] Cons.prems(4) b1(1) e show ?case by simp
qed

lemma holds_slices_new:
  "scanner_ok sc \<Longrightarrow> length s \<le> cap \<Longrightarrow> holds_slices s [] (buffer_new cap sc)"
  using buf_inv_new by (auto simp: holds_slices_def buffer_new_def span_end_of_def last_end_def covered_def
      content_def fun_eq_iff)

lemma holds_slices_data:
  assumes "holds_slices s ds b"
  shows "data b = map (\<lambda>x. if x \<in> covered ds then s ! x else 0) [0..<last_end ds]"
proof (rule nth_equalityI)
  from assms have len: "length (data b) = last_end ds" and zero: "holes_zero b"
    and base: "base_offset b = 0"
    and cont: "\<And>x. content b x = (if x \<in> covered ds then Some (s ! x) else None)"
    by (auto simp: holds_slices_def span_end_of_def buf_inv_def)
  then show "length (data b) = length (map (\<lambda>x. if x \<in> covered ds then s ! x else 0) [0..<last_end ds])"
    by simp
  fix i assume i: "i < length (data b)"
  show "data b ! i = map (\<lambda>x. if x \<in> covered ds then s ! x else 0) [0..<last_end ds] ! i"
    using cont [of i] zero i len
    by (auto simp: content_def base span_end_of_def holes_zero_def split: if_splits)
qed

lemma covered_set: "set ds = set ds' \<Longrightarrow> covered ds = covered ds'"
  by (simp add: covered_def)

lemma last_end_set: "set ds = set ds' \<Longrightarrow> last_end ds = last_end ds'"
  by (simp add: last_end_def)

text \<open>
  C3. Idempotence and order independence of the merge (AC-02). Two lists of at most 64
  deltas cut out of the same stream, which contain the same deltas in any order and any
  multiplicity, leave the buffer (whose cap holds the stream) with the same span, the same
  bytes and the same content, and nothing is elided.
\<close>

theorem merge_order_independent:
  assumes "scanner_ok sc" and "length s \<le> cap" and "length s \<le> u64_max"
    and "slices_of s ds" and "length ds \<le> MAX_HOLE_RANGES"
    and "slices_of s ds'" and "length ds' \<le> MAX_HOLE_RANGES" and "set ds = set ds'"
  shows "\<exists>b b'. run_steps delta_step (buffer_new cap sc) ds = Some b \<and>
    run_steps delta_step (buffer_new cap sc) ds' = Some b' \<and>
    base_offset b = base_offset b' \<and> data b = data b' \<and> content b = content b' \<and>
    elided_bytes b = 0 \<and> elided_bytes b' = 0 \<and>
    (\<forall>x. content b x = (if x \<in> covered ds then Some (s ! x) else None))"
proof -
  note new = holds_slices_new [OF assms(1,2)]
  obtain b where b: "run_steps delta_step (buffer_new cap sc) ds = Some b" "holds_slices s ds b"
    using holds_slices_run [OF new assms(4,3)] assms(5) by auto
  obtain b' where b': "run_steps delta_step (buffer_new cap sc) ds' = Some b'" "holds_slices s ds' b'"
    using holds_slices_run [OF new assms(6,3)] assms(7) by auto
  have "data b = data b'"
    by (simp add: holds_slices_data [OF b(2)] holds_slices_data [OF b'(2)]
        covered_set [OF assms(8)] last_end_set [OF assms(8)])
  with b b' show ?thesis
    by (auto simp: holds_slices_def covered_set [OF assms(8)])
qed

theorem merge_order_independent_witness:
  "\<exists>b b'. run_steps delta_step (buffer_new 4 scanner_empty) [(0, [1, 2]), (3, [4])] = Some b \<and>
    run_steps delta_step (buffer_new 4 scanner_empty) [(3, [4]), (0, [1, 2]), (3, [4])] = Some b' \<and>
    base_offset b = base_offset b' \<and> data b = data b' \<and> content b = content b' \<and>
    elided_bytes b = 0 \<and> elided_bytes b' = 0 \<and>
    (\<forall>x. content b x = (if x \<in> covered [(0, [1, 2]), (3, [4])] then Some ([1, 2, 3, 4] ! x) else None))"
  by (rule merge_order_independent)
    (auto simp: slices_of_def u64_max_def MAX_HOLE_RANGES_def)


section \<open>Readers\<close>

lemma in_holes_last_end:
  "holes_ok lo hi hs \<Longrightarrow> hs \<noteq> [] \<Longrightarrow> in_holes (snd (last hs) - 1) hs"
  by (induction lo hi hs rule: holes_ok.induct) auto

lemma run_start:
  assumes "buf_inv b" and "data b \<noteq> []"
  obtains r where "contiguous_run_start_rel b = Some r" and "r < length (data b)"
    and "\<And>x. base_offset b + r \<le> x \<Longrightarrow> \<not> in_holes x (holes b)"
    and "r = 0 \<or> in_holes (base_offset b + r - 1) (holes b)"
proof (cases "holes b = []")
  case True
  then show thesis using assms(2) by (intro that [of 0]) (auto simp: contiguous_run_start_rel_def)
next
  case False
  let ?le = "snd (last (holes b))"
  from assms(1) have hok: "holes_ok (base_offset b) (span_end_of b) (holes b)"
    by (simp add: buf_inv_def span_inv_def)
  note last = holes_ok_last [OF hok False]
  from in_holes_last_end [OF hok False] last show thesis
    using False
    by (intro that [of "?le - base_offset b"])
      (auto simp: contiguous_run_start_rel_def span_end_of_def dest!: in_holes_last [OF hok])
qed

text \<open>
  C4. \<open>contiguous_tail\<close> never panics, returns \<open>None\<close> exactly for an empty buffer or a zero
  window, and otherwise returns a non-empty run of at most \<open>window\<close> bytes at the end of the
  span, every one of them a received byte at its own offset (no hole is crossed, no
  zero-fill is served); it is the longest such run within the window.
\<close>

theorem contiguous_tail_content:
  assumes "buf_inv b"
  shows "\<exists>r. contiguous_tail b window = Some r \<and> (r = None \<longleftrightarrow> data b = [] \<or> window = 0) \<and>
    (\<forall>t. r = Some t \<longrightarrow> t \<noteq> [] \<and> length t \<le> window \<and>
       (\<forall>i < length t. content b (span_end_of b - length t + i) = Some (t ! i)) \<and>
       (length t < window \<longrightarrow> length t < length (data b) \<longrightarrow>
          content b (span_end_of b - length t - 1) = None))"
proof (cases "data b = [] \<or> window = 0")
  case True
  then show ?thesis by (auto simp: contiguous_tail_def)
next
  case False
  then have ne: "data b \<noteq> []" by simp
  obtain r where r: "contiguous_run_start_rel b = Some r" "r < length (data b)"
    and free: "\<And>x. base_offset b + r \<le> x \<Longrightarrow> \<not> in_holes x (holes b)"
    and edge: "r = 0 \<or> in_holes (base_offset b + r - 1) (holes b)"
    using run_start [OF assms ne] by blast
  define st where "st = length (data b) - min window (length (data b) - r)"
  let ?t = "drop st (data b)"
  from r(2) False have st: "r \<le> st" "st < length (data b)" "length (data b) - st \<le> window"
    "length (data b) - st < window \<Longrightarrow> st = r"
    unfolding st_def by auto
  have start: "span_end_of b - length ?t = base_offset b + st"
    using st(2) by (simp add: span_end_of_def)
  have eq: "contiguous_tail b window = Some (Some ?t)"
    using False r by (simp add: contiguous_tail_def snapshot_block_def slice_from_def st_def)
  have bytes: "content b (span_end_of b - length ?t + i) = Some (?t ! i)" if "i < length ?t" for i
    using that free [of "base_offset b + (st + i)"] st(1)
    unfolding start by (simp add: content_def span_end_of_def add.assoc)
  have stop: "content b (span_end_of b - length ?t - 1) = None"
    if "length ?t < window" "length ?t < length (data b)"
  proof -
    from that st have "st = r" "r \<noteq> 0" by auto
    then show ?thesis using edge unfolding start by (simp add: content_def)
  qed
  have shape: "?t \<noteq> []" "length ?t \<le> window" using st by auto
  have main: "?t \<noteq> [] \<and> length ?t \<le> window \<and>
       (\<forall>i < length ?t. content b (span_end_of b - length ?t + i) = Some (?t ! i)) \<and>
       (length ?t < window \<longrightarrow> length ?t < length (data b) \<longrightarrow>
          content b (span_end_of b - length ?t - 1) = None)"
    by (intro conjI allI impI shape bytes stop)
  show ?thesis
  proof (rule exI [of _ "Some ?t"], rule conjI [OF eq], rule conjI, goal_cases)
    case 1
    show ?case using False by simp
  next
    case 2
    show ?case by (intro allI impI) (simp only: option.inject, hypsubst, rule main)
  qed
qed

theorem contiguous_tail_content_witness:
  "buf_inv sample_buffer \<and> contiguous_tail sample_buffer 3 = Some (Some [5]) \<and>
   (\<exists>r. contiguous_tail sample_buffer 3 = Some r \<and> (r = None \<longleftrightarrow> data sample_buffer = [] \<or> (3::nat) = 0) \<and>
    (\<forall>t. r = Some t \<longrightarrow> t \<noteq> [] \<and> length t \<le> 3 \<and>
       (\<forall>i < length t. content sample_buffer (span_end_of sample_buffer - length t + i) = Some (t ! i)) \<and>
       (length t < 3 \<longrightarrow> length t < length (data sample_buffer) \<longrightarrow>
          content sample_buffer (span_end_of sample_buffer - length t - 1) = None)))"
proof -
  have "contiguous_tail sample_buffer 3 = Some (Some [5])"
    by (simp add: contiguous_tail_def sample_buffer_def buffer_new_def contiguous_run_start_rel_def
        snapshot_block_def slice_from_def)
  with buf_inv_sample contiguous_tail_content [OF buf_inv_sample, of 3] show ?thesis by blast
qed

lemma snapshot_spec:
  assumes "buf_inv b"
  obtains s where "snapshot b = Some s" and "snap_base_offset s = base_offset b"
    and "snap_high_water s = high_water b" and "snap_elided_bytes s = elided_bytes b"
    and "map (\<lambda>h. (hole_start h, hole_end h)) (snap_holes s) = holes b"
    and "data b = [] \<longleftrightarrow> snap_bytes s = []"
    and "\<And>i. i < length (snap_bytes s) \<Longrightarrow>
      content b (span_end_of b - length (snap_bytes s) + i) = Some (snap_bytes s ! i)"
    and "holes b = [] \<Longrightarrow> snap_bytes s = data b"
proof (cases "data b = []")
  case True
  then show thesis
    by (intro that) (auto simp: snapshot_def comp_def case_prod_unfold)
next
  case False
  obtain r where r: "contiguous_run_start_rel b = Some r" "r < length (data b)"
    and free: "\<And>x. base_offset b + r \<le> x \<Longrightarrow> \<not> in_holes x (holes b)"
    using run_start [OF assms False] by blast
  have "content b (span_end_of b - (length (data b) - r) + i) = Some (drop r (data b) ! i)"
    if "i < length (data b) - r" for i
    using that r(2) free [of "base_offset b + (r + i)"] by (auto simp: content_def span_end_of_def add.assoc)
  moreover have "holes b = [] \<Longrightarrow> r = 0"
    using r(1) by (simp add: contiguous_run_start_rel_def)
  ultimately show thesis
    using False r by (intro that)
      (auto simp: snapshot_def snapshot_block_def slice_from_def comp_def case_prod_unfold)
qed

text \<open>
  \<open>snapshot\<close> never panics and returns only received bytes. Where no hole is open its
  bytes are the whole span and \<open>base_offset\<close> is the logical offset of the first one, as the
  field's comment says.
\<close>

theorem snapshot_content:
  assumes "buf_inv b"
  shows "\<exists>s. snapshot b = Some s \<and>
    (\<forall>i < length (snap_bytes s).
       content b (span_end_of b - length (snap_bytes s) + i) = Some (snap_bytes s ! i)) \<and>
    (holes b = [] \<longrightarrow> (\<forall>i < length (data b).
       content b (snap_base_offset s + i) = Some (snap_bytes s ! i)))"
proof -
  from snapshot_spec [OF assms] obtain s where s: "snapshot b = Some s" "snap_base_offset s = base_offset b"
    "\<And>i. i < length (snap_bytes s) \<Longrightarrow>
      content b (span_end_of b - length (snap_bytes s) + i) = Some (snap_bytes s ! i)"
    "holes b = [] \<Longrightarrow> snap_bytes s = data b"
    by blast
  then show ?thesis by (auto simp: span_end_of_def)
qed

theorem snapshot_content_witness:
  "buf_inv sample_buffer \<and> (\<exists>s. snapshot sample_buffer = Some s \<and>
    (\<forall>i < length (snap_bytes s).
       content sample_buffer (span_end_of sample_buffer - length (snap_bytes s) + i) = Some (snap_bytes s ! i)) \<and>
    (holes sample_buffer = [] \<longrightarrow> (\<forall>i < length (data sample_buffer).
       content sample_buffer (snap_base_offset s + i) = Some (snap_bytes s ! i))))"
  using buf_inv_sample snapshot_content [OF buf_inv_sample] by blast

text \<open>
  With an open hole the \<open>base_offset\<close> of a snapshot is not the logical offset of its
  first byte, contrary to the comment on the field: after the deltas 1 at offset 0 and 2 at
  offset 4, the snapshot holds the single byte 2 with \<open>base_offset\<close> 0, while that byte is at
  offset 4 and offset 0 holds the byte 1.
\<close>

theorem snapshot_base_offset_wrong_after_hole:
  "\<exists>b s. run_steps delta_step (buffer_new 16 scanner_empty) [(0, [1]), (4, [2])] = Some b \<and>
     snapshot b = Some s \<and> snap_bytes s = [2] \<and> snap_base_offset s = 0 \<and>
     content b 4 = Some 2 \<and> content b 0 = Some 1"
proof -
  let ?a = "\<lparr>bytes_total = 2, delta_count = 2, class_counts = replicate 16 0\<rparr>"
  let ?b = "(buffer_new 16 scanner_empty)\<lparr>data := [1, 0, 0, 0, 2], holes := [(1, 4)], high_water := 5,
    activity := ?a\<rparr>"
  have "run_steps delta_step (buffer_new 16 scanner_empty) [(0, [1]), (4, [2])] = Some ?b"
    by (simp add: delta_step_def apply_delta_def checked_add_u64_def u64_max_def u32_max_def buffer_new_def
      merge_delta_def clip_to_floor_def extend_span_def write_span_def
      subtract_range_from_holes_def fold_activity_def counters_fold_def scan_def scanner_empty_def
      counters_new_def sat_add_u64_def sat_add_u32_def slice_from_def splice_def resize_def
      MAX_HOLE_RANGES_def MAX_SIGNAL_CLASSES_def Let_def) (simp add: numeral_eq_Suc)
  moreover have "snapshot ?b = Some \<lparr>snap_bytes = [2], snap_base_offset = 0, snap_high_water = 5,
      snap_elided_bytes = 0, snap_holes = [\<lparr>hole_start = 1, hole_end = 4\<rparr>]\<rparr>"
    by (simp add: snapshot_def contiguous_run_start_rel_def snapshot_block_def slice_from_def buffer_new_def)
  moreover have "content ?b 4 = Some 2" "content ?b 0 = Some 1"
    by (simp_all add: content_def span_end_of_def buffer_new_def)
  ultimately show ?thesis by auto
qed

section \<open>Purge\<close>

text \<open>
  \<open>clear\<close> returns the span length, keeps the invariant, empties the content, keeps
  \<open>high_water\<close>, \<open>elided_bytes\<close> and the activity counters, and a second \<open>clear\<close> returns 0.
  After it a delta below the high-water mark is counted as elided and leaves no content.
\<close>

theorem clear_purges:
  assumes "buf_inv b"
  shows "fst (clear b) = length (data b) \<and> buf_inv (snd (clear b)) \<and>
    content (snd (clear b)) = Map.empty \<and> fst (clear (snd (clear b))) = 0 \<and>
    high_water (snd (clear b)) = high_water b \<and> elided_bytes (snd (clear b)) = elided_bytes b \<and>
    activity (snd (clear b)) = activity b \<and>
    (\<forall>offset bytes. bytes \<noteq> [] \<longrightarrow> offset + length bytes \<le> high_water b \<longrightarrow>
       apply_delta (snd (clear b)) offset bytes =
         Some ((snd (clear b))\<lparr>elided_bytes := sat_add_u64 (elided_bytes b) (length bytes)\<rparr>))"
proof -
  have inv: "buf_inv (snd (clear b))"
    using assms by (simp add: clear_def buf_inv_def span_inv_def holes_zero_def span_end_of_def)
  have hw: "high_water b \<le> u64_max"
    using assms by (simp add: buf_inv_def span_inv_def)
  have "apply_delta (snd (clear b)) offset bytes =
         Some ((snd (clear b))\<lparr>elided_bytes := sat_add_u64 (elided_bytes b) (length bytes)\<rparr>)"
    if "bytes \<noteq> []" "offset + length bytes \<le> high_water b" for offset bytes
    using that hw by (auto simp: apply_delta_def checked_add_u64_def clear_def Let_def max_absorb1)
  moreover have "content (snd (clear b)) = Map.empty"
    by (simp add: clear_def content_def span_end_of_def fun_eq_iff)
  ultimately show ?thesis
    using inv by (auto simp: clear_def)
qed

theorem clear_purges_witness:
  "buf_inv sample_buffer \<and> fst (clear sample_buffer) = length (data sample_buffer) \<and>
   content (snd (clear sample_buffer)) = Map.empty \<and> fst (clear (snd (clear sample_buffer))) = 0"
  using buf_inv_sample clear_purges [OF buf_inv_sample] by blast

end
