(* ===== verification/Session_Registry.thy ===== *)
theory Session_Registry
  imports Session_State Transcript_Props
begin

text \<open>
  The session registry: \<open>SessionRegistry\<close> of \<open>infra/session.rs\<close>.

  The registry maps session ids to session states, allocates their transcript buffers,
  hands buffers of drained sessions to the held-buffer store and takes them back, and
  decides at close and at the stale sweep what is signalled and purged. Buffers live in the
  heap of shared buffers, which is part of the state here together with the list of audit
  events that the store has emitted.

  Time is an argument: \<open>now\<close> is \<open>now_secs()\<close> and \<open>tick\<close> is the reading of the monotonic clock
  of the store. The mutex of the session map recovers from poison without touching the map.
\<close>

section \<open>Model\<close>

record session_registry =
  sessions :: "(string, session_state) hmap"
  transcript_cap :: nat
  hold_handle :: "transcript_hold option"
  registry_scanner :: signature_scanner
  store :: heap
  audit_log :: "audit_event list"

definition heap_empty :: heap where
  "heap_empty = \<lparr>cells = (\<lambda>_. \<lparr>poisoned = False, buf = buffer_new 0 scanner_empty\<rparr>), next_arc = 0\<rparr>"

definition with_transcript_cap :: "nat \<Rightarrow> session_registry" where
  "with_transcript_cap cap = \<lparr>sessions = [], transcript_cap = cap, hold_handle = None,
     registry_scanner = scanner_empty, store = heap_empty, audit_log = []\<rparr>"

definition registry_new :: session_registry where
  "registry_new = with_transcript_cap DEFAULT_TRANSCRIPT_BUFFER_MAX_BYTES"

definition with_transcript_hold :: "session_registry \<Rightarrow> transcript_hold \<Rightarrow> session_registry" where
  "with_transcript_hold r th = r\<lparr>hold_handle := Some th\<rparr>"

definition with_signature_scanner :: "session_registry \<Rightarrow> signature_scanner \<Rightarrow> session_registry" where
  "with_signature_scanner r sc = r\<lparr>registry_scanner := sc\<rparr>"

subsection \<open>Registration\<close>

definition fresh_transcript :: "session_registry \<Rightarrow> arc \<times> session_registry" where
  "fresh_transcript r =
     (let (a, h) = arc_new (store r) (buffer_new (transcript_cap r) (registry_scanner r))
      in (a, r\<lparr>store := h\<rparr>))"

text \<open>The first half of \<open>register_session\<close>: the buffer to bind, re-adopted or new.\<close>

definition acquire_transcript :: "session_registry \<Rightarrow> string \<Rightarrow> string option \<Rightarrow> arc \<times> session_registry" where
  "acquire_transcript r sid feat =
     (case (hold_handle r, feat) of
        (Some th, Some feature_cycle) \<Rightarrow>
          (if feature_cycle \<noteq> [] then
             (let (adopted, th', h, ev) = readopt th (store r) sid feature_cycle;
                  r1 = r\<lparr>hold_handle := Some th', store := h, audit_log := audit_log r @ ev\<rparr>
              in case adopted of Some a \<Rightarrow> (a, r1) | None \<Rightarrow> fresh_transcript r1)
           else fresh_transcript r)
      | _ \<Rightarrow> fresh_transcript r)"

definition session_new :: "string \<Rightarrow> string option \<Rightarrow> string option \<Rightarrow> nat \<Rightarrow> arc \<Rightarrow> session_state" where
  "session_new sid rl feat now a = \<lparr>session_id = sid, role = rl, feature = feat,
     feature_src = Inferred Registered, injection_history = [], coaccess_seen = {}, compaction_count = 0,
     signaled_entries = {}, rework_events = [], agent_actions = [], last_activity_at = now,
     topic_signals = [], current_phase = None, category_counts = [], current_goal = None,
     confirmed_entries = {}, transcript = a\<rparr>"

definition register_session ::
  "session_registry \<Rightarrow> nat \<Rightarrow> string \<Rightarrow> string option \<Rightarrow> string option \<Rightarrow> session_registry" where
  "register_session r now sid rl feat =
     (let (a, r1) = acquire_transcript r sid feat
      in r1\<lparr>sessions := hm_insert sid (session_new sid rl feat now a) (sessions r1)\<rparr>)"

subsection \<open>Transcript deltas\<close>

text \<open>Phase 1, under the registry lock: which buffer gets the delta, and the activity bump.\<close>

definition route_delta :: "session_registry \<Rightarrow> nat \<Rightarrow> nat \<Rightarrow> string \<Rightarrow> arc option \<times> session_registry" where
  "route_delta r now tick sid =
     (let key = session_key ''default'' '''' sid in
      case hm_get (sessions r) key of
        Some st \<Rightarrow> (Some (transcript st),
          r\<lparr>sessions := hm_insert key (st\<lparr>last_activity_at := max (last_activity_at st) now\<rparr>) (sessions r)\<rparr>)
      | None \<Rightarrow>
          (case hold_handle r of
             None \<Rightarrow> (None, r)
           | Some th \<Rightarrow> (let (arc, th') = held_arc_for_session th tick sid
                       in (arc, r\<lparr>hold_handle := Some th'\<rparr>))))"

text \<open>Phase 2 merges under the buffer lock.\<close>

definition apply_transcript_delta ::
  "session_registry \<Rightarrow> nat \<Rightarrow> nat \<Rightarrow> string \<Rightarrow> nat \<Rightarrow> byte list \<Rightarrow> session_registry option" where
  "apply_transcript_delta r now tick sid offset bytes =
     (case route_delta r now tick sid of
        (None, r1) \<Rightarrow> Some r1
      | (Some a, r1) \<Rightarrow> do { h \<leftarrow> heap_apply_delta (store r1) a offset bytes; Some (r1\<lparr>store := h\<rparr>) })"

subsection \<open>Reading the buffers of a cycle\<close>

fun push_held :: "(string \<times> arc) list \<Rightarrow> (string \<times> arc) list \<Rightarrow> (string \<times> arc) list" where
  "push_held arcs [] = arcs"
| "push_held arcs ((sid, a) # rest) =
     (if list_ex (\<lambda>(_, a'). a' = a) arcs then push_held arcs rest else push_held (arcs @ [(sid, a)]) rest)"

text \<open>Phase 1 of both readers: registered buffers of the cycle, then held ones not seen yet.\<close>

definition arcs_for_feature :: "session_registry \<Rightarrow> string \<Rightarrow> (string \<times> arc) list" where
  "arcs_for_feature r feature_cycle =
     (let arcs = map (\<lambda>st. (session_id st, transcript st))
                   (filter (\<lambda>st. feature st = Some feature_cycle) (map snd (sessions r)))
      in case hold_handle r of
           None \<Rightarrow> arcs
         | Some th \<Rightarrow> push_held arcs (held_arcs_for_feature th feature_cycle))"

fun snapshot_arcs :: "heap \<Rightarrow> (string \<times> arc) list \<Rightarrow> ((string \<times> transcript_snapshot) list \<times> heap) option" where
  "snapshot_arcs h [] = Some ([], h)"
| "snapshot_arcs h ((sid, a) # rest) =
     (let h1 = lock_buffer h a in do {
        snap \<leftarrow> snapshot (buf_at h1 a);
        (out, h2) \<leftarrow> snapshot_arcs h1 rest;
        Some ((sid, snap) # out, h2) })"

definition take_transcripts_for_feature ::
  "session_registry \<Rightarrow> string \<Rightarrow> ((string \<times> transcript_snapshot) list \<times> session_registry) option" where
  "take_transcripts_for_feature r feature_cycle = do {
     (out, h) \<leftarrow> snapshot_arcs (store r) (arcs_for_feature r feature_cycle);
     Some (out, r\<lparr>store := h\<rparr>) }"

fun activity_arcs :: "heap \<Rightarrow> (string \<times> arc) list \<Rightarrow> (string \<times> activity_snapshot) list \<times> heap" where
  "activity_arcs h [] = ([], h)"
| "activity_arcs h ((sid, a) # rest) =
     (let h1 = lock_buffer h a;
          snap = activity_snapshot_of (buf_at h1 a);
          (out, h2) = activity_arcs h1 rest
      in ((sid, snap) # out, h2))"

definition activity_snapshots_for_feature ::
  "session_registry \<Rightarrow> string \<Rightarrow> (string \<times> activity_snapshot) list \<times> session_registry" where
  "activity_snapshots_for_feature r feature_cycle =
     (let (out, h) = activity_arcs (store r) (arcs_for_feature r feature_cycle)
      in (out, r\<lparr>store := h\<rparr>))"

definition has_transcript_hold :: "session_registry \<Rightarrow> bool" where
  "has_transcript_hold r \<longleftrightarrow> hold_handle r \<noteq> None"

subsection \<open>Operations on one session\<close>

text \<open>\<open>if let Some(state) = sessions.get_mut(session_id)\<close>: a silent no-op for an unknown session.\<close>

definition with_session :: "session_registry \<Rightarrow> string \<Rightarrow> (session_state \<Rightarrow> session_state) \<Rightarrow> session_registry" where
  "with_session r sid f =
     (case hm_get (sessions r) sid of
        None \<Rightarrow> r
      | Some st \<Rightarrow> r\<lparr>sessions := hm_insert sid (f st) (sessions r)\<rparr>)"

definition record_injection :: "session_registry \<Rightarrow> nat \<Rightarrow> string \<Rightarrow> (nat \<times> 64 word) list \<Rightarrow> session_registry" where
  "record_injection r now sid entries = with_session r sid (\<lambda>st.
     st\<lparr>injection_history := injection_history st @
          map (\<lambda>(i, c). \<lparr>inj_entry_id = i, inj_confidence = c, inj_timestamp = now\<rparr>) entries,
        last_activity_at := max (last_activity_at st) now\<rparr>)"

definition get_state :: "session_registry \<Rightarrow> string \<Rightarrow> session_state option" where
  "get_state r sid = hm_get (sessions r) sid"

definition check_and_insert_coaccess :: "session_registry \<Rightarrow> string \<Rightarrow> nat list \<Rightarrow> bool \<times> session_registry" where
  "check_and_insert_coaccess r sid entry_ids =
     (let canonical = sort entry_ids in
      case hm_get (sessions r) sid of
        None \<Rightarrow> (False, r)
      | Some st \<Rightarrow> (canonical \<notin> coaccess_seen st,
          r\<lparr>sessions := hm_insert sid (st\<lparr>coaccess_seen := insert canonical (coaccess_seen st)\<rparr>) (sessions r)\<rparr>))"

text \<open>The unchecked \<open>+= 1\<close> on a \<open>u32\<close> panics on overflow in a build with overflow checks.\<close>

definition increment_compaction :: "session_registry \<Rightarrow> string \<Rightarrow> session_registry option" where
  "increment_compaction r sid =
     (case hm_get (sessions r) sid of
        None \<Rightarrow> Some r
      | Some st \<Rightarrow> do {
          n \<leftarrow> add_u32 (compaction_count st) 1;
          Some (r\<lparr>sessions := hm_insert sid (st\<lparr>compaction_count := n\<rparr>) (sessions r)\<rparr>) })"

definition record_category_store :: "session_registry \<Rightarrow> string \<Rightarrow> string \<Rightarrow> session_registry" where
  "record_category_store r sid category = with_session r sid (\<lambda>st.
     let count = (case hm_get (category_counts st) category of None \<Rightarrow> 0 | Some n \<Rightarrow> n)
     in st\<lparr>category_counts := hm_insert category (sat_add_u32 count 1) (category_counts st)\<rparr>)"

definition record_confirmed_entry :: "session_registry \<Rightarrow> string \<Rightarrow> nat \<Rightarrow> session_registry" where
  "record_confirmed_entry r sid i = with_session r sid (\<lambda>st.
     st\<lparr>confirmed_entries := insert i (confirmed_entries st)\<rparr>)"

definition get_category_histogram :: "session_registry \<Rightarrow> string \<Rightarrow> (string, nat) hmap" where
  "get_category_histogram r sid =
     (case hm_get (sessions r) sid of Some st \<Rightarrow> category_counts st | None \<Rightarrow> [])"

definition clear_session :: "session_registry \<Rightarrow> string \<Rightarrow> session_registry" where
  "clear_session r sid = r\<lparr>sessions := hm_remove sid (sessions r)\<rparr>"

definition set_feature_if_absent :: "session_registry \<Rightarrow> string \<Rightarrow> string \<Rightarrow> bool \<times> session_registry" where
  "set_feature_if_absent r sid feat =
     (case hm_get (sessions r) sid of
        Some st \<Rightarrow>
          (if feature st = None then
             (True, r\<lparr>sessions := hm_insert sid
                (st\<lparr>feature := Some feat, feature_src := Inferred Voted\<rparr>) (sessions r)\<rparr>)
           else (False, r))
      | None \<Rightarrow> (False, r))"

definition set_feature_force :: "session_registry \<Rightarrow> string \<Rightarrow> string \<Rightarrow> set_feature_result \<times> session_registry" where
  "set_feature_force r sid feat =
     (case hm_get (sessions r) sid of
        None \<Rightarrow> (FeatureSet, r)
      | Some st \<Rightarrow>
          (case feature st of
             None \<Rightarrow> (FeatureSet, r\<lparr>sessions := hm_insert sid
                (st\<lparr>feature := Some feat, feature_src := Declared\<rparr>) (sessions r)\<rparr>)
           | Some existing \<Rightarrow>
               (if existing = feat then
                  (AlreadyMatches, r\<lparr>sessions := hm_insert sid (st\<lparr>feature_src := Declared\<rparr>) (sessions r)\<rparr>)
                else
                  (Overridden existing, r\<lparr>sessions := hm_insert sid
                     (st\<lparr>feature := Some feat, feature_src := Declared\<rparr>) (sessions r)\<rparr>))))"

definition apply_stamp :: "session_registry \<Rightarrow> string \<Rightarrow> string \<Rightarrow> session_registry" where
  "apply_stamp r sid topic = with_session r sid (\<lambda>st.
     if feature st = Some topic \<and> feature_src st = Declared then st
     else st\<lparr>feature := Some topic, feature_src := Declared\<rparr>)"

definition set_current_phase :: "session_registry \<Rightarrow> string \<Rightarrow> string option \<Rightarrow> session_registry" where
  "set_current_phase r sid phase = with_session r sid (\<lambda>st. st\<lparr>current_phase := phase\<rparr>)"

definition set_current_goal :: "session_registry \<Rightarrow> string \<Rightarrow> string option \<Rightarrow> session_registry" where
  "set_current_goal r sid goal = with_session r sid (\<lambda>st. st\<lparr>current_goal := goal\<rparr>)"

subsection \<open>Topic signals\<close>

text \<open>\<open>Iterator::max_by_key\<close>: the last maximum in iteration order.\<close>

fun leader :: "(string, topic_tally) hmap \<Rightarrow> (string \<times> topic_tally) option" where
  "leader [] = None"
| "leader (x # xs) = (case leader xs of
      None \<Rightarrow> Some x
    | Some y \<Rightarrow> Some (if tally_count (snd x) \<le> tally_count (snd y) then y else x))"

text \<open>
  \<open>(count as f64 / total as f64) > 0.6\<close>. On 32-bit counts the comparison after rounding is the
  comparison of the exact quotients, see lemma \<open>share_test_exact\<close>.
\<close>

definition share_above_60 :: "nat \<Rightarrow> nat \<Rightarrow> bool" where
  "share_above_60 count total_count \<longleftrightarrow> 3 * total_count < 5 * count"

definition check_eager_attribution :: "session_registry \<Rightarrow> string \<Rightarrow> string option" where
  "check_eager_attribution r sid =
     (case hm_get (sessions r) sid of
        None \<Rightarrow> None
      | Some st \<Rightarrow>
          if feature st \<noteq> None then None
          else if topic_signals st = [] then None
          else
            (let total_count = fold (\<lambda>v acc. sat_add_u32 acc v) (map (tally_count \<circ> snd) (topic_signals st)) 0
             in case leader (topic_signals st) of
                  None \<Rightarrow> None
                | Some (leader_topic, leader_tally) \<Rightarrow>
                    if 3 \<le> tally_count leader_tally \<and> share_above_60 (tally_count leader_tally) total_count
                    then Some leader_topic else None))"

definition record_topic_signal :: "session_registry \<Rightarrow> string \<Rightarrow> string \<Rightarrow> nat \<Rightarrow> session_registry" where
  "record_topic_signal r sid signal timestamp = with_session r sid (\<lambda>st.
     let tally = (case hm_get (topic_signals st) signal of
           None \<Rightarrow> \<lparr>tally_count = 0, tally_last_seen = 0\<rparr> | Some t \<Rightarrow> t);
         tally1 = tally\<lparr>tally_count := sat_add_u32 (tally_count tally) 1\<rparr>;
         tally2 = (if tally_last_seen tally1 < timestamp then tally1\<lparr>tally_last_seen := timestamp\<rparr> else tally1)
     in st\<lparr>topic_signals := hm_insert signal tally2 (topic_signals st),
           last_activity_at := max (last_activity_at st) timestamp\<rparr>)"

definition record_rework_event :: "session_registry \<Rightarrow> string \<Rightarrow> rework_event \<Rightarrow> session_registry" where
  "record_rework_event r sid event = with_session r sid (\<lambda>st.
     st\<lparr>rework_events := rework_events st @ [event],
        last_activity_at := max (last_activity_at st) (rework_timestamp event)\<rparr>)"

definition record_agent_action :: "session_registry \<Rightarrow> string \<Rightarrow> session_action \<Rightarrow> session_registry" where
  "record_agent_action r sid action = with_session r sid (\<lambda>st.
     st\<lparr>agent_actions := agent_actions st @ [action]\<rparr>)"

subsection \<open>Close and sweep\<close>

definition purge_record_for :: "session_state \<Rightarrow> heap \<Rightarrow> transcript_purge_record option \<times> heap" where
  "purge_record_for st h = purge_arc (session_id st) (transcript st) h"

text \<open>What happens to the buffer of a drained session: held under its cycle, or purged.\<close>

definition release_transcript ::
  "session_registry \<Rightarrow> nat \<Rightarrow> string \<Rightarrow> session_state \<Rightarrow> transcript_purge_record option \<times> session_registry" where
  "release_transcript r tick sid st =
     (case (hold_handle r, feature st) of
        (Some th, Some feature_cycle) \<Rightarrow>
          (if feature_cycle \<noteq> [] then
             (let (th', h, ev) = hold_on_drain th (store r) tick sid (transcript st) feature_cycle
              in (None, r\<lparr>hold_handle := Some th', store := h, audit_log := audit_log r @ ev\<rparr>))
           else (let (rec, h) = purge_record_for st (store r) in (rec, r\<lparr>store := h\<rparr>)))
      | _ \<Rightarrow> (let (rec, h) = purge_record_for st (store r) in (rec, r\<lparr>store := h\<rparr>)))"

definition drain_and_signal_session ::
  "session_registry \<Rightarrow> nat \<Rightarrow> string \<Rightarrow> string
    \<Rightarrow> (signal_output \<times> transcript_purge_record option) option \<times> session_registry" where
  "drain_and_signal_session r tick sid hook_outcome =
     (case hm_get (sessions r) sid of
        None \<Rightarrow> (None, r)
      | Some st \<Rightarrow>
          (let r1 = r\<lparr>sessions := hm_remove sid (sessions r)\<rparr>;
               (purge, r2) = release_transcript r1 tick sid st
           in (Some (build_signal_output_from_state st hook_outcome, purge), r2)))"

record sweep_result =
  swept_session_id :: string
  swept_output :: signal_output
  resolved_feature :: "string option"

definition resolve_feature :: "session_state \<Rightarrow> string option" where
  "resolve_feature st =
     (if feature_src st = Declared \<and> feature st \<noteq> None then feature st
      else case majority_vote_internal (topic_signals st) of
             Some w \<Rightarrow> Some w
           | None \<Rightarrow> feature st)"

fun sweep_sessions ::
  "string list \<Rightarrow> (string, session_state) hmap \<Rightarrow> heap
    \<Rightarrow> sweep_result list \<times> transcript_purge_record list \<times> (string, session_state) hmap \<times> heap" where
  "sweep_sessions [] m h = ([], [], m, h)"
| "sweep_sessions (sid # sids) m h =
     (case hm_get m sid of
        None \<Rightarrow> sweep_sessions sids m h
      | Some st \<Rightarrow>
          (let (rec, h1) = purge_record_for st h;
               result = (if injection_history st \<noteq> [] then
                   [\<lparr>swept_session_id = sid, swept_output = build_signal_output_from_state st ''success'',
                     resolved_feature = resolve_feature st\<rparr>] else []);
               (results, purges, m', h') = sweep_sessions sids (hm_remove sid m) h1
           in (result @ results, opt_list rec @ purges, m', h')))"

definition stale :: "nat \<Rightarrow> session_state \<Rightarrow> bool" where
  "stale now st \<longleftrightarrow> STALE_SESSION_THRESHOLD_SECS \<le> sat_sub now (last_activity_at st)"

definition sweep_stale_sessions ::
  "session_registry \<Rightarrow> nat \<Rightarrow> (sweep_result list \<times> transcript_purge_record list) \<times> session_registry" where
  "sweep_stale_sessions r now =
     (let stale_ids = map fst (filter (\<lambda>(_, st). stale now st) (sessions r));
          (results, purges, m, h) = sweep_sessions stale_ids (sessions r) (store r)
      in ((results, purges), r\<lparr>sessions := m, store := h\<rparr>))"

definition sweep_held_buffers ::
  "session_registry \<Rightarrow> nat \<Rightarrow> nat \<Rightarrow> transcript_purge_record list \<times> session_registry" where
  "sweep_held_buffers r tick ttl =
     (case hold_handle r of
        None \<Rightarrow> ([], r)
      | Some th \<Rightarrow> (let (recs, th', h) = sweep_expired th (store r) tick ttl
                  in (recs, r\<lparr>hold_handle := Some th', store := h\<rparr>)))"

end

