(* ===== verification/Registry_Inv.thy ===== *)
theory Registry_Inv
  imports Session_Registry
begin

text \<open>
  The invariant of the session registry and that every call keeps it.

  The heart of it is ownership: a transcript buffer belongs to one registered session or to
  one held session and to nobody else, so that no call on one session reaches the transcript
  of another. Each operation changes the ownership map in one of four ways (nothing, a
  release, a new buffer, a move between the registry and the store), and one lemma per way
  says that it keeps owners unique.
\<close>

section \<open>Ownership\<close>

datatype owner = Live string | Held string

definition held_of :: "transcript_hold option \<Rightarrow> string \<Rightarrow> held_buffer option" where
  "held_of hh sid = Option.bind hh (\<lambda>th. hm_get (held th) sid)"

fun owns :: "session_registry \<Rightarrow> owner \<Rightarrow> arc option" where
  "owns r (Live sid) = map_option transcript (hm_get (sessions r) sid)"
| "owns r (Held sid) = map_option held_arc (held_of (hold_handle r) sid)"

definition unique_owner :: "(owner \<Rightarrow> arc option) \<Rightarrow> arc \<Rightarrow> bool" where
  "unique_owner own n \<longleftrightarrow> (\<forall>p q a. own p = Some a \<longrightarrow> own q = Some a \<longrightarrow> p = q) \<and> (\<forall>p a. own p = Some a \<longrightarrow> a < n)"

lemma unique_owner_less: "unique_owner own n \<Longrightarrow> own p = Some a \<Longrightarrow> a < n"
  by (auto simp: unique_owner_def)

lemma unique_owner_eq: "unique_owner own n \<Longrightarrow> own p = Some a \<Longrightarrow> own q = Some a \<Longrightarrow> p = q"
  by (auto simp: unique_owner_def)

lemma unique_owner_release: "unique_owner own n \<Longrightarrow> own' \<subseteq>\<^sub>m own \<Longrightarrow> unique_owner own' n"
  unfolding unique_owner_def by (metis map_le_SomeD)

lemma unique_owner_new: "unique_owner own n \<Longrightarrow> unique_owner (own(p \<mapsto> n)) (Suc n)"
  unfolding unique_owner_def by (auto simp: less_Suc_eq split: if_splits)

lemma unique_owner_move: "unique_owner own n \<Longrightarrow> own p = Some a \<Longrightarrow> unique_owner (own(p := None, q \<mapsto> a)) n"
  unfolding unique_owner_def by (auto split: if_splits)

section \<open>The invariant\<close>

definition session_ok :: "nat \<Rightarrow> string \<Rightarrow> session_state \<Rightarrow> bool" where
  "session_ok n sid st \<longleftrightarrow> session_id st = sid \<and> hm_ok (topic_signals st) \<and> hm_ok (category_counts st) \<and>
     (\<forall>k t. hm_get (topic_signals st) k = Some t \<longrightarrow> 1 \<le> tally_count t \<and> tally_count t \<le> u32_max) \<and>
     (\<forall>k c. hm_get (category_counts st) k = Some c \<longrightarrow> c \<le> u32_max) \<and> compaction_count st \<le> n"

definition reg_inv :: "nat \<Rightarrow> session_registry \<Rightarrow> bool" where
  "reg_inv n r \<longleftrightarrow> hm_ok (sessions r) \<and> (\<forall>sid st. hm_get (sessions r) sid = Some st \<longrightarrow> session_ok n sid st) \<and>
     (\<forall>th. hold_handle r = Some th \<longrightarrow> hold_inv th) \<and> heap_inv (store r) \<and> scanner_ok (registry_scanner r) \<and>
     unique_owner (owns r) (next_arc (store r))"

lemma reg_invD:
  assumes "reg_inv n r"
  shows "hm_ok (sessions r)" and "\<And>sid st. hm_get (sessions r) sid = Some st \<Longrightarrow> session_ok n sid st"
    and "\<And>th. hold_handle r = Some th \<Longrightarrow> hold_inv th" and "heap_inv (store r)"
    and "scanner_ok (registry_scanner r)" and "unique_owner (owns r) (next_arc (store r))"
  using assms by (auto simp: reg_inv_def)

lemma session_ok_mono: "session_ok n sid st \<Longrightarrow> n \<le> n' \<Longrightarrow> session_ok n' sid st"
  by (auto simp: session_ok_def)

lemma reg_inv_mono: "reg_inv n r \<Longrightarrow> n \<le> n' \<Longrightarrow> reg_inv n' r"
  unfolding reg_inv_def using session_ok_mono by blast

lemma session_ok_id: "session_ok n sid st \<Longrightarrow> session_id st = sid"
  by (simp add: session_ok_def)

lemma session_ok_new: "session_ok n sid (session_new sid rl feat now a)"
  by (simp add: session_ok_def session_new_def)

lemma session_arc: "reg_inv n r \<Longrightarrow> hm_get (sessions r) sid = Some st \<Longrightarrow> transcript st < next_arc (store r)"
  using unique_owner_less [OF reg_invD(6), of n r "Live sid"] by simp

lemma held_arc_less: "reg_inv n r \<Longrightarrow> held_of (hold_handle r) sid = Some hb \<Longrightarrow> held_arc hb < next_arc (store r)"
  using unique_owner_less [OF reg_invD(6), of n r "Held sid"] by simp

text \<open>An update of one session that keeps its identity and its buffer.\<close>

lemma owns_update:
  "hm_get (sessions r) sid = Some st \<Longrightarrow> transcript st' = transcript st \<Longrightarrow>
   owns (r\<lparr>sessions := hm_insert sid st' (sessions r)\<rparr>) = owns r"
  by (rule ext) (case_tac x; simp)

lemma reg_inv_update:
  assumes "reg_inv n r" and "hm_get (sessions r) sid = Some st"
    and "transcript st' = transcript st" and "session_ok n' sid st'" and "n \<le> n'"
  shows "reg_inv n' (r\<lparr>sessions := hm_insert sid st' (sessions r)\<rparr>)"
proof -
  have "session_ok n' s t" if "hm_get (hm_insert sid st' (sessions r)) s = Some t" for s t
    using that assms(4) session_ok_mono [OF reg_invD(2) [OF assms(1)] assms(5)] by (auto split: if_splits)
  then show ?thesis
    using reg_invD [OF assms(1)] owns_update [OF assms(2,3)] by (simp add: reg_inv_def hm.ok_ins)
qed

lemma with_session_inv:
  assumes "reg_inv n r"
    and "\<And>st. session_ok n sid st \<Longrightarrow> transcript (f st) = transcript st \<and> session_ok n sid (f st)"
  shows "reg_inv n (with_session r sid f)"
  using assms reg_inv_update [OF assms(1)] reg_invD(2) [OF assms(1)]
  by (auto simp: with_session_def split: option.splits)

section \<open>Effects on the heap and the owners\<close>

lemma readopt_heap:
  assumes "readopt th h sid f = (r, th', h', ev)"
  shows "next_arc h' = next_arc h" and "heap_inv h \<Longrightarrow> heap_inv h'"
proof -
  have "h' = h \<or> (\<exists>hb rec. hm_get (held th) sid = Some hb \<and> purge_arc sid (held_arc hb) h = (rec, h'))"
    using assms by (auto simp: readopt_def purge_record_def Let_def split: option.splits if_splits prod.splits)
  then show "next_arc h' = next_arc h" "heap_inv h \<Longrightarrow> heap_inv h'"
    using purge_arc_props(1) heap_inv_purge by blast+
qed

lemma heap_apply_delta_total:
  assumes "heap_inv h" and "a < next_arc h"
  shows "\<exists>h'. heap_apply_delta h a off bytes = Some h' \<and> heap_inv h'"
proof -
  let ?h = "lock_buffer h a"
  have inv: "buf_inv (buf_at ?h a)" using heap_inv_lock [OF assms(1), of a] assms(2) by (simp add: heap_inv_def)
  obtain b where b: "apply_delta (buf_at ?h a) off bytes = Some b"
    using buffer.step_total [OF inv, of "(off, bytes)"] by (auto simp: delta_step_def)
  then have "buf_inv b" using buffer.step_inv [OF inv, of "(off, bytes)"] by (simp add: delta_step_def)
  then show ?thesis
    using b heap_inv_lock [OF assms(1), of a] by (simp add: heap_apply_delta_def Let_def heap_inv_set_cell)
qed

lemma reg_inv_owns:
  assumes "reg_inv n r" and "hm_ok (sessions r')"
    and "\<And>sid st. hm_get (sessions r') sid = Some st \<Longrightarrow> session_ok n sid st"
    and "\<And>th. hold_handle r' = Some th \<Longrightarrow> hold_inv th" and "heap_inv (store r')"
    and "registry_scanner r' = registry_scanner r" and "unique_owner (owns r') (next_arc (store r'))"
  shows "reg_inv n r'"
  using assms by (simp add: reg_inv_def)

section \<open>Every call keeps the invariant\<close>

subsection \<open>Registration and deltas\<close>

lemma bind_fresh_inv:
  assumes "reg_inv n r" and "fresh_transcript r = (a, r1)"
  shows "reg_inv n (r1\<lparr>sessions := hm_insert sid (session_new sid rl feat now a) (sessions r1)\<rparr>)"
proof -
  note inv = reg_invD [OF assms(1)]
  have r1: "r1 = r\<lparr>store := snd (arc_new (store r) (buffer_new (transcript_cap r) (registry_scanner r)))\<rparr>"
    and a: "a = next_arc (store r)"
    using assms(2) by (auto simp: fresh_transcript_def arc_new_def Let_def)
  have "owns (r1\<lparr>sessions := hm_insert sid (session_new sid rl feat now a) (sessions r1)\<rparr>) = (owns r)(Live sid \<mapsto> a)"
    by (rule ext, case_tac x) (auto simp: r1 session_new_def)
  moreover have "next_arc (store r1) = Suc (next_arc (store r))" by (simp add: r1 arc_new_def)
  ultimately show ?thesis
    using inv unique_owner_new [OF inv(6), of "Live sid"]
    by (intro reg_inv_owns [OF assms(1)])
      (auto simp: r1 a hm.ok_ins session_ok_new heap_inv_arc_new buf_inv_new split: if_splits)
qed

lemma readopt_reg_inv:
  assumes "reg_inv n r" and "hold_handle r = Some th" and "readopt th (store r) sid f = (x, th', h, ev)"
  shows "reg_inv n (r\<lparr>hold_handle := Some th', store := h, audit_log := l\<rparr>)"
    and "owns (r\<lparr>hold_handle := Some th', store := h, audit_log := l\<rparr>) = (owns r)(Held sid := None)"
    and "x = Some a \<Longrightarrow> owns r (Held sid) = Some a"
proof -
  note inv = reg_invD [OF assms(1)]
  note sp = readopt_spec [OF inv(3) [OF assms(2)] assms(3)]
  show o: "owns (r\<lparr>hold_handle := Some th', store := h, audit_log := l\<rparr>) = (owns r)(Held sid := None)"
    by (rule ext, case_tac x) (use sp assms(2) in \<open>auto simp: held_of_def\<close>)
  show "x = Some a \<Longrightarrow> owns r (Held sid) = Some a"
    using sp assms(2) by (auto simp: held_of_def held_view_def split: option.splits if_splits)
  have "unique_owner ((owns r)(Held sid := None)) (next_arc h)"
    using readopt_heap(1) [OF assms(3)] unique_owner_release [OF inv(6) upd_None_map_le, of "Held sid"] by simp
  then show "reg_inv n (r\<lparr>hold_handle := Some th', store := h, audit_log := l\<rparr>)"
    using inv sp readopt_heap(2) [OF assms(3)] by (intro reg_inv_owns [OF assms(1)]) (auto simp: o)
qed

lemma register_session_inv:
  assumes "reg_inv n r"
  shows "reg_inv n (register_session r now sid rl feat)"
proof (cases "\<exists>th f. hold_handle r = Some th \<and> feat = Some f \<and> f \<noteq> []")
  case False
  then have "acquire_transcript r sid feat = fresh_transcript r"
    by (auto simp: acquire_transcript_def split: option.splits)
  then show ?thesis
    using bind_fresh_inv [OF assms] by (cases "fresh_transcript r") (simp add: register_session_def)
next
  case True
  then obtain th f where hf: "hold_handle r = Some th" "feat = Some f" "f \<noteq> []" by blast
  obtain x th' h ev where re: "readopt th (store r) sid f = (x, th', h, ev)" by (metis prod_cases4)
  let ?r1 = "r\<lparr>hold_handle := Some th', store := h, audit_log := audit_log r @ ev\<rparr>"
  note ad = readopt_reg_inv(1,2) [OF assms hf(1) re, where l = "audit_log r @ ev"]
    readopt_reg_inv(3) [OF assms hf(1) re]
  show ?thesis
  proof (cases x)
    case None
    then have "acquire_transcript r sid feat = fresh_transcript ?r1"
      using hf re by (simp add: acquire_transcript_def)
    then show ?thesis
      using bind_fresh_inv [OF ad(1)] by (cases "fresh_transcript ?r1") (simp add: register_session_def)
  next
    case (Some a)
    let ?r2 = "?r1\<lparr>sessions := hm_insert sid (session_new sid rl feat now a) (sessions r)\<rparr>"
    have reg: "register_session r now sid rl feat = ?r2"
      using hf re Some by (simp add: register_session_def acquire_transcript_def)
    have "owns ?r2 = (owns ?r1)(Live sid \<mapsto> a)"
      by (rule ext, case_tac x) (auto simp: session_new_def)
    then have "owns ?r2 = (owns r)(Held sid := None, Live sid \<mapsto> a)" by (simp only: ad(2))
    moreover have "unique_owner ((owns r)(Held sid := None, Live sid \<mapsto> a)) (next_arc h)"
      using unique_owner_move [OF reg_invD(6) [OF assms] ad(3) [OF Some]] readopt_heap(1) [OF re] by simp
    ultimately show ?thesis
      unfolding reg using reg_invD [OF ad(1)]
      by (intro reg_inv_owns [OF ad(1)]) (auto simp: hm.ok_ins session_ok_new split: if_splits)
  qed
qed

lemma route_delta_inv:
  assumes "reg_inv n r" and "route_delta r now tick sid = (x, r1)"
  shows "reg_inv n r1" and "store r1 = store r" and "owns r1 = owns r"
    and "x = (case owns r (Live sid) of Some a \<Rightarrow> Some a | None \<Rightarrow> owns r (Held sid))"
proof -
  note inv = reg_invD [OF assms(1)]
  have "reg_inv n r1 \<and> store r1 = store r \<and> owns r1 = owns r \<and>
    x = (case owns r (Live sid) of Some a \<Rightarrow> Some a | None \<Rightarrow> owns r (Held sid))"
  proof (cases "hm_get (sessions r) sid")
    case (Some st)
    then have "r1 = r\<lparr>sessions := hm_insert sid (st\<lparr>last_activity_at := max (last_activity_at st) now\<rparr>) (sessions r)\<rparr>"
      "x = Some (transcript st)"
      using assms(2) by (auto simp: route_delta_def session_key_def)
    moreover have "session_ok n sid (st\<lparr>last_activity_at := t\<rparr>)" for t
      using inv(2) [OF Some] by (simp add: session_ok_def)
    ultimately show ?thesis
      using reg_inv_update [OF assms(1) Some] owns_update [OF Some] Some by simp
  next
    case None
    show ?thesis
    proof (cases "hold_handle r")
      case hn: None
      then show ?thesis using assms None by (auto simp: route_delta_def session_key_def held_of_def)
    next
      case (Some th)
      obtain y th' where ra: "held_arc_for_session th tick sid = (y, th')" by fastforce
      then have res: "x = y" "r1 = r\<lparr>hold_handle := Some th'\<rparr>"
        using assms(2) None Some by (auto simp: route_delta_def session_key_def)
      have v: "held_view th' = held_view th" "hold_inv th'"
        using route_spec [OF inv(3) [OF Some], of tick sid] ra by simp_all
      have arc: "map_option held_arc (hm_get (held t) s) = map_option fst (held_view t s)" for t s
        by (simp add: held_view_def option.map_comp o_def)
      then have o: "owns r1 = owns r"
        by (intro ext, case_tac x) (simp_all add: res held_of_def Some v)
      have "x = map_option fst (held_view th sid)"
        using ra by (auto simp: res held_arc_for_session_def held_view_def split: option.splits)
      then have "x = owns r (Held sid)" by (simp add: held_of_def Some arc)
      moreover have "reg_inv n r1"
        using inv o v by (intro reg_inv_owns [OF assms(1)]) (auto simp: res)
      ultimately show ?thesis using o None by (simp add: res)
    qed
  qed
  then show "reg_inv n r1" "store r1 = store r" "owns r1 = owns r"
    "x = (case owns r (Live sid) of Some a \<Rightarrow> Some a | None \<Rightarrow> owns r (Held sid))" by blast+
qed

lemma owns_store [simp]: "owns (r\<lparr>store := h\<rparr>) = owns r"
  by (rule ext, case_tac x) simp_all

lemma reg_inv_store: "reg_inv n r \<Longrightarrow> heap_inv h \<Longrightarrow> next_arc h = next_arc (store r) \<Longrightarrow> reg_inv n (r\<lparr>store := h\<rparr>)"
  by (simp add: reg_inv_def)

lemma apply_transcript_delta_inv:
  assumes "reg_inv n r"
  shows "\<exists>r'. apply_transcript_delta r now tick sid off bytes = Some r' \<and> reg_inv n r'"
proof -
  obtain x r1 where rt: "route_delta r now tick sid = (x, r1)" by fastforce
  note p = route_delta_inv [OF assms rt]
  show ?thesis
  proof (cases x)
    case (Some a)
    then have "\<exists>p. owns r p = Some a" using p(4) by (metis option.case_eq_if option.collapse)
    then have "a < next_arc (store r1)" using unique_owner_less [OF reg_invD(6) [OF p(1)]] p(3) by auto
    from heap_apply_delta_total [OF reg_invD(4) [OF p(1)] this, of off bytes]
    obtain h where "heap_apply_delta (store r1) a off bytes = Some h" "heap_inv h" by blast
    then show ?thesis
      using rt Some reg_inv_store [OF p(1)] heap_apply_delta_props(1)
      by (auto simp: apply_transcript_delta_def)
  qed (use rt p(1) in \<open>simp add: apply_transcript_delta_def\<close>)
qed

subsection \<open>Readers\<close>

lemma push_held_eq:
  "distinct (map snd hs) \<Longrightarrow> push_held arcs hs = arcs @ filter (\<lambda>(_, a). a \<notin> snd ` set arcs) hs"
proof (induction arcs hs rule: push_held.induct)
  case (2 arcs sid a rest)
  have seen: "list_ex (\<lambda>(_, a'). a' = a) arcs \<longleftrightarrow> a \<in> snd ` set arcs"
    by (force simp: list_ex_iff)
  have "filter (\<lambda>(_, a'). a' \<notin> snd ` set (arcs @ [(sid, a)])) rest = filter (\<lambda>(_, a'). a' \<notin> snd ` set arcs) rest"
    using "2.prems" by (intro filter_cong) force+
  with 2 show ?case by (simp add: seen)
qed simp

lemma lock_buffer_again [simp]:
  "buf_at (lock_buffer (lock_buffer h a') a) a = buf_at (lock_buffer h a) a"
  by (simp add: lock_buffer_def set_cell_def buf_at_def)

lemma snapshot_arcs_spec:
  "heap_inv h \<Longrightarrow> \<forall>(sid, a) \<in> set arcs. a < next_arc h \<Longrightarrow>
   \<exists>h'. snapshot_arcs h arcs = Some (map (\<lambda>(sid, a). (sid, the (snapshot (buf_at (lock_buffer h a) a)))) arcs, h') \<and>
     heap_inv h' \<and> next_arc h' = next_arc h \<and> (\<forall>a. \<not> poisoned (cells h a) \<longrightarrow> cells h' a = cells h a)"
proof (induction h arcs rule: snapshot_arcs.induct)
  case (2 h sid a rest)
  let ?h = "lock_buffer h a"
  have "buf_inv (buf_at ?h a)" using heap_inv_lock [OF "2.prems"(1), of a] "2.prems"(2) by (simp add: heap_inv_def)
  then obtain s where s: "snapshot (buf_at ?h a) = Some s" by (rule snapshot_spec)
  have "\<exists>h'. snapshot_arcs ?h rest = Some (map (\<lambda>(sid, a). (sid, the (snapshot (buf_at (lock_buffer h a) a)))) rest, h') \<and>
     heap_inv h' \<and> next_arc h' = next_arc h \<and> (\<forall>a. \<not> poisoned (cells ?h a) \<longrightarrow> cells h' a = cells ?h a)"
    using "2.IH" [OF refl s] heap_inv_lock [OF "2.prems"(1), of a] "2.prems"(2) by simp
  then obtain h' where h': "snapshot_arcs ?h rest =
      Some (map (\<lambda>(sid, a). (sid, the (snapshot (buf_at (lock_buffer h a) a)))) rest, h')"
    "heap_inv h'" "next_arc h' = next_arc h" "\<And>a. \<not> poisoned (cells ?h a) \<Longrightarrow> cells h' a = cells ?h a" by blast
  have "cells h' x = cells h x" if "\<not> poisoned (cells h x)" for x
    using h'(4) [of x] that by (cases "x = a") simp_all
  with s h' show ?case by simp
qed simp

lemma activity_arcs_spec:
  "heap_inv h \<Longrightarrow>
   \<exists>h'. activity_arcs h arcs = (map (\<lambda>(sid, a). (sid, activity_snapshot_of (buf_at (lock_buffer h a) a))) arcs, h') \<and>
     heap_inv h' \<and> next_arc h' = next_arc h"
proof (induction h arcs rule: activity_arcs.induct)
  case (2 h sid a rest)
  from "2.IH" [OF refl refl heap_inv_lock [OF "2.prems"]]
  show ?case by (auto simp: Let_def)
qed simp

lemma hm_distinct_image:
  assumes ok: "hm_ok m" and inj: "\<And>s s' v v'. hm_get m s = Some v \<Longrightarrow> hm_get m s' = Some v' \<Longrightarrow> g v = g v' \<Longrightarrow> s = s'"
  shows "distinct (map (\<lambda>x. g (snd x)) (filter P m))"
proof -
  have "x = y" if "x \<in> set m" "y \<in> set m" "g (snd x) = g (snd y)" for x y
  proof -
    have get: "hm_get m (fst x) = Some (snd x)" "hm_get m (fst y) = Some (snd y)"
      using that(1,2) hm_values [OF ok] by (metis prod.collapse)+
    then have "fst x = fst y" using inj that(3) by blast
    then show ?thesis using get by (simp add: prod_eq_iff)
  qed
  then have "inj_on (\<lambda>x. g (snd x)) (set (filter P m))" by (simp add: inj_on_def)
  moreover have "distinct (filter P m)" using ok by (simp add: hm_ok_def distinct_map)
  ultimately show ?thesis by (simp add: distinct_map)
qed

lemma held_arcs_distinct:
  assumes "reg_inv n r" and "hold_handle r = Some th"
  shows "distinct (map snd (held_arcs_for_feature th f))"
proof -
  have ok: "hm_ok (held th)" using reg_invD(3) [OF assms] by (simp add: hold_inv_def)
  have "s = s'" if "hm_get (held th) s = Some b" "hm_get (held th) s' = Some b'" "held_arc b = held_arc b'" for s s' b b'
    using unique_owner_eq [OF reg_invD(6) [OF assms(1)], of "Held s" "held_arc b" "Held s'"] that assms(2)
    by (simp add: held_of_def)
  then have "distinct (map (\<lambda>x. held_arc (snd x)) (filter (\<lambda>(_, hb). held_cycle hb = f) (held th)))"
    by (rule hm_distinct_image [OF ok])
  then show ?thesis by (simp add: held_arcs_for_feature_def case_prod_unfold comp_def)
qed

lemma live_arcs:
  assumes "reg_inv n r"
  shows "(sid, a) \<in> set (map (\<lambda>st. (session_id st, transcript st)) (filter (\<lambda>st. feature st = Some f) (map snd (sessions r))))
    \<longleftrightarrow> (\<exists>st. hm_get (sessions r) sid = Some st \<and> feature st = Some f \<and> transcript st = a)" (is "?l = ?r")
proof -
  have "?l \<longleftrightarrow> (\<exists>s st. (s, st) \<in> set (sessions r) \<and> feature st = Some f \<and> session_id st = sid \<and> transcript st = a)"
    by force
  also have "\<dots> \<longleftrightarrow> ?r"
    unfolding hm_values [OF reg_invD(1) [OF assms]] using session_ok_id [OF reg_invD(2) [OF assms]] by blast
  finally show ?thesis .
qed

text \<open>Both readers visit exactly the live and the held buffers of the cycle, each once.\<close>

lemma arcs_for_feature_spec:
  assumes "reg_inv n r"
  shows "distinct (map snd (arcs_for_feature r f))"
    and "(sid, a) \<in> set (arcs_for_feature r f) \<longleftrightarrow>
      (\<exists>st. hm_get (sessions r) sid = Some st \<and> feature st = Some f \<and> transcript st = a) \<or>
      (\<exists>hb. held_of (hold_handle r) sid = Some hb \<and> held_cycle hb = f \<and> held_arc hb = a)"
proof -
  note inv = reg_invD [OF assms]
  define live where "live = map (\<lambda>st. (session_id st, transcript st)) (filter (\<lambda>st. feature st = Some f) (map snd (sessions r)))"
  define hs where "hs = (case hold_handle r of None \<Rightarrow> [] | Some th \<Rightarrow> held_arcs_for_feature th f)"
  have live: "(sid, a) \<in> set live \<longleftrightarrow>
      (\<exists>st. hm_get (sessions r) sid = Some st \<and> feature st = Some f \<and> transcript st = a)" for sid a
    unfolding live_def by (rule live_arcs [OF assms])
  have held: "(sid, a) \<in> set hs \<longleftrightarrow>
      (\<exists>hb. held_of (hold_handle r) sid = Some hb \<and> held_cycle hb = f \<and> held_arc hb = a)" for sid a
    using inv(3) hold.scan_view [of "(_, store r)" sid a f]
    by (cases "hold_handle r") (auto simp: hs_def held_of_def held_view_def)
  have apart: "a \<notin> snd ` set live" if "(sid, a) \<in> set hs" for sid a
  proof
    assume "a \<in> snd ` set live"
    then obtain s where "(s, a) \<in> set live" by force
    with live held that have "owns r (Live s) = Some a" "owns r (Held sid) = Some a" by fastforce+
    then show False using unique_owner_eq [OF inv(6)] by blast
  qed
  then have "filter (\<lambda>(_, a). a \<notin> snd ` set live) hs = hs" by (auto simp: filter_id_conv)
  moreover have hd: "distinct (map snd hs)"
    using held_arcs_distinct [OF assms] by (cases "hold_handle r") (auto simp: hs_def)
  ultimately have eq: "arcs_for_feature r f = live @ hs"
    using push_held_eq [of hs live]
    by (cases "hold_handle r") (simp_all add: arcs_for_feature_def Let_def live_def hs_def)
  have "s = s'" if "hm_get (sessions r) s = Some st" "hm_get (sessions r) s' = Some st'" "transcript st = transcript st'"
    for s s' st st'
    using unique_owner_eq [OF inv(6), of "Live s" "transcript st" "Live s'"] that by simp
  then have "distinct (map (\<lambda>x. transcript (snd x)) (filter (\<lambda>x. feature (snd x) = Some f) (sessions r)))"
    by (rule hm_distinct_image [OF inv(1)])
  then have "distinct (map snd live)"
    by (simp add: live_def filter_map comp_def)
  moreover have "snd p \<notin> snd ` set live" if "p \<in> set hs" for p
    using apart [of "fst p" "snd p"] that by (simp only: prod.collapse not_False_eq_True)
  then have "snd ` set live \<inter> snd ` set hs = {}" by (intro equals0I, elim IntE imageE [of _ _ "set hs"]) simp
  ultimately show "distinct (map snd (arcs_for_feature r f))"
    unfolding eq using hd by (simp only: map_append distinct_append set_map)
  show "(sid, a) \<in> set (arcs_for_feature r f) \<longleftrightarrow>
      (\<exists>st. hm_get (sessions r) sid = Some st \<and> feature st = Some f \<and> transcript st = a) \<or>
      (\<exists>hb. held_of (hold_handle r) sid = Some hb \<and> held_cycle hb = f \<and> held_arc hb = a)"
    unfolding eq set_append Un_iff live held by (rule refl)
qed

lemma arcs_for_feature_less:
  assumes "reg_inv n r"
  shows "\<forall>(sid, a) \<in> set (arcs_for_feature r f). a < next_arc (store r)"
proof clarify
  fix sid a assume "(sid, a) \<in> set (arcs_for_feature r f)"
  then have "owns r (Live sid) = Some a \<or> owns r (Held sid) = Some a"
    using arcs_for_feature_spec(2) [OF assms] by auto
  then show "a < next_arc (store r)" using unique_owner_less [OF reg_invD(6) [OF assms]] by blast
qed

lemma take_transcripts_spec:
  assumes "reg_inv n r"
  obtains h where "take_transcripts_for_feature r f =
      Some (map (\<lambda>(sid, a). (sid, the (snapshot (buf_at (lock_buffer (store r) a) a)))) (arcs_for_feature r f), r\<lparr>store := h\<rparr>)"
    and "reg_inv n (r\<lparr>store := h\<rparr>)" and "\<And>a. \<not> poisoned (cells (store r) a) \<Longrightarrow> cells h a = cells (store r) a"
  using snapshot_arcs_spec [OF reg_invD(4) [OF assms] arcs_for_feature_less [OF assms], of f] reg_inv_store [OF assms]
  unfolding take_transcripts_for_feature_def by fastforce

lemma activity_snapshots_spec:
  assumes "reg_inv n r"
  obtains h where "activity_snapshots_for_feature r f =
      (map (\<lambda>(sid, a). (sid, activity_snapshot_of (buf_at (lock_buffer (store r) a) a))) (arcs_for_feature r f), r\<lparr>store := h\<rparr>)"
    and "reg_inv n (r\<lparr>store := h\<rparr>)"
  using activity_arcs_spec [OF reg_invD(4) [OF assms], of "arcs_for_feature r f"] reg_inv_store [OF assms]
  unfolding activity_snapshots_for_feature_def by fastforce

subsection \<open>Close and sweep\<close>

lemma purge_record_for_inv:
  assumes "reg_inv n r" and "purge_record_for st (store r) = (rec, h)"
  shows "reg_inv n (r\<lparr>store := h\<rparr>)"
  using assms reg_inv_store [OF assms(1)] heap_inv_purge [OF reg_invD(4) [OF assms(1)]] purge_arc_props(1)
  by (auto simp: purge_record_for_def)

lemma owns_remove: "owns (r\<lparr>sessions := hm_remove sid (sessions r)\<rparr>) = (owns r)(Live sid := None)"
  by (rule ext, case_tac x) auto

lemma remove_session_inv:
  assumes "reg_inv n r"
  shows "reg_inv n (r\<lparr>sessions := hm_remove sid (sessions r)\<rparr>)"
  using reg_invD [OF assms] unique_owner_release [OF reg_invD(6) [OF assms] upd_None_map_le, of "Live sid"]
  by (intro reg_inv_owns [OF assms]) (auto simp: hm.ok_rem owns_remove simp del: owns.simps split: if_splits)

lemma hold_on_drain_heap:
  assumes "hold_inv th" and "f \<noteq> []" and "hold_on_drain th h tick sid a f = (th', h', ev)"
  shows "next_arc h' = next_arc h" and "heap_inv h \<Longrightarrow> heap_inv h'" and "hold_inv th'"
    and "hm_get (held th') \<subseteq>\<^sub>m (hm_get (held th))(sid \<mapsto> \<lparr>held_arc = a, held_cycle = f, held_activity_at = tick\<rparr>)"
proof -
  let ?m = "hm_insert sid \<lparr>held_arc = a, held_cycle = f, held_activity_at = tick\<rparr> (held th)"
  obtain rs where p: "purges ?m h rs (held th') h'" and "hold_inv th'"
    using hold_on_drain_spec [OF assms] by blast
  then show "next_arc h' = next_arc h" "heap_inv h \<Longrightarrow> heap_inv h'" "hold_inv th'"
    "hm_get (held th') \<subseteq>\<^sub>m (hm_get (held th))(sid \<mapsto> \<lparr>held_arc = a, held_cycle = f, held_activity_at = tick\<rparr>)"
    using purges_next_arc purges_heap_inv purges_map_le [OF p] by (auto simp: hm_simps)
qed

lemma drain_inv:
  assumes "reg_inv n r" and "drain_and_signal_session r tick sid out = (x, r')"
  shows "reg_inv n r'"
proof (cases "hm_get (sessions r) sid")
  case None
  with assms show ?thesis by (simp add: drain_and_signal_session_def)
next
  case (Some st)
  let ?r1 = "r\<lparr>sessions := hm_remove sid (sessions r)\<rparr>"
  note inv1 = remove_session_inv [OF assms(1), of sid]
  obtain pr where rel: "release_transcript ?r1 tick sid st = (pr, r')"
    using assms(2) Some by (auto simp: drain_and_signal_session_def Let_def split: prod.splits)
  show ?thesis
  proof (cases "\<exists>th f. hold_handle r = Some th \<and> feature st = Some f \<and> f \<noteq> []")
    case False
    then have "\<exists>h. purge_record_for st (store r) = (pr, h) \<and> r' = ?r1\<lparr>store := h\<rparr>"
      using rel by (auto simp: release_transcript_def split: option.splits prod.splits if_splits)
    then show ?thesis using purge_record_for_inv [OF inv1] by auto
  next
    case True
    then obtain th f where hf: "hold_handle r = Some th" "feature st = Some f" "f \<noteq> []" by blast
    obtain th' h ev where hd: "hold_on_drain th (store r) tick sid (transcript st) f = (th', h, ev)" by (metis prod_cases3)
    then have r': "r' = ?r1\<lparr>hold_handle := Some th', store := h, audit_log := audit_log r @ ev\<rparr>"
      using rel hf by (simp add: release_transcript_def)
    note hp = hold_on_drain_heap [OF reg_invD(3) [OF assms(1) hf(1)] hf(3) hd]
    have "owns r' \<subseteq>\<^sub>m (owns r)(Live sid := None, Held sid \<mapsto> transcript st)"
    proof (unfold map_le_def, rule)
      fix p assume p: "p \<in> dom (owns r')"
      show "owns r' p = ((owns r)(Live sid := None, Held sid \<mapsto> transcript st)) p"
        using p map_le_SomeD [OF hp(4)] hf(1) by (cases p) (fastforce simp: r' held_of_def split: if_splits)+
    qed
    moreover have "unique_owner ((owns r)(Live sid := None, Held sid \<mapsto> transcript st)) (next_arc (store r))"
      using unique_owner_move [OF reg_invD(6) [OF assms(1)], of "Live sid" "transcript st" "Held sid"] Some by simp
    ultimately have "unique_owner (owns r') (next_arc (store r))" by (rule unique_owner_release [rotated])
    then show ?thesis
      using reg_invD [OF inv1] hp by (intro reg_inv_owns [OF inv1]) (auto simp: r' simp del: owns.simps)
  qed
qed

lemma sweep_sessions_get:
  "sweep_sessions sids m h = (rs, ps, m', h') \<Longrightarrow> hm_get m' k = (if k \<in> set sids then None else hm_get m k)"
proof (induction sids m h arbitrary: rs ps m' h' rule: sweep_sessions.induct)
  case (2 sid sids m h)
  then show ?case by (auto split: option.splits prod.splits)
qed simp

lemma sweep_sessions_inv:
  "sweep_sessions sids m h = (rs, ps, m', h') \<Longrightarrow>
   next_arc h' = next_arc h \<and> (heap_inv h \<longrightarrow> heap_inv h') \<and> (hm_ok m \<longrightarrow> hm_ok m')"
proof (induction sids m h arbitrary: rs ps m' h' rule: sweep_sessions.induct)
  case (2 sid sids m h)
  show ?case
  proof (cases "hm_get m sid")
    case (Some st)
    obtain rec h1 where p: "purge_record_for st h = (rec, h1)" by fastforce
    obtain rs1 ps1 m1 h2 where s: "sweep_sessions sids (hm_remove sid m) h1 = (rs1, ps1, m1, h2)" by (metis prod_cases4)
    have "m' = m1" "h' = h2" using "2.prems" Some p s by (auto simp: Let_def)
    moreover have "next_arc h2 = next_arc h1 \<and> (heap_inv h1 \<longrightarrow> heap_inv h2) \<and> (hm_ok (hm_remove sid m) \<longrightarrow> hm_ok m1)"
      using "2.IH"(2) [OF Some] p s by simp
    ultimately show ?thesis
      using purge_arc_props(1) heap_inv_purge p by (auto simp: purge_record_for_def hm.ok_rem)
  qed (use 2 in simp)
qed simp

lemma sweep_stale_inv:
  assumes "reg_inv n r" and "sweep_stale_sessions r now = (x, r')"
  shows "reg_inv n r'"
proof -
  obtain rs ps m h where s: "sweep_sessions (map fst (filter (\<lambda>(_, st). stale now st) (sessions r))) (sessions r) (store r) =
      (rs, ps, m, h)" by (metis prod_cases4)
  then have r': "r' = r\<lparr>sessions := m, store := h\<rparr>" using assms(2) by (simp add: sweep_stale_sessions_def Let_def)
  note sp = sweep_sessions_inv [OF s]
  have get: "hm_get m k = Some st \<Longrightarrow> hm_get (sessions r) k = Some st" for k st
    using sweep_sessions_get [OF s, of k] by (metis option.distinct(1))
  have "owns r' p = Some a \<Longrightarrow> owns r p = Some a" for p a
    using get by (cases p) (auto simp: r')
  then have "owns r' \<subseteq>\<^sub>m owns r" by (fastforce simp: map_le_def dom_def simp del: owns.simps)
  then show ?thesis
    using reg_invD [OF assms(1)] sp get unique_owner_release [OF reg_invD(6) [OF assms(1)]]
    by (intro reg_inv_owns [OF assms(1)]) (auto simp: r' simp del: owns.simps)
qed

lemma sweep_held_inv:
  assumes "reg_inv n r" and "sweep_held_buffers r tick ttl = (x, r')"
  shows "reg_inv n r'"
proof (cases "hold_handle r")
  case None
  with assms show ?thesis by (simp add: sweep_held_buffers_def)
next
  case (Some th)
  obtain th' h where s: "sweep_expired th (store r) tick ttl = (x, th', h)" and r': "r' = r\<lparr>hold_handle := Some th', store := h\<rparr>"
    using assms(2) Some by (auto simp: sweep_held_buffers_def split: prod.splits)
  note sp = sweep_expired_spec [OF reg_invD(3) [OF assms(1) Some] s]
  have "owns r' p = Some a \<Longrightarrow> owns r p = Some a" for p a
    using map_le_SomeD [OF purges_map_le [OF sp(1)]] Some by (cases p) (auto simp: r' held_of_def)
  then have "owns r' \<subseteq>\<^sub>m owns r" by (fastforce simp: map_le_def dom_def simp del: owns.simps)
  then show ?thesis
    using reg_invD [OF assms(1)] sp(3) purges_next_arc [OF sp(1)] purges_heap_inv [OF sp(1)]
      unique_owner_release [OF reg_invD(6) [OF assms(1)]]
    by (intro reg_inv_owns [OF assms(1)]) (auto simp: r' simp del: owns.simps)
qed

section \<open>Runs of the registry\<close>

text \<open>One constructor per public call that changes the registry.\<close>

datatype registry_event =
    Register nat string "string option" "string option"
  | Delta nat nat string nat "byte list"
  | TakeTranscripts string
  | ActivitySnapshots string
  | Injection nat string "(nat \<times> 64 word) list"
  | Coaccess string "nat list"
  | IncrementCompaction string
  | CategoryStore string string
  | ConfirmedEntry string nat
  | ClearSession string
  | SetFeatureIfAbsent string string
  | SetFeatureForce string string
  | ApplyStamp string string
  | SetPhase string "string option"
  | SetGoal string "string option"
  | TopicSignal string string nat
  | ReworkEvent string rework_event
  | AgentAction string session_action
  | DrainSession nat string string
  | SweepStale nat
  | SweepHeld nat nat

fun registry_step :: "session_registry \<Rightarrow> registry_event \<Rightarrow> session_registry option" where
  "registry_step r (Register now sid rl feat) = Some (register_session r now sid rl feat)"
| "registry_step r (Delta now tick sid off bytes) = apply_transcript_delta r now tick sid off bytes"
| "registry_step r (TakeTranscripts f) = map_option snd (take_transcripts_for_feature r f)"
| "registry_step r (ActivitySnapshots f) = Some (snd (activity_snapshots_for_feature r f))"
| "registry_step r (Injection now sid es) = Some (record_injection r now sid es)"
| "registry_step r (Coaccess sid ids) = Some (snd (check_and_insert_coaccess r sid ids))"
| "registry_step r (IncrementCompaction sid) = increment_compaction r sid"
| "registry_step r (CategoryStore sid c) = Some (record_category_store r sid c)"
| "registry_step r (ConfirmedEntry sid i) = Some (record_confirmed_entry r sid i)"
| "registry_step r (ClearSession sid) = Some (clear_session r sid)"
| "registry_step r (SetFeatureIfAbsent sid f) = Some (snd (set_feature_if_absent r sid f))"
| "registry_step r (SetFeatureForce sid f) = Some (snd (set_feature_force r sid f))"
| "registry_step r (ApplyStamp sid f) = Some (apply_stamp r sid f)"
| "registry_step r (SetPhase sid p) = Some (set_current_phase r sid p)"
| "registry_step r (SetGoal sid g) = Some (set_current_goal r sid g)"
| "registry_step r (TopicSignal sid s t) = Some (record_topic_signal r sid s t)"
| "registry_step r (ReworkEvent sid e) = Some (record_rework_event r sid e)"
| "registry_step r (AgentAction sid a) = Some (record_agent_action r sid a)"
| "registry_step r (DrainSession tick sid out) = Some (snd (drain_and_signal_session r tick sid out))"
| "registry_step r (SweepStale now) = Some (snd (sweep_stale_sessions r now))"
| "registry_step r (SweepHeld tick ttl) = Some (snd (sweep_held_buffers r tick ttl))"

fun compactions :: "registry_event \<Rightarrow> nat" where
  "compactions (IncrementCompaction _) = 1"
| "compactions _ = 0"

lemma session_ok_category:
  "session_ok n sid st \<Longrightarrow> c \<le> u32_max \<Longrightarrow> session_ok n sid (st\<lparr>category_counts := hm_insert k c (category_counts st)\<rparr>)"
  by (auto simp: session_ok_def hm.ok_ins split: if_splits)

lemma session_ok_topic:
  "session_ok n sid st \<Longrightarrow> 1 \<le> tally_count t \<Longrightarrow> tally_count t \<le> u32_max \<Longrightarrow>
   session_ok n sid (st\<lparr>topic_signals := hm_insert k t (topic_signals st), last_activity_at := l\<rparr>)"
  by (auto simp: session_ok_def hm.ok_ins split: if_splits)

lemma record_topic_signal_inv: "reg_inv n r \<Longrightarrow> reg_inv n (record_topic_signal r sid s t)"
  unfolding record_topic_signal_def
  by (erule with_session_inv, simp only: Let_def, intro conjI session_ok_topic)
    (auto simp: sat_add_u32_def u32_max_def)

lemma record_category_store_inv: "reg_inv n r \<Longrightarrow> reg_inv n (record_category_store r sid c)"
  unfolding record_category_store_def
  by (erule with_session_inv, simp only: Let_def, intro conjI session_ok_category) auto

lemma coaccess_inv: "reg_inv n r \<Longrightarrow> reg_inv n (snd (check_and_insert_coaccess r sid ids))"
  using reg_inv_update [of n r sid] reg_invD(2) [of n r sid]
  by (auto simp: check_and_insert_coaccess_def Let_def session_ok_def split: option.splits)

lemma set_feature_if_absent_inv: "reg_inv n r \<Longrightarrow> reg_inv n (snd (set_feature_if_absent r sid f))"
  using reg_inv_update [of n r sid] reg_invD(2) [of n r sid]
  by (auto simp: set_feature_if_absent_def session_ok_def split: option.splits)

lemma set_feature_force_inv: "reg_inv n r \<Longrightarrow> reg_inv n (snd (set_feature_force r sid f))"
  using reg_inv_update [of n r sid] reg_invD(2) [of n r sid]
  by (auto simp: set_feature_force_def session_ok_def split: option.splits)

lemma increment_compaction_inv:
  assumes "reg_inv n r" and "n + 1 \<le> u32_max"
  shows "\<exists>r'. increment_compaction r sid = Some r' \<and> reg_inv (n + 1) r'"
proof (cases "hm_get (sessions r) sid")
  case None
  with assms reg_inv_mono [of n r "n + 1"] show ?thesis by (simp add: increment_compaction_def)
next
  case (Some st)
  have "session_ok n sid st" by (rule reg_invD(2) [OF assms(1) Some])
  then have "compaction_count st \<le> n" "session_ok (n + 1) sid (st\<lparr>compaction_count := Suc (compaction_count st)\<rparr>)"
    by (auto simp: session_ok_def)
  then show ?thesis
    using reg_inv_update [OF assms(1) Some] assms(2) Some by (simp add: increment_compaction_def add_u32_def)
qed

lemmas plain_update_defs = record_injection_def record_confirmed_entry_def apply_stamp_def set_current_phase_def
  set_current_goal_def record_rework_event_def record_agent_action_def

lemma registry_step_inv:
  assumes "reg_inv n r" and "n + compactions e \<le> u32_max"
  shows "\<exists>r'. registry_step r e = Some r' \<and> reg_inv (n + compactions e) r'"
proof (cases e)
  case (Delta now tick sid off bytes)
  then show ?thesis using apply_transcript_delta_inv [OF assms(1)] by simp
next
  case (TakeTranscripts f)
  show ?thesis by (rule take_transcripts_spec [OF assms(1), of f]) (simp add: TakeTranscripts)
next
  case (ActivitySnapshots f)
  show ?thesis by (rule activity_snapshots_spec [OF assms(1), of f]) (simp add: ActivitySnapshots)
next
  case (IncrementCompaction sid)
  then show ?thesis using increment_compaction_inv [OF assms(1)] assms(2) by simp
next
  case (DrainSession tick sid out)
  then show ?thesis using drain_inv [OF assms(1), of tick sid out] by (simp add: prod_eq_iff)
next
  case (SweepStale now)
  then show ?thesis using sweep_stale_inv [OF assms(1), of now] by (simp add: prod_eq_iff)
next
  case (SweepHeld tick ttl)
  then show ?thesis using sweep_held_inv [OF assms(1), of tick ttl] by (simp add: prod_eq_iff)
qed (use assms(1) in \<open>auto simp: plain_update_defs session_ok_def clear_session_def register_session_inv record_topic_signal_inv
  record_category_store_inv coaccess_inv set_feature_if_absent_inv set_feature_force_inv remove_session_inv
  intro!: with_session_inv\<close>)

interpretation registry: budgeted registry_step reg_inv "\<lambda>_. True" compactions u32_max
  by unfold_locales (rule registry_step_inv)

end
