(* ===== verification/Registry_Props.thy ===== *)
theory Registry_Props
  imports Registry_Inv
begin

text \<open>
  What the session registry guarantees: it never panics and never shares a buffer, a
  transcript survives the per-turn drain, deltas reach only their own session, a declared
  feature is never voted away, and the stale sweep removes and reports exactly what it should.
\<close>

section \<open>No panic, no sharing\<close>

definition registry_start :: "nat \<Rightarrow> nat \<Rightarrow> signature_scanner \<Rightarrow> session_registry" where
  "registry_start cap max_held sc =
     with_signature_scanner (with_transcript_hold (with_transcript_cap cap) (hold_new max_held)) sc"

lemma reg_inv_start: "scanner_ok sc \<Longrightarrow> reg_inv 0 (registry_start cap k sc)"
proof -
  assume "scanner_ok sc"
  moreover have "owns (registry_start cap k sc) p = None" for p
    by (cases p) (simp_all add: registry_start_def with_signature_scanner_def with_transcript_hold_def
        with_transcript_cap_def held_of_def hold_new_def)
  ultimately show ?thesis
    by (simp add: reg_inv_def unique_owner_def)
      (simp add: registry_start_def with_signature_scanner_def with_transcript_hold_def with_transcript_cap_def
        heap_inv_def heap_empty_def)
qed

text \<open>
  C7. The registry never panics and never shares a transcript. From a new registry with a
  held-buffer store, every sequence of calls (registrations, deltas, readers, updates,
  drains, sweeps, for any sessions in any order) returns, as long as it holds fewer than
  2^32 compaction increments; afterwards every buffer in use satisfies the buffer invariant,
  belongs to exactly one registered or held session, and the store is within its cap.
\<close>

theorem registry_never_panics:
  assumes "scanner_ok sc" and "sum_list (map compactions es) \<le> u32_max"
  shows "\<exists>r. run_steps registry_step (registry_start cap k sc) es = Some r \<and>
    (\<forall>p a. owns r p = Some a \<longrightarrow> buf_inv (buf_at (store r) a) \<and> (\<forall>q. owns r q = Some a \<longrightarrow> q = p)) \<and>
    (\<forall>th. hold_handle r = Some th \<longrightarrow> length (held th) \<le> max_sessions th)"
proof -
  obtain r where r: "run_steps registry_step (registry_start cap k sc) es = Some r" and
    inv: "reg_inv (sum_list (map compactions es)) r"
    using registry.run_ok [OF reg_inv_start [OF assms(1), of cap k], of es] assms(2) by (auto simp: list_all_iff)
  note i = reg_invD [OF inv]
  have "buf_inv (buf_at (store r) a)" if "owns r p = Some a" for p a
    using i(4) unique_owner_less [OF i(6) that] by (simp add: heap_inv_def)
  moreover have "q = p" if "owns r p = Some a" "owns r q = Some a" for p q a
    using unique_owner_eq [OF i(6)] that by blast
  moreover have "length (held th) \<le> max_sessions th" if "hold_handle r = Some th" for th
    using i(3) [OF that] by (simp add: hold_inv_def)
  ultimately show ?thesis using r by blast
qed

theorem registry_never_panics_witness:
  "\<exists>r. run_steps registry_step (registry_start 64 2 scanner_empty)
      [Register 10 ''s'' None (Some ''crt-1''), Delta 11 1 ''s'' 0 [1, 2], IncrementCompaction ''s'',
       DrainSession 2 ''s'' ''success'', Delta 12 3 ''s'' 2 [3], Register 13 ''s'' None (Some ''crt-1'')] = Some r \<and>
    (\<forall>p a. owns r p = Some a \<longrightarrow> buf_inv (buf_at (store r) a) \<and> (\<forall>q. owns r q = Some a \<longrightarrow> q = p)) \<and>
    (\<forall>th. hold_handle r = Some th \<longrightarrow> length (held th) \<le> max_sessions th)"
  by (rule registry_never_panics) (simp_all add: u32_max_def)

section \<open>Deltas reach their own session only\<close>

lemma apply_transcript_delta_effect:
  assumes "reg_inv n r" and "apply_transcript_delta r now tick sid off bytes = Some r'"
  shows "owns r' = owns r"
    and "\<And>a. (case owns r (Live sid) of Some b \<Rightarrow> Some b | None \<Rightarrow> owns r (Held sid)) \<noteq> Some a \<Longrightarrow>
      cells (store r') a = cells (store r) a"
    and "\<And>a. (case owns r (Live sid) of Some b \<Rightarrow> Some b | None \<Rightarrow> owns r (Held sid)) = Some a \<Longrightarrow>
      apply_delta (buf_at (lock_buffer (store r) a) a) off bytes = Some (buf_at (store r') a) \<and>
      \<not> poisoned (cells (store r') a)"
proof -
  obtain x r1 where rt: "route_delta r now tick sid = (x, r1)" by fastforce
  note p = route_delta_inv [OF assms(1) rt]
  have "owns r' = owns r \<and> (\<forall>a. x \<noteq> Some a \<longrightarrow> cells (store r') a = cells (store r) a) \<and>
    (\<forall>a. x = Some a \<longrightarrow> apply_delta (buf_at (lock_buffer (store r) a) a) off bytes = Some (buf_at (store r') a) \<and>
      \<not> poisoned (cells (store r') a))"
  proof (cases x)
    case None
    then have "r' = r1" using assms(2) rt by (simp add: apply_transcript_delta_def)
    then show ?thesis using p(2,3) None by simp
  next
    case (Some b)
    then obtain h where h: "heap_apply_delta (store r) b off bytes = Some h" "r' = r1\<lparr>store := h\<rparr>"
      using assms(2) rt p(2) by (auto simp: apply_transcript_delta_def bind_eq_Some_conv)
    then have "\<not> poisoned (cells h b)"
      by (auto simp: heap_apply_delta_def Let_def bind_eq_Some_conv set_cell_def)
    with heap_apply_delta_props(2,3) [OF h(1)] h(2) Some p(3) show ?thesis by simp
  qed
  with p(4) show "owns r' = owns r" "\<And>a. (case owns r (Live sid) of Some b \<Rightarrow> Some b | None \<Rightarrow> owns r (Held sid)) \<noteq> Some a \<Longrightarrow>
      cells (store r') a = cells (store r) a" "\<And>a. (case owns r (Live sid) of Some b \<Rightarrow> Some b | None \<Rightarrow> owns r (Held sid)) = Some a \<Longrightarrow>
      apply_delta (buf_at (lock_buffer (store r) a) a) off bytes = Some (buf_at (store r') a) \<and> \<not> poisoned (cells (store r') a)"
    by blast+
qed

text \<open>
  Routing of transcript deltas. A delta of a registered session is merged into that
  session's buffer; of a session that is only held, into the held buffer; of an unknown
  session it is ignored. In all three cases no other buffer, live or held, changes, and no
  buffer changes hands.
\<close>

theorem delta_reaches_own_session:
  assumes "reg_inv n r"
  shows "\<exists>r'. apply_transcript_delta r now tick sid off bytes = Some r' \<and> owns r' = owns r \<and>
    (case owns r (Live sid) of
       Some a \<Rightarrow> apply_delta (buf_at (lock_buffer (store r) a) a) off bytes = Some (buf_at (store r') a)
     | None \<Rightarrow>
         (case owns r (Held sid) of
            Some a \<Rightarrow> apply_delta (buf_at (lock_buffer (store r) a) a) off bytes = Some (buf_at (store r') a)
          | None \<Rightarrow> True)) \<and>
    (\<forall>p a. owns r p = Some a \<longrightarrow> p \<noteq> Live sid \<longrightarrow> (p = Held sid \<longrightarrow> owns r (Live sid) \<noteq> None) \<longrightarrow>
       buf_at (store r') a = buf_at (store r) a)"
proof -
  obtain r' where r': "apply_transcript_delta r now tick sid off bytes = Some r'"
    using apply_transcript_delta_inv [OF assms] by blast
  note e = apply_transcript_delta_effect [OF assms r']
  have "buf_at (store r') a = buf_at (store r) a"
    if "owns r p = Some a" "p \<noteq> Live sid" "p = Held sid \<longrightarrow> owns r (Live sid) \<noteq> None" for p a
  proof -
    have "owns r (Live sid) \<noteq> Some a" "p \<noteq> Held sid \<Longrightarrow> owns r (Held sid) \<noteq> Some a"
      using unique_owner_eq [OF reg_invD(6) [OF assms] that(1)] that(2) by blast+
    then have "(case owns r (Live sid) of Some b \<Rightarrow> Some b | None \<Rightarrow> owns r (Held sid)) \<noteq> Some a"
      using that(3) by (cases "owns r (Live sid)") auto
    then show ?thesis using e(2) by (simp add: buf_at_def)
  qed
  then show ?thesis using r' e(1,3) by (auto simp del: owns.simps split: option.splits)
qed

text \<open>Two registered sessions, one attributed to a cycle.\<close>

definition sample_registry :: session_registry where
  "sample_registry = register_session (register_session (registry_start 64 2 scanner_empty) 5 ''s'' None (Some ''crt-1''))
     5 ''t'' None None"

lemma reg_inv_sample: "reg_inv 0 sample_registry"
  unfolding sample_registry_def by (intro register_session_inv reg_inv_start scanner_ok_empty)

lemmas sample_registry_defs = sample_registry_def register_session_def acquire_transcript_def fresh_transcript_def
  arc_new_def readopt_def registry_start_def with_signature_scanner_def with_transcript_hold_def
  with_transcript_cap_def hold_new_def heap_empty_def Let_def

lemma sample_registry_get:
  "hm_get (sessions sample_registry) ''s'' = Some (session_new ''s'' None (Some ''crt-1'') 5 0)"
  "hm_get (sessions sample_registry) ''t'' = Some (session_new ''t'' None None 5 1)"
  "hold_handle sample_registry = Some (hold_new 2)"
  "cells (store sample_registry) 0 = \<lparr>poisoned = False, buf = buffer_new 64 scanner_empty\<rparr>"
  "cells (store sample_registry) 1 = \<lparr>poisoned = False, buf = buffer_new 64 scanner_empty\<rparr>"
  by (simp_all add: sample_registry_defs)

theorem delta_reaches_own_session_witness:
  "\<exists>r'. apply_transcript_delta sample_registry 7 7 ''s'' 0 [1, 2] = Some r' \<and>
     buf_at (store r') 1 = buf_at (store sample_registry) 1"
proof -
  obtain r' where "apply_transcript_delta sample_registry 7 7 ''s'' 0 [1, 2] = Some r'"
    and o: "\<forall>p a. owns sample_registry p = Some a \<longrightarrow> p \<noteq> Live ''s'' \<longrightarrow>
      (p = Held ''s'' \<longrightarrow> owns sample_registry (Live ''s'') \<noteq> None) \<longrightarrow>
      buf_at (store r') a = buf_at (store sample_registry) a"
    using delta_reaches_own_session [OF reg_inv_sample, of 7 7 "''s''" 0 "[1, 2]"] by blast
  moreover have "owns sample_registry (Live ''t'') = Some 1" by (simp add: sample_registry_get session_new_def)
  ultimately show ?thesis by blast
qed

section \<open>A transcript survives the drain\<close>

lemma drained_is_held:
  assumes inv: "reg_inv n r" and th: "hold_handle r = Some th" and st: "hm_get (sessions r) sid = Some st"
    and f: "feature st = Some f" "f \<noteq> []"
    and room: "\<And>s hb. hm_get (held th) s = Some hb \<Longrightarrow> held_activity_at hb < tick"
    and dr: "drain_and_signal_session r tick sid out = (x, r')"
  shows "hm_get (sessions r') sid = None"
    and "held_of (hold_handle r') sid = Some \<lparr>held_arc = transcript st, held_cycle = f, held_activity_at = tick\<rparr>"
    and "cells (store r') (transcript st) = cells (store r) (transcript st)" and "reg_inv n r'"
proof -
  let ?hb = "\<lparr>held_arc = transcript st, held_cycle = f, held_activity_at = tick\<rparr>"
  let ?m = "hm_insert sid ?hb (held th)"
  obtain th' h ev where hd: "hold_on_drain th (store r) tick sid (transcript st) f = (th', h, ev)" by (metis prod_cases3)
  have r': "r' = r\<lparr>sessions := hm_remove sid (sessions r), hold_handle := Some th', store := h, audit_log := audit_log r @ ev\<rparr>"
    using th st f hd dr by (auto simp: drain_and_signal_session_def release_transcript_def)
  note hinv = reg_invD(3) [OF inv th]
  obtain rs where p: "purges ?m (store r) rs (held th') h"
    and len: "length (held th') = min (max_sessions th) (length ?m)"
    and old: "\<And>s b s' b'. hm_get ?m s = Some b \<Longrightarrow> hm_get (held th') s = None \<Longrightarrow>
      hm_get (held th') s' = Some b' \<Longrightarrow> held_activity_at b \<le> held_activity_at b'"
    using hold_on_drain_spec [OF hinv f(2) hd] by blast
  have kept: "hm_get (held th') sid \<noteq> None"
  proof
    assume gone: "hm_get (held th') sid = None"
    have "0 < length ?m" by (metis hm.get_ins_same length_greater_0_conv list.size(3) map_of.simps(1) option.distinct(1))
    then have "0 < length (held th')" using len hinv by (simp add: hold_inv_def)
    then obtain s' b' where sb: "hm_get (held th') s' = Some b'"
      by (metis length_greater_0_conv not_None_eq map_of_eq_empty_iff)
    from old [OF _ gone sb, of ?hb] have "tick \<le> held_activity_at b'" by simp
    moreover have "s' \<noteq> sid" using sb gone by auto
    ultimately show False using room [of s' b'] map_le_SomeD [OF purges_map_le [OF p] sb] by simp
  qed
  have "arcs_inj ?m"
  proof (unfold arcs_inj_def, intro allI impI)
    fix s s' b b' assume a: "hm_get ?m s = Some b" "hm_get ?m s' = Some b'" "held_arc b = held_arc b'"
    let ?o = "(owns r)(Live sid := None, Held sid \<mapsto> transcript st)"
    have "unique_owner ?o (next_arc (store r))"
      using unique_owner_move [OF reg_invD(6) [OF inv], of "Live sid"] st by simp
    moreover have "?o (Held s) = Some (held_arc b)" "?o (Held s') = Some (held_arc b')"
      using a(1,2) th by (auto simp: held_of_def split: if_splits)
    ultimately have "Held s = Held s'" unfolding a(3) by (rule unique_owner_eq)
    then show "s = s'" by simp
  qed
  from conjunct2 [OF purges_spec [OF p this], rule_format, of sid ?hb] kept
  show "cells (store r') (transcript st) = cells (store r) (transcript st)" by (simp add: r')
  show "held_of (hold_handle r') sid = Some ?hb"
    using kept map_le_SomeD [OF purges_map_le [OF p], of sid] by (auto simp: r' held_of_def)
  show "hm_get (sessions r') sid = None" by (simp add: r')
  show "reg_inv n r'" by (rule drain_inv [OF inv dr])
qed

text \<open>Deltas of a held session, one after the other.\<close>

lemma held_deltas:
  assumes "reg_inv n r" and "hm_get (sessions r) sid = None" and "owns r (Held sid) = Some a"
    and "\<not> poisoned (cells (store r) a)"
    and "run_steps registry_step r (map (\<lambda>(now, tick, off, bs). Delta now tick sid off bs) ds) = Some r'"
  shows "owns r' = owns r \<and> reg_inv n r' \<and> \<not> poisoned (cells (store r') a) \<and>
    run_steps delta_step (buf_at (store r) a) (map (\<lambda>(now, tick, d). d) ds) = Some (buf_at (store r') a)"
  using assms
proof (induction ds arbitrary: r)
  case (Cons d ds)
  obtain now tick off bs where d: "d = (now, tick, off, bs)" by (metis prod_cases4)
  from Cons.prems(5) obtain r1 where s: "apply_transcript_delta r now tick sid off bs = Some r1"
    and rest: "run_steps registry_step r1 (map (\<lambda>(now, tick, off, bs). Delta now tick sid off bs) ds) = Some r'"
    by (auto simp: d bind_eq_Some_conv)
  note e = apply_transcript_delta_effect [OF Cons.prems(1) s]
  have live: "owns r (Live sid) = None" using Cons.prems(2) by simp
  have "reg_inv n r1" using apply_transcript_delta_inv [OF Cons.prems(1), of now tick sid off bs] s by simp
  moreover have "hm_get (sessions r1) sid = None" using e(1) live by (metis map_option_is_None owns.simps(1))
  moreover have b: "delta_step (buf_at (store r) a) (off, bs) = Some (buf_at (store r1) a)" "\<not> poisoned (cells (store r1) a)"
    using e(3) [of a] live Cons.prems(3,4) by (simp_all add: delta_step_def)
  ultimately have "owns r' = owns r1 \<and> reg_inv n r' \<and> \<not> poisoned (cells (store r') a) \<and>
    run_steps delta_step (buf_at (store r1) a) (map (\<lambda>(now, tick, d). d) ds) = Some (buf_at (store r') a)"
    using Cons.IH [OF _ _ _ _ rest] e(1) Cons.prems(3) by simp
  then show ?case using e(1) b(1) by (simp add: d)
qed simp

lemma register_adopts:
  assumes inv: "reg_inv n r" and own: "held_of (hold_handle r) sid = Some hb" "held_cycle hb = f"
  shows "hm_get (sessions (register_session r now sid rl (Some f))) sid = Some (session_new sid rl (Some f) now (held_arc hb))"
    and "store (register_session r now sid rl (Some f)) = store r"
    and "audit_log (register_session r now sid rl (Some f)) = audit_log r"
    and "held_of (hold_handle (register_session r now sid rl (Some f))) sid = None"
proof -
  from own(1) obtain th where th: "hold_handle r = Some th" "hm_get (held th) sid = Some hb"
    by (cases "hold_handle r") (auto simp: held_of_def)
  then have "f \<noteq> []" using reg_invD(3) [OF inv th(1)] own(2) by (auto simp: hold_inv_def)
  with th own(2) have "register_session r now sid rl (Some f) =
    r\<lparr>hold_handle := Some (th\<lparr>held := hm_remove sid (held th)\<rparr>),
      sessions := hm_insert sid (session_new sid rl (Some f) now (held_arc hb)) (sessions r)\<rparr>"
    by (simp add: register_session_def acquire_transcript_def readopt_def)
  then show "hm_get (sessions (register_session r now sid rl (Some f))) sid = Some (session_new sid rl (Some f) now (held_arc hb))"
    "store (register_session r now sid rl (Some f)) = store r"
    "audit_log (register_session r now sid rl (Some f)) = audit_log r"
    "held_of (hold_handle (register_session r now sid rl (Some f))) sid = None"
    by (simp_all add: held_of_def)
qed

lemma route_keeps_cycle:
  assumes "route_delta r now tick sid = (x, r1)"
  shows "map_option held_cycle (held_of (hold_handle r1) s) = map_option held_cycle (held_of (hold_handle r) s)"
proof -
  have "hold_handle r1 = hold_handle r \<or>
    (\<exists>th. hold_handle r = Some th \<and> hold_handle r1 = Some (snd (held_arc_for_session th tick sid)))"
    using assms by (auto simp: route_delta_def Let_def split: option.splits prod.splits)
  then show ?thesis
    by (auto simp: held_of_def held_arc_for_session_def split: option.splits)
qed

lemma deltas_keep_cycle:
  "run_steps registry_step r (map (\<lambda>(now, tick, off, bs). Delta now tick sid off bs) ds) = Some r' \<Longrightarrow>
   map_option held_cycle (held_of (hold_handle r') s) = map_option held_cycle (held_of (hold_handle r) s)"
proof (induction ds arbitrary: r)
  case (Cons d ds)
  obtain now tick off bs where d: "d = (now, tick, off, bs)" by (metis prod_cases4)
  obtain x r1 where rt: "route_delta r now tick sid = (x, r1)" by fastforce
  from Cons.prems obtain r2 where s: "apply_transcript_delta r now tick sid off bs = Some r2"
    and rest: "run_steps registry_step r2 (map (\<lambda>(now, tick, off, bs). Delta now tick sid off bs) ds) = Some r'"
    by (auto simp: d bind_eq_Some_conv)
  have "hold_handle r2 = hold_handle r1"
    using s rt by (auto simp: apply_transcript_delta_def bind_eq_Some_conv split: option.splits)
  with Cons.IH [OF rest] route_keeps_cycle [OF rt] show ?case by simp
qed simp

text \<open>
  C8. Continuity across the per-turn drain (ADR-008). A session attributed to cycle \<open>f\<close> is
  drained at a time later than every activity in the store, receives any deltas while it is
  only held, and registers again under \<open>f\<close>: it gets its own buffer back, whose state is the
  state at the drain followed by those deltas in order; the drain returned no purge record
  for it, and the session is no longer held.
\<close>

theorem transcript_survives_drain:
  assumes inv: "reg_inv n r" and th: "hold_handle r = Some th" and st: "hm_get (sessions r) sid = Some st"
    and f: "feature st = Some f" "f \<noteq> []" and ok: "\<not> poisoned (cells (store r) (transcript st))"
    and room: "\<And>s hb. hm_get (held th) s = Some hb \<Longrightarrow> held_activity_at hb < tick"
    and dr: "drain_and_signal_session r tick sid out = (x, r1)"
    and ds: "run_steps registry_step r1 (map (\<lambda>(now, tick, off, bs). Delta now tick sid off bs) ds) = Some r2"
    and r3: "r3 = register_session r2 now sid rl (Some f)"
  shows "(\<exists>o2. x = Some (o2, None)) \<and>
    hm_get (sessions r3) sid = Some (session_new sid rl (Some f) now (transcript st)) \<and>
    run_steps delta_step (buf_at (store r) (transcript st)) (map (\<lambda>(now, tick, d). d) ds) =
      Some (buf_at (store r3) (transcript st)) \<and>
    held_of (hold_handle r3) sid = None"
proof -
  note d = drained_is_held [OF inv th st f room dr]
  let ?a = "transcript st"
  have own: "owns r1 (Held sid) = Some ?a" using d(2) by simp
  have h: "owns r2 = owns r1 \<and> reg_inv n r2 \<and>
      run_steps delta_step (buf_at (store r1) ?a) (map (\<lambda>(now, tick, d). d) ds) = Some (buf_at (store r2) ?a)"
    using held_deltas [OF d(4) d(1) own _ ds] d(3) ok by simp
  obtain hb where hb: "held_of (hold_handle r2) sid = Some hb" "held_arc hb = ?a"
    using h own by (metis (no_types, lifting) map_option_eq_Some owns.simps(2))
  moreover have "held_cycle hb = f"
    using deltas_keep_cycle [OF ds, of sid] hb(1) d(2) by simp
  ultimately have reg: "hm_get (sessions r3) sid = Some (session_new sid rl (Some f) now ?a)" "store r3 = store r2"
    "held_of (hold_handle r3) sid = None"
    using register_adopts [OF conjunct1 [OF conjunct2 [OF h]] hb(1)] by (simp_all add: r3)
  have "\<exists>o2. x = Some (o2, None)"
    using dr th st f by (auto simp: drain_and_signal_session_def release_transcript_def Let_def split: prod.splits)
  with reg h d(3) show ?thesis by (simp add: buf_at_def)
qed

theorem transcript_survives_drain_witness:
  "\<exists>r1 r2 x. drain_and_signal_session sample_registry 7 ''s'' ''success'' = (x, r1) \<and>
     run_steps registry_step r1 [Delta 8 8 ''s'' 0 [1, 2]] = Some r2 \<and>
     run_steps delta_step (buffer_new 64 scanner_empty) [(0, [1, 2])] =
       Some (buf_at (store (register_session r2 9 ''s'' None (Some ''crt-1''))) 0)"
proof -
  obtain x r1 where dr: "drain_and_signal_session sample_registry 7 ''s'' ''success'' = (x, r1)" by fastforce
  have "reg_inv 0 r1" by (rule drain_inv [OF reg_inv_sample dr])
  then obtain r2 where ds: "run_steps registry_step r1 (map (\<lambda>(now, tick, off, bs). Delta now tick ''s'' off bs) [(8, 8, 0, [1, 2])]) = Some r2"
    using apply_transcript_delta_inv [of 0 r1 8 8 "''s''" 0 "[1, 2]"] by auto
  let ?st = "session_new ''s'' None (Some ''crt-1'') 5 0"
  have "run_steps delta_step (buf_at (store sample_registry) (transcript ?st)) (map (\<lambda>(now, tick, d). d) [(8, 8, 0, [1, 2])]) =
      Some (buf_at (store (register_session r2 9 ''s'' None (Some ''crt-1''))) (transcript ?st))"
    using transcript_survives_drain [OF reg_inv_sample sample_registry_get(3,1) _ _ _ _ dr ds refl, of "''crt-1''" 9 None]
    by (simp add: session_new_def sample_registry_get hold_new_def)
  then show ?thesis using dr ds by (auto simp: session_new_def buf_at_def sample_registry_get)
qed

section \<open>Declared features\<close>

text \<open>The calls that may declare another feature for a session or end it.\<close>

fun redeclares :: "string \<Rightarrow> registry_event \<Rightarrow> bool" where
  "redeclares sid (Register _ s _ _) = (s = sid)"
| "redeclares sid (SetFeatureForce s _) = (s = sid)"
| "redeclares sid (ApplyStamp s _) = (s = sid)"
| "redeclares sid (DrainSession _ s _) = (s = sid)"
| "redeclares sid (ClearSession s) = (s = sid)"
| "redeclares sid _ = False"

definition declared_as :: "session_registry \<Rightarrow> string \<Rightarrow> string \<Rightarrow> bool" where
  "declared_as r sid f \<longleftrightarrow> (\<forall>st. get_state r sid = Some st \<longrightarrow> feature st = Some f \<and> feature_src st = Declared)"

lemma declared_with_session:
  assumes "declared_as r sid f" and "\<And>st. feature (g st) = feature st \<and> feature_src (g st) = feature_src st"
  shows "declared_as (with_session r s g) sid f"
  using assms by (simp add: declared_as_def get_state_def with_session_def split: option.split)

lemma declared_sessions_le:
  "declared_as r sid f \<Longrightarrow> (\<And>st. hm_get (sessions r') sid = Some st \<Longrightarrow> hm_get (sessions r) sid = Some st) \<Longrightarrow>
   declared_as r' sid f"
  unfolding declared_as_def get_state_def by blast

lemma sessions_fresh [simp]: "sessions (snd (fresh_transcript r)) = sessions r"
  by (simp add: fresh_transcript_def arc_new_def)

lemma sessions_acquire [simp]: "sessions (snd (acquire_transcript r s ft)) = sessions r"
  by (simp add: acquire_transcript_def Let_def case_prod_unfold split: option.split)

lemma sessions_release [simp]: "sessions (snd (release_transcript r tick s st)) = sessions r"
  by (simp add: release_transcript_def Let_def case_prod_unfold split: option.split)

lemma sessions_drain:
  "sessions (snd (drain_and_signal_session r tick s out)) = (if hm_get (sessions r) s = None then sessions r else hm_remove s (sessions r))"
  using sessions_release [of "r\<lparr>sessions := hm_remove s (sessions r)\<rparr>" tick s]
  by (auto simp: drain_and_signal_session_def Let_def case_prod_unfold simp del: sessions_release split: option.splits)

lemma sessions_register:
  "hm_get (sessions (register_session r now s rl ft)) k =
     (if k = s then Some (session_new s rl ft now (fst (acquire_transcript r s ft))) else hm_get (sessions r) k)"
  using sessions_acquire [of r s ft] by (simp add: register_session_def case_prod_unfold Let_def del: sessions_acquire)

lemma sessions_sweep_stale:
  assumes "hm_ok (sessions r)"
  shows "hm_get (sessions (snd (sweep_stale_sessions r now))) k =
    (case hm_get (sessions r) k of Some st \<Rightarrow> if stale now st then None else Some st | None \<Rightarrow> None)"
proof -
  let ?ids = "map fst (filter (\<lambda>(_, st). stale now st) (sessions r))"
  obtain rs ps m h where s: "sweep_sessions ?ids (sessions r) (store r) = (rs, ps, m, h)" by (metis prod_cases4)
  have "k \<in> set ?ids \<longleftrightarrow> (\<exists>st. hm_get (sessions r) k = Some st \<and> stale now st)"
    using hm_values [OF assms, of k] by force
  then show ?thesis
    using s sweep_sessions_get [OF s, of k] by (auto simp: sweep_stale_sessions_def split: option.splits)
qed

lemma declared_step:
  assumes "reg_inv n r" and "declared_as r sid f" and "\<not> redeclares sid e" and "registry_step r e = Some r'"
  shows "declared_as r' sid f"
proof (cases e)
  case (Register now s rl ft)
  with assms show ?thesis by (auto simp: sessions_register intro: declared_sessions_le)
next
  case (Delta now tick s off bytes)
  obtain x r1 where rt: "route_delta r now tick s = (x, r1)" by fastforce
  then have "sessions r' = sessions r1"
    using assms(4) Delta by (auto simp: apply_transcript_delta_def bind_eq_Some_conv split: option.splits)
  moreover have "declared_as r1 sid f"
    using rt assms(2) by (auto simp: route_delta_def session_key_def declared_as_def get_state_def Let_def
        split: option.splits prod.splits if_splits)
  ultimately show ?thesis by (simp add: declared_as_def get_state_def)
next
  case (TakeTranscripts g)
  with assms show ?thesis
    by (auto simp: take_transcripts_for_feature_def bind_eq_Some_conv intro: declared_sessions_le)
next
  case (ActivitySnapshots g)
  with assms show ?thesis
    by (auto simp: activity_snapshots_for_feature_def Let_def case_prod_unfold intro: declared_sessions_le)
next
  case (IncrementCompaction s)
  with assms(2,4) show ?thesis
    by (auto simp: increment_compaction_def bind_eq_Some_conv declared_as_def get_state_def split: option.splits if_splits)
next
  case (SweepStale now)
  with assms show ?thesis
    by (auto simp: sessions_sweep_stale reg_invD(1) intro!: declared_sessions_le [OF assms(2)] split: option.splits if_splits)
next
  case (SweepHeld tick ttl)
  with assms show ?thesis
    by (auto simp: sweep_held_buffers_def Let_def case_prod_unfold intro: declared_sessions_le split: option.splits)
next
  case (DrainSession tick s out)
  with assms show ?thesis
    by (auto simp: sessions_drain intro!: declared_sessions_le [OF assms(2)] split: if_splits)
next
  case (ClearSession s)
  with assms show ?thesis by (auto simp: clear_session_def intro: declared_sessions_le)
next
  case (Coaccess s ids)
  with assms(2,4) show ?thesis
    by (auto simp: check_and_insert_coaccess_def Let_def declared_as_def get_state_def split: option.splits if_splits)
next
  case (SetFeatureIfAbsent s g)
  with assms(2,4) show ?thesis
    by (auto simp: set_feature_if_absent_def declared_as_def get_state_def split: option.splits if_splits)
next
  case (SetFeatureForce s g)
  with assms(2-4) show ?thesis
    by (auto simp: set_feature_force_def declared_as_def get_state_def split: option.splits if_splits)
next
  case (ApplyStamp s g)
  with assms(2-4) show ?thesis
    by (auto simp: apply_stamp_def with_session_def declared_as_def get_state_def split: option.splits if_splits)
qed (use assms(2,4) in \<open>auto simp: record_injection_def record_confirmed_entry_def set_current_phase_def
  set_current_goal_def record_rework_event_def record_agent_action_def record_category_store_def record_topic_signal_def Let_def
  intro!: declared_with_session\<close>)

lemma sweep_sessions_results:
  "sweep_sessions sids m h = (rs, ps, m', h') \<Longrightarrow> res \<in> set rs \<Longrightarrow>
   \<exists>st. hm_get m (swept_session_id res) = Some st \<and> resolved_feature res = resolve_feature st"
proof (induction sids m h arbitrary: rs ps m' h' rule: sweep_sessions.induct)
  case (2 sid sids m h)
  show ?case
  proof (cases "hm_get m sid")
    case (Some st)
    obtain rec h1 where p: "purge_record_for st h = (rec, h1)" by fastforce
    obtain rs1 ps1 m1 h2 where s: "sweep_sessions sids (hm_remove sid m) h1 = (rs1, ps1, m1, h2)" by (metis prod_cases4)
    have IH: "res \<in> set rs1 \<Longrightarrow>
        \<exists>st. hm_get (hm_remove sid m) (swept_session_id res) = Some st \<and> resolved_feature res = resolve_feature st"
      using "2.IH"(2) [OF Some] p s by simp
    show ?thesis
      using "2.prems" Some p s IH by (auto split: if_splits)
  qed (use 2 in simp)
qed simp

lemma registry_run_declared:
  assumes "reg_inv n r" and "declared_as r sid f" and "list_all (\<lambda>e. \<not> redeclares sid e) es"
    and "n + sum_list (map compactions es) \<le> u32_max" and "run_steps registry_step r es = Some r'"
  shows "declared_as r' sid f \<and> hm_ok (sessions r')"
  using assms
proof (induction es arbitrary: n r)
  case (Cons e es)
  then obtain r1 where r1: "registry_step r e = Some r1" "run_steps registry_step r1 es = Some r'"
    by (auto simp: bind_eq_Some_conv)
  have "reg_inv (n + compactions e) r1" using registry.step_ok [OF Cons.prems(1), of e] Cons.prems(4) r1(1) by simp
  moreover have "declared_as r1 sid f" using declared_step [OF Cons.prems(1,2) _ r1(1)] Cons.prems(3) by simp
  ultimately show ?case using Cons.IH [of "n + compactions e" r1] Cons.prems(3,4) r1(2) by (simp add: add.assoc)
qed (simp add: reg_invD(1))

text \<open>
  C9. A declared feature is never voted away (vnc-030 ADR-004). Once a session's feature is
  declared, no sequence of other calls (topic signals, eager attribution fills, deltas,
  sweeps, calls on other sessions) changes it or its precedence, and whatever the votes say,
  a stale sweep of the session reports the declared feature.
\<close>

theorem declared_feature_wins:
  assumes "reg_inv n r" and "get_state r sid = Some st" and "feature st = Some f" and "feature_src st = Declared"
    and "list_all (\<lambda>e. \<not> redeclares sid e) es" and "n + sum_list (map compactions es) \<le> u32_max"
    and "run_steps registry_step r es = Some r'"
  shows "(\<forall>st'. get_state r' sid = Some st' \<longrightarrow> feature st' = Some f \<and> feature_src st' = Declared) \<and>
    (\<forall>res. res \<in> set (fst (fst (sweep_stale_sessions r' now))) \<longrightarrow> swept_session_id res = sid \<longrightarrow>
       resolved_feature res = Some f)"
proof -
  have "declared_as r sid f" using assms(2-4) by (simp add: declared_as_def)
  from registry_run_declared [OF assms(1) this assms(5-7)]
  have d: "declared_as r' sid f" by simp
  have "resolved_feature res = Some f"
    if res: "res \<in> set (fst (fst (sweep_stale_sessions r' now)))" "swept_session_id res = sid" for res
  proof -
    obtain rs ps m h where s: "sweep_sessions (map fst (filter (\<lambda>(_, st). stale now st) (sessions r'))) (sessions r') (store r') =
      (rs, ps, m, h)" by (metis prod_cases4)
    then have "res \<in> set rs" using res(1) by (simp add: sweep_stale_sessions_def)
    from sweep_sessions_results [OF s this] obtain st' where "get_state r' sid = Some st'" "resolved_feature res = resolve_feature st'"
      by (auto simp: res(2) get_state_def)
    then show ?thesis using d by (simp add: declared_as_def resolve_feature_def)
  qed
  with d show ?thesis by (simp add: declared_as_def)
qed

theorem declared_feature_wins_witness:
  "\<exists>r'. run_steps registry_step (apply_stamp sample_registry ''s'' ''crt-9'')
       [TopicSignal ''s'' ''crt-1'' 9, TopicSignal ''s'' ''crt-1'' 9, SetFeatureIfAbsent ''s'' ''crt-1''] = Some r' \<and>
     (\<forall>st'. get_state r' ''s'' = Some st' \<longrightarrow> feature st' = Some ''crt-9'' \<and> feature_src st' = Declared)"
proof -
  let ?r = "apply_stamp sample_registry ''s'' ''crt-9''"
  let ?es = "[TopicSignal ''s'' ''crt-1'' 9, TopicSignal ''s'' ''crt-1'' 9, SetFeatureIfAbsent ''s'' ''crt-1'']"
  have inv: "reg_inv 0 ?r"
    using reg_inv_sample registry.step_ok [of 0 sample_registry "ApplyStamp ''s'' ''crt-9''"] by simp
  have get: "get_state ?r ''s'' = Some ((session_new ''s'' None (Some ''crt-1'') 5 0)\<lparr>feature := Some ''crt-9'', feature_src := Declared\<rparr>)"
    by (simp add: get_state_def apply_stamp_def with_session_def sample_registry_get session_new_def)
  have "\<exists>r'. run_steps registry_step ?r ?es = Some r'" by simp
  then obtain r' where run: "run_steps registry_step ?r ?es = Some r'" ..
  have "\<forall>st'. get_state r' ''s'' = Some st' \<longrightarrow> feature st' = Some ''crt-9'' \<and> feature_src st' = Declared"
    using declared_feature_wins [OF inv get _ _ _ _ run, of "''crt-9''"] by simp
  with run show ?thesis by blast
qed

section \<open>The stale sweep\<close>

definition sweep_report :: "string \<Rightarrow> session_state \<Rightarrow> sweep_result" where
  "sweep_report sid st = \<lparr>swept_session_id = sid, swept_output = build_signal_output_from_state st ''success'',
     resolved_feature = resolve_feature st\<rparr>"

text \<open>Each state is filed under its id and distinct sessions have distinct buffers.\<close>

definition own_buffers :: "(string, session_state) hmap \<Rightarrow> bool" where
  "own_buffers m \<longleftrightarrow> (\<forall>s st. hm_get m s = Some st \<longrightarrow> session_id st = s \<and>
     (\<forall>s' st'. hm_get m s' = Some st' \<longrightarrow> transcript st = transcript st' \<longrightarrow> s = s'))"

lemma own_buffers_remove: "own_buffers m \<Longrightarrow> own_buffers (hm_remove sid m)"
  unfolding own_buffers_def by (simp split: if_splits)

lemma reg_inv_own_buffers:
  assumes "reg_inv n r"
  shows "own_buffers (sessions r)"
  unfolding own_buffers_def
proof (intro allI impI conjI)
  fix s st s' st' assume a: "hm_get (sessions r) s = Some st"
  show "session_id st = s" by (rule session_ok_id [OF reg_invD(2) [OF assms a]])
  assume "hm_get (sessions r) s' = Some st'" "transcript st = transcript st'"
  with a show "s = s'"
    using unique_owner_eq [OF reg_invD(6) [OF assms], of "Live s" "transcript st" "Live s'"] by simp
qed

lemma sweep_sessions_spec:
  assumes "sweep_sessions sids m h = (rs, ps, m', h')" and "own_buffers m"
  shows "set rs = {sweep_report sid st | sid st. sid \<in> set sids \<and> hm_get m sid = Some st \<and> injection_history st \<noteq> []} \<and>
    set ps = {\<lparr>purged_session_id = sid, bytes_purged = length (data (buf_at h (transcript st)))\<rparr> | sid st.
       sid \<in> set sids \<and> hm_get m sid = Some st \<and> data (buf_at h (transcript st)) \<noteq> []} \<and>
    (\<forall>sid st. sid \<in> set sids \<longrightarrow> hm_get m sid = Some st \<longrightarrow> data (buf_at h' (transcript st)) = []) \<and>
    (\<forall>a. (\<forall>sid st. sid \<in> set sids \<longrightarrow> hm_get m sid = Some st \<longrightarrow> transcript st \<noteq> a) \<longrightarrow> cells h' a = cells h a)"
  using assms
proof (induction sids m h arbitrary: rs ps m' h' rule: sweep_sessions.induct)
  case (1 m h)
  then show ?case by simp
next
  case (2 sid sids m h)
  show ?case
  proof (cases "hm_get m sid")
    case None
    then show ?thesis using "2.IH"(1) [OF None] "2.prems" by (auto; metis option.distinct(1))
  next
    case (Some st)
    let ?m = "hm_remove sid m" and ?a = "transcript st"
    obtain rec h1 where p: "purge_record_for st h = (rec, h1)" by fastforce
    obtain rs1 ps1 m1 h2 where s: "sweep_sessions sids ?m h1 = (rs1, ps1, m1, h2)" by (metis prod_cases4)
    have res: "rs = (if injection_history st \<noteq> [] then [sweep_report sid st] else []) @ rs1" "ps = opt_list rec @ ps1" "h' = h2"
      using "2.prems"(1) Some p s by (auto simp: sweep_report_def)
    note pu = purge_arc_props [OF p [unfolded purge_record_for_def]]
    have other: "transcript st' \<noteq> ?a" if "hm_get ?m s' = Some st'" for s' st'
      using "2.prems"(2) Some that unfolding own_buffers_def by (auto split: if_splits)
    then have same: "buf_at h1 (transcript st') = buf_at h (transcript st')" if "hm_get ?m s' = Some st'" for s' st'
      using pu(2) that by (simp add: buf_at_def)
    have get: "hm_get ?m k = Some t \<longleftrightarrow> k \<noteq> sid \<and> hm_get m k = Some t" for k t by simp
    have IH: "set rs1 = {sweep_report k t | k t. k \<in> set sids \<and> hm_get ?m k = Some t \<and> injection_history t \<noteq> []}"
      "set ps1 = {\<lparr>purged_session_id = k, bytes_purged = length (data (buf_at h1 (transcript t)))\<rparr> | k t.
         k \<in> set sids \<and> hm_get ?m k = Some t \<and> data (buf_at h1 (transcript t)) \<noteq> []}"
      "\<And>k t. k \<in> set sids \<Longrightarrow> hm_get ?m k = Some t \<Longrightarrow> data (buf_at h2 (transcript t)) = []"
      "\<And>a. (\<And>k t. k \<in> set sids \<Longrightarrow> hm_get ?m k = Some t \<Longrightarrow> transcript t \<noteq> a) \<Longrightarrow> cells h2 a = cells h1 a"
      using "2.IH"(2) [OF Some refl p [symmetric] refl s own_buffers_remove [OF "2.prems"(2)]] by blast+
    have "cells h2 ?a = cells h1 ?a" using IH(4) other by blast
    then have here: "data (buf_at h2 ?a) = []" using pu(3) by (simp add: buf_at_def)
    have rs: "set rs = {sweep_report k t | k t. k \<in> set (sid # sids) \<and> hm_get m k = Some t \<and> injection_history t \<noteq> []}"
      unfolding res set_append IH(1) get using Some by (auto simp del: hm_get_remove) (metis option.inject)+
    have ps1: "set ps1 = {\<lparr>purged_session_id = k, bytes_purged = length (data (buf_at h (transcript t)))\<rparr> | k t.
         k \<in> set sids \<and> (k \<noteq> sid \<and> hm_get m k = Some t) \<and> data (buf_at h (transcript t)) \<noteq> []}"
      unfolding IH(2) using same get by (metis (no_types, lifting))
    have sidst: "session_id st = sid" using "2.prems"(2) Some by (simp add: own_buffers_def)
    have ps: "set ps = {\<lparr>purged_session_id = k, bytes_purged = length (data (buf_at h (transcript t)))\<rparr> | k t.
         k \<in> set (sid # sids) \<and> hm_get m k = Some t \<and> data (buf_at h (transcript t)) \<noteq> []}"
      unfolding res set_append ps1 using Some pu(5) sidst by auto
    have "data (buf_at h' (transcript t)) = []" if "k \<in> set (sid # sids)" "hm_get m k = Some t" for k t
      using that here IH(3) [of k t] get Some res(3) by (cases "k = sid") auto
    moreover have "cells h' a = cells h a" if "\<forall>k t. k \<in> set (sid # sids) \<longrightarrow> hm_get m k = Some t \<longrightarrow> transcript t \<noteq> a" for a
      using that IH(4) [of a] pu(2) [of a] Some get res(3) by auto
    ultimately show ?thesis using rs ps by blast
  qed
qed

text \<open>
  The stale sweep is exact (FR-09, R-08.1). It removes exactly the sessions whose last
  activity is at least four hours ago; it reports one result per removed session with a
  non-empty injection history (its signals and its resolved feature) and one purge record
  per removed session with a non-empty transcript, also the silently evicted ones; it
  empties the transcripts of the removed sessions and touches no other buffer, live or held.
\<close>

theorem sweep_stale_exact:
  assumes "reg_inv n r" and "sweep_stale_sessions r now = ((rs, ps), r')"
  shows "(\<forall>sid. get_state r' sid = (case get_state r sid of
       Some st \<Rightarrow> if stale now st then None else Some st | None \<Rightarrow> None)) \<and>
    set rs = {sweep_report sid st | sid st. get_state r sid = Some st \<and> stale now st \<and> injection_history st \<noteq> []} \<and>
    set ps = {\<lparr>purged_session_id = sid, bytes_purged = length (data (buf_at (store r) (transcript st)))\<rparr> | sid st.
       get_state r sid = Some st \<and> stale now st \<and> data (buf_at (store r) (transcript st)) \<noteq> []} \<and>
    (\<forall>sid st. get_state r sid = Some st \<longrightarrow> stale now st \<longrightarrow> data (buf_at (store r') (transcript st)) = []) \<and>
    (\<forall>p a. owns r' p = Some a \<longrightarrow> buf_at (store r') a = buf_at (store r) a)"
proof -
  let ?ids = "map fst (filter (\<lambda>(_, st). stale now st) (sessions r))"
  note inv = reg_invD [OF assms(1)]
  obtain m h where s: "sweep_sessions ?ids (sessions r) (store r) = (rs, ps, m, h)"
    and r': "r' = r\<lparr>sessions := m, store := h\<rparr>"
    using assms(2) by (cases "sweep_sessions ?ids (sessions r) (store r)") (auto simp: sweep_stale_sessions_def)
  have mem: "sid \<in> set ?ids \<and> hm_get (sessions r) sid = Some st \<longleftrightarrow> get_state r sid = Some st \<and> stale now st" for sid st
    using hm_values [OF inv(1), of sid] by (force simp: get_state_def)
  have get: "get_state r' sid = (case get_state r sid of
       Some st \<Rightarrow> if stale now st then None else Some st | None \<Rightarrow> None)" for sid
    using sessions_sweep_stale [OF inv(1), of now sid] assms(2) by (simp add: get_state_def)
  note sp = sweep_sessions_spec [OF s reg_inv_own_buffers [OF assms(1)]]
  note frame = sp [THEN conjunct2, THEN conjunct2, THEN conjunct2, rule_format]
  have keep: "buf_at (store r') a = buf_at (store r) a" if own: "owns r' p = Some a" for p a
  proof -
    have o: "owns r p = Some a"
    proof (cases p)
      case (Live sid)
      with own get [of sid] show ?thesis by (auto simp: get_state_def split: option.splits if_splits)
    qed (use own in \<open>simp add: r'\<close>)
    have "transcript st \<noteq> a" if st: "get_state r sid = Some st" "stale now st" for sid st
    proof
      assume "transcript st = a"
      then have "p = Live sid"
        using unique_owner_eq [OF inv(6) o, of "Live sid"] st(1) by (simp add: get_state_def)
      with own get [of sid] st show False by (simp add: get_state_def)
    qed
    then have "cells h a = cells (store r) a" using mem by (intro frame) metis
    then show ?thesis by (simp add: r' buf_at_def)
  qed
  have emp: "data (buf_at (store r') (transcript st)) = []" if "get_state r sid = Some st" "stale now st" for sid st
    using sp [THEN conjunct2, THEN conjunct2, THEN conjunct1, rule_format, of sid st] mem [of sid st] that
    by (simp add: r')
  have "set rs = {sweep_report sid st | sid st. get_state r sid = Some st \<and> stale now st \<and> injection_history st \<noteq> []}"
    unfolding sp [THEN conjunct1] conj_assoc [symmetric] mem ..
  moreover have "set ps = {\<lparr>purged_session_id = sid, bytes_purged = length (data (buf_at (store r) (transcript st)))\<rparr> | sid st.
       get_state r sid = Some st \<and> stale now st \<and> data (buf_at (store r) (transcript st)) \<noteq> []}"
    unfolding sp [THEN conjunct2, THEN conjunct1] conj_assoc [symmetric] mem ..
  ultimately show ?thesis using get keep emp by (intro conjI allI impI)
qed

theorem sweep_stale_exact_witness:
  "\<exists>rs ps r'. sweep_stale_sessions sample_registry 20000 = ((rs, ps), r') \<and> get_state r' ''s'' = None"
proof -
  obtain rs ps r' where s: "sweep_stale_sessions sample_registry 20000 = ((rs, ps), r')" by (metis prod.collapse)
  have "get_state r' ''s'' = None"
    using sweep_stale_exact [OF reg_inv_sample s]
    by (simp add: get_state_def sample_registry_get stale_def STALE_SESSION_THRESHOLD_SECS_def session_new_def)
  with s show ?thesis by blast
qed

section \<open>Readers of a cycle\<close>

text \<open>
  The read seam of a cycle review (crt-052 C1). Reading the transcripts of a cycle never
  panics, returns one snapshot for each registered session attributed to the cycle and for
  each session held under it and for nobody else (a session without a feature never
  appears), takes every snapshot from the session's own buffer (a poisoned one is emptied
  first), and leaves every buffer that was not poisoned as it was.
\<close>

theorem take_transcripts_exact:
  assumes "reg_inv n r"
  shows "\<exists>out r'. take_transcripts_for_feature r f = Some (out, r') \<and>
    (\<forall>sid snap. (sid, snap) \<in> set out \<longleftrightarrow>
       (\<exists>a. snapshot (buf_at (lock_buffer (store r) a) a) = Some snap \<and>
         ((\<exists>st. get_state r sid = Some st \<and> feature st = Some f \<and> transcript st = a) \<or>
          (\<exists>hb. held_of (hold_handle r) sid = Some hb \<and> held_cycle hb = f \<and> held_arc hb = a)))) \<and>
    length out = card {p. case p of
       Live sid \<Rightarrow> (\<exists>st. get_state r sid = Some st \<and> feature st = Some f)
     | Held sid \<Rightarrow> (\<exists>hb. held_of (hold_handle r) sid = Some hb \<and> held_cycle hb = f)} \<and>
    (\<forall>a. \<not> poisoned (cells (store r) a) \<longrightarrow> buf_at (store r') a = buf_at (store r) a)"
proof -
  let ?arcs = "arcs_for_feature r f"
  define P where "P = {p. case p of Live sid \<Rightarrow> (\<exists>st. get_state r sid = Some st \<and> feature st = Some f)
     | Held sid \<Rightarrow> (\<exists>hb. held_of (hold_handle r) sid = Some hb \<and> held_cycle hb = f)}"
  let ?snap = "\<lambda>(sid, a). (sid, the (snapshot (buf_at (lock_buffer (store r) a) a)))"
  note inv = reg_invD [OF assms]
  note sp = arcs_for_feature_spec [OF assms, where f = f, folded get_state_def]
  obtain h where take: "take_transcripts_for_feature r f = Some (map ?snap ?arcs, r\<lparr>store := h\<rparr>)"
    and frame: "\<And>a. \<not> poisoned (cells (store r) a) \<Longrightarrow> cells h a = cells (store r) a"
    using take_transcripts_spec [OF assms, of f] by blast
  have "\<exists>s. snapshot (buf_at (lock_buffer (store r) a) a) = Some s" if "(sid, a) \<in> set ?arcs" for sid a
  proof -
    have "buf_inv (buf_at (lock_buffer (store r) a) a)"
      using heap_inv_lock [OF inv(4), of a] arcs_for_feature_less [OF assms, of f] that by (auto simp: heap_inv_def)
    then show ?thesis by (meson snapshot_spec)
  qed
  then have snaps: "(sid, snap) \<in> set (map ?snap ?arcs) \<longleftrightarrow>
      (\<exists>a. snapshot (buf_at (lock_buffer (store r) a) a) = Some snap \<and> (sid, a) \<in> set ?arcs)" for sid snap
    by force
  have owned: "\<exists>a. owns r p = Some a" if "p \<in> P" for p
    using that by (cases p) (auto simp: P_def get_state_def)
  then have "inj_on (owns r) P"
    using unique_owner_eq [OF inv(6)] by (intro inj_onI) metis
  moreover have "owns r ` P = Some ` snd ` set ?arcs"
  proof -
    have "Some a \<in> owns r ` P \<longleftrightarrow> (\<exists>sid. (sid, a) \<in> set ?arcs)" for a
    proof
      assume "Some a \<in> owns r ` P"
      then obtain p where "p \<in> P" "owns r p = Some a" by force
      then show "\<exists>sid. (sid, a) \<in> set ?arcs"
        unfolding sp(2) by (cases p) (auto simp: P_def get_state_def, blast+)
    next
      assume "\<exists>sid. (sid, a) \<in> set ?arcs"
      then obtain sid where "owns r (Live sid) = Some a \<and> Live sid \<in> P \<or> owns r (Held sid) = Some a \<and> Held sid \<in> P"
        unfolding sp(2) by (auto simp: P_def get_state_def)
      then show "Some a \<in> owns r ` P" by (metis image_eqI)
    qed
    then show ?thesis using owned by (auto simp: image_iff) (metis snd_conv)+
  qed
  ultimately have "card P = card (snd ` set ?arcs)"
    by (metis card_image inj_Some inj_on_subset subset_UNIV)
  also have "\<dots> = length ?arcs" using distinct_card [OF sp(1)] by simp
  finally have card: "length (map ?snap ?arcs) = card P" by simp
  show ?thesis
    using take snaps sp(2) card [unfolded P_def] frame by (intro exI conjI allI) (assumption, simp only:, assumption, simp add: buf_at_def)
qed

theorem take_transcripts_exact_witness:
  "\<exists>out r'. take_transcripts_for_feature sample_registry ''crt-1'' = Some (out, r') \<and>
     (\<exists>snap. (''s'', snap) \<in> set out) \<and> \<not> (\<exists>snap. (''t'', snap) \<in> set out)"
proof -
  obtain out r' where o: "take_transcripts_for_feature sample_registry ''crt-1'' = Some (out, r')"
    "\<forall>sid snap. (sid, snap) \<in> set out \<longleftrightarrow>
       (\<exists>a. snapshot (buf_at (lock_buffer (store sample_registry) a) a) = Some snap \<and>
         ((\<exists>st. get_state sample_registry sid = Some st \<and> feature st = Some ''crt-1'' \<and> transcript st = a) \<or>
          (\<exists>hb. held_of (hold_handle sample_registry) sid = Some hb \<and> held_cycle hb = ''crt-1'' \<and> held_arc hb = a)))"
    using take_transcripts_exact [OF reg_inv_sample, of "''crt-1''"] by blast
  have "\<exists>s. snapshot (buf_at (lock_buffer (store sample_registry) 0) 0) = Some s"
    by (simp add: sample_registry_get buf_at_def snapshot_def buffer_new_def)
  then have "\<exists>snap. (''s'', snap) \<in> set out"
    unfolding o(2) [rule_format] by (intro exI [of _ 0] ex_comm [THEN iffD1])
      (auto simp: get_state_def sample_registry_get session_new_def)
  moreover have "\<not> (\<exists>snap. (''t'', snap) \<in> set out)"
    unfolding o(2) [rule_format] by (auto simp: get_state_def sample_registry_get session_new_def held_of_def hold_new_def)
  ultimately show ?thesis using o(1) by blast
qed

end
