(* ===== verification/Registry_Signals.thy ===== *)
theory Registry_Signals
  imports Registry_Props Complex_Main "HOL-Library.Multiset"
begin

text \<open>
  Co-access deduplication and eager attribution of the session registry, and a run in which
  the hand-over of a buffer to the held-buffer store loses another buffer without a record.
\<close>

section \<open>Co-access deduplication\<close>

text \<open>The answers to a sequence of \<open>check_and_insert_coaccess\<close> calls for one session.\<close>

fun coaccess_answers :: "session_registry \<Rightarrow> string \<Rightarrow> nat list list \<Rightarrow> bool list" where
  "coaccess_answers r sid [] = []"
| "coaccess_answers r sid (ids # rest) =
     (let (b, r') = check_and_insert_coaccess r sid ids in b # coaccess_answers r' sid rest)"

lemma sort_eq_iff_mset: "sort xs = sort ys \<longleftrightarrow> mset xs = mset ys"
  by (metis mset_sort properties_for_sort sorted_sort)

lemma coaccess_answers_nth:
  assumes "hm_get (sessions r) sid = Some st" and "i < length calls"
  shows "coaccess_answers r sid calls ! i \<longleftrightarrow>
    sort (calls ! i) \<notin> coaccess_seen st \<and> (\<forall>j<i. sort (calls ! j) \<noteq> sort (calls ! i))"
  using assms
proof (induction calls arbitrary: r st i)
  case (Cons ids rest)
  let ?st = "st\<lparr>coaccess_seen := insert (sort ids) (coaccess_seen st)\<rparr>"
  let ?r = "r\<lparr>sessions := hm_insert sid ?st (sessions r)\<rparr>"
  have eq: "coaccess_answers r sid (ids # rest) = (sort ids \<notin> coaccess_seen st) # coaccess_answers ?r sid rest"
    using Cons.prems(1) by (simp add: check_and_insert_coaccess_def Let_def)
  show ?case
  proof (cases i)
    case (Suc k)
    have "coaccess_answers ?r sid rest ! k \<longleftrightarrow>
        sort (rest ! k) \<notin> coaccess_seen ?st \<and> (\<forall>j<k. sort (rest ! j) \<noteq> sort (rest ! k))"
      using Cons.IH [of ?r ?st k] Cons.prems(2) Suc by simp
    then show ?thesis using Suc unfolding eq Suc All_less_Suc2 by auto
  next
    case 0
    show ?thesis unfolding eq 0 by simp
  qed
qed simp

text \<open>
  Co-access deduplication (col-007). For a registered session that has reported nothing
  yet, a call answers "new" exactly when no earlier call listed the same entries with the
  same multiplicities, in whatever order.
\<close>

theorem coaccess_new_exactly_once:
  assumes "get_state r sid = Some st" and "coaccess_seen st = {}" and "i < length calls"
  shows "coaccess_answers r sid calls ! i \<longleftrightarrow> (\<forall>j<i. mset (calls ! j) \<noteq> mset (calls ! i))"
  using coaccess_answers_nth [OF _ assms(3)] assms(1,2) by (simp add: get_state_def sort_eq_iff_mset)

theorem coaccess_new_exactly_once_witness:
  "\<not> coaccess_answers sample_registry ''s'' [[3, 1], [2], [1, 3]] ! 2"
proof -
  have "get_state sample_registry ''s'' = Some (session_new ''s'' None (Some ''crt-1'') 5 0)"
    by (simp add: get_state_def sample_registry_get)
  from coaccess_new_exactly_once [OF this, of 2 "[[3, 1], [2], [1, 3]]"] show ?thesis
    by (auto simp: session_new_def intro!: exI [of _ 0])
qed

section \<open>Eager attribution\<close>

text \<open>
  The share test of the source is on \<open>f64\<close>: the counts are converted exactly, the quotient and
  the literal 0.6 are rounded. Whatever the rounding, as long as it is monotone and within a
  relative error of 2^-53, comparing the rounded values is comparing the exact ones for all
  32-bit counts.
\<close>

lemma share_test_exact:
  fixes rnd :: "real \<Rightarrow> real"
  assumes mono: "mono rnd" and err: "\<And>x. \<bar>rnd x - x\<bar> \<le> \<bar>x\<bar> / 2 ^ 53"
    and "0 < t" and "t \<le> u32_max" and "c \<le> t"
  shows "rnd (3 / 5) < rnd (real c / real t) \<longleftrightarrow> share_above_60 c t"
proof
  assume "share_above_60 c t"
  then have "3 * t + 1 \<le> 5 * c" by (simp add: share_above_60_def)
  then have "3 * real t + 1 \<le> 5 * real c" by linarith
  then have "(3 * real t + 1) / (5 * real t) \<le> 5 * real c / (5 * real t)" by (rule divide_right_mono) simp
  then have gap: "3 / 5 + 1 / (5 * real t) \<le> real c / real t" using \<open>0 < t\<close> by (simp add: add_divide_distrib)
  have "real t \<le> 4294967295" using \<open>t \<le> u32_max\<close> by (simp add: u32_max_def)
  then have small: "1 / 21474836475 \<le> 1 / (5 * real t)" using \<open>0 < t\<close> by (simp add: field_simps)
  define q where "q = real c / real t"
  have q: "0 \<le> q" "q \<le> 1" using \<open>c \<le> t\<close> \<open>0 < t\<close> by (simp_all add: q_def)
  have "rnd (3 / 5) - 3 / 5 \<le> (3 / 5) / 2 ^ 53"
    using order_trans [OF abs_ge_self err [of "3 / 5"]] by simp
  moreover have "- (rnd q - q) \<le> q / 2 ^ 53"
    using order_trans [OF abs_ge_minus_self err [of q]] q(1) by simp
  moreover have "q / 2 ^ 53 \<le> 1 / 2 ^ 53" using q(2) by (rule divide_right_mono) simp
  moreover have "(3 / 5) / 2 ^ 53 + 1 / 2 ^ 53 < (1 / 21474836475 :: real)" by simp
  ultimately show "rnd (3 / 5) < rnd (real c / real t)"
    using gap small unfolding q_def [symmetric] by linarith
next
  assume less: "rnd (3 / 5) < rnd (real c / real t)"
  have "\<not> real c / real t \<le> 3 / 5" using monoD [OF mono, of "real c / real t" "3 / 5"] less by auto
  then have "3 * real t < 5 * real c" using \<open>0 < t\<close> by (simp add: field_simps)
  then show "share_above_60 c t" unfolding share_above_60_def by linarith
qed

lemma leader_props:
  "leader m = None \<longleftrightarrow> m = []"
  "leader m = Some (k, t) \<Longrightarrow> (k, t) \<in> set m \<and> (\<forall>(k', t') \<in> set m. tally_count t' \<le> tally_count t)"
proof (induction m arbitrary: k t)
  case (Cons x m)
  { case 1
    show ?case by (simp split: option.split)
  next
    case 2
    then show ?case
      using Cons.IH(2) Cons.IH(1) by (cases "leader m") (fastforce split: if_splits)+
  }
qed simp_all

lemma fold_sat_add_u32:
  "acc + sum_list ns \<le> u32_max \<Longrightarrow> fold (\<lambda>v acc. sat_add_u32 acc v) ns acc = acc + sum_list ns"
  by (induction ns arbitrary: acc) (simp_all add: sat_add_u32_def add.assoc)

definition total_votes :: "session_state \<Rightarrow> nat" where
  "total_votes st = sum_list (map (tally_count \<circ> snd) (topic_signals st))"

lemma two_votes:
  assumes "hm_ok m" and "hm_get m k = Some t" and "hm_get m k' = Some t'" and "k \<noteq> k'"
  shows "tally_count t + tally_count t' \<le> sum_list (map (tally_count \<circ> snd) m)"
proof -
  have mem: "(k, t) \<in> set m" "(k', t') \<in> set (remove1 (k, t) m)"
    using assms hm_values [OF assms(1)] by (auto simp: in_set_remove1)
  have "tally_count t' \<le> sum_list (map (tally_count \<circ> snd) (remove1 (k, t) m))"
    using mem(2) member_le_sum_list [of "tally_count t'"] by force
  then show ?thesis using sum_list_map_remove1 [OF mem(1), of "tally_count \<circ> snd"] by simp
qed

text \<open>
  Eager attribution (\#198). For a session whose votes add up within 32 bits, a topic is
  attributed exactly when the session has no feature yet and the topic has at least three
  votes and more than 60 percent of all votes; at most one topic can, so the iteration order
  of the hash map does not matter.
\<close>

theorem eager_attribution_exact:
  assumes "reg_inv n r" and "get_state r sid = Some st" and "total_votes st \<le> u32_max"
  shows "check_eager_attribution r sid = Some k \<longleftrightarrow>
    feature st = None \<and> (\<exists>t. hm_get (topic_signals st) k = Some t \<and> 3 \<le> tally_count t \<and>
      3 * total_votes st < 5 * tally_count t)" (is "?l \<longleftrightarrow> ?r")
proof -
  let ?m = "topic_signals st"
  have ok: "hm_ok ?m" using reg_invD(2) [OF assms(1)] assms(2) by (auto simp: get_state_def session_ok_def)
  have tot: "fold (\<lambda>v acc. sat_add_u32 acc v) (map (tally_count \<circ> snd) ?m) 0 = total_votes st"
    using fold_sat_add_u32 [of 0 "map (tally_count \<circ> snd) ?m"] assms(3) by (simp add: total_votes_def)
  have eq: "?l \<longleftrightarrow> feature st = None \<and> (\<exists>t. leader ?m = Some (k, t) \<and> 3 \<le> tally_count t \<and> 3 * total_votes st < 5 * tally_count t)"
    using assms(2) tot leader_props(1) [of ?m]
    by (auto simp: check_eager_attribution_def get_state_def share_above_60_def Let_def split: option.splits if_splits)
  have "leader ?m = Some (k, t) \<longleftrightarrow> hm_get ?m k = Some t" if big: "3 * total_votes st < 5 * tally_count t" for t
  proof
    assume "leader ?m = Some (k, t)"
    then show "hm_get ?m k = Some t" using leader_props(2) hm_values [OF ok] by blast
  next
    assume k: "hm_get ?m k = Some t"
    then obtain k' t' where l: "leader ?m = Some (k', t')" using leader_props(1) by (cases "leader ?m") auto
    have k': "hm_get ?m k' = Some t'" and ge: "tally_count t \<le> tally_count t'"
      using leader_props(2) [OF l] hm_values [OF ok] k by blast+
    have "k' = k"
    proof (rule ccontr)
      assume "k' \<noteq> k"
      from two_votes [OF ok k k'] this ge big show False by (simp add: total_votes_def)
    qed
    with l k k' show "leader ?m = Some (k, t)" by simp
  qed
  then show ?thesis unfolding eq by blast
qed

theorem eager_attribution_exact_witness:
  "\<exists>r. check_eager_attribution r ''t'' = Some ''crt-2'' \<and>
     run_steps registry_step sample_registry
       [TopicSignal ''t'' ''crt-2'' 9, TopicSignal ''t'' ''crt-2'' 9, TopicSignal ''t'' ''a'' 9, TopicSignal ''t'' ''crt-2'' 10] = Some r"
proof -
  let ?es = "[TopicSignal ''t'' ''crt-2'' 9, TopicSignal ''t'' ''crt-2'' 9, TopicSignal ''t'' ''a'' 9, TopicSignal ''t'' ''crt-2'' 10]"
  obtain r where run: "run_steps registry_step sample_registry ?es = Some r" by simp
  have inv: "reg_inv 0 r" using registry.run_ok [OF reg_inv_sample, of ?es] run by simp
  obtain st where st: "get_state r ''t'' = Some st" "feature st = None"
    "topic_signals st = [(''crt-2'', \<lparr>tally_count = 3, tally_last_seen = 10\<rparr>), (''a'', \<lparr>tally_count = 1, tally_last_seen = 9\<rparr>)]"
    using run by (auto simp: record_topic_signal_def with_session_def get_state_def sample_registry_get session_new_def
        sat_add_u32_def u32_max_def)
  have "check_eager_attribution r ''t'' = Some ''crt-2''"
    using eager_attribution_exact [OF inv st(1), of "''crt-2''"] st(2,3) by (simp add: total_votes_def u32_max_def)
  with run show ?thesis by blast
qed

section \<open>A silent loss in the hand-over\<close>

text \<open>The sample registry after two bytes for the first session.\<close>

lemma sample_sessions:
  "sessions sample_registry = [(''s'', session_new ''s'' None (Some ''crt-1'') 5 0), (''t'', session_new ''t'' None None 5 1)]"
  by (simp add: sample_registry_defs)

lemma sample_delta:
  "\<exists>b. apply_transcript_delta sample_registry 6 6 ''s'' 0 [7, 8] = Some (sample_registry\<lparr>
       sessions := hm_insert ''s'' (session_new ''s'' None (Some ''crt-1'') 6 0) (sessions sample_registry),
       store := set_cell 0 \<lparr>poisoned = False, buf = b\<rparr> (store sample_registry)\<rparr>) \<and> data b = [7, 8]"
  by (rule exI [of _ "the (apply_delta (buffer_new 64 scanner_empty) 0 [7, 8])"])
    (simp add: apply_transcript_delta_def route_delta_def session_key_def sample_registry_get session_new_def
      heap_apply_delta_def lock_buffer_def buf_at_def apply_delta_def buffer_new_def checked_add_u64_def u64_max_def
      merge_delta_def clip_to_floor_def extend_span_def sat_add_u64_def resize_def write_span_def splice_def
      subtract_range_from_holes_def MAX_HOLE_RANGES_def fold_activity_def counters_fold_def scan_def scanner_empty_def Let_def)

text \<open>
  Holding a drained session whose id is already held drops the buffer that was held
  before without a purge record: a session is drained under its cycle, registers again
  without a feature (which leaves the held buffer in place), is stamped with the cycle and
  drained again. The two received bytes of the first turn are then reachable from no session
  and no audit event was emitted and no purge record returned, although the module states
  that every such loss is audited.
\<close>

theorem drain_overwrites_held_silently:
  "\<exists>r x. drain_and_signal_session
       (apply_stamp (register_session (snd (drain_and_signal_session
          (the (apply_transcript_delta sample_registry 6 6 ''s'' 0 [7, 8])) 7 ''s'' ''success'')) 8 ''s'' None None) ''s'' ''crt-1'')
       9 ''s'' ''success'' = (Some (x, None), r) \<and>
     data (buf_at (store r) 0) = [7, 8] \<and> \<not> (\<exists>p. owns r p = Some 0) \<and> audit_log r = []"
proof -
  obtain b where r1: "apply_transcript_delta sample_registry 6 6 ''s'' 0 [7, 8] = Some (sample_registry\<lparr>
       sessions := hm_insert ''s'' (session_new ''s'' None (Some ''crt-1'') 6 0) (sessions sample_registry),
       store := set_cell 0 \<lparr>poisoned = False, buf = b\<rparr> (store sample_registry)\<rparr>)" and b: "data b = [7, 8]"
    using sample_delta by blast
  let ?h = "set_cell 0 \<lparr>poisoned = False, buf = b\<rparr> (store sample_registry)"
  let ?m = "hm_remove ''s'' (hm_insert ''s'' (session_new ''s'' None (Some ''crt-1'') 6 0) (sessions sample_registry))"
  define r2 where "r2 = sample_registry\<lparr>sessions := ?m, store := ?h, hold_handle :=
    Some \<lparr>held = [(''s'', \<lparr>held_arc = 0, held_cycle = ''crt-1'', held_activity_at = 7\<rparr>)], max_sessions = 2\<rparr>\<rparr>"
  have audit: "audit_log sample_registry = []" "next_arc (store sample_registry) = 2" by (simp_all add: sample_registry_defs)
  have "snd (drain_and_signal_session (the (apply_transcript_delta sample_registry 6 6 ''s'' 0 [7, 8])) 7 ''s'' ''success'') = r2"
    unfolding r1 r2_def
    by (simp add: drain_and_signal_session_def release_transcript_def sample_registry_get hold_on_drain_def hold_new_def
        session_new_def enforce_cap.simps audit)
  moreover have "\<exists>r x. drain_and_signal_session (apply_stamp (register_session r2 8 ''s'' None None) ''s'' ''crt-1'') 9 ''s'' ''success'' =
      (Some (x, None), r) \<and> data (buf_at (store r) 0) = [7, 8] \<and> audit_log r = [] \<and>
      sessions r = [(''t'', session_new ''t'' None None 5 1)] \<and>
      hold_handle r = Some \<lparr>held = [(''s'', \<lparr>held_arc = 2, held_cycle = ''crt-1'', held_activity_at = 9\<rparr>)], max_sessions = 2\<rparr>"
    by (simp add: r2_def register_session_def acquire_transcript_def fresh_transcript_def arc_new_def apply_stamp_def
        with_session_def drain_and_signal_session_def release_transcript_def hold_on_drain_def session_new_def
        enforce_cap.simps audit sample_sessions b buf_at_def set_cell_def)
  moreover have "owns r p \<noteq> Some 0" if "sessions r = [(''t'', session_new ''t'' None None 5 1)]" "hold_handle r =
      Some \<lparr>held = [(''s'', \<lparr>held_arc = 2, held_cycle = ''crt-1'', held_activity_at = 9\<rparr>)], max_sessions = 2\<rparr>" for r p
    using that by (cases p) (auto simp: held_of_def session_new_def)
  ultimately show ?thesis by (metis (no_types, lifting))
qed

end
