(* ===== verification/Usage_Dedup.thy ===== *)
theory Usage_Dedup
  imports Prelude
begin

text \<open>
  Session deduplication of usage counters: \<open>infra/usage_dedup.rs\<close>, and the vote batches that
  \<open>record_mcp_usage\<close> of \<open>services/usage.rs\<close> derives from its answers.

  The sets are only tested and extended, so they are sets; the vote map is only looked up
  and updated, so it is a partial map. The mutex recovers from poison without touching the
  state.
\<close>

section \<open>Model\<close>

datatype vote_action = NewVote | CorrectedVote | NoOp

record dedup_state =
  access_counted :: "(string \<times> nat) set"
  vote_recorded :: "(string \<times> nat) \<Rightarrow> bool option"
  co_access_recorded :: "(nat \<times> nat) set"

definition dedup_new :: dedup_state where
  "dedup_new = \<lparr>access_counted = {}, vote_recorded = Map.empty, co_access_recorded = {}\<rparr>"

fun filter_access :: "dedup_state \<Rightarrow> string \<Rightarrow> nat list \<Rightarrow> nat list \<times> dedup_state" where
  "filter_access st agent_id [] = ([], st)"
| "filter_access st agent_id (i # entry_ids) =
     (if (agent_id, i) \<in> access_counted st then filter_access st agent_id entry_ids
      else (let (result, st') = filter_access (st\<lparr>access_counted := insert (agent_id, i) (access_counted st)\<rparr>)
              agent_id entry_ids
            in (i # result, st')))"

fun filter_co_access_pairs :: "dedup_state \<Rightarrow> (nat \<times> nat) list \<Rightarrow> (nat \<times> nat) list \<times> dedup_state" where
  "filter_co_access_pairs st [] = ([], st)"
| "filter_co_access_pairs st (p # pairs) =
     (if p \<in> co_access_recorded st then filter_co_access_pairs st pairs
      else (let (result, st') = filter_co_access_pairs (st\<lparr>co_access_recorded := insert p (co_access_recorded st)\<rparr>) pairs
            in (p # result, st')))"

fun check_votes :: "dedup_state \<Rightarrow> string \<Rightarrow> nat list \<Rightarrow> bool \<Rightarrow> (nat \<times> vote_action) list \<times> dedup_state" where
  "check_votes st agent_id [] helpful = ([], st)"
| "check_votes st agent_id (i # entry_ids) helpful =
     (let key = (agent_id, i);
          record_vote = st\<lparr>vote_recorded := (vote_recorded st)(key \<mapsto> helpful)\<rparr>;
          (action, st1) = (case vote_recorded st key of
              None \<Rightarrow> (NewVote, record_vote)
            | Some prior \<Rightarrow> if prior = helpful then (NoOp, st) else (CorrectedVote, record_vote));
          (result, st2) = check_votes st1 agent_id entry_ids helpful
      in ((i, action) # result, st2))"

text \<open>Step 2 of \<open>record_mcp_usage\<close>: which counters the store increments and decrements.\<close>

record vote_batches =
  helpful_ids :: "nat list"
  unhelpful_ids :: "nat list"
  decrement_helpful_ids :: "nat list"
  decrement_unhelpful_ids :: "nat list"

definition push_vote :: "bool \<Rightarrow> nat \<times> vote_action \<Rightarrow> vote_batches \<Rightarrow> vote_batches" where
  "push_vote helpful_value ia b =
     (case ia of
        (i, NewVote) \<Rightarrow>
          if helpful_value then b\<lparr>helpful_ids := helpful_ids b @ [i]\<rparr>
          else b\<lparr>unhelpful_ids := unhelpful_ids b @ [i]\<rparr>
      | (i, CorrectedVote) \<Rightarrow>
          if helpful_value then b\<lparr>helpful_ids := helpful_ids b @ [i],
            decrement_unhelpful_ids := decrement_unhelpful_ids b @ [i]\<rparr>
          else b\<lparr>unhelpful_ids := unhelpful_ids b @ [i],
            decrement_helpful_ids := decrement_helpful_ids b @ [i]\<rparr>
      | (i, NoOp) \<Rightarrow> b)"

definition vote_lists :: "bool \<Rightarrow> (nat \<times> vote_action) list \<Rightarrow> vote_batches" where
  "vote_lists helpful_value actions = fold (push_vote helpful_value) actions
     \<lparr>helpful_ids = [], unhelpful_ids = [], decrement_helpful_ids = [], decrement_unhelpful_ids = []\<rparr>"

section \<open>Each agent counts an entry once\<close>

text \<open>The answers to a sequence of calls, tagged with the agent.\<close>

fun access_answers :: "dedup_state \<Rightarrow> (string \<times> nat list) list \<Rightarrow> (string \<times> nat) list" where
  "access_answers st [] = []"
| "access_answers st ((agent, ids) # calls) =
     (let (res, st') = filter_access st agent ids in map (Pair agent) res @ access_answers st' calls)"

lemma filter_access_spec:
  "filter_access st agent ids = (res, st') \<Longrightarrow>
   distinct res \<and> set res = {i \<in> set ids. (agent, i) \<notin> access_counted st} \<and>
   access_counted st' = access_counted st \<union> Pair agent ` set ids"
proof (induction ids arbitrary: st res)
  case (Cons i ids)
  show ?case
  proof (cases "(agent, i) \<in> access_counted st")
    case True
    with Cons.prems Cons.IH [of st res] show ?thesis by auto
  next
    case False
    let ?st = "st\<lparr>access_counted := insert (agent, i) (access_counted st)\<rparr>"
    obtain res1 where f: "filter_access ?st agent ids = (res1, st')" and res: "res = i # res1"
      using Cons.prems False by (cases "filter_access ?st agent ids") auto
    from Cons.IH [OF f] False show ?thesis by (auto simp: res)
  qed
qed simp

lemma access_answers_spec:
  "distinct (access_answers st calls) \<and>
   set (access_answers st calls) = {(a, i). (\<exists>ids. (a, ids) \<in> set calls \<and> i \<in> set ids) \<and> (a, i) \<notin> access_counted st}"
proof (induction st calls rule: access_answers.induct)
  case (2 st agent ids calls)
  obtain res st' where f: "filter_access st agent ids = (res, st')" by fastforce
  note p = filter_access_spec [OF f]
  have IH: "distinct (access_answers st' calls)"
    "set (access_answers st' calls) = {(a, i). (\<exists>ids. (a, ids) \<in> set calls \<and> i \<in> set ids) \<and> (a, i) \<notin> access_counted st'}"
    using "2.IH" [OF f [symmetric] refl] by auto
  show ?case using p IH f by (auto simp: distinct_map inj_on_def)
qed simp

text \<open>
  Access counters are incremented at most once per agent and entry: over any sequence of
  \<open>filter_access\<close> calls on a new tracker, the pairs of agent and entry that are answered are
  pairwise distinct and are exactly the pairs that were asked for.
\<close>

theorem access_counted_once:
  "distinct (access_answers dedup_new calls) \<and>
   set (access_answers dedup_new calls) = {(a, i). \<exists>ids. (a, ids) \<in> set calls \<and> i \<in> set ids}"
  using access_answers_spec [of dedup_new calls] by (simp add: dedup_new_def)

section \<open>Votes: the last one wins\<close>

definition voters :: "dedup_state \<Rightarrow> bool \<Rightarrow> nat \<Rightarrow> string set" where
  "voters st helpful e = {agent. vote_recorded st (agent, e) = Some helpful}"

text \<open>The net change of the two counters of an entry that a batch asks the store for.\<close>

definition net_helpful :: "vote_batches \<Rightarrow> nat \<Rightarrow> int" where
  "net_helpful b e = int (count_list (helpful_ids b) e) - int (count_list (decrement_helpful_ids b) e)"

definition net_unhelpful :: "vote_batches \<Rightarrow> nat \<Rightarrow> int" where
  "net_unhelpful b e = int (count_list (unhelpful_ids b) e) - int (count_list (decrement_unhelpful_ids b) e)"

definition action_net :: "bool \<Rightarrow> bool \<Rightarrow> vote_action \<Rightarrow> int" where
  "action_net helpful side a = (case a of NewVote \<Rightarrow> if helpful = side then 1 else 0
     | CorrectedVote \<Rightarrow> if helpful = side then 1 else -1 | NoOp \<Rightarrow> 0)"

lemma fold_push_vote:
  "net_helpful (fold (push_vote h) acts b) e =
     net_helpful b e + (\<Sum>(i, a) \<leftarrow> acts. if i = e then action_net h True a else 0)"
  "net_unhelpful (fold (push_vote h) acts b) e =
     net_unhelpful b e + (\<Sum>(i, a) \<leftarrow> acts. if i = e then action_net h False a else 0)"
proof (induction acts arbitrary: b)
  case (Cons x acts)
  obtain i a where x: "x = (i, a)" by fastforce
  have nh: "net_helpful (push_vote h x b) e = net_helpful b e + (if i = e then action_net h True a else 0)"
    and nu: "net_unhelpful (push_vote h x b) e = net_unhelpful b e + (if i = e then action_net h False a else 0)" for b
    by (cases a; simp add: x push_vote_def net_helpful_def net_unhelpful_def action_net_def)+
  { case 1
    show ?case using Cons.IH(1) [of "push_vote h x b"] nh [of b] by (auto simp: x)
  next
    case 2
    show ?case using Cons.IH(2) [of "push_vote h x b"] nu [of b] by (auto simp: x)
  }
qed simp_all

definition action_of :: "bool option \<Rightarrow> bool \<Rightarrow> vote_action" where
  "action_of prior h = (case prior of None \<Rightarrow> NewVote | Some p \<Rightarrow> if p = h then NoOp else CorrectedVote)"

text \<open>Whatever the branch, the vote recorded afterwards is the new one.\<close>

lemma check_votes_Cons:
  "check_votes st agent (i # ids) h =
     (case check_votes (st\<lparr>vote_recorded := (vote_recorded st)((agent, i) \<mapsto> h)\<rparr>) agent ids h of
        (res, st2) \<Rightarrow> ((i, action_of (vote_recorded st (agent, i)) h) # res, st2))"
proof (cases "vote_recorded st (agent, i) = Some h")
  case True
  then have "(vote_recorded st)((agent, i) \<mapsto> h) = vote_recorded st" by (rule map_upd_triv)
  then show ?thesis using True by (simp add: action_of_def)
next
  case False
  then show ?thesis by (auto simp: action_of_def Let_def split: option.splits)
qed

lemma check_votes_spec:
  assumes "check_votes st agent ids h = (acts, st')" and "finite (dom (vote_recorded st))"
  shows "(\<Sum>(i, a) \<leftarrow> acts. if i = e then action_net h side a else 0) =
      int (card (voters st' side e)) - int (card (voters st side e)) \<and>
    finite (dom (vote_recorded st')) \<and>
    vote_recorded st' = (\<lambda>k. if fst k = agent \<and> snd k \<in> set ids then Some h else vote_recorded st k)"
  using assms
proof (induction ids arbitrary: st acts)
  case Nil
  then show ?case by auto
next
  case (Cons i ids)
  define act where "act = action_of (vote_recorded st (agent, i)) h"
  define st1 where "st1 = st\<lparr>vote_recorded := (vote_recorded st)((agent, i) \<mapsto> h)\<rparr>"
  obtain res where c: "check_votes st1 agent ids h = (res, st')" and acts: "acts = (i, act) # res"
    using Cons.prems(1) unfolding check_votes_Cons st1_def [symmetric] act_def [symmetric]
    by (cases "check_votes st1 agent ids h") auto
  have fin1: "finite (dom (vote_recorded st1))" using Cons.prems(2) by (simp add: st1_def)
  note IH = Cons.IH [OF c fin1]
  have "voters st side e \<subseteq> fst ` dom (vote_recorded st)" by (force simp: voters_def)
  then have fin: "finite (voters st side e)" using Cons.prems(2) by (meson finite_imageI finite_subset)
  have v1: "voters st1 side e = (if i \<noteq> e then voters st side e else if side = h then insert agent (voters st side e)
      else voters st side e - {agent})"
    by (auto simp: voters_def st1_def)
  have "(if i = e then action_net h side act else 0) = int (card (voters st1 side e)) - int (card (voters st side e))"
  proof (cases "i = e")
    case True
    show ?thesis
    proof (cases "vote_recorded st (agent, e)")
      case None
      then have "agent \<notin> voters st side e" by (simp add: voters_def)
      then show ?thesis using True None fin by (simp add: v1 act_def action_of_def action_net_def)
    next
      case (Some p)
      then have "agent \<in> voters st side e \<longleftrightarrow> p = side" by (simp add: voters_def)
      moreover have "agent \<in> voters st side e \<Longrightarrow> 0 < card (voters st side e)" using fin by (auto simp: card_gt_0_iff)
      ultimately show ?thesis unfolding v1 using True Some fin
        by (cases "p = h"; cases "side = h") (auto simp: act_def action_of_def action_net_def insert_absorb card_Diff_singleton)
    qed
  qed (simp add: v1)
  then show ?case using IH by (auto simp: acts st1_def fun_eq_iff)
qed

text \<open>A sequence of votes: the batches sent to the store and the tracker afterwards.\<close>

fun vote_run :: "dedup_state \<Rightarrow> (string \<times> nat list \<times> bool) list \<Rightarrow> vote_batches list \<times> dedup_state" where
  "vote_run st [] = ([], st)"
| "vote_run st ((agent, ids, h) # calls) =
     (let (acts, st1) = check_votes st agent ids h; (bs, st2) = vote_run st1 calls
      in (vote_lists h acts # bs, st2))"

text \<open>The last vote of an agent on an entry in a sequence of calls.\<close>

fun last_vote :: "(string \<times> nat list \<times> bool) list \<Rightarrow> string \<Rightarrow> nat \<Rightarrow> bool option" where
  "last_vote [] agent e = None"
| "last_vote ((a, ids, h) # calls) agent e =
     (case last_vote calls agent e of Some v \<Rightarrow> Some v | None \<Rightarrow> if a = agent \<and> e \<in> set ids then Some h else None)"

lemma vote_lists_net:
  "net_helpful (vote_lists h acts) e = (\<Sum>(i, a) \<leftarrow> acts. if i = e then action_net h True a else 0)"
  "net_unhelpful (vote_lists h acts) e = (\<Sum>(i, a) \<leftarrow> acts. if i = e then action_net h False a else 0)"
  unfolding vote_lists_def fold_push_vote by (simp_all add: net_helpful_def net_unhelpful_def)

lemma vote_run_spec:
  "vote_run st calls = (bs, st') \<Longrightarrow> finite (dom (vote_recorded st)) \<Longrightarrow>
   (\<Sum>b \<leftarrow> bs. net_helpful b e) = int (card (voters st' True e)) - int (card (voters st True e)) \<and>
   (\<Sum>b \<leftarrow> bs. net_unhelpful b e) = int (card (voters st' False e)) - int (card (voters st False e)) \<and>
   (\<forall>agent. vote_recorded st' (agent, e) =
      (case last_vote calls agent e of Some v \<Rightarrow> Some v | None \<Rightarrow> vote_recorded st (agent, e)))"
proof (induction st calls arbitrary: bs rule: vote_run.induct)
  case (2 st agent ids h calls)
  obtain acts st1 where c: "check_votes st agent ids h = (acts, st1)" by fastforce
  obtain bs1 where r: "vote_run st1 calls = (bs1, st')" and bs: "bs = vote_lists h acts # bs1"
    using "2.prems"(1) c by (cases "vote_run st1 calls") auto
  note sp = check_votes_spec [OF c "2.prems"(2)]
  from sp have fin: "finite (dom (vote_recorded st1))" by blast
  note IH = "2.IH" [OF c [symmetric] refl r fin]
  have "(\<Sum>b \<leftarrow> bs. net_helpful b e) = int (card (voters st' True e)) - int (card (voters st True e))"
    using IH sp [of e True] by (simp add: bs vote_lists_net)
  moreover have "(\<Sum>b \<leftarrow> bs. net_unhelpful b e) = int (card (voters st' False e)) - int (card (voters st False e))"
    using IH sp [of e False] by (simp add: bs vote_lists_net)
  moreover have "vote_recorded st1 = (\<lambda>k. if fst k = agent \<and> snd k \<in> set ids then Some h else vote_recorded st k)"
    using sp by blast
  ultimately show ?case using IH by (auto split: option.splits)
qed simp

text \<open>
  Vote correction (last vote wins). After any sequence of votes on a new tracker, the
  increments minus the decrements that the batches ask of the helpful counter of an entry
  are exactly the number of agents whose last vote on it was helpful, and likewise for the
  unhelpful counter: a repeated vote counts once and a changed vote moves.
\<close>

theorem votes_last_one_wins:
  "case vote_run dedup_new calls of (bs, st') \<Rightarrow>
     (\<Sum>b \<leftarrow> bs. net_helpful b e) = int (card {agent. last_vote calls agent e = Some True}) \<and>
     (\<Sum>b \<leftarrow> bs. net_unhelpful b e) = int (card {agent. last_vote calls agent e = Some False})"
proof -
  obtain bs st' where r: "vote_run dedup_new calls = (bs, st')" by fastforce
  note sp = vote_run_spec [OF r, of e]
  have fin: "finite (dom (vote_recorded dedup_new))" by (simp add: dedup_new_def)
  have rec: "vote_recorded st' (agent, e) = last_vote calls agent e" for agent
    using sp [OF fin] by (simp add: dedup_new_def split: option.splits)
  have "voters st' side e = {agent. last_vote calls agent e = Some side}" "voters dedup_new side e = {}" for side
    by (simp_all add: voters_def rec dedup_new_def)
  then show ?thesis using sp [OF fin] by (simp add: r)
qed

end
