(* ===== verification/Entry_Schema.thy ===== *)
theory Entry_Schema
  imports Prelude "HOL-Library.Word"
begin

text \<open>
  The record types of the knowledge store that the chain verifier and the relation graph
  read: \<open>unimatrix-store/src/schema.rs\<close>. Unsigned integers are natural numbers, the status
  byte is an 8-bit word, and floating-point values that are only copied are kept as their
  IEEE bit patterns.
\<close>

section \<open>Status\<close>

datatype status = Active | Deprecated | Proposed | Quarantined

text \<open>
  \<open>StoreError\<close>: a boxed error is its displayed text, and the elapsed time of a pool
  timeout its rendering in seconds with three decimals.
\<close>

datatype pool_kind = ReadPool | WritePool

datatype store_error =
  EntryNotFound nat
| Database string
| OpenFailed string
| InvalidPoolConfig string
| PoolTimeout pool_kind string
| Migration string
| DrainTaskPanic
| Serialization string
| Deserialization string
| InvalidStatus "8 word"
| InvalidInput string string
| SchemaTooNew nat nat

text \<open>Decimal rendering of an unsigned integer, as Rust's formatter prints it.\<close>

fun show_nat :: "nat \<Rightarrow> string" where
  "show_nat n = (if n < 10 then [char_of (48 + n)] else show_nat (n div 10) @ [char_of (48 + n mod 10)])"

definition pool_kind_display :: "pool_kind \<Rightarrow> string" where
  "pool_kind_display k = (case k of ReadPool \<Rightarrow> ''read'' | WritePool \<Rightarrow> ''write'')"

fun store_error_display :: "store_error \<Rightarrow> string" where
  "store_error_display (EntryNotFound i) = ''entry not found: '' @ show_nat i"
| "store_error_display (Database e) = ''database error: '' @ e"
| "store_error_display (OpenFailed e) = ''database open failed: '' @ e"
| "store_error_display (InvalidPoolConfig reason) = ''invalid pool config: '' @ reason"
| "store_error_display (PoolTimeout pool elapsed) = pool_kind_display pool @ '' pool acquire timeout after '' @ elapsed @ ''s''"
| "store_error_display (Migration src) = ''migration failed: '' @ src"
| "store_error_display DrainTaskPanic = ''analytics drain task panicked''"
| "store_error_display (Serialization msg) = ''serialization error: '' @ msg"
| "store_error_display (Deserialization msg) = ''deserialization error: '' @ msg"
| "store_error_display (InvalidStatus b) = ''invalid status byte: '' @ show_nat (unat b)"
| "store_error_display (InvalidInput field reason) =
     ''invalid input for '' @ [CHR 0x27] @ field @ [CHR 0x27] @ '': '' @ reason"
| "store_error_display (SchemaTooNew database_version binary_version) =
     ''database schema version ('' @ show_nat database_version @ '') is newer than this binary supports ('' @
     show_nat binary_version @ ''); upgrade unimatrix or restore a backup''"

definition status_as_u8 :: "status \<Rightarrow> 8 word" where
  "status_as_u8 s = (case s of Active \<Rightarrow> 0 | Deprecated \<Rightarrow> 1 | Proposed \<Rightarrow> 2 | Quarantined \<Rightarrow> 3)"

definition status_try_from :: "8 word \<Rightarrow> store_error + status" where
  "status_try_from value_byte =
     (if value_byte = 0 then Inr Active
      else if value_byte = 1 then Inr Deprecated
      else if value_byte = 2 then Inr Proposed
      else if value_byte = 3 then Inr Quarantined
      else Inl (InvalidStatus value_byte))"

definition status_display :: "status \<Rightarrow> string" where
  "status_display s = (case s of Active \<Rightarrow> ''Active'' | Deprecated \<Rightarrow> ''Deprecated''
     | Proposed \<Rightarrow> ''Proposed'' | Quarantined \<Rightarrow> ''Quarantined'')"

definition status_counter_key :: "status \<Rightarrow> string" where
  "status_counter_key s = (case s of Active \<Rightarrow> ''total_active'' | Deprecated \<Rightarrow> ''total_deprecated''
     | Proposed \<Rightarrow> ''total_proposed'' | Quarantined \<Rightarrow> ''total_quarantined'')"

section \<open>Entries\<close>

record entry_record =
  eid :: nat
  title :: string
  content :: string
  topic :: string
  category :: string
  tags :: "string list"
  source :: string
  status :: status
  confidence :: "64 word"
  created_at :: nat
  updated_at :: nat
  last_accessed_at :: nat
  access_count :: nat
  supersedes :: "nat option"
  superseded_by :: "nat option"
  correction_count :: nat
  embedding_dim :: nat
  created_by :: string
  modified_by :: string
  content_hash :: string
  previous_hash :: string
  version :: nat
  feature_cycle :: string
  trust_source :: string
  helpful_count :: nat
  unhelpful_count :: nat
  pre_quarantine_status :: "(8 word) option"

text \<open>A record with every field at the default value of its type, for concrete inputs.\<close>

definition blank_entry :: entry_record where
  "blank_entry = \<lparr>eid = 0, title = [], content = [], topic = [], category = [], tags = [], source = [],
     status = Active, confidence = 0, created_at = 0, updated_at = 0, last_accessed_at = 0,
     access_count = 0, supersedes = None, superseded_by = None, correction_count = 0,
     embedding_dim = 0, created_by = [], modified_by = [], content_hash = [], previous_hash = [],
     version = 0, feature_cycle = [], trust_source = [], helpful_count = 0, unhelpful_count = 0,
     pre_quarantine_status = None\<rparr>"

lemmas blank_entry_simps [simp] = blank_entry_def

definition co_access_key :: "nat \<Rightarrow> nat \<Rightarrow> nat \<times> nat" where
  "co_access_key a b = (if a \<le> b then (a, b) else (b, a))"

section \<open>Laws\<close>

lemma byte_cases: "4 \<le> b \<or> b = 0 \<or> b = 1 \<or> b = 2 \<or> b = (3 :: 8 word)"
proof -
  have "unat b \<in> {0, 1, 2, 3} \<or> 4 \<le> unat b" by auto
  moreover have "b = 0" if "unat b = 0" using that by (simp add: unat_eq_0)
  moreover have "b = 1" if "unat b = 1" using that by (metis of_nat_1 of_nat_unat ucast_id)
  moreover have "b = 2" if "unat b = 2" using that by (metis of_nat_numeral of_nat_unat ucast_id)
  moreover have "b = 3" if "unat b = 3" using that by (metis of_nat_numeral of_nat_unat ucast_id)
  ultimately show ?thesis by (auto simp: word_le_nat_alt)
qed

text \<open>
  The status byte round-trips: every status is read back from the byte it is stored as,
  a byte that is read as a status is the byte of that status, and exactly the bytes from 4
  up are rejected, naming the byte.
\<close>

theorem status_roundtrip:
  "status_try_from (status_as_u8 s) = Inr s \<and>
   (status_try_from b = Inr s \<longleftrightarrow> b = status_as_u8 s) \<and>
   (status_try_from b = Inl err \<longleftrightarrow> 4 \<le> b \<and> err = InvalidStatus b)"
proof -
  have "4 \<le> b \<or> b = 0 \<or> b = 1 \<or> b = 2 \<or> b = 3" by (rule byte_cases)
  moreover have "\<not> 4 \<le> (1 :: 8 word)" by (simp add: word_le_nat_alt)
  ultimately show ?thesis
    by (elim disjE; cases s) (auto simp: status_try_from_def status_as_u8_def)
qed

lemma co_access_key_canonical:
  "co_access_key a b = co_access_key c d \<longleftrightarrow> {a, b} = {c, d}"
  by (auto simp: co_access_key_def doubleton_eq_iff)

lemma status_counter_key_inj: "inj status_counter_key"
proof (rule injI)
  fix s t
  assume "status_counter_key s = status_counter_key t"
  then show "s = t" by (cases s; cases t) (simp_all add: status_counter_key_def)
qed

end
