(* ===== verification/Chain_Verify.thy ===== *)
theory Chain_Verify
  imports Entry_Schema "HOL-Library.Sublist"
begin

text \<open>
  The hash-chain verifier of the store: \<open>unimatrix-store/src/chain_verify.rs\<close> and
  \<open>compute_content_hash\<close> of \<open>hash.rs\<close>.

  SHA-256 is third-party code: \<open>sha\<close> is the function from a text to its lowercase hex digest,
  an argument of the definitions that hash. Nothing is assumed of it except, in the tamper
  theorem, that the two texts at hand do not collide.
\<close>

section \<open>Model\<close>

definition hash_text :: "string \<Rightarrow> string \<Rightarrow> string" where
  "hash_text t c =
     (case (t = [], c = []) of
        (True, True) \<Rightarrow> []
      | (True, False) \<Rightarrow> c
      | (False, True) \<Rightarrow> t
      | (False, False) \<Rightarrow> t @ '': '' @ c)"

definition compute_content_hash :: "(string \<Rightarrow> string) \<Rightarrow> string \<Rightarrow> string \<Rightarrow> string" where
  "compute_content_hash sha t c = sha (hash_text t c)"

datatype violation_kind =
  ContentHashMismatch (computed: string) (stored: string)
| ChainLinkMismatch (predecessor_id: nat) (expected: string) (found: string)
| MissingPredecessor (predecessor_id: nat)
| DanglingPreviousHash

record chain_violation =
  entry_id :: nat
  kind :: violation_kind

record chain_report =
  checked :: nat
  skipped_legacy :: nat
  violations :: "chain_violation list"

definition is_clean :: "chain_report \<Rightarrow> bool" where
  "is_clean r \<longleftrightarrow> violations r = []"

definition kind_display :: "violation_kind \<Rightarrow> string" where
  "kind_display k =
     (case k of
        ContentHashMismatch c s \<Rightarrow>
          ''content hash mismatch (computed '' @ c @ '', stored '' @ s @ '')''
      | ChainLinkMismatch p e f \<Rightarrow>
          ''chain link mismatch vs predecessor '' @ show_nat p @ '' (expected '' @ e @ '', found '' @ f @ '')''
      | MissingPredecessor p \<Rightarrow> ''predecessor '' @ show_nat p @ '' not found in corpus''
      | DanglingPreviousHash \<Rightarrow> ''previous_hash set but supersedes is None (dangling link)'')"

definition violation_line :: "chain_violation \<Rightarrow> string" where
  "violation_line v = ''  entry '' @ show_nat (entry_id v) @ '': '' @ kind_display (kind v)"

fun join_lines :: "string list \<Rightarrow> string" where
  "join_lines [] = []"
| "join_lines [l] = l"
| "join_lines (l # ls) = l @ [CHR 0x0A] @ join_lines ls"

definition describe :: "chain_report \<Rightarrow> string" where
  "describe r =
     (if is_clean r then
        ''chain OK: '' @ show_nat (checked r) @ '' entries checked, '' @
        show_nat (skipped_legacy r) @ '' legacy (unverifiable) skipped''
      else
        (''chain integrity FAILED: '' @ show_nat (length (violations r)) @ '' violation(s) over '' @
         show_nat (checked r) @ '' entries checked'') @ [CHR 0x0A] @
        join_lines (map violation_line (violations r)))"

text \<open>The body of the loop: the content-hash check, then the chain-link check.\<close>

definition report_violation :: "nat \<Rightarrow> violation_kind \<Rightarrow> chain_report \<Rightarrow> chain_report" where
  "report_violation i k r = r\<lparr>violations := violations r @ [\<lparr>entry_id = i, kind = k\<rparr>]\<rparr>"

definition check_content :: "(string \<Rightarrow> string) \<Rightarrow> entry_record \<Rightarrow> chain_report \<Rightarrow> chain_report" where
  "check_content sha e r =
     (let computed = compute_content_hash sha (title e) (content e)
      in if computed \<noteq> content_hash e
         then report_violation (eid e) (ContentHashMismatch computed (content_hash e)) r else r)"

definition check_link :: "(nat, entry_record) hmap \<Rightarrow> entry_record \<Rightarrow> chain_report \<Rightarrow> chain_report" where
  "check_link index e r =
     (if previous_hash e = [] then r\<lparr>skipped_legacy := skipped_legacy r + 1\<rparr>
      else case supersedes e of
          None \<Rightarrow> report_violation (eid e) DanglingPreviousHash r
        | Some pred_id \<Rightarrow>
            (case hm_get index pred_id of
               None \<Rightarrow> report_violation (eid e) (MissingPredecessor pred_id) r
             | Some pred \<Rightarrow>
                 if content_hash pred \<noteq> previous_hash e
                 then report_violation (eid e) (ChainLinkMismatch pred_id (content_hash pred) (previous_hash e)) r
                 else r))"

definition verify_entry :: "(string \<Rightarrow> string) \<Rightarrow> (nat, entry_record) hmap \<Rightarrow> entry_record \<Rightarrow> chain_report \<Rightarrow> chain_report" where
  "verify_entry sha index e r = check_link index e (check_content sha e (r\<lparr>checked := checked r + 1\<rparr>))"

definition entry_index :: "entry_record list \<Rightarrow> (nat, entry_record) hmap" where
  "entry_index entries = fold (\<lambda>e m. hm_insert (eid e) e m) entries []"

definition verify_entries :: "(string \<Rightarrow> string) \<Rightarrow> entry_record list \<Rightarrow> chain_report" where
  "verify_entries sha entries =
     fold (verify_entry sha (entry_index entries)) entries
       \<lparr>checked = 0, skipped_legacy = 0, violations = []\<rparr>"

section \<open>What a report says\<close>

text \<open>The defects an entry of a corpus can have, without reference to the index.\<close>

fun defect :: "(string \<Rightarrow> string) \<Rightarrow> entry_record list \<Rightarrow> entry_record \<Rightarrow> violation_kind \<Rightarrow> bool" where
  "defect sha entries e (ContentHashMismatch c s) \<longleftrightarrow>
     c = compute_content_hash sha (title e) (content e) \<and> s = content_hash e \<and> c \<noteq> s"
| "defect sha entries e (ChainLinkMismatch p x f) \<longleftrightarrow>
     previous_hash e \<noteq> [] \<and> supersedes e = Some p \<and> f = previous_hash e \<and> x \<noteq> f \<and>
     (\<exists>q \<in> set entries. eid q = p \<and> content_hash q = x)"
| "defect sha entries e (MissingPredecessor p) \<longleftrightarrow>
     previous_hash e \<noteq> [] \<and> supersedes e = Some p \<and> p \<notin> eid ` set entries"
| "defect sha entries e DanglingPreviousHash \<longleftrightarrow> previous_hash e \<noteq> [] \<and> supersedes e = None"

definition sound_entry :: "(string \<Rightarrow> string) \<Rightarrow> entry_record list \<Rightarrow> entry_record \<Rightarrow> bool" where
  "sound_entry sha entries e \<longleftrightarrow>
     content_hash e = compute_content_hash sha (title e) (content e) \<and>
     (previous_hash e \<noteq> [] \<longrightarrow>
       (\<exists>p \<in> set entries. supersedes e = Some (eid p) \<and> content_hash p = previous_hash e))"

lemma fold_index:
  "hm_get (fold (\<lambda>e m. hm_insert (eid e) e m) es m) = hm_get m ++ map_of (rev (map (\<lambda>e. (eid e, e)) es))"
  by (induction es arbitrary: m) (auto simp: map_add_def fun_eq_iff split: option.splits)

lemma eid_unique:
  "distinct (map eid es) \<Longrightarrow> p \<in> set es \<Longrightarrow> q \<in> set es \<Longrightarrow> eid p = eid q \<Longrightarrow> p = q"
  by (simp add: distinct_map inj_on_def)

lemma entry_index_get:
  assumes "distinct (map eid entries)"
  shows "hm_get (entry_index entries) i = Some e \<longleftrightarrow> e \<in> set entries \<and> eid e = i"
proof -
  let ?m = "rev (map (\<lambda>e. (eid e, e)) entries)"
  have "map fst ?m = rev (map eid entries)" by (simp add: rev_map comp_def)
  then have "distinct (map fst ?m)" using assms by simp
  then have "map_of ?m i = Some e \<longleftrightarrow> (i, e) \<in> set ?m" by simp
  then show ?thesis by (auto simp: entry_index_def fold_index)
qed

lemma entry_index_None:
  assumes "distinct (map eid entries)"
  shows "hm_get (entry_index entries) i = None \<longleftrightarrow> i \<notin> eid ` set entries"
proof (cases "hm_get (entry_index entries) i")
  case None
  then show ?thesis using entry_index_get [OF assms, of i] by auto
next
  case (Some e)
  then have "e \<in> set entries" "i = eid e" using entry_index_get [OF assms, of i e] by simp_all
  then show ?thesis using Some by simp
qed

text \<open>The violations that one pass through the loop body appends.\<close>

definition entry_violations :: "(string \<Rightarrow> string) \<Rightarrow> (nat, entry_record) hmap \<Rightarrow> entry_record \<Rightarrow> chain_violation list" where
  "entry_violations sha index e = violations (verify_entry sha index e \<lparr>checked = 0, skipped_legacy = 0, violations = []\<rparr>)"

lemmas verify_defs = verify_entry_def check_link_def check_content_def report_violation_def

lemma verify_entry_fields:
  "checked (verify_entry sha index e r) = checked r + 1"
  "skipped_legacy (verify_entry sha index e r) = skipped_legacy r + (if previous_hash e = [] then 1 else 0)"
  "violations (verify_entry sha index e r) = violations r @ entry_violations sha index e"
  by (auto simp: verify_defs entry_violations_def Let_def split: option.splits)

lemma fold_verify_entry:
  "checked (fold (verify_entry sha index) es r) = checked r + length es"
  "skipped_legacy (fold (verify_entry sha index) es r) = skipped_legacy r + length (filter (\<lambda>e. previous_hash e = []) es)"
  "violations (fold (verify_entry sha index) es r) = violations r @ concat (map (entry_violations sha index) es)"
  by (induction es arbitrary: r) (simp_all add: verify_entry_fields)

definition content_kinds :: "(string \<Rightarrow> string) \<Rightarrow> entry_record \<Rightarrow> violation_kind set" where
  "content_kinds sha e = (let c = compute_content_hash sha (title e) (content e)
     in if c \<noteq> content_hash e then {ContentHashMismatch c (content_hash e)} else {})"

definition link_kinds :: "(nat, entry_record) hmap \<Rightarrow> entry_record \<Rightarrow> violation_kind set" where
  "link_kinds index e = (if previous_hash e = [] then {} else case supersedes e of None \<Rightarrow> {DanglingPreviousHash}
     | Some p \<Rightarrow> (case hm_get index p of None \<Rightarrow> {MissingPredecessor p}
         | Some q \<Rightarrow> if content_hash q \<noteq> previous_hash e
             then {ChainLinkMismatch p (content_hash q) (previous_hash e)} else {}))"

lemma entry_violations_kinds:
  "set (entry_violations sha index e) =
   (\<lambda>k. \<lparr>entry_id = eid e, kind = k\<rparr>) ` (content_kinds sha e \<union> link_kinds index e)"
  by (simp add: entry_violations_def verify_defs content_kinds_def link_kinds_def Let_def split: option.split)

lemma link_kinds_defect:
  assumes "distinct (map eid entries)"
  shows "k \<in> link_kinds (entry_index entries) e \<longleftrightarrow> defect sha entries e k \<and> \<not> is_ContentHashMismatch k"
proof (cases "supersedes e")
  case None
  then show ?thesis by (cases k) (auto simp: link_kinds_def)
next
  case sup: (Some p)
  show ?thesis
  proof (cases "hm_get (entry_index entries) p")
    case None
    then have "p \<notin> eid ` set entries" by (simp add: entry_index_None [OF assms])
    then show ?thesis using sup None by (cases k) (auto simp: link_kinds_def)
  next
    case (Some q)
    then have "q \<in> set entries" "eid q = p" using entry_index_get [OF assms, of p] by auto
    then have q: "q' \<in> set entries \<and> eid q' = p \<longleftrightarrow> q' = q" for q'
      using eid_unique [OF assms] by blast
    have "p \<in> eid ` set entries" using q [of q] by auto
    moreover have "(\<exists>q' \<in> set entries. eid q' = p \<and> content_hash q' = x) \<longleftrightarrow> content_hash q = x" for x
      using q by metis
    ultimately show ?thesis using sup Some
      by (cases k; simp add: link_kinds_def cong: conj_cong) (metis, blast)
  qed
qed

lemma content_kinds_defect:
  "k \<in> content_kinds sha e \<longleftrightarrow> defect sha entries e k \<and> is_ContentHashMismatch k"
  by (cases k) (auto simp: content_kinds_def Let_def)

lemma entry_violations_defects:
  assumes "distinct (map eid entries)"
  shows "v \<in> set (entry_violations sha (entry_index entries) e) \<longleftrightarrow>
    entry_id v = eid e \<and> defect sha entries e (kind v)"
proof -
  have "v \<in> set (entry_violations sha (entry_index entries) e) \<longleftrightarrow>
    entry_id v = eid e \<and> (kind v \<in> content_kinds sha e \<or> kind v \<in> link_kinds (entry_index entries) e)"
    by (cases v) (auto simp: entry_violations_kinds)
  then show ?thesis using link_kinds_defect [OF assms] content_kinds_defect by blast
qed

lemma no_defect_iff: 
  assumes "distinct (map eid entries)"
  shows "(\<nexists>k. defect sha entries e k) \<longleftrightarrow> sound_entry sha entries e"
proof
  assume n: "\<nexists>k. defect sha entries e k"
  have h: "content_hash e = compute_content_hash sha (title e) (content e)"
    using n defect.simps(1) by metis
  have "\<exists>p \<in> set entries. supersedes e = Some (eid p) \<and> content_hash p = previous_hash e" if "previous_hash e \<noteq> []"
  proof (cases "supersedes e")
    case None
    then show ?thesis using n that defect.simps(4) by blast
  next
    case (Some p)
    then have "p \<in> eid ` set entries" using n that defect.simps(3) [of sha entries e p] by blast
    then obtain q where "q \<in> set entries" "eid q = p" by blast
    moreover have "content_hash q = previous_hash e"
      using n that Some calculation defect.simps(2) [of sha entries e p "content_hash q" "previous_hash e"] by blast
    ultimately show ?thesis using Some by auto
  qed
  with h show "sound_entry sha entries e" by (simp add: sound_entry_def)
next
  assume s: "sound_entry sha entries e"
  have "\<not> defect sha entries e k" for k
    by (cases k) (use s in \<open>auto simp: sound_entry_def dest: eid_unique [OF assms]\<close>)
  then show "\<nexists>k. defect sha entries e k" by blast
qed

lemma clean_iff_sound:
  assumes "distinct (map eid entries)"
  shows "is_clean (verify_entries sha entries) \<longleftrightarrow> (\<forall>e \<in> set entries. sound_entry sha entries e)"
proof -
  have e: "entry_violations sha (entry_index entries) e = [] \<longleftrightarrow> (\<nexists>k. defect sha entries e k)" for e
  proof -
    have "entry_violations sha (entry_index entries) e = [] \<longleftrightarrow>
        (\<nexists>v. v \<in> set (entry_violations sha (entry_index entries) e))" by (metis ex_in_conv set_empty)
    also have "\<dots> \<longleftrightarrow> (\<nexists>k. defect sha entries e k)"
      unfolding entry_violations_defects [OF assms] by (metis chain_violation.select_convs(1,2))
    finally show ?thesis .
  qed
  have "is_clean (verify_entries sha entries) \<longleftrightarrow> (\<forall>e \<in> set entries. entry_violations sha (entry_index entries) e = [])"
    by (simp add: is_clean_def verify_entries_def fold_verify_entry)
  then show ?thesis unfolding e no_defect_iff [OF assms] .
qed

lemma verify_report:
  fixes sha :: "string \<Rightarrow> string"
  assumes "distinct (map eid entries)"
  defines "r \<equiv> verify_entries sha entries"
  shows "checked r = length entries \<and>
    skipped_legacy r = length (filter (\<lambda>e. previous_hash e = []) entries) \<and>
    (\<forall>v. v \<in> set (violations r) \<longleftrightarrow> (\<exists>e \<in> set entries. entry_id v = eid e \<and> defect sha entries e (kind v))) \<and>
    (is_clean r \<longleftrightarrow> (\<forall>e \<in> set entries. sound_entry sha entries e))"
proof -
  have "v \<in> set (violations r) \<longleftrightarrow> (\<exists>e \<in> set entries. entry_id v = eid e \<and> defect sha entries e (kind v))" for v
    using entry_violations_defects [OF assms(1)] by (auto simp: r_def verify_entries_def fold_verify_entry)
  moreover have "is_clean r \<longleftrightarrow> (\<forall>e \<in> set entries. sound_entry sha entries e)"
    unfolding r_def by (rule clean_iff_sound [OF assms(1)])
  ultimately show ?thesis by (simp add: r_def verify_entries_def fold_verify_entry)
qed

text \<open>
  C17. On a corpus with unique ids the verifier reports exactly the defects: every entry is
  counted as checked, the entries without a link are counted as legacy, a violation is
  reported if and only if an entry of that id has that defect, and the report is clean if
  and only if every entry's stored hash is the hash of its text and every populated link is
  the stored hash of an entry of the corpus that the entry names as its predecessor.
\<close>

theorem verify_entries_exact:
  fixes sha :: "string \<Rightarrow> string"
  assumes "distinct (map eid entries)"
  defines "r \<equiv> verify_entries sha entries"
  shows "checked r = length entries \<and>
    skipped_legacy r = length (filter (\<lambda>e. previous_hash e = []) entries) \<and>
    (\<forall>v. v \<in> set (violations r) \<longleftrightarrow> (\<exists>e \<in> set entries. entry_id v = eid e \<and> defect sha entries e (kind v))) \<and>
    (is_clean r \<longleftrightarrow> (\<forall>e \<in> set entries. sound_entry sha entries e))"
  unfolding r_def by (rule verify_report [OF assms(1)])

text \<open>A two-version corpus: the digest of a text is taken to be its reverse.\<close>

definition sample_corpus :: "entry_record list" where
  "sample_corpus =
     [blank_entry\<lparr>eid := 1, title := ''a'', content := ''b'', content_hash := rev ''a: b''\<rparr>,
      blank_entry\<lparr>eid := 2, title := ''a'', content := ''c'', content_hash := rev ''a: c'',
        supersedes := Some 1, previous_hash := rev ''a: b''\<rparr>]"

theorem verify_entries_exact_witness:
  "is_clean (verify_entries rev sample_corpus) \<longleftrightarrow> (\<forall>e \<in> set sample_corpus. sound_entry rev sample_corpus e)"
  using verify_entries_exact [of sample_corpus rev] by (simp add: sample_corpus_def)

text \<open>
  Rewriting an entry that a later version is linked to is detected. If a clean corpus
  with unique ids contains a version \<open>s\<close> with a populated link to \<open>e\<close>, and \<open>e\<close> is replaced
  by any record \<open>e'\<close> of the same id whose hashed text has another digest, then the verifier
  reports a violation at \<open>e'\<close> or at \<open>s\<close>, whatever hash is stored in \<open>e'\<close>.
\<close>

theorem tampering_detected:
  assumes "distinct (map eid (before @ e # after))"
    and "is_clean (verify_entries sha (before @ e # after))"
    and "s \<in> set (before @ after)" and "supersedes s = Some (eid e)" and "previous_hash s \<noteq> []"
    and "eid e' = eid e"
    and "compute_content_hash sha (title e') (content e') \<noteq> compute_content_hash sha (title e) (content e)"
  shows "\<exists>v \<in> set (violations (verify_entries sha (before @ e' # after))). entry_id v \<in> {eid e', eid s}"
proof -
  let ?old = "before @ e # after" and ?new = "before @ e' # after"
  have d: "distinct (map eid ?new)" using assms(1,6) by simp
  have sound: "sound_entry sha ?old x" if "x \<in> set ?old" for x
    using that assms(2) verify_report [OF assms(1), of sha] by blast
  have "content_hash e = compute_content_hash sha (title e) (content e)"
    using sound [of e] by (simp add: sound_entry_def)
  moreover obtain p where "p \<in> set ?old" "eid p = eid e" "content_hash p = previous_hash s"
    using sound [of s] assms(3,4,5) unfolding sound_entry_def by (metis Un_iff insert_iff list.set(2) option.inject set_append)
  moreover have "p = e" using calculation(2,3) eid_unique [OF assms(1)] by simp
  ultimately have link: "previous_hash s = compute_content_hash sha (title e) (content e)" by simp
  have "\<exists>x k. x \<in> {e', s} \<and> defect sha ?new x k"
  proof (cases "content_hash e' = compute_content_hash sha (title e') (content e')")
    case True
    then have "defect sha ?new s (ChainLinkMismatch (eid e) (content_hash e') (previous_hash s))"
      using assms(4-7) link by simp
    then show ?thesis by blast
  next
    case False
    then have "defect sha ?new e' (ContentHashMismatch (compute_content_hash sha (title e') (content e')) (content_hash e'))"
      by simp
    then show ?thesis by blast
  qed
  then obtain x k where x: "x \<in> {e', s}" "defect sha ?new x k" by blast
  have "\<lparr>entry_id = eid x, kind = k\<rparr> \<in> set (violations (verify_entries sha ?new))"
    using verify_report [OF d, of sha] x assms(3) by auto
  then show ?thesis using x(1) by force
qed

theorem tampering_detected_witness:
  "\<exists>v \<in> set (violations (verify_entries rev
       [blank_entry\<lparr>eid := 1, title := ''a'', content := ''x'', content_hash := rev ''a: x''\<rparr>, sample_corpus ! 1])).
     entry_id v \<in> {1, 2}"
proof -
  let ?e = "sample_corpus ! 0" and ?s = "sample_corpus ! 1"
    and ?e' = "blank_entry\<lparr>eid := 1, title := ''a'', content := ''x'', content_hash := rev ''a: x''\<rparr>"
  have c: "is_clean (verify_entries rev ([] @ ?e # [?s]))"
    by (simp add: sample_corpus_def verify_entries_def entry_index_def is_clean_def verify_defs
        compute_content_hash_def hash_text_def)
  show ?thesis
    using tampering_detected [OF _ c, of ?s ?e']
    by (simp add: sample_corpus_def compute_content_hash_def hash_text_def)
qed

section \<open>The rendered report\<close>

declare show_nat.simps [simp del]

lemma show_nat_digits: "CHR '':'' \<notin> set (show_nat n)"
proof (induction n rule: show_nat.induct)
  case (1 n)
  have d: "char_of (48 + m) \<noteq> CHR '':''" if "m < 10" for m :: nat
    using that by (simp add: char_of_eq_iff take_bit_eq_mod)
  show ?case using 1 d [of n] d [of "n mod 10"] by (subst show_nat.simps) auto
qed

lemma show_nat_nonempty [simp]: "show_nat n \<noteq> []"
  by (subst show_nat.simps) simp

lemma show_nat_inj: "show_nat m = show_nat n \<Longrightarrow> m = n"
proof (induction m arbitrary: n rule: show_nat.induct)
  case (1 m)
  have c: "char_of (48 + a) = (char_of (48 + b) :: char) \<Longrightarrow> a = b" if "a < 10" "b < 10" for a b :: nat
    using that by (simp add: char_of_eq_iff take_bit_eq_mod flip: of_char_eq_iff)
  consider "m < 10" "n < 10" | "m < 10" "\<not> n < 10" | "\<not> m < 10" "n < 10" | "\<not> m < 10" "\<not> n < 10" by blast
  then show ?case
  proof cases
    case 1
    then show ?thesis using "1.prems" c by (simp add: show_nat.simps)
  next
    case 2
    then show ?thesis using "1.prems" by (subst (asm) (1 2) show_nat.simps) (simp add: Cons_eq_append_conv)
  next
    case 3
    then show ?thesis using "1.prems" by (subst (asm) (1 2) show_nat.simps) simp
  next
    case 4
    then have eq: "show_nat (m div 10) = show_nat (n div 10)"
        "char_of (48 + m mod 10) = (char_of (48 + n mod 10) :: char)"
      using "1.prems" by (subst (asm) (1 2) show_nat.simps; simp)+
    then have "m div 10 = n div 10" "m mod 10 = n mod 10"
      using "1.IH" [OF 4(1)] c [of "m mod 10" "n mod 10"] by simp_all
    then show ?thesis by (metis div_mult_mod_eq)
  qed
qed

lemma join_lines_sublist: "l \<in> set ls \<Longrightarrow> sublist l (join_lines ls)"
proof (induction ls rule: join_lines.induct)
  case (3 l1 l2 ls)
  have "sublist (join_lines (l2 # ls)) (join_lines (l1 # l2 # ls))"
    by (simp add: sublist_def) (metis append.assoc append_Cons append_Nil append_Nil2)
  moreover have "sublist l1 (join_lines (l1 # l2 # ls))"
    by (simp add: sublist_append_rightI)
  ultimately show ?case using 3 by (auto intro: sublist_order.order_trans)
qed auto

lemma violation_line_id: "violation_line v = violation_line w \<Longrightarrow> entry_id v = entry_id w"
proof -
  assume eq: "violation_line v = violation_line w"
  have t: "takeWhile ((\<noteq>) CHR '':'') (show_nat n @ CHR '':'' # xs) = show_nat n" for n xs
    by (subst takeWhile_append2) (use show_nat_digits in auto)
  from eq have "show_nat (entry_id v) @ CHR '':'' # CHR '' '' # kind_display (kind v) =
      show_nat (entry_id w) @ CHR '':'' # CHR '' '' # kind_display (kind w)"
    by (simp add: violation_line_def)
  then show ?thesis using t show_nat_inj by metis
qed

text \<open>
  The summary of a failed verification names every offender: for each reported
  violation the text contains a line with the decimal id of the entry, which no other id
  shares, and the rendered break, and the summary of a clean corpus starts with the words
  of success, which no failed summary does.
\<close>

theorem describe_names_violations:
  "(\<forall>v \<in> set (violations r). sublist (violation_line v) (describe r)) \<and>
   (violation_line v = violation_line w \<longrightarrow> entry_id v = entry_id w) \<and>
   (prefix ''chain OK: '' (describe r) \<longleftrightarrow> is_clean r)"
proof (intro conjI ballI impI)
  fix v
  assume v: "v \<in> set (violations r)"
  then have "\<not> is_clean r" by (auto simp: is_clean_def)
  then have "describe r = (''chain integrity FAILED: '' @ show_nat (length (violations r)) @ '' violation(s) over '' @
      show_nat (checked r) @ '' entries checked'' @ [CHR 0x0A]) @ join_lines (map violation_line (violations r))"
    by (simp add: describe_def)
  then have "sublist (join_lines (map violation_line (violations r))) (describe r)"
    by (simp only: sublist_append_leftI)
  moreover have "sublist (violation_line v) (join_lines (map violation_line (violations r)))"
    using v by (intro join_lines_sublist) simp
  ultimately show "sublist (violation_line v) (describe r)"
    by (rule sublist_order.order_trans [rotated])
next
  assume "violation_line v = violation_line w"
  then show "entry_id v = entry_id w" by (rule violation_line_id)
next
  show "prefix ''chain OK: '' (describe r) \<longleftrightarrow> is_clean r" by (simp add: describe_def)
qed

theorem describe_names_violations_witness:
  "sublist (violation_line \<lparr>entry_id = 7, kind = DanglingPreviousHash\<rparr>)
     (describe \<lparr>checked = 1, skipped_legacy = 0, violations = [\<lparr>entry_id = 7, kind = DanglingPreviousHash\<rparr>]\<rparr>)"
  using describe_names_violations
    [of "\<lparr>checked = 1, skipped_legacy = 0, violations = [\<lparr>entry_id = 7, kind = DanglingPreviousHash\<rparr>]\<rparr>"] by simp

end
