(* ===== verification/Store_State.thy ===== *)
theory Store_State
  imports Chain_Verify
begin

text \<open>
  The state of the knowledge store and the effects its operations are written in: the tables of
  \<open>unimatrix-store/src/db.rs\<close> that the modelled calls use, the statements the calls send to the
  database, transactions, the counters (\<open>counters.rs\<close>) and the decoding of rows (\<open>read.rs\<close>).

  A call takes the tables and the faults the database engine reports, one for each statement it
  is sent; an empty list is a database without faults. An integer column holds a natural number;
  a read into a narrower integer truncates. The \<open>tags\<close> field of a row is not used: tags are in
  their own table.
\<close>

text \<open>\<open>n as i64\<close> of an unsigned 64-bit integer.\<close>

definition as_i64 :: "nat \<Rightarrow> int" where
  "as_i64 n = (if n < 2 ^ 63 then int n else int n - 2 ^ 64)"

section \<open>Tables\<close>

text \<open>A row of \<open>agent_registry\<close>, keyed by the characters of the agent's id; the lists are JSON.\<close>

record agent_row =
  row_trust :: nat
  row_capabilities :: string
  row_topics :: "string option"
  row_categories :: "string option"
  row_enrolled :: nat
  row_seen :: nat
  row_active :: nat

record store_db =
  entries_table :: "(nat, entry_record) hmap"
  tags_table :: "(nat \<times> string) list"
  counters_table :: "(string, nat) hmap"
  vector_table :: "(nat, nat) hmap"
  co_access_table :: "(nat \<times> nat, nat \<times> nat) hmap"
  feature_table :: "(string \<times> nat, string option) hmap"
  outcome_table :: "(string \<times> nat) list"
  compaction_table :: "(string \<times> int \<times> int) list"
  agent_table :: "(nat list, agent_row) hmap"

definition empty_db :: store_db where
  "empty_db = \<lparr>entries_table = [], tags_table = [], counters_table = [], vector_table = [],
     co_access_table = [], feature_table = [], outcome_table = [], compaction_table = [], agent_table = []\<rparr>"

section \<open>Calls\<close>

text \<open>An error of the database driver, with its text.\<close>

datatype fault = PoolTimedOut (fault_text: string) | SqlxError (fault_text: string)

datatype 'a reply = Panicked | Failed store_error | Replied 'a

type_synonym 'a call = "store_db \<Rightarrow> fault option list \<Rightarrow> 'a reply \<times> store_db \<times> fault option list"

definition return_call :: "'a \<Rightarrow> 'a call" where
  "return_call a db fs = (Replied a, db, fs)"

definition fail_call :: "store_error \<Rightarrow> 'a call" where
  "fail_call e db fs = (Failed e, db, fs)"

definition panic_call :: "'a call" where
  "panic_call db fs = (Panicked, db, fs)"

definition bind_call :: "'a call \<Rightarrow> ('a \<Rightarrow> 'b call) \<Rightarrow> 'b call" where
  "bind_call m f db fs =
     (case m db fs of
        (Replied a, db', fs') \<Rightarrow> f a db' fs'
      | (Failed e, db', fs') \<Rightarrow> (Failed e, db', fs')
      | (Panicked, db', fs') \<Rightarrow> (Panicked, db', fs'))"

definition seq_call :: "unit call \<Rightarrow> 'b call \<Rightarrow> 'b call" where
  "seq_call m k = bind_call m (\<lambda>_. k)"

fun for_each :: "('x \<Rightarrow> unit call) \<Rightarrow> 'x list \<Rightarrow> unit call" where
  "for_each f [] = return_call ()"
| "for_each f (x # xs) = seq_call (f x) (for_each f xs)"

definition map_pool_timeout :: "pool_kind \<Rightarrow> fault \<Rightarrow> store_error" where
  "map_pool_timeout pool e =
     (case e of
        PoolTimedOut _ \<Rightarrow> PoolTimeout pool (case pool of ReadPool \<Rightarrow> ''2.000'' | WritePool \<Rightarrow> ''5.000'')
      | SqlxError t \<Rightarrow> Database t)"

definition database_error :: "fault \<Rightarrow> store_error" where
  "database_error e = Database (fault_text e)"

text \<open>One exchange with the engine: it fails if the engine reports a fault.\<close>

definition exchange :: "(fault \<Rightarrow> store_error) \<Rightarrow> unit call" where
  "exchange to_error db fs =
     (case fs of
        Some e # fs' \<Rightarrow> (Failed (to_error e), db, fs')
      | _ \<Rightarrow> (Replied (), db, tl fs))"

text \<open>A statement: its effect on the tables, or the text of the constraint it violates.\<close>

definition statement :: "(store_db \<Rightarrow> string + 'a \<times> store_db) \<Rightarrow> 'a call" where
  "statement f = seq_call (exchange database_error)
     (\<lambda>db fs. case f db of Inl t \<Rightarrow> (Failed (Database t), db, fs) | Inr (a, db') \<Rightarrow> (Replied a, db', fs))"

definition query_call :: "(store_db \<Rightarrow> 'a) \<Rightarrow> 'a call" where
  "query_call f = statement (\<lambda>db. Inr (f db, db))"

definition execute_call :: "(store_db \<Rightarrow> store_db) \<Rightarrow> unit call" where
  "execute_call f = statement (\<lambda>db. Inr ((), f db))"

text \<open>
  A transaction: begin, the body, commit. A body that fails or panics drops the transaction, and
  so does a commit that fails: the tables are rolled back.
\<close>

definition transaction :: "'a call \<Rightarrow> 'a call" where
  "transaction body db fs =
     (case bind_call (seq_call (exchange (map_pool_timeout WritePool)) body)
             (\<lambda>a. seq_call (exchange database_error) (return_call a)) db fs of
        (Replied a, db', fs') \<Rightarrow> (Replied a, db', fs')
      | (r, db', fs') \<Rightarrow> (r, db, fs'))"

section \<open>Constraints\<close>

datatype constraint = EntryIdUnique | EntryTagUnique | EntryTagForeignKey | AgentIdUnique

text \<open>What a call takes from its surroundings: the clock, SHA-256, and the engine's messages.\<close>

record call_env =
  env_now :: nat
  env_sha :: "string \<Rightarrow> string"
  env_violation :: "constraint \<Rightarrow> string"

section \<open>Counters\<close>

definition read_counter :: "string \<Rightarrow> nat call" where
  "read_counter name = query_call (\<lambda>db. case hm_get (counters_table db) name of Some v \<Rightarrow> v | None \<Rightarrow> 0)"

definition set_counter :: "string \<Rightarrow> nat \<Rightarrow> unit call" where
  "set_counter name v = execute_call (\<lambda>db. db\<lparr>counters_table := hm_insert name v (counters_table db)\<rparr>)"

definition increment_counter :: "string \<Rightarrow> nat \<Rightarrow> unit call" where
  "increment_counter name delta =
     bind_call (read_counter name) (\<lambda>current.
       if current + delta \<le> u64_max then set_counter name (current + delta) else panic_call)"

definition decrement_counter :: "string \<Rightarrow> nat \<Rightarrow> unit call" where
  "decrement_counter name delta =
     bind_call (read_counter name) (\<lambda>current. set_counter name (sat_sub current delta))"

text \<open>The upsert: 1 if the counter is absent, else one more.\<close>

definition next_counter :: "string \<Rightarrow> nat call" where
  "next_counter name = statement (\<lambda>db.
     let v = (case hm_get (counters_table db) name of None \<Rightarrow> 1 | Some v \<Rightarrow> v + 1)
     in Inr (v, db\<lparr>counters_table := hm_insert name v (counters_table db)\<rparr>))"

definition next_entry_id :: "nat call" where
  "next_entry_id = next_counter ''next_entry_id''"

section \<open>Rows\<close>

definition entry_from_row :: "entry_record \<Rightarrow> entry_record" where
  "entry_from_row row = row\<lparr>tags := [],
     access_count := access_count row mod 2 ^ 32, correction_count := correction_count row mod 2 ^ 32,
     embedding_dim := embedding_dim row mod 2 ^ 16, version := version row mod 2 ^ 32,
     helpful_count := helpful_count row mod 2 ^ 32, unhelpful_count := unhelpful_count row mod 2 ^ 32\<rparr>"

text \<open>
  The tags of some entries: the rows ordered by entry and tag (texts are compared bytewise), grouped by entry.
\<close>

fun bytes_le :: "string \<Rightarrow> string \<Rightarrow> bool" where
  "bytes_le [] t = True"
| "bytes_le (a # s) [] = False"
| "bytes_le (a # s) (b # t) =
     ((of_char a :: nat) < of_char b \<or> a = b \<and> bytes_le s t)"

fun insert_by :: "('a \<Rightarrow> 'a \<Rightarrow> bool) \<Rightarrow> 'a \<Rightarrow> 'a list \<Rightarrow> 'a list" where
  "insert_by le x [] = [x]"
| "insert_by le x (y # ys) = (if le x y then x # y # ys else y # insert_by le x ys)"

definition sort_by :: "('a \<Rightarrow> 'a \<Rightarrow> bool) \<Rightarrow> 'a list \<Rightarrow> 'a list" where
  "sort_by le xs = foldr (insert_by le) xs []"

definition tag_row_le :: "nat \<times> string \<Rightarrow> nat \<times> string \<Rightarrow> bool" where
  "tag_row_le x y \<longleftrightarrow> fst x < fst y \<or> fst x = fst y \<and> bytes_le (snd x) (snd y)"

definition push_tag :: "nat \<times> string \<Rightarrow> (nat, string list) hmap \<Rightarrow> (nat, string list) hmap" where
  "push_tag row m = hm_insert (fst row) ((case hm_get m (fst row) of Some ts \<Rightarrow> ts | None \<Rightarrow> []) @ [snd row]) m"

definition load_tags_for_entries :: "nat list \<Rightarrow> (nat, string list) hmap call" where
  "load_tags_for_entries ids =
     (if ids = [] then return_call []
      else bind_call (query_call (\<lambda>db. sort_by tag_row_le (filter (\<lambda>row. fst row \<in> set ids) (tags_table db))))
        (\<lambda>rows. return_call (fold push_tag rows [])))"

definition apply_tags :: "(nat, string list) hmap \<Rightarrow> entry_record list \<Rightarrow> entry_record list" where
  "apply_tags tag_map entries =
     map (\<lambda>e. case hm_get tag_map (eid e) of Some ts \<Rightarrow> e\<lparr>tags := ts\<rparr> | None \<Rightarrow> e) entries"

end
