(* ===== verification/Store_Write.thy ===== *)
theory Store_Write
  imports Store_State
begin

text \<open>
  Writing entries: \<open>unimatrix-store/src/write.rs\<close>, and \<open>SqlxStore::get\<close> of \<open>read.rs\<close>.
\<close>

section \<open>Reading an entry\<close>

definition get_entry :: "nat \<Rightarrow> entry_record call" where
  "get_entry i =
     bind_call (query_call (\<lambda>db. hm_get (entries_table db) i)) (\<lambda>row.
       case row of
         None \<Rightarrow> fail_call (EntryNotFound i)
       | Some r \<Rightarrow>
           bind_call (load_tags_for_entries [i]) (\<lambda>tag_map.
             let e = entry_from_row r
             in return_call (case hm_get tag_map i of Some ts \<Rightarrow> e\<lparr>tags := ts\<rparr> | None \<Rightarrow> e)))"

definition entry_exists :: "nat \<Rightarrow> bool call" where
  "entry_exists i = query_call (\<lambda>db. hm_get (entries_table db) i \<noteq> None)"

section \<open>Inserting\<close>

record new_entry =
  ne_title :: string
  ne_content :: string
  ne_topic :: string
  ne_category :: string
  ne_tags :: "string list"
  ne_source :: string
  ne_status :: status
  ne_created_by :: string
  ne_feature_cycle :: string
  ne_trust_source :: string

definition insert_row :: "call_env \<Rightarrow> entry_record \<Rightarrow> unit call" where
  "insert_row env row = statement (\<lambda>db.
     if hm_get (entries_table db) (eid row) \<noteq> None then Inl (env_violation env EntryIdUnique)
     else Inr ((), db\<lparr>entries_table := hm_insert (eid row) row (entries_table db)\<rparr>))"

definition insert_tag :: "call_env \<Rightarrow> nat \<Rightarrow> string \<Rightarrow> unit call" where
  "insert_tag env i t = statement (\<lambda>db.
     if (i, t) \<in> set (tags_table db) then Inl (env_violation env EntryTagUnique)
     else if hm_get (entries_table db) i = None then Inl (env_violation env EntryTagForeignKey)
     else Inr ((), db\<lparr>tags_table := tags_table db @ [(i, t)]\<rparr>))"

definition insert_tag_or_ignore :: "call_env \<Rightarrow> nat \<Rightarrow> string \<Rightarrow> unit call" where
  "insert_tag_or_ignore env i t = statement (\<lambda>db.
     if (i, t) \<in> set (tags_table db) then Inr ((), db)
     else if hm_get (entries_table db) i = None then Inl (env_violation env EntryTagForeignKey)
     else Inr ((), db\<lparr>tags_table := tags_table db @ [(i, t)]\<rparr>))"

definition inserted_row :: "call_env \<Rightarrow> nat \<Rightarrow> new_entry \<Rightarrow> entry_record" where
  "inserted_row env i e = \<lparr>eid = i, title = ne_title e, content = ne_content e, topic = ne_topic e,
     category = ne_category e, tags = [], source = ne_source e, status = ne_status e, confidence = 0,
     created_at = env_now env, updated_at = env_now env, last_accessed_at = 0, access_count = 0,
     supersedes = None, superseded_by = None, correction_count = 0, embedding_dim = 0,
     created_by = ne_created_by e, modified_by = [],
     content_hash = compute_content_hash (env_sha env) (ne_title e) (ne_content e), previous_hash = [],
     version = 1, feature_cycle = ne_feature_cycle e, trust_source = ne_trust_source e,
     helpful_count = 0, unhelpful_count = 0, pre_quarantine_status = None\<rparr>"

definition insert_entry :: "call_env \<Rightarrow> new_entry \<Rightarrow> nat call" where
  "insert_entry env e = transaction (
     bind_call next_entry_id (\<lambda>i.
       seq_call (insert_row env (inserted_row env i e)) (
       seq_call (for_each (insert_tag env i) (ne_tags e)) (
       seq_call (increment_counter (status_counter_key (ne_status e)) 1) (
       return_call i)))))"

section \<open>Updating\<close>

definition update_row :: "nat \<Rightarrow> (entry_record \<Rightarrow> entry_record) \<Rightarrow> unit call" where
  "update_row i f = execute_call (\<lambda>db.
     case hm_get (entries_table db) i of
       None \<Rightarrow> db
     | Some row \<Rightarrow> db\<lparr>entries_table := hm_insert i (f row) (entries_table db)\<rparr>)"

definition row_status :: "nat \<Rightarrow> status call" where
  "row_status i =
     bind_call (query_call (\<lambda>db. map_option status (hm_get (entries_table db) i))) (\<lambda>old.
       case old of None \<Rightarrow> fail_call (EntryNotFound i) | Some s \<Rightarrow> return_call s)"

definition move_counter :: "status \<Rightarrow> status \<Rightarrow> unit call" where
  "move_counter old new =
     seq_call (decrement_counter (status_counter_key old) 1) (increment_counter (status_counter_key new) 1)"

text \<open>Every column but the pre-quarantine status.\<close>

definition updated_row :: "entry_record \<Rightarrow> entry_record \<Rightarrow> entry_record" where
  "updated_row e row = e\<lparr>eid := eid row, tags := [], pre_quarantine_status := pre_quarantine_status row\<rparr>"

definition update_entry :: "call_env \<Rightarrow> entry_record \<Rightarrow> unit call" where
  "update_entry env e = transaction (
     bind_call (row_status (eid e)) (\<lambda>old.
       seq_call (update_row (eid e) (updated_row e)) (
       seq_call (execute_call (\<lambda>db. db\<lparr>tags_table := filter (\<lambda>row. fst row \<noteq> eid e) (tags_table db)\<rparr>)) (
       seq_call (for_each (insert_tag env (eid e)) (tags e)) (
       if status e \<noteq> old then move_counter old (status e) else return_call ())))))"

definition update_status :: "call_env \<Rightarrow> nat \<Rightarrow> status \<Rightarrow> unit call" where
  "update_status env i new_status = transaction (
     bind_call (row_status i) (\<lambda>old.
       seq_call (update_row i (\<lambda>row. row\<lparr>status := new_status, updated_at := env_now env\<rparr>)) (
       move_counter old new_status)))"

section \<open>Deleting\<close>

text \<open>The tags go with the entry (ON DELETE CASCADE).\<close>

definition delete_entry :: "nat \<Rightarrow> unit call" where
  "delete_entry i = transaction (
     bind_call (row_status i) (\<lambda>old.
       seq_call (execute_call (\<lambda>db. db\<lparr>entries_table := hm_remove i (entries_table db),
         tags_table := filter (\<lambda>row. fst row \<noteq> i) (tags_table db)\<rparr>)) (
       seq_call (execute_call (\<lambda>db. db\<lparr>vector_table := hm_remove i (vector_table db)\<rparr>)) (
       decrement_counter (status_counter_key old) 1))))"

section \<open>Tags\<close>

definition add_tag :: "call_env \<Rightarrow> nat \<Rightarrow> string \<Rightarrow> unit call" where
  "add_tag env i t = transaction (insert_tag_or_ignore env i t)"

definition remove_tag :: "nat \<Rightarrow> string \<Rightarrow> unit call" where
  "remove_tag i t = transaction (execute_call (\<lambda>db. db\<lparr>tags_table := filter (\<lambda>row. row \<noteq> (i, t)) (tags_table db)\<rparr>))"

text \<open>\<open>String::replace\<close> of one character by a text.\<close>

definition replace_char :: "char \<Rightarrow> string \<Rightarrow> string \<Rightarrow> string" where
  "replace_char c r s = concat (map (\<lambda>x. if x = c then r else [x]) s)"

definition like_escape :: "string \<Rightarrow> string" where
  "like_escape s =
     replace_char (CHR ''_'') (CHR 0x5C # ''_'')
       (replace_char (CHR ''%'') (CHR 0x5C # ''%'') (replace_char (CHR 0x5C) [CHR 0x5C, CHR 0x5C] s))"

text \<open>
  SQL's \<open>LIKE\<close> with the escape character \<open>\\\<close>, as SQLite evaluates it: a percent sign
  matches any text, an underscore one character (a lead byte and its continuation bytes), an
  escaped character itself, and ASCII letters match in either case.
\<close>

definition fold_case :: "char \<Rightarrow> char" where
  "fold_case c = (let n = (of_char c :: nat) in if 0x41 \<le> n \<and> n \<le> 0x5A then char_of (n + 32) else c)"

definition skip_char :: "string \<Rightarrow> string option" where
  "skip_char s = (case s of [] \<Rightarrow> None | c # t \<Rightarrow> Some (dropWhile (\<lambda>b. 0x80 \<le> (of_char b :: nat) \<and> (of_char b :: nat) < 0xC0) t))"

fun like :: "string \<Rightarrow> string \<Rightarrow> bool" where
  "like [] s \<longleftrightarrow> s = []"
| "like (p # ps) s \<longleftrightarrow>
     (if p = CHR ''%'' then (\<exists>n \<in> set [0..<Suc (length s)]. like ps (drop n s))
      else if p = CHR ''_'' then (case skip_char s of None \<Rightarrow> False | Some t \<Rightarrow> like ps t)
      else if p = CHR 0x5C then
        (case ps of
           [] \<Rightarrow> False
         | q # qs \<Rightarrow> (case s of [] \<Rightarrow> False | c # t \<Rightarrow> fold_case c = fold_case q \<and> like qs t))
      else (case s of [] \<Rightarrow> False | c # t \<Rightarrow> fold_case c = fold_case p \<and> like ps t))"

text \<open>
  \<open>pick\<close> is the row a query without an order returns first under its limit of one.
\<close>

definition namespace_pattern :: "string \<Rightarrow> string" where
  "namespace_pattern namespace = like_escape namespace @ '':%''"

definition replace_tag :: "call_env \<Rightarrow> (string list \<Rightarrow> string) \<Rightarrow> nat \<Rightarrow> string \<Rightarrow> string \<Rightarrow> string option call" where
  "replace_tag env pick i namespace new_tag = transaction (
     bind_call
       (if namespace = [] then return_call None
        else let matches = (\<lambda>row :: nat \<times> string. fst row = i \<and> like (namespace_pattern namespace) (snd row))
          in bind_call (query_call (\<lambda>db.
                 let found = map snd (filter matches (tags_table db))
                 in if found = [] then None else Some (pick found))) (\<lambda>prior.
             seq_call (execute_call (\<lambda>db. db\<lparr>tags_table := filter (\<lambda>row. \<not> matches row) (tags_table db)\<rparr>)) (
             return_call prior)))
       (\<lambda>prior. seq_call (insert_tag_or_ignore env i new_tag) (return_call prior)))"

end
