(* ===== verification/Store_Write_Ext.thy ===== *)
theory Store_Write_Ext
  imports Store_Write
begin

text \<open>
  Usage, corrections, status changes with a reason, vector mappings and indexes:
  \<open>unimatrix-store/src/write_ext.rs\<close>. A confidence function is an argument, as in the source.
\<close>

section \<open>Usage\<close>

text \<open>
  The SET list of one entry, as (column, new value) pairs. Every right-hand side reads the old
  row; of several assignments to one column SQLite keeps the last.
\<close>

datatype usage_column = AccessCount | HelpfulCount | UnhelpfulCount

definition usage_sets :: "nat set \<Rightarrow> nat set \<Rightarrow> nat set \<Rightarrow> nat set \<Rightarrow> nat set \<Rightarrow> nat \<Rightarrow> entry_record \<Rightarrow>
    (usage_column \<times> nat) list" where
  "usage_sets access_set helpful_set unhelpful_set dec_helpful_set dec_unhelpful_set i row =
     (if i \<in> access_set then [(AccessCount, access_count row + 1)] else []) @
     (if i \<in> helpful_set then [(HelpfulCount, helpful_count row + 1)] else []) @
     (if i \<in> unhelpful_set then [(UnhelpfulCount, unhelpful_count row + 1)] else []) @
     (if i \<in> dec_helpful_set then [(HelpfulCount, helpful_count row - 1)] else []) @
     (if i \<in> dec_unhelpful_set then [(UnhelpfulCount, unhelpful_count row - 1)] else [])"

definition set_column :: "usage_column \<times> nat \<Rightarrow> entry_record \<Rightarrow> entry_record" where
  "set_column a row = (case a of
     (AccessCount, n) \<Rightarrow> row\<lparr>access_count := n\<rparr>
   | (HelpfulCount, n) \<Rightarrow> row\<lparr>helpful_count := n\<rparr>
   | (UnhelpfulCount, n) \<Rightarrow> row\<lparr>unhelpful_count := n\<rparr>)"

record usage_batch =
  usage_all :: "nat list"
  usage_access :: "nat list"
  usage_helpful :: "nat list"
  usage_unhelpful :: "nat list"
  usage_dec_helpful :: "nat list"
  usage_dec_unhelpful :: "nat list"

definition usage_row :: "call_env \<Rightarrow> usage_batch \<Rightarrow> nat \<Rightarrow> entry_record \<Rightarrow> entry_record" where
  "usage_row env b i row =
     fold set_column (usage_sets (set (usage_access b)) (set (usage_helpful b)) (set (usage_unhelpful b))
         (set (usage_dec_helpful b)) (set (usage_dec_unhelpful b)) i row)
       (row\<lparr>last_accessed_at := env_now env\<rparr>)"

definition recompute_confidence :: "call_env \<Rightarrow> (entry_record \<Rightarrow> nat \<Rightarrow> 64 word) \<Rightarrow> nat \<Rightarrow> unit call" where
  "recompute_confidence env f i =
     bind_call (query_call (\<lambda>db. hm_get (entries_table db) i)) (\<lambda>row.
       case row of
         None \<Rightarrow> fail_call (EntryNotFound i)
       | Some r \<Rightarrow>
           bind_call (load_tags_for_entries [i]) (\<lambda>tag_map.
             let e = entry_from_row r;
                 e' = (case hm_get tag_map i of Some ts \<Rightarrow> e\<lparr>tags := ts\<rparr> | None \<Rightarrow> e)
             in update_row i (\<lambda>row. row\<lparr>confidence := f e' (env_now env)\<rparr>)))"

definition record_usage_of :: "call_env \<Rightarrow> usage_batch \<Rightarrow> (entry_record \<Rightarrow> nat \<Rightarrow> 64 word) option \<Rightarrow> nat \<Rightarrow> unit call" where
  "record_usage_of env b confidence_fn i =
     bind_call (entry_exists i) (\<lambda>found.
       if \<not> found then return_call ()
       else seq_call (update_row i (usage_row env b i))
         (case confidence_fn of None \<Rightarrow> return_call () | Some f \<Rightarrow> recompute_confidence env f i))"

definition record_usage_with_confidence :: "call_env \<Rightarrow> usage_batch \<Rightarrow> (entry_record \<Rightarrow> nat \<Rightarrow> 64 word) option \<Rightarrow> unit call" where
  "record_usage_with_confidence env b confidence_fn =
     (if usage_all b = [] then return_call ()
      else transaction (for_each (record_usage_of env b confidence_fn) (usage_all b)))"

definition record_usage :: "call_env \<Rightarrow> usage_batch \<Rightarrow> unit call" where
  "record_usage env b = record_usage_with_confidence env b None"

definition increment_access_counts :: "nat list \<Rightarrow> nat \<Rightarrow> unit call" where
  "increment_access_counts ids amount =
     (if ids = [] \<or> amount = 0 then return_call ()
      else transaction (for_each (\<lambda>i. update_row i (\<lambda>row. row\<lparr>access_count := access_count row + amount\<rparr>)) ids))"

section \<open>Single statements\<close>

text \<open>The number of rows an update changes.\<close>

definition update_row_counted :: "nat \<Rightarrow> (entry_record \<Rightarrow> entry_record) \<Rightarrow> nat call" where
  "update_row_counted i f = statement (\<lambda>db.
     case hm_get (entries_table db) i of
       None \<Rightarrow> Inr (0, db)
     | Some row \<Rightarrow> Inr (1, db\<lparr>entries_table := hm_insert i (f row) (entries_table db)\<rparr>))"

definition update_confidence :: "nat \<Rightarrow> 64 word \<Rightarrow> unit call" where
  "update_confidence i c =
     bind_call (update_row_counted i (\<lambda>row. row\<lparr>confidence := c\<rparr>)) (\<lambda>rows_affected.
       if rows_affected = 0 then fail_call (EntryNotFound i) else return_call ())"

definition insert_compaction_event :: "string \<Rightarrow> int \<Rightarrow> int \<Rightarrow> unit call" where
  "insert_compaction_event session_id compacted_at_secs high_water =
     execute_call (\<lambda>db. db\<lparr>compaction_table := compaction_table db @ [(session_id, compacted_at_secs, high_water)]\<rparr>)"

definition delete_vector_mapping :: "nat \<Rightarrow> unit call" where
  "delete_vector_mapping i = execute_call (\<lambda>db. db\<lparr>vector_table := hm_remove i (vector_table db)\<rparr>)"

definition update_embedding_dim :: "nat \<Rightarrow> nat \<Rightarrow> unit call" where
  "update_embedding_dim i dim = update_row i (\<lambda>row. row\<lparr>embedding_dim := dim\<rparr>)"

definition put_vector_mapping :: "nat \<Rightarrow> nat \<Rightarrow> unit call" where
  "put_vector_mapping i data_id = execute_call (\<lambda>db. db\<lparr>vector_table := hm_insert i data_id (vector_table db)\<rparr>)"

definition insert_vector_row :: "string \<Rightarrow> nat \<times> nat \<Rightarrow> unit call" where
  "insert_vector_row violation p = statement (\<lambda>db.
     if hm_get (vector_table db) (fst p) \<noteq> None then Inl violation
     else Inr ((), db\<lparr>vector_table := hm_insert (fst p) (snd p) (vector_table db)\<rparr>))"

text \<open>\<open>violation\<close> is the engine's message for a second row of one entry.\<close>

definition rewrite_vector_map :: "string \<Rightarrow> (nat \<times> nat) list \<Rightarrow> unit call" where
  "rewrite_vector_map violation mappings = transaction (
     seq_call (execute_call (\<lambda>db. db\<lparr>vector_table := []\<rparr>))
       (for_each (insert_vector_row violation) mappings))"

definition record_feature_entries :: "string \<Rightarrow> nat list \<Rightarrow> string option \<Rightarrow> unit call" where
  "record_feature_entries cycle entry_ids phase =
     for_each (\<lambda>i. execute_call (\<lambda>db.
       if hm_get (feature_table db) (cycle, i) \<noteq> None then db
       else db\<lparr>feature_table := hm_insert (cycle, i) phase (feature_table db)\<rparr>)) entry_ids"

text \<open>The pairs handed to the analytics queue.\<close>

definition record_co_access_pairs :: "(nat \<times> nat) list \<Rightarrow> (nat \<times> nat) list" where
  "record_co_access_pairs pairs =
     filter (\<lambda>(a, b). a \<noteq> b) (map (\<lambda>(a, b). co_access_key a b) pairs)"

text \<open>The deleted rows are those whose second column, the time of the last update, is below the cutoff.\<close>

definition cleanup_stale_co_access :: "nat \<Rightarrow> nat call" where
  "cleanup_stale_co_access staleness_cutoff = statement (\<lambda>db.
     let stale = (\<lambda>row :: (nat \<times> nat) \<times> nat \<times> nat. int (snd (snd row)) < as_i64 staleness_cutoff)
     in Inr (length (filter stale (co_access_table db)),
          db\<lparr>co_access_table := filter (\<lambda>row. \<not> stale row) (co_access_table db)\<rparr>))"

definition insert_outcome_index_if_applicable :: "nat \<Rightarrow> string \<Rightarrow> string \<Rightarrow> unit call" where
  "insert_outcome_index_if_applicable i cat cycle =
     (if cat \<noteq> ''outcome'' \<or> cycle = [] then return_call ()
      else execute_call (\<lambda>db.
        if (cycle, i) \<in> set (outcome_table db) then db
        else db\<lparr>outcome_table := outcome_table db @ [(cycle, i)]\<rparr>))"

section \<open>Status changes with a reason\<close>

definition update_entry_status_extended :: "call_env \<Rightarrow> nat \<Rightarrow> status \<Rightarrow> string option \<Rightarrow> (8 word) option \<Rightarrow> entry_record call" where
  "update_entry_status_extended env i new_status set_modified_by pre_quarantine =
     seq_call (transaction (
       bind_call (row_status i) (\<lambda>old.
         seq_call (update_row i (\<lambda>row. case set_modified_by of
             Some m \<Rightarrow> row\<lparr>status := new_status, modified_by := m, updated_at := env_now env, pre_quarantine_status := pre_quarantine\<rparr>
           | None \<Rightarrow> row\<lparr>status := new_status, updated_at := env_now env, pre_quarantine_status := pre_quarantine\<rparr>)) (
         move_counter old new_status))))
     (get_entry i)"

section \<open>Corrections\<close>

text \<open>The guards on the original, before anything is written.\<close>

definition check_original :: "nat \<Rightarrow> entry_record \<Rightarrow> unit call" where
  "check_original original_id original =
     (if status original = Deprecated then fail_call (InvalidInput ''original_id'' ''cannot correct a deprecated entry'')
      else if status original = Quarantined then
        fail_call (InvalidInput ''original_id'' ''cannot correct quarantined entry; restore first'')
      else if content_hash original = [] then
        fail_call (InvalidInput ''original_id'' (''cannot correct entry '' @ show_nat original_id @
          '': predecessor has empty content_hash (chain link would be malformed)''))
      else return_call ())"

definition correction_record :: "call_env \<Rightarrow> nat \<Rightarrow> entry_record \<Rightarrow> new_entry \<Rightarrow> nat \<Rightarrow> nat \<Rightarrow> entry_record" where
  "correction_record env original_id original correction dim new_id = \<lparr>eid = new_id,
     title = ne_title correction, content = ne_content correction, topic = ne_topic correction,
     category = ne_category correction, tags = ne_tags correction, source = ne_source correction,
     status = ne_status correction, confidence = 0, created_at = env_now env, updated_at = env_now env,
     last_accessed_at = 0, access_count = 0, supersedes = Some original_id, superseded_by = None,
     correction_count = 0, embedding_dim = dim, created_by = ne_created_by correction,
     modified_by = ne_created_by correction,
     content_hash = compute_content_hash (env_sha env) (ne_title correction) (ne_content correction),
     previous_hash = content_hash original, version = version original + 1,
     feature_cycle = ne_feature_cycle correction, trust_source = ne_trust_source correction,
     helpful_count = 0, unhelpful_count = 0, pre_quarantine_status = None\<rparr>"

definition deprecated_row :: "call_env \<Rightarrow> nat \<Rightarrow> entry_record \<Rightarrow> entry_record" where
  "deprecated_row env new_id row = row\<lparr>status := Deprecated, superseded_by := Some new_id,
     correction_count := correction_count row + 1, updated_at := env_now env\<rparr>"

text \<open>Building and inserting the correction; 32-bit counters panic when they overflow.\<close>

definition insert_correction :: "call_env \<Rightarrow> nat \<Rightarrow> entry_record \<Rightarrow> new_entry \<Rightarrow> nat \<Rightarrow> nat \<Rightarrow> nat \<Rightarrow> entry_record call" where
  "insert_correction env original_id original correction new_data_id dim new_id =
     (if version original + 1 > u32_max then panic_call
      else let new_rec = correction_record env original_id original correction dim new_id in
        seq_call (insert_row env (new_rec\<lparr>tags := []\<rparr>)) (
        seq_call (for_each (insert_tag env new_id) (tags new_rec)) (
        seq_call (put_vector_mapping new_id new_data_id) (
        seq_call (increment_counter (status_counter_key (status new_rec)) 1) (
        return_call new_rec)))))"

definition supersede_original :: "call_env \<Rightarrow> nat \<Rightarrow> entry_record \<Rightarrow> new_entry \<Rightarrow> nat \<Rightarrow> nat \<Rightarrow> entry_record call" where
  "supersede_original env original_id original correction new_data_id dim =
     seq_call (check_original original_id original) (
     bind_call next_entry_id (\<lambda>new_id.
     seq_call (update_row original_id (deprecated_row env new_id)) (
     seq_call (move_counter (status original) Deprecated) (
     insert_correction env original_id original correction new_data_id dim new_id))))"

definition correct_entry :: "call_env \<Rightarrow> nat \<Rightarrow> new_entry \<Rightarrow> nat \<Rightarrow> nat \<Rightarrow> (entry_record \<times> entry_record) call" where
  "correct_entry env original_id correction new_data_id dim =
     bind_call (transaction (
       bind_call (query_call (\<lambda>db. hm_get (entries_table db) original_id)) (\<lambda>row.
       case row of
         None \<Rightarrow> fail_call (EntryNotFound original_id)
       | Some r \<Rightarrow>
         bind_call (load_tags_for_entries [original_id]) (\<lambda>tag_map.
         let e = entry_from_row r;
             original = (case hm_get tag_map original_id of Some ts \<Rightarrow> e\<lparr>tags := ts\<rparr> | None \<Rightarrow> e)
         in bind_call (supersede_original env original_id original correction new_data_id dim) (\<lambda>new_rec.
            return_call (original, new_rec))))))
     (\<lambda>(original, new_rec).
       if correction_count original + 1 > u32_max then panic_call
       else return_call (original\<lparr>status := Deprecated, superseded_by := Some (eid new_rec),
         correction_count := correction_count original + 1, updated_at := env_now env\<rparr>, new_rec))"

end
