(* ===== verification/Store_Laws.thy ===== *)
theory Store_Laws
  imports Store_Write_Ext
begin

text \<open>
  How the calls of the store behave: what a successful call did, that faults never change what
  a successful call did, and the effects of the recurring pieces.
\<close>

named_theorems call_simps \<open>when a composed call replies\<close>

section \<open>Successful calls\<close>

definition no_fault :: "fault option list \<Rightarrow> bool" where
  "no_fault fs \<longleftrightarrow> (case fs of Some e # fs' \<Rightarrow> False | _ \<Rightarrow> True)"

lemma no_fault_simps [simp]: "no_fault []" "no_fault (None # fs)" "\<not> no_fault (Some e # fs)"
  by (simp_all add: no_fault_def)

lemma return_Replied [call_simps]: "return_call a db fs = (Replied b, db', fs') \<longleftrightarrow> b = a \<and> db' = db \<and> fs' = fs"
  by (auto simp: return_call_def)

lemma fail_Replied [call_simps]: "fail_call e db fs = (Replied b, db', fs') \<longleftrightarrow> False"
  by (simp add: fail_call_def)

lemma panic_Replied [call_simps]: "panic_call db fs = (Replied b, db', fs') \<longleftrightarrow> False"
  by (simp add: panic_call_def)

lemma exchange_Replied [call_simps]: "exchange c db fs = (Replied b, db', fs') \<longleftrightarrow> no_fault fs \<and> db' = db \<and> fs' = tl fs"
  by (auto simp: exchange_def no_fault_def split: list.splits option.splits)

lemma bind_Replied [call_simps]:
  "bind_call m f db fs = (Replied b, db', fs') \<longleftrightarrow>
   (\<exists>a db1 fs1. m db fs = (Replied a, db1, fs1) \<and> f a db1 fs1 = (Replied b, db', fs'))"
  by (auto simp: bind_call_def split: prod.splits reply.splits)

lemma seq_Replied [call_simps]:
  "seq_call m k db fs = (Replied b, db', fs') \<longleftrightarrow>
   (\<exists>db1 fs1. m db fs = (Replied (), db1, fs1) \<and> k db1 fs1 = (Replied b, db', fs'))"
  by (simp add: seq_call_def bind_Replied)

lemma statement_Replied [call_simps]:
  "statement f db fs = (Replied a, db', fs') \<longleftrightarrow> no_fault fs \<and> f db = Inr (a, db') \<and> fs' = tl fs"
  by (auto simp: statement_def seq_Replied exchange_Replied split: sum.splits)

lemma query_Replied [call_simps]:
  "query_call f db fs = (Replied a, db', fs') \<longleftrightarrow> no_fault fs \<and> a = f db \<and> db' = db \<and> fs' = tl fs"
  by (auto simp: query_call_def statement_Replied)

lemma execute_Replied [call_simps]:
  "execute_call f db fs = (Replied a, db', fs') \<longleftrightarrow> no_fault fs \<and> db' = f db \<and> fs' = tl fs"
  by (auto simp: execute_call_def statement_Replied)

lemma transaction_Replied [call_simps]:
  "transaction m db fs = (Replied a, db', fs') \<longleftrightarrow>
   (\<exists>fs1. no_fault fs \<and> m db (tl fs) = (Replied a, db', fs1) \<and> no_fault fs1 \<and> fs' = tl fs1)"
proof -
  have "transaction m db fs = (Replied a, db', fs') \<longleftrightarrow>
    bind_call (seq_call (exchange (map_pool_timeout WritePool)) m) (\<lambda>a. seq_call (exchange database_error) (return_call a)) db fs =
      (Replied a, db', fs')"
    by (auto simp: transaction_def split: prod.splits reply.splits)
  then show ?thesis by (auto simp: bind_Replied seq_Replied exchange_Replied return_Replied)
qed

text \<open>A transaction that does not reply leaves the tables as they were.\<close>

lemma transaction_rolls_back:
  assumes "transaction m db fs = (r, db', fs')" and "\<And>a. r \<noteq> Replied a"
  shows "db' = db"
  using assms by (auto simp: transaction_def split: prod.splits reply.splits)

lemma transaction_cases:
  assumes "transaction m db fs = (r, db', fs')"
  obtains (rolled_back) "db' = db" "\<And>a. r \<noteq> Replied a"
    | (committed) a fs1 where "r = Replied a" "m db (tl fs) = (Replied a, db', fs1)"
proof (cases "\<exists>a. r = Replied a")
  case True
  then obtain a where "r = Replied a" by blast
  then show ?thesis using assms committed by (auto simp: transaction_Replied)
next
  case False
  then show ?thesis using transaction_rolls_back [OF assms] rolled_back by blast
qed

lemma for_each_Replied:
  "for_each f (x # xs) db fs = (Replied (), db', fs') \<longleftrightarrow>
   (\<exists>db1 fs1. f x db fs = (Replied (), db1, fs1) \<and> for_each f xs db1 fs1 = (Replied (), db', fs'))"
  by (simp add: seq_Replied)

section \<open>Faults\<close>

text \<open>What a call replies in spite of faults, it replies without them.\<close>

definition fault_free :: "'a call \<Rightarrow> bool" where
  "fault_free m \<longleftrightarrow> (\<forall>db fs a db' fs'. m db fs = (Replied a, db', fs') \<longrightarrow> m db [] = (Replied a, db', []))"

named_theorems fault_free_intros \<open>calls to which faults add nothing\<close>

lemma fault_free_return [fault_free_intros]: "fault_free (return_call a)"
  by (simp add: fault_free_def return_call_def)

lemma fault_free_fail [fault_free_intros]: "fault_free (fail_call e)"
  by (simp add: fault_free_def fail_call_def)

lemma fault_free_panic [fault_free_intros]: "fault_free panic_call"
  by (simp add: fault_free_def panic_call_def)

lemma fault_free_exchange [fault_free_intros]: "fault_free (exchange c)"
  by (auto simp: fault_free_def exchange_Replied)

lemma fault_free_bind [fault_free_intros]: "fault_free m \<Longrightarrow> (\<And>a. fault_free (f a)) \<Longrightarrow> fault_free (bind_call m f)"
  unfolding fault_free_def bind_Replied by blast

lemma fault_free_seq [fault_free_intros]: "fault_free m \<Longrightarrow> fault_free k \<Longrightarrow> fault_free (seq_call m k)"
  by (simp add: seq_call_def fault_free_bind)

lemma fault_free_statement [fault_free_intros]: "fault_free (statement f)"
  by (auto simp: fault_free_def statement_Replied)

lemma fault_free_query [fault_free_intros]: "fault_free (query_call f)"
  by (simp add: query_call_def fault_free_statement)

lemma fault_free_execute [fault_free_intros]: "fault_free (execute_call f)"
  by (simp add: execute_call_def fault_free_statement)

lemma fault_free_for_each [fault_free_intros]: "(\<And>x. fault_free (f x)) \<Longrightarrow> fault_free (for_each f xs)"
  by (induction xs) (simp_all add: fault_free_intros)

lemma fault_free_transaction [fault_free_intros]: "fault_free m \<Longrightarrow> fault_free (transaction m)"
  unfolding fault_free_def transaction_Replied by force

lemma fault_free_if [fault_free_intros]: "(P \<Longrightarrow> fault_free m) \<Longrightarrow> (\<not> P \<Longrightarrow> fault_free k) \<Longrightarrow> fault_free (if P then m else k)"
  by simp

lemma fault_free_option [fault_free_intros]:
  "fault_free m \<Longrightarrow> (\<And>x. fault_free (f x)) \<Longrightarrow> fault_free (case y of None \<Rightarrow> m | Some x \<Rightarrow> f x)"
  by (cases y) simp_all

lemma fault_free_let [fault_free_intros]: "fault_free (f x) \<Longrightarrow> fault_free (let y = x in f y)"
  by simp

lemma fault_freeD: "fault_free m \<Longrightarrow> m db fs = (Replied a, db', fs') \<Longrightarrow> m db [] = (Replied a, db', [])"
  unfolding fault_free_def by blast

lemmas counter_calls = read_counter_def set_counter_def increment_counter_def decrement_counter_def
  next_counter_def next_entry_id_def move_counter_def

lemma fault_free_counters [fault_free_intros]:
  "fault_free (read_counter c)" "fault_free (set_counter c n)" "fault_free (increment_counter c n)"
  "fault_free (decrement_counter c n)" "fault_free next_entry_id" "fault_free (move_counter old new)"
  unfolding counter_calls by (intro fault_free_intros)+

lemma fault_free_rows [fault_free_intros]:
  "fault_free (insert_row env row)" "fault_free (insert_tag env i t)" "fault_free (insert_tag_or_ignore env i t)"
  "fault_free (update_row i f)" "fault_free (row_status i)" "fault_free (load_tags_for_entries ids)"
  "fault_free (entry_exists i)" "fault_free (check_original i e)" "fault_free (put_vector_mapping i d)"
  unfolding insert_row_def insert_tag_def insert_tag_or_ignore_def update_row_def row_status_def
    load_tags_for_entries_def entry_exists_def check_original_def put_vector_mapping_def
  by (intro fault_free_intros)+

lemma fault_free_get_entry [fault_free_intros]: "fault_free (get_entry i)"
  unfolding get_entry_def Let_def by (intro fault_free_intros)

text \<open>The writing calls, all built from these pieces.\<close>

lemma fault_free_writes:
  "fault_free (insert_entry env e)" "fault_free (update_entry env r)" "fault_free (update_status env i s)"
  "fault_free (delete_entry i)" "fault_free (add_tag env i t)" "fault_free (remove_tag i t)"
  "fault_free (replace_tag env pick i ns t)"
  unfolding insert_entry_def update_entry_def update_status_def delete_entry_def add_tag_def remove_tag_def
    replace_tag_def Let_def
  by (intro fault_free_intros)+

lemma fault_free_correct: "fault_free (correct_entry env i c d n)"
  unfolding correct_entry_def supersede_original_def insert_correction_def Let_def case_prod_unfold by (intro fault_free_intros)

end
