(* ===== verification/Store_Effects.thy ===== *)
theory Store_Effects
  imports Store_Laws "HOL-Library.Multiset"
begin

text \<open>
  The effect of each writing call on the tables, when the engine reports no fault.
\<close>

section \<open>Evaluation without faults\<close>

named_theorems calm_simps \<open>evaluation of calls without faults\<close>

lemma calm_basic [calm_simps]:
  "return_call a db fs = (Replied a, db, fs)" "fail_call e db fs = (Failed e, db, fs)" "panic_call db fs = (Panicked, db, fs)"
  "exchange c db [] = (Replied (), db, [])"
  by (simp_all add: return_call_def fail_call_def panic_call_def exchange_def)

lemma calm_bind [calm_simps]:
  "m db fs = (Replied a, db', fs') \<Longrightarrow> bind_call m f db fs = f a db' fs'"
  "m db fs = (Failed e, db', fs') \<Longrightarrow> bind_call m f db fs = (Failed e, db', fs')"
  "m db fs = (Panicked, db', fs') \<Longrightarrow> bind_call m f db fs = (Panicked, db', fs')"
  by (simp_all add: bind_call_def)

lemma calm_seq [calm_simps]:
  "m db fs = (Replied (), db', fs') \<Longrightarrow> seq_call m k db fs = k db' fs'"
  "m db fs = (Failed e, db', fs') \<Longrightarrow> seq_call m k db fs = (Failed e, db', fs')"
  "m db fs = (Panicked, db', fs') \<Longrightarrow> seq_call m k db fs = (Panicked, db', fs')"
  by (simp_all add: seq_call_def bind_call_def)

lemma calm_statement [calm_simps]:
  "f db = Inr (a, db') \<Longrightarrow> statement f db [] = (Replied a, db', [])"
  "f db = Inl t \<Longrightarrow> statement f db [] = (Failed (Database t), db, [])"
  by (simp_all add: statement_def calm_simps)

lemma calm_query [calm_simps]: "query_call f db [] = (Replied (f db), db, [])"
  by (simp add: query_call_def calm_simps)

lemma calm_execute [calm_simps]: "execute_call f db [] = (Replied (), f db, [])"
  by (simp add: execute_call_def calm_simps)

lemma calm_transaction [calm_simps]:
  "m db [] = (Replied a, db', []) \<Longrightarrow> transaction m db [] = (Replied a, db', [])"
  "m db [] = (Failed e, db', fs') \<Longrightarrow> transaction m db [] = (Failed e, db, fs')"
  "m db [] = (Panicked, db', fs') \<Longrightarrow> transaction m db [] = (Panicked, db, fs')"
  by (simp_all add: transaction_def calm_simps)

lemma transaction_cong: "m db [] = k db [] \<Longrightarrow> transaction m db [] = transaction k db []"
  by (simp add: transaction_def bind_call_def seq_call_def exchange_def)

section \<open>Counters\<close>

definition counter_value :: "store_db \<Rightarrow> string \<Rightarrow> nat" where
  "counter_value db name = (case hm_get (counters_table db) name of Some v \<Rightarrow> v | None \<Rightarrow> 0)"

definition put_counter :: "string \<Rightarrow> nat \<Rightarrow> store_db \<Rightarrow> store_db" where
  "put_counter name v db = db\<lparr>counters_table := hm_insert name v (counters_table db)\<rparr>"

lemma put_counter_simps [simp]:
  "entries_table (put_counter n v db) = entries_table db" "tags_table (put_counter n v db) = tags_table db"
  "vector_table (put_counter n v db) = vector_table db"
  "counter_value (put_counter n v db) n' = (if n' = n then v else counter_value db n')"
  by (simp_all add: put_counter_def counter_value_def)

lemma counter_value_frame [simp]:
  "counter_value (db\<lparr>entries_table := e\<rparr>) n = counter_value db n" "counter_value (db\<lparr>tags_table := t\<rparr>) n = counter_value db n"
  "counter_value (db\<lparr>vector_table := v\<rparr>) n = counter_value db n"
  by (simp_all add: counter_value_def)

lemma calm_read_counter [calm_simps]: "read_counter n db [] = (Replied (counter_value db n), db, [])"
  by (simp add: read_counter_def calm_simps counter_value_def)

lemma calm_set_counter [calm_simps]: "set_counter n v db [] = (Replied (), put_counter n v db, [])"
  by (simp add: set_counter_def calm_simps put_counter_def)

lemma calm_increment [calm_simps]:
  "counter_value db n + d \<le> u64_max \<Longrightarrow> increment_counter n d db [] = (Replied (), put_counter n (counter_value db n + d) db, [])"
  "\<not> counter_value db n + d \<le> u64_max \<Longrightarrow> increment_counter n d db [] = (Panicked, db, [])"
  by (simp_all add: increment_counter_def calm_simps)

lemma calm_decrement [calm_simps]: "decrement_counter n d db [] = (Replied (), put_counter n (counter_value db n - d) db, [])"
  by (simp add: decrement_counter_def calm_simps)

lemma calm_next_entry_id:
  "next_entry_id db [] = (Replied (counter_value db ''next_entry_id'' + 1),
     put_counter ''next_entry_id'' (counter_value db ''next_entry_id'' + 1) db, [])"
  by (simp add: next_entry_id_def next_counter_def calm_simps counter_value_def put_counter_def Let_def split: option.split)

lemma calm_move_counter:
  "(if status_counter_key new = status_counter_key old then counter_value db (status_counter_key new) - 1
    else counter_value db (status_counter_key new)) + 1 \<le> u64_max \<Longrightarrow>
   move_counter old new db [] = (Replied (),
     put_counter (status_counter_key new) ((if status_counter_key new = status_counter_key old
         then counter_value db (status_counter_key new) - 1 else counter_value db (status_counter_key new)) + 1)
       (put_counter (status_counter_key old) (counter_value db (status_counter_key old) - 1) db), [])"
  by (auto simp: move_counter_def calm_simps)

section \<open>Tags\<close>

lemma calm_insert_tag [calm_simps]:
  "(i, t) \<in> set (tags_table db) \<Longrightarrow> insert_tag env i t db [] = (Failed (Database (env_violation env EntryTagUnique)), db, [])"
  "(i, t) \<notin> set (tags_table db) \<Longrightarrow> hm_get (entries_table db) i \<noteq> None \<Longrightarrow>
   insert_tag env i t db [] = (Replied (), db\<lparr>tags_table := tags_table db @ [(i, t)]\<rparr>, [])"
  by (simp_all add: insert_tag_def calm_simps)

lemma calm_insert_tags:
  assumes "hm_get (entries_table db) i \<noteq> None"
  shows "if distinct ts \<and> (\<forall>t \<in> set ts. (i, t) \<notin> set (tags_table db))
    then for_each (insert_tag env i) ts db [] = (Replied (), db\<lparr>tags_table := tags_table db @ map (Pair i) ts\<rparr>, [])
    else \<exists>db'. for_each (insert_tag env i) ts db [] = (Failed (Database (env_violation env EntryTagUnique)), db', [])"
  using assms
proof (induction ts arbitrary: db)
  case Nil
  then show ?case by (simp add: calm_simps)
next
  case (Cons t ts)
  show ?case
  proof (cases "(i, t) \<in> set (tags_table db)")
    case True
    then show ?thesis by (auto simp: calm_simps)
  next
    case False
    let ?db = "db\<lparr>tags_table := tags_table db @ [(i, t)]\<rparr>"
    have "insert_tag env i t db [] = (Replied (), ?db, [])" using False Cons.prems by (simp add: calm_simps)
    moreover have "(\<forall>s \<in> set ts. (i, s) \<notin> set (tags_table ?db)) \<longleftrightarrow> t \<notin> set ts \<and> (\<forall>s \<in> set ts. (i, s) \<notin> set (tags_table db))"
      by auto
    ultimately show ?thesis using Cons.IH [of ?db] Cons.prems False by (auto simp: calm_simps split: if_splits)
  qed
qed

section \<open>Rows\<close>

lemma calm_update_row [calm_simps]:
  "hm_get (entries_table db) i = Some row \<Longrightarrow>
   update_row i f db [] = (Replied (), db\<lparr>entries_table := hm_insert i (f row) (entries_table db)\<rparr>, [])"
  "hm_get (entries_table db) i = None \<Longrightarrow> update_row i f db [] = (Replied (), db, [])"
  by (simp_all add: update_row_def calm_simps)

lemma calm_row_status [calm_simps]:
  "hm_get (entries_table db) i = Some row \<Longrightarrow> row_status i db [] = (Replied (status row), db, [])"
  "hm_get (entries_table db) i = None \<Longrightarrow> row_status i db [] = (Failed (EntryNotFound i), db, [])"
  by (simp_all add: row_status_def calm_simps)

lemma calm_insert_row [calm_simps]:
  "hm_get (entries_table db) (eid row) = None \<Longrightarrow>
   insert_row env row db [] = (Replied (), db\<lparr>entries_table := hm_insert (eid row) row (entries_table db)\<rparr>, [])"
  "hm_get (entries_table db) (eid row) \<noteq> None \<Longrightarrow>
   insert_row env row db [] = (Failed (Database (env_violation env EntryIdUnique)), db, [])"
  by (simp_all add: insert_row_def calm_simps)

section \<open>The tags of an entry\<close>

text \<open>The tags of an entry, in the order of the table's rows.\<close>

definition tags_of :: "store_db \<Rightarrow> nat \<Rightarrow> string list" where
  "tags_of db i = map snd (filter (\<lambda>row. fst row = i) (tags_table db))"

lemma insert_by_mset: "mset (insert_by le x xs) = add_mset x (mset xs)"
  by (induction xs) auto

lemma sort_by_mset: "mset (sort_by le xs) = mset xs"
  unfolding sort_by_def by (induction xs) (simp_all add: insert_by_mset)

lemma insert_by_map:
  "(\<And>x y. le x y \<longleftrightarrow> le' (f x) (f y)) \<Longrightarrow> map f (insert_by le x xs) = insert_by le' (f x) (map f xs)"
  by (induction xs) simp_all

lemma sort_by_tags:
  "\<forall>row \<in> set rows. fst row = i \<Longrightarrow> map snd (sort_by tag_row_le rows) = sort_by bytes_le (map snd rows)"
proof (induction rows)
  case (Cons row rows)
  have "map snd (insert_by tag_row_le row xs) = insert_by bytes_le (snd row) (map snd xs)"
    if "\<forall>x \<in> set xs. fst x = i" "fst row = i" for xs
    using that by (induction xs) (auto simp: tag_row_le_def)
  moreover have "set (sort_by tag_row_le rows) = set rows" by (rule mset_eq_setD [OF sort_by_mset])
  ultimately show ?case using Cons by (simp add: sort_by_def)
qed (simp add: sort_by_def)

lemma fold_push_tag:
  "\<forall>row \<in> set rows. fst row = i \<Longrightarrow>
   hm_get (fold push_tag rows m) i =
     (if rows = [] then hm_get m i else Some ((case hm_get m i of Some ts \<Rightarrow> ts | None \<Rightarrow> []) @ map snd rows))"
  by (induction rows arbitrary: m) (auto simp: push_tag_def)

text \<open>The entry as \<open>get\<close> returns it.\<close>

definition stored_entry :: "store_db \<Rightarrow> nat \<Rightarrow> entry_record \<Rightarrow> entry_record" where
  "stored_entry db i row = (entry_from_row row)\<lparr>tags := sort_by bytes_le (tags_of db i)\<rparr>"

lemma entry_from_row_tags [simp]: "tags (entry_from_row row) = []"
  by (simp add: entry_from_row_def)

lemma calm_load_tags:
  obtains m where "load_tags_for_entries [i] db [] = (Replied m, db, [])"
    "\<And>e :: entry_record. tags e = [] \<Longrightarrow>
       (case hm_get m i of Some ts \<Rightarrow> e\<lparr>tags := ts\<rparr> | None \<Rightarrow> e) = e\<lparr>tags := sort_by bytes_le (tags_of db i)\<rparr>"
proof -
  let ?rows = "sort_by tag_row_le (filter (\<lambda>row. fst row = i) (tags_table db))"
  have "set ?rows = set (filter (\<lambda>row. fst row = i) (tags_table db))" by (rule mset_eq_setD [OF sort_by_mset])
  then have all: "\<forall>row \<in> set ?rows. fst row = i" by auto
  have len: "length ?rows = length (filter (\<lambda>row. fst row = i) (tags_table db))"
    by (rule mset_eq_length [OF sort_by_mset])
  have "map snd ?rows = sort_by bytes_le (tags_of db i)" unfolding tags_of_def by (rule sort_by_tags [of _ i]) simp
  then have f: "hm_get (fold push_tag ?rows []) i = (if ?rows = [] then None else Some (sort_by bytes_le (tags_of db i)))"
    using fold_push_tag [OF all, of "[]"] by simp
  have "load_tags_for_entries [i] db [] = (Replied (fold push_tag ?rows []), db, [])"
    by (simp add: load_tags_for_entries_def calm_simps)
  moreover have "(case hm_get (fold push_tag ?rows []) i of Some ts \<Rightarrow> e\<lparr>tags := ts\<rparr> | None \<Rightarrow> e) =
      e\<lparr>tags := sort_by bytes_le (tags_of db i)\<rparr>" if e: "tags e = []" for e :: entry_record
  proof -
    have "e\<lparr>tags := sort_by bytes_le (tags_of db i)\<rparr> = e" if "?rows = []"
      using that len e by (cases e) (simp add: tags_of_def sort_by_def)
    then show ?thesis unfolding f by simp
  qed
  ultimately show thesis by (rule that)
qed

lemma calm_get_entry [calm_simps]:
  "hm_get (entries_table db) i = Some row \<Longrightarrow> get_entry i db [] = (Replied (stored_entry db i row), db, [])"
  "hm_get (entries_table db) i = None \<Longrightarrow> get_entry i db [] = (Failed (EntryNotFound i), db, [])"
proof -
  show "get_entry i db [] = (Replied (stored_entry db i row), db, [])" if "hm_get (entries_table db) i = Some row"
  proof -
    obtain m where m: "load_tags_for_entries [i] db [] = (Replied m, db, [])"
      "(case hm_get m i of Some ts \<Rightarrow> (entry_from_row row)\<lparr>tags := ts\<rparr> | None \<Rightarrow> entry_from_row row) = stored_entry db i row"
      unfolding stored_entry_def by (rule calm_load_tags [of i db]) (use entry_from_row_tags in blast)
    then show ?thesis by (simp add: get_entry_def calm_simps Let_def that)
  qed
  show "hm_get (entries_table db) i = None \<Longrightarrow> get_entry i db [] = (Failed (EntryNotFound i), db, [])"
    by (simp add: get_entry_def calm_simps)
qed

end
