(* ===== verification/Store_Inv.thy ===== *)
theory Store_Inv
  imports Store_Effects
begin

text \<open>
  The invariant of the tables, and the table changes that keep it: ids are unique and were
  allocated, tags belong to entries and are unique, the status counters count.
\<close>

section \<open>The invariant\<close>

definition with_status :: "(nat \<Rightarrow> entry_record option) \<Rightarrow> status \<Rightarrow> nat set" where
  "with_status m s = {i. \<exists>r. m i = Some r \<and> status r = s}"

definition last_id :: "store_db \<Rightarrow> nat" where
  "last_id db = counter_value db ''next_entry_id''"

definition ids_ok :: "store_db \<Rightarrow> bool" where
  "ids_ok db \<longleftrightarrow> hm_ok (entries_table db) \<and>
     (\<forall>i r. hm_get (entries_table db) i = Some r \<longrightarrow> eid r = i \<and> 1 \<le> i \<and> i \<le> last_id db)"

definition tags_ok :: "store_db \<Rightarrow> bool" where
  "tags_ok db \<longleftrightarrow> distinct (tags_table db) \<and> fst ` set (tags_table db) \<subseteq> dom (hm_get (entries_table db))"

definition counters_ok :: "store_db \<Rightarrow> bool" where
  "counters_ok db \<longleftrightarrow> (\<forall>s. counter_value db (status_counter_key s) = card (with_status (hm_get (entries_table db)) s))"

definition store_ok :: "store_db \<Rightarrow> bool" where
  "store_ok db \<longleftrightarrow> ids_ok db \<and> tags_ok db \<and> counters_ok db"

lemma status_keys [simp]:
  "status_counter_key s = status_counter_key s' \<longleftrightarrow> s = s'"
  "status_counter_key s \<noteq> ''next_entry_id''" "''next_entry_id'' \<noteq> status_counter_key s"
  using status_counter_key_inj by (auto simp: inj_eq) (cases s; simp add: status_counter_key_def)+

lemma last_id_frame [simp]:
  "last_id (put_counter n v db) = (if n = ''next_entry_id'' then v else last_id db)"
  "last_id (db\<lparr>entries_table := e\<rparr>) = last_id db" "last_id (db\<lparr>tags_table := t\<rparr>) = last_id db"
  "last_id (db\<lparr>vector_table := u\<rparr>) = last_id db" "last_id (db\<lparr>feature_table := f\<rparr>) = last_id db"
  "last_id (db\<lparr>outcome_table := p\<rparr>) = last_id db" "last_id (db\<lparr>compaction_table := c\<rparr>) = last_id db"
  "last_id (db\<lparr>co_access_table := q\<rparr>) = last_id db"
  by (auto simp: last_id_def counter_value_def put_counter_def)

lemma with_status_upd:
  "with_status (m(i \<mapsto> r)) s = (if status r = s then insert i (with_status m s) else with_status m s - {i})"
  by (auto simp: with_status_def)

lemma with_status_del: "with_status (m(i := None)) s = with_status m s - {i}"
  by (auto simp: with_status_def)

lemma finite_with_status [simp]: "finite (with_status (hm_get m) s)"
  by (rule finite_subset [of _ "dom (hm_get m)"]) (auto simp: with_status_def finite_dom_map_of)

lemma with_status_in: "hm_get m i = Some r \<Longrightarrow> i \<in> with_status (hm_get m) s \<longleftrightarrow> status r = s"
  by (auto simp: with_status_def)

lemma with_status_notin: "hm_get m i = None \<Longrightarrow> i \<notin> with_status (hm_get m) s"
  by (simp add: with_status_def)

section \<open>Changes that keep it\<close>

lemma row_id: "store_ok db \<Longrightarrow> hm_get (entries_table db) i = Some row \<Longrightarrow> eid row = i"
  by (simp add: store_ok_def ids_ok_def)

lemma ids_ok_update:
  "ids_ok db \<Longrightarrow> hm_get (entries_table db) i = Some row \<Longrightarrow> eid row' = i \<Longrightarrow>
   ids_ok (db\<lparr>entries_table := hm_insert i row' (entries_table db)\<rparr>)"
  unfolding ids_ok_def by (auto simp: hm.ok_ins)

lemma tags_ok_update:
  "tags_ok db \<Longrightarrow> tags_ok (db\<lparr>entries_table := hm_insert i row' (entries_table db)\<rparr>)"
  by (auto simp: tags_ok_def)

lemma counters_ok_update:
  assumes "counters_ok db" and "hm_get (entries_table db) i = Some row" and "status row' = status row"
  shows "counters_ok (db\<lparr>entries_table := hm_insert i row' (entries_table db)\<rparr>)"
proof -
  have "with_status ((hm_get (entries_table db))(i \<mapsto> row')) s = with_status (hm_get (entries_table db)) s" for s
    using assms(2,3) by (auto simp: with_status_def)
  then show ?thesis using assms(1) by (simp add: counters_ok_def)
qed

lemma store_ok_update:
  "store_ok db \<Longrightarrow> hm_get (entries_table db) i = Some row \<Longrightarrow> eid row' = i \<Longrightarrow> status row' = status row \<Longrightarrow>
   store_ok (db\<lparr>entries_table := hm_insert i row' (entries_table db)\<rparr>)"
  using ids_ok_update tags_ok_update counters_ok_update unfolding store_ok_def by blast

text \<open>The counters after a row moves from one status to another.\<close>

definition moved :: "status \<Rightarrow> status \<Rightarrow> store_db \<Rightarrow> store_db" where
  "moved old new db = put_counter (status_counter_key new) ((if new = old then counter_value db (status_counter_key new) - 1
       else counter_value db (status_counter_key new)) + 1)
     (put_counter (status_counter_key old) (counter_value db (status_counter_key old) - 1) db)"

lemma moved_simps [simp]:
  "entries_table (moved old new db) = entries_table db" "tags_table (moved old new db) = tags_table db"
  "last_id (moved old new db) = last_id db" "vector_table (moved old new db) = vector_table db"
  by (simp_all add: moved_def)

lemma moved_ok: "ids_ok (moved old new db) = ids_ok db" "tags_ok (moved old new db) = tags_ok db"
  by (simp_all only: ids_ok_def tags_ok_def moved_simps)

lemma store_ok_move:
  assumes "store_ok db" and "hm_get (entries_table db) i = Some row" and "eid row' = i"
  shows "store_ok (moved (status row) (status row') (db\<lparr>entries_table := hm_insert i row' (entries_table db)\<rparr>))"
proof -
  let ?m = "hm_get (entries_table db)" and ?old = "status row" and ?new = "status row'"
  let ?db = "db\<lparr>entries_table := hm_insert i row' (entries_table db)\<rparr>"
  have c: "counter_value db (status_counter_key s) = card (with_status ?m s)" for s
    using assms(1) by (simp add: store_ok_def counters_ok_def)
  have i: "i \<in> with_status ?m ?old" "s \<noteq> ?old \<Longrightarrow> i \<notin> with_status ?m s" for s
    using with_status_in [OF assms(2)] by simp_all
  have pos: "0 < card (with_status ?m ?old)" using i(1) by (auto simp: card_gt_0_iff)
  have "counter_value (moved ?old ?new ?db) (status_counter_key s) = card (with_status (?m(i \<mapsto> row')) s)" for s
  proof (cases "s = ?old")
    case True
    have "counter_value (moved ?old ?new ?db) (status_counter_key ?old) = card (with_status (?m(i \<mapsto> row')) ?old)"
      using pos i(1) by (cases "?new = ?old") (simp_all add: moved_def with_status_upd c insert_absorb)
    then show ?thesis unfolding True .
  next
    case False
    then show ?thesis using i(2) by (cases "s = ?new") (simp_all add: moved_def with_status_upd c)
  qed
  then have "counters_ok (moved ?old ?new ?db)" by (simp add: counters_ok_def)
  moreover have "ids_ok (moved ?old ?new ?db)"
    using ids_ok_update [OF _ assms(2,3)] assms(1) unfolding store_ok_def moved_ok by blast
  moreover have "tags_ok (moved ?old ?new ?db)"
    using tags_ok_update assms(1) unfolding store_ok_def moved_ok by blast
  ultimately show ?thesis by (simp add: store_ok_def)
qed

text \<open>A new row, under the next id.\<close>

definition added :: "entry_record \<Rightarrow> string list \<Rightarrow> store_db \<Rightarrow> store_db" where
  "added row ts db = (let k = status_counter_key (status row) in put_counter k (counter_value db k + 1)
     (db\<lparr>entries_table := hm_insert (eid row) row (entries_table db), tags_table := tags_table db @ map (Pair (eid row)) ts\<rparr>))"

lemma added_simps [simp]:
  "entries_table (added row ts db) = hm_insert (eid row) row (entries_table db)"
  "tags_table (added row ts db) = tags_table db @ map (Pair (eid row)) ts" "last_id (added row ts db) = last_id db"
  "vector_table (added row ts db) = vector_table db"
  by (simp_all add: added_def Let_def)

lemma fresh_id: "ids_ok db \<Longrightarrow> last_id db < i \<Longrightarrow> hm_get (entries_table db) i = None"
  unfolding ids_ok_def by (metis leD not_None_eq)

lemma fresh_tags: "store_ok db \<Longrightarrow> hm_get (entries_table db) i = None \<Longrightarrow> (i, t) \<notin> set (tags_table db)"
  by (force simp: store_ok_def tags_ok_def)

lemma ids_ok_alloc: "ids_ok db \<Longrightarrow> ids_ok (put_counter ''next_entry_id'' (last_id db + 1) db)"
  unfolding ids_ok_def by (auto intro: le_SucI)

lemma store_ok_alloc: "store_ok db \<Longrightarrow> store_ok (put_counter ''next_entry_id'' (last_id db + 1) db)"
  using ids_ok_alloc by (simp add: store_ok_def tags_ok_def counters_ok_def)

lemma store_ok_added:
  assumes "store_ok db" and none: "hm_get (entries_table db) (eid row) = None"
    and "1 \<le> eid row" "eid row \<le> last_id db" and "distinct ts"
  shows "store_ok (added row ts db)"
proof -
  let ?m = "hm_get (entries_table db)"
  have c: "counter_value db (status_counter_key s) = card (with_status ?m s)" for s
    using assms(1) by (simp add: store_ok_def counters_ok_def)
  have "counter_value (added row ts db) (status_counter_key s) = card (with_status (?m(eid row \<mapsto> row)) s)" for s
    using with_status_notin [OF none, of s] by (auto simp: added_def Let_def with_status_upd card_insert_if c)
  then have "counters_ok (added row ts db)" by (simp add: counters_ok_def)
  moreover have "ids_ok (added row ts db)"
    using assms(1,3,4) unfolding store_ok_def ids_ok_def by (auto simp: hm.ok_ins)
  moreover have "tags_ok (added row ts db)"
    using assms(1,5) fresh_tags [OF assms(1) none] by (auto simp: store_ok_def tags_ok_def distinct_map inj_on_def)
  ultimately show ?thesis by (simp add: store_ok_def)
qed

lemma store_ok_deleted:
  assumes "store_ok db" and "hm_get (entries_table db) i = Some row"
  shows "store_ok (put_counter (status_counter_key (status row)) (counter_value db (status_counter_key (status row)) - 1)
    (db\<lparr>entries_table := hm_remove i (entries_table db), tags_table := filter (\<lambda>r. fst r \<noteq> i) (tags_table db),
      vector_table := v\<rparr>))"
proof -
  let ?m = "hm_get (entries_table db)"
  let ?k = "status_counter_key (status row)"
  let ?db = "put_counter ?k (counter_value db ?k - 1) (db\<lparr>entries_table := hm_remove i (entries_table db),
    tags_table := filter (\<lambda>r. fst r \<noteq> i) (tags_table db), vector_table := v\<rparr>)"
  have c: "counter_value db (status_counter_key s) = card (with_status ?m s)" for s
    using assms(1) by (simp add: store_ok_def counters_ok_def)
  have "counter_value ?db (status_counter_key s) = card (with_status (?m(i := None)) s)" for s
    using with_status_in [OF assms(2), of s] by (auto simp: with_status_del c)
  then have "counters_ok ?db" by (simp add: counters_ok_def)
  moreover have "ids_ok ?db" using assms(1) by (auto simp: store_ok_def ids_ok_def hm.ok_rem)
  moreover have "tags_ok ?db" using assms(1) by (auto simp: store_ok_def tags_ok_def)
  ultimately show ?thesis by (simp add: store_ok_def)
qed

lemma store_ok_tags:
  "store_ok db \<Longrightarrow> distinct ts \<Longrightarrow> fst ` set ts \<subseteq> dom (hm_get (entries_table db)) \<Longrightarrow> store_ok (db\<lparr>tags_table := ts\<rparr>)"
  by (simp add: store_ok_def ids_ok_def tags_ok_def counters_ok_def)

lemma store_ok_frame:
  "store_ok (db\<lparr>vector_table := v\<rparr>) = store_ok db" "store_ok (db\<lparr>feature_table := f\<rparr>) = store_ok db"
  "store_ok (db\<lparr>outcome_table := p\<rparr>) = store_ok db" "store_ok (db\<lparr>compaction_table := c\<rparr>) = store_ok db"
  "store_ok (db\<lparr>co_access_table := q\<rparr>) = store_ok db"
  by (simp_all add: store_ok_def ids_ok_def tags_ok_def counters_ok_def last_id_def counter_value_def)

lemma store_ok_empty: "store_ok empty_db"
  by (simp add: store_ok_def ids_ok_def tags_ok_def counters_ok_def empty_db_def counter_value_def with_status_def)

end
