(* ===== verification/Store_Calls.thy ===== *)
theory Store_Calls
  imports Store_Inv
begin

text \<open>
  What each writing call does to tables that satisfy the invariant: the effect of a successful
  call as one change of the tables, and the reply of every other call.
\<close>

section \<open>Inserting\<close>

lemma with_status_last: "ids_ok db \<Longrightarrow> with_status (hm_get (entries_table db)) s \<subseteq> {1..last_id db}"
  by (force simp: ids_ok_def with_status_def)

lemma counter_le_last: "store_ok db \<Longrightarrow> counter_value db (status_counter_key s) \<le> last_id db"
  using card_mono [OF _ with_status_last [of db s]] by (simp add: store_ok_def counters_ok_def)

definition allocated :: "store_db \<Rightarrow> store_db" where
  "allocated db = put_counter ''next_entry_id'' (last_id db + 1) db"

lemma allocated_simps [simp]:
  "entries_table (allocated db) = entries_table db" "tags_table (allocated db) = tags_table db"
  "last_id (allocated db) = last_id db + 1" "vector_table (allocated db) = vector_table db"
  "counter_value (allocated db) (status_counter_key s) = counter_value db (status_counter_key s)"
  by (simp_all add: allocated_def)

lemma store_ok_allocated: "store_ok db \<Longrightarrow> store_ok (allocated db)"
  unfolding allocated_def by (rule store_ok_alloc)

lemma calm_allocate [calm_simps]: "next_entry_id db [] = (Replied (Suc (last_id db)), allocated db, [])"
  by (simp add: calm_next_entry_id allocated_def last_id_def)

definition duplicate_tag :: "call_env \<Rightarrow> store_error" where
  "duplicate_tag env = Database (env_violation env EntryTagUnique)"

text \<open>A row and its tags, for an id that is not in use.\<close>

lemma calm_insert_tagged:
  assumes "store_ok db" and "hm_get (entries_table db) (eid row) = None"
  defines "db1 \<equiv> db\<lparr>entries_table := hm_insert (eid row) row (entries_table db)\<rparr>"
  shows "distinct ts \<Longrightarrow> for_each (insert_tag env (eid row)) ts db1 [] =
      (Replied (), db1\<lparr>tags_table := tags_table db @ map (Pair (eid row)) ts\<rparr>, [])"
    and "\<not> distinct ts \<Longrightarrow> \<exists>db'. for_each (insert_tag env (eid row)) ts db1 [] = (Failed (duplicate_tag env), db', [])"
  using calm_insert_tags [of db1 "eid row" ts env] fresh_tags [OF assms(1,2)]
  by (simp_all add: db1_def duplicate_tag_def)

lemma insert_entry_calm:
  assumes "store_ok db" and "last_id db < u64_max"
  shows "insert_entry env e db [] =
    (if distinct (ne_tags e)
     then (Replied (Suc (last_id db)), added (inserted_row env (Suc (last_id db)) e) (ne_tags e) (allocated db), [])
     else (Failed (duplicate_tag env), db, []))"
proof -
  let ?i = "Suc (last_id db)"
  let ?r = "inserted_row env ?i e" and ?a = "allocated db"
  have r: "eid ?r = ?i" "status ?r = ne_status e" by (simp_all add: inserted_row_def)
  have none: "hm_get (entries_table ?a) (eid ?r) = None"
    using assms(1) fresh_id [of db ?i] unfolding r store_ok_def by simp
  note ins = calm_insert_row(1) [OF none, of env] calm_insert_tagged [OF store_ok_allocated [OF assms(1)] none, where env = env]
  have room: "counter_value db (status_counter_key (ne_status e)) + 1 \<le> u64_max"
    using counter_le_last [OF assms(1), of "ne_status e"] assms(2) by simp
  show ?thesis
  proof (cases "distinct (ne_tags e)")
    case True
    then show ?thesis using ins(1) ins(2) [OF True] room
      by (simp add: insert_entry_def calm_simps r added_def Let_def)
  next
    case False
    then obtain db' where "for_each (insert_tag env ?i) (ne_tags e) (?a\<lparr>entries_table := hm_insert ?i ?r (entries_table ?a)\<rparr>) [] =
      (Failed (duplicate_tag env), db', [])" using ins(3) unfolding r by blast
    then show ?thesis using ins(1) False by (simp add: insert_entry_def calm_simps r)
  qed
qed

lemma store_ok_insert: "store_ok db \<Longrightarrow> insert_entry env e db fs = (Replied i, db', fs') \<Longrightarrow> last_id db < u64_max \<Longrightarrow>
    i = Suc (last_id db) \<and> distinct (ne_tags e) \<and> db' = added (inserted_row env i e) (ne_tags e) (allocated db) \<and> store_ok db'"
proof -
  assume ok: "store_ok db" and r: "insert_entry env e db fs = (Replied i, db', fs')" and l: "last_id db < u64_max"
  have e: "i = Suc (last_id db)" "distinct (ne_tags e)" "db' = added (inserted_row env i e) (ne_tags e) (allocated db)"
    using fault_freeD [OF fault_free_writes(1) r] insert_entry_calm [OF ok l, of env e] by (auto split: if_splits)
  moreover have "store_ok db'"
    unfolding e(3) using ok fresh_id [of db "Suc (last_id db)"] e(1,2)
    by (intro store_ok_added store_ok_allocated) (simp_all add: inserted_row_def store_ok_def)
  ultimately show ?thesis by blast
qed

section \<open>Correcting\<close>

definition correction_refused :: "nat \<Rightarrow> entry_record \<Rightarrow> store_error option" where
  "correction_refused i original =
     (if status original = Deprecated then Some (InvalidInput ''original_id'' ''cannot correct a deprecated entry'')
      else if status original = Quarantined then
        Some (InvalidInput ''original_id'' ''cannot correct quarantined entry; restore first'')
      else if content_hash original = [] then
        Some (InvalidInput ''original_id'' (''cannot correct entry '' @ show_nat i @
          '': predecessor has empty content_hash (chain link would be malformed)''))
      else None)"

lemma calm_check_original [calm_simps]:
  "correction_refused i r = None \<Longrightarrow> check_original i r db [] = (Replied (), db, [])"
  "correction_refused i r = Some e \<Longrightarrow> check_original i r db [] = (Failed e, db, [])"
  by (auto simp: check_original_def correction_refused_def calm_simps split: if_splits)

lemma bind_cong: "m db [] = k db [] \<Longrightarrow> bind_call m f db [] = bind_call k f db []"
  by (simp add: bind_call_def)

text \<open>The tables after a correction.\<close>

definition corrected :: "call_env \<Rightarrow> nat \<Rightarrow> entry_record \<Rightarrow> entry_record \<Rightarrow> nat \<Rightarrow> store_db \<Rightarrow> store_db" where
  "corrected env i row new_rec data_id db =
     (added (new_rec\<lparr>tags := []\<rparr>) (tags new_rec) (moved (status row) Deprecated ((allocated db)\<lparr>entries_table :=
         hm_insert i (deprecated_row env (eid new_rec) row) (entries_table db)\<rparr>)))
       \<lparr>vector_table := hm_insert (eid new_rec) data_id (vector_table db)\<rparr>"

lemma stored_entry_simps [simp]:
  "eid (stored_entry db i row) = eid row" "status (stored_entry db i row) = status row" "title (stored_entry db i row) = title row"
  "content (stored_entry db i row) = content row" "content_hash (stored_entry db i row) = content_hash row"
  "previous_hash (stored_entry db i row) = previous_hash row" "supersedes (stored_entry db i row) = supersedes row"
  "superseded_by (stored_entry db i row) = superseded_by row" "version (stored_entry db i row) = version row mod 2 ^ 32"
  "correction_count (stored_entry db i row) = correction_count row mod 2 ^ 32"
  by (simp_all add: stored_entry_def entry_from_row_def)

lemma deprecated_row_simps [simp]:
  "eid (deprecated_row env j row) = eid row" "status (deprecated_row env j row) = Deprecated"
  by (simp_all add: deprecated_row_def)

lemma correction_record_simps [simp]:
  "eid (correction_record env i o' c dim n) = n" "status (correction_record env i o' c dim n) = ne_status c"
  "tags (correction_record env i o' c dim n) = ne_tags c"
  by (simp_all add: correction_record_def)

lemma calm_put_vector [calm_simps]:
  "put_vector_mapping i d db [] = (Replied (), db\<lparr>vector_table := hm_insert i d (vector_table db)\<rparr>, [])"
  by (simp add: put_vector_mapping_def calm_simps)

lemma store_ok_deprecated:
  assumes "store_ok db" and "hm_get (entries_table db) i = Some row"
  shows "store_ok (moved (status row) Deprecated ((allocated db)\<lparr>entries_table := hm_insert i (deprecated_row env n row) (entries_table db)\<rparr>))"
proof -
  have "eid (deprecated_row env n row) = i" using assms by (simp add: store_ok_def ids_ok_def)
  then show ?thesis using store_ok_move [OF store_ok_allocated [OF assms(1)], of i row "deprecated_row env n row"] assms(2) by simp
qed

lemma insert_correction_calm:
  fixes env :: call_env and i :: nat and original :: entry_record and c :: new_entry and dim :: nat and n :: nat
  assumes ok: "store_ok db" and n: "1 \<le> n" "n \<le> last_id db" "hm_get (entries_table db) n = None"
    and room: "Suc (counter_value db (status_counter_key (ne_status c))) \<le> u64_max"
  defines "new_rec \<equiv> correction_record env i original c dim n"
  shows "version original + 1 > u32_max \<Longrightarrow> insert_correction env i original c data_id dim n db [] = (Panicked, db, [])"
    and "version original + 1 \<le> u32_max \<Longrightarrow> \<not> distinct (ne_tags c) \<Longrightarrow>
      \<exists>db'. insert_correction env i original c data_id dim n db [] = (Failed (duplicate_tag env), db', [])"
    and "version original + 1 \<le> u32_max \<Longrightarrow> distinct (ne_tags c) \<Longrightarrow>
      insert_correction env i original c data_id dim n db [] = (Replied new_rec,
        (added (new_rec\<lparr>tags := []\<rparr>) (ne_tags c) db)\<lparr>vector_table := hm_insert n data_id (vector_table db)\<rparr>, [])"
proof -
  have r: "eid (new_rec\<lparr>tags := []\<rparr>) = n" "status new_rec = ne_status c" "tags new_rec = ne_tags c" by (simp_all add: new_rec_def)
  have none: "hm_get (entries_table db) (eid (new_rec\<lparr>tags := []\<rparr>)) = None" using n(3) r(1) by simp
  note ins = calm_insert_row(1) [OF none, of env] calm_insert_tagged [OF ok none, of "ne_tags c" env]
  show "version original + 1 > u32_max \<Longrightarrow> insert_correction env i original c data_id dim n db [] = (Panicked, db, [])"
    by (simp add: insert_correction_def calm_simps)
  show "\<exists>db'. insert_correction env i original c data_id dim n db [] = (Failed (duplicate_tag env), db', [])"
    if v: "version original + 1 \<le> u32_max" and d: "\<not> distinct (ne_tags c)"
  proof -
    obtain db' where "for_each (insert_tag env n) (ne_tags c) (db\<lparr>entries_table := hm_insert n (new_rec\<lparr>tags := []\<rparr>) (entries_table db)\<rparr>) [] =
      (Failed (duplicate_tag env), db', [])" using ins(3) [OF d] unfolding r(1) by blast
    then show ?thesis using ins(1) v r by (simp add: insert_correction_def calm_simps flip: new_rec_def)
  qed
  show "insert_correction env i original c data_id dim n db [] = (Replied new_rec,
      (added (new_rec\<lparr>tags := []\<rparr>) (ne_tags c) db)\<lparr>vector_table := hm_insert n data_id (vector_table db)\<rparr>, [])"
    if v: "version original + 1 \<le> u32_max" and d: "distinct (ne_tags c)"
    using ins(1) ins(2) [OF d] v r room
    by (simp add: insert_correction_def calm_simps added_def Let_def put_counter_def flip: new_rec_def)
qed

lemma correct_entry_calm:
  assumes ok: "store_ok db" and room: "last_id db < u64_max"
  shows "correct_entry env i c data_id dim db [] =
    (case hm_get (entries_table db) i of
       None \<Rightarrow> (Failed (EntryNotFound i), db, [])
     | Some row \<Rightarrow>
         let original = stored_entry db i row;
             new_rec = correction_record env i original c dim (Suc (last_id db));
             db' = corrected env i row new_rec data_id db
         in case correction_refused i original of
              Some e \<Rightarrow> (Failed e, db, [])
            | None \<Rightarrow>
                if u32_max \<le> version original then (Panicked, db, [])
                else if \<not> distinct (ne_tags c) then (Failed (duplicate_tag env), db, [])
                else if u32_max \<le> correction_count original then (Panicked, db', [])
                else (Replied (original\<lparr>status := Deprecated, superseded_by := Some (Suc (last_id db)),
                    correction_count := correction_count original + 1, updated_at := env_now env\<rparr>, new_rec), db', []))"
proof (cases "hm_get (entries_table db) i")
  case None
  then show ?thesis by (simp add: correct_entry_def calm_simps)
next
  case (Some row)
  let ?o = "stored_entry db i row" and ?n = "Suc (last_id db)"
  let ?new = "correction_record env i ?o c dim ?n"
  obtain m where m: "load_tags_for_entries [i] db [] = (Replied m, db, [])"
    "(case hm_get m i of Some ts \<Rightarrow> (entry_from_row row)\<lparr>tags := ts\<rparr> | None \<Rightarrow> entry_from_row row) = ?o"
    unfolding stored_entry_def by (rule calm_load_tags [of i db]) (use entry_from_row_tags in blast)
  let ?sup = "supersede_original env i ?o c data_id dim"
  let ?F = "\<lambda>(original, new_rec). if correction_count original + 1 > u32_max then panic_call
       else return_call (original\<lparr>status := Deprecated, superseded_by := Some (eid new_rec),
         correction_count := correction_count original + 1, updated_at := env_now env\<rparr>, new_rec)"
  have body: "correct_entry env i c data_id dim db [] =
      bind_call (transaction (bind_call ?sup (\<lambda>new_rec. return_call (?o, new_rec)))) ?F db []"
    unfolding correct_entry_def
    by (rule bind_cong, rule transaction_cong) (simp add: calm_simps Some m Let_def)
  show ?thesis
  proof (cases "correction_refused i ?o")
    case (Some e)
    then have "?sup db [] = (Failed e, db, [])" by (simp add: supersede_original_def calm_simps)
    then show ?thesis using Some \<open>hm_get (entries_table db) i = Some row\<close> by (simp add: body calm_simps Let_def)
  next
    case None
    let ?d = "(allocated db)\<lparr>entries_table := hm_insert i (deprecated_row env ?n row) (entries_table db)\<rparr>"
    let ?mv = "moved (status row) Deprecated ?d"
    have od: "status row \<noteq> Deprecated" using None by (auto simp: correction_refused_def split: if_splits)
    have "counter_value db (status_counter_key Deprecated) + 1 \<le> u64_max"
      using counter_le_last [OF ok, of Deprecated] room by simp
    then have mv: "move_counter (status row) Deprecated ?d [] = (Replied (), ?mv, [])"
      using od by (simp add: calm_move_counter moved_def)
    have mok: "store_ok ?mv" by (rule store_ok_deprecated [OF ok Some])
    have i: "i \<le> last_id db" using ok Some by (simp add: store_ok_def ids_ok_def)
    have none: "hm_get (entries_table ?mv) ?n = None"
      using i ok fresh_id [of db ?n] by (simp add: store_ok_def)
    have "with_status (hm_get (entries_table ?mv)) (ne_status c) \<subseteq> {1..last_id db}"
      using with_status_last [of db] ok i Some by (auto simp: with_status_def store_ok_def ids_ok_def split: if_splits)
    then have "card (with_status (hm_get (entries_table ?mv)) (ne_status c)) \<le> last_id db"
      using card_mono [of "{1..last_id db}"] by simp
    then have room': "Suc (counter_value ?mv (status_counter_key (ne_status c))) \<le> u64_max"
      using room mok by (simp add: store_ok_def counters_ok_def)
    have sup: "?sup db [] = insert_correction env i ?o c data_id dim ?n ?mv []"
      using None mv Some by (simp add: supersede_original_def calm_simps)
    have n: "1 \<le> ?n" "?n \<le> last_id ?mv" by simp_all
    note ins = insert_correction_calm [OF mok n none room', where env = env and i = i and original = ?o and dim = dim and data_id = data_id]
    have v: "version ?o + 1 \<le> u32_max \<longleftrightarrow> \<not> u32_max \<le> version ?o" by auto
    consider (overflow) "u32_max \<le> version ?o" | (dup) "\<not> u32_max \<le> version ?o" "\<not> distinct (ne_tags c)"
      | (fine) "\<not> u32_max \<le> version ?o" "distinct (ne_tags c)" by blast
    then show ?thesis
    proof cases
      case overflow
      then have "?sup db [] = (Panicked, ?mv, [])" using ins(1) unfolding sup by simp
      then show ?thesis using Some None overflow by (simp add: body calm_simps Let_def)
    next
      case dup
      then obtain db' where "?sup db [] = (Failed (duplicate_tag env), db', [])" using ins(2) unfolding sup v by blast
      then show ?thesis using Some None dup by (simp add: body calm_simps Let_def)
    next
      case fine
      then have "?sup db [] = (Replied ?new, corrected env i row ?new data_id db, [])"
        using ins(3) unfolding sup v by (simp add: corrected_def)
      then have t: "transaction (bind_call ?sup (\<lambda>new_rec. return_call (?o, new_rec))) db [] =
          (Replied (?o, ?new), corrected env i row ?new data_id db, [])" by (simp add: calm_simps)
      show ?thesis using Some None fine unfolding body
        by (simp add: t calm_simps Let_def not_le Suc_le_eq)
    qed
  qed
qed

section \<open>Status changes, updates and deletion\<close>

lemma calm_moved [calm_simps]:
  "counter_value db (status_counter_key new) < u64_max \<Longrightarrow> move_counter old new db [] = (Replied (), moved old new db, [])"
  using calm_move_counter [of new old db] by (cases "new = old") (auto simp: moved_def)

lemma counter_below: "store_ok db \<Longrightarrow> last_id db < u64_max \<Longrightarrow> counter_value db (status_counter_key s) < u64_max"
  using counter_le_last [of db s] by simp

text \<open>The tables after a row got a new status.\<close>

definition restatused :: "nat \<Rightarrow> entry_record \<Rightarrow> entry_record \<Rightarrow> store_db \<Rightarrow> store_db" where
  "restatused i row row' db = moved (status row) (status row') (db\<lparr>entries_table := hm_insert i row' (entries_table db)\<rparr>)"

lemma restatused_simps [simp]:
  "entries_table (restatused i row row' db) = hm_insert i row' (entries_table db)"
  "tags_table (restatused i row row' db) = tags_table db" "last_id (restatused i row row' db) = last_id db"
  by (simp_all add: restatused_def)

lemma store_ok_restatused:
  "store_ok db \<Longrightarrow> hm_get (entries_table db) i = Some row \<Longrightarrow> eid row' = i \<Longrightarrow> store_ok (restatused i row row' db)"
  unfolding restatused_def by (rule store_ok_move)

lemma update_status_calm:
  assumes "store_ok db" and "last_id db < u64_max"
  shows "update_status env i s db [] =
    (case hm_get (entries_table db) i of
       None \<Rightarrow> (Failed (EntryNotFound i), db, [])
     | Some row \<Rightarrow> (Replied (), restatused i row (row\<lparr>status := s, updated_at := env_now env\<rparr>) db, []))"
  using counter_below [OF assms, of s]
  by (cases "hm_get (entries_table db) i") (simp_all add: update_status_def calm_simps restatused_def)

definition restatused_row :: "call_env \<Rightarrow> status \<Rightarrow> string option \<Rightarrow> (8 word) option \<Rightarrow> entry_record \<Rightarrow> entry_record" where
  "restatused_row env s by_whom pre row = row\<lparr>status := s,
     modified_by := (case by_whom of Some m \<Rightarrow> m | None \<Rightarrow> modified_by row), updated_at := env_now env, pre_quarantine_status := pre\<rparr>"

lemma update_status_extended_calm:
  assumes "store_ok db" and "last_id db < u64_max"
  shows "update_entry_status_extended env i s by_whom pre db [] =
    (case hm_get (entries_table db) i of
       None \<Rightarrow> (Failed (EntryNotFound i), db, [])
     | Some row \<Rightarrow> (let row' = restatused_row env s by_whom pre row in
         (Replied (stored_entry db i row'), restatused i row row' db, [])))"
proof (cases "hm_get (entries_table db) i")
  case None
  then show ?thesis by (simp add: update_entry_status_extended_def calm_simps)
next
  case (Some row)
  let ?f = "\<lambda>row. case by_whom of
       Some m \<Rightarrow> row\<lparr>status := s, modified_by := m, updated_at := env_now env, pre_quarantine_status := pre\<rparr>
     | None \<Rightarrow> row\<lparr>status := s, updated_at := env_now env, pre_quarantine_status := pre\<rparr>"
  have f: "?f row = restatused_row env s by_whom pre row" by (cases row) (simp add: restatused_row_def split: option.split)
  have t: "stored_entry (restatused i row row' db) i row' = stored_entry db i row'" for row'
    by (simp add: stored_entry_def tags_of_def)
  have s: "status (restatused_row env s by_whom pre row) = s" by (simp add: restatused_row_def)
  have u: "update_row i ?f db [] = (Replied (), db\<lparr>entries_table := hm_insert i (restatused_row env s by_whom pre row) (entries_table db)\<rparr>, [])"
    using calm_update_row(1) [OF Some, of ?f] unfolding f .
  show ?thesis
    using counter_below [OF assms, of s] Some u s t [of "restatused_row env s by_whom pre row"]
    by (simp add: update_entry_status_extended_def calm_simps Let_def) (simp add: restatused_def calm_simps)
qed

text \<open>The tables after an update of every column and the tags.\<close>

definition updated :: "entry_record \<Rightarrow> entry_record \<Rightarrow> store_db \<Rightarrow> store_db" where
  "updated row e db =
     (let db1 = db\<lparr>entries_table := hm_insert (eid e) (updated_row e row) (entries_table db),
            tags_table := filter (\<lambda>r. fst r \<noteq> eid e) (tags_table db) @ map (Pair (eid e)) (tags e)\<rparr>
      in if status e \<noteq> status row then moved (status row) (status e) db1 else db1)"

lemma update_entry_calm:
  assumes "store_ok db" and "last_id db < u64_max"
  shows "update_entry env e db [] =
    (case hm_get (entries_table db) (eid e) of
       None \<Rightarrow> (Failed (EntryNotFound (eid e)), db, [])
     | Some row \<Rightarrow> if distinct (tags e) then (Replied (), updated row e db, []) else (Failed (duplicate_tag env), db, []))"
proof (cases "hm_get (entries_table db) (eid e)")
  case None
  then show ?thesis by (simp add: update_entry_def calm_simps)
next
  case (Some row)
  let ?db1 = "db\<lparr>entries_table := hm_insert (eid e) (updated_row e row) (entries_table db),
    tags_table := filter (\<lambda>r. fst r \<noteq> eid e) (tags_table db)\<rparr>"
  have ins: "if distinct (tags e) then for_each (insert_tag env (eid e)) (tags e) ?db1 [] =
      (Replied (), ?db1\<lparr>tags_table := tags_table ?db1 @ map (Pair (eid e)) (tags e)\<rparr>, [])
    else \<exists>db'. for_each (insert_tag env (eid e)) (tags e) ?db1 [] = (Failed (duplicate_tag env), db', [])"
    using calm_insert_tags [of ?db1 "eid e" "tags e" env] by (simp add: duplicate_tag_def)
  show ?thesis
  proof (cases "distinct (tags e)")
    case True
    then show ?thesis using ins Some counter_below [OF assms, of "status e"]
      by (simp add: update_entry_def calm_simps updated_def Let_def)
  next
    case False
    then show ?thesis using ins Some by (auto simp: update_entry_def calm_simps)
  qed
qed

lemma store_ok_updated:
  assumes ok: "store_ok db" and row: "hm_get (entries_table db) (eid e) = Some row" and d: "distinct (tags e)"
  shows "store_ok (updated row e db) \<and> last_id (updated row e db) = last_id db"
proof -
  let ?row' = "updated_row e row"
  let ?ts = "filter (\<lambda>r. fst r \<noteq> eid e) (tags_table db) @ map (Pair (eid e)) (tags e)"
  have r: "eid ?row' = eid e" "status ?row' = status e" using row_id [OF ok row] by (simp_all add: updated_row_def)
  have "store_ok (if status e \<noteq> status row then restatused (eid e) row ?row' db
      else db\<lparr>entries_table := hm_insert (eid e) ?row' (entries_table db)\<rparr>)"
    using store_ok_restatused [OF ok row r(1)] store_ok_update [OF ok row r(1)] r(2) by simp
  then have "store_ok ((if status e \<noteq> status row then restatused (eid e) row ?row' db
      else db\<lparr>entries_table := hm_insert (eid e) ?row' (entries_table db)\<rparr>)\<lparr>tags_table := ?ts\<rparr>)"
    by (rule store_ok_tags) (use ok d in \<open>auto simp: store_ok_def tags_ok_def distinct_map inj_on_def\<close>)
  moreover have "updated row e db = (if status e \<noteq> status row then restatused (eid e) row ?row' db
      else db\<lparr>entries_table := hm_insert (eid e) ?row' (entries_table db)\<rparr>)\<lparr>tags_table := ?ts\<rparr>"
    using r(2) by (simp add: updated_def restatused_def moved_def put_counter_def counter_value_def Let_def)
  ultimately show ?thesis by (simp add: restatused_def)
qed

definition deleted :: "nat \<Rightarrow> entry_record \<Rightarrow> store_db \<Rightarrow> store_db" where
  "deleted i row db = put_counter (status_counter_key (status row)) (counter_value db (status_counter_key (status row)) - 1)
    (db\<lparr>entries_table := hm_remove i (entries_table db), tags_table := filter (\<lambda>r. fst r \<noteq> i) (tags_table db),
      vector_table := hm_remove i (vector_table db)\<rparr>)"

lemma delete_entry_calm:
  "delete_entry i db [] = (case hm_get (entries_table db) i of
     None \<Rightarrow> (Failed (EntryNotFound i), db, []) | Some row \<Rightarrow> (Replied (), deleted i row db, []))"
  by (cases "hm_get (entries_table db) i") (simp_all add: delete_entry_def calm_simps deleted_def)

end
