(* ===== verification/Store_Keeps.thy ===== *)
theory Store_Keeps
  imports Store_Calls
begin

text \<open>
  Invariants of the tables under every writing call. Two invariants have one contract, the
  locale \<open>table_contract\<close>: that of the tables, and that of the correction chains.
\<close>

section \<open>Invariants kept by calls\<close>

definition keeps :: "(store_db \<Rightarrow> bool) \<Rightarrow> 'a call \<Rightarrow> bool" where
  "keeps I m \<longleftrightarrow> (\<forall>db fs r db' fs'. I db \<longrightarrow> m db fs = (r, db', fs') \<longrightarrow> I db')"

named_theorems keeps_intros \<open>calls that keep an invariant\<close>

lemma keepsD: "keeps I m \<Longrightarrow> I db \<Longrightarrow> m db fs = (r, db', fs') \<Longrightarrow> I db'"
  unfolding keeps_def by blast

lemma keeps_basic [keeps_intros]:
  "keeps I (return_call a)" "keeps I (fail_call e)" "keeps I panic_call" "keeps I (exchange c)"
  by (auto simp: keeps_def return_call_def fail_call_def panic_call_def exchange_def split: list.splits option.splits)

lemma keeps_bind [keeps_intros]: "keeps I m \<Longrightarrow> (\<And>a. keeps I (f a)) \<Longrightarrow> keeps I (bind_call m f)"
  unfolding keeps_def
proof (intro allI impI)
  fix db fs r db' fs'
  assume m: "\<forall>db fs r db' fs'. I db \<longrightarrow> m db fs = (r, db', fs') \<longrightarrow> I db'"
    and f: "\<And>a. \<forall>db fs r db' fs'. I db \<longrightarrow> f a db fs = (r, db', fs') \<longrightarrow> I db'"
    and I: "I db" and b: "bind_call m f db fs = (r, db', fs')"
  obtain r1 db1 fs1 where 1: "m db fs = (r1, db1, fs1)" by (rule prod_cases3)
  then have "I db1" using m I by blast
  show "I db'"
  proof (cases r1)
    case (Replied a)
    then have "f a db1 fs1 = (r, db', fs')" using b 1 by (simp add: bind_call_def)
    then show ?thesis using f \<open>I db1\<close> by blast
  qed (use b 1 \<open>I db1\<close> in \<open>simp_all add: bind_call_def\<close>)
qed

lemma keeps_seq [keeps_intros]: "keeps I m \<Longrightarrow> keeps I k \<Longrightarrow> keeps I (seq_call m k)"
  by (simp add: seq_call_def keeps_bind)

lemma keeps_statement: "(\<And>db a db'. I db \<Longrightarrow> f db = Inr (a, db') \<Longrightarrow> I db') \<Longrightarrow> keeps I (statement f)"
  unfolding statement_def
  by (intro keeps_seq keeps_basic) (auto simp: keeps_def split: sum.splits prod.splits)

lemma keeps_query [keeps_intros]: "keeps I (query_call f)"
  unfolding query_call_def by (rule keeps_statement) simp

lemma keeps_execute: "(\<And>db. I db \<Longrightarrow> I (f db)) \<Longrightarrow> keeps I (execute_call f)"
  unfolding execute_call_def by (rule keeps_statement) auto

lemma keeps_for_each [keeps_intros]: "(\<And>x. keeps I (f x)) \<Longrightarrow> keeps I (for_each f xs)"
  by (induction xs) (simp_all add: keeps_intros)

lemma keeps_transaction [keeps_intros]:
  assumes "keeps I m"
  shows "keeps I (transaction m)"
  unfolding keeps_def
proof (intro allI impI)
  fix db fs r db' fs'
  assume I: "I db" and t: "transaction m db fs = (r, db', fs')"
  show "I db'" by (rule transaction_cases [OF t]) (use I keepsD [OF assms] in blast)+
qed

lemma keeps_if [keeps_intros]: "keeps I m \<Longrightarrow> keeps I k \<Longrightarrow> keeps I (if P then m else k)"
  by simp

lemma keeps_option [keeps_intros]:
  "keeps I m \<Longrightarrow> (\<And>x. keeps I (f x)) \<Longrightarrow> keeps I (case y of None \<Rightarrow> m | Some x \<Rightarrow> f x)"
  by (cases y) simp_all

section \<open>The contract\<close>

text \<open>Changes of a row that concern neither its identity, its text, its status nor its links.\<close>

definition neutral :: "entry_record \<Rightarrow> entry_record \<Rightarrow> bool" where
  "neutral row row' \<longleftrightarrow> eid row' = eid row \<and> status row' = status row \<and> title row' = title row \<and>
     content row' = content row \<and> content_hash row' = content_hash row \<and> previous_hash row' = previous_hash row \<and>
     supersedes row' = supersedes row \<and> superseded_by row' = superseded_by row \<and> version row' = version row"

locale table_contract =
  fixes inv :: "store_db \<Rightarrow> bool"
  assumes inv_row: "inv db \<Longrightarrow> hm_get (entries_table db) i = Some row \<Longrightarrow> neutral row row' \<Longrightarrow>
      inv (db\<lparr>entries_table := hm_insert i row' (entries_table db)\<rparr>)"
    and inv_add_tag: "inv db \<Longrightarrow> (i, t) \<notin> set (tags_table db) \<Longrightarrow> hm_get (entries_table db) i \<noteq> None \<Longrightarrow>
      inv (db\<lparr>tags_table := tags_table db @ [(i, t)]\<rparr>)"
    and inv_drop_tags: "inv db \<Longrightarrow> inv (db\<lparr>tags_table := filter P (tags_table db)\<rparr>)"
    and inv_frame: "inv db \<Longrightarrow> inv (db\<lparr>vector_table := v\<rparr>)" "inv db \<Longrightarrow> inv (db\<lparr>feature_table := f\<rparr>)"
      "inv db \<Longrightarrow> inv (db\<lparr>outcome_table := p\<rparr>)" "inv db \<Longrightarrow> inv (db\<lparr>compaction_table := c\<rparr>)"
      "inv db \<Longrightarrow> inv (db\<lparr>co_access_table := q\<rparr>)"
begin

lemma keeps_update_row: "(\<And>row. neutral row (f row)) \<Longrightarrow> keeps inv (update_row i f)"
  unfolding update_row_def by (rule keeps_execute) (auto intro: inv_row split: option.split)

lemma keeps_insert_tag: "keeps inv (insert_tag env i t)"
  unfolding insert_tag_def by (rule keeps_statement) (auto intro: inv_add_tag split: if_splits)

lemma keeps_tag_calls: "keeps inv (add_tag env i t)" "keeps inv (remove_tag i t)" "keeps inv (replace_tag env pick i ns t)"
proof -
  have a: "keeps inv (insert_tag_or_ignore env i t)"
    unfolding insert_tag_or_ignore_def by (rule keeps_statement) (auto intro: inv_add_tag split: if_splits)
  have d: "keeps inv (execute_call (\<lambda>db. db\<lparr>tags_table := filter P (tags_table db)\<rparr>))" for P
    by (rule keeps_execute) (rule inv_drop_tags)
  show "keeps inv (add_tag env i t)" "keeps inv (remove_tag i t)" "keeps inv (replace_tag env pick i ns t)"
    unfolding add_tag_def remove_tag_def replace_tag_def Let_def by (intro keeps_intros a d)+
qed

lemma keeps_vector_calls:
  "keeps inv (delete_vector_mapping i)" "keeps inv (put_vector_mapping i d)" "keeps inv (rewrite_vector_map w ms)"
proof -
  have "keeps inv (insert_vector_row w p)" for p
    unfolding insert_vector_row_def by (rule keeps_statement) (auto intro: inv_frame split: if_splits)
  moreover have e: "keeps inv (execute_call (\<lambda>db. db\<lparr>vector_table := g (vector_table db)\<rparr>))" for g
    by (rule keeps_execute) (rule inv_frame)
  ultimately show "keeps inv (rewrite_vector_map w ms)"
    unfolding rewrite_vector_map_def using e [of "\<lambda>_. []"] by (intro keeps_intros)
  show "keeps inv (delete_vector_mapping i)" "keeps inv (put_vector_mapping i d)"
    unfolding delete_vector_mapping_def put_vector_mapping_def by (rule e)+
qed

lemma keeps_index_calls:
  "keeps inv (record_feature_entries c is ph)" "keeps inv (insert_outcome_index_if_applicable i k c)"
  "keeps inv (insert_compaction_event s t h)" "keeps inv (cleanup_stale_co_access n)"
proof -
  show "keeps inv (record_feature_entries c is ph)"
    unfolding record_feature_entries_def by (intro keeps_for_each keeps_execute) (simp add: inv_frame)
  show "keeps inv (insert_outcome_index_if_applicable i k c)"
    unfolding insert_outcome_index_if_applicable_def by (intro keeps_if keeps_basic keeps_execute) (simp add: inv_frame)
  show "keeps inv (insert_compaction_event s t h)"
    unfolding insert_compaction_event_def by (intro keeps_execute inv_frame)
  show "keeps inv (cleanup_stale_co_access n)"
    unfolding cleanup_stale_co_access_def Let_def by (rule keeps_statement) (auto intro: inv_frame)
qed

lemma neutral_usage: "neutral row (usage_row env b i row)"
  by (simp add: neutral_def usage_row_def usage_sets_def set_column_def)

lemma keeps_usage_calls:
  "keeps inv (record_usage_with_confidence env b f)" "keeps inv (record_usage env b)" "keeps inv (increment_access_counts is n)"
  "keeps inv (update_confidence i x)" "keeps inv (update_embedding_dim i d)"
proof -
  have c: "keeps inv (recompute_confidence env g i)" for g i
    unfolding recompute_confidence_def load_tags_for_entries_def Let_def
    by (intro keeps_intros keeps_update_row) (simp add: neutral_def)
  have u: "keeps inv (record_usage_of env b f i)" for f i
    unfolding record_usage_of_def entry_exists_def by (intro keeps_intros keeps_update_row neutral_usage c)
  show r: "keeps inv (record_usage_with_confidence env b f)" for f
    unfolding record_usage_with_confidence_def by (intro keeps_intros u)
  show "keeps inv (record_usage env b)" unfolding record_usage_def by (rule r)
  show "keeps inv (increment_access_counts is n)"
    unfolding increment_access_counts_def by (intro keeps_intros keeps_update_row) (simp add: neutral_def)
  show "keeps inv (update_embedding_dim i d)"
    unfolding update_embedding_dim_def by (rule keeps_update_row) (simp add: neutral_def)
  have "keeps inv (update_row_counted i (\<lambda>row. row\<lparr>confidence := x\<rparr>))"
    unfolding update_row_counted_def
    by (rule keeps_statement) (auto intro!: inv_row simp: neutral_def split: option.splits)
  then show "keeps inv (update_confidence i x)" unfolding update_confidence_def by (intro keeps_intros)
qed

end

interpretation tables: table_contract "\<lambda>db. store_ok db \<and> last_id db \<le> n" for n
proof unfold_locales
  fix db i row row' t P
  assume "store_ok db \<and> last_id db \<le> n"
  then have ok: "store_ok db" and l: "last_id db \<le> n" by simp_all
  show "hm_get (entries_table db) i = Some row \<Longrightarrow> neutral row row' \<Longrightarrow>
      store_ok (db\<lparr>entries_table := hm_insert i row' (entries_table db)\<rparr>) \<and>
      last_id (db\<lparr>entries_table := hm_insert i row' (entries_table db)\<rparr>) \<le> n"
    using l row_id [OF ok] store_ok_update [OF ok] unfolding neutral_def last_id_frame by metis
  show "(i, t) \<notin> set (tags_table db) \<Longrightarrow> hm_get (entries_table db) i \<noteq> None \<Longrightarrow>
      store_ok (db\<lparr>tags_table := tags_table db @ [(i, t)]\<rparr>) \<and> last_id (db\<lparr>tags_table := tags_table db @ [(i, t)]\<rparr>) \<le> n"
    using ok l by (intro conjI store_ok_tags) (auto simp: store_ok_def tags_ok_def)
  show "store_ok (db\<lparr>tags_table := filter P (tags_table db)\<rparr>) \<and> last_id (db\<lparr>tags_table := filter P (tags_table db)\<rparr>) \<le> n"
    using ok l by (intro conjI store_ok_tags) (auto simp: store_ok_def tags_ok_def)
qed (simp_all add: store_ok_frame)

end
