(* ===== verification/Store_Events.thy ===== *)
theory Store_Events
  imports Store_Keeps
begin

text \<open>
  Sequences of writing calls: every call as an event, the outcome of a call under faults, and
  the invariant of the tables over whole sequences (an interpretation of \<open>budgeted\<close>: every
  insertion and correction spends an id).
\<close>

section \<open>Outcomes under faults\<close>

lemma transaction_outcome:
  assumes "fault_free m" and "m db fs = (r, db', fs')"
    and "\<And>r db' fs'. (\<And>a. r \<noteq> Replied a) \<Longrightarrow> m db fs = (r, db', fs') \<Longrightarrow> db' = db"
  shows "db' = db \<or> (\<exists>a. r = Replied a \<and> m db [] = (Replied a, db', []))"
  using assms fault_freeD [OF assms(1)] by (cases r) blast+

lemma write_outcome:
  assumes "fault_free (transaction m)" and "transaction m db fs = (r, db', fs')"
  shows "db' = db \<or> (\<exists>a. r = Replied a \<and> transaction m db [] = (Replied a, db', []))"
  using transaction_outcome [OF assms] transaction_rolls_back by blast

lemma insert_outcome:
  assumes "store_ok db" and "last_id db < u64_max" and "insert_entry env e db fs = (r, db', fs')"
  shows "db' = db \<or> r = Replied (Suc (last_id db)) \<and> distinct (ne_tags e) \<and>
    db' = added (inserted_row env (Suc (last_id db)) e) (ne_tags e) (allocated db)"
  using write_outcome [OF fault_free_writes(1) [of env e, unfolded insert_entry_def] assms(3) [unfolded insert_entry_def],
      folded insert_entry_def] insert_entry_calm [OF assms(1,2), of env e]
  by (auto split: if_splits)

lemma update_status_outcome:
  assumes "store_ok db" and "last_id db < u64_max" and "update_status env i s db fs = (r, db', fs')"
  shows "db' = db \<or> (\<exists>row. hm_get (entries_table db) i = Some row \<and>
    db' = restatused i row (row\<lparr>status := s, updated_at := env_now env\<rparr>) db)"
  using write_outcome [OF fault_free_writes(3) [of env i s, unfolded update_status_def] assms(3) [unfolded update_status_def],
      folded update_status_def] update_status_calm [OF assms(1,2), of env i s]
  by (auto split: option.splits)

lemma update_entry_outcome:
  assumes "store_ok db" and "last_id db < u64_max" and "update_entry env e db fs = (r, db', fs')"
  shows "db' = db \<or> (\<exists>row. hm_get (entries_table db) (eid e) = Some row \<and> distinct (tags e) \<and> db' = updated row e db)"
  using write_outcome [OF fault_free_writes(2) [of env e, unfolded update_entry_def] assms(3) [unfolded update_entry_def],
      folded update_entry_def] update_entry_calm [OF assms(1,2), of env e]
  by (auto split: option.splits if_splits)

lemma delete_outcome:
  assumes "delete_entry i db fs = (r, db', fs')"
  shows "db' = db \<or> (\<exists>row. hm_get (entries_table db) i = Some row \<and> db' = deleted i row db)"
  using write_outcome [OF fault_free_writes(4) [of i, unfolded delete_entry_def] assms [unfolded delete_entry_def],
      folded delete_entry_def] delete_entry_calm [of i db]
  by (auto split: option.splits)

lemma bind_seq_state:
  assumes "bind_call m f db fs = (r, db', fs')" and "\<And>a db fs. fst (snd (f a db fs)) = db"
  shows "\<exists>r1 fs1. m db fs = (r1, db', fs1) \<and> ((\<forall>a. r1 \<noteq> Replied a) \<longrightarrow> (\<forall>b. r \<noteq> Replied b))"
proof -
  obtain r1 db1 fs1 where m: "m db fs = (r1, db1, fs1)" by (rule prod_cases3)
  show ?thesis
  proof (cases r1)
    case (Replied a)
    then have "fst (snd (f a db1 fs1)) = db'" using assms(1) m by (simp add: bind_call_def)
    then show ?thesis using m Replied assms(2) by auto
  qed (use assms(1) m in \<open>auto simp: bind_call_def\<close>)
qed

lemma get_entry_state: "fst (snd (get_entry i db fs)) = db"
proof -
  have "keeps (\<lambda>db'. db' = db) (get_entry i)"
    unfolding get_entry_def load_tags_for_entries_def Let_def by (intro keeps_intros)
  then show ?thesis by (cases "get_entry i db fs") (auto dest: keepsD)
qed

text \<open>A transaction followed by something that does not write.\<close>

lemma post_outcome:
  assumes "fault_free (transaction m)" and "\<And>a db fs. fst (snd (f a db fs)) = db"
    and "bind_call (transaction m) f db fs = (r, db', fs')"
  shows "db' = db \<or> fst (snd (bind_call (transaction m) f db [])) = db'"
proof -
  obtain r1 fs1 where "transaction m db fs = (r1, db', fs1)" using bind_seq_state [OF assms(3,2)] by blast
  from write_outcome [OF assms(1) this] show ?thesis
  proof
    assume "\<exists>a. r1 = Replied a \<and> transaction m db [] = (Replied a, db', [])"
    then show ?thesis using assms(2) by (auto simp: bind_call_def)
  qed blast
qed

lemma update_status_extended_outcome:
  assumes "store_ok db" and "last_id db < u64_max" and "update_entry_status_extended env i s by_whom pre db fs = (r, db', fs')"
  shows "db' = db \<or> (\<exists>row. hm_get (entries_table db) i = Some row \<and>
    db' = restatused i row (restatused_row env s by_whom pre row) db)"
proof -
  have "db' = db \<or> fst (snd (update_entry_status_extended env i s by_whom pre db [])) = db'"
    using assms(3) unfolding update_entry_status_extended_def seq_call_def [of "transaction _"]
    by (rule post_outcome [rotated 2]) (intro fault_free_intros get_entry_state)+
  then show ?thesis using update_status_extended_calm [OF assms(1,2), of env i s by_whom pre]
    by (auto simp: Let_def split: option.splits)
qed

text \<open>The conditions under which a correction is stored.\<close>

definition correctable :: "store_db \<Rightarrow> nat \<Rightarrow> new_entry \<Rightarrow> entry_record \<Rightarrow> bool" where
  "correctable db i c row \<longleftrightarrow> hm_get (entries_table db) i = Some row \<and> correction_refused i (stored_entry db i row) = None \<and>
     version (stored_entry db i row) < u32_max \<and> distinct (ne_tags c)"

definition correction_of :: "call_env \<Rightarrow> store_db \<Rightarrow> nat \<Rightarrow> entry_record \<Rightarrow> new_entry \<Rightarrow> nat \<Rightarrow> entry_record" where
  "correction_of env db i row c dim = correction_record env i (stored_entry db i row) c dim (Suc (last_id db))"

lemma correct_outcome:
  assumes "store_ok db" and "last_id db < u64_max" and "correct_entry env i c data_id dim db fs = (r, db', fs')"
  shows "db' = db \<or> (\<exists>row. correctable db i c row \<and> db' = corrected env i row (correction_of env db i row c dim) data_id db)"
proof -
  have "db' = db \<or> fst (snd (correct_entry env i c data_id dim db [])) = db'"
    using assms(3) unfolding correct_entry_def
  proof (rule post_outcome [rotated 2])
    show "fault_free (transaction (bind_call (query_call (\<lambda>db. hm_get (entries_table db) i)) (\<lambda>row.
       case row of
         None \<Rightarrow> fail_call (EntryNotFound i)
       | Some r \<Rightarrow>
         bind_call (load_tags_for_entries [i]) (\<lambda>tag_map.
         let e = entry_from_row r;
             original = (case hm_get tag_map i of Some ts \<Rightarrow> e\<lparr>tags := ts\<rparr> | None \<Rightarrow> e)
         in bind_call (supersede_original env i original c data_id dim) (\<lambda>new_rec.
            return_call (original, new_rec))))))"
      unfolding supersede_original_def insert_correction_def Let_def by (intro fault_free_intros)
  qed (auto simp: panic_call_def return_call_def split: prod.split)
  then show ?thesis using correct_entry_calm [OF assms(1,2), of env i c data_id dim]
    by (auto simp: Let_def correctable_def correction_of_def not_le split: option.splits if_splits)
qed

section \<open>Events\<close>

text \<open>Every writing call of the store; functions and constraint messages are arguments of the source or the engine.\<close>

datatype store_event =
  InsertEvent new_entry
| CorrectEvent nat new_entry nat nat
| UpdateEvent entry_record
| StatusEvent nat status
| StatusExtendedEvent nat status "string option" "(8 word) option"
| DeleteEvent nat
| AddTagEvent nat string
| RemoveTagEvent nat string
| ReplaceTagEvent "string list \<Rightarrow> string" nat string string
| UsageEvent usage_batch "(entry_record \<Rightarrow> nat \<Rightarrow> 64 word) option"
| AccessEvent "nat list" nat
| ConfidenceEvent nat "64 word"
| DimensionEvent nat nat
| MappingEvent nat nat
| DropMappingEvent nat
| RewriteMappingsEvent string "(nat \<times> nat) list"
| FeatureEvent string "nat list" "string option"
| OutcomeEvent nat string string
| CompactionEvent string int int
| CleanupEvent nat

definition discard :: "'a call \<Rightarrow> unit call" where
  "discard m = bind_call m (\<lambda>_. return_call ())"

definition event_call :: "call_env \<Rightarrow> store_event \<Rightarrow> unit call" where
  "event_call env ev = (case ev of
     InsertEvent e \<Rightarrow> discard (insert_entry env e)
   | CorrectEvent i c d n \<Rightarrow> discard (correct_entry env i c d n)
   | UpdateEvent e \<Rightarrow> update_entry env e
   | StatusEvent i s \<Rightarrow> update_status env i s
   | StatusExtendedEvent i s m p \<Rightarrow> discard (update_entry_status_extended env i s m p)
   | DeleteEvent i \<Rightarrow> delete_entry i
   | AddTagEvent i t \<Rightarrow> add_tag env i t
   | RemoveTagEvent i t \<Rightarrow> remove_tag i t
   | ReplaceTagEvent pick i ns t \<Rightarrow> discard (replace_tag env pick i ns t)
   | UsageEvent b f \<Rightarrow> record_usage_with_confidence env b f
   | AccessEvent is n \<Rightarrow> increment_access_counts is n
   | ConfidenceEvent i x \<Rightarrow> update_confidence i x
   | DimensionEvent i d \<Rightarrow> update_embedding_dim i d
   | MappingEvent i d \<Rightarrow> put_vector_mapping i d
   | DropMappingEvent i \<Rightarrow> delete_vector_mapping i
   | RewriteMappingsEvent w ms \<Rightarrow> rewrite_vector_map w ms
   | FeatureEvent c is ph \<Rightarrow> record_feature_entries c is ph
   | OutcomeEvent i k c \<Rightarrow> insert_outcome_index_if_applicable i k c
   | CompactionEvent s t h \<Rightarrow> insert_compaction_event s t h
   | CleanupEvent n \<Rightarrow> discard (cleanup_stale_co_access n))"

text \<open>Calls that allocate an id.\<close>

definition id_cost :: "store_event \<Rightarrow> nat" where
  "id_cost ev = (case ev of InsertEvent e \<Rightarrow> 1 | CorrectEvent i c d n \<Rightarrow> 1 | _ \<Rightarrow> 0)"

text \<open>A step: a call at a time, with the faults of its statements.\<close>

type_synonym store_step = "call_env \<times> store_event \<times> fault option list"

definition store_step :: "store_db \<Rightarrow> store_step \<Rightarrow> store_db option" where
  "store_step db st = (case st of (env, ev, fs) \<Rightarrow> Some (fst (snd (event_call env ev db fs))))"

definition step_cost :: "store_step \<Rightarrow> nat" where
  "step_cost st = id_cost (fst (snd st))"

definition run_store :: "store_db \<Rightarrow> store_step list \<Rightarrow> store_db" where
  "run_store = foldl (\<lambda>db (env, ev, fs). fst (snd (event_call env ev db fs)))"

lemma run_store_steps: "run_steps store_step db sts = Some (run_store db sts)"
  by (induction sts arbitrary: db) (auto simp: run_store_def store_step_def)

lemma discard_state: "fst (snd (discard m db fs)) = fst (snd (m db fs))"
  by (auto simp: discard_def bind_call_def return_call_def split: prod.split reply.split)

text \<open>The calls that rows, tags and counters depend on; the others fulfil the contract.\<close>

definition row_event :: "store_event \<Rightarrow> bool" where
  "row_event ev \<longleftrightarrow> (case ev of InsertEvent e \<Rightarrow> True | CorrectEvent i c d n \<Rightarrow> True | UpdateEvent e \<Rightarrow> True | StatusEvent i s \<Rightarrow> True
     | StatusExtendedEvent i s m p \<Rightarrow> True | DeleteEvent i \<Rightarrow> True | _ \<Rightarrow> False)"

context table_contract
begin

lemma keeps_discard: "keeps inv m \<Longrightarrow> keeps inv (discard m)"
  unfolding discard_def by (intro keeps_intros)

lemma keeps_event: "\<not> row_event ev \<Longrightarrow> keeps inv (event_call env ev)"
  by (cases ev) (simp_all add: row_event_def event_call_def keeps_discard keeps_tag_calls keeps_vector_calls
      keeps_index_calls keeps_usage_calls)

lemma inv_event: "\<not> row_event ev \<Longrightarrow> inv db \<Longrightarrow> inv (fst (snd (event_call env ev db fs)))"
  by (metis keeps_event keepsD prod.collapse)

end

text \<open>What the calls on rows do: one of five changes, or nothing.\<close>

lemma row_event_cases:
  assumes "store_ok db" and "last_id db < u64_max" and "row_event ev" and "db' = fst (snd (event_call env ev db fs))"
  obtains (same) "db' = db"
    | (insert) e where "ev = InsertEvent e" "distinct (ne_tags e)"
        "db' = added (inserted_row env (Suc (last_id db)) e) (ne_tags e) (allocated db)"
    | (correct) i c d n row where "ev = CorrectEvent i c d n" "correctable db i c row"
        "db' = corrected env i row (correction_of env db i row c n) d db"
    | (status) i row s m p where "ev = StatusEvent i s \<or> ev = StatusExtendedEvent i s m p" "hm_get (entries_table db) i = Some row"
        "db' = restatused i row (restatused_row env s m p row) db \<or>
         db' = restatused i row (row\<lparr>status := s, updated_at := env_now env\<rparr>) db"
    | (update) e row where "ev = UpdateEvent e" "hm_get (entries_table db) (eid e) = Some row" "distinct (tags e)" "db' = updated row e db"
    | (delete) i row where "ev = DeleteEvent i" "hm_get (entries_table db) i = Some row" "db' = deleted i row db"
proof (cases ev)
  case (InsertEvent e)
  obtain r fs' where "insert_entry env e db fs = (r, db', fs')"
    using assms(4) by (cases "insert_entry env e db fs") (simp add: event_call_def InsertEvent discard_state)
  then show thesis using insert_outcome [OF assms(1,2)] that(1,2) InsertEvent by blast
next
  case (CorrectEvent i c d n)
  obtain r fs' where "correct_entry env i c d n db fs = (r, db', fs')"
    using assms(4) by (cases "correct_entry env i c d n db fs") (simp add: event_call_def CorrectEvent discard_state)
  then show thesis using correct_outcome [OF assms(1,2)] that(1,3) CorrectEvent by blast
next
  case (UpdateEvent e)
  obtain r fs' where "update_entry env e db fs = (r, db', fs')"
    using assms(4) by (cases "update_entry env e db fs") (simp add: event_call_def UpdateEvent)
  then show thesis using update_entry_outcome [OF assms(1,2)] that(1,5) UpdateEvent by blast
next
  case (StatusEvent i s)
  obtain r fs' where "update_status env i s db fs = (r, db', fs')"
    using assms(4) by (cases "update_status env i s db fs") (simp add: event_call_def StatusEvent)
  then show thesis using update_status_outcome [OF assms(1,2)] that(1,4) StatusEvent by blast
next
  case (StatusExtendedEvent i s m p)
  obtain r fs' where "update_entry_status_extended env i s m p db fs = (r, db', fs')"
    using assms(4) by (cases "update_entry_status_extended env i s m p db fs") (simp add: event_call_def StatusExtendedEvent discard_state)
  then show thesis using update_status_extended_outcome [OF assms(1,2)] that(1,4) StatusExtendedEvent by blast
next
  case (DeleteEvent i)
  obtain r fs' where "delete_entry i db fs = (r, db', fs')"
    using assms(4) by (cases "delete_entry i db fs") (simp add: event_call_def DeleteEvent)
  then show thesis using delete_outcome that(1,6) DeleteEvent by blast
qed (use assms(3) in \<open>simp_all add: row_event_def\<close>)

section \<open>The invariant of the tables\<close>

lemma store_ok_corrected:
  fixes env :: call_env and d n :: nat
  assumes ok: "store_ok db" and c: "correctable db i c row"
  defines "db' \<equiv> corrected env i row (correction_of env db i row c n) d db"
  shows "store_ok db' \<and> last_id db' = Suc (last_id db)"
proof -
  let ?new = "correction_of env db i row c n"
  let ?mv = "moved (status row) Deprecated ((allocated db)\<lparr>entries_table :=
         hm_insert i (deprecated_row env (eid ?new) row) (entries_table db)\<rparr>)"
  have new: "eid ?new = Suc (last_id db)" "tags ?new = ne_tags c" by (simp_all add: correction_of_def)
  have row: "hm_get (entries_table db) i = Some row" and d: "distinct (ne_tags c)" using c by (simp_all add: correctable_def)
  have mok: "store_ok ?mv" by (rule store_ok_deprecated [OF ok row])
  have i: "i \<le> last_id db" using ok row by (simp add: store_ok_def ids_ok_def)
  have "hm_get (entries_table ?mv) (Suc (last_id db)) = None"
    using i ok fresh_id [of db "Suc (last_id db)"] by (simp add: store_ok_def)
  then have "store_ok (added (?new\<lparr>tags := []\<rparr>) (tags ?new) ?mv)"
    by (intro store_ok_added [OF mok]) (simp_all add: new d)
  then show ?thesis unfolding db'_def corrected_def by (simp add: store_ok_frame)
qed

lemma store_ok_inserted:
  assumes "store_ok db" and "distinct ts" and "eid row = Suc (last_id db)"
  shows "store_ok (added row ts (allocated db)) \<and> last_id (added row ts (allocated db)) = Suc (last_id db)"
  using fresh_id [of db "Suc (last_id db)"] store_ok_added [OF store_ok_allocated [OF assms(1)] _ _ _ assms(2), of row] assms(1,3)
  by (simp add: store_ok_def [of db])

lemma store_event_ok:
  assumes ok: "store_ok db" and l: "last_id db < u64_max"
  shows "store_ok (fst (snd (event_call env ev db fs))) \<and> last_id (fst (snd (event_call env ev db fs))) \<le> last_id db + id_cost ev"
proof (cases "row_event ev")
  case True
  define db' where "db' = fst (snd (event_call env ev db fs))"
  have "store_ok db' \<and> last_id db' \<le> last_id db + id_cost ev"
    using ok l True db'_def
  proof (cases rule: row_event_cases)
    case same
    then show ?thesis using ok by simp
  next
    case (insert e)
    then show ?thesis using store_ok_inserted [OF ok insert(2)] by (simp add: inserted_row_def id_cost_def)
  next
    case (correct i c d n row)
    then show ?thesis using store_ok_corrected [OF ok correct(2)] by (simp add: id_cost_def)
  next
    case (status i row s m p)
    then show ?thesis using store_ok_restatused [OF ok status(2)] row_id [OF ok status(2)] by (auto simp: restatused_row_def)
  next
    case (update e row)
    then show ?thesis using store_ok_updated [OF ok update(2,3)] by simp
  next
    case (delete i row)
    then show ?thesis using store_ok_deleted [OF ok delete(2)] by (simp add: deleted_def)
  qed
  then show ?thesis unfolding db'_def .
next
  case False
  then show ?thesis using tables.inv_event [of ev db "last_id db"] ok by (simp add: trans_le_add1)
qed

text \<open>
  Ids are SQLite integers: the model's unbounded counter is the code's as long as fewer than
  \<open>2^63\<close> ids are spent, so the budget is that.
\<close>

definition id_limit :: nat where
  "id_limit = 9223372036854775807"

interpretation store: budgeted store_step "\<lambda>n db. store_ok db \<and> last_id db \<le> n \<and> n \<le> id_limit" "\<lambda>_. True" step_cost id_limit
proof unfold_locales
  fix n db st
  assume a: "store_ok db \<and> last_id db \<le> n \<and> n \<le> id_limit" "n + step_cost st \<le> id_limit"
  obtain env ev fs where st: "st = (env, ev, fs)" by (rule prod_cases3)
  have "last_id db < u64_max" using a(1) by (simp add: id_limit_def u64_max_def)
  from store_event_ok [OF _ this, of env ev fs]
  show "\<exists>db'. store_step db st = Some db' \<and> store_ok db' \<and> last_id db' \<le> n + step_cost st \<and> n + step_cost st \<le> id_limit"
    using a by (auto simp: st store_step_def step_cost_def intro: order_trans)
qed

lemma run_store_ok:
  assumes "store_ok db" and "last_id db + sum_list (map step_cost sts) \<le> id_limit"
  shows "store_ok (run_store db sts) \<and> last_id (run_store db sts) \<le> last_id db + sum_list (map step_cost sts)"
  using store.run_ok [of db "last_id db" sts] assms by (simp add: run_store_steps list_all_iff)

end
