(* ===== verification/Store_Chains.thy ===== *)
theory Store_Chains
  imports Store_Events
begin

text \<open>
  Correction chains: what inserting, correcting and changing the status of entries keeps of the
  hashes, versions and links of the rows. The second interpretation of \<open>table_contract\<close>.
\<close>

section \<open>The invariant\<close>

text \<open>
  A row's hash is the hash of its text. A first version is number 1 and has no link; a later
  version is one more than its predecessor, which is an older row with the linked hash. What a
  row is superseded by names it as its predecessor.
\<close>

definition row_chained :: "(string \<Rightarrow> string) \<Rightarrow> (nat \<Rightarrow> entry_record option) \<Rightarrow> nat \<Rightarrow> entry_record \<Rightarrow> bool" where
  "row_chained sha m i r \<longleftrightarrow>
     content_hash r = compute_content_hash sha (title r) (content r) \<and> version r \<le> u32_max \<and>
     (case supersedes r of
        None \<Rightarrow> previous_hash r = [] \<and> version r = 1
      | Some p \<Rightarrow> p < i \<and> (\<exists>q. m p = Some q \<and> previous_hash r = content_hash q \<and> previous_hash r \<noteq> [] \<and> version r = version q + 1)) \<and>
     (\<forall>j. superseded_by r = Some j \<longrightarrow> (\<exists>q. m j = Some q \<and> supersedes q = Some i))"

definition chained :: "(string \<Rightarrow> string) \<Rightarrow> (nat \<Rightarrow> entry_record option) \<Rightarrow> bool" where
  "chained sha m \<longleftrightarrow> (\<forall>i r. m i = Some r \<longrightarrow> row_chained sha m i r)"

definition chains_ok :: "(string \<Rightarrow> string) \<Rightarrow> store_db \<Rightarrow> bool" where
  "chains_ok sha db \<longleftrightarrow> chained sha (hm_get (entries_table db))"

text \<open>Changes of the other rows that a row's chain does not see.\<close>

definition links_kept :: "(nat \<Rightarrow> entry_record option) \<Rightarrow> (nat \<Rightarrow> entry_record option) \<Rightarrow> bool" where
  "links_kept m m' \<longleftrightarrow> (\<forall>p q. m p = Some q \<longrightarrow> (\<exists>q'. m' p = Some q' \<and> content_hash q' = content_hash q \<and>
     version q' = version q \<and> supersedes q' = supersedes q))"

lemma row_chained_mono: "row_chained sha m i r \<Longrightarrow> links_kept m m' \<Longrightarrow> row_chained sha m' i r"
  unfolding row_chained_def links_kept_def by (auto split: option.splits) metis+

lemma row_chained_neutral:
  "row_chained sha m i r \<Longrightarrow> neutral (r\<lparr>status := status r'\<rparr>) r' \<Longrightarrow> row_chained sha m i r'"
  by (auto simp: row_chained_def neutral_def split: option.splits)

lemma chained_row:
  assumes "chained sha m" and "m i = Some row" and "neutral (row\<lparr>status := status row'\<rparr>) row'"
  shows "chained sha (m(i \<mapsto> row'))"
proof -
  have l: "links_kept m (m(i \<mapsto> row'))" using assms(2,3) by (auto simp: links_kept_def neutral_def)
  show ?thesis
    using assms row_chained_mono [OF _ l] row_chained_neutral [OF _ assms(3)] unfolding chained_def
    by (auto split: if_splits)
qed

lemma chained_insert:
  assumes "chained sha m" and "m i = None" and "row_chained sha (m(i \<mapsto> row)) i row"
  shows "chained sha (m(i \<mapsto> row))"
proof -
  have l: "links_kept m (m(i \<mapsto> row))" using assms(2) by (auto simp: links_kept_def)
  show ?thesis using assms row_chained_mono [OF _ l] unfolding chained_def by (auto split: if_splits)
qed

lemma chained_correct:
  fixes env :: call_env and dim :: nat and row :: entry_record and c :: new_entry
  assumes ch: "chained (env_sha env) m" and row: "m i = Some row" and n: "m n = None" "i < n"
    and orig: "content_hash original = content_hash row" "version original = version row"
    and guards: "content_hash row \<noteq> []" "version row < u32_max"
  defines "new \<equiv> (correction_record env i original c dim n)\<lparr>tags := []\<rparr>"
  shows "chained (env_sha env) (m(i \<mapsto> deprecated_row env n row, n \<mapsto> new))"
proof -
  let ?m = "m(i \<mapsto> deprecated_row env n row, n \<mapsto> new)"
  have l: "links_kept m ?m" using row n by (auto simp: links_kept_def deprecated_row_def)
  have old: "row_chained (env_sha env) ?m k r" if "m k = Some r" for k r
    using ch that row_chained_mono [OF _ l] unfolding chained_def by blast
  have "row_chained (env_sha env) ?m i (deprecated_row env n row)"
    using old [OF row] n(2) by (auto simp: row_chained_def deprecated_row_def new_def correction_record_def split: option.splits)
  moreover have "row_chained (env_sha env) ?m n new"
    using n(2) orig guards by (auto simp: row_chained_def new_def correction_record_def deprecated_row_def)
  ultimately show ?thesis using old unfolding chained_def by (auto split: if_splits)
qed

interpretation chains: table_contract "chains_ok sha" for sha
proof unfold_locales
  fix db i row row'
  show "chains_ok sha db \<Longrightarrow> hm_get (entries_table db) i = Some row \<Longrightarrow> neutral row row' \<Longrightarrow>
      chains_ok sha (db\<lparr>entries_table := hm_insert i row' (entries_table db)\<rparr>)"
    by (auto simp: chains_ok_def neutral_def intro!: chained_row)
qed (simp_all add: chains_ok_def)

section \<open>Calls that keep it\<close>

text \<open>Every call but the ones that overwrite or delete whole rows.\<close>

definition chain_event :: "store_event \<Rightarrow> bool" where
  "chain_event ev \<longleftrightarrow> (case ev of UpdateEvent e \<Rightarrow> False | DeleteEvent i \<Rightarrow> False | _ \<Rightarrow> True)"

lemma chain_event_ok:
  assumes ok: "store_ok db" and l: "last_id db < u64_max" and ch: "chains_ok (env_sha env) db" and ev: "chain_event ev"
  shows "chains_ok (env_sha env) (fst (snd (event_call env ev db fs)))"
proof (cases "row_event ev")
  case True
  let ?m = "hm_get (entries_table db)" and ?n = "Suc (last_id db)"
  have none: "?m ?n = None" using ok fresh_id [of db ?n] by (simp add: store_ok_def)
  have ch': "chained (env_sha env) ?m" using ch by (simp add: chains_ok_def)
  define db' where "db' = fst (snd (event_call env ev db fs))"
  have "chains_ok (env_sha env) db'"
    using ok l True db'_def
  proof (cases rule: row_event_cases)
    case same
    then show ?thesis using ch by simp
  next
    case (insert e)
    have "row_chained (env_sha env) (?m(?n \<mapsto> inserted_row env ?n e)) ?n (inserted_row env ?n e)"
      by (simp add: row_chained_def inserted_row_def u32_max_def)
    from chained_insert [OF ch' none this]
    show ?thesis by (simp add: insert chains_ok_def) (simp add: inserted_row_def)
  next
    case (correct i c d n row)
    have row: "?m i = Some row" and v: "version (stored_entry db i row) < u32_max" and ref: "correction_refused i (stored_entry db i row) = None"
      using correct(2) by (simp_all add: correctable_def)
    have "version row \<le> u32_max" using ch' row unfolding chained_def row_chained_def by blast
    then have ver: "version (stored_entry db i row) = version row" by (simp add: u32_max_def)
    have "content_hash row \<noteq> []" using ref by (auto simp: correction_refused_def split: if_splits)
    moreover have "i < ?n" using ok row by (simp add: store_ok_def ids_ok_def less_Suc_eq_le)
    ultimately show ?thesis
      using chained_correct [OF ch' row none _ _ ver, of c n] v ver
      by (simp add: correct chains_ok_def corrected_def correction_of_def)
  next
    case (status i row s m p)
    have "chained (env_sha env) (?m(i \<mapsto> restatused_row env s m p row))"
      "chained (env_sha env) (?m(i \<mapsto> row\<lparr>status := s, updated_at := env_now env\<rparr>))"
      by (rule chained_row [OF ch' status(2)], simp add: neutral_def restatused_row_def)+
    then show ?thesis using status(3) by (auto simp: chains_ok_def)
  qed (use ev in \<open>simp_all add: chain_event_def\<close>)
  then show ?thesis unfolding db'_def .
next
  case False
  then show ?thesis by (rule chains.inv_event [OF _ ch])
qed

text \<open>Steps of one store: one hash function.\<close>

definition chain_step :: "(string \<Rightarrow> string) \<Rightarrow> store_step \<Rightarrow> bool" where
  "chain_step sha st \<longleftrightarrow> env_sha (fst st) = sha \<and> chain_event (fst (snd st))"

interpretation chained_store: budgeted store_step
  "\<lambda>n db. store_ok db \<and> chains_ok sha db \<and> last_id db \<le> n \<and> n \<le> id_limit" "chain_step sha" step_cost id_limit for sha
proof unfold_locales
  fix n db st
  assume a: "store_ok db \<and> chains_ok sha db \<and> last_id db \<le> n \<and> n \<le> id_limit" "chain_step sha st" "n + step_cost st \<le> id_limit"
  obtain env ev fs where st: "st = (env, ev, fs)" by (rule prod_cases3)
  have sha: "env_sha env = sha" "chain_event ev" using a(2) by (simp_all add: st chain_step_def)
  have l: "last_id db < u64_max" using a(1) by (simp add: id_limit_def u64_max_def)
  have "chains_ok sha (fst (snd (event_call env ev db fs)))"
    using chain_event_ok [OF _ l, of env ev fs] a(1) sha by simp
  with store_event_ok [OF _ l, of env ev fs]
  show "\<exists>db'. store_step db st = Some db' \<and> store_ok db' \<and> chains_ok sha db' \<and> last_id db' \<le> n + step_cost st \<and> n + step_cost st \<le> id_limit"
    using a by (auto simp: st store_step_def step_cost_def intro: order_trans)
qed

lemma run_store_chained:
  assumes "store_ok db" and "chains_ok sha db" and "list_all (chain_step sha) sts" and "last_id db + sum_list (map step_cost sts) \<le> id_limit"
  shows "store_ok (run_store db sts) \<and> chains_ok sha (run_store db sts)"
  using chained_store.run_ok [of db sha "last_id db" sts] assms by (simp add: run_store_steps)

lemma chains_ok_empty: "chains_ok sha empty_db"
  by (simp add: chains_ok_def chained_def empty_db_def)

end
