(* ===== verification/Store_Query.thy ===== *)
theory Store_Query
  imports Store_Write_Ext
begin

text \<open>
  Reading from the store: the queries of \<open>unimatrix-store/src/read.rs\<close>.

  SQL leaves the order of a result without ORDER BY open: \<open>scan\<close> is the order in which the
  engine returns the selected rows.
\<close>

section \<open>Entries\<close>

definition table_rows :: "store_db \<Rightarrow> entry_record list" where
  "table_rows db = map snd (entries_table db)"

definition select_entries :: "(entry_record list \<Rightarrow> entry_record list) \<Rightarrow> (store_db \<Rightarrow> entry_record \<Rightarrow> bool) \<Rightarrow>
    entry_record list call" where
  "select_entries scan cond =
     bind_call (query_call (\<lambda>db. map entry_from_row (scan (filter (cond db) (table_rows db))))) (\<lambda>entries.
     bind_call (load_tags_for_entries (map eid entries)) (\<lambda>tag_map.
     return_call (apply_tags tag_map entries)))"

text \<open>The SQL conditions.\<close>

definition topic_is :: "string \<Rightarrow> store_db \<Rightarrow> entry_record \<Rightarrow> bool" where
  "topic_is t db e \<longleftrightarrow> topic e = t"

definition category_is :: "string \<Rightarrow> store_db \<Rightarrow> entry_record \<Rightarrow> bool" where
  "category_is c db e \<longleftrightarrow> category e = c"

definition status_is :: "status \<Rightarrow> store_db \<Rightarrow> entry_record \<Rightarrow> bool" where
  "status_is s db e \<longleftrightarrow> status e = s"

text \<open>The group of an entry's rows among those with one of the tags, and its number of distinct tags.\<close>

definition tags_are :: "string list \<Rightarrow> store_db \<Rightarrow> entry_record \<Rightarrow> bool" where
  "tags_are ts db e \<longleftrightarrow>
     (let found = map snd (filter (\<lambda>row. fst row = eid e \<and> snd row \<in> set ts) (tags_table db))
      in found \<noteq> [] \<and> length (remdups found) = length ts)"

record time_range =
  range_start :: nat
  range_end :: nat

definition created_within :: "time_range \<Rightarrow> store_db \<Rightarrow> entry_record \<Rightarrow> bool" where
  "created_within r db e \<longleftrightarrow> as_i64 (range_start r) \<le> int (created_at e) \<and> int (created_at e) \<le> as_i64 (range_end r)"

definition query_by_topic :: "(entry_record list \<Rightarrow> entry_record list) \<Rightarrow> string \<Rightarrow> entry_record list call" where
  "query_by_topic scan t = select_entries scan (topic_is t)"

definition query_by_category :: "(entry_record list \<Rightarrow> entry_record list) \<Rightarrow> string \<Rightarrow> entry_record list call" where
  "query_by_category scan c = select_entries scan (category_is c)"

definition query_by_tags :: "(entry_record list \<Rightarrow> entry_record list) \<Rightarrow> string list \<Rightarrow> entry_record list call" where
  "query_by_tags scan ts = (if ts = [] then return_call [] else select_entries scan (tags_are ts))"

definition query_by_time_range :: "(entry_record list \<Rightarrow> entry_record list) \<Rightarrow> time_range \<Rightarrow> entry_record list call" where
  "query_by_time_range scan r =
     (if range_start r > range_end r then return_call [] else select_entries scan (created_within r))"

definition query_by_status :: "(entry_record list \<Rightarrow> entry_record list) \<Rightarrow> status \<Rightarrow> entry_record list call" where
  "query_by_status scan s = select_entries scan (status_is s)"

definition query_all_entries :: "(entry_record list \<Rightarrow> entry_record list) \<Rightarrow> entry_record list call" where
  "query_all_entries scan = select_entries scan (\<lambda>db e. True)"

definition load_active_entries_with_tags :: "(entry_record list \<Rightarrow> entry_record list) \<Rightarrow> entry_record list call" where
  "load_active_entries_with_tags scan = select_entries scan (status_is Active)"

definition load_outcome_entries_with_tags :: "(entry_record list \<Rightarrow> entry_record list) \<Rightarrow> entry_record list call" where
  "load_outcome_entries_with_tags scan = select_entries scan (category_is ''outcome'')"

section \<open>Combined queries\<close>

record query_filter =
  filter_topic :: "string option"
  filter_category :: "string option"
  filter_tags :: "string list option"
  filter_status :: "status option"
  filter_time_range :: "time_range option"

definition filter_is_empty :: "query_filter \<Rightarrow> bool" where
  "filter_is_empty f \<longleftrightarrow> filter_topic f = None \<and> filter_category f = None \<and> filter_tags f = None \<and>
     filter_status f = None \<and> filter_time_range f = None"

definition effective_status :: "query_filter \<Rightarrow> status option" where
  "effective_status f = (if filter_is_empty f then Some Active else filter_status f)"

definition query_conditions :: "query_filter \<Rightarrow> (store_db \<Rightarrow> entry_record \<Rightarrow> bool) list" where
  "query_conditions f =
     (case filter_topic f of Some t \<Rightarrow> [topic_is t] | None \<Rightarrow> []) @
     (case filter_category f of Some c \<Rightarrow> [category_is c] | None \<Rightarrow> []) @
     (case effective_status f of Some s \<Rightarrow> [status_is s] | None \<Rightarrow> []) @
     (case filter_time_range f of Some r \<Rightarrow> if range_start r \<le> range_end r then [created_within r] else [] | None \<Rightarrow> []) @
     (case filter_tags f of Some ts \<Rightarrow> if ts \<noteq> [] then [tags_are ts] else [] | None \<Rightarrow> [])"

definition where_clause :: "(store_db \<Rightarrow> entry_record \<Rightarrow> bool) list \<Rightarrow> store_db \<Rightarrow> entry_record \<Rightarrow> bool" where
  "where_clause conditions db e \<longleftrightarrow>
     (case conditions of [] \<Rightarrow> status e = Active | _ \<Rightarrow> list_all (\<lambda>c. c db e) conditions)"

definition query :: "(entry_record list \<Rightarrow> entry_record list) \<Rightarrow> query_filter \<Rightarrow> entry_record list call" where
  "query scan f = select_entries scan (where_clause (query_conditions f))"

section \<open>Other tables\<close>

definition get_vector_mapping :: "nat \<Rightarrow> nat option call" where
  "get_vector_mapping i = query_call (\<lambda>db. hm_get (vector_table db) i)"

definition iter_vector_mappings :: "(nat \<times> nat) list call" where
  "iter_vector_mappings = query_call (\<lambda>db. sort_by (\<lambda>x y. fst x \<le> fst y) (vector_table db))"

record co_access_record =
  pair_count :: nat
  pair_updated :: nat

definition co_access_record_of :: "nat \<times> nat \<Rightarrow> co_access_record" where
  "co_access_record_of v = \<lparr>pair_count = fst v mod 2 ^ 32, pair_updated = snd v\<rparr>"

text \<open>The two scans of the pairs of an entry, in the order of the table's rows.\<close>

definition partners_scan :: "(nat \<times> nat \<Rightarrow> nat) \<Rightarrow> (nat \<times> nat \<Rightarrow> nat) \<Rightarrow> nat \<Rightarrow> nat \<Rightarrow> (nat \<times> co_access_record) list call" where
  "partners_scan own other i staleness_cutoff = query_call (\<lambda>db.
     filter (\<lambda>p. fst p \<noteq> i)
       (map (\<lambda>(k, v). (other k, co_access_record_of v))
         (filter (\<lambda>(k, v). own k = i \<and> as_i64 staleness_cutoff \<le> int (snd v)) (co_access_table db))))"

definition get_co_access_partners :: "nat \<Rightarrow> nat \<Rightarrow> (nat \<times> co_access_record) list call" where
  "get_co_access_partners i staleness_cutoff =
     bind_call (partners_scan fst snd i staleness_cutoff) (\<lambda>a.
     bind_call (partners_scan snd fst i staleness_cutoff) (\<lambda>b. return_call (a @ b)))"

definition co_access_stats :: "nat \<Rightarrow> (nat \<times> nat) call" where
  "co_access_stats staleness_cutoff = query_call (\<lambda>db.
     (length (co_access_table db),
      length (filter (\<lambda>row. as_i64 staleness_cutoff \<le> int (snd (snd row))) (co_access_table db))))"

definition count_active_entries_by_category :: "(string, nat) hmap call" where
  "count_active_entries_by_category = query_call (\<lambda>db.
     let active = filter (\<lambda>e. status e = Active) (table_rows db)
     in map (\<lambda>c. (c, length (filter (\<lambda>e. category e = c) active))) (remdups (map category active)))"

record status_aggregates =
  supersedes_count :: nat
  superseded_by_count :: nat
  total_correction_count :: nat
  trust_source_distribution :: "(string, nat) hmap"
  unattributed_count :: nat

definition trust_label :: "entry_record \<Rightarrow> string" where
  "trust_label e = (if trust_source e = [] then ''(none)'' else trust_source e)"

definition compute_status_aggregates :: "status_aggregates call" where
  "compute_status_aggregates =
     bind_call (query_call (\<lambda>db.
       (length (filter (\<lambda>e. supersedes e \<noteq> None) (table_rows db)),
        length (filter (\<lambda>e. superseded_by e \<noteq> None) (table_rows db)),
        sum_list (map correction_count (table_rows db)),
        length (filter (\<lambda>e. created_by e = []) (table_rows db))))) (\<lambda>(s, b, c, u).
     bind_call (query_call (\<lambda>db. map (\<lambda>t. (t, length (filter (\<lambda>e. trust_label e = t) (table_rows db))))
         (remdups (map trust_label (table_rows db))))) (\<lambda>dist_rows.
     return_call \<lparr>supersedes_count = s, superseded_by_count = b, total_correction_count = c,
       trust_source_distribution = fold (\<lambda>(t, n) m. hm_insert t n m) dist_rows [], unattributed_count = u\<rparr>))"

text \<open>
  The most frequent pairs: \<open>order\<close> is the order of the table's rows, which decides between equal
  counts; a limit that is negative as a 64-bit integer is no limit.
\<close>

definition top_co_access_pairs :: "(((nat \<times> nat) \<times> nat \<times> nat) list \<Rightarrow> ((nat \<times> nat) \<times> nat \<times> nat) list) \<Rightarrow>
    nat \<Rightarrow> nat \<Rightarrow> ((nat \<times> nat) \<times> co_access_record) list call" where
  "top_co_access_pairs order n staleness_cutoff = query_call (\<lambda>db.
     let rows = sort_by (\<lambda>x y. fst (snd y) \<le> fst (snd x))
           (order (filter (\<lambda>row. as_i64 staleness_cutoff \<le> int (snd (snd row))) (co_access_table db)))
     in map (\<lambda>(k, v). (k, co_access_record_of v)) (if as_i64 n < 0 then rows else take n rows))"

record entry_classification_meta =
  meta_entry_id :: nat
  meta_title :: string
  meta_topic :: string
  meta_trust_source :: string
  meta_helpful_count :: nat
  meta_unhelpful_count :: nat

definition load_entry_classification_meta :: "(entry_record list \<Rightarrow> entry_record list) \<Rightarrow> entry_classification_meta list call" where
  "load_entry_classification_meta scan = query_call (\<lambda>db.
     map (\<lambda>e. \<lparr>meta_entry_id = eid e, meta_title = title e,
         meta_topic = (if topic e = [] then ''(unattributed)'' else topic e), meta_trust_source = trust_source e,
         meta_helpful_count = helpful_count e mod 2 ^ 32, meta_unhelpful_count = unhelpful_count e mod 2 ^ 32\<rparr>)
       (scan (filter (\<lambda>e. status e = Active) (table_rows db))))"

definition get_content_via_write_pool :: "nat \<Rightarrow> string call" where
  "get_content_via_write_pool i =
     bind_call (query_call (\<lambda>db. map_option content (hm_get (entries_table db) i))) (\<lambda>row.
       case row of None \<Rightarrow> fail_call (EntryNotFound i) | Some c \<Rightarrow> return_call c)"

end
