(* ===== verification/Store_Query_Laws.thy ===== *)
theory Store_Query_Laws
  imports Store_Query Store_Inv
begin

text \<open>
  What the queries of the store answer, without faults: every selected row once, with all its
  tags in order.
\<close>

section \<open>Ordering\<close>

lemma bytes_le_Cons:
  "bytes_le (a # s) (b # t) \<longleftrightarrow> (of_char a :: nat) < of_char b \<or> a = b \<and> bytes_le s t"
  by simp

lemma bytes_le_total: "bytes_le s t \<or> bytes_le t s"
proof (induction s t rule: bytes_le.induct)
  case (3 a s b t)
  consider "(of_char a :: nat) < of_char b" | "(of_char b :: nat) < of_char a" | "a = b"
    by (metis linorder_less_linear of_char_eq_iff)
  then show ?case using 3 by cases (simp_all only: bytes_le_Cons simp_thms, blast)
qed simp_all

lemma bytes_le_trans: "bytes_le s t \<Longrightarrow> bytes_le t u \<Longrightarrow> bytes_le s u"
proof (induction s t arbitrary: u rule: bytes_le.induct)
  case (3 a s b t)
  then obtain c v where u: "u = c # v" by (cases u) simp_all
  have "(of_char a :: nat) < of_char c \<or> a = c \<and> bytes_le s v"
    using 3 unfolding u bytes_le_Cons by (metis less_trans)
  then show ?case unfolding u bytes_le_Cons .
qed simp_all

lemma tag_row_le_laws:
  "tag_row_le x y \<or> tag_row_le y x" "tag_row_le x y \<Longrightarrow> tag_row_le y z \<Longrightarrow> tag_row_le x z"
proof -
  show "tag_row_le x y \<or> tag_row_le y x"
    using bytes_le_total [of "snd x" "snd y"] unfolding tag_row_le_def by (metis linorder_less_linear)
  show "tag_row_le x y \<Longrightarrow> tag_row_le y z \<Longrightarrow> tag_row_le x z"
    using bytes_le_trans [of "snd x" "snd y" "snd z"] unfolding tag_row_le_def by (metis less_trans)
qed

lemma insert_by_first: "\<forall>y \<in> set ys. le x y \<Longrightarrow> insert_by le x ys = x # ys"
  by (cases ys) simp_all

text \<open>Sorting by insertion with a total preorder; interpreted on the order of the tag rows.\<close>

locale row_order =
  fixes le :: "'a \<Rightarrow> 'a \<Rightarrow> bool"
  assumes total: "le x y \<or> le y x" and trans: "le x y \<Longrightarrow> le y z \<Longrightarrow> le x z"
begin

lemma sorted_insert_by: "sorted_wrt le xs \<Longrightarrow> sorted_wrt le (insert_by le x xs)"
proof (induction xs)
  case (Cons y ys)
  have "set (insert_by le x ys) = insert x (set ys)" using insert_by_mset by (metis set_mset_add_mset_insert set_mset_mset)
  then show ?case using Cons total trans by auto
qed simp

lemma sorted_sort_by: "sorted_wrt le (sort_by le xs)"
  unfolding sort_by_def by (induction xs) (simp_all add: sorted_insert_by)

lemma filter_insert_by:
  "sorted_wrt le xs \<Longrightarrow> filter P (insert_by le x xs) = (if P x then insert_by le x (filter P xs) else filter P xs)"
proof (induction xs)
  case (Cons y ys)
  show ?case
  proof (cases "le x y")
    case True
    then have "\<forall>z \<in> set (filter P (y # ys)). le x z" using Cons.prems trans by auto
    then show ?thesis using True by (simp add: insert_by_first)
  qed (use Cons in auto)
qed simp

lemma filter_sort_by: "filter P (sort_by le xs) = sort_by le (filter P xs)"
  using sorted_sort_by unfolding sort_by_def by (induction xs) (simp_all add: filter_insert_by)

end

interpretation tag_rows: row_order tag_row_le
  by unfold_locales (rule tag_row_le_laws, rule tag_row_le_laws(2))

section \<open>Tags of many entries\<close>

lemma get_push_tags:
  "hm_get (fold push_tag rows m) i =
   (let ts = map snd (filter (\<lambda>row. fst row = i) rows) in
    if ts = [] then hm_get m i else Some ((case hm_get m i of Some xs \<Rightarrow> xs | None \<Rightarrow> []) @ ts))"
  by (induction rows arbitrary: m) (auto simp: push_tag_def Let_def)

lemma calm_load_tags_all:
  assumes "ids \<noteq> []"
  obtains m where "load_tags_for_entries ids db [] = (Replied m, db, [])"
    "\<And>e :: entry_record. tags e = [] \<Longrightarrow> eid e \<in> set ids \<Longrightarrow>
       (case hm_get m (eid e) of Some ts \<Rightarrow> e\<lparr>tags := ts\<rparr> | None \<Rightarrow> e) = e\<lparr>tags := sort_by bytes_le (tags_of db (eid e))\<rparr>"
proof -
  let ?rows = "sort_by tag_row_le (filter (\<lambda>row. fst row \<in> set ids) (tags_table db))"
  have own: "map snd (filter (\<lambda>row. fst row = i) ?rows) = sort_by bytes_le (tags_of db i)" if "i \<in> set ids" for i
  proof -
    have "filter (\<lambda>row. fst row = i) ?rows = sort_by tag_row_le (filter (\<lambda>row. fst row = i) (tags_table db))"
      using that by (simp add: tag_rows.filter_sort_by) (metis (mono_tags, lifting))
    then show ?thesis using sort_by_tags [of "filter (\<lambda>row. fst row = i) (tags_table db)" i] by (simp add: tags_of_def)
  qed
  have "load_tags_for_entries ids db [] = (Replied (fold push_tag ?rows []), db, [])"
    using assms by (simp add: load_tags_for_entries_def calm_simps)
  moreover have "(case hm_get (fold push_tag ?rows []) (eid e) of Some ts \<Rightarrow> e\<lparr>tags := ts\<rparr> | None \<Rightarrow> e) =
      e\<lparr>tags := sort_by bytes_le (tags_of db (eid e))\<rparr>" if e: "tags e = []" "eid e \<in> set ids" for e :: entry_record
  proof (cases "sort_by bytes_le (tags_of db (eid e)) = []")
    case True
    then have "e\<lparr>tags := sort_by bytes_le (tags_of db (eid e))\<rparr> = e" using e(1) by (cases e) simp
    then show ?thesis using own [OF e(2)] True by (simp add: get_push_tags)
  qed (use own [OF e(2)] in \<open>simp add: get_push_tags Let_def\<close>)
  ultimately show thesis by (rule that)
qed

section \<open>Selection\<close>

lemma eid_from_row [simp]: "eid (entry_from_row row) = eid row"
  by (simp add: entry_from_row_def)

lemma calm_select:
  "select_entries scan cond db [] =
   (Replied (map (\<lambda>row. stored_entry db (eid row) row) (scan (filter (cond db) (table_rows db)))), db, [])"
proof -
  let ?rows = "scan (filter (cond db) (table_rows db))"
  let ?es = "map entry_from_row ?rows"
  show ?thesis
  proof (cases "?rows = []")
    case True
    then show ?thesis by (simp add: select_entries_def calm_simps load_tags_for_entries_def apply_tags_def)
  next
    case False
    then have "map eid ?es \<noteq> []" by simp
    from calm_load_tags_all [OF this, of db] obtain m where m: "load_tags_for_entries (map eid ?es) db [] = (Replied m, db, [])"
      "\<And>e :: entry_record. tags e = [] \<Longrightarrow> eid e \<in> set (map eid ?es) \<Longrightarrow>
         (case hm_get m (eid e) of Some ts \<Rightarrow> e\<lparr>tags := ts\<rparr> | None \<Rightarrow> e) = e\<lparr>tags := sort_by bytes_le (tags_of db (eid e))\<rparr>"
      by blast
    have "apply_tags m ?es = map (\<lambda>row. stored_entry db (eid row) row) ?rows"
      unfolding apply_tags_def list.map_comp comp_def
  proof (intro map_cong refl)
    fix row assume "row \<in> set ?rows"
    then have "eid (entry_from_row row) \<in> set (map eid ?es)" by simp
    from m(2) [OF entry_from_row_tags this] show "(case hm_get m (eid (entry_from_row row)) of
        Some ts \<Rightarrow> (entry_from_row row)\<lparr>tags := ts\<rparr> | None \<Rightarrow> entry_from_row row) = stored_entry db (eid row) row"
      by (simp add: stored_entry_def)
  qed
    then show ?thesis using m(1) by (simp add: select_entries_def calm_simps)
  qed
qed

text \<open>The rows an order of the engine returns.\<close>

definition any_order :: "('a list \<Rightarrow> 'a list) \<Rightarrow> bool" where
  "any_order scan \<longleftrightarrow> (\<forall>rows. mset (scan rows) = mset rows)"

lemma any_orderD: "any_order scan \<Longrightarrow> set (scan rows) = set rows"
  unfolding any_order_def by (metis mset_eq_setD)

lemma table_rows_iff:
  assumes "store_ok db"
  shows "row \<in> set (table_rows db) \<longleftrightarrow> hm_get (entries_table db) (eid row) = Some row"
proof -
  have ok: "hm_ok (entries_table db)" using assms by (simp add: store_ok_def ids_ok_def)
  have "row \<in> set (table_rows db) \<longleftrightarrow> (\<exists>i. (i, row) \<in> set (entries_table db))" by (force simp: table_rows_def)
  then show ?thesis unfolding hm.items_get [OF ok] using row_id [OF assms] by blast
qed

lemma distinct_table:
  assumes "store_ok db"
  shows "distinct (map eid (table_rows db))"
proof -
  have ok: "hm_ok (entries_table db)" using assms by (simp add: store_ok_def ids_ok_def)
  have "eid (snd p) = fst p" if "p \<in> set (entries_table db)" for p
    using that row_id [OF assms] hm.items_get [OF ok, of "fst p" "snd p"] by simp
  then have "map eid (table_rows db) = map fst (entries_table db)" by (simp add: table_rows_def)
  then show ?thesis using ok by (simp add: hm_ok_def)
qed

lemma select_exact:
  assumes "store_ok db" and "any_order scan"
  obtains es where "select_entries scan cond db [] = (Replied es, db, [])" "distinct (map eid es)"
    "\<And>e. e \<in> set es \<longleftrightarrow> (\<exists>i row. hm_get (entries_table db) i = Some row \<and> cond db row \<and> e = stored_entry db i row)"
proof -
  let ?rows = "scan (filter (cond db) (table_rows db))"
  let ?es = "map (\<lambda>row. stored_entry db (eid row) row) ?rows"
  have "mset (map eid ?rows) = mset (map eid (filter (cond db) (table_rows db)))"
    using assms(2) by (simp add: any_order_def)
  then have "distinct (map eid ?rows)"
    using distinct_table [OF assms(1)] distinct_map_filter mset_eq_imp_distinct_iff by blast
  then have "distinct (map eid ?es)" by (simp add: comp_def stored_entry_def)
  moreover have "e \<in> set ?es \<longleftrightarrow> (\<exists>i row. hm_get (entries_table db) i = Some row \<and> cond db row \<and> e = stored_entry db i row)" for e
    unfolding set_map any_orderD [OF assms(2)] set_filter image_iff using table_rows_iff [OF assms(1)] row_id [OF assms(1)]
    by (smt (verit, best) mem_Collect_eq)
  ultimately show thesis using that calm_select by blast
qed

section \<open>Conditions\<close>

lemma tags_are_iff:
  "tags_are ts db e \<longleftrightarrow> ts \<noteq> [] \<and> distinct ts \<and> set ts \<subseteq> set (tags_of db (eid e))"
proof -
  let ?found = "map snd (filter (\<lambda>row. fst row = eid e \<and> snd row \<in> set ts) (tags_table db))"
  have s: "set ?found = set ts \<inter> set (tags_of db (eid e))" by (auto simp: tags_of_def)
  have l: "length (remdups ?found) = card (set ts \<inter> set (tags_of db (eid e)))" by (simp only: length_remdups_card_conv s)
  have c: "card (set ts \<inter> T) = length ts \<longleftrightarrow> distinct ts \<and> set ts \<subseteq> T" for T
  proof
    assume c: "card (set ts \<inter> T) = length ts"
    have "card (set ts \<inter> T) \<le> card (set ts)" "card (set ts) \<le> length ts" by (simp_all add: card_mono card_length)
    then have "card (set ts) = length ts" "set ts \<inter> T = set ts"
      using c card_subset_eq [of "set ts" "set ts \<inter> T"] by simp_all
    then show "distinct ts \<and> set ts \<subseteq> T" using card_distinct by blast
  qed (simp add: Int_absorb2 distinct_card)
  have f: "?found = [] \<longleftrightarrow> set ts \<inter> set (tags_of db (eid e)) = {}" unfolding s [symmetric] by (simp only: set_empty)
  have "tags_are ts db e \<longleftrightarrow> set ts \<inter> set (tags_of db (eid e)) \<noteq> {} \<and> distinct ts \<and> set ts \<subseteq> set (tags_of db (eid e))"
    unfolding tags_are_def Let_def l c f ..
  then show ?thesis by (cases ts) auto
qed

lemma created_within_iff:
  "range_end r < 2 ^ 63 \<Longrightarrow> range_start r \<le> range_end r \<Longrightarrow>
   created_within r db e \<longleftrightarrow> range_start r \<le> created_at e \<and> created_at e \<le> range_end r"
  by (simp add: created_within_def as_i64_def)

end
