(* ===== verification/Relation_Graph.thy ===== *)
theory Relation_Graph
  imports Entry_Schema "HOL-Library.Multiset"
begin

text \<open>
  The typed relation graph: \<open>unimatrix-engine/src/graph.rs\<close> up to
  \<open>build_typed_relation_graph\<close>.

  The graph container is the third-party crate petgraph. Its operations are the fields of a
  record that every definition takes as an argument; \<open>petgraph_ok\<close> states the documented
  behaviour the code relies on. Indexing a missing node and adding an edge between missing
  nodes panic, which is the result None. Weights of edges are IEEE single bit patterns: they
  are only copied here.
\<close>

section \<open>Relation types\<close>

datatype relation_type =
  Supersedes | Contradicts | Supports | CoAccess | Prerequisite | Informs
| Advances | Motivates | Cites | Asserts | Mentions | Refutes | Tests | DerivedFrom | About | RelatedTo

fun as_str :: "relation_type \<Rightarrow> string" where
  "as_str Supersedes = ''Supersedes''"
| "as_str Contradicts = ''Contradicts''"
| "as_str Supports = ''Supports''"
| "as_str CoAccess = ''CoAccess''"
| "as_str Prerequisite = ''Prerequisite''"
| "as_str Informs = ''Informs''"
| "as_str Advances = ''Advances''"
| "as_str Motivates = ''Motivates''"
| "as_str Cites = ''Cites''"
| "as_str Asserts = ''Asserts''"
| "as_str Mentions = ''Mentions''"
| "as_str Refutes = ''Refutes''"
| "as_str Tests = ''Tests''"
| "as_str DerivedFrom = ''DerivedFrom''"
| "as_str About = ''About''"
| "as_str RelatedTo = ''RelatedTo''"

definition from_str :: "string \<Rightarrow> relation_type option" where
  "from_str s =
     (if s = ''Supersedes'' then Some Supersedes
      else if s = ''Contradicts'' then Some Contradicts
      else if s = ''Supports'' then Some Supports
      else if s = ''CoAccess'' then Some CoAccess
      else if s = ''Prerequisite'' then Some Prerequisite
      else if s = ''Informs'' then Some Informs
      else if s = ''Advances'' then Some Advances
      else if s = ''Motivates'' then Some Motivates
      else if s = ''Cites'' then Some Cites
      else if s = ''Asserts'' then Some Asserts
      else if s = ''Mentions'' then Some Mentions
      else if s = ''Refutes'' then Some Refutes
      else if s = ''Tests'' then Some Tests
      else if s = ''DerivedFrom'' then Some DerivedFrom
      else if s = ''About'' then Some About
      else if s = ''RelatedTo'' then Some RelatedTo
      else None)"

section \<open>Edges and the graph container\<close>

record relation_edge =
  edge_type :: string
  edge_weight :: "32 word"
  edge_created_at :: int
  edge_created_by :: string
  edge_source :: string
  edge_bootstrap_only :: bool

record graph_edge_row =
  source_id :: nat
  target_id :: nat
  row_type :: string
  row_weight :: "32 word"
  row_created_at :: int
  row_created_by :: string
  row_source :: string
  row_bootstrap_only :: bool

datatype graph_error = CycleDetected

datatype direction = Outgoing | Incoming

text \<open>
  The operations of \<open>petgraph::StableGraph\<close> with node weights of type u64 that the code calls;
  an edge reference is the triple of its source index, target index and weight.
\<close>

record ('g, 'ix, 'e) petgraph =
  pg_new :: 'g
  pg_add_node :: "'g \<Rightarrow> nat \<Rightarrow> 'g \<times> 'ix"
  pg_add_edge :: "'g \<Rightarrow> 'ix \<Rightarrow> 'ix \<Rightarrow> 'e \<Rightarrow> 'g option"
  pg_node_weight :: "'g \<Rightarrow> 'ix \<Rightarrow> nat option"
  pg_edges_directed :: "'g \<Rightarrow> 'ix \<Rightarrow> direction \<Rightarrow> ('ix \<times> 'ix \<times> 'e) list"
  pg_edge_references :: "'g \<Rightarrow> ('ix \<times> 'ix \<times> 'e) list"
  pg_is_cyclic :: "'g \<Rightarrow> bool"

definition edge_at :: "direction \<Rightarrow> 'ix \<Rightarrow> 'ix \<times> 'ix \<times> 'e \<Rightarrow> bool" where
  "edge_at d i r = (case d of Outgoing \<Rightarrow> fst r = i | Incoming \<Rightarrow> fst (snd r) = i)"

definition petgraph_ok :: "('g, 'ix, 'e) petgraph \<Rightarrow> bool" where
  "petgraph_ok pg \<longleftrightarrow>
     pg_node_weight pg (pg_new pg) = (\<lambda>_. None) \<and>
     pg_edge_references pg (pg_new pg) = [] \<and>
     (\<forall>g w g' i. pg_add_node pg g w = (g', i) \<longrightarrow>
        pg_node_weight pg g i = None \<and>
        pg_node_weight pg g' = (pg_node_weight pg g)(i \<mapsto> w) \<and>
        mset (pg_edge_references pg g') = mset (pg_edge_references pg g)) \<and>
     (\<forall>g a b e. pg_node_weight pg g a \<noteq> None \<longrightarrow> pg_node_weight pg g b \<noteq> None \<longrightarrow>
        (\<exists>g'. pg_add_edge pg g a b e = Some g' \<and>
          pg_node_weight pg g' = pg_node_weight pg g \<and>
          mset (pg_edge_references pg g') = add_mset (a, b, e) (mset (pg_edge_references pg g)))) \<and>
     (\<forall>g i d. mset (pg_edges_directed pg g i d) = filter_mset (edge_at d i) (mset (pg_edge_references pg g))) \<and>
     (\<forall>g. pg_is_cyclic pg g \<longleftrightarrow> \<not> acyclic ((\<lambda>(a, b, e). (a, b)) ` set (pg_edge_references pg g)))"

record ('g, 'ix) typed_relation_graph =
  inner :: 'g
  node_index :: "(nat, 'ix) hmap"

definition graph_empty :: "('g, 'ix, relation_edge) petgraph \<Rightarrow> ('g, 'ix) typed_relation_graph" where
  "graph_empty pg = \<lparr>inner = pg_new pg, node_index = []\<rparr>"

definition node_index_for :: "('g, 'ix) typed_relation_graph \<Rightarrow> nat \<Rightarrow> 'ix option" where
  "node_index_for g i = hm_get (node_index g) i"

definition node_id_for_index ::
    "('g, 'ix, relation_edge) petgraph \<Rightarrow> ('g, 'ix) typed_relation_graph \<Rightarrow> 'ix \<Rightarrow> nat option" where
  "node_id_for_index pg g idx = pg_node_weight pg (inner g) idx"

definition edges_of_type :: "('g, 'ix, relation_edge) petgraph \<Rightarrow> ('g, 'ix) typed_relation_graph \<Rightarrow>
    'ix \<Rightarrow> relation_type \<Rightarrow> direction \<Rightarrow> ('ix \<times> 'ix \<times> relation_edge) list" where
  "edges_of_type pg g node_idx rt d =
     (let type_str = as_str rt
      in filter (\<lambda>(_, _, e). edge_type e = type_str) (pg_edges_directed pg (inner g) node_idx d))"

section \<open>Building the graph\<close>

text \<open>Pass 1.\<close>

definition add_entry_node :: "('g, 'ix, relation_edge) petgraph \<Rightarrow> entry_record \<Rightarrow>
    ('g, 'ix) typed_relation_graph \<Rightarrow> ('g, 'ix) typed_relation_graph" where
  "add_entry_node pg entry g =
     (let (inner', idx) = pg_add_node pg (inner g) (eid entry)
      in g\<lparr>inner := inner', node_index := hm_insert (eid entry) idx (node_index g)\<rparr>)"

text \<open>Pass 2a; 1.0 is the bit pattern 0x3F800000.\<close>

definition supersedes_edge :: relation_edge where
  "supersedes_edge = \<lparr>edge_type = ''Supersedes'', edge_weight = 0x3F800000, edge_created_at = 0,
     edge_created_by = ''bootstrap'', edge_source = ''entries.supersedes'', edge_bootstrap_only = False\<rparr>"

definition add_supersedes_edge :: "('g, 'ix, relation_edge) petgraph \<Rightarrow> ('g, 'ix) typed_relation_graph \<Rightarrow>
    entry_record \<Rightarrow> ('g, 'ix) typed_relation_graph option" where
  "add_supersedes_edge pg g entry =
     (case supersedes entry of
        None \<Rightarrow> Some g
      | Some pred_id \<Rightarrow>
          (case hm_get (node_index g) pred_id of
             None \<Rightarrow> Some g
           | Some pred_idx \<Rightarrow>
               (case hm_get (node_index g) (eid entry) of
                  None \<Rightarrow> None
                | Some succ_idx \<Rightarrow>
                    map_option (\<lambda>inner'. g\<lparr>inner := inner'\<rparr>)
                      (pg_add_edge pg (inner g) pred_idx succ_idx supersedes_edge))))"

text \<open>Pass 2b.\<close>

definition row_edge :: "graph_edge_row \<Rightarrow> relation_edge" where
  "row_edge row = \<lparr>edge_type = row_type row, edge_weight = row_weight row,
     edge_created_at = row_created_at row, edge_created_by = row_created_by row,
     edge_source = row_source row, edge_bootstrap_only = False\<rparr>"

definition add_edge_row :: "('g, 'ix, relation_edge) petgraph \<Rightarrow> ('g, 'ix) typed_relation_graph \<Rightarrow>
    graph_edge_row \<Rightarrow> ('g, 'ix) typed_relation_graph option" where
  "add_edge_row pg g row =
     (if row_bootstrap_only row then Some g
      else if row_type row = ''Supersedes'' then Some g
      else if from_str (row_type row) = None then Some g
      else case hm_get (node_index g) (source_id row) of
          None \<Rightarrow> Some g
        | Some source_idx \<Rightarrow>
            (case hm_get (node_index g) (target_id row) of
               None \<Rightarrow> Some g
             | Some target_idx \<Rightarrow>
                 map_option (\<lambda>inner'. g\<lparr>inner := inner'\<rparr>)
                   (pg_add_edge pg (inner g) source_idx target_idx (row_edge row))))"

text \<open>Pass 3: the temporary graph of Supersedes edges and the cycle check on it.\<close>

definition add_temp_node :: "('t, 'ix, unit) petgraph \<Rightarrow> nat \<Rightarrow> 't \<times> (nat, 'ix) hmap \<Rightarrow> 't \<times> (nat, 'ix) hmap" where
  "add_temp_node pt entry_id st =
     (case st of (t, temp_nodes) \<Rightarrow>
        let (t', tidx) = pg_add_node pt t entry_id in (t', hm_insert entry_id tidx temp_nodes))"

definition add_temp_edge :: "('g, 'ix, relation_edge) petgraph \<Rightarrow> ('t, 'ix, unit) petgraph \<Rightarrow>
    ('g, 'ix) typed_relation_graph \<Rightarrow> (nat, 'ix) hmap \<Rightarrow> 't \<Rightarrow> 'ix \<times> 'ix \<times> relation_edge \<Rightarrow> 't option" where
  "add_temp_edge pg pt g temp_nodes t edge_ref =
     (case edge_ref of (src, tgt, e) \<Rightarrow>
        if edge_type e = ''Supersedes'' then
          (case (pg_node_weight pg (inner g) src, pg_node_weight pg (inner g) tgt) of
             (Some src_id, Some tgt_id) \<Rightarrow>
               (case (hm_get temp_nodes src_id, hm_get temp_nodes tgt_id) of
                  (Some tsrc, Some ttgt) \<Rightarrow> pg_add_edge pt t tsrc ttgt ()
                | _ \<Rightarrow> None)
           | _ \<Rightarrow> None)
        else Some t)"

definition supersedes_cyclic :: "('g, 'ix, relation_edge) petgraph \<Rightarrow> ('t, 'ix, unit) petgraph \<Rightarrow>
    ('g, 'ix) typed_relation_graph \<Rightarrow> bool option" where
  "supersedes_cyclic pg pt g =
     (let (t, temp_nodes) = fold (add_temp_node pt) (map fst (node_index g)) (pg_new pt, [])
      in map_option (pg_is_cyclic pt)
           (run_steps (add_temp_edge pg pt g temp_nodes) t (pg_edge_references pg (inner g))))"

definition build_typed_relation_graph :: "('g, 'ix, relation_edge) petgraph \<Rightarrow> ('t, 'ix, unit) petgraph \<Rightarrow>
    entry_record list \<Rightarrow> graph_edge_row list \<Rightarrow> (graph_error + ('g, 'ix) typed_relation_graph) option" where
  "build_typed_relation_graph pg pt entries edges =
     (let g1 = fold (add_entry_node pg) entries (graph_empty pg)
      in case run_steps (add_supersedes_edge pg) g1 entries of
           None \<Rightarrow> None
         | Some g2 \<Rightarrow>
             (case run_steps (add_edge_row pg) g2 edges of
                None \<Rightarrow> None
              | Some g3 \<Rightarrow>
                  map_option (\<lambda>cyclic. if cyclic then Inl CycleDetected else Inr g3)
                    (supersedes_cyclic pg pt g3)))"

section \<open>Relation types round-trip\<close>

text \<open>
  The stored names of relation types round-trip: a name parses to a type if and only if
  it is the canonical name of that type, so distinct types have distinct names, every type
  written to the edge table is read back, and every other string is rejected.
\<close>

theorem relation_type_roundtrip:
  "from_str (as_str rt) = Some rt \<and> (from_str s = Some rt \<longleftrightarrow> s = as_str rt) \<and>
   (from_str s = None \<longleftrightarrow> s \<notin> range as_str)"
proof -
  have a: "from_str (as_str rt) = Some rt" for rt by (cases rt) (simp_all add: from_str_def)
  have b: "from_str s = Some rt \<Longrightarrow> s = as_str rt" for rt
    by (auto simp: from_str_def split: if_splits)
  show ?thesis using a b by (metis not_Some_eq rangeE rangeI)
qed

end
