(* ===== verification/Graph_Build.thy ===== *)
theory Graph_Build
  imports Relation_Graph
begin

text \<open>
  Correctness of \<open>build_typed_relation_graph\<close>: it returns on every input, the graph has one node
  per entry and exactly the edges the documentation lists, and it fails exactly on a cycle of
  supersessions. Below, a graph is seen through its ids: the node indices of petgraph are
  related to entry ids one to one.
\<close>

section \<open>Laws of the container, as rules\<close>

lemma pg_new_laws:
  assumes "petgraph_ok pg"
  shows "pg_node_weight pg (pg_new pg) = (\<lambda>_. None)" "pg_edge_references pg (pg_new pg) = []"
  using assms by (simp_all add: petgraph_ok_def)

lemma pg_add_node_laws:
  assumes "petgraph_ok pg" and "pg_add_node pg g w = (g', i)"
  shows "pg_node_weight pg g i = None" "pg_node_weight pg g' = (pg_node_weight pg g)(i \<mapsto> w)"
    "mset (pg_edge_references pg g') = mset (pg_edge_references pg g)"
  using assms by (simp_all add: petgraph_ok_def)

lemma pg_add_edge_laws:
  assumes "petgraph_ok pg" and "pg_node_weight pg g a \<noteq> None" and "pg_node_weight pg g b \<noteq> None"
  obtains g' where "pg_add_edge pg g a b e = Some g'" "pg_node_weight pg g' = pg_node_weight pg g"
    "mset (pg_edge_references pg g') = add_mset (a, b, e) (mset (pg_edge_references pg g))"
proof -
  have "\<forall>g a b e. pg_node_weight pg g a \<noteq> None \<longrightarrow> pg_node_weight pg g b \<noteq> None \<longrightarrow>
      (\<exists>g'. pg_add_edge pg g a b e = Some g' \<and> pg_node_weight pg g' = pg_node_weight pg g \<and>
        mset (pg_edge_references pg g') = add_mset (a, b, e) (mset (pg_edge_references pg g)))"
    using assms(1) unfolding petgraph_ok_def by (elim conjE)
  then show thesis using assms(2,3) that by blast
qed

lemma pg_edges_directed_law:
  assumes "petgraph_ok pg"
  shows "mset (pg_edges_directed pg g i d) = filter_mset (edge_at d i) (mset (pg_edge_references pg g))"
  using assms by (simp add: petgraph_ok_def)

lemma pg_is_cyclic_law:
  assumes "petgraph_ok pg"
  shows "pg_is_cyclic pg g \<longleftrightarrow> \<not> acyclic ((\<lambda>(a, b, e). (a, b)) ` set (pg_edge_references pg g))"
  using assms by (simp add: petgraph_ok_def)

section \<open>Graphs seen through their ids\<close>

definition graph_wf :: "('g, 'ix, 'e) petgraph \<Rightarrow> ('g, 'ix) typed_relation_graph \<Rightarrow> bool" where
  "graph_wf pg g \<longleftrightarrow> hm_ok (node_index g) \<and>
     (\<forall>i x. hm_get (node_index g) i = Some x \<longleftrightarrow> pg_node_weight pg (inner g) x = Some i) \<and>
     (\<forall>(a, b, e) \<in> set (pg_edge_references pg (inner g)).
        pg_node_weight pg (inner g) a \<noteq> None \<and> pg_node_weight pg (inner g) b \<noteq> None)"

definition graph_ids :: "('g, 'ix) typed_relation_graph \<Rightarrow> nat set" where
  "graph_ids g = dom (hm_get (node_index g))"

definition id_edges :: "('g, 'ix, 'e) petgraph \<Rightarrow> ('g, 'ix) typed_relation_graph \<Rightarrow> (nat \<times> nat \<times> 'e) multiset" where
  "id_edges pg g = image_mset (\<lambda>(a, b, e). (the (pg_node_weight pg (inner g) a), the (pg_node_weight pg (inner g) b), e))
     (mset (pg_edge_references pg (inner g)))"

lemma wf_index: "graph_wf pg g \<Longrightarrow> hm_get (node_index g) i = Some x \<longleftrightarrow> pg_node_weight pg (inner g) x = Some i"
  by (simp add: graph_wf_def)

lemma wf_edge:
  assumes "graph_wf pg g" and "(a, b, e) \<in> set (pg_edge_references pg (inner g))"
  obtains u v where "pg_node_weight pg (inner g) a = Some u" "pg_node_weight pg (inner g) b = Some v"
    "(u, v, e) \<in># id_edges pg g"
proof -
  obtain u v where w: "pg_node_weight pg (inner g) a = Some u" "pg_node_weight pg (inner g) b = Some v"
    using assms by (fastforce simp: graph_wf_def)
  then have "(u, v, e) \<in># id_edges pg g" using assms(2) by (force simp: id_edges_def)
  with w show thesis by (rule that)
qed

lemma id_edge_iff:
  "(u, v, e) \<in># id_edges pg g \<longleftrightarrow> (\<exists>a b. (a, b, e) \<in> set (pg_edge_references pg (inner g)) \<and>
     u = the (pg_node_weight pg (inner g) a) \<and> v = the (pg_node_weight pg (inner g) b))"
  by (force simp: id_edges_def)

lemma id_edge_refs:
  assumes "graph_wf pg g" and "(u, v, e) \<in># id_edges pg g"
  obtains a b where "(a, b, e) \<in> set (pg_edge_references pg (inner g))"
    "hm_get (node_index g) u = Some a" "hm_get (node_index g) v = Some b"
proof -
  obtain a b where r: "(a, b, e) \<in> set (pg_edge_references pg (inner g))"
    and uv: "u = the (pg_node_weight pg (inner g) a)" "v = the (pg_node_weight pg (inner g) b)"
    using assms(2) by (auto simp: id_edges_def)
  obtain u' v' where "pg_node_weight pg (inner g) a = Some u'" "pg_node_weight pg (inner g) b = Some v'"
    using wf_edge [OF assms(1) r] by blast
  then show thesis using that [OF r] uv by (simp add: wf_index [OF assms(1)])
qed

lemma id_edges_ids: "graph_wf pg g \<Longrightarrow> (u, v, e) \<in># id_edges pg g \<Longrightarrow> u \<in> graph_ids g \<and> v \<in> graph_ids g"
  by (elim id_edge_refs) (auto simp: graph_ids_def)

lemma graph_wf_empty:
  assumes "petgraph_ok pg"
  shows "graph_wf pg \<lparr>inner = pg_new pg, node_index = []\<rparr>" "id_edges pg \<lparr>inner = pg_new pg, node_index = []\<rparr> = {#}"
  using pg_new_laws [OF assms] by (simp_all add: graph_wf_def id_edges_def)

lemma add_node_wf:
  assumes "petgraph_ok pg" and "graph_wf pg g" and "i \<notin> graph_ids g"
    and "pg_add_node pg (inner g) i = (inner', x)"
  defines "g' \<equiv> \<lparr>inner = inner', node_index = hm_insert i x (node_index g)\<rparr>"
  shows "graph_wf pg g' \<and> graph_ids g' = insert i (graph_ids g) \<and> id_edges pg g' = id_edges pg g"
proof -
  note l = pg_add_node_laws [OF assms(1,4)]
  have s: "set (pg_edge_references pg inner') = set (pg_edge_references pg (inner g))"
    using l(3) by (rule mset_eq_setD)
  have i: "pg_node_weight pg (inner g) y \<noteq> Some i" for y
    using assms(3) by (auto simp: graph_ids_def wf_index [OF assms(2), symmetric])
  have "graph_wf pg g'" using assms(2) i l(1,2) s hm.ok_ins [of "node_index g" i x] by (auto simp: graph_wf_def g'_def)
  moreover have "id_edges pg g' = id_edges pg g"
    unfolding id_edges_def g'_def typed_relation_graph.simps l(3)
  proof (rule image_mset_cong)
    fix r
    assume r: "r \<in># mset (pg_edge_references pg (inner g))"
    obtain a b e where abe: "r = (a, b, e)" by (rule prod_cases3)
    have "(a, b, e) \<in> set (pg_edge_references pg (inner g))" using r by (simp add: abe)
    then obtain u v where "pg_node_weight pg (inner g) a = Some u" "pg_node_weight pg (inner g) b = Some v"
      by (rule wf_edge [OF assms(2)])
    then have "a \<noteq> x" "b \<noteq> x" using l(1) by auto
    then show "(case r of (a, b, e) \<Rightarrow> (the (pg_node_weight pg inner' a), the (pg_node_weight pg inner' b), e)) =
        (case r of (a, b, e) \<Rightarrow> (the (pg_node_weight pg (inner g) a), the (pg_node_weight pg (inner g) b), e))"
      by (simp add: abe l(2))
  qed
  ultimately show ?thesis by (simp add: graph_ids_def g'_def)
qed

lemma add_edge_wf:
  assumes "petgraph_ok pg" and "graph_wf pg g"
    and "hm_get (node_index g) u = Some a" and "hm_get (node_index g) v = Some b"
  obtains inner' where "pg_add_edge pg (inner g) a b e = Some inner'" "graph_wf pg (g\<lparr>inner := inner'\<rparr>)"
    "id_edges pg (g\<lparr>inner := inner'\<rparr>) = add_mset (u, v, e) (id_edges pg g)"
proof -
  have w: "pg_node_weight pg (inner g) a = Some u" "pg_node_weight pg (inner g) b = Some v"
    using assms(3,4) by (simp_all add: wf_index [OF assms(2)])
  obtain inner' where i: "pg_add_edge pg (inner g) a b e = Some inner'"
    "pg_node_weight pg inner' = pg_node_weight pg (inner g)"
    "mset (pg_edge_references pg inner') = add_mset (a, b, e) (mset (pg_edge_references pg (inner g)))"
    using pg_add_edge_laws [OF assms(1), of "inner g" a b e] w by auto
  have s: "set (pg_edge_references pg inner') = insert (a, b, e) (set (pg_edge_references pg (inner g)))"
    using arg_cong [OF i(3), of set_mset] by simp
  have "graph_wf pg (g\<lparr>inner := inner'\<rparr>)" using assms(2) i(2) s w by (auto simp: graph_wf_def)
  moreover have "id_edges pg (g\<lparr>inner := inner'\<rparr>) = add_mset (u, v, e) (id_edges pg g)"
    using i(2,3) w by (simp add: id_edges_def)
  ultimately show thesis by (rule that [OF i(1)])
qed

text \<open>A pass whose steps add edges adds the edges of all its steps.\<close>

lemma run_steps_edges:
  assumes "\<And>s e. I s \<Longrightarrow> e \<in> set es \<Longrightarrow> \<exists>s'. step s e = Some s' \<and> I s' \<and> E s' = E s + mset (f e)"
    and "I s"
  shows "\<exists>s'. run_steps step s es = Some s' \<and> I s' \<and> E s' = E s + mset (concat (map f es))"
  using assms
proof (induction es arbitrary: s)
  case (Cons e es)
  obtain s1 where "step s e = Some s1" "I s1" "E s1 = E s + mset (f e)"
    using Cons.prems(1) [of s e] Cons.prems(2) by auto
  moreover have "\<exists>s'. run_steps step s1 es = Some s' \<and> I s' \<and> E s' = E s1 + mset (concat (map f es))"
    using Cons.IH [of s1] Cons.prems(1) \<open>I s1\<close> by simp
  ultimately show ?case by (auto simp: ac_simps)
qed simp

section \<open>The edges the graph should have\<close>

definition supersession_edges :: "nat set \<Rightarrow> entry_record \<Rightarrow> (nat \<times> nat \<times> relation_edge) list" where
  "supersession_edges ids e =
     (case supersedes e of None \<Rightarrow> [] | Some p \<Rightarrow> if p \<in> ids then [(p, eid e, supersedes_edge)] else [])"

definition admitted_row :: "nat set \<Rightarrow> graph_edge_row \<Rightarrow> bool" where
  "admitted_row ids row \<longleftrightarrow> \<not> row_bootstrap_only row \<and> row_type row \<in> range as_str \<and>
     row_type row \<noteq> ''Supersedes'' \<and> source_id row \<in> ids \<and> target_id row \<in> ids"

definition row_edges :: "nat set \<Rightarrow> graph_edge_row \<Rightarrow> (nat \<times> nat \<times> relation_edge) list" where
  "row_edges ids row = (if admitted_row ids row then [(source_id row, target_id row, row_edge row)] else [])"

text \<open>Which entry supersedes which, within the corpus: the older id first.\<close>

definition supersession :: "entry_record list \<Rightarrow> (nat \<times> nat) set" where
  "supersession entries = {(p, eid e) | p e. e \<in> set entries \<and> supersedes e = Some p \<and> p \<in> eid ` set entries}"

lemma supersession_code:
  "supersession entries = set (concat (map (\<lambda>e. case supersedes e of None \<Rightarrow> []
     | Some p \<Rightarrow> if p \<in> eid ` set entries then [(p, eid e)] else []) entries))"
  by (force simp: supersession_def split: option.splits if_splits)

section \<open>Pass by pass\<close>

lemma from_str_None: "from_str s = None \<longleftrightarrow> s \<notin> range as_str"
proof -
  have "from_str (as_str rt) = Some rt" for rt by (cases rt) (simp_all add: from_str_def)
  moreover have "from_str s = Some rt \<Longrightarrow> s = as_str rt" for rt
    by (auto simp: from_str_def split: if_splits)
  ultimately show ?thesis by (metis not_Some_eq rangeE rangeI)
qed

lemma pass1:
  assumes "petgraph_ok pg" and "graph_wf pg g" and "distinct (map eid es)"
    and "graph_ids g \<inter> eid ` set es = {}"
  shows "graph_wf pg (fold (add_entry_node pg) es g) \<and>
    graph_ids (fold (add_entry_node pg) es g) = graph_ids g \<union> eid ` set es \<and>
    id_edges pg (fold (add_entry_node pg) es g) = id_edges pg g"
  using assms(2-)
proof (induction es arbitrary: g)
  case (Cons e es)
  obtain inner' x where n: "pg_add_node pg (inner g) (eid e) = (inner', x)" by fastforce
  define g' where "g' = \<lparr>inner = inner', node_index = hm_insert (eid e) x (node_index g)\<rparr>"
  have g': "add_entry_node pg e g = g'" using n by (cases g) (simp add: add_entry_node_def g'_def)
  have "graph_wf pg g' \<and> graph_ids g' = insert (eid e) (graph_ids g) \<and> id_edges pg g' = id_edges pg g"
    unfolding g'_def using Cons.prems by (intro add_node_wf [OF assms(1) _ _ n]) auto
  moreover from this have "graph_ids g' \<inter> eid ` set es = {}" using Cons.prems by auto
  ultimately show ?case using Cons.IH [of g'] Cons.prems g' by simp
qed simp

definition pass_inv :: "('g, 'ix, 'e) petgraph \<Rightarrow> nat set \<Rightarrow> ('g, 'ix) typed_relation_graph \<Rightarrow> bool" where
  "pass_inv pg ids g \<longleftrightarrow> graph_wf pg g \<and> graph_ids g = ids"

lemma pass_inv_inner: "pass_inv pg ids g \<Longrightarrow> graph_wf pg (g\<lparr>inner := x\<rparr>) \<Longrightarrow> pass_inv pg ids (g\<lparr>inner := x\<rparr>)"
  by (simp add: pass_inv_def graph_ids_def)

lemma pass_index: "pass_inv pg ids g \<Longrightarrow> u \<in> ids \<longleftrightarrow> (\<exists>a. hm_get (node_index g) u = Some a)"
  by (auto simp: pass_inv_def graph_ids_def)

lemma pass2a_step:
  assumes "petgraph_ok pg" and "pass_inv pg ids g" and "eid e \<in> ids"
  shows "\<exists>g'. add_supersedes_edge pg g e = Some g' \<and> pass_inv pg ids g' \<and>
    id_edges pg g' = id_edges pg g + mset (supersession_edges ids e)"
proof (cases "\<exists>p. supersedes e = Some p \<and> p \<in> ids")
  case True
  then obtain p a b where p: "supersedes e = Some p" "p \<in> ids"
    and ab: "hm_get (node_index g) p = Some a" "hm_get (node_index g) (eid e) = Some b"
    using assms(3) by (auto simp: pass_index [OF assms(2)])
  have wf: "graph_wf pg g" using assms(2) by (simp add: pass_inv_def)
  obtain inner' where "pg_add_edge pg (inner g) a b supersedes_edge = Some inner'"
    "graph_wf pg (g\<lparr>inner := inner'\<rparr>)"
    "id_edges pg (g\<lparr>inner := inner'\<rparr>) = add_mset (p, eid e, supersedes_edge) (id_edges pg g)"
    by (rule add_edge_wf [OF assms(1) wf ab])
  then show ?thesis using p ab pass_inv_inner [OF assms(2)]
    by (simp add: add_supersedes_edge_def supersession_edges_def)
next
  case False
  then have "add_supersedes_edge pg g e = Some g" "supersession_edges ids e = []"
    using pass_index [OF assms(2)]
    by (auto simp: add_supersedes_edge_def supersession_edges_def split: option.splits)
  then show ?thesis using assms(2) by simp
qed

lemma pass2b_step:
  assumes "petgraph_ok pg" and "pass_inv pg ids g"
  shows "\<exists>g'. add_edge_row pg g row = Some g' \<and> pass_inv pg ids g' \<and>
    id_edges pg g' = id_edges pg g + mset (row_edges ids row)"
proof (cases "admitted_row ids row")
  case True
  then obtain a b where
    ab: "hm_get (node_index g) (source_id row) = Some a" "hm_get (node_index g) (target_id row) = Some b"
    by (auto simp: admitted_row_def pass_index [OF assms(2)])
  have wf: "graph_wf pg g" using assms(2) by (simp add: pass_inv_def)
  obtain inner' where "pg_add_edge pg (inner g) a b (row_edge row) = Some inner'"
    "graph_wf pg (g\<lparr>inner := inner'\<rparr>)"
    "id_edges pg (g\<lparr>inner := inner'\<rparr>) = add_mset (source_id row, target_id row, row_edge row) (id_edges pg g)"
    by (rule add_edge_wf [OF assms(1) wf ab])
  then show ?thesis using True ab pass_inv_inner [OF assms(2)]
    by (simp add: add_edge_row_def row_edges_def admitted_row_def from_str_None)
next
  case False
  then have "add_edge_row pg g row = Some g"
    using pass_index [OF assms(2)]
    by (auto simp: add_edge_row_def admitted_row_def from_str_None split: option.splits)
  then show ?thesis using assms(2) False by (simp add: row_edges_def)
qed

section \<open>The cycle check\<close>

lemma trancl_map_prod:
  assumes "inj_on f A" and "R \<subseteq> A \<times> A"
  shows "(x, y) \<in> (map_prod f f ` R)\<^sup>+ \<longleftrightarrow> (\<exists>u v. x = f u \<and> y = f v \<and> (u, v) \<in> R\<^sup>+)"
proof
  assume "(x, y) \<in> (map_prod f f ` R)\<^sup>+"
  then show "\<exists>u v. x = f u \<and> y = f v \<and> (u, v) \<in> R\<^sup>+"
  proof (induction rule: trancl_induct)
    case (step y z)
    then obtain u v v' w where uv: "x = f u" "y = f v" "(u, v) \<in> R\<^sup>+" and vw: "y = f v'" "z = f w" "(v', w) \<in> R"
      by auto
    have "v \<in> A" using uv(3) trancl_subset_Sigma [OF assms(2)] by blast
    moreover have "v' \<in> A" using vw(3) assms(2) by blast
    ultimately have "v = v'" using uv(2) vw(1) inj_onD [OF assms(1)] by simp
    then have "(u, w) \<in> R\<^sup>+" using uv(3) vw(3) by (simp add: trancl_into_trancl)
    then show ?case using uv(1) vw(2) by blast
  qed auto
next
  have "(f u, f v) \<in> (map_prod f f ` R)\<^sup>+" if "(u, v) \<in> R\<^sup>+" for u v
    using that
  proof (induction rule: trancl_induct)
    case (step y z)
    have "(f y, f z) \<in> map_prod f f ` R" using step.hyps(2) by (rule map_prod_imageI)
    with step.IH show ?case by (rule trancl_into_trancl)
  qed (auto intro: r_into_trancl map_prod_imageI)
  then show "\<exists>u v. x = f u \<and> y = f v \<and> (u, v) \<in> R\<^sup>+ \<Longrightarrow> (x, y) \<in> (map_prod f f ` R)\<^sup>+" by blast
qed

lemma acyclic_map_prod:
  assumes "inj_on f A" and "R \<subseteq> A \<times> A"
  shows "acyclic (map_prod f f ` R) \<longleftrightarrow> acyclic R"
proof -
  have "(\<exists>x. (x, x) \<in> (map_prod f f ` R)\<^sup>+) \<longleftrightarrow> (\<exists>u. (u, u) \<in> R\<^sup>+)"
  proof
    assume "\<exists>x. (x, x) \<in> (map_prod f f ` R)\<^sup>+"
    then obtain u v where uv: "f u = f v" "(u, v) \<in> R\<^sup>+"
      unfolding trancl_map_prod [OF assms] by metis
    have "u \<in> A \<and> v \<in> A" using uv(2) trancl_subset_Sigma [OF assms(2)] by blast
    then show "\<exists>u. (u, u) \<in> R\<^sup>+" using uv assms(1) by (metis inj_onD)
  next
    assume "\<exists>u. (u, u) \<in> R\<^sup>+"
    then show "\<exists>x. (x, x) \<in> (map_prod f f ` R)\<^sup>+" unfolding trancl_map_prod [OF assms] by blast
  qed
  then show ?thesis unfolding acyclic_def by blast
qed

text \<open>The node index as a function from ids; the edges of a graph are the image of the edges between ids.\<close>

definition nx :: "('g, 'ix) typed_relation_graph \<Rightarrow> nat \<Rightarrow> 'ix" where
  "nx g u = the (hm_get (node_index g) u)"

lemma nx_inj: "graph_wf pg g \<Longrightarrow> inj_on (nx g) (graph_ids g)"
  by (rule inj_onI) (auto simp: nx_def graph_ids_def wf_index)

lemma nx_eq: "hm_get (node_index g) u = Some a \<Longrightarrow> nx g u = a"
  by (simp add: nx_def)

lemma refs_image:
  assumes "graph_wf pg g"
  shows "{(a, b). \<exists>e. (a, b, e) \<in> set (pg_edge_references pg (inner g)) \<and> P e} =
    map_prod (nx g) (nx g) ` {(u, v). \<exists>e. (u, v, e) \<in># id_edges pg g \<and> P e}" (is "?L = ?R")
proof
  show "?L \<subseteq> ?R"
  proof clarify
    fix a b e
    assume r: "(a, b, e) \<in> set (pg_edge_references pg (inner g))" "P e"
    obtain u v where w: "pg_node_weight pg (inner g) a = Some u" "pg_node_weight pg (inner g) b = Some v"
      and e: "(u, v, e) \<in># id_edges pg g" by (rule wf_edge [OF assms r(1)])
    then have "nx g u = a" "nx g v = b" by (simp_all add: nx_eq wf_index [OF assms])
    then show "(a, b) \<in> ?R" using e r(2) by (force simp: image_iff)
  qed
  show "?R \<subseteq> ?L"
  proof clarify
    fix u v e
    assume e: "(u, v, e) \<in># id_edges pg g" "P e"
    obtain a b where "(a, b, e) \<in> set (pg_edge_references pg (inner g))"
      "hm_get (node_index g) u = Some a" "hm_get (node_index g) v = Some b" by (rule id_edge_refs [OF assms e(1)])
    then show "\<exists>e. (nx g u, nx g v, e) \<in> set (pg_edge_references pg (inner g)) \<and> P e"
      using e(2) by (auto simp: nx_eq)
  qed
qed

lemma is_cyclic_ids:
  assumes "petgraph_ok pg" and "graph_wf pg g"
  shows "pg_is_cyclic pg (inner g) \<longleftrightarrow> \<not> acyclic ((\<lambda>(u, v, e). (u, v)) ` set_mset (id_edges pg g))"
proof -
  let ?R = "{(u, v). \<exists>e. (u, v, e) \<in># id_edges pg g \<and> True}"
  have "(\<lambda>(a, b, e). (a, b)) ` set (pg_edge_references pg (inner g)) = map_prod (nx g) (nx g) ` ?R"
    unfolding refs_image [OF assms(2), symmetric] by force
  moreover have "?R \<subseteq> graph_ids g \<times> graph_ids g" using id_edges_ids [OF assms(2)] by blast
  moreover have "?R = (\<lambda>(u, v, e). (u, v)) ` set_mset (id_edges pg g)" by force
  ultimately show ?thesis
    using acyclic_map_prod [OF nx_inj [OF assms(2)]] by (simp add: pg_is_cyclic_law [OF assms(1)])
qed

definition type_rel :: "('g, 'ix, relation_edge) petgraph \<Rightarrow> ('g, 'ix) typed_relation_graph \<Rightarrow> relation_type \<Rightarrow> (nat \<times> nat) set" where
  "type_rel pg g rt = {(u, v). \<exists>e. (u, v, e) \<in># id_edges pg g \<and> edge_type e = as_str rt}"

lemma temp_nodes:
  assumes "petgraph_ok pt" and "graph_wf pt \<lparr>inner = t, node_index = m\<rparr>" and "distinct ks"
    and "graph_ids \<lparr>inner = t, node_index = m\<rparr> \<inter> set ks = {}"
  shows "case fold (add_temp_node pt) ks (t, m) of (t', m') \<Rightarrow>
    graph_wf pt \<lparr>inner = t', node_index = m'\<rparr> \<and>
    graph_ids \<lparr>inner = t', node_index = m'\<rparr> = graph_ids \<lparr>inner = t, node_index = m\<rparr> \<union> set ks \<and>
    id_edges pt \<lparr>inner = t', node_index = m'\<rparr> = id_edges pt \<lparr>inner = t, node_index = m\<rparr>"
  using assms(2-)
proof (induction ks arbitrary: t m)
  case (Cons k ks)
  obtain t1 x where n: "pg_add_node pt t k = (t1, x)" by fastforce
  let ?g1 = "\<lparr>inner = t1, node_index = hm_insert k x m\<rparr>"
  have a: "add_temp_node pt k (t, m) = (t1, hm_insert k x m)" by (simp add: add_temp_node_def n)
  have g1: "graph_wf pt ?g1" "graph_ids ?g1 = insert k (graph_ids \<lparr>inner = t, node_index = m\<rparr>)"
      "id_edges pt ?g1 = id_edges pt \<lparr>inner = t, node_index = m\<rparr>"
    using add_node_wf [OF assms(1) Cons.prems(1), of k t1 x] n Cons.prems(3) by auto
  moreover have "graph_ids ?g1 \<inter> set ks = {}" unfolding g1(2) using Cons.prems(2,3) by auto
  ultimately show ?case using Cons.IH [of t1 "hm_insert k x m"] Cons.prems(2) by (simp add: a)
qed simp

definition temp_edges :: "('g, 'ix, relation_edge) petgraph \<Rightarrow> ('g, 'ix) typed_relation_graph \<Rightarrow>
    'ix \<times> 'ix \<times> relation_edge \<Rightarrow> (nat \<times> nat \<times> unit) list" where
  "temp_edges pg g r = (case r of (a, b, e) \<Rightarrow> if edge_type e = ''Supersedes''
     then [(the (pg_node_weight pg (inner g) a), the (pg_node_weight pg (inner g) b), ())] else [])"

lemma temp_edges_rel:
  "(\<lambda>(u, v, e). (u, v)) ` (\<Union>r \<in> set (pg_edge_references pg (inner g)). set (temp_edges pg g r)) =
   type_rel pg g Supersedes" (is "?f ` ?E = ?T")
proof -
  let ?P = "\<lambda>u v. \<exists>a b e. (a, b, e) \<in> set (pg_edge_references pg (inner g)) \<and> edge_type e = ''Supersedes'' \<and>
    u = the (pg_node_weight pg (inner g) a) \<and> v = the (pg_node_weight pg (inner g) b)"
  have E: "x \<in> ?E \<longleftrightarrow> ?P (fst x) (fst (snd x))" for x
    by (cases x) (force simp: temp_edges_def split: if_splits)
  have "(u, v) \<in> ?f ` ?E \<longleftrightarrow> (u, v, ()) \<in> ?E" for u v by (force simp: image_iff simp del: UN_iff)
  then have "(u, v) \<in> ?f ` ?E \<longleftrightarrow> ?P u v" for u v unfolding E by simp
  moreover have "(u, v) \<in> ?T \<longleftrightarrow> ?P u v" for u v
    by (auto simp: type_rel_def id_edge_iff)
  ultimately show ?thesis by (simp only: set_eq_iff split_paired_All) simp
qed

lemma pass3_step:
  assumes "petgraph_ok pt" and "graph_wf pg g" and "graph_wf pt \<lparr>inner = t, node_index = m\<rparr>"
    and "dom (hm_get m) = graph_ids g" and "r \<in> set (pg_edge_references pg (inner g))"
  shows "\<exists>t'. add_temp_edge pg pt g m t r = Some t' \<and> graph_wf pt \<lparr>inner = t', node_index = m\<rparr> \<and>
    id_edges pt \<lparr>inner = t', node_index = m\<rparr> = id_edges pt \<lparr>inner = t, node_index = m\<rparr> + mset (temp_edges pg g r)"
proof -
  obtain a b e where r: "r = (a, b, e)" by (rule prod_cases3)
  obtain u v where w: "pg_node_weight pg (inner g) a = Some u" "pg_node_weight pg (inner g) b = Some v"
    using assms(5) unfolding r by (rule wf_edge [OF assms(2)])
  then have "u \<in> graph_ids g" "v \<in> graph_ids g" by (auto simp: graph_ids_def wf_index [OF assms(2), symmetric])
  then obtain x y where xy: "hm_get m u = Some x" "hm_get m v = Some y" using assms(4) by blast
  obtain t' where "pg_add_edge pt t x y () = Some t'" "graph_wf pt \<lparr>inner = t', node_index = m\<rparr>"
    "id_edges pt \<lparr>inner = t', node_index = m\<rparr> = add_mset (u, v, ()) (id_edges pt \<lparr>inner = t, node_index = m\<rparr>)"
    by (rule add_edge_wf [OF assms(1,3), of u x v y "()"]) (simp_all add: xy)
  then show ?thesis using assms(3) w xy by (simp add: r add_temp_edge_def temp_edges_def)
qed

lemma supersedes_cyclic_iff:
  assumes "petgraph_ok pt" and "graph_wf pg g"
  shows "supersedes_cyclic pg pt g = Some (\<not> acyclic (type_rel pg g Supersedes))"
proof -
  have d: "distinct (map fst (node_index g))" "set (map fst (node_index g)) = graph_ids g"
    using assms(2) by (simp_all add: graph_wf_def hm_ok_def graph_ids_def dom_map_of_conv_image_fst)
  obtain t m where tm: "fold (add_temp_node pt) (map fst (node_index g)) (pg_new pt, []) = (t, m)" by fastforce
  have wf: "graph_wf pt \<lparr>inner = t, node_index = m\<rparr>" and dom: "dom (hm_get m) = graph_ids g"
    and empty: "id_edges pt \<lparr>inner = t, node_index = m\<rparr> = {#}"
    using temp_nodes [OF assms(1) graph_wf_empty(1) [OF assms(1)] d(1)] graph_wf_empty(2) [OF assms(1)] d(2)
    unfolding tm by (simp_all add: graph_ids_def)
  obtain t' where t': "run_steps (add_temp_edge pg pt g m) t (pg_edge_references pg (inner g)) = Some t'"
    and wf': "graph_wf pt \<lparr>inner = t', node_index = m\<rparr>"
    and E: "id_edges pt \<lparr>inner = t', node_index = m\<rparr> =
      mset (concat (map (temp_edges pg g) (pg_edge_references pg (inner g))))"
    using run_steps_edges [of "\<lambda>t. graph_wf pt \<lparr>inner = t, node_index = m\<rparr>" "pg_edge_references pg (inner g)"
        "add_temp_edge pg pt g m" "\<lambda>t. id_edges pt \<lparr>inner = t, node_index = m\<rparr>" "temp_edges pg g" t]
      pass3_step [OF assms(1,2) _ dom] wf empty by auto
  have "(\<lambda>(u, v, e). (u, v)) ` set_mset (id_edges pt \<lparr>inner = t', node_index = m\<rparr>) = type_rel pg g Supersedes"
    by (simp add: E temp_edges_rel)
  then show ?thesis using is_cyclic_ids [OF assms(1) wf'] by (simp add: supersedes_cyclic_def tm t')
qed

section \<open>The whole build\<close>

definition expected_edges :: "entry_record list \<Rightarrow> graph_edge_row list \<Rightarrow> (nat \<times> nat \<times> relation_edge) multiset" where
  "expected_edges entries edges =
     mset (concat (map (supersession_edges (eid ` set entries)) entries)) +
     mset (concat (map (row_edges (eid ` set entries)) edges))"

lemma expected_supersedes:
  "{(u, v). \<exists>e. (u, v, e) \<in># expected_edges entries edges \<and> edge_type e = ''Supersedes''} = supersession entries"
  by (fastforce simp: expected_edges_def supersession_edges_def row_edges_def admitted_row_def row_edge_def
      supersedes_edge_def supersession_def split: option.splits if_splits)

lemma build_graph:
  assumes "petgraph_ok pg" and "petgraph_ok pt" and "distinct (map eid entries)"
  shows "\<exists>g. build_typed_relation_graph pg pt entries edges =
      Some (if acyclic (supersession entries) then Inr g else Inl CycleDetected) \<and>
    graph_wf pg g \<and> graph_ids g = eid ` set entries \<and> id_edges pg g = expected_edges entries edges"
proof -
  let ?ids = "eid ` set entries"
  define g1 where "g1 = fold (add_entry_node pg) entries (graph_empty pg)"
  have g1: "pass_inv pg ?ids g1" "id_edges pg g1 = {#}"
    using pass1 [OF assms(1) graph_wf_empty(1) [OF assms(1)] assms(3)] graph_wf_empty(2) [OF assms(1)]
    by (simp_all add: g1_def graph_empty_def pass_inv_def graph_ids_def)
  obtain g2 where g2: "run_steps (add_supersedes_edge pg) g1 entries = Some g2" "pass_inv pg ?ids g2"
    "id_edges pg g2 = mset (concat (map (supersession_edges ?ids) entries))"
    using run_steps_edges [of "pass_inv pg ?ids" entries "add_supersedes_edge pg" "id_edges pg"
        "supersession_edges ?ids" g1] pass2a_step [OF assms(1)] g1 by auto
  obtain g3 where g3: "run_steps (add_edge_row pg) g2 edges = Some g3" "pass_inv pg ?ids g3"
    "id_edges pg g3 = expected_edges entries edges"
    using run_steps_edges [of "pass_inv pg ?ids" edges "add_edge_row pg" "id_edges pg" "row_edges ?ids" g2]
      pass2b_step [OF assms(1)] g2 by (auto simp: expected_edges_def)
  have "type_rel pg g3 Supersedes = supersession entries"
    by (simp add: type_rel_def g3(3) expected_supersedes)
  then have "supersedes_cyclic pg pt g3 = Some (\<not> acyclic (supersession entries))"
    using supersedes_cyclic_iff [OF assms(2), of pg g3] g3(2) by (simp add: pass_inv_def)
  then have "build_typed_relation_graph pg pt entries edges =
      Some (if acyclic (supersession entries) then Inr g3 else Inl CycleDetected)"
    by (simp add: build_typed_relation_graph_def g1_def [symmetric] g2(1) g3(1))
  then show ?thesis using g3(2,3) by (auto simp: pass_inv_def)
qed

section \<open>A concrete container\<close>

text \<open>
  Node weights and edges as lists: shows that the laws asked of petgraph can hold, and runs
  the model on concrete inputs. Without removals the index of a node is its position.
\<close>

type_synonym 'e list_graph = "nat list \<times> (nat \<times> nat \<times> 'e) list"

definition list_petgraph :: "('e list_graph, nat, 'e) petgraph" where
  "list_petgraph =
     \<lparr>pg_new = ([], []),
      pg_add_node = (\<lambda>(ns, es) w. ((ns @ [w], es), length ns)),
      pg_add_edge = (\<lambda>(ns, es) a b e. if a < length ns \<and> b < length ns then Some (ns, es @ [(a, b, e)]) else None),
      pg_node_weight = (\<lambda>(ns, es) i. if i < length ns then Some (ns ! i) else None),
      pg_edges_directed = (\<lambda>(ns, es) i d. filter (edge_at d i) es),
      pg_edge_references = snd,
      pg_is_cyclic = (\<lambda>(ns, es). \<not> acyclic ((\<lambda>(a, b, e). (a, b)) ` set es))\<rparr>"

lemma list_petgraph_ok: "petgraph_ok list_petgraph"
  unfolding petgraph_ok_def list_petgraph_def
  by (auto simp: nth_append fun_eq_iff)

text \<open>
  C10. \<open>build_typed_relation_graph\<close> returns on every corpus with unique ids and every edge
  table. It fails with \<open>CycleDetected\<close> if and only if the supersessions within the corpus
  form a cycle. Otherwise the graph has exactly one node per entry, the index and the node
  weights are inverse to each other, and its edges, with multiplicities, are one Supersedes
  edge from the older to the newer version for every supersession within the corpus, and one
  edge for every row that is not bootstrap-only, has a known type other than Supersedes and
  both endpoints in the corpus.
\<close>

theorem build_graph_exact:
  assumes "petgraph_ok pg" and "petgraph_ok pt" and "distinct (map eid entries)"
  shows "if acyclic (supersession entries)
    then \<exists>g. build_typed_relation_graph pg pt entries edges = Some (Inr g) \<and> graph_wf pg g \<and>
      graph_ids g = eid ` set entries \<and> id_edges pg g = expected_edges entries edges
    else build_typed_relation_graph pg pt entries edges = Some (Inl CycleDetected)"
  using build_graph [OF assms, of edges] by (auto split: if_splits)

definition entry_v :: "nat \<Rightarrow> nat option \<Rightarrow> status \<Rightarrow> nat option \<Rightarrow> entry_record" where
  "entry_v i p st n = blank_entry\<lparr>eid := i, supersedes := p, status := st, superseded_by := n\<rparr>"

lemma entry_v_sel [simp]:
  "eid (entry_v i p st n) = i" "supersedes (entry_v i p st n) = p"
  "status (entry_v i p st n) = st" "superseded_by (entry_v i p st n) = n"
  by (simp_all add: entry_v_def)

text \<open>Two entries that supersede each other.\<close>

theorem build_graph_exact_witness:
  "build_typed_relation_graph list_petgraph list_petgraph
     [entry_v 1 (Some 2) Deprecated (Some 2), entry_v 2 (Some 1) Deprecated (Some 1)] [] = Some (Inl CycleDetected)"
proof -
  let ?es = "[entry_v 1 (Some 2) Deprecated (Some 2), entry_v 2 (Some 1) Deprecated (Some 1)]"
  have "supersession ?es = {(1, 2), (2, 1)}" by (auto simp: supersession_code)
  then have "(1, 1) \<in> (supersession ?es)\<^sup>+" by (auto intro: trancl_into_trancl)
  then have "\<not> acyclic (supersession ?es)" by (auto simp: acyclic_def)
  then show ?thesis
    using build_graph_exact [OF list_petgraph_ok list_petgraph_ok, of ?es "[]"] by simp
qed

end
