(* ===== verification/Graph_Walk.thy ===== *)
theory Graph_Walk
  imports Graph_Build Complex_Main
begin

text \<open>
  Traversals of the relation graph along Supersedes edges and the penalty derived from them:
  \<open>graph_penalty\<close>, \<open>find_terminal_active\<close>, \<open>dfs_active_reachable\<close> and
  \<open>bfs_chain_depth\<close> of \<open>unimatrix-engine/src/graph.rs\<close>.

  The loops terminate whatever the container returns, because every push is one hop deeper
  and the depth is capped: the multiset of remaining depths decreases. A result None stands
  for the panic of indexing a missing node. Doubles are the reals they denote; the rounded
  product and the power are arguments.
\<close>

section \<open>Loops\<close>

definition MAX_TRAVERSAL_DEPTH :: nat where
  "MAX_TRAVERSAL_DEPTH = 10"

definition entry_by_id :: "nat \<Rightarrow> entry_record list \<Rightarrow> entry_record option" where
  "entry_by_id i entries = find (\<lambda>e. eid e = i) entries"

text \<open>The condition of the three loops: an active entry that nothing supersedes.\<close>

definition is_current :: "entry_record list \<Rightarrow> nat \<Rightarrow> bool" where
  "is_current entries i = (case entry_by_id i entries of None \<Rightarrow> False
     | Some e \<Rightarrow> status e = Active \<and> superseded_by e = None)"

fun push_unvisited :: "('ix \<times> 'ix \<times> 'e) list \<Rightarrow> nat \<Rightarrow> ('ix \<times> nat) list \<Rightarrow> 'ix set \<Rightarrow> ('ix \<times> nat) list \<times> 'ix set" where
  "push_unvisited [] d stack visited = (stack, visited)"
| "push_unvisited ((_, neighbor_idx, _) # refs) d stack visited =
     (if neighbor_idx \<in> visited then push_unvisited refs d stack visited
      else push_unvisited refs d ((neighbor_idx, d) # stack) (insert neighbor_idx visited))"

text \<open>The multiset of the hops still allowed, for the termination of the loops.\<close>

definition hops_left :: "nat \<Rightarrow> ('ix \<times> nat) list \<Rightarrow> nat multiset" where
  "hops_left m work = mset (map (\<lambda>(_, d). m - d) work)"

lemma wf_hops: "wf (inv_image (mult less_than) f)"
  by (intro wf_inv_image wf_mult wf_less_than)

lemma hops_pop: "(hops_left m work, hops_left m (x # work)) \<in> mult less_than"
proof -
  have "hops_left m (x # work) = hops_left m work + {#m - snd x#}" by (simp add: hops_left_def case_prod_beta)
  moreover have "(hops_left m work + {#}, hops_left m work + {#m - snd x#}) \<in> mult less_than"
    by (intro one_step_implies_mult) auto
  ultimately show ?thesis by simp
qed

lemma hops_expand:
  assumes "mset work' = mset work + mset new" and "snd ` set new \<subseteq> {Suc d}" and "d < m"
  shows "(hops_left m work', hops_left m ((i, d) # work)) \<in> mult less_than"
proof -
  have h: "hops_left m xs = image_mset (\<lambda>(_, d). m - d) (mset xs)" for xs :: "('a \<times> nat) list"
    by (simp add: hops_left_def)
  have "hops_left m work' = hops_left m work + hops_left m new" unfolding h assms(1) by simp
  moreover have "hops_left m ((i, d) # work) = hops_left m work + {#m - d#}" by (simp add: hops_left_def)
  moreover have "(hops_left m work + hops_left m new, hops_left m work + {#m - d#}) \<in> mult less_than"
    by (intro one_step_implies_mult) (use assms(2,3) in \<open>auto simp: hops_left_def\<close>)
  ultimately show ?thesis by simp
qed

lemma push_unvisited_new:
  assumes "push_unvisited refs d stack visited = (stack', visited')"
  shows "\<exists>new. mset stack' = mset stack + mset new \<and> snd ` set new \<subseteq> {d}"
  using assms
proof (induction refs d stack visited rule: push_unvisited.induct)
  case (2 a n b refs d stack visited)
  show ?case
  proof (cases "n \<in> visited")
    case False
    then obtain new where "mset stack' = mset ((n, d) # stack) + mset new" "snd ` set new \<subseteq> {d}"
      using 2 by auto
    then show ?thesis by (intro exI [of _ "(n, d) # new"]) auto
  qed (use 2 in auto)
qed auto

function terminal_loop :: "('g, 'ix, relation_edge) petgraph \<Rightarrow> ('g, 'ix) typed_relation_graph \<Rightarrow> entry_record list \<Rightarrow>
    ('ix \<times> nat) list \<Rightarrow> 'ix set \<Rightarrow> nat option option" where
  "terminal_loop pg g entries [] visited = Some None"
| "terminal_loop pg g entries ((current_idx, depth) # stack) visited =
     (case pg_node_weight pg (inner g) current_idx of
        None \<Rightarrow> None
      | Some current_id \<Rightarrow>
          if is_current entries current_id then Some (Some current_id)
          else if depth + 1 > MAX_TRAVERSAL_DEPTH then terminal_loop pg g entries stack visited
          else (case push_unvisited (edges_of_type pg g current_idx Supersedes Outgoing) (depth + 1) stack visited of
                  (stack', visited') \<Rightarrow> terminal_loop pg g entries stack' visited'))"
  by pat_completeness auto
termination
proof (relation "inv_image (mult less_than) (\<lambda>(pg, g, entries, stack, visited). hops_left (Suc MAX_TRAVERSAL_DEPTH) stack)",
    goal_cases)
  case 1
  show ?case by (rule wf_hops)
next
  case (2 pg g entries current_idx depth stack visited current_id)
  show ?case by (simp add: hops_pop)
next
  case (3 pg g entries current_idx depth stack visited current_id stack' visited')
  obtain new where "mset stack' = mset stack + mset new" "snd ` set new \<subseteq> {depth + 1}"
    using push_unvisited_new [OF 3(4) [symmetric]] by blast
  then show ?case using 3(3) by (simp add: hops_expand)
qed

definition find_terminal_active :: "('g, 'ix, relation_edge) petgraph \<Rightarrow> nat \<Rightarrow> ('g, 'ix) typed_relation_graph \<Rightarrow>
    entry_record list \<Rightarrow> nat option option" where
  "find_terminal_active pg node_id g entries =
     (case hm_get (node_index g) node_id of
        None \<Rightarrow> Some None
      | Some start_idx \<Rightarrow> terminal_loop pg g entries [(start_idx, 0)] {start_idx})"

text \<open>
  The neighbour loop of \<open>dfs_active_reachable\<close>: \<open>Some None\<close> is the early return of true,
  \<open>Some (Some stack)\<close> the stack after the loop.
\<close>

fun dfs_neighbors :: "('g, 'ix, relation_edge) petgraph \<Rightarrow> ('g, 'ix) typed_relation_graph \<Rightarrow> entry_record list \<Rightarrow>
    ('ix \<times> 'ix \<times> relation_edge) list \<Rightarrow> nat \<Rightarrow> ('ix \<times> nat) list \<Rightarrow> ('ix \<times> nat) list option option" where
  "dfs_neighbors pg g entries [] d stack = Some (Some stack)"
| "dfs_neighbors pg g entries ((_, neighbor_idx, _) # refs) d stack =
     (case pg_node_weight pg (inner g) neighbor_idx of
        None \<Rightarrow> None
      | Some neighbor_id \<Rightarrow>
          if is_current entries neighbor_id then Some None
          else dfs_neighbors pg g entries refs d ((neighbor_idx, d) # stack))"

lemma dfs_neighbors_new:
  assumes "dfs_neighbors pg g entries refs d stack = Some (Some stack')"
  shows "\<exists>new. mset stack' = mset stack + mset new \<and> snd ` set new \<subseteq> {d}"
  using assms
proof (induction refs arbitrary: stack)
  case (Cons r refs)
  obtain a n b where r: "r = (a, n, b)" by (rule prod_cases3)
  then have "dfs_neighbors pg g entries refs d ((n, d) # stack) = Some (Some stack')"
    using Cons.prems by (simp split: option.splits if_splits)
  from Cons.IH [OF this] obtain new where "mset stack' = mset ((n, d) # stack) + mset new" "snd ` set new \<subseteq> {d}"
    by blast
  then show ?case by (intro exI [of _ "(n, d) # new"]) auto
qed auto

function dfs_loop :: "('g, 'ix, relation_edge) petgraph \<Rightarrow> ('g, 'ix) typed_relation_graph \<Rightarrow> entry_record list \<Rightarrow> nat \<Rightarrow>
    ('ix \<times> nat) list \<Rightarrow> 'ix set \<Rightarrow> bool option" where
  "dfs_loop pg g entries max_depth [] visited = Some False"
| "dfs_loop pg g entries max_depth ((current_idx, depth) # stack) visited =
     (if current_idx \<in> visited then dfs_loop pg g entries max_depth stack visited
      else if depth > max_depth then dfs_loop pg g entries max_depth stack (insert current_idx visited)
      else (case dfs_neighbors pg g entries (edges_of_type pg g current_idx Supersedes Outgoing) (depth + 1) stack of
              None \<Rightarrow> None
            | Some None \<Rightarrow> Some True
            | Some (Some stack') \<Rightarrow> dfs_loop pg g entries max_depth stack' (insert current_idx visited)))"
  by pat_completeness auto
termination
proof (relation "inv_image (mult less_than) (\<lambda>(pg, g, entries, m, stack, visited). hops_left (Suc m) stack)", goal_cases)
  case 1
  show ?case by (rule wf_hops)
next
  case (2 pg g entries max_depth current_idx depth stack visited)
  show ?case by (simp add: hops_pop)
next
  case (3 pg g entries max_depth current_idx depth stack visited)
  show ?case by (simp add: hops_pop)
next
  case (4 pg g entries max_depth current_idx depth stack visited r stack')
  then obtain new where "mset stack' = mset stack + mset new" "snd ` set new \<subseteq> {depth + 1}"
    using dfs_neighbors_new by metis
  then show ?case using 4(2) by (simp add: hops_expand)
qed

definition dfs_active_reachable :: "'ix \<Rightarrow> ('g, 'ix, relation_edge) petgraph \<Rightarrow> ('g, 'ix) typed_relation_graph \<Rightarrow>
    entry_record list \<Rightarrow> nat \<Rightarrow> bool option" where
  "dfs_active_reachable start_idx pg g entries max_traversal_depth =
     dfs_loop pg g entries max_traversal_depth [(start_idx, 0)] {}"

text \<open>
  The neighbour loop of \<open>bfs_chain_depth\<close>: \<open>Inl\<close> is the early return of the depth, \<open>Inr\<close> the
  queue and the visited set after the loop.
\<close>

fun bfs_neighbors :: "('g, 'ix, relation_edge) petgraph \<Rightarrow> ('g, 'ix) typed_relation_graph \<Rightarrow> entry_record list \<Rightarrow>
    ('ix \<times> 'ix \<times> relation_edge) list \<Rightarrow> nat \<Rightarrow> ('ix \<times> nat) list \<Rightarrow> 'ix set \<Rightarrow>
    (nat + ('ix \<times> nat) list \<times> 'ix set) option" where
  "bfs_neighbors pg g entries [] d queue visited = Some (Inr (queue, visited))"
| "bfs_neighbors pg g entries ((_, neighbor_idx, _) # refs) d queue visited =
     (if neighbor_idx \<in> visited then bfs_neighbors pg g entries refs d queue visited
      else (case pg_node_weight pg (inner g) neighbor_idx of
              None \<Rightarrow> None
            | Some neighbor_id \<Rightarrow>
                if is_current entries neighbor_id then Some (Inl d)
                else bfs_neighbors pg g entries refs d (queue @ [(neighbor_idx, d)]) (insert neighbor_idx visited)))"

lemma bfs_neighbors_new:
  assumes "bfs_neighbors pg g entries refs d queue visited = Some (Inr (queue', visited'))"
  shows "\<exists>new. queue' = queue @ new \<and> snd ` set new \<subseteq> {d}"
  using assms
proof (induction refs arbitrary: queue visited)
  case (Cons r refs)
  obtain a n b where r: "r = (a, n, b)" by (rule prod_cases3)
  show ?case
  proof (cases "n \<in> visited")
    case True
    then show ?thesis using Cons.prems Cons.IH [of queue visited] by (simp add: r)
  next
    case False
    then have "bfs_neighbors pg g entries refs d (queue @ [(n, d)]) (insert n visited) = Some (Inr (queue', visited'))"
      using Cons.prems by (simp add: r split: option.splits if_splits)
    from Cons.IH [OF this] obtain new where "queue' = queue @ (n, d) # new" "snd ` set new \<subseteq> {d}" by auto
    then show ?thesis by (intro exI [of _ "(n, d) # new"]) auto
  qed
qed auto

function bfs_loop :: "('g, 'ix, relation_edge) petgraph \<Rightarrow> ('g, 'ix) typed_relation_graph \<Rightarrow> entry_record list \<Rightarrow> nat \<Rightarrow>
    ('ix \<times> nat) list \<Rightarrow> 'ix set \<Rightarrow> nat option option" where
  "bfs_loop pg g entries max_depth [] visited = Some None"
| "bfs_loop pg g entries max_depth ((current_idx, depth) # queue) visited =
     (if depth > max_depth then bfs_loop pg g entries max_depth queue visited
      else (case bfs_neighbors pg g entries (edges_of_type pg g current_idx Supersedes Outgoing) (depth + 1) queue visited of
              None \<Rightarrow> None
            | Some (Inl next_depth) \<Rightarrow> Some (Some next_depth)
            | Some (Inr (queue', visited')) \<Rightarrow> bfs_loop pg g entries max_depth queue' visited'))"
  by pat_completeness auto
termination
proof (relation "inv_image (mult less_than) (\<lambda>(pg, g, entries, m, queue, visited). hops_left (Suc m) queue)", goal_cases)
  case 1
  show ?case by (rule wf_hops)
next
  case (2 pg g entries max_depth current_idx depth queue visited)
  show ?case by (simp add: hops_pop)
next
  case (3 pg g entries max_depth current_idx depth queue visited r qv queue' visited')
  then obtain new where "queue' = queue @ new" "snd ` set new \<subseteq> {depth + 1}" using bfs_neighbors_new by metis
  then have "mset queue' = mset queue + mset new" "snd ` set new \<subseteq> {Suc depth}" by simp_all
  then show ?case using 3(1) by (simp add: hops_expand)
qed

definition bfs_chain_depth :: "'ix \<Rightarrow> ('g, 'ix, relation_edge) petgraph \<Rightarrow> ('g, 'ix) typed_relation_graph \<Rightarrow>
    entry_record list \<Rightarrow> nat \<Rightarrow> nat option option" where
  "bfs_chain_depth start_idx pg g entries max_traversal_depth =
     bfs_loop pg g entries max_traversal_depth [(start_idx, 0)] {start_idx}"

section \<open>Penalty\<close>

text \<open>The double nearest to each literal of the source.\<close>

definition ORPHAN_PENALTY :: real where "ORPHAN_PENALTY = 3 / 4"
definition CLEAN_REPLACEMENT_PENALTY :: real where "CLEAN_REPLACEMENT_PENALTY = 3602879701896397 / 9007199254740992"
definition HOP_DECAY_FACTOR :: real where "HOP_DECAY_FACTOR = 5404319552844595 / 9007199254740992"
definition PARTIAL_SUPERSESSION_PENALTY :: real where "PARTIAL_SUPERSESSION_PENALTY = 5404319552844595 / 9007199254740992"
definition DEAD_END_PENALTY :: real where "DEAD_END_PENALTY = 5854679515581645 / 9007199254740992"
definition FALLBACK_PENALTY :: real where "FALLBACK_PENALTY = 3152519739159347 / 4503599627370496"
definition HOP_DECAY_CLAMP_FLOOR :: real where "HOP_DECAY_CLAMP_FLOOR = 3602879701896397 / 36028797018963968"

record graph_penalty_params =
  orphan :: real
  clean_replacement :: real
  hop_decay :: real
  partial_supersession :: real
  dead_end :: real
  fallback :: real
  max_traversal_depth :: nat

definition default_params :: graph_penalty_params where
  "default_params =
     \<lparr>orphan = ORPHAN_PENALTY, clean_replacement = CLEAN_REPLACEMENT_PENALTY, hop_decay = HOP_DECAY_FACTOR,
      partial_supersession = PARTIAL_SUPERSESSION_PENALTY, dead_end = DEAD_END_PENALTY,
      fallback = FALLBACK_PENALTY, max_traversal_depth = MAX_TRAVERSAL_DEPTH\<rparr>"

text \<open>The cast \<open>as i32\<close>, and \<open>f64::clamp\<close>, which panics when the bounds are inverted.\<close>

definition as_i32 :: "nat \<Rightarrow> int" where
  "as_i32 n = (int n + 2 ^ 31) mod 2 ^ 32 - 2 ^ 31"

definition f64_clamp :: "real \<Rightarrow> real \<Rightarrow> real \<Rightarrow> real option" where
  "f64_clamp x lo hi = (if lo \<le> hi then Some (if x < lo then lo else if hi < x then hi else x) else None)"

text \<open>Priorities 4 to 6: the penalty for a chain depth.\<close>

definition chain_penalty :: "(real \<Rightarrow> real \<Rightarrow> real) \<Rightarrow> (real \<Rightarrow> int \<Rightarrow> real) \<Rightarrow> graph_penalty_params \<Rightarrow> nat option \<Rightarrow> real option" where
  "chain_penalty fmul fpowi params chain_depth =
     (if chain_depth = Some 1 then Some (clean_replacement params)
      else case chain_depth of
          Some d \<Rightarrow>
            if d \<ge> 2 then
              (let raw = fmul (clean_replacement params) (fpowi (hop_decay params) (as_i32 (d - 1)));
                   ceil = clean_replacement params
               in if ceil \<le> HOP_DECAY_CLAMP_FLOOR then Some ceil
                  else f64_clamp raw HOP_DECAY_CLAMP_FLOOR ceil)
            else Some (dead_end params)
        | None \<Rightarrow> Some (dead_end params))"

definition graph_penalty_with :: "(real \<Rightarrow> real \<Rightarrow> real) \<Rightarrow> (real \<Rightarrow> int \<Rightarrow> real) \<Rightarrow> ('g, 'ix, relation_edge) petgraph \<Rightarrow>
    nat \<Rightarrow> ('g, 'ix) typed_relation_graph \<Rightarrow> entry_record list \<Rightarrow> graph_penalty_params \<Rightarrow> real option" where
  "graph_penalty_with fmul fpowi pg node_id g entries params =
     (case hm_get (node_index g) node_id of
        None \<Rightarrow> Some 1
      | Some node_idx \<Rightarrow>
          (case entry_by_id node_id entries of
             None \<Rightarrow> Some 1
           | Some entry \<Rightarrow>
               (let outgoing_count = length (edges_of_type pg g node_idx Supersedes Outgoing);
                    successor_count = outgoing_count;
                    is_orphan = (status entry = Deprecated \<and> outgoing_count = 0)
                in if is_orphan then Some (orphan params)
                   else case dfs_active_reachable node_idx pg g entries (max_traversal_depth params) of
                       None \<Rightarrow> None
                     | Some active_reachable \<Rightarrow>
                         if \<not> active_reachable then Some (dead_end params)
                         else if successor_count > 1 then Some (partial_supersession params)
                         else case bfs_chain_depth node_idx pg g entries (max_traversal_depth params) of
                             None \<Rightarrow> None
                           | Some chain_depth \<Rightarrow> chain_penalty fmul fpowi params chain_depth)))"

definition graph_penalty :: "(real \<Rightarrow> real \<Rightarrow> real) \<Rightarrow> (real \<Rightarrow> int \<Rightarrow> real) \<Rightarrow> ('g, 'ix, relation_edge) petgraph \<Rightarrow>
    nat \<Rightarrow> ('g, 'ix) typed_relation_graph \<Rightarrow> entry_record list \<Rightarrow> real option" where
  "graph_penalty fmul fpowi pg node_id g entries = graph_penalty_with fmul fpowi pg node_id g entries default_params"

end
