(* ===== verification/Graph_Walk_Props.thy ===== *)
theory Graph_Walk_Props
  imports Graph_Walk
begin

text \<open>
  What the traversals compute, stated over the entries alone. The graph built from a corpus
  with unique ids is a forest along supersessions: an entry names at most one predecessor.
  On a forest a depth-capped search with a visited set misses nothing, because every node is
  reached by one path only.
\<close>

section \<open>Forests\<close>

definition forest :: "('a \<times> 'a) set \<Rightarrow> bool" where
  "forest S \<longleftrightarrow> acyclic S \<and> (\<forall>p q k. (p, k) \<in> S \<longrightarrow> (q, k) \<in> S \<longrightarrow> p = q)"

text \<open>
  Nodes \<open>V\<close> seen so far by a search from \<open>s\<close>, of which \<open>F\<close> still wait to be expanded.
\<close>

definition walk_inv :: "('a \<times> 'a) set \<Rightarrow> 'a \<Rightarrow> 'a set \<Rightarrow> 'a list \<Rightarrow> bool" where
  "walk_inv S s V F \<longleftrightarrow> s \<in> V \<and> V \<subseteq> S\<^sup>* `` {s} \<and> set F \<subseteq> V \<and> distinct F \<and>
     (\<forall>k \<in> V. k = s \<or> (\<exists>p \<in> V - set F. (p, k) \<in> S))"

lemma walk_start: "walk_inv S s {s} [s]"
  by (simp add: walk_inv_def)

lemma walk_drop: "walk_inv S s V (i # F) \<Longrightarrow> walk_inv S s V F"
  by (auto simp: walk_inv_def)

lemma walk_fresh:
  assumes "forest S" and "walk_inv S s V F" and "i \<in> set F" and "(i, j) \<in> S"
  shows "j \<notin> V"
proof
  assume j: "j \<in> V"
  have "(s, i) \<in> S\<^sup>*" using assms(2,3) by (auto simp: walk_inv_def)
  then have "(s, j) \<in> S\<^sup>+" using assms(4) by (rule rtrancl_into_trancl1)
  then have "j \<noteq> s" using assms(1) by (auto simp: forest_def acyclic_def)
  then obtain p where "p \<in> V - set F" "(p, j) \<in> S" using assms(2) j by (auto simp: walk_inv_def)
  then show False using assms(1,3,4) by (auto simp: forest_def)
qed

lemma walk_expand:
  assumes "forest S" and "walk_inv S s V (i # F)"
    and "mset F' = mset F + mset new" and "distinct new" and "set new = S `` {i}"
  shows "walk_inv S s (V \<union> S `` {i}) F'"
proof -
  have set': "set F' = set F \<union> S `` {i}" using arg_cong [OF assms(3), of set_mset] assms(5) by simp
  have fresh: "S `` {i} \<inter> V = {}" using walk_fresh [OF assms(1,2), of i] by auto
  have s: "(s, i) \<in> S\<^sup>*" "i \<in> V" "i \<notin> set F" "set F \<subseteq> V" "distinct F" using assms(2) by (auto simp: walk_inv_def)
  have "distinct F'"
  proof -
    have "distinct (F @ new)" using s(4,5) assms(4,5) fresh by auto
    then show ?thesis using assms(3) by (metis mset_append mset_eq_imp_distinct_iff)
  qed
  moreover have "\<exists>p \<in> (V \<union> S `` {i}) - set F'. (p, k) \<in> S" if k: "k \<in> V \<union> S `` {i}" "k \<noteq> s" for k
  proof (cases "k \<in> V")
    case True
    then obtain p where "p \<in> V - set (i # F)" "(p, k) \<in> S"
      using assms(2) k(2) unfolding walk_inv_def by (metis list.simps(15))
    then show ?thesis using fresh set' by auto
  next
    case False
    then have "(i, k) \<in> S" using k(1) by simp
    moreover have "i \<notin> set F'" using s(2,3) fresh set' by auto
    ultimately show ?thesis using s(2) by blast
  qed
  moreover have "V \<union> S `` {i} \<subseteq> S\<^sup>* `` {s}"
    using assms(2) s(1) by (auto simp: walk_inv_def intro: rtrancl_into_rtrancl)
  ultimately show ?thesis using assms(2) set' by (auto simp: walk_inv_def)
qed

section \<open>Edges of a node\<close>

definition succ_ix :: "('g, 'ix, relation_edge) petgraph \<Rightarrow> ('g, 'ix) typed_relation_graph \<Rightarrow> ('ix \<times> 'ix) set" where
  "succ_ix pg g = {(a, b). \<exists>e. (a, b, e) \<in> set (pg_edge_references pg (inner g)) \<and> edge_type e = ''Supersedes''}"

definition targets :: "('ix \<times> 'ix \<times> 'e) list \<Rightarrow> 'ix list" where
  "targets refs = map (\<lambda>(_, n, _). n) refs"

lemma targets_simps [simp]: "targets [] = []" "targets ((a, n, e) # refs) = n # targets refs"
  by (simp_all add: targets_def)

text \<open>The edges of a type at a node are the edges of that type between ids that start, or end, at its id.\<close>

lemma edges_of_type_ids:
  assumes "petgraph_ok pg" and "graph_wf pg g" and "hm_get (node_index g) u = Some i"
  defines "ids \<equiv> \<lambda>(a, b, e). (the (pg_node_weight pg (inner g) a), the (pg_node_weight pg (inner g) b), e)"
  shows "image_mset ids (mset (edges_of_type pg g i rt d)) =
    filter_mset (\<lambda>(a, b, e). edge_type e = as_str rt \<and> (case d of Outgoing \<Rightarrow> a = u | Incoming \<Rightarrow> b = u)) (id_edges pg g)"
proof -
  let ?R = "mset (pg_edge_references pg (inner g))"
  let ?P = "\<lambda>(a, b, e). edge_type e = as_str rt \<and> (case d of Outgoing \<Rightarrow> a = u | Incoming \<Rightarrow> b = u)"
  have iu: "pg_node_weight pg (inner g) x = Some u \<longleftrightarrow> x = i" for x
    using assms(3) wf_index [OF assms(2)] by (metis option.inject)
  have "mset (edges_of_type pg g i rt d) = filter_mset (\<lambda>r. edge_type (snd (snd r)) = as_str rt \<and> edge_at d i r) ?R"
    by (simp add: edges_of_type_def case_prod_beta pg_edges_directed_law [OF assms(1)] filter_filter_mset conj_commute)
  also have "\<dots> = filter_mset (\<lambda>r. ?P (ids r)) ?R"
  proof (rule filter_mset_cong [OF refl])
    fix r
    assume "r \<in># ?R"
    obtain a b e where r: "r = (a, b, e)" by (rule prod_cases3)
    then have "(a, b, e) \<in> set (pg_edge_references pg (inner g))" using \<open>r \<in># ?R\<close> by simp
    then obtain x y where "pg_node_weight pg (inner g) a = Some x" "pg_node_weight pg (inner g) b = Some y"
      by (rule wf_edge [OF assms(2)])
    then show "(edge_type (snd (snd r)) = as_str rt \<and> edge_at d i r) = ?P (ids r)"
      using iu [of a] iu [of b] by (cases d) (auto simp: r ids_def edge_at_def)
  qed
  finally show ?thesis by (simp add: id_edges_def ids_def [symmetric] filter_mset_image_mset)
qed

lemma set_targets:
  assumes "petgraph_ok pg"
  shows "set (targets (edges_of_type pg g i Supersedes Outgoing)) = succ_ix pg g `` {i}"
proof -
  have "set (pg_edges_directed pg (inner g) i Outgoing) =
      {r \<in> set (pg_edge_references pg (inner g)). edge_at Outgoing i r}"
    using arg_cong [OF pg_edges_directed_law [OF assms, of "inner g" i Outgoing], of set_mset] by simp
  then show ?thesis by (force simp: targets_def edges_of_type_def succ_ix_def edge_at_def)
qed

lemma succ_ix_weight:
  assumes "graph_wf pg g" and "(i, j) \<in> succ_ix pg g"
  shows "\<exists>t. pg_node_weight pg (inner g) j = Some t"
proof -
  obtain e where "(i, j, e) \<in> set (pg_edge_references pg (inner g))" using assms(2) by (auto simp: succ_ix_def)
  then show ?thesis by (rule wf_edge [OF assms(1)]) blast
qed

section \<open>Searches on a forest\<close>

text \<open>
  The nodes \<open>j\<close> that can be reached from the work list after \<open>h\<close> hops in all, of which at
  least \<open>l\<close> from the list, within the cap.
\<close>

definition hops :: "nat \<Rightarrow> ('a \<times> 'a) set \<Rightarrow> nat \<Rightarrow> ('a \<times> nat) list \<Rightarrow> nat \<Rightarrow> 'a \<Rightarrow> bool" where
  "hops l S m work h j \<longleftrightarrow> h \<le> m \<and> (\<exists>i d k. (i, d) \<in> set work \<and> l \<le> k \<and> h = d + k \<and> (i, j) \<in> S ^^ k)"

lemma hops_Nil [simp]: "\<not> hops l S m [] h j"
  by (simp add: hops_def)

lemma hops_drop:
  "m < d + l \<Longrightarrow> hops l S m ((i, d) # work) h j \<longleftrightarrow> hops l S m work h j"
  unfolding hops_def by auto

lemma hops_last: "hops 0 S m ((i, m) # work) h j \<longleftrightarrow> (h = m \<and> j = i) \<or> hops 0 S m work h j"
proof -
  have "(\<exists>x y k. (x, y) \<in> set ((i, m) # work) \<and> 0 \<le> k \<and> h = y + k \<and> (x, j) \<in> S ^^ k) \<longleftrightarrow>
      (\<exists>k. h = m + k \<and> (i, j) \<in> S ^^ k) \<or> (\<exists>x y k. (x, y) \<in> set work \<and> 0 \<le> k \<and> h = y + k \<and> (x, j) \<in> S ^^ k)"
    by auto
  moreover have "h \<le> m \<and> (\<exists>k. h = m + k \<and> (i, j) \<in> S ^^ k) \<longleftrightarrow> h = m \<and> j = i" by auto
  ultimately show ?thesis unfolding hops_def by blast
qed

lemma hops_expand_iff:
  assumes "set work' = set work \<union> (\<lambda>n. (n, Suc d)) ` (S `` {i})"
  shows "hops l S m ((i, d) # work) h j \<longleftrightarrow> (h = d + l \<and> h \<le> m \<and> (i, j) \<in> S ^^ l) \<or> hops l S m work' h j"
proof -
  have "(\<exists>k \<ge> l. h = d + k \<and> (i, j) \<in> S ^^ k) \<longleftrightarrow>
      (h = d + l \<and> (i, j) \<in> S ^^ l) \<or> (\<exists>n k. (i, n) \<in> S \<and> l \<le> k \<and> h = Suc d + k \<and> (n, j) \<in> S ^^ k)" (is "?L \<longleftrightarrow> ?R")
  proof
    assume ?L
    then obtain k where k: "l \<le> k" "h = d + k" "(i, j) \<in> S ^^ k" by blast
    show ?R
    proof (cases "k = l")
      case False
      then obtain k' where k': "k = Suc k'" "l \<le> k'" using k(1) by (cases k) auto
      then obtain n where "(i, n) \<in> S" "(n, j) \<in> S ^^ k'" using k(3) by (meson relpow_Suc_D2)
      then show ?thesis using k(2) k' by auto
    qed (use k in blast)
  next
    assume ?R
    then show ?L
    proof (elim disjE exE conjE)
      fix n k
      assume "(i, n) \<in> S" "l \<le> k" "h = Suc d + k" "(n, j) \<in> S ^^ k"
      moreover from this have "(i, j) \<in> S ^^ Suc k" by (meson relpow_Suc_I2)
      ultimately show ?L by (intro exI [of _ "Suc k"]) auto
    qed blast
  qed
  moreover have "(\<exists>x y k. (x, y) \<in> set ((i, d) # work) \<and> l \<le> k \<and> h = y + k \<and> (x, j) \<in> S ^^ k) \<longleftrightarrow>
      (\<exists>k \<ge> l. h = d + k \<and> (i, j) \<in> S ^^ k) \<or> (\<exists>x y k. (x, y) \<in> set work \<and> l \<le> k \<and> h = y + k \<and> (x, j) \<in> S ^^ k)"
    by auto
  moreover have "(x, y) \<in> set work' \<longleftrightarrow> (x, y) \<in> set work \<or> y = Suc d \<and> (i, x) \<in> S" for x y by (auto simp: assms)
  then have "(\<exists>x y k. (x, y) \<in> set work' \<and> l \<le> k \<and> h = y + k \<and> (x, j) \<in> S ^^ k) \<longleftrightarrow>
      (\<exists>n k. (i, n) \<in> S \<and> l \<le> k \<and> h = Suc d + k \<and> (n, j) \<in> S ^^ k) \<or>
      (\<exists>x y k. (x, y) \<in> set work \<and> l \<le> k \<and> h = y + k \<and> (x, j) \<in> S ^^ k)"
    by blast
  ultimately show ?thesis unfolding hops_def by argo
qed

definition cur_ix :: "('g, 'ix, relation_edge) petgraph \<Rightarrow> ('g, 'ix) typed_relation_graph \<Rightarrow> entry_record list \<Rightarrow> 'ix \<Rightarrow> bool" where
  "cur_ix pg g entries j \<longleftrightarrow> (\<exists>t. pg_node_weight pg (inner g) j = Some t \<and> is_current entries t)"

definition forest_graph :: "('g, 'ix, relation_edge) petgraph \<Rightarrow> ('g, 'ix) typed_relation_graph \<Rightarrow> bool" where
  "forest_graph pg g \<longleftrightarrow> petgraph_ok pg \<and> graph_wf pg g \<and> forest (succ_ix pg g) \<and>
     (\<forall>i. distinct (targets (edges_of_type pg g i Supersedes Outgoing)))"

subsection \<open>The terminal search\<close>

lemma push_unvisited_spec:
  assumes "push_unvisited refs d stack V = (stack', V')" and "distinct (targets refs)"
    and "set (targets refs) \<inter> V = {}"
  shows "mset stack' = mset stack + mset (map (\<lambda>n. (n, d)) (targets refs)) \<and> V' = V \<union> set (targets refs)"
  using assms
proof (induction refs d stack V rule: push_unvisited.induct)
  case (2 a n e refs d stack V)
  then have "push_unvisited refs d ((n, d) # stack) (insert n V) = (stack', V')" by simp
  with 2 show ?case by auto
qed simp

lemma expand_work:
  assumes "forest_graph pg g" and "walk_inv (succ_ix pg g) s V (i # map fst work)"
    and "mset work' = mset work + mset (map (\<lambda>n. (n, Suc d)) (targets (edges_of_type pg g i Supersedes Outgoing)))"
  shows "walk_inv (succ_ix pg g) s (V \<union> succ_ix pg g `` {i}) (map fst work')"
    "set work' = set work \<union> (\<lambda>n. (n, Suc d)) ` (succ_ix pg g `` {i})"
proof -
  let ?new = "targets (edges_of_type pg g i Supersedes Outgoing)"
  have t: "set ?new = succ_ix pg g `` {i}" using assms(1) by (intro set_targets) (simp add: forest_graph_def)
  have "mset (map fst work') = mset (map fst work) + mset ?new"
    using arg_cong [OF assms(3), of "image_mset fst"] by (simp add: multiset.map_comp comp_def)
  then show "walk_inv (succ_ix pg g) s (V \<union> succ_ix pg g `` {i}) (map fst work')"
    using assms(1) by (intro walk_expand [OF _ assms(2) _ _ t]) (simp_all add: forest_graph_def)
  show "set work' = set work \<union> (\<lambda>n. (n, Suc d)) ` (succ_ix pg g `` {i})"
    using arg_cong [OF assms(3), of set_mset] t by simp
qed

lemma unseen_targets:
  assumes "forest_graph pg g" and "walk_inv (succ_ix pg g) s V (i # F)"
  shows "set (targets (edges_of_type pg g i Supersedes Outgoing)) \<inter> V = {}"
  using assms walk_fresh [of "succ_ix pg g" s V "i # F" i] set_targets [of pg g i] by (auto simp: forest_graph_def)

lemma terminal_loop_correct:
  "forest_graph pg g \<Longrightarrow> walk_inv (succ_ix pg g) s V (map fst stack) \<Longrightarrow>
    \<forall>i \<in> fst ` set stack. pg_node_weight pg (inner g) i \<noteq> None \<Longrightarrow>
    \<forall>d \<in> snd ` set stack. d \<le> MAX_TRAVERSAL_DEPTH \<Longrightarrow>
    \<exists>r. terminal_loop pg g entries stack V = Some r \<and>
      (r = None \<longrightarrow> (\<forall>h j. hops 0 (succ_ix pg g) MAX_TRAVERSAL_DEPTH stack h j \<longrightarrow> \<not> cur_ix pg g entries j)) \<and>
      (\<forall>t. r = Some t \<longrightarrow> is_current entries t \<and>
         (\<exists>h j. hops 0 (succ_ix pg g) MAX_TRAVERSAL_DEPTH stack h j \<and> pg_node_weight pg (inner g) j = Some t))"
proof (induction pg g entries stack V rule: terminal_loop.induct)
  case (2 pg g entries i d stack V)
  let ?S = "succ_ix pg g" and ?M = MAX_TRAVERSAL_DEPTH
  obtain t where t: "pg_node_weight pg (inner g) i = Some t" using "2.prems"(3) by auto
  have d: "d \<le> ?M" using "2.prems"(4) by simp
  have w: "walk_inv ?S s V (i # map fst stack)" using "2.prems"(2) by simp
  have here: "hops 0 ?S ?M ((i, d) # stack) d i" using d by (force simp: hops_def)
  have cur: "cur_ix pg g entries i \<longleftrightarrow> is_current entries t" by (simp add: cur_ix_def t)
  consider "is_current entries t" | "\<not> is_current entries t" "d = ?M" | "\<not> is_current entries t" "d < ?M" using d by linarith
  then show ?case
  proof cases
    case 1
    then show ?thesis using t here by auto
  next
    case 2
    have "\<exists>r. terminal_loop pg g entries stack V = Some r \<and>
      (r = None \<longrightarrow> (\<forall>h j. hops 0 ?S ?M stack h j \<longrightarrow> \<not> cur_ix pg g entries j)) \<and>
      (\<forall>t. r = Some t \<longrightarrow> is_current entries t \<and> (\<exists>h j. hops 0 ?S ?M stack h j \<and> pg_node_weight pg (inner g) j = Some t))"
      using 2 "2.IH"(1) [OF t] "2.prems" walk_drop [OF w] by simp
    then show ?thesis using 2 t cur unfolding \<open>d = ?M\<close> hops_last by auto
  next
    case 3
    let ?refs = "edges_of_type pg g i Supersedes Outgoing"
    obtain stack' V' where p: "push_unvisited ?refs (d + 1) stack V = (stack', V')" by fastforce
    have sp: "mset stack' = mset stack + mset (map (\<lambda>n. (n, Suc d)) (targets ?refs))" "V' = V \<union> ?S `` {i}"
      using push_unvisited_spec [OF p _ unseen_targets [OF "2.prems"(1) w]] "2.prems"(1) set_targets [of pg g i]
      by (simp_all add: forest_graph_def)
    note ex = expand_work [OF "2.prems"(1) w sp(1)]
    have new: "\<forall>i \<in> fst ` set stack'. pg_node_weight pg (inner g) i \<noteq> None" "\<forall>d \<in> snd ` set stack'. d \<le> ?M"
      using "2.prems"(1,3,4) 3(2) succ_ix_weight [of pg g i] by (auto simp: ex(2) forest_graph_def)
    have "\<exists>r. terminal_loop pg g entries stack' V' = Some r \<and>
      (r = None \<longrightarrow> (\<forall>h j. hops 0 ?S ?M stack' h j \<longrightarrow> \<not> cur_ix pg g entries j)) \<and>
      (\<forall>t. r = Some t \<longrightarrow> is_current entries t \<and> (\<exists>h j. hops 0 ?S ?M stack' h j \<and> pg_node_weight pg (inner g) j = Some t))"
      using 3 "2.IH"(2) [OF t _ _ p [symmetric]] "2.prems"(1) ex(1) new sp(2) by simp
    then show ?thesis using 3 t cur p unfolding hops_expand_iff [OF ex(2)] by auto
  qed
qed simp

subsection \<open>Reachability\<close>

lemma dfs_neighbors_spec:
  assumes "\<forall>n \<in> set (targets refs). pg_node_weight pg (inner g) n \<noteq> None"
  shows "\<exists>r. dfs_neighbors pg g entries refs d stack = Some r \<and>
    (r = None \<longleftrightarrow> (\<exists>n \<in> set (targets refs). cur_ix pg g entries n)) \<and>
    (\<forall>stack'. r = Some stack' \<longrightarrow> mset stack' = mset stack + mset (map (\<lambda>n. (n, d)) (targets refs)))"
  using assms
proof (induction refs arbitrary: stack)
  case (Cons x refs)
  obtain a n e where x: "x = (a, n, e)" by (rule prod_cases3)
  obtain t where t: "pg_node_weight pg (inner g) n = Some t" using Cons.prems by (auto simp: x)
  show ?case
  proof (cases "is_current entries t")
    case True
    then show ?thesis using t by (simp add: x cur_ix_def)
  next
    case False
    obtain r where "dfs_neighbors pg g entries refs d ((n, d) # stack) = Some r"
      "r = None \<longleftrightarrow> (\<exists>n \<in> set (targets refs). cur_ix pg g entries n)"
      "\<forall>stack'. r = Some stack' \<longrightarrow> mset stack' = mset ((n, d) # stack) + mset (map (\<lambda>n. (n, d)) (targets refs))"
      using Cons.IH [of "(n, d) # stack"] Cons.prems by (auto simp: x)
    then show ?thesis using False t by (simp add: x cur_ix_def)
  qed
qed simp

lemma dfs_loop_correct:
  "forest_graph pg g \<Longrightarrow> walk_inv (succ_ix pg g) s (visited \<union> fst ` set stack) (map fst stack) \<Longrightarrow>
   visited \<inter> fst ` set stack = {} \<Longrightarrow>
   dfs_loop pg g entries m stack visited =
     Some (\<exists>h j. hops 1 (succ_ix pg g) (Suc m) stack h j \<and> cur_ix pg g entries j)"
proof (induction pg g entries m stack visited rule: dfs_loop.induct)
  case (2 pg g entries m i d stack visited)
  let ?S = "succ_ix pg g" and ?V = "visited \<union> fst ` set ((i, d) # stack)"
  have w: "walk_inv ?S s ?V (i # map fst stack)" using "2.prems"(2) by simp
  have i: "i \<notin> visited" using "2.prems"(3) by auto
  have i': "i \<notin> fst ` set stack" using w by (simp add: walk_inv_def)
  have V: "insert i visited \<union> fst ` set stack = ?V" by auto
  have disj: "insert i visited \<inter> fst ` set stack = {}" using "2.prems"(3) i' by auto
  show ?case
  proof (cases "d > m")
    case True
    then have "hops 1 ?S (Suc m) ((i, d) # stack) h j \<longleftrightarrow> hops 1 ?S (Suc m) stack h j" for h j
      by (intro hops_drop) simp
    then show ?thesis using True i "2.IH"(2) [OF i True "2.prems"(1)] walk_drop [OF w] disj unfolding V by simp
  next
    case False
    let ?refs = "edges_of_type pg g i Supersedes Outgoing"
    have ok: "petgraph_ok pg" "graph_wf pg g" using "2.prems"(1) by (simp_all add: forest_graph_def)
    have t: "set (targets ?refs) = ?S `` {i}" by (rule set_targets [OF ok(1)])
    obtain r where r: "dfs_neighbors pg g entries ?refs (d + 1) stack = Some r"
      "r = None \<longleftrightarrow> (\<exists>n \<in> set (targets ?refs). cur_ix pg g entries n)"
      "\<And>stack'. r = Some stack' \<Longrightarrow> mset stack' = mset stack + mset (map (\<lambda>n. (n, d + 1)) (targets ?refs))"
      using dfs_neighbors_spec [of ?refs pg g entries "d + 1" stack] succ_ix_weight [OF ok(2), of i] t by auto
    show ?thesis
    proof (cases r)
      case None
      then obtain n where "(i, n) \<in> ?S" "cur_ix pg g entries n" using r(2) t by auto
      moreover from this have "hops 1 ?S (Suc m) ((i, d) # stack) (Suc d) n"
        using False unfolding hops_def by (intro conjI exI [of _ i] exI [of _ d] exI [of _ 1]) auto
      ultimately show ?thesis using False i None r(1) by auto
    next
      case (Some stack')
      have ms: "mset stack' = mset stack + mset (map (\<lambda>n. (n, Suc d)) (targets ?refs))" using r(3) [OF Some] by simp
      note ex = expand_work [OF "2.prems"(1) w ms]
      have fresh: "?S `` {i} \<inter> ?V = {}" using unseen_targets [OF "2.prems"(1) w] t by simp
      have "insert i visited \<union> fst ` set stack' = ?V \<union> ?S `` {i}" by (auto simp: ex(2) image_Un image_image)
      moreover have "insert i visited \<inter> fst ` set stack' = {}"
        using disj fresh by (auto simp: ex(2) image_Un image_image)
      ultimately have IH: "dfs_loop pg g entries m stack' (insert i visited) =
          Some (\<exists>h j. hops 1 ?S (Suc m) stack' h j \<and> cur_ix pg g entries j)"
        using "2.IH"(3) [OF i False r(1) Some "2.prems"(1)] ex(1) by simp
      have "\<not> cur_ix pg g entries n" if "(i, n) \<in> ?S" for n using r(2) Some t that by auto
      then show ?thesis using False i r(1) Some IH unfolding hops_expand_iff [OF ex(2)] by auto
    qed
  qed
qed simp

subsection \<open>Chain depth\<close>

lemma bfs_neighbors_spec:
  assumes "\<forall>n \<in> set (targets refs). pg_node_weight pg (inner g) n \<noteq> None"
    and "distinct (targets refs)" and "set (targets refs) \<inter> V = {}"
  shows "bfs_neighbors pg g entries refs d queue V =
    Some (if \<exists>n \<in> set (targets refs). cur_ix pg g entries n then Inl d
          else Inr (queue @ map (\<lambda>n. (n, d)) (targets refs), V \<union> set (targets refs)))"
  using assms
proof (induction refs arbitrary: queue V)
  case (Cons x refs)
  obtain a n e where x: "x = (a, n, e)" by (rule prod_cases3)
  obtain t where t: "pg_node_weight pg (inner g) n = Some t" using Cons.prems by (auto simp: x)
  show ?case
  proof (cases "is_current entries t")
    case True
    then show ?thesis using t Cons.prems by (simp add: x cur_ix_def)
  next
    case False
    then show ?thesis using Cons.IH [of "insert n V" "queue @ [(n, d)]"] Cons.prems t by (simp add: x cur_ix_def)
  qed
qed simp

text \<open>The queue holds at most two consecutive depths, the smaller first.\<close>

definition level_queue :: "('ix \<times> nat) list \<Rightarrow> bool" where
  "level_queue queue \<longleftrightarrow> sorted (map snd queue) \<and> (\<forall>x \<in> set queue. \<forall>y \<in> set queue. snd y \<le> Suc (snd x))"

lemma level_queue_drop: "level_queue (x # queue) \<Longrightarrow> level_queue queue"
  by (simp add: level_queue_def)

lemma level_queue_expand:
  "level_queue ((i, d) # queue) \<Longrightarrow> level_queue (queue @ map (\<lambda>n. (n, Suc d)) ns)"
  by (auto simp: level_queue_def sorted_append comp_def map_replicate_const)

lemma hops_ge: "level_queue ((i, d) # queue) \<Longrightarrow> hops 1 S m ((i, d) # queue) h j \<Longrightarrow> Suc d \<le> h"
  by (auto simp: level_queue_def hops_def)

text \<open>The least number that satisfies a predicate, or None.\<close>

definition least_hop :: "(nat \<Rightarrow> bool) \<Rightarrow> nat option \<Rightarrow> bool" where
  "least_hop H r \<longleftrightarrow> (case r of None \<Rightarrow> \<forall>h. \<not> H h | Some d \<Rightarrow> H d \<and> (\<forall>h. H h \<longrightarrow> d \<le> h))"

definition cur_hop :: "('g, 'ix, relation_edge) petgraph \<Rightarrow> ('g, 'ix) typed_relation_graph \<Rightarrow> entry_record list \<Rightarrow>
    nat \<Rightarrow> ('ix \<times> nat) list \<Rightarrow> nat \<Rightarrow> bool" where
  "cur_hop pg g entries m work h \<longleftrightarrow> (\<exists>j. hops 1 (succ_ix pg g) (Suc m) work h j \<and> cur_ix pg g entries j)"

lemma bfs_loop_correct:
  "forest_graph pg g \<Longrightarrow> walk_inv (succ_ix pg g) s V (map fst queue) \<Longrightarrow> level_queue queue \<Longrightarrow>
   \<exists>r. bfs_loop pg g entries m queue V = Some r \<and> least_hop (cur_hop pg g entries m queue) r"
proof (induction pg g entries m queue V rule: bfs_loop.induct)
  case (2 pg g entries m i d queue V)
  let ?S = "succ_ix pg g"
  have w: "walk_inv ?S s V (i # map fst queue)" using "2.prems"(2) by simp
  show ?case
  proof (cases "d > m")
    case True
    then have "cur_hop pg g entries m ((i, d) # queue) = cur_hop pg g entries m queue"
      by (simp add: cur_hop_def fun_eq_iff hops_drop)
    then show ?thesis
      using True "2.IH"(1) [OF True "2.prems"(1)] walk_drop [OF w] level_queue_drop [OF "2.prems"(3)] by simp
  next
    case False
    let ?refs = "edges_of_type pg g i Supersedes Outgoing"
    let ?queue = "queue @ map (\<lambda>n. (n, Suc d)) (targets ?refs)"
    have ok: "petgraph_ok pg" "graph_wf pg g" "distinct (targets ?refs)"
      using "2.prems"(1) by (simp_all add: forest_graph_def)
    have t: "set (targets ?refs) = ?S `` {i}" by (rule set_targets [OF ok(1)])
    have n: "bfs_neighbors pg g entries ?refs (d + 1) queue V =
      Some (if \<exists>n \<in> ?S `` {i}. cur_ix pg g entries n then Inl (d + 1) else Inr (?queue, V \<union> ?S `` {i}))"
    proof -
      have "\<forall>n \<in> set (targets ?refs). pg_node_weight pg (inner g) n \<noteq> None"
        using succ_ix_weight [OF ok(2), of i] t by auto
      from bfs_neighbors_spec [OF this ok(3) unseen_targets [OF "2.prems"(1) w]] show ?thesis unfolding t by simp
    qed
    show ?thesis
    proof (cases "\<exists>n \<in> ?S `` {i}. cur_ix pg g entries n")
      case True
      then obtain j where j: "(i, j) \<in> ?S" "cur_ix pg g entries j" by auto
      then have "hops 1 ?S (Suc m) ((i, d) # queue) (Suc d) j"
        using False unfolding hops_def by (intro conjI exI [of _ i] exI [of _ d] exI [of _ 1]) auto
      then have "least_hop (cur_hop pg g entries m ((i, d) # queue)) (Some (Suc d))"
        using j(2) hops_ge [OF "2.prems"(3)] by (auto simp: least_hop_def cur_hop_def)
      then show ?thesis using False True n by simp
    next
      case none: False
      have "mset ?queue = mset queue + mset (map (\<lambda>n. (n, Suc d)) (targets ?refs))" by simp
      note ex = expand_work [OF "2.prems"(1) w this]
      have "\<exists>r. bfs_loop pg g entries m ?queue (V \<union> ?S `` {i}) = Some r \<and> least_hop (cur_hop pg g entries m ?queue) r"
        using none "2.IH"(2) [OF False n, of "(?queue, V \<union> ?S `` {i})" ?queue "V \<union> ?S `` {i}"]
          "2.prems"(1) ex(1) level_queue_expand [OF "2.prems"(3)] by simp
      moreover have "cur_hop pg g entries m ((i, d) # queue) = cur_hop pg g entries m ?queue"
        using none unfolding cur_hop_def fun_eq_iff hops_expand_iff [OF ex(2)] by auto
      ultimately show ?thesis using False none n by simp
    qed
  qed
qed (simp add: least_hop_def cur_hop_def)

section \<open>The graph of a corpus is a forest\<close>

lemma supersession_ids: "supersession entries \<subseteq> eid ` set entries \<times> eid ` set entries"
  by (auto simp: supersession_def)

lemma supersession_unique:
  assumes "distinct (map eid entries)" and "(p, k) \<in> supersession entries" and "(q, k) \<in> supersession entries"
  shows "p = q"
proof -
  obtain e e' where e: "e \<in> set entries" "supersedes e = Some p" "eid e = k"
    "e' \<in> set entries" "supersedes e' = Some q" "eid e' = k"
    using assms(2,3) by (auto simp: supersession_def)
  have "e = e'" using assms(1) e(1,3,4,6) by (simp add: distinct_map inj_on_def)
  then show ?thesis using e by simp
qed

definition successors :: "entry_record list \<Rightarrow> nat \<Rightarrow> entry_record list" where
  "successors entries u = filter (\<lambda>e. supersedes e = Some u) entries"

lemma expected_successors:
  assumes "u \<in> eid ` set entries"
  shows "filter_mset (\<lambda>(a, b, e). edge_type e = as_str Supersedes \<and> a = u) (expected_edges entries edges) =
    mset (map (\<lambda>e. (u, eid e, supersedes_edge)) (successors entries u))"
proof -
  let ?P = "\<lambda>(a, b, e). edge_type e = as_str Supersedes \<and> a = u" and ?ids = "eid ` set entries"
  have "filter_mset ?P (mset (concat (map (supersession_edges ?ids) es))) =
      mset (map (\<lambda>e. (u, eid e, supersedes_edge)) (filter (\<lambda>e. supersedes e = Some u) es))" for es
    by (induction es) (use assms in \<open>auto simp: supersession_edges_def supersedes_edge_def split: option.splits\<close>)
  moreover have "filter_mset ?P (mset (concat (map (row_edges ?ids) rows))) = {#}" for rows
    by (induction rows) (auto simp: row_edges_def admitted_row_def row_edge_def)
  ultimately show ?thesis by (simp add: expected_edges_def successors_def)
qed

text \<open>What the traversals rely on, for the graph of a corpus.\<close>

definition corpus_graph :: "('g, 'ix, relation_edge) petgraph \<Rightarrow> entry_record list \<Rightarrow> ('g, 'ix) typed_relation_graph \<Rightarrow> bool" where
  "corpus_graph pg entries g \<longleftrightarrow> petgraph_ok pg \<and> distinct (map eid entries) \<and> acyclic (supersession entries) \<and>
     graph_wf pg g \<and> graph_ids g = eid ` set entries \<and> (\<exists>edges. id_edges pg g = expected_edges entries edges)"

lemma corpus_graph_built:
  assumes "petgraph_ok pg" and "petgraph_ok pt" and "distinct (map eid entries)"
    and "build_typed_relation_graph pg pt entries edges = Some (Inr g)"
  shows "corpus_graph pg entries g"
  using build_graph [OF assms(1-3), of edges] assms by (auto simp: corpus_graph_def split: if_splits)

lemma corpus_index: "corpus_graph pg entries g \<Longrightarrow> u \<in> eid ` set entries \<longleftrightarrow> (\<exists>i. hm_get (node_index g) u = Some i)"
  by (auto simp: corpus_graph_def graph_ids_def)

lemma corpus_out_edges:
  assumes "corpus_graph pg entries g" and "hm_get (node_index g) u = Some i"
  shows "mset (map (\<lambda>n. the (pg_node_weight pg (inner g) n)) (targets (edges_of_type pg g i Supersedes Outgoing))) =
    mset (map eid (successors entries u))"
proof -
  obtain edges where c: "petgraph_ok pg" "graph_wf pg g" "id_edges pg g = expected_edges entries edges"
    using assms(1) by (auto simp: corpus_graph_def)
  have u: "u \<in> eid ` set entries" using assms(2) corpus_index [OF assms(1)] by blast
  have "image_mset (\<lambda>(a, b, e). b) (image_mset (\<lambda>(a, b, e). (the (pg_node_weight pg (inner g) a),
      the (pg_node_weight pg (inner g) b), e)) (mset (edges_of_type pg g i Supersedes Outgoing))) =
    image_mset (\<lambda>(a, b, e). b) (mset (map (\<lambda>e. (u, eid e, supersedes_edge)) (successors entries u)))"
    unfolding edges_of_type_ids [OF c(1,2) assms(2)] c(3) direction.case expected_successors [OF u] ..
  then show ?thesis by (simp add: targets_def multiset.map_comp comp_def case_prod_beta)
qed

lemma corpus_out_degree:
  assumes "corpus_graph pg entries g" and "hm_get (node_index g) u = Some i"
  shows "length (edges_of_type pg g i Supersedes Outgoing) = length (successors entries u)"
  using arg_cong [OF corpus_out_edges [OF assms], of size] by (simp add: targets_def)

lemma corpus_succ_ix:
  assumes "corpus_graph pg entries g"
  shows "succ_ix pg g = map_prod (nx g) (nx g) ` supersession entries"
proof -
  obtain edges where c: "graph_wf pg g" "id_edges pg g = expected_edges entries edges"
    using assms by (auto simp: corpus_graph_def)
  show ?thesis unfolding succ_ix_def refs_image [OF c(1)] c(2) expected_supersedes ..
qed

lemma corpus_forest:
  assumes "corpus_graph pg entries g"
  shows "forest_graph pg g"
proof -
  have c: "petgraph_ok pg" "distinct (map eid entries)" "acyclic (supersession entries)" "graph_wf pg g"
    "graph_ids g = eid ` set entries"
    using assms by (auto simp: corpus_graph_def)
  have inj: "inj_on (nx g) (eid ` set entries)" using nx_inj [OF c(4)] by (simp add: c(5))
  have "acyclic (succ_ix pg g)"
    using acyclic_map_prod [OF inj supersession_ids] c(3) by (simp add: corpus_succ_ix [OF assms])
  moreover have "p = q" if "(p, k) \<in> succ_ix pg g" "(q, k) \<in> succ_ix pg g" for p q k
  proof -
    obtain p' k1 where *: "p = nx g p'" "k = nx g k1" "(p', k1) \<in> supersession entries"
      using \<open>(p, k) \<in> succ_ix pg g\<close> by (auto simp: corpus_succ_ix [OF assms])
    obtain q' k2 where **: "q = nx g q'" "k = nx g k2" "(q', k2) \<in> supersession entries"
      using \<open>(q, k) \<in> succ_ix pg g\<close> by (auto simp: corpus_succ_ix [OF assms])
    from * ** have "k1 = k2" using supersession_ids [of entries] inj_onD [OF inj, of k1 k2] by auto
    then show ?thesis using * ** supersession_unique [OF c(2)] by blast
  qed
  moreover have "distinct (targets (edges_of_type pg g i Supersedes Outgoing))" for i
  proof (cases "edges_of_type pg g i Supersedes Outgoing = []")
    case False
    then have "set (targets (edges_of_type pg g i Supersedes Outgoing)) \<noteq> {}" by (simp add: targets_def)
    then obtain n where "(i, n) \<in> succ_ix pg g" unfolding set_targets [OF c(1)] by blast
    then obtain e where "(i, n, e) \<in> set (pg_edge_references pg (inner g))" by (auto simp: succ_ix_def)
    then obtain u where "pg_node_weight pg (inner g) i = Some u" by (rule wf_edge [OF c(4)])
    then have u: "hm_get (node_index g) u = Some i" by (simp add: wf_index [OF c(4)])
    note corpus_out_edges [OF assms u]
    moreover have "distinct (map eid (successors entries u))"
      using c(2) by (simp add: successors_def distinct_map_filter)
    ultimately show ?thesis by (metis distinct_map mset_eq_imp_distinct_iff)
  qed simp
  ultimately show ?thesis using c by (auto simp: forest_graph_def forest_def)
qed

lemma relpow_map_prod:
  assumes "inj_on f A" and "R \<subseteq> A \<times> A" and "u \<in> A"
  shows "(f u, y) \<in> (map_prod f f ` R) ^^ k \<longleftrightarrow> (\<exists>v. y = f v \<and> (u, v) \<in> R ^^ k)"
proof (induction k arbitrary: y)
  case (Suc k)
  have A: "v \<in> A" if "(u, v) \<in> R ^^ k" for v
    using that assms(2,3) by (cases k) auto
  show ?case
  proof
    assume "(f u, y) \<in> (map_prod f f ` R) ^^ Suc k"
    then obtain z where "(f u, z) \<in> (map_prod f f ` R) ^^ k" and z: "(z, y) \<in> map_prod f f ` R" by auto
    then obtain v where v: "(u, v) \<in> R ^^ k" "z = f v" unfolding Suc by blast
    obtain v' w where w: "z = f v'" "y = f w" "(v', w) \<in> R" using z by auto
    have "v = v'" using A [OF v(1)] v(2) w(1,3) assms(1,2) by (auto dest: inj_onD)
    with v w show "\<exists>v. y = f v \<and> (u, v) \<in> R ^^ Suc k" by auto
  next
    assume "\<exists>v. y = f v \<and> (u, v) \<in> R ^^ Suc k"
    then obtain v w where "(u, v) \<in> R ^^ k" "(v, w) \<in> R" "y = f w" by auto
    then show "(f u, y) \<in> (map_prod f f ` R) ^^ Suc k" using Suc [of "f v"] by auto
  qed
qed auto

lemma relpow_ids: "u \<in> eid ` set entries \<Longrightarrow> (u, v) \<in> supersession entries ^^ h \<Longrightarrow> v \<in> eid ` set entries"
  using supersession_ids by (cases h) auto

lemma is_current_id: "is_current entries t \<Longrightarrow> t \<in> eid ` set entries"
  by (auto simp: is_current_def entry_by_id_def find_Some_iff split: option.splits)

lemma entry_by_id_unique:
  assumes "distinct (map eid entries)" and "e \<in> set entries"
  shows "entry_by_id (eid e) entries = Some e"
proof -
  obtain e' where e': "find (\<lambda>x. eid x = eid e) entries = Some e'"
    using assms(2) find_None_iff [of "\<lambda>x. eid x = eid e" entries] by fastforce
  then have "e' \<in> set entries" "eid e' = eid e" by (auto simp: find_Some_iff)
  then have "e' = e" using assms by (simp add: distinct_map inj_on_def)
  then show ?thesis using e' by (simp add: entry_by_id_def)
qed

lemma is_current_iff:
  assumes "distinct (map eid entries)"
  shows "is_current entries t \<longleftrightarrow> (\<exists>e \<in> set entries. eid e = t \<and> status e = Active \<and> superseded_by e = None)"
proof
  assume "is_current entries t"
  then show "\<exists>e \<in> set entries. eid e = t \<and> status e = Active \<and> superseded_by e = None"
    by (auto simp: is_current_def entry_by_id_def find_Some_iff split: option.splits)
next
  assume "\<exists>e \<in> set entries. eid e = t \<and> status e = Active \<and> superseded_by e = None"
  then show "is_current entries t" using entry_by_id_unique [OF assms] by (auto simp: is_current_def)
qed

lemma corpus_reach:
  assumes "corpus_graph pg entries g" and "hm_get (node_index g) u = Some i"
  shows "(\<exists>j. hops l (succ_ix pg g) m [(i, 0)] h j \<and> pg_node_weight pg (inner g) j = Some t) \<longleftrightarrow>
    l \<le> h \<and> h \<le> m \<and> (u, t) \<in> supersession entries ^^ h"
proof -
  have c: "graph_wf pg g" "graph_ids g = eid ` set entries" using assms(1) by (auto simp: corpus_graph_def)
  have inj: "inj_on (nx g) (eid ` set entries)" using nx_inj [OF c(1)] by (simp add: c(2))
  have u: "u \<in> eid ` set entries" using assms(2) corpus_index [OF assms(1)] by blast
  have "(i, j) \<in> succ_ix pg g ^^ h \<longleftrightarrow> (\<exists>v. j = nx g v \<and> (u, v) \<in> supersession entries ^^ h)" for j
    using relpow_map_prod [OF inj supersession_ids u, of j h] nx_eq [OF assms(2)]
    by (simp add: corpus_succ_ix [OF assms(1)])
  moreover have "pg_node_weight pg (inner g) (nx g v) = Some t \<longleftrightarrow> v = t" if vh: "(u, v) \<in> supersession entries ^^ h" for v
  proof -
    have "v \<in> eid ` set entries" by (rule relpow_ids [OF u vh])
    then obtain a where "hm_get (node_index g) v = Some a" using corpus_index [OF assms(1)] by blast
    then show ?thesis by (simp add: nx_eq wf_index [OF c(1)])
  qed
  moreover have "hops l (succ_ix pg g) m [(i, 0)] h j \<longleftrightarrow> l \<le> h \<and> h \<le> m \<and> (i, j) \<in> succ_ix pg g ^^ h" for j
    by (auto simp: hops_def)
  ultimately show ?thesis by metis
qed

text \<open>The start of every search satisfies the invariants of its loop.\<close>

lemma corpus_start:
  assumes "corpus_graph pg entries g" and "hm_get (node_index g) u = Some i"
  shows "forest_graph pg g" "pg_node_weight pg (inner g) i = Some u"
  using corpus_forest [OF assms(1)] assms by (auto simp: corpus_graph_def wf_index)

definition active_after :: "entry_record list \<Rightarrow> nat \<Rightarrow> nat \<Rightarrow> nat \<Rightarrow> bool" where
  "active_after entries m u h \<longleftrightarrow> 1 \<le> h \<and> h \<le> Suc m \<and>
     (\<exists>t. (u, t) \<in> supersession entries ^^ h \<and> is_current entries t)"

lemma find_terminal_active_id:
  assumes "corpus_graph pg entries g"
  shows "\<exists>r. find_terminal_active pg u g entries = Some r \<and>
    (r = None \<longrightarrow> \<not> (\<exists>h \<le> MAX_TRAVERSAL_DEPTH. \<exists>t. (u, t) \<in> supersession entries ^^ h \<and> is_current entries t)) \<and>
    (\<forall>t. r = Some t \<longrightarrow> is_current entries t \<and> (\<exists>h \<le> MAX_TRAVERSAL_DEPTH. (u, t) \<in> supersession entries ^^ h))"
proof (cases "hm_get (node_index g) u")
  case None
  then have u: "u \<notin> eid ` set entries" using corpus_index [OF assms] by simp
  have "\<not> is_current entries t" if "(u, t) \<in> supersession entries ^^ h" for h t
  proof (cases h)
    case 0
    then show ?thesis using that u is_current_id [of entries u] by auto
  next
    case (Suc k)
    then obtain v where "(u, v) \<in> supersession entries" using \<open>(u, t) \<in> _\<close> by (metis relpow_Suc_D2)
    then show ?thesis using u supersession_ids [of entries] by auto
  qed
  then show ?thesis using None by (auto simp: find_terminal_active_def)
next
  case (Some i)
  note st = corpus_start [OF assms Some]
  obtain r where r: "terminal_loop pg g entries [(i, 0)] {i} = Some r"
    "r = None \<longrightarrow> (\<forall>h j. hops 0 (succ_ix pg g) MAX_TRAVERSAL_DEPTH [(i, 0)] h j \<longrightarrow> \<not> cur_ix pg g entries j)"
    "\<forall>t. r = Some t \<longrightarrow> is_current entries t \<and>
       (\<exists>h j. hops 0 (succ_ix pg g) MAX_TRAVERSAL_DEPTH [(i, 0)] h j \<and> pg_node_weight pg (inner g) j = Some t)"
    using terminal_loop_correct [OF st(1), of i "{i}" "[(i, 0)]" entries] st(2) walk_start [of "succ_ix pg g" i] by auto
  have "(u, t) \<notin> supersession entries ^^ h" if "r = None" "h \<le> MAX_TRAVERSAL_DEPTH" "is_current entries t" for h t
    using r(2) that corpus_reach [OF assms Some, of 0 MAX_TRAVERSAL_DEPTH h t] by (auto simp: cur_ix_def)
  moreover have "is_current entries t \<and> (\<exists>h \<le> MAX_TRAVERSAL_DEPTH. (u, t) \<in> supersession entries ^^ h)"
    if "r = Some t" for t
    using r(3) that corpus_reach [OF assms Some, of 0 MAX_TRAVERSAL_DEPTH _ t] by blast
  ultimately show ?thesis using r(1) Some by (auto simp: find_terminal_active_def)
qed

lemma corpus_cur_hop:
  assumes "corpus_graph pg entries g" and "hm_get (node_index g) u = Some i"
  shows "cur_hop pg g entries m [(i, 0)] h \<longleftrightarrow> active_after entries m u h"
proof -
  have "cur_hop pg g entries m [(i, 0)] h \<longleftrightarrow>
      (\<exists>t. (\<exists>j. hops 1 (succ_ix pg g) (Suc m) [(i, 0)] h j \<and> pg_node_weight pg (inner g) j = Some t) \<and> is_current entries t)"
    by (auto simp: cur_hop_def cur_ix_def)
  then show ?thesis unfolding corpus_reach [OF assms] active_after_def by blast
qed

lemma dfs_active_reachable_id:
  assumes "corpus_graph pg entries g" and "hm_get (node_index g) u = Some i"
  shows "dfs_active_reachable i pg g entries m = Some (\<exists>h. active_after entries m u h)"
  using dfs_loop_correct [OF corpus_start(1) [OF assms], of i "{}" "[(i, 0)]" entries m] walk_start [of "succ_ix pg g" i]
  by (simp add: dfs_active_reachable_def corpus_cur_hop [OF assms, symmetric] cur_hop_def)

lemma bfs_chain_depth_id:
  assumes "corpus_graph pg entries g" and "hm_get (node_index g) u = Some i"
  obtains r where "bfs_chain_depth i pg g entries m = Some r" "least_hop (active_after entries m u) r"
proof -
  have "level_queue [(i, 0)]" by (simp add: level_queue_def)
  then obtain r where "bfs_loop pg g entries m [(i, 0)] {i} = Some r" "least_hop (cur_hop pg g entries m [(i, 0)]) r"
    using bfs_loop_correct [OF corpus_start(1) [OF assms], of i "{i}" "[(i, 0)]" entries m] walk_start [of "succ_ix pg g" i]
    by auto
  moreover have "cur_hop pg g entries m [(i, 0)] = active_after entries m u"
    by (simp add: fun_eq_iff corpus_cur_hop [OF assms])
  ultimately show thesis by (intro that [of r]) (simp_all add: bfs_chain_depth_def)
qed

end
