(* ===== verification/Graph_Search.thy ===== *)
theory Graph_Search
  imports Graph_Walk_Props
begin

text \<open>
  Use of the relation graph in search: suppression of contradicted results
  (\<open>unimatrix-engine/src/graph_suppression.rs\<close>) and expansion of the candidate pool
  (\<open>unimatrix-engine/src/graph_expand.rs\<close>). A result None is the panic of indexing a
  missing node. Hash sets are sets: they are extended, tested and counted.
\<close>

section \<open>Contradiction suppression\<close>

definition index_all :: "('g, 'ix, relation_edge) petgraph \<Rightarrow> ('g, 'ix) typed_relation_graph \<Rightarrow> 'ix list \<Rightarrow> nat list option" where
  "index_all pg g idxs = those (map (pg_node_weight pg (inner g)) idxs)"

definition contradicts_neighbors :: "('g, 'ix, relation_edge) petgraph \<Rightarrow> ('g, 'ix) typed_relation_graph \<Rightarrow> 'ix \<Rightarrow> nat set option" where
  "contradicts_neighbors pg g node_idx =
     (case index_all pg g (map (\<lambda>(_, target, _). target) (edges_of_type pg g node_idx Contradicts Outgoing)) of
        None \<Rightarrow> None
      | Some outgoing_neighbors \<Rightarrow>
          (case index_all pg g (map (\<lambda>(source, _, _). source) (edges_of_type pg g node_idx Contradicts Incoming)) of
             None \<Rightarrow> None
           | Some incoming_neighbors \<Rightarrow> Some (set outgoing_neighbors \<union> set incoming_neighbors)))"

definition suppress_at :: "nat list \<Rightarrow> nat set \<Rightarrow> nat \<Rightarrow> nat \<Rightarrow> bool list \<times> nat option list \<Rightarrow> bool list \<times> nat option list" where
  "suppress_at result_ids neighbors entry_id j st =
     (case st of (keep_mask, contradicting_ids) \<Rightarrow>
        if keep_mask ! j \<and> result_ids ! j \<in> neighbors
        then (keep_mask[j := False], contradicting_ids[j := Some entry_id]) else st)"

definition suppress_from :: "('g, 'ix, relation_edge) petgraph \<Rightarrow> ('g, 'ix) typed_relation_graph \<Rightarrow> nat list \<Rightarrow>
    bool list \<times> nat option list \<Rightarrow> nat \<Rightarrow> (bool list \<times> nat option list) option" where
  "suppress_from pg g result_ids st i =
     (let entry_id = result_ids ! i
      in case hm_get (node_index g) entry_id of
           None \<Rightarrow> Some st
         | Some node_idx \<Rightarrow>
             (case contradicts_neighbors pg g node_idx of
                None \<Rightarrow> None
              | Some neighbors \<Rightarrow>
                  if neighbors = {} then Some st
                  else Some (fold (suppress_at result_ids neighbors entry_id) [i + 1..<length result_ids] st)))"

definition suppress_contradicts :: "('g, 'ix, relation_edge) petgraph \<Rightarrow> nat list \<Rightarrow> ('g, 'ix) typed_relation_graph \<Rightarrow>
    (bool list \<times> nat option list) option" where
  "suppress_contradicts pg result_ids g =
     (let n = length result_ids
      in run_steps (suppress_from pg g result_ids) (replicate n True, replicate n None) [0..<n])"

section \<open>Expansion\<close>

definition positive_types :: "relation_type list" where
  "positive_types = [CoAccess, Supports, Informs, Prerequisite, RelatedTo]"

definition expand_candidates :: "('g, 'ix, relation_edge) petgraph \<Rightarrow> ('g, 'ix) typed_relation_graph \<Rightarrow> 'ix \<Rightarrow> nat list option" where
  "expand_candidates pg g node_idx =
     map_option (\<lambda>neighbors. remdups_adj (sort neighbors))
       (index_all pg g (concat (map (\<lambda>rt. map (\<lambda>(_, target, _). target) (edges_of_type pg g node_idx rt Outgoing))
          positive_types)))"

text \<open>The neighbour loop; the first component tells that the budget was reached.\<close>

fun expand_neighbors :: "nat \<Rightarrow> nat \<Rightarrow> nat list \<Rightarrow> (nat \<times> nat) list \<Rightarrow> nat set \<Rightarrow> nat set \<Rightarrow>
    bool \<times> (nat \<times> nat) list \<times> nat set \<times> nat set" where
  "expand_neighbors max_candidates next_depth [] queue visited result = (False, queue, visited, result)"
| "expand_neighbors max_candidates next_depth (neighbor_id # neighbors) queue visited result =
     (if card result \<ge> max_candidates then (True, queue, visited, result)
      else if neighbor_id \<in> visited then expand_neighbors max_candidates next_depth neighbors queue visited result
      else expand_neighbors max_candidates next_depth neighbors (queue @ [(neighbor_id, next_depth)])
             (insert neighbor_id visited) (insert neighbor_id result))"

lemma expand_neighbors_new:
  "expand_neighbors m d ns queue visited result = (b, queue', visited', result') \<Longrightarrow>
   \<exists>new. queue' = queue @ new \<and> snd ` set new \<subseteq> {d}"
proof (induction m d ns queue visited result rule: expand_neighbors.induct)
  case (2 m d n ns queue visited result)
  show ?case
  proof (cases "card result \<ge> m \<or> n \<in> visited")
    case True
    then show ?thesis using 2 by (auto split: if_splits)
  next
    case False
    then obtain new where "queue' = (queue @ [(n, d)]) @ new" "snd ` set new \<subseteq> {d}" using 2 by auto
    then show ?thesis by (intro exI [of _ "(n, d) # new"]) auto
  qed
qed simp

function expand_loop :: "('g, 'ix, relation_edge) petgraph \<Rightarrow> ('g, 'ix) typed_relation_graph \<Rightarrow> nat \<Rightarrow> nat \<Rightarrow>
    (nat \<times> nat) list \<Rightarrow> nat set \<Rightarrow> nat set \<Rightarrow> nat set option" where
  "expand_loop pg g depth max_candidates [] visited result = Some result"
| "expand_loop pg g depth max_candidates ((current_id, current_depth) # queue) visited result =
     (case hm_get (node_index g) current_id of
        None \<Rightarrow> expand_loop pg g depth max_candidates queue visited result
      | Some node_idx \<Rightarrow>
          (case expand_candidates pg g node_idx of
             None \<Rightarrow> None
           | Some neighbors \<Rightarrow>
               if \<not> current_depth < depth then expand_loop pg g depth max_candidates queue visited result
               else (case expand_neighbors max_candidates (current_depth + 1) neighbors queue visited result of
                       (exit, queue', visited', result') \<Rightarrow>
                         if exit then Some result'
                         else expand_loop pg g depth max_candidates queue' visited' result')))"
  by pat_completeness auto
termination
proof (relation "inv_image (mult less_than) (\<lambda>(pg, g, depth, m, queue, visited, result). hops_left depth queue)", goal_cases)
  case 1
  show ?case by (rule wf_hops)
next
  case (2 pg g depth m current_id current_depth queue visited result)
  show ?case by (simp add: hops_pop)
next
  case (3 pg g depth m current_id current_depth queue visited result node_idx neighbors)
  show ?case by (simp add: hops_pop)
next
  case (4 pg g depth m current_id current_depth queue visited result node_idx neighbors exit x queue' y visited' result')
  then obtain new where "queue' = queue @ new" "snd ` set new \<subseteq> {current_depth + 1}"
    using expand_neighbors_new by metis
  then have "mset queue' = mset queue + mset new" "snd ` set new \<subseteq> {Suc current_depth}" by simp_all
  then show ?case using 4(3) by (simp add: hops_expand)
qed

definition graph_expand :: "('g, 'ix, relation_edge) petgraph \<Rightarrow> ('g, 'ix) typed_relation_graph \<Rightarrow> nat list \<Rightarrow> nat \<Rightarrow> nat \<Rightarrow> nat set option" where
  "graph_expand pg g seed_ids depth max_candidates =
     (if seed_ids = [] then Some {}
      else if node_index g = [] then Some {}
      else if depth = 0 then Some {}
      else expand_loop pg g depth max_candidates
             (map (\<lambda>seed_id. (seed_id, 0)) (filter (\<lambda>seed_id. hm_get (node_index g) seed_id \<noteq> None) seed_ids))
             (set seed_ids) {})"

end
