(* ===== verification/Graph_Search_Props.thy ===== *)
theory Graph_Search_Props
  imports Graph_Search
begin

text \<open>
  What suppression and expansion compute, for every well-formed graph, in terms of the
  relations between ids.
\<close>

section \<open>Neighbours as ids\<close>

lemma edges_of_type_refs:
  assumes "petgraph_ok pg" and "r \<in> set (edges_of_type pg g i rt d)"
  shows "r \<in> set (pg_edge_references pg (inner g))"
proof -
  have "r \<in> set (pg_edges_directed pg (inner g) i d)" using assms(2) by (auto simp: edges_of_type_def)
  then have "r \<in># filter_mset (edge_at d i) (mset (pg_edge_references pg (inner g)))"
    unfolding pg_edges_directed_law [OF assms(1), symmetric] by simp
  then show ?thesis by simp
qed

lemma edges_weights:
  assumes "petgraph_ok pg" and "graph_wf pg g" and "(a, b, e) \<in> set (edges_of_type pg g i rt d)"
  shows "pg_node_weight pg (inner g) a \<noteq> None" "pg_node_weight pg (inner g) b \<noteq> None"
proof -
  have "(a, b, e) \<in> set (pg_edge_references pg (inner g))" by (rule edges_of_type_refs [OF assms(1,3)])
  then obtain u v where "pg_node_weight pg (inner g) a = Some u" "pg_node_weight pg (inner g) b = Some v"
    by (rule wf_edge [OF assms(2)])
  then show "pg_node_weight pg (inner g) a \<noteq> None" "pg_node_weight pg (inner g) b \<noteq> None" by simp_all
qed

lemma index_all_wf:
  "\<forall>x \<in> set xs. pg_node_weight pg (inner g) x \<noteq> None \<Longrightarrow>
   index_all pg g xs = Some (map (\<lambda>x. the (pg_node_weight pg (inner g) x)) xs)"
  unfolding index_all_def by (induction xs) auto

lemma out_ids:
  assumes "petgraph_ok pg" and "graph_wf pg g" and "hm_get (node_index g) u = Some i"
  shows "(\<lambda>(_, t, _). the (pg_node_weight pg (inner g) t)) ` set (edges_of_type pg g i rt Outgoing) = type_rel pg g rt `` {u}"
proof -
  have "(\<lambda>(a, b, e). b) ` set_mset (image_mset (\<lambda>(a, b, e). (the (pg_node_weight pg (inner g) a),
      the (pg_node_weight pg (inner g) b), e)) (mset (edges_of_type pg g i rt Outgoing))) = type_rel pg g rt `` {u}"
    unfolding edges_of_type_ids [OF assms] type_rel_def by force
  then show ?thesis by (simp add: image_image case_prod_beta)
qed

lemma in_ids:
  assumes "petgraph_ok pg" and "graph_wf pg g" and "hm_get (node_index g) u = Some i"
  shows "(\<lambda>(s, _, _). the (pg_node_weight pg (inner g) s)) ` set (edges_of_type pg g i rt Incoming) =
    (type_rel pg g rt)\<inverse> `` {u}"
proof -
  have "(\<lambda>(a, b, e). a) ` set_mset (image_mset (\<lambda>(a, b, e). (the (pg_node_weight pg (inner g) a),
      the (pg_node_weight pg (inner g) b), e)) (mset (edges_of_type pg g i rt Incoming))) = (type_rel pg g rt)\<inverse> `` {u}"
    unfolding edges_of_type_ids [OF assms] type_rel_def by force
  then show ?thesis by (simp add: image_image case_prod_beta)
qed

section \<open>Suppression\<close>

definition contradiction :: "('g, 'ix, relation_edge) petgraph \<Rightarrow> ('g, 'ix) typed_relation_graph \<Rightarrow> (nat \<times> nat) set" where
  "contradiction pg g = type_rel pg g Contradicts \<union> (type_rel pg g Contradicts)\<inverse>"

lemma contradicts_neighbors_ids:
  assumes "petgraph_ok pg" and "graph_wf pg g" and "hm_get (node_index g) u = Some i"
  shows "contradicts_neighbors pg g i = Some (contradiction pg g `` {u})"
proof -
  have "index_all pg g (map (\<lambda>(_, target, _). target) (edges_of_type pg g i Contradicts Outgoing)) =
      Some (map (\<lambda>(_, t, _). the (pg_node_weight pg (inner g) t)) (edges_of_type pg g i Contradicts Outgoing))"
    using edges_weights [OF assms(1,2)] by (subst index_all_wf) auto
  moreover have "index_all pg g (map (\<lambda>(source, _, _). source) (edges_of_type pg g i Contradicts Incoming)) =
      Some (map (\<lambda>(s, _, _). the (pg_node_weight pg (inner g) s)) (edges_of_type pg g i Contradicts Incoming))"
    using edges_weights [OF assms(1,2)] by (subst index_all_wf) auto
  ultimately show ?thesis using out_ids [OF assms, of Contradicts] in_ids [OF assms, of Contradicts]
    by (simp add: contradicts_neighbors_def contradiction_def Un_Image)
qed

lemma find_snoc: "find P (xs @ [x]) = (case find P xs of Some y \<Rightarrow> Some y | None \<Rightarrow> if P x then Some x else None)"
  by (induction xs) auto

text \<open>The first of the \<open>k\<close> highest-ranked results that contradicts the result at rank \<open>j\<close>.\<close>

definition first_contradiction :: "(nat \<times> nat) set \<Rightarrow> nat list \<Rightarrow> nat \<Rightarrow> nat \<Rightarrow> nat option" where
  "first_contradiction C r k j = map_option ((!) r) (find (\<lambda>i. (r ! i, r ! j) \<in> C) [0..<k])"

lemma first_contradiction_Suc:
  "first_contradiction C r (Suc k) j =
   (case first_contradiction C r k j of Some y \<Rightarrow> Some y | None \<Rightarrow> if (r ! k, r ! j) \<in> C then Some (r ! k) else None)"
  by (simp add: first_contradiction_def find_snoc split: option.splits)

definition mask_state :: "(nat \<times> nat) set \<Rightarrow> nat list \<Rightarrow> nat \<Rightarrow> bool list \<times> nat option list \<Rightarrow> bool" where
  "mask_state C r k st \<longleftrightarrow> (case st of (km, ids) \<Rightarrow> length km = length r \<and> length ids = length r \<and>
     (\<forall>j < length r. ids ! j = first_contradiction C r (min k j) j \<and> (km ! j \<longleftrightarrow> ids ! j = None)))"

lemma fold_suppress_at:
  assumes "\<forall>j \<in> set js. j < length km" and "length ids = length km" and "distinct js"
    and "fold (suppress_at r N x) js (km, ids) = (km', ids')"
  shows "length km' = length km \<and> length ids' = length km \<and>
    (\<forall>j < length km. (km' ! j, ids' ! j) =
       (if j \<in> set js \<and> km ! j \<and> r ! j \<in> N then (False, Some x) else (km ! j, ids ! j)))"
  using assms
proof (induction js arbitrary: km ids)
  case (Cons j js)
  obtain km1 ids1 where s: "suppress_at r N x j (km, ids) = (km1, ids1)" by fastforce
  have l: "length km1 = length km" "length ids1 = length km"
    using s Cons.prems(2) by (auto simp: suppress_at_def split: if_splits)
  have v: "(km1 ! i, ids1 ! i) = (if i = j \<and> km ! j \<and> r ! j \<in> N then (False, Some x) else (km ! i, ids ! i))" for i
    using s Cons.prems(1,2) by (auto simp: suppress_at_def nth_list_update split: if_splits)
  have IH: "length km' = length km1 \<and> length ids' = length km1 \<and> (\<forall>i < length km1. (km' ! i, ids' ! i) =
      (if i \<in> set js \<and> km1 ! i \<and> r ! i \<in> N then (False, Some x) else (km1 ! i, ids1 ! i)))"
    by (rule Cons.IH) (use Cons.prems l s in simp_all)
  have "(km' ! i, ids' ! i) = (if i \<in> set (j # js) \<and> km ! i \<and> r ! i \<in> N then (False, Some x) else (km ! i, ids ! i))"
    if "i < length km" for i
    using IH v [of i] that Cons.prems(3) l(1) by (auto split: if_splits)
  then show ?case using IH l by auto
qed simp

lemma fold_suppress_empty: "fold (suppress_at r {} x) js st = st"
  by (induction js) (simp_all add: suppress_at_def split: prod.split)

lemma suppress_from_step:
  assumes "petgraph_ok pg" and "graph_wf pg g" and "k < length r" and "mask_state (contradiction pg g) r k st"
  shows "\<exists>st'. suppress_from pg g r st k = Some st' \<and> mask_state (contradiction pg g) r (Suc k) st'"
proof -
  let ?C = "contradiction pg g"
  obtain km ids where st: "st = (km, ids)" by fastforce
  have len: "length km = length r" "length ids = length r"
    and v: "j < length r \<Longrightarrow> ids ! j = first_contradiction ?C r (min k j) j \<and> (km ! j \<longleftrightarrow> ids ! j = None)" for j
    using assms(4) by (auto simp: mask_state_def st)
  have C_ids: "u \<in> graph_ids g" if "(u, w) \<in> ?C" for u w
    using that id_edges_ids [OF assms(2)] by (auto simp: contradiction_def type_rel_def)
  have other: "first_contradiction ?C r (min (Suc k) j) j =
      (if k < j \<and> first_contradiction ?C r (min k j) j = None \<and> (r ! k, r ! j) \<in> ?C then Some (r ! k)
       else first_contradiction ?C r (min k j) j)" for j
    by (cases "k < j") (auto simp: min_def first_contradiction_Suc split: option.splits)
  show ?thesis
  proof (cases "hm_get (node_index g) (r ! k)")
    case None
    then have "(r ! k, w) \<notin> ?C" for w using C_ids by (auto simp: graph_ids_def)
    then have "mask_state ?C r (Suc k) st" using v len by (simp add: mask_state_def st other)
    then show ?thesis using None by (simp add: suppress_from_def)
  next
    case (Some i)
    let ?N = "?C `` {r ! k}"
    note n = contradicts_neighbors_ids [OF assms(1,2) Some]
    obtain km' ids' where f: "fold (suppress_at r ?N (r ! k)) [Suc k..<length r] (km, ids) = (km', ids')" by fastforce
    have "length km' = length r \<and> length ids' = length r \<and> (\<forall>j < length r. (km' ! j, ids' ! j) =
        (if k < j \<and> km ! j \<and> (r ! k, r ! j) \<in> ?C then (False, Some (r ! k)) else (km ! j, ids ! j)))"
      using fold_suppress_at [OF _ _ _ f] len by (auto simp: Suc_le_eq)
    then have "mask_state ?C r (Suc k) (km', ids')" using v by (auto simp: mask_state_def other split: if_splits)
    moreover have "suppress_from pg g r st k = Some (km', ids')"
      using Some n f fold_suppress_empty [of r "r ! k" "[Suc k..<length r]" "(km, ids)"]
      by (auto simp: suppress_from_def st Let_def)
    ultimately show ?thesis by blast
  qed
qed

text \<open>
  Suppression of contradicted results, on every well-formed graph: it never panics,
  both answers have one element per result, a result is dropped if and only if some
  higher-ranked result (dropped or not) contradicts it in either direction, and the
  reported contradicting id is the one of the highest rank.
\<close>

theorem suppress_contradicts_exact:
  assumes "petgraph_ok pg" and "graph_wf pg g"
  shows "\<exists>km ids. suppress_contradicts pg r g = Some (km, ids) \<and> length km = length r \<and> length ids = length r \<and>
    (\<forall>j < length r.
       ids ! j = map_option ((!) r) (find (\<lambda>i. (r ! i, r ! j) \<in> contradiction pg g) [0..<j]) \<and>
       (km ! j \<longleftrightarrow> (\<forall>i < j. (r ! i, r ! j) \<notin> contradiction pg g)))"
proof -
  let ?C = "contradiction pg g" and ?n = "length r"
  have start: "mask_state ?C r 0 (replicate ?n True, replicate ?n None)"
    by (simp add: mask_state_def first_contradiction_def)
  have "k \<le> ?n \<Longrightarrow> \<exists>st. run_steps (suppress_from pg g r) (replicate ?n True, replicate ?n None) [0..<k] = Some st \<and>
      mask_state ?C r k st" for k
  proof (induction k)
    case (Suc k)
    then obtain st where "run_steps (suppress_from pg g r) (replicate ?n True, replicate ?n None) [0..<k] = Some st"
      "mask_state ?C r k st" by auto
    moreover from this obtain st' where "suppress_from pg g r st k = Some st'" "mask_state ?C r (Suc k) st'"
      using suppress_from_step [OF assms, of k r st] Suc.prems by auto
    ultimately show ?case by (simp add: run_steps_append)
  qed (use start in simp)
  from this [of ?n] obtain km ids where st: "suppress_contradicts pg r g = Some (km, ids)" "mask_state ?C r ?n (km, ids)"
    by (auto simp: suppress_contradicts_def Let_def)
  have "length km = ?n" "length ids = ?n" using st(2) by (simp_all add: mask_state_def)
  moreover have "ids ! j = map_option ((!) r) (find (\<lambda>i. (r ! i, r ! j) \<in> ?C) [0..<j]) \<and>
      (km ! j \<longleftrightarrow> (\<forall>i < j. (r ! i, r ! j) \<notin> ?C))" if "j < ?n" for j
    using st(2) that by (auto simp: mask_state_def first_contradiction_def min_def find_None_iff)
  ultimately show ?thesis using st(1) by blast
qed

text \<open>Two entries, the first of which contradicts the second.\<close>

definition contradiction_sample :: "(relation_edge list_graph, nat) typed_relation_graph" where
  "contradiction_sample = \<lparr>inner = ([1, 2], [(0, 1, supersedes_edge\<lparr>edge_type := ''Contradicts''\<rparr>)]),
     node_index = [(1, 0), (2, 1)]\<rparr>"

lemma contradiction_sample_wf: "graph_wf list_petgraph contradiction_sample"
  by (auto simp: graph_wf_def contradiction_sample_def list_petgraph_def hm_ok_def less_Suc_eq nth_Cons' split: if_splits)

theorem suppress_contradicts_exact_witness:
  "\<exists>km ids. suppress_contradicts list_petgraph [2, 1] contradiction_sample = Some (km, ids) \<and> ids ! 1 = Some 2"
proof -
  have "(2, 1) \<in> contradiction list_petgraph contradiction_sample"
    by (simp add: contradiction_def type_rel_def id_edges_def contradiction_sample_def list_petgraph_def)
  then show ?thesis
    using suppress_contradicts_exact [OF list_petgraph_ok contradiction_sample_wf, of "[2, 1]"] by fastforce
qed

section \<open>Expansion\<close>

definition positive_rel :: "('g, 'ix, relation_edge) petgraph \<Rightarrow> ('g, 'ix) typed_relation_graph \<Rightarrow> (nat \<times> nat) set" where
  "positive_rel pg g = (\<Union>rt \<in> {CoAccess, Supports, Informs, Prerequisite, RelatedTo}. type_rel pg g rt)"

text \<open>What is within \<open>k\<close> steps of a set.\<close>

definition near :: "('a \<times> 'a) set \<Rightarrow> 'a set \<Rightarrow> nat \<Rightarrow> 'a set" where
  "near P X k = {v. \<exists>s \<in> X. \<exists>h \<le> k. (s, v) \<in> P ^^ h}"

lemma near_0 [simp]: "near P X 0 = X"
  by (auto simp: near_def)

lemma near_mono: "k \<le> l \<Longrightarrow> near P X k \<subseteq> near P X l"
  unfolding near_def by (blast intro: le_trans)

lemma near_Suc: "near P X (Suc k) = near P X k \<union> P `` near P X k"
proof (rule set_eqI)
  fix v
  have "(\<exists>h \<le> Suc k. (s, v) \<in> P ^^ h) \<longleftrightarrow> (\<exists>h \<le> k. (s, v) \<in> P ^^ h) \<or> (\<exists>w. (\<exists>h \<le> k. (s, w) \<in> P ^^ h) \<and> (w, v) \<in> P)" for s
  proof
    assume "\<exists>h \<le> Suc k. (s, v) \<in> P ^^ h"
    then obtain h where h: "h \<le> Suc k" "(s, v) \<in> P ^^ h" by blast
    show "(\<exists>h \<le> k. (s, v) \<in> P ^^ h) \<or> (\<exists>w. (\<exists>h \<le> k. (s, w) \<in> P ^^ h) \<and> (w, v) \<in> P)"
    proof (cases h)
      case (Suc n)
      then show ?thesis using h by (meson Suc_le_mono relpow_Suc_E)
    qed (use h in auto)
  next
    assume "(\<exists>h \<le> k. (s, v) \<in> P ^^ h) \<or> (\<exists>w. (\<exists>h \<le> k. (s, w) \<in> P ^^ h) \<and> (w, v) \<in> P)"
    then show "\<exists>h \<le> Suc k. (s, v) \<in> P ^^ h" by (meson Suc_le_mono le_SucI relpow_Suc_I)
  qed
  then have "v \<in> near P X (Suc k) \<longleftrightarrow>
      (\<exists>s \<in> X. (\<exists>h \<le> k. (s, v) \<in> P ^^ h) \<or> (\<exists>w. (\<exists>h \<le> k. (s, w) \<in> P ^^ h) \<and> (w, v) \<in> P))"
    unfolding near_def by simp
  then show "v \<in> near P X (Suc k) \<longleftrightarrow> v \<in> near P X k \<union> P `` near P X k" unfolding near_def by blast
qed

lemma near_closed: "P `` near P X k \<subseteq> near P X k \<Longrightarrow> near P X (k + n) = near P X k"
  by (induction n) (auto simp: near_Suc)

lemma expand_candidates_ids:
  assumes "petgraph_ok pg" and "graph_wf pg g" and "hm_get (node_index g) u = Some i"
  shows "\<exists>ns. expand_candidates pg g i = Some ns \<and> set ns = positive_rel pg g `` {u}"
proof -
  let ?E = "\<lambda>rt. edges_of_type pg g i rt Outgoing"
  let ?xs = "concat (map (\<lambda>rt. map (\<lambda>(_, target, _). target) (?E rt)) positive_types)"
  have "\<forall>x \<in> set ?xs. pg_node_weight pg (inner g) x \<noteq> None" using edges_weights [OF assms(1,2)] by auto
  then have "index_all pg g ?xs = Some (map (\<lambda>x. the (pg_node_weight pg (inner g) x)) ?xs)" by (rule index_all_wf)
  moreover have "set (map (\<lambda>x. the (pg_node_weight pg (inner g) x)) ?xs) =
      (\<Union>rt \<in> set positive_types. (\<lambda>(_, t, _). the (pg_node_weight pg (inner g) t)) ` set (?E rt))"
    by (auto simp: image_image case_prod_beta)
  moreover have "\<dots> = positive_rel pg g `` {u}"
    unfolding out_ids [OF assms] by (auto simp: positive_rel_def positive_types_def)
  ultimately show ?thesis by (auto simp: expand_candidates_def)
qed

lemma expand_neighbors_spec:
  "expand_neighbors m d ns Q V R = (b, Q', V', R') \<Longrightarrow> R \<subseteq> V \<Longrightarrow> finite R \<Longrightarrow> card R \<le> m \<Longrightarrow>
   \<exists>new. Q' = Q @ map (\<lambda>n. (n, d)) new \<and> set new \<subseteq> set ns - V \<and> V' = V \<union> set new \<and> R' = R \<union> set new \<and>
     card R' \<le> m \<and> (if b then card R' = m else set new = set ns - V)"
proof (induction m d ns Q V R rule: expand_neighbors.induct)
  case (2 m d n ns Q V R)
  consider "m \<le> card R" | "\<not> m \<le> card R" "n \<in> V" | "\<not> m \<le> card R" "n \<notin> V" by blast
  then show ?case
  proof cases
    case 1
    then show ?thesis using "2.prems" by (intro exI [of _ "[]"]) auto
  next
    case 2
    then obtain new where "Q' = Q @ map (\<lambda>n. (n, d)) new" "set new \<subseteq> set ns - V" "V' = V \<union> set new" "R' = R \<union> set new"
      "card R' \<le> m" "if b then card R' = m else set new = set ns - V"
      using "2.IH"(1) "2.prems" by auto
    then show ?thesis using 2 by (intro exI [of _ new]) (auto split: if_splits)
  next
    case 3
    have "expand_neighbors m d ns (Q @ [(n, d)]) (insert n V) (insert n R) = (b, Q', V', R')" using "2.prems"(1) 3 by simp
    moreover have "insert n R \<subseteq> insert n V" "finite (insert n R)" "card (insert n R) \<le> m"
      using "2.prems"(2-4) 3 by (auto simp: card_insert_if)
    ultimately obtain new where new: "Q' = (Q @ [(n, d)]) @ map (\<lambda>n. (n, d)) new" "set new \<subseteq> set ns - insert n V"
      "V' = insert n V \<union> set new" "R' = insert n R \<union> set new" "card R' \<le> m"
      "if b then card R' = m else set new = set ns - insert n V"
      using "2.IH"(2) [OF 3] by blast
    then show ?thesis using 3 by (intro exI [of _ "n # new"]) (auto split: if_splits)
  qed
qed auto

text \<open>
  The queue holds the entries \<open>A\<close> of depth \<open>D\<close> still to expand, then entries \<open>B\<close> of depth
  \<open>D + 1\<close>: everything within \<open>D\<close> steps has been seen, and whatever of it is no longer in
  \<open>A\<close> has all its neighbours seen.
\<close>

definition level_inv :: "(nat \<times> nat) set \<Rightarrow> nat set \<Rightarrow> nat set \<Rightarrow> nat \<Rightarrow> nat \<Rightarrow>
    (nat \<times> nat) list \<Rightarrow> (nat \<times> nat) list \<Rightarrow> nat set \<Rightarrow> bool" where
  "level_inv P X Sd m D A B R \<longleftrightarrow>
     snd ` set A \<subseteq> {D} \<and> snd ` set B \<subseteq> {Suc D} \<and> fst ` set A \<subseteq> near P X D \<and> fst ` set B \<subseteq> near P X (Suc D) \<and>
     near P X D \<subseteq> Sd \<union> R \<and> P `` (near P X D - fst ` set A) \<subseteq> Sd \<union> R \<and> R \<subseteq> near P X D \<union> fst ` set B \<and>
     Sd \<inter> R = {} \<and> finite R \<and> card R \<le> m"

definition expanded :: "(nat \<times> nat) set \<Rightarrow> nat set \<Rightarrow> nat set \<Rightarrow> nat \<Rightarrow> nat \<Rightarrow> nat set \<Rightarrow> bool" where
  "expanded P X Sd depth m res \<longleftrightarrow> res \<subseteq> near P X depth - Sd \<and> card res \<le> m \<and>
     (res = near P X depth - Sd \<or> card res = m) \<and>
     (\<exists>D \<le> depth. near P X D - Sd \<subseteq> res \<and> res \<subseteq> near P X (Suc D))"

lemma level_next:
  assumes "level_inv P X Sd m D [] B R" and "\<forall>k. Sd \<inter> near P X k \<subseteq> X"
  shows "level_inv P X Sd m (Suc D) B [] R"
proof -
  have i: "snd ` set B \<subseteq> {Suc D}" "fst ` set B \<subseteq> near P X (Suc D)" "near P X D \<subseteq> Sd \<union> R" "P `` near P X D \<subseteq> Sd \<union> R"
    "R \<subseteq> near P X D \<union> fst ` set B" "Sd \<inter> R = {}" "finite R" "card R \<le> m"
    using assms(1) by (simp_all add: level_inv_def)
  have sub: "near P X (Suc D) \<subseteq> Sd \<union> R" using i(3,4) by (simp add: near_Suc)
  have X: "X \<subseteq> near P X D" using near_mono [of 0 D P X] by simp
  have "near P X (Suc D) - fst ` set B \<subseteq> near P X D" using sub i(5) X assms(2) by blast
  then have "P `` (near P X (Suc D) - fst ` set B) \<subseteq> Sd \<union> R" using i(4) by blast
  moreover have "R \<subseteq> near P X (Suc D)" using i(5) i(2) near_mono [of D "Suc D" P X] by auto
  ultimately show ?thesis using i sub by (simp add: level_inv_def)
qed

lemma level_done:
  assumes "level_inv P X Sd m D [] [] R" and "\<forall>k. Sd \<inter> near P X k \<subseteq> X" and "D \<le> depth"
  shows "expanded P X Sd depth m R"
proof -
  have i: "near P X D \<subseteq> Sd \<union> R" "P `` near P X D \<subseteq> Sd \<union> R" "R \<subseteq> near P X D" "Sd \<inter> R = {}" "card R \<le> m"
    using assms(1) by (simp_all add: level_inv_def)
  have X: "X \<subseteq> near P X D" using near_mono [of 0 D P X] by simp
  have "P `` near P X D \<subseteq> near P X (Suc D)" by (simp add: near_Suc)
  moreover have "Sd \<inter> near P X (Suc D) \<subseteq> X" using assms(2) by blast
  ultimately have "P `` near P X D \<subseteq> near P X D" using i(2,3) X by blast
  then have "near P X depth = near P X D" using near_closed [of P X D "depth - D"] assms(3) by simp
  moreover have "R = near P X D - Sd" using i(1,3,4) by blast
  ultimately show ?thesis using assms(3) near_mono [of D "Suc D" P X] i(5) by (auto simp: expanded_def)
qed

lemma level_full:
  assumes "level_inv P X Sd m depth A [] R"
  shows "expanded P X Sd depth m R"
proof -
  have "near P X depth \<subseteq> Sd \<union> R" "R \<subseteq> near P X depth" "Sd \<inter> R = {}" "card R \<le> m"
    using assms by (simp_all add: level_inv_def)
  moreover from this have "R = near P X depth - Sd" by blast
  ultimately show ?thesis using near_mono [of depth "Suc depth" P X] by (auto simp: expanded_def)
qed

lemma level_pop:
  assumes "level_inv P X Sd m D ((u, D) # A) B R"
    and "set new \<subseteq> P `` {u} - (Sd \<union> R)" and "card (R \<union> set new) \<le> m"
  shows "set new = P `` {u} - (Sd \<union> R) \<Longrightarrow>
      level_inv P X Sd m D A (B @ map (\<lambda>n. (n, Suc D)) new) (R \<union> set new)"
    and "D < depth \<Longrightarrow> card (R \<union> set new) = m \<Longrightarrow> expanded P X Sd depth m (R \<union> set new)"
proof -
  have i: "u \<in> near P X D" "snd ` set A \<subseteq> {D}" "snd ` set B \<subseteq> {Suc D}" "fst ` set A \<subseteq> near P X D"
    "fst ` set B \<subseteq> near P X (Suc D)" "near P X D \<subseteq> Sd \<union> R" "P `` (near P X D - insert u (fst ` set A)) \<subseteq> Sd \<union> R"
    "R \<subseteq> near P X D \<union> fst ` set B" "Sd \<inter> R = {}" "finite R"
    using assms(1) by (simp_all add: level_inv_def)
  have new: "set new \<subseteq> near P X (Suc D)" using assms(2) i(1) by (auto simp: near_Suc)
  show "level_inv P X Sd m D A (B @ map (\<lambda>n. (n, Suc D)) new) (R \<union> set new)" if eq: "set new = P `` {u} - (Sd \<union> R)"
  proof -
    let ?B = "B @ map (\<lambda>n. (n, Suc D)) new"
    have fB: "fst ` set ?B = fst ` set B \<union> set new" by (simp add: image_Un image_image)
    have "snd ` set ?B \<subseteq> {Suc D}" using i(3) by auto
    moreover have "fst ` set ?B \<subseteq> near P X (Suc D)" using i(5) new fB by simp
    moreover have "near P X D \<subseteq> Sd \<union> (R \<union> set new)" using i(6) by blast
    moreover have "P `` (near P X D - fst ` set A) \<subseteq> Sd \<union> (R \<union> set new)" using i(7) eq by blast
    moreover have "R \<union> set new \<subseteq> near P X D \<union> fst ` set ?B" using i(8) fB by blast
    moreover have "Sd \<inter> (R \<union> set new) = {}" using i(9) assms(2) by blast
    ultimately show ?thesis using i(2,4,10) assms(3) unfolding level_inv_def by simp
  qed
  assume D: "D < depth" and c: "card (R \<union> set new) = m"
  have "near P X D \<subseteq> near P X (Suc D)" by (simp add: near_Suc)
  then have sub: "R \<union> set new \<subseteq> near P X (Suc D)" using i(5,8) new by blast
  moreover have "near P X (Suc D) \<subseteq> near P X depth" using D by (intro near_mono) simp
  moreover have "Sd \<inter> (R \<union> set new) = {}" using i(9) assms(2) by blast
  moreover have "near P X D - Sd \<subseteq> R \<union> set new" using i(6) by blast
  ultimately have r: "R \<union> set new \<subseteq> near P X depth - Sd" "near P X D - Sd \<subseteq> R \<union> set new" by blast+
  have "\<exists>D \<le> depth. near P X D - Sd \<subseteq> R \<union> set new \<and> R \<union> set new \<subseteq> near P X (Suc D)"
    by (rule exI [of _ D]) (simp only: r(2) sub less_imp_le [OF D] simp_thms)
  then show "expanded P X Sd depth m (R \<union> set new)"
    unfolding expanded_def by (simp only: r(1) c order_refl simp_thms)
qed

lemma expand_loop_tail:
  "petgraph_ok pg \<Longrightarrow> graph_wf pg g \<Longrightarrow> \<forall>d \<in> snd ` set Q. depth \<le> d \<Longrightarrow> expand_loop pg g depth m Q V R = Some R"
proof (induction pg g depth m Q V R rule: expand_loop.induct)
  case (2 pg g depth m u d Q V R)
  have d: "\<not> d < depth" "\<forall>e \<in> snd ` set Q. depth \<le> e" using "2.prems"(3) by auto
  show ?case
  proof (cases "hm_get (node_index g) u")
    case None
    show ?thesis using "2.IH"(1) [OF None "2.prems"(1,2) d(2)] None by simp
  next
    case (Some i)
    obtain ns where ns: "expand_candidates pg g i = Some ns" using expand_candidates_ids [OF "2.prems"(1,2) Some] by blast
    show ?thesis using "2.IH"(2) [OF Some ns d(1) "2.prems"(1,2) d(2)] Some ns d(1) by simp
  qed
qed simp

lemma positive_rel_ids: "graph_wf pg g \<Longrightarrow> positive_rel pg g \<subseteq> graph_ids g \<times> graph_ids g"
  using id_edges_ids by (fastforce simp: positive_rel_def type_rel_def)

lemma near_within: "P \<subseteq> I \<times> I \<Longrightarrow> X \<subseteq> I \<Longrightarrow> near P X k \<subseteq> I"
  by (induction k) (auto simp: near_Suc)

lemma expand_loop_correct:
  "petgraph_ok pg \<Longrightarrow> graph_wf pg g \<Longrightarrow> X = Sd \<inter> graph_ids g \<Longrightarrow>
   level_inv (positive_rel pg g) X Sd m D A B R \<Longrightarrow> Q = A @ B \<Longrightarrow> V = Sd \<union> R \<Longrightarrow> D < depth \<or> D = depth \<and> B = [] \<Longrightarrow>
   \<exists>res. expand_loop pg g depth m Q V R = Some res \<and> expanded (positive_rel pg g) X Sd depth m res"
proof (induction pg g depth m Q V R arbitrary: D A B rule: expand_loop.induct)
  case (1 pg g depth m V R)
  have "near (positive_rel pg g) X k \<subseteq> graph_ids g" for k
    using near_within [OF positive_rel_ids [OF "1.prems"(2)]] "1.prems"(3) by simp
  then have "\<forall>k. Sd \<inter> near (positive_rel pg g) X k \<subseteq> X" using "1.prems"(3) by blast
  then show ?case using level_done [of "positive_rel pg g" X Sd m D R depth] "1.prems" by auto
next
  case (2 pg g depth m u d Q V R)
  let ?P = "positive_rel pg g"
  have ids: "near ?P X k \<subseteq> graph_ids g" for k
    using near_within [OF positive_rel_ids [OF "2.prems"(2)]] "2.prems"(3) by simp
  then have seeds: "\<forall>k. Sd \<inter> near ?P X k \<subseteq> X" using "2.prems"(3) by blast
  obtain A' B' where inv: "level_inv ?P X Sd m d ((u, d) # A') B' R" and Q: "Q = A' @ B'"
    and d: "d < depth \<or> d = depth \<and> B' = []"
  proof (cases A)
    case Nil
    then have B: "B = (u, d) # Q" using "2.prems"(5) by simp
    have "level_inv ?P X Sd m (Suc D) B [] R" using "2.prems"(4) level_next [OF _ seeds] unfolding Nil by blast
    moreover from this have "d = Suc D" by (simp add: B level_inv_def)
    moreover have "Suc D < depth \<or> Suc D = depth" using "2.prems"(7) B by auto
    ultimately show thesis using that [of Q "[]"] B by simp
  next
    case (Cons x A')
    then have "x = (u, d)" "Q = A' @ B" "d = D" using "2.prems"(4,5) by (auto simp: level_inv_def)
    then show thesis using that [of A' B] "2.prems"(4,7) Cons by auto
  qed
  show ?case
  proof (cases "d < depth")
    case False
    then have "d = depth" "B' = []" using d by auto
    then have "\<forall>e \<in> snd ` set ((u, d) # Q). depth \<le> e" using inv Q by (auto simp: level_inv_def)
    then have "expand_loop pg g depth m ((u, d) # Q) V R = Some R" by (rule expand_loop_tail [OF "2.prems"(1,2)])
    moreover have "expanded ?P X Sd depth m R" using level_full inv \<open>d = depth\<close> \<open>B' = []\<close> by blast
    ultimately show ?thesis by blast
  next
    case True
    have "u \<in> graph_ids g" using inv ids [of d] by (auto simp: level_inv_def)
    then obtain i where i: "hm_get (node_index g) u = Some i" by (auto simp: graph_ids_def)
    obtain ns where ns: "expand_candidates pg g i = Some ns" "set ns = ?P `` {u}"
      using expand_candidates_ids [OF "2.prems"(1,2) i] by blast
    obtain b Q' V' R' where e: "expand_neighbors m (d + 1) ns Q V R = (b, Q', V', R')" by (metis prod_cases4)
    obtain new where new: "Q' = Q @ map (\<lambda>n. (n, Suc d)) new" "set new \<subseteq> ?P `` {u} - (Sd \<union> R)" "V' = V \<union> set new"
      "R' = R \<union> set new" "card R' \<le> m" "if b then card R' = m else set new = ?P `` {u} - (Sd \<union> R)"
      using expand_neighbors_spec [OF e] inv "2.prems"(6) by (auto simp: level_inv_def ns(2))
    note pop = level_pop [OF inv new(2)]
    show ?thesis
    proof (cases b)
      case True
      then have "expanded ?P X Sd depth m R'" using pop(2) \<open>d < depth\<close> new(4,5,6) by simp
      then show ?thesis using \<open>d < depth\<close> True i ns(1) e by simp
    next
      case False
      have "level_inv ?P X Sd m d A' (B' @ map (\<lambda>n. (n, Suc d)) new) R'" using pop(1) False new(4,5,6) by simp
      then have "\<exists>res. expand_loop pg g depth m Q' V' R' = Some res \<and> expanded ?P X Sd depth m res"
        using "2.IH"(3) [OF i ns(1) _ e [symmetric] refl refl False "2.prems"(1-3)] \<open>d < depth\<close> new Q "2.prems"(6)
        by (simp add: Un_assoc)
      then show ?thesis using \<open>d < depth\<close> False i ns(1) e by simp
    qed
  qed
qed

text \<open>
  Expansion of the seeds, on every well-formed graph: it never panics; every id it
  returns is within \<open>depth\<close> steps of a seed along positive edges and is no seed; at most
  \<open>max_candidates\<close> ids are returned, and either all such ids are, or exactly
  \<open>max_candidates\<close>; and nearer ids come first: for some distance \<open>D\<close> everything within \<open>D\<close>
  steps is returned and nothing farther than \<open>D + 1\<close>.
\<close>

theorem graph_expand_exact:
  fixes seed_ids :: "nat list"
  assumes "petgraph_ok pg" and "graph_wf pg g"
  defines "reach \<equiv> near (positive_rel pg g) (set seed_ids \<inter> graph_ids g)"
  shows "\<exists>res. graph_expand pg g seed_ids depth max_candidates = Some res \<and>
    res \<subseteq> reach depth - set seed_ids \<and> card res \<le> max_candidates \<and>
    (res = reach depth - set seed_ids \<or> card res = max_candidates) \<and>
    (\<exists>D \<le> depth. reach D - set seed_ids \<subseteq> res \<and> res \<subseteq> reach (Suc D))"
proof -
  let ?P = "positive_rel pg g" and ?X = "set seed_ids \<inter> graph_ids g" and ?Sd = "set seed_ids"
  let ?A = "map (\<lambda>seed_id. (seed_id, 0)) (filter (\<lambda>seed_id. hm_get (node_index g) seed_id \<noteq> None) seed_ids)"
  have start: "level_inv ?P ?X ?Sd max_candidates 0 ?A [] {}"
    by (auto simp: level_inv_def graph_ids_def image_image)
  have "\<exists>res. graph_expand pg g seed_ids depth max_candidates = Some res \<and> expanded ?P ?X ?Sd depth max_candidates res"
  proof (cases "seed_ids = [] \<or> node_index g = [] \<or> depth = 0")
    case True
    have none: "expanded ?P ?X ?Sd depth max_candidates {}"
    proof (cases "?X = {}")
      case True
      then have "near ?P ?X k = {}" for k by (simp add: near_def)
      then show ?thesis by (auto simp: expanded_def)
    next
      case False
      then have "depth = 0" using True by (auto simp: graph_ids_def)
      then show ?thesis by (auto simp: expanded_def)
    qed
    have "graph_expand pg g seed_ids depth max_candidates = Some {}" using True by (auto simp: graph_expand_def)
    with none show ?thesis by blast
  next
    case False
    then show ?thesis using expand_loop_correct [OF assms(1,2) refl start, of "?A @ []" ?Sd depth]
      by (simp add: graph_expand_def)
  qed
  then show ?thesis unfolding expanded_def reach_def .
qed

text \<open>Three entries in a row along CoAccess edges, expanded by one step from the first.\<close>

definition path_sample :: "(relation_edge list_graph, nat) typed_relation_graph" where
  "path_sample = \<lparr>inner = ([1, 2, 3], [(0, 1, supersedes_edge\<lparr>edge_type := ''CoAccess''\<rparr>),
     (1, 2, supersedes_edge\<lparr>edge_type := ''CoAccess''\<rparr>)]), node_index = [(1, 0), (2, 1), (3, 2)]\<rparr>"

lemma path_sample_wf: "graph_wf list_petgraph path_sample"
  by (auto simp: graph_wf_def path_sample_def list_petgraph_def hm_ok_def less_Suc_eq nth_Cons' split: if_splits)

theorem graph_expand_exact_witness:
  "graph_expand list_petgraph path_sample [1] 1 5 = Some {2}"
proof -
  let ?P = "positive_rel list_petgraph path_sample"
  have P: "?P = {(1, 2), (2, 3)}"
  proof -
    have E: "id_edges list_petgraph path_sample = {#(1, 2, supersedes_edge\<lparr>edge_type := ''CoAccess''\<rparr>),
        (2, 3, supersedes_edge\<lparr>edge_type := ''CoAccess''\<rparr>)#}"
      by (simp add: id_edges_def path_sample_def list_petgraph_def)
    have "type_rel list_petgraph path_sample rt = (if as_str rt = ''CoAccess'' then {(1, 2), (2, 3)} else {})" for rt
      by (auto simp: type_rel_def E)
    then show ?thesis by (simp add: positive_rel_def)
  qed
  have X: "set [1] \<inter> graph_ids path_sample = {1}" by (auto simp: graph_ids_def path_sample_def)
  have reach: "near ?P {1} 1 = {1, 2}" unfolding P by (auto simp: near_Suc [of _ _ 0, simplified])
  obtain res where res: "graph_expand list_petgraph path_sample [1] 1 5 = Some res"
    "res \<subseteq> {1, 2} - {1}" "res = {1, 2} - {1} \<or> card res = 5"
    using graph_expand_exact [OF list_petgraph_ok path_sample_wf, of "[1]" 1 5] unfolding X reach by auto
  moreover have "card res \<noteq> 5" using res(2) card_mono [of "{1, 2} - {1 :: nat}" res] by auto
  ultimately show ?thesis by auto
qed

end
