(* ===== verification/Graph_Path.thy ===== *)
theory Graph_Path
  imports Graph_Search_Props Chain_Verify
begin

text \<open>
  Path mode of the graph tool: \<open>unimatrix-server/src/mcp/graph_read_path.rs\<close>, with the
  supersession resolution of \<open>graph_read_neighbors.rs\<close>, the graph state it reads
  (\<open>services/typed_graph.rs\<close>) and the outgoing edge query of
  \<open>unimatrix-store/src/graph_queries_neighbors.rs\<close>.

  The database engine is a parameter: \<open>get\<close> is \<open>Store::get\<close>, and \<open>fetch\<close> runs the
  selection of the rows of \<open>graph_edges\<close> that satisfy a condition and answers with an error
  or with these rows, in an order of its own. One request reads one state of the database.
\<close>

section \<open>The graph state\<close>

record ('g, 'ix) typed_graph_state =
  typed_graph :: "('g, 'ix) typed_relation_graph"
  all_entries :: "entry_record list"
  use_fallback :: bool

definition graph_state_new :: "('g, 'ix, relation_edge) petgraph \<Rightarrow> ('g, 'ix) typed_graph_state" where
  "graph_state_new pg = \<lparr>typed_graph = graph_empty pg, all_entries = [], use_fallback = True\<rparr>"

text \<open>
  The rebuild of a tick from the answers to its two queries; the outer None is a panic of
  the graph construction.
\<close>

definition rebuild :: "('g, 'ix, relation_edge) petgraph \<Rightarrow> ('t, 'ix, unit) petgraph \<Rightarrow>
    store_error + entry_record list \<Rightarrow> store_error + graph_edge_row list \<Rightarrow>
    (store_error + ('g, 'ix) typed_graph_state) option" where
  "rebuild pg pt query_all_entries query_graph_edges =
     (case query_all_entries of
        Inl e \<Rightarrow> Some (Inl e)
      | Inr all_entries_raw \<Rightarrow>
          let entries = filter (\<lambda>e. status e \<noteq> Quarantined) all_entries_raw
          in case query_graph_edges of
               Inl e \<Rightarrow> Some (Inl e)
             | Inr all_edges \<Rightarrow>
                 (case build_typed_relation_graph pg pt entries all_edges of
                    None \<Rightarrow> None
                  | Some (Inl CycleDetected) \<Rightarrow>
                      Some (Inl (InvalidInput ''supersedes'' ''supersession cycle detected''))
                  | Some (Inr graph) \<Rightarrow>
                      Some (Inr \<lparr>typed_graph = graph, all_entries = entries, use_fallback = False\<rparr>)))"

section \<open>Resolution of supersessions\<close>

fun follow_loop :: "(nat \<Rightarrow> store_error + entry_record) \<Rightarrow> nat \<Rightarrow> nat \<Rightarrow> nat option" where
  "follow_loop get 0 current = None"
| "follow_loop get (Suc n) current =
     (case get current of
        Inl _ \<Rightarrow> None
      | Inr entry \<Rightarrow>
          (case superseded_by entry of
             None \<Rightarrow> if status entry = Active then Some current else None
           | Some next_id \<Rightarrow> follow_loop get n next_id))"

definition follow_to_current :: "(nat \<Rightarrow> store_error + entry_record) \<Rightarrow> nat \<Rightarrow> nat option" where
  "follow_to_current get i = follow_loop get 50 i"

definition effective :: "(nat \<Rightarrow> store_error + entry_record) \<Rightarrow> bool \<Rightarrow> nat \<Rightarrow> nat" where
  "effective get resolve i =
     (if resolve then (case follow_to_current get i of Some j \<Rightarrow> j | None \<Rightarrow> i) else i)"

section \<open>Requests and answers\<close>

datatype error_data = ErrorData int string

definition ERROR_INVALID_PARAMS :: int where "ERROR_INVALID_PARAMS = -32602"

definition ERROR_INTERNAL :: int where "ERROR_INTERNAL = -32603"

record graph_params =
  gp_from_id :: "nat option"
  gp_to_id :: "nat option"
  gp_depth :: "nat option"
  gp_edge_types :: "string list option"
  gp_resolve :: "bool option"

record path_hop =
  hop_entry :: nat
  hop_type :: string

record path_response =
  resp_found :: bool
  resp_from :: nat
  resp_to :: nat
  resp_hops :: "path_hop list"
  resp_length :: nat

definition path_not_found :: "nat \<Rightarrow> nat \<Rightarrow> path_response" where
  "path_not_found f t = \<lparr>resp_found = False, resp_from = f, resp_to = t, resp_hops = [], resp_length = 0\<rparr>"

text \<open>The length is cast to u8.\<close>

definition path_found :: "nat \<Rightarrow> nat \<Rightarrow> path_hop list \<Rightarrow> path_response" where
  "path_found f t full_path =
     \<lparr>resp_found = True, resp_from = f, resp_to = t, resp_hops = full_path, resp_length = length full_path mod 256\<rparr>"

definition all_non_supersedes_types :: "relation_type list" where
  "all_non_supersedes_types = [Contradicts, Supports, CoAccess, Prerequisite, Informs, Advances, Motivates, Cites,
     Asserts, Mentions, Refutes, Tests, DerivedFrom, About, RelatedTo]"

text \<open>The dash and the quotes of the message are written as their bytes.\<close>

definition unrecognized_type :: "string \<Rightarrow> error_data" where
  "unrecognized_type t = ErrorData ERROR_INVALID_PARAMS
     (''unrecognized edge type '' @ [CHR 0x27] @ t @ [CHR 0x27, CHR 0x20, CHR 0xE2, CHR 0x80, CHR 0x94] @
      '' recognized types: About, Advances, Asserts, Cites, CoAccess, Contradicts, DerivedFrom, Informs, '' @
      ''Mentions, Motivates, Prerequisite, Refutes, RelatedTo, Supersedes, Supports, Tests'')"

fun parse_loop :: "string list \<Rightarrow> relation_type list \<Rightarrow> error_data + relation_type list" where
  "parse_loop [] parsed = Inr parsed"
| "parse_loop (t # types) parsed =
     (case from_str t of Some rt \<Rightarrow> parse_loop types (parsed @ [rt]) | None \<Rightarrow> Inl (unrecognized_type t))"

definition parse_relation_types :: "string list \<Rightarrow> error_data + relation_type list" where
  "parse_relation_types types = parse_loop types []"

section \<open>Search in the graph snapshot\<close>

text \<open>
  The targets of one node and one relation type: Inl is the path found, Inr the frontier and
  the visited ids.
\<close>

fun path_targets :: "('g, 'ix, relation_edge) petgraph \<Rightarrow> ('g, 'ix) typed_relation_graph \<Rightarrow> (nat \<Rightarrow> nat) \<Rightarrow> nat \<Rightarrow>
    relation_type \<Rightarrow> path_hop list \<Rightarrow> nat \<Rightarrow> 'ix list \<Rightarrow> ('ix \<times> path_hop list \<times> nat) list \<Rightarrow> nat set \<Rightarrow>
    path_hop list + ('ix \<times> path_hop list \<times> nat) list \<times> nat set" where
  "path_targets pg graph eff effective_to rel_type path_so_far current_depth [] frontier visited = Inr (frontier, visited)"
| "path_targets pg graph eff effective_to rel_type path_so_far current_depth (tgt_idx # tgts) frontier visited =
     (case node_id_for_index pg graph tgt_idx of
        None \<Rightarrow> path_targets pg graph eff effective_to rel_type path_so_far current_depth tgts frontier visited
      | Some raw_neighbor_id \<Rightarrow>
          let effective_neighbor = eff raw_neighbor_id;
              hop = \<lparr>hop_entry = effective_neighbor, hop_type = as_str rel_type\<rparr>
          in if effective_neighbor = effective_to then Inl (path_so_far @ [hop])
             else if effective_neighbor \<notin> visited then
               path_targets pg graph eff effective_to rel_type path_so_far current_depth tgts
                 (case node_index_for graph effective_neighbor of
                    Some neighbor_idx \<Rightarrow> frontier @ [(neighbor_idx, path_so_far @ [hop], current_depth + 1)]
                  | None \<Rightarrow> frontier)
                 (insert effective_neighbor visited)
             else path_targets pg graph eff effective_to rel_type path_so_far current_depth tgts frontier visited)"

fun path_types :: "('g, 'ix, relation_edge) petgraph \<Rightarrow> ('g, 'ix) typed_relation_graph \<Rightarrow> (nat \<Rightarrow> nat) \<Rightarrow> nat \<Rightarrow>
    'ix \<Rightarrow> path_hop list \<Rightarrow> nat \<Rightarrow> relation_type list \<Rightarrow> ('ix \<times> path_hop list \<times> nat) list \<Rightarrow> nat set \<Rightarrow>
    path_hop list + ('ix \<times> path_hop list \<times> nat) list \<times> nat set" where
  "path_types pg graph eff effective_to current_idx path_so_far current_depth [] frontier visited = Inr (frontier, visited)"
| "path_types pg graph eff effective_to current_idx path_so_far current_depth (rel_type # edge_types) frontier visited =
     (case path_targets pg graph eff effective_to rel_type path_so_far current_depth
             (map (\<lambda>(_, target, _). target) (edges_of_type pg graph current_idx rel_type Outgoing)) frontier visited of
        Inl full_path \<Rightarrow> Inl full_path
      | Inr (frontier', visited') \<Rightarrow>
          path_types pg graph eff effective_to current_idx path_so_far current_depth edge_types frontier' visited')"

text \<open>The measure of the search loops: the hops left to every entry of the frontier, as a multiset.\<close>

definition path_measure :: "nat \<Rightarrow> ('n \<times> 'p \<times> nat) list \<Rightarrow> nat multiset" where
  "path_measure m frontier = hops_left m (map (\<lambda>(n, p, d). (n, d)) frontier)"

lemma path_measure_pop: "(path_measure m frontier, path_measure m (x # frontier)) \<in> mult less_than"
  unfolding path_measure_def by (simp add: hops_pop)

lemma path_measure_expand:
  assumes "\<forall>(n, p, e) \<in> set new. e = Suc d" and "d < m"
  shows "(path_measure m (frontier @ new), path_measure m ((i, p, d) # frontier)) \<in> mult less_than"
proof -
  have "snd ` set (map (\<lambda>(n, p, d). (n, d)) new) \<subseteq> {Suc d}" using assms(1) by auto
  then show ?thesis unfolding path_measure_def
    using hops_expand [of "map (\<lambda>(n, p, d). (n, d)) (frontier @ new)" "map (\<lambda>(n, p, d). (n, d)) frontier"
        "map (\<lambda>(n, p, d). (n, d)) new" d m i] assms(2) by simp
qed

lemma path_targets_new:
  "path_targets pg g eff t rt p d tgts frontier visited = Inr (frontier', visited') \<Longrightarrow>
   \<exists>new. frontier' = frontier @ new \<and> (\<forall>(n, q, e) \<in> set new. e = Suc d)"
proof (induction pg g eff t rt p d tgts frontier visited rule: path_targets.induct)
  case (2 pg g eff t rt p d i tgts frontier visited)
  show ?case
  proof (cases "node_id_for_index pg g i")
    case None
    then show ?thesis using 2 by auto
  next
    case (Some raw)
    let ?h = "\<lparr>hop_entry = eff raw, hop_type = as_str rt\<rparr>"
    have t: "eff raw \<noteq> t" using "2.prems" Some by (auto simp: Let_def)
    show ?thesis
    proof (cases "eff raw \<in> visited")
      case True
      then show ?thesis using "2.IH"(3) [OF Some refl refl t] "2.prems" Some t by (simp add: Let_def)
    next
      case False
      define mid where "mid = (case node_index_for g (eff raw) of Some j \<Rightarrow> [(j, p @ [?h], d + 1)] | None \<Rightarrow> [])"
      have e: "(case node_index_for g (eff raw) of Some j \<Rightarrow> frontier @ [(j, p @ [?h], d + 1)] | None \<Rightarrow> frontier) = frontier @ mid"
        by (simp add: mid_def split: option.split)
      have m: "\<forall>(n, q, e) \<in> set mid. e = Suc d" by (simp add: mid_def split: option.split)
      obtain new where "frontier' = (frontier @ mid) @ new" "\<forall>(n, q, e) \<in> set new. e = Suc d"
        using "2.IH"(2) [OF Some refl refl t False] "2.prems" Some t False by (auto simp: Let_def e)
      then show ?thesis using m by (intro exI [of _ "mid @ new"]) auto
    qed
  qed
qed simp

lemma path_types_new:
  "path_types pg g eff t i p d types frontier visited = Inr (frontier', visited') \<Longrightarrow>
   \<exists>new. frontier' = frontier @ new \<and> (\<forall>(n, q, e) \<in> set new. e = Suc d)"
proof (induction types arbitrary: frontier visited)
  case (Cons rt types)
  then obtain f1 v1 where 1: "path_targets pg g eff t rt p d
      (map (\<lambda>(_, target, _). target) (edges_of_type pg g i rt Outgoing)) frontier visited = Inr (f1, v1)"
    "path_types pg g eff t i p d types f1 v1 = Inr (frontier', visited')"
    by (auto split: sum.splits)
  obtain new1 where n1: "f1 = frontier @ new1" "\<forall>(n, q, e) \<in> set new1. e = Suc d" using path_targets_new [OF 1(1)] by blast
  obtain new2 where n2: "frontier' = f1 @ new2" "\<forall>(n, q, e) \<in> set new2. e = Suc d" using Cons.IH [OF 1(2)] by blast
  show ?case using n1 n2 by (intro exI [of _ "new1 @ new2"]) auto
qed simp

function path_loop :: "('g, 'ix, relation_edge) petgraph \<Rightarrow> ('g, 'ix) typed_relation_graph \<Rightarrow> (nat \<Rightarrow> nat) \<Rightarrow> nat \<Rightarrow>
    relation_type list \<Rightarrow> nat \<Rightarrow> ('ix \<times> path_hop list \<times> nat) list \<Rightarrow> nat set \<Rightarrow> path_hop list option" where
  "path_loop pg graph eff effective_to edge_types max_depth [] visited = None"
| "path_loop pg graph eff effective_to edge_types max_depth ((current_idx, path_so_far, current_depth) # frontier) visited =
     (if current_depth \<ge> max_depth then path_loop pg graph eff effective_to edge_types max_depth frontier visited
      else case path_types pg graph eff effective_to current_idx path_so_far current_depth edge_types frontier visited of
             Inl full_path \<Rightarrow> Some full_path
           | Inr (frontier', visited') \<Rightarrow>
               path_loop pg graph eff effective_to edge_types max_depth frontier' visited')"
  by pat_completeness auto
termination
proof (relation "inv_image (mult less_than) (\<lambda>(pg, g, eff, t, types, m, frontier, visited). path_measure m frontier)", goal_cases)
  case 1
  show ?case by (rule wf_hops)
next
  case (2 pg g eff t types m i p d frontier visited)
  show ?case by (simp add: path_measure_pop)
next
  case (3 pg g eff t types m i p d frontier visited x frontier' visited')
  then obtain new where "frontier' = frontier @ new" "\<forall>(n, q, e) \<in> set new. e = Suc d"
    using path_types_new by metis
  then show ?case using 3(1) by (simp add: path_measure_expand)
qed

section \<open>Search in the database\<close>

record raw_edge_row =
  raw_source_id :: nat
  raw_target_id :: nat
  raw_relation_type :: string
  raw_source :: string
  raw_target_confidence :: "64 word option"

type_synonym edge_fetch = "(graph_edge_row \<Rightarrow> bool) \<Rightarrow> string + graph_edge_row list"

definition map_edge_row :: "graph_edge_row \<Rightarrow> raw_edge_row" where
  "map_edge_row row = \<lparr>raw_source_id = source_id row, raw_target_id = target_id row,
     raw_relation_type = row_type row, raw_source = row_source row, raw_target_confidence = None\<rparr>"

definition outgoing_condition :: "nat \<Rightarrow> string list \<Rightarrow> graph_edge_row \<Rightarrow> bool" where
  "outgoing_condition i edge_types row \<longleftrightarrow>
     (if edge_types = [] then source_id row = i \<and> row_type row \<noteq> ''Supersedes''
      else source_id row = i \<and> row_type row \<in> set edge_types)"

definition run_outgoing_query :: "edge_fetch \<Rightarrow> nat \<Rightarrow> string list \<Rightarrow> store_error + raw_edge_row list" where
  "run_outgoing_query fetch i edge_types =
     (case fetch (outgoing_condition i edge_types) of
        Inl e \<Rightarrow> Inl (Database e)
      | Inr rows \<Rightarrow> Inr (map map_edge_row rows))"

definition incoming_condition :: "nat \<Rightarrow> string list \<Rightarrow> graph_edge_row \<Rightarrow> bool" where
  "incoming_condition i edge_types row \<longleftrightarrow>
     (if edge_types = [] then target_id row = i \<and> row_type row \<noteq> ''Supersedes''
      else target_id row = i \<and> row_type row \<in> set edge_types)"

definition run_incoming_query :: "edge_fetch \<Rightarrow> nat \<Rightarrow> string list \<Rightarrow> store_error + raw_edge_row list" where
  "run_incoming_query fetch i edge_types =
     (case fetch (incoming_condition i edge_types) of
        Inl e \<Rightarrow> Inl (Database e)
      | Inr rows \<Rightarrow> Inr (map map_edge_row rows))"

datatype neighbor_direction = NIncoming | NOutgoing | NBoth

definition query_direct_neighbors :: "edge_fetch \<Rightarrow> nat \<Rightarrow> string list \<Rightarrow> neighbor_direction \<Rightarrow>
    store_error + raw_edge_row list" where
  "query_direct_neighbors fetch i edge_types d =
     (case d of
        NOutgoing \<Rightarrow> run_outgoing_query fetch i edge_types
      | NIncoming \<Rightarrow> run_incoming_query fetch i edge_types
      | NBoth \<Rightarrow>
          (case run_outgoing_query fetch i edge_types of
             Inl e \<Rightarrow> Inl e
           | Inr outgoing \<Rightarrow>
               (case run_incoming_query fetch i edge_types of
                  Inl e \<Rightarrow> Inl e
                | Inr incoming \<Rightarrow> Inr (outgoing @ incoming))))"

definition MAX_DB_NEIGHBORS_PER_NODE :: nat where "MAX_DB_NEIGHBORS_PER_NODE = 1000"

fun path_rows :: "(nat \<Rightarrow> nat) \<Rightarrow> nat \<Rightarrow> path_hop list \<Rightarrow> nat \<Rightarrow> raw_edge_row list \<Rightarrow>
    (nat \<times> path_hop list \<times> nat) list \<Rightarrow> nat set \<Rightarrow> path_hop list + (nat \<times> path_hop list \<times> nat) list \<times> nat set" where
  "path_rows eff effective_to path_so_far current_depth [] frontier visited = Inr (frontier, visited)"
| "path_rows eff effective_to path_so_far current_depth (row # rows) frontier visited =
     (let effective_neighbor = eff (raw_target_id row);
          hop = \<lparr>hop_entry = effective_neighbor, hop_type = raw_relation_type row\<rparr>
      in if effective_neighbor = effective_to then Inl (path_so_far @ [hop])
         else if effective_neighbor \<notin> visited then
           path_rows eff effective_to path_so_far current_depth rows
             (frontier @ [(effective_neighbor, path_so_far @ [hop], current_depth + 1)]) (insert effective_neighbor visited)
         else path_rows eff effective_to path_so_far current_depth rows frontier visited)"

lemma path_rows_new:
  "path_rows eff t p d rows frontier visited = Inr (frontier', visited') \<Longrightarrow>
   \<exists>new. frontier' = frontier @ new \<and> (\<forall>(n, q, e) \<in> set new. e = Suc d)"
proof (induction eff t p d rows frontier visited rule: path_rows.induct)
  case (2 eff t p d row rows frontier visited)
  let ?h = "\<lparr>hop_entry = eff (raw_target_id row), hop_type = raw_relation_type row\<rparr>"
  have t: "eff (raw_target_id row) \<noteq> t" using "2.prems" by (auto simp: Let_def)
  show ?case
  proof (cases "eff (raw_target_id row) \<in> visited")
    case True
    then show ?thesis using "2.IH"(2) [OF refl refl t] "2.prems" t by (simp add: Let_def)
  next
    case False
    obtain new where "frontier' = (frontier @ [(eff (raw_target_id row), p @ [?h], d + 1)]) @ new"
      "\<forall>(n, q, e) \<in> set new. e = Suc d"
      using "2.IH"(1) [OF refl refl t False] "2.prems" t False by (auto simp: Let_def)
    then show ?thesis by (intro exI [of _ "(eff (raw_target_id row), p @ [?h], d + 1) # new"]) auto
  qed
qed simp

function path_db_loop :: "edge_fetch \<Rightarrow> (nat \<Rightarrow> nat) \<Rightarrow> nat \<Rightarrow> string list \<Rightarrow> nat \<Rightarrow>
    (nat \<times> path_hop list \<times> nat) list \<Rightarrow> nat set \<Rightarrow> error_data + path_hop list option" where
  "path_db_loop fetch eff effective_to type_strs max_depth [] visited = Inr None"
| "path_db_loop fetch eff effective_to type_strs max_depth ((current_id, path_so_far, current_depth) # frontier) visited =
     (if current_depth \<ge> max_depth then path_db_loop fetch eff effective_to type_strs max_depth frontier visited
      else case query_direct_neighbors fetch current_id type_strs NOutgoing of
          Inl e \<Rightarrow> Inl (ErrorData ERROR_INTERNAL (''graph query failed: '' @ store_error_display e))
        | Inr raw_neighbors \<Rightarrow>
            (case path_rows eff effective_to path_so_far current_depth (take MAX_DB_NEIGHBORS_PER_NODE raw_neighbors)
                    frontier visited of
               Inl full_path \<Rightarrow> Inr (Some full_path)
             | Inr (frontier', visited') \<Rightarrow>
                 path_db_loop fetch eff effective_to type_strs max_depth frontier' visited'))"
  by pat_completeness auto
termination
proof (relation "inv_image (mult less_than) (\<lambda>(fetch, eff, t, types, m, frontier, visited). path_measure m frontier)", goal_cases)
  case 1
  show ?case by (rule wf_hops)
next
  case (2 fetch eff t types m i p d frontier visited)
  show ?case by (simp add: path_measure_pop)
next
  case (3 fetch eff t types m i p d frontier visited rows x frontier' visited')
  then obtain new where "frontier' = frontier @ new" "\<forall>(n, q, e) \<in> set new. e = Suc d"
    using path_rows_new by metis
  then show ?case using 3(1) by (simp add: path_measure_expand)
qed

definition path_via_db :: "edge_fetch \<Rightarrow> (nat \<Rightarrow> store_error + entry_record) \<Rightarrow> nat \<Rightarrow> nat \<Rightarrow> relation_type list \<Rightarrow>
    nat \<Rightarrow> bool \<Rightarrow> error_data + path_response" where
  "path_via_db fetch get effective_from effective_to edge_types max_depth resolve_supersessions =
     (case path_db_loop fetch (effective get resolve_supersessions) effective_to (map as_str edge_types) max_depth
             [(effective_from, [], 0)] {effective_from} of
        Inl e \<Rightarrow> Inl e
      | Inr None \<Rightarrow> Inr (path_not_found effective_from effective_to)
      | Inr (Some full_path) \<Rightarrow> Inr (path_found effective_from effective_to full_path))"

section \<open>The handler\<close>

definition DEFAULT_DEPTH :: nat where "DEFAULT_DEPTH = 5"

definition MAX_DEPTH_UPPER :: nat where "MAX_DEPTH_UPPER = 10"

definition path_depth :: "graph_params \<Rightarrow> error_data + nat" where
  "path_depth params =
     (case gp_depth params of
        None \<Rightarrow> Inr DEFAULT_DEPTH
      | Some d \<Rightarrow> if 1 \<le> d \<and> d \<le> MAX_DEPTH_UPPER then Inr d
                  else Inl (ErrorData ERROR_INVALID_PARAMS (''depth must be in range 1..=10, got '' @ show_nat d)))"

definition path_edge_types :: "graph_params \<Rightarrow> error_data + relation_type list" where
  "path_edge_types params =
     (case gp_edge_types params of
        None \<Rightarrow> Inr all_non_supersedes_types
      | Some v \<Rightarrow> if v = [] then Inr all_non_supersedes_types else parse_relation_types v)"

text \<open>Steps 7 to 10: the database when the state is a fallback, else the snapshot.\<close>

definition path_search :: "('g, 'ix, relation_edge) petgraph \<Rightarrow> edge_fetch \<Rightarrow> (nat \<Rightarrow> store_error + entry_record) \<Rightarrow>
    ('g, 'ix) typed_graph_state \<Rightarrow> nat \<Rightarrow> nat \<Rightarrow> relation_type list \<Rightarrow> nat \<Rightarrow> bool \<Rightarrow> error_data + path_response" where
  "path_search pg fetch get state effective_from effective_to edge_types max_depth resolve_supersessions =
     (let graph = typed_graph state
      in if use_fallback state then
           path_via_db fetch get effective_from effective_to edge_types max_depth resolve_supersessions
         else case node_index_for graph effective_from of
             None \<Rightarrow> Inr (path_not_found effective_from effective_to)
           | Some from_idx \<Rightarrow>
               (case node_index_for graph effective_to of
                  None \<Rightarrow> Inr (path_not_found effective_from effective_to)
                | Some to_idx \<Rightarrow>
                    if from_idx = to_idx then Inr (path_not_found effective_from effective_to)
                    else case path_loop pg graph (effective get resolve_supersessions) effective_to edge_types max_depth
                                [(from_idx, [], 0)] {effective_from} of
                        Some full_path \<Rightarrow> Inr (path_found effective_from effective_to full_path)
                      | None \<Rightarrow> Inr (path_not_found effective_from effective_to)))"

definition handle_path :: "('g, 'ix, relation_edge) petgraph \<Rightarrow> edge_fetch \<Rightarrow> (nat \<Rightarrow> store_error + entry_record) \<Rightarrow>
    ('g, 'ix) typed_graph_state \<Rightarrow> graph_params \<Rightarrow> error_data + path_response" where
  "handle_path pg fetch get state params =
     (case gp_from_id params of
        None \<Rightarrow> Inl (ErrorData ERROR_INVALID_PARAMS ''path mode requires from_id'')
      | Some from_id \<Rightarrow>
          (case gp_to_id params of
             None \<Rightarrow> Inl (ErrorData ERROR_INVALID_PARAMS ''path mode requires to_id'')
           | Some to_id \<Rightarrow>
               if from_id = to_id then Inr (path_not_found from_id to_id)
               else case path_depth params of
                   Inl e \<Rightarrow> Inl e
                 | Inr max_depth \<Rightarrow>
                     (case path_edge_types params of
                        Inl e \<Rightarrow> Inl e
                      | Inr edge_types \<Rightarrow>
                          let resolve_supersessions = (case gp_resolve params of Some b \<Rightarrow> b | None \<Rightarrow> True)
                          in path_search pg fetch get state (effective get resolve_supersessions from_id)
                               (effective get resolve_supersessions to_id) edge_types max_depth resolve_supersessions)))"

end
