(* ===== verification/Store_Props.thy ===== *)
theory Store_Props
  imports Store_Chains Store_Query_Laws Graph_Path
begin

text \<open>
  Properties of the store's writes: what inserting and correcting do, as the reads afterwards
  show it; the invariant over any sequence of writes with any faults; atomicity; and the
  correction chains, as the chain verifier and the relation graph see them.
\<close>

section \<open>Inserting\<close>

lemma calm_get_iff:
  "get_entry i db [] = (case hm_get (entries_table db) i of
     None \<Rightarrow> (Failed (EntryNotFound i), db, []) | Some row \<Rightarrow> (Replied (stored_entry db i row), db, []))"
  by (cases "hm_get (entries_table db) i") (simp_all add: calm_simps)

lemma get_entry_same:
  "hm_get (entries_table db') i = hm_get (entries_table db) i \<Longrightarrow> tags_of db' i = tags_of db i \<Longrightarrow>
   fst (get_entry i db' []) = fst (get_entry i db [])"
  unfolding calm_get_iff by (simp add: stored_entry_def split: option.split)

lemma tags_of_added: "tags_of (added row ts db) i = tags_of db i @ (if i = eid row then ts else [])"
  by (simp add: tags_of_def filter_map comp_def)

lemma tags_of_frame [simp]:
  "tags_of (allocated db) i = tags_of db i" "tags_of (moved old new db) i = tags_of db i"
  "tags_of (db\<lparr>entries_table := e\<rparr>) i = tags_of db i" "tags_of (db\<lparr>vector_table := v\<rparr>) i = tags_of db i"
  by (simp_all add: tags_of_def)

lemma no_tags: "store_ok db \<Longrightarrow> hm_get (entries_table db) i = None \<Longrightarrow> tags_of db i = []"
  using fresh_tags [of db i] by (auto simp: tags_of_def filter_empty_conv)

lemma next_id_free: "store_ok db \<Longrightarrow> hm_get (entries_table db) (Suc (last_id db)) = None"
  using fresh_id [of db "Suc (last_id db)"] by (simp add: store_ok_def)

lemma below_limit: "last_id db < id_limit \<Longrightarrow> last_id db < u64_max"
  by (simp add: id_limit_def u64_max_def)

text \<open>
  C25. Inserting an entry whose tags are distinct returns the next id; the entry is then read
  back under it with the given fields, the hash of its text, version 1, the time of the call
  as both timestamps, no links, no usage, and its tags in order; every other entry reads as
  before, and the tables keep their invariant. With a tag given twice the insertion is refused
  with the engine's uniqueness message and changes nothing.
\<close>

theorem insert_then_get:
  assumes "store_ok db" and "last_id db < id_limit"
  shows "let i = Suc (last_id db) in
    if distinct (ne_tags e)
    then \<exists>db'. insert_entry env e db [] = (Replied i, db', []) \<and> store_ok db' \<and>
      get_entry i db' [] = (Replied ((inserted_row env i e)\<lparr>tags := sort_by bytes_le (ne_tags e)\<rparr>), db', []) \<and>
      (\<forall>j. j \<noteq> i \<longrightarrow> fst (get_entry j db' []) = fst (get_entry j db []))
    else insert_entry env e db [] = (Failed (duplicate_tag env), db, [])"
proof (cases "distinct (ne_tags e)")
  case True
  let ?i = "Suc (last_id db)"
  let ?row = "inserted_row env ?i e"
  let ?db = "added ?row (ne_tags e) (allocated db)"
  have row: "eid ?row = ?i" "entry_from_row ?row = ?row" by (simp_all add: inserted_row_def entry_from_row_def)
  have "insert_entry env e db [] = (Replied ?i, ?db, [])"
    using insert_entry_calm [OF assms(1) below_limit [OF assms(2)]] True by simp
  moreover have "store_ok ?db" using store_ok_inserted [OF assms(1) True row(1)] by blast
  moreover have "get_entry ?i ?db [] = (Replied (?row\<lparr>tags := sort_by bytes_le (ne_tags e)\<rparr>), ?db, [])"
    using no_tags [OF assms(1) next_id_free [OF assms(1)]] row by (simp add: calm_get_iff stored_entry_def tags_of_added)
  moreover have "fst (get_entry j ?db []) = fst (get_entry j db [])" if "j \<noteq> ?i" for j
    by (rule get_entry_same) (use that row(1) in \<open>simp_all add: tags_of_added\<close>)
  ultimately show ?thesis using True by (auto simp: Let_def)
next
  case False
  then show ?thesis using insert_entry_calm [OF assms(1) below_limit [OF assms(2)]] by (simp add: Let_def)
qed

definition sample_env :: call_env where
  "sample_env = \<lparr>env_now = 5, env_sha = (\<lambda>s. CHR ''h'' # s), env_violation = (\<lambda>c. ''UNIQUE'')\<rparr>"

definition sample_new :: "string \<Rightarrow> string list \<Rightarrow> new_entry" where
  "sample_new t ts = \<lparr>ne_title = t, ne_content = ''body'', ne_topic = ''top'', ne_category = ''decision'', ne_tags = ts, ne_source = [],
     ne_status = Active, ne_created_by = ''me'', ne_feature_cycle = [], ne_trust_source = ''agent''\<rparr>"

theorem insert_then_get_witness:
  "\<exists>db'. insert_entry sample_env (sample_new ''A'' [''y'', ''x'']) empty_db [] = (Replied (Suc 0), db', []) \<and> store_ok db' \<and>
    get_entry (Suc 0) db' [] = (Replied ((inserted_row sample_env (Suc 0) (sample_new ''A'' [''y'', ''x'']))\<lparr>tags := [''x'', ''y'']\<rparr>), db', [])"
proof -
  have l: "last_id empty_db = 0" by (simp add: last_id_def counter_value_def empty_db_def)
  have s: "sort_by bytes_le [''y'', ''x''] = [''x'', ''y'']" by (simp add: sort_by_def)
  show ?thesis
    using insert_then_get [OF store_ok_empty, of "sample_new ''A'' [''y'', ''x'']" sample_env]
    by (auto simp: l s id_limit_def Let_def sample_new_def)
qed

section \<open>Correcting\<close>

lemma corrected_reads:
  fixes env :: call_env and d :: nat
  assumes ok: "store_ok db" and row: "hm_get (entries_table db) i = Some row" and new: "eid new_rec = Suc (last_id db)"
  defines "db' \<equiv> corrected env i row new_rec d db"
  shows "hm_get (entries_table db') = (hm_get (entries_table db))(i \<mapsto> deprecated_row env (Suc (last_id db)) row,
      Suc (last_id db) \<mapsto> new_rec\<lparr>tags := []\<rparr>)"
    and "tags_of db' j = tags_of db j @ (if j = Suc (last_id db) then tags new_rec else [])"
    and "hm_get (vector_table db') = (hm_get (vector_table db))(Suc (last_id db) \<mapsto> d)"
  by (simp_all add: db'_def corrected_def new tags_of_added)

definition replaced :: "call_env \<Rightarrow> nat \<Rightarrow> entry_record \<Rightarrow> entry_record" where
  "replaced env n original = original\<lparr>status := Deprecated, superseded_by := Some n,
     correction_count := correction_count original + 1, updated_at := env_now env\<rparr>"

lemma stored_deprecated:
  "correction_count (stored_entry db i row) < u32_max \<Longrightarrow> tags_of db' i = tags_of db i \<Longrightarrow>
   stored_entry db' i (deprecated_row env n row) = replaced env n (stored_entry db i row)"
  by (simp add: stored_entry_def entry_from_row_def deprecated_row_def replaced_def u32_max_def mod_Suc)

text \<open>The mapping of the new version is written in the same transaction.\<close>

lemma correct_writes_mapping:
  assumes "store_ok db" and "last_id db < id_limit" and "correct_entry env i c d width db fs = (Replied (original, new), db', fs')"
  shows "hm_get (vector_table db') = (hm_get (vector_table db))(eid new \<mapsto> d)"
proof -
  have "correct_entry env i c d width db [] = (Replied (original, new), db', [])"
    by (rule fault_freeD [OF fault_free_correct assms(3)])
  then show ?thesis using correct_entry_calm [OF assms(1) below_limit [OF assms(2)], of env i c d width]
    by (auto simp: Let_def corrected_def split: option.splits if_splits)
qed

text \<open>
  C26. Correcting an entry that may be corrected (neither deprecated nor quarantined, with a
  content hash, its 32-bit counters not at their maximum) with distinct tags returns the
  original and the correction as they are stored: read back, the original is deprecated, names
  the new id as its successor and counts one correction more; the correction has the next id,
  names the original as its predecessor, carries the original's hash as its link and the next
  version number; every other entry reads as before.
  An entry that may not be corrected is refused with the documented error, a tag given twice
  with the engine's message, an unknown id with \<open>EntryNotFound\<close>, and nothing changes.
\<close>

theorem correct_then_get:
  assumes "store_ok db" and "last_id db < id_limit" and "width < 2 ^ 16"
    and "\<And>original. fst (get_entry i db []) = Replied original \<Longrightarrow> version original < u32_max \<and> correction_count original < u32_max"
  shows "case fst (get_entry i db []) of
      Replied original \<Rightarrow>
        (case correction_refused i original of
           Some err \<Rightarrow> correct_entry env i c d width db [] = (Failed err, db, [])
         | None \<Rightarrow>
             if distinct (ne_tags c) then
               let n = Suc (last_id db); new = correction_record env i original c width n in
               \<exists>db'. correct_entry env i c d width db [] = (Replied (replaced env n original, new), db', []) \<and> store_ok db' \<and>
                 fst (get_entry i db' []) = Replied (replaced env n original) \<and>
                 fst (get_entry n db' []) = Replied (new\<lparr>tags := sort_by bytes_le (ne_tags c)\<rparr>) \<and>
                 (\<forall>j. j \<noteq> i \<and> j \<noteq> n \<longrightarrow> fst (get_entry j db' []) = fst (get_entry j db []))
             else correct_entry env i c d width db [] = (Failed (duplicate_tag env), db, []))
    | Failed err \<Rightarrow> err = EntryNotFound i \<and> correct_entry env i c d width db [] = (Failed err, db, [])
    | Panicked \<Rightarrow> False"
proof (cases "hm_get (entries_table db) i")
  case None
  then show ?thesis using correct_entry_calm [OF assms(1) below_limit [OF assms(2)], of env i c d width] by (simp add: calm_get_iff)
next
  case (Some row)
  let ?n = "Suc (last_id db)" and ?o = "stored_entry db i row"
  let ?new = "correction_record env i ?o c width ?n"
  let ?db = "corrected env i row ?new d db"
  have get: "fst (get_entry i db []) = Replied ?o" using Some by (simp add: calm_get_iff)
  have small: "version ?o < u32_max" "correction_count ?o < u32_max" using assms(4) [OF get] by blast+
  note calm = correct_entry_calm [OF assms(1) below_limit [OF assms(2)], of env i c d width]
  show ?thesis
  proof (cases "correction_refused i ?o = None \<and> distinct (ne_tags c)")
    case False
    then show ?thesis using calm Some get small by (auto simp: Let_def not_le split: option.splits)
  next
    case True
    note reads = corrected_reads [OF assms(1) Some, of ?new env d, simplified]
    have i: "i \<noteq> ?n" using next_id_free [OF assms(1)] Some by auto
    have 1: "correct_entry env i c d width db [] = (Replied (replaced env ?n ?o, ?new), ?db, [])"
      using calm Some True small by (simp add: Let_def not_le replaced_def)
    have 2: "store_ok ?db" using store_ok_corrected [OF assms(1), of i c row env width d] Some True small
      by (simp add: correctable_def correction_of_def)
    have 3: "fst (get_entry i ?db []) = Replied (replaced env ?n ?o)"
      using stored_deprecated [OF small(2), of ?db env ?n] i by (simp add: calm_get_iff reads)
    have "tags_of ?db ?n = ne_tags c" using no_tags [OF assms(1) next_id_free [OF assms(1)]] by (simp add: reads(2))
    moreover have "entry_from_row (?new\<lparr>tags := []\<rparr>) = ?new\<lparr>tags := []\<rparr>"
      using small(1) assms(3) by (simp add: entry_from_row_def correction_record_def u32_max_def)
    ultimately have "stored_entry ?db ?n (?new\<lparr>tags := []\<rparr>) = ?new\<lparr>tags := sort_by bytes_le (ne_tags c)\<rparr>"
      by (simp add: stored_entry_def)
    then have 4: "fst (get_entry ?n ?db []) = Replied (?new\<lparr>tags := sort_by bytes_le (ne_tags c)\<rparr>)"
      by (simp add: calm_get_iff reads(1))
    have 5: "fst (get_entry j ?db []) = fst (get_entry j db [])" if "j \<noteq> i \<and> j \<noteq> ?n" for j
      by (rule get_entry_same) (use that in \<open>simp_all add: reads\<close>)
    show ?thesis using True 1 2 3 4 5 by (simp add: get Let_def)
  qed
qed

definition sample_db :: store_db where
  "sample_db = fst (snd (insert_entry sample_env (sample_new ''A'' [''y'', ''x'']) empty_db []))"

lemma sample_db_facts:
  shows sample_db_ok: "store_ok sample_db" and sample_db_last: "last_id sample_db = 1"
    and sample_db_get: "fst (get_entry 1 sample_db []) = Replied ((inserted_row sample_env 1 (sample_new ''A'' [''y'', ''x'']))\<lparr>tags := [''x'', ''y'']\<rparr>)"
proof -
  have z: "last_id empty_db = 0" by (simp add: last_id_def counter_value_def empty_db_def)
  have d: "distinct (ne_tags (sample_new ''A'' [''y'', ''x'']))" by (simp add: sample_new_def)
  have r: "eid (inserted_row sample_env 1 (sample_new ''A'' [''y'', ''x''])) = Suc (last_id empty_db)" by (simp add: inserted_row_def z)
  have e: "sample_db = added (inserted_row sample_env 1 (sample_new ''A'' [''y'', ''x''])) (ne_tags (sample_new ''A'' [''y'', ''x''])) (allocated empty_db)"
    using insert_entry_calm [OF store_ok_empty, of sample_env "sample_new ''A'' [''y'', ''x'']"] d
    by (simp add: sample_db_def z u64_max_def)
  show "store_ok sample_db" "last_id sample_db = 1"
    using store_ok_inserted [OF store_ok_empty d r] by (simp_all add: e z)
  have s: "sort_by bytes_le [''y'', ''x''] = [''x'', ''y'']" by (simp add: sort_by_def)
  show "fst (get_entry 1 sample_db []) = Replied ((inserted_row sample_env 1 (sample_new ''A'' [''y'', ''x'']))\<lparr>tags := [''x'', ''y'']\<rparr>)"
    using r by (simp add: e z calm_get_iff stored_entry_def tags_of_added)
      (simp add: tags_of_def empty_db_def s sample_new_def inserted_row_def entry_from_row_def)
qed

theorem correct_then_get_witness:
  "\<exists>db' old new. correct_entry sample_env 1 (sample_new ''B'' []) 7 384 sample_db [] = (Replied (old, new), db', []) \<and>
    fst (get_entry 1 db' []) = Replied old \<and> status old = Deprecated \<and> superseded_by old = Some (Suc 1) \<and>
    fst (get_entry (Suc 1) db' []) = Replied new \<and> supersedes new = Some 1 \<and> previous_hash new = content_hash old \<and> version new = Suc 1"
proof -
  show ?thesis
    using correct_then_get [OF sample_db_ok, of 384 1 sample_env "sample_new ''B'' []" 7] unfolding sample_db_get sample_db_last
    by (auto simp: Let_def id_limit_def u32_max_def correction_refused_def inserted_row_def sample_new_def sample_env_def
        compute_content_hash_def replaced_def correction_record_def sort_by_def)
qed

section \<open>Any sequence of writes\<close>

text \<open>
  C21. Whatever writes the store executes, in whatever order, at whatever times and with
  whatever faults of the database in between, as long as ids last: the counter of each status
  is the number of entries a read shows with that status, the ids of the entries are between 1
  and the last allocated one, and the tag rows are distinct and belong to entries.
\<close>

theorem writes_keep_invariant:
  assumes "sum_list (map step_cost steps) \<le> id_limit"
  defines "db \<equiv> run_store empty_db steps"
  shows "(\<forall>s. fst (read_counter (status_counter_key s) db []) =
      Replied (card {i. \<exists>e. fst (get_entry i db []) = Replied e \<and> status e = s})) \<and>
    (\<forall>i e. fst (get_entry i db []) = Replied e \<longrightarrow> eid e = i \<and> 1 \<le> i \<and> i \<le> last_id db) \<and>
    distinct (tags_table db) \<and> (\<forall>(i, t) \<in> set (tags_table db). \<exists>e. fst (get_entry i db []) = Replied e \<and> t \<in> set (tags e))"
proof -
  have z: "last_id empty_db = 0" by (simp add: last_id_def counter_value_def empty_db_def)
  have ok: "store_ok db" using run_store_ok [OF store_ok_empty, of steps] assms(1) by (simp add: db_def z)
  have reads: "fst (get_entry i db []) = Replied e \<longleftrightarrow> (\<exists>row. hm_get (entries_table db) i = Some row \<and> e = stored_entry db i row)" for i e
    by (auto simp: calm_get_iff split: option.split)
  have "{i. \<exists>e. fst (get_entry i db []) = Replied e \<and> status e = s} = with_status (hm_get (entries_table db)) s" for s
    unfolding reads with_status_def by auto
  moreover have "eid e = i \<and> 1 \<le> i \<and> i \<le> last_id db" if "fst (get_entry i db []) = Replied e" for i e
    using that ok unfolding reads store_ok_def ids_ok_def by auto
  moreover have "\<exists>e. fst (get_entry i db []) = Replied e \<and> t \<in> set (tags e)" if row: "(i, t) \<in> set (tags_table db)" for i t
  proof -
    have "t \<in> set (sort_by bytes_le (tags_of db i))"
      using row unfolding mset_eq_setD [OF sort_by_mset] by (force simp: tags_of_def)
    moreover obtain r where "hm_get (entries_table db) i = Some r" using row ok by (force simp: store_ok_def tags_ok_def)
    ultimately show ?thesis unfolding reads by (auto simp: stored_entry_def)
  qed
  ultimately show ?thesis using ok by (auto simp: calm_simps store_ok_def counters_ok_def tags_ok_def)
qed

definition sample_steps :: "store_step list" where
  "sample_steps =
     [(sample_env, InsertEvent (sample_new ''A'' [''x'']), []),
      (sample_env, CorrectEvent 1 (sample_new ''B'' []) 7 384, [None, Some (SqlxError ''disk I/O error'')]),
      (sample_env, CorrectEvent 1 (sample_new ''B'' []) 7 384, []),
      (sample_env, StatusEvent 1 Quarantined, [])]"

lemma sample_steps_cost: "sum_list (map step_cost sample_steps) = 3"
  by (simp add: sample_steps_def step_cost_def id_cost_def)

theorem writes_keep_invariant_witness:
  "distinct (tags_table (run_store empty_db sample_steps))"
  using writes_keep_invariant [of sample_steps] by (simp add: sample_steps_cost id_limit_def)

section \<open>All or nothing\<close>

text \<open>The state a call leaves is the one it found or the one it leaves without faults.\<close>

definition atomic :: "'a call \<Rightarrow> bool" where
  "atomic m \<longleftrightarrow> (\<forall>db fs. fst (snd (m db fs)) = db \<or> fst (snd (m db fs)) = fst (snd (m db [])))"

lemma atomic_return: "atomic (return_call a)"
  by (simp add: atomic_def return_call_def)

lemma atomic_transaction:
  assumes "fault_free (transaction m)"
  shows "atomic (transaction m)"
  unfolding atomic_def
proof (intro allI)
  fix db fs
  obtain r db' fs' where t: "transaction m db fs = (r, db', fs')" by (rule prod_cases3)
  then show "fst (snd (transaction m db fs)) = db \<or> fst (snd (transaction m db fs)) = fst (snd (transaction m db []))"
    using write_outcome [OF assms t] by auto
qed

lemma atomic_statement: "atomic (statement f)"
  by (auto simp: atomic_def statement_def seq_call_def bind_call_def exchange_def split: list.split option.split sum.split prod.split)

lemma atomic_post:
  assumes m: "atomic m" and f: "\<And>a db fs. fst (snd (f a db fs)) = db"
  shows "atomic (bind_call m f)"
proof -
  have "fst (snd (bind_call m f db fs)) = fst (snd (m db fs))" for db fs
    using f by (auto simp: bind_call_def split: prod.split reply.split)
  then show ?thesis using m by (simp add: atomic_def)
qed

lemma atomic_discard: "atomic m \<Longrightarrow> atomic (discard m)"
  unfolding discard_def by (rule atomic_post) (simp_all add: return_call_def)

lemma fault_free_usage:
  "fault_free (for_each (record_usage_of env b f) is)" "fault_free (for_each (\<lambda>i. update_row i g) is)"
  "fault_free (for_each (insert_vector_row w) ms)"
  unfolding record_usage_of_def recompute_confidence_def insert_vector_row_def Let_def by (intro fault_free_intros)+

lemmas atomic_intros = atomic_return atomic_transaction atomic_statement atomic_discard

lemma atomic_event:
  assumes "\<nexists>c is ph. ev = FeatureEvent c is ph"
  shows "atomic (event_call env ev)"
proof -
  have writes: "atomic (insert_entry env e)" "atomic (update_entry env r)" "atomic (update_status env i s)" "atomic (delete_entry i)"
    "atomic (add_tag env i t)" "atomic (remove_tag i t)" "atomic (replace_tag env pick i ns t)" for e r i s t pick ns
    using fault_free_writes unfolding insert_entry_def update_entry_def update_status_def delete_entry_def
      add_tag_def remove_tag_def replace_tag_def by (blast intro: atomic_transaction)+
  have correct: "atomic (correct_entry env i c d n)" for i c d n
    unfolding correct_entry_def supersede_original_def insert_correction_def Let_def
    by (rule atomic_post, rule atomic_transaction, intro fault_free_intros)
      (simp add: panic_call_def return_call_def split: prod.split)
  have extended: "atomic (update_entry_status_extended env i s m p)" for i s m p
    unfolding update_entry_status_extended_def seq_call_def [of "transaction _"]
    by (rule atomic_post, rule atomic_transaction, intro fault_free_intros) (rule get_entry_state)
  have usage: "atomic (record_usage_with_confidence env b f)" "atomic (increment_access_counts is n)"
    "atomic (rewrite_vector_map w ms)" for b f "is" n w ms
    unfolding record_usage_with_confidence_def increment_access_counts_def rewrite_vector_map_def
    by (auto intro!: atomic_intros fault_free_intros fault_free_usage)
  have confidence: "atomic (update_confidence i x)" for i x
    unfolding update_confidence_def update_row_counted_def
    by (rule atomic_post [OF atomic_statement]) (simp add: fail_call_def return_call_def)
  have single: "atomic (update_embedding_dim i n)" "atomic (put_vector_mapping i n)" "atomic (delete_vector_mapping i)"
    "atomic (insert_outcome_index_if_applicable i k c)" "atomic (insert_compaction_event k t h)" "atomic (cleanup_stale_co_access n)"
    for i n k c t h
    unfolding update_embedding_dim_def update_row_def put_vector_mapping_def delete_vector_mapping_def execute_call_def
      insert_outcome_index_if_applicable_def insert_compaction_event_def cleanup_stale_co_access_def
    by (simp_all add: atomic_intros)
  show ?thesis using assms
    by (cases ev) (simp_all add: event_call_def atomic_discard writes correct extended usage confidence single)
qed

text \<open>The recording of feature entries is a loop of statements: it stops at the first that fails.\<close>

lemma executes_prefix:
  "\<exists>k. fst (snd (for_each (\<lambda>x. execute_call (g x)) xs db faults)) =
       fst (snd (for_each (\<lambda>x. execute_call (g x)) (take k xs) db []))"
proof (induction xs arbitrary: db faults)
  case Nil
  then show ?case by (auto simp: return_call_def)
next
  case (Cons x xs)
  let ?run = "\<lambda>xs db faults. fst (snd (for_each (\<lambda>x. execute_call (g x)) xs db faults))"
  show ?case
  proof (cases "\<exists>e rest. faults = Some e # rest")
    case True
    then have "?run (x # xs) db faults = ?run (take 0 (x # xs)) db []"
      by (auto simp: seq_call_def bind_call_def execute_call_def statement_def exchange_def return_call_def)
    then show ?thesis by blast
  next
    case False
    then have "?run (x # xs) db faults = ?run xs (g x db) (tl faults)"
      by (auto simp: seq_call_def bind_call_def execute_call_def statement_def exchange_def split: list.split option.split)
    moreover obtain k where "?run xs (g x db) (tl faults) = ?run (take k xs) (g x db) []" using Cons.IH by blast
    moreover have "?run (take (Suc k) (x # xs)) db [] = ?run (take k xs) (g x db) []"
      by (simp add: seq_call_def bind_call_def execute_call_def statement_def exchange_def)
    ultimately show ?thesis by metis
  qed
qed

text \<open>
  C22. Every write but one is all or nothing: whichever of its statements the database lets
  fail, the tables afterwards are those before it or those the write leaves when nothing fails,
  never anything in between. The one that is not a transaction, the recording of feature
  entries, leaves the tables as the faultless recording of some first entries of its list would.
\<close>

theorem writes_all_or_nothing:
  "case ev of
     FeatureEvent cycle entry_ids phase \<Rightarrow>
       \<exists>k. fst (snd (event_call env ev db faults)) =
           fst (snd (event_call env (FeatureEvent cycle (take k entry_ids) phase) db []))
   | _ \<Rightarrow> fst (snd (event_call env ev db faults)) \<in> {db, fst (snd (event_call env ev db []))}"
proof (cases "\<exists>c is ph. ev = FeatureEvent c is ph")
  case True
  then show ?thesis using executes_prefix unfolding event_call_def record_feature_entries_def by auto
next
  case False
  then have "fst (snd (event_call env ev db faults)) \<in> {db, fst (snd (event_call env ev db []))}"
    using atomic_event [of ev env] by (auto simp: atomic_def)
  then show ?thesis using False by (cases ev) simp_all
qed

section \<open>Correction chains\<close>

lemma chained_stored_sound:
  assumes ok: "store_ok db" and ch: "chains_ok sha db"
    and es: "\<And>e. e \<in> set es \<longleftrightarrow> (\<exists>i row. hm_get (entries_table db) i = Some row \<and> e = stored_entry db i row)"
    and e: "e \<in> set es"
  shows "sound_entry sha es e" and "supersedes e = Some p \<Longrightarrow> p < eid e"
proof -
  obtain i row where row: "hm_get (entries_table db) i = Some row" "e = stored_entry db i row" using e es by blast
  have id: "eid row = i" by (rule row_id [OF ok row(1)])
  have c: "row_chained sha (hm_get (entries_table db)) i row" using ch row(1) unfolding chains_ok_def chained_def by blast
  show "supersedes e = Some p \<Longrightarrow> p < eid e" using c row(2) id by (simp add: row_chained_def)
  have "\<exists>p \<in> set es. supersedes e = Some (eid p) \<and> content_hash p = previous_hash e" if "previous_hash e \<noteq> []"
  proof (cases "supersedes row")
    case None
    then show ?thesis using c that row(2) by (simp add: row_chained_def)
  next
    case (Some p)
    then obtain q where q: "hm_get (entries_table db) p = Some q" "previous_hash row = content_hash q"
      using c by (auto simp: row_chained_def)
    then have "stored_entry db p q \<in> set es" using es by blast
    then show ?thesis using Some q row(2) row_id [OF ok q(1)] by (intro bexI [of _ "stored_entry db p q"]) simp_all
  qed
  then show "sound_entry sha es e" using c row(2) by (simp add: sound_entry_def row_chained_def)
qed

lemma older_predecessors_acyclic:
  assumes "\<And>e p. e \<in> set es \<Longrightarrow> supersedes e = Some p \<Longrightarrow> p < eid e"
  shows "acyclic (supersession es)"
  by (rule acyclicI_order [where f = "\<lambda>i. - int i"]) (use assms in \<open>auto simp: supersession_def\<close>)

text \<open>
  C20. A store that was filled by insertions, corrections, status changes and tag, usage,
  vector and index writes, in any order and with any faults (every write but the two that
  overwrite or delete whole rows) passes its own checks: reading all entries gives a corpus on
  which the hash-chain verifier reports no violation, on which the relation graph is built
  without a supersession cycle, so that the graph state is rebuilt and leaves its fallback,
  whatever the edge table holds; a first version has version 1, and every later one is one
  more than the entry it supersedes.
\<close>

theorem store_passes_its_checks:
  assumes "list_all (chain_step sha) steps" and "sum_list (map step_cost steps) \<le> id_limit" and "any_order scan"
    and "petgraph_ok pg" and "petgraph_ok pt"
  shows "\<exists>es g. fst (query_all_entries scan (run_store empty_db steps) []) = Replied es \<and>
    is_clean (verify_entries sha es) \<and>
    rebuild pg pt (Inr es) (Inr edges) = Some (Inr g) \<and> \<not> use_fallback g \<and>
    (\<forall>e \<in> set es. case supersedes e of None \<Rightarrow> version e = 1
       | Some p \<Rightarrow> \<exists>q \<in> set es. eid q = p \<and> p < eid e \<and> version e = version q + 1 \<and> previous_hash e = content_hash q)"
proof -
  define db where "db = run_store empty_db steps"
  have z: "last_id empty_db = 0" by (simp add: last_id_def counter_value_def empty_db_def)
  have ok: "store_ok db" and ch: "chains_ok sha db"
    using run_store_chained [OF store_ok_empty chains_ok_empty assms(1)] assms(2) by (simp_all add: db_def z)
  obtain es where es: "query_all_entries scan db [] = (Replied es, db, [])" "distinct (map eid es)"
    "\<And>e. e \<in> set es \<longleftrightarrow> (\<exists>i row. hm_get (entries_table db) i = Some row \<and> e = stored_entry db i row)"
    using select_exact [OF ok assms(3), of "\<lambda>db e. True"] unfolding query_all_entries_def by auto
  note sound = chained_stored_sound [OF ok ch es(3)]
  have clean: "is_clean (verify_entries sha es)" using clean_iff_sound [OF es(2)] sound(1) by blast
  let ?live = "filter (\<lambda>e. status e \<noteq> Quarantined) es"
  have "acyclic (supersession ?live)" by (rule older_predecessors_acyclic) (use sound(2) in auto)
  moreover have "distinct (map eid ?live)" using es(2) by (simp add: distinct_map_filter)
  ultimately obtain graph where "build_typed_relation_graph pg pt ?live edges = Some (Inr graph)"
    using build_graph [OF assms(4,5), of ?live edges] by auto
  then have g: "rebuild pg pt (Inr es) (Inr edges) = Some (Inr \<lparr>typed_graph = graph, all_entries = ?live, use_fallback = False\<rparr>)"
    by (simp add: rebuild_def)
  have "case supersedes e of None \<Rightarrow> version e = 1
       | Some p \<Rightarrow> \<exists>q \<in> set es. eid q = p \<and> p < eid e \<and> version e = version q + 1 \<and> previous_hash e = content_hash q"
    if "e \<in> set es" for e
  proof -
    obtain i row where row: "hm_get (entries_table db) i = Some row" "e = stored_entry db i row" using \<open>e \<in> set es\<close> es(3) by blast
    have chained: "row_chained sha (hm_get (entries_table db)) j r" if "hm_get (entries_table db) j = Some r" for j r
      using ch that unfolding chains_ok_def chained_def by blast
    have ver: "version (stored_entry db j r) = version r" if "hm_get (entries_table db) j = Some r" for j r
      using chained [OF that] by (simp add: row_chained_def u32_max_def)
    show ?thesis
    proof (cases "supersedes row")
      case None
      then show ?thesis using chained [OF row(1)] ver [OF row(1)] row(2) by (simp add: row_chained_def)
    next
      case (Some p)
      then obtain q where q: "hm_get (entries_table db) p = Some q" "p < i" "previous_hash row = content_hash q" "version row = version q + 1"
        using chained [OF row(1)] by (auto simp: row_chained_def)
      have "stored_entry db p q \<in> set es" using q(1) es(3) by blast
      then show ?thesis using q row ver [OF row(1)] ver [OF q(1)] row_id [OF ok q(1)] row_id [OF ok row(1)] Some
        by (auto intro!: bexI [of _ "stored_entry db p q"])
    qed
  qed
  then show ?thesis using es(1) clean g unfolding db_def by auto
qed

theorem store_passes_its_checks_witness:
  "\<exists>es g. fst (query_all_entries rev (run_store empty_db sample_steps) []) = Replied es \<and>
    is_clean (verify_entries (env_sha sample_env) es) \<and>
    rebuild list_petgraph list_petgraph (Inr es) (Inr []) = Some (Inr g) \<and> \<not> use_fallback g"
proof -
  have steps: "list_all (chain_step (env_sha sample_env)) sample_steps"
    by (simp add: sample_steps_def chain_step_def chain_event_def)
  have cost: "sum_list (map step_cost sample_steps) \<le> id_limit" by (simp add: sample_steps_cost id_limit_def)
  have order: "any_order (rev :: entry_record list \<Rightarrow> _)" by (simp add: any_order_def)
  show ?thesis
    using store_passes_its_checks [OF steps cost order list_petgraph_ok list_petgraph_ok, of "[]"] by blast
qed

end
