(* ===== verification/Store_Query_Props.thy ===== *)
theory Store_Query_Props
  imports Store_Props
begin

text \<open>
  Properties of the store's reads and of the tag replacement: what a combined query answers,
  that it is the intersection of the single queries, and which tags a namespace covers.
\<close>

section \<open>Combined queries\<close>

text \<open>
  The entries a filter asks for, as they are read. A reversed time range and an empty list of
  tags are no conditions; without any condition the active entries are meant.
\<close>

definition no_condition :: "query_filter \<Rightarrow> bool" where
  "no_condition f \<longleftrightarrow> filter_topic f = None \<and> filter_category f = None \<and> filter_status f = None \<and>
     (filter_tags f = None \<or> filter_tags f = Some []) \<and> (\<forall>r. filter_time_range f = Some r \<longrightarrow> range_end r < range_start r)"

definition matches_filter :: "query_filter \<Rightarrow> entry_record \<Rightarrow> bool" where
  "matches_filter f e \<longleftrightarrow>
     (\<forall>t. filter_topic f = Some t \<longrightarrow> topic e = t) \<and> (\<forall>c. filter_category f = Some c \<longrightarrow> category e = c) \<and>
     (\<forall>s. filter_status f = Some s \<longrightarrow> status e = s) \<and>
     (\<forall>r. filter_time_range f = Some r \<and> range_start r \<le> range_end r \<longrightarrow> range_start r \<le> created_at e \<and> created_at e \<le> range_end r) \<and>
     (\<forall>ts. filter_tags f = Some ts \<and> ts \<noteq> [] \<longrightarrow> distinct ts \<and> set ts \<subseteq> set (tags e)) \<and>
     (no_condition f \<longrightarrow> status e = Active)"

lemma stored_entry_more [simp]:
  "topic (stored_entry db i row) = topic row" "category (stored_entry db i row) = category row"
  "created_at (stored_entry db i row) = created_at row" "set (tags (stored_entry db i row)) = set (tags_of db i)"
  using mset_eq_setD [OF sort_by_mset] by (simp_all add: stored_entry_def entry_from_row_def)

lemma where_clause_iff: "where_clause cs db e \<longleftrightarrow> (cs = [] \<longrightarrow> status e = Active) \<and> list_all (\<lambda>c. c db e) cs"
  by (cases cs) (simp_all add: where_clause_def)

lemma no_condition_iff: "query_conditions f = [] \<longleftrightarrow> no_condition f \<and> \<not> filter_is_empty f"
  by (auto simp: query_conditions_def no_condition_def effective_status_def filter_is_empty_def split: option.splits if_splits)

lemma where_matches:
  assumes "eid row = i" and "\<And>r. filter_time_range f = Some r \<Longrightarrow> range_end r < 2 ^ 63"
  shows "where_clause (query_conditions f) db row \<longleftrightarrow> matches_filter f (stored_entry db i row)"
proof -
  have l: "list_all (\<lambda>c. c db row) (query_conditions f) \<longleftrightarrow>
     (\<forall>t. filter_topic f = Some t \<longrightarrow> topic row = t) \<and> (\<forall>c. filter_category f = Some c \<longrightarrow> category row = c) \<and>
     (\<forall>s. effective_status f = Some s \<longrightarrow> status row = s) \<and>
     (\<forall>r. filter_time_range f = Some r \<and> range_start r \<le> range_end r \<longrightarrow> created_within r db row) \<and>
     (\<forall>ts. filter_tags f = Some ts \<and> ts \<noteq> [] \<longrightarrow> tags_are ts db row)"
    unfolding query_conditions_def list_all_append
    by (intro arg_cong2 [where f = conj])
      (simp_all add: topic_is_def category_is_def status_is_def split: option.split)
  have s: "(\<forall>s. effective_status f = Some s \<longrightarrow> status row = s) \<and> (query_conditions f = [] \<longrightarrow> status row = Active) \<longleftrightarrow>
      (\<forall>s. filter_status f = Some s \<longrightarrow> status row = s) \<and> (no_condition f \<longrightarrow> status row = Active)"
    unfolding no_condition_iff by (auto simp: effective_status_def filter_is_empty_def no_condition_def)
  have r: "(\<forall>r. filter_time_range f = Some r \<and> range_start r \<le> range_end r \<longrightarrow> created_within r db row) \<longleftrightarrow>
      (\<forall>r. filter_time_range f = Some r \<and> range_start r \<le> range_end r \<longrightarrow> range_start r \<le> created_at row \<and> created_at row \<le> range_end r)"
    using assms(2) created_within_iff by blast
  have t: "(\<forall>ts. filter_tags f = Some ts \<and> ts \<noteq> [] \<longrightarrow> tags_are ts db row) \<longleftrightarrow>
      (\<forall>ts. filter_tags f = Some ts \<and> ts \<noteq> [] \<longrightarrow> distinct ts \<and> set ts \<subseteq> set (tags_of db i))"
    unfolding tags_are_iff assms(1) by blast
  show ?thesis
    unfolding where_clause_iff l r t matches_filter_def stored_entry_more stored_entry_simps using s by blast
qed

lemma reads_iff: "fst (get_entry i db []) = Replied e \<longleftrightarrow> (\<exists>row. hm_get (entries_table db) i = Some row \<and> e = stored_entry db i row)"
  by (auto simp: calm_get_iff split: option.split)

text \<open>
  What a combined query answers, whatever the filter: a list of tags that names a tag twice is
  never met, and a reversed time range and an empty list of tags are not conditions.
\<close>

lemma query_answers:
  assumes "store_ok db" and "any_order scan" and "\<And>r. filter_time_range f = Some r \<Longrightarrow> range_end r < 2 ^ 63"
  shows "\<exists>es. query scan f db [] = (Replied es, db, []) \<and> distinct (map eid es) \<and>
    (\<forall>e. e \<in> set es \<longleftrightarrow> fst (get_entry (eid e) db []) = Replied e \<and> matches_filter f e)"
proof -
  obtain es where es: "query scan f db [] = (Replied es, db, [])" "distinct (map eid es)"
    "\<And>e. e \<in> set es \<longleftrightarrow> (\<exists>i row. hm_get (entries_table db) i = Some row \<and> where_clause (query_conditions f) db row \<and> e = stored_entry db i row)"
    using select_exact [OF assms(1,2)] unfolding query_def by metis
  have "e \<in> set es \<longleftrightarrow> fst (get_entry (eid e) db []) = Replied e \<and> matches_filter f e" for e
  proof -
    have "where_clause (query_conditions f) db row \<longleftrightarrow> matches_filter f (stored_entry db i row)"
      if "hm_get (entries_table db) i = Some row" for i row
      by (rule where_matches [OF row_id [OF assms(1) that] assms(3)])
    then have "e \<in> set es \<longleftrightarrow> (\<exists>i row. hm_get (entries_table db) i = Some row \<and> e = stored_entry db i row) \<and> matches_filter f e"
      unfolding es(3) by blast
    then show ?thesis unfolding reads_iff using row_id [OF assms(1)] by auto
  qed
  then show ?thesis using es(1,2) by blast
qed

definition tag_filter :: "string list \<Rightarrow> query_filter" where
  "tag_filter ts = \<lparr>filter_topic = Some ''top'', filter_category = None, filter_tags = Some ts, filter_status = Some Active,
     filter_time_range = Some \<lparr>range_start = 1, range_end = 9\<rparr>\<rparr>"

text \<open>The single queries a filter stands for.\<close>

definition single_queries :: "(entry_record list \<Rightarrow> entry_record list) \<Rightarrow> query_filter \<Rightarrow> entry_record list call list" where
  "single_queries scan f =
     (case filter_topic f of Some t \<Rightarrow> [query_by_topic scan t] | None \<Rightarrow> []) @
     (case filter_category f of Some c \<Rightarrow> [query_by_category scan c] | None \<Rightarrow> []) @
     (case filter_status f of Some s \<Rightarrow> [query_by_status scan s] | None \<Rightarrow> []) @
     (case filter_time_range f of Some r \<Rightarrow> [query_by_time_range scan r] | None \<Rightarrow> []) @
     (case filter_tags f of Some ts \<Rightarrow> [query_by_tags scan ts] | None \<Rightarrow> [])"

definition answers :: "entry_record list call \<Rightarrow> store_db \<Rightarrow> entry_record \<Rightarrow> bool" where
  "answers q db e \<longleftrightarrow> (\<exists>es. fst (q db []) = Replied es \<and> e \<in> set es)"

lemma answers_select:
  assumes "store_ok db" and "any_order scan"
  shows "answers (select_entries scan cond) db e \<longleftrightarrow>
    (\<exists>i row. hm_get (entries_table db) i = Some row \<and> cond db row \<and> e = stored_entry db i row)"
proof -
  obtain es where "select_entries scan cond db [] = (Replied es, db, [])" "distinct (map eid es)"
    "\<And>e. e \<in> set es \<longleftrightarrow> (\<exists>i row. hm_get (entries_table db) i = Some row \<and> cond db row \<and> e = stored_entry db i row)"
    by (rule select_exact [OF assms, of cond]) (use that in blast)
  then show ?thesis by (simp add: answers_def)
qed

lemma answers_single:
  assumes "store_ok db" and "any_order scan" and "\<not> filter_is_empty f"
    and "filter_tags f \<noteq> Some []" and "\<And>r. filter_time_range f = Some r \<Longrightarrow> range_start r \<le> range_end r"
  shows "(\<forall>q \<in> set (single_queries scan f). answers q db e) \<longleftrightarrow>
    (\<forall>cond \<in> set (query_conditions f). answers (select_entries scan cond) db e)"
proof -
  have r: "\<not> range_end r < range_start r" if "filter_time_range f = Some r" for r using assms(5) [OF that] by simp
  have "effective_status f = filter_status f" using assms(3) by (simp add: effective_status_def)
  then have "single_queries scan f = map (select_entries scan) (query_conditions f)"
    unfolding single_queries_def query_conditions_def map_append using assms(4,5) r
    by (intro arg_cong2 [where f = append])
      (simp_all add: query_by_topic_def query_by_category_def query_by_status_def query_by_time_range_def query_by_tags_def split: option.split)
  then show ?thesis by simp
qed

text \<open>
  Where the filter has a condition, no empty list of tags and no reversed time range, a
  combined query answers the intersection of the single queries it stands for.
\<close>

theorem query_is_intersection:
  assumes "store_ok db" and "any_order scan" and "\<not> filter_is_empty f"
    and "filter_tags f \<noteq> Some []" and "\<And>r. filter_time_range f = Some r \<Longrightarrow> range_start r \<le> range_end r"
  shows "answers (query scan f) db e \<longleftrightarrow> (\<forall>q \<in> set (single_queries scan f). answers q db e)"
proof -
  have some: "query_conditions f \<noteq> []"
  proof
    assume "query_conditions f = []"
    then have n: "no_condition f" by (simp add: no_condition_iff)
    have "filter_time_range f = None"
    proof (cases "filter_time_range f")
      case (Some r)
      then show ?thesis using n assms(5) [OF Some] by (simp add: no_condition_def)
    qed
    then show False using n assms(3,4) by (simp add: no_condition_def filter_is_empty_def)
  qed
  have "answers (query scan f) db e \<longleftrightarrow> (\<exists>i row. hm_get (entries_table db) i = Some row \<and>
      (\<forall>cond \<in> set (query_conditions f). cond db row) \<and> e = stored_entry db i row)"
    unfolding query_def answers_select [OF assms(1,2)] where_clause_iff using some by (simp add: list_all_iff)
  also have "\<dots> \<longleftrightarrow> (\<forall>cond \<in> set (query_conditions f). answers (select_entries scan cond) db e)"
  proof -
    have same: "i = j \<and> row = row'"
      if "hm_get (entries_table db) i = Some row" "hm_get (entries_table db) j = Some row'" "stored_entry db i row = stored_entry db j row'"
      for i j row row'
    proof -
      have "eid row = eid row'" using that(3) by (metis stored_entry_simps(1))
      then have "i = j" using row_id [OF assms(1) that(1)] row_id [OF assms(1) that(2)] by simp
      then show ?thesis using that(1,2) by simp
    qed
    obtain c where c: "c \<in> set (query_conditions f)" using some by (cases "query_conditions f") auto
    show ?thesis unfolding answers_select [OF assms(1,2)]
    proof
      assume all: "\<forall>cond \<in> set (query_conditions f). \<exists>i row. hm_get (entries_table db) i = Some row \<and> cond db row \<and> e = stored_entry db i row"
      with c obtain i row where row: "hm_get (entries_table db) i = Some row" "e = stored_entry db i row" by blast
      have "cond db row" if "cond \<in> set (query_conditions f)" for cond
        using all that same [OF row(1)] row(2) by blast
      then show "\<exists>i row. hm_get (entries_table db) i = Some row \<and> (\<forall>cond \<in> set (query_conditions f). cond db row) \<and> e = stored_entry db i row"
        using row by blast
    qed blast
  qed
  finally show ?thesis using answers_single [OF assms, of e] by (simp only:)
qed

theorem query_is_intersection_witness:
  "\<forall>e. answers (query rev (tag_filter [''x''])) sample_db e \<longleftrightarrow>
   answers (query_by_topic rev ''top'') sample_db e \<and> answers (query_by_status rev Active) sample_db e \<and>
   answers (query_by_time_range rev \<lparr>range_start = 1, range_end = 9\<rparr>) sample_db e \<and> answers (query_by_tags rev [''x'']) sample_db e"
proof
  fix e
  show "answers (query rev (tag_filter [''x''])) sample_db e \<longleftrightarrow>
    answers (query_by_topic rev ''top'') sample_db e \<and> answers (query_by_status rev Active) sample_db e \<and>
    answers (query_by_time_range rev \<lparr>range_start = 1, range_end = 9\<rparr>) sample_db e \<and> answers (query_by_tags rev [''x'']) sample_db e"
    using query_is_intersection [OF sample_db_ok, of rev "tag_filter [''x'']" e]
    by (auto simp: any_order_def tag_filter_def filter_is_empty_def single_queries_def)
qed

text \<open>The entries a filter asks for: every condition holds; a filter without conditions asks for the active entries.\<close>

definition asks_for :: "query_filter \<Rightarrow> entry_record \<Rightarrow> bool" where
  "asks_for f e \<longleftrightarrow>
     (\<forall>t. filter_topic f = Some t \<longrightarrow> topic e = t) \<and> (\<forall>c. filter_category f = Some c \<longrightarrow> category e = c) \<and>
     (\<forall>s. filter_status f = Some s \<longrightarrow> status e = s) \<and>
     (\<forall>r. filter_time_range f = Some r \<longrightarrow> range_start r \<le> created_at e \<and> created_at e \<le> range_end r) \<and>
     (\<forall>ts. filter_tags f = Some ts \<longrightarrow> set ts \<subseteq> set (tags e)) \<and> (filter_is_empty f \<longrightarrow> status e = Active)"

lemma asks_matches:
  assumes "\<And>r. filter_time_range f = Some r \<Longrightarrow> range_start r \<le> range_end r \<and> range_end r < 2 ^ 63"
    and "\<And>ts. filter_tags f = Some ts \<Longrightarrow> ts \<noteq> [] \<and> distinct ts"
  shows "matches_filter f e \<longleftrightarrow> asks_for f e"
proof -
  have "filter_tags f \<noteq> Some []" and "(\<forall>r. filter_time_range f = Some r \<longrightarrow> range_end r < range_start r) \<longleftrightarrow> filter_time_range f = None"
    using assms by (auto simp: not_less split: option.split) (metis leD option.exhaust)
  then have "no_condition f \<longleftrightarrow> filter_is_empty f" by (auto simp: no_condition_def filter_is_empty_def)
  moreover have "(\<forall>r. filter_time_range f = Some r \<and> range_start r \<le> range_end r \<longrightarrow> range_start r \<le> created_at e \<and> created_at e \<le> range_end r) \<longleftrightarrow>
      (\<forall>r. filter_time_range f = Some r \<longrightarrow> range_start r \<le> created_at e \<and> created_at e \<le> range_end r)"
    using assms(1) by blast
  moreover have "(\<forall>ts. filter_tags f = Some ts \<and> ts \<noteq> [] \<longrightarrow> distinct ts \<and> set ts \<subseteq> set (tags e)) \<longleftrightarrow>
      (\<forall>ts. filter_tags f = Some ts \<longrightarrow> set ts \<subseteq> set (tags e))"
    using assms(2) by blast
  ultimately show ?thesis unfolding matches_filter_def asks_for_def by (simp only:)
qed

text \<open>
  C27. A combined query whose time range is not reversed and ends before 2 ^ 63, and whose list of
  tags, if it has one, is not empty and names each tag once, answers exactly the entries that a read by id shows with
  the topic, category, status, creation time and all the tags the filter asks for, each once; a
  filter without conditions asks for the active entries, and any other answer is the
  intersection of what the single queries of its conditions answer.
\<close>

theorem query_exact:
  assumes "store_ok db" and "any_order scan"
    and "\<And>r. filter_time_range f = Some r \<Longrightarrow> range_start r \<le> range_end r \<and> range_end r < 2 ^ 63"
    and "\<And>ts. filter_tags f = Some ts \<Longrightarrow> ts \<noteq> [] \<and> distinct ts"
  shows "\<exists>es. query scan f db [] = (Replied es, db, []) \<and> distinct (map eid es) \<and>
    (\<forall>e. e \<in> set es \<longleftrightarrow> fst (get_entry (eid e) db []) = Replied e \<and> asks_for f e) \<and>
    (\<not> filter_is_empty f \<longrightarrow> (\<forall>e. e \<in> set es \<longleftrightarrow> (\<forall>q \<in> set (single_queries scan f). answers q db e)))"
proof -
  obtain es where es: "query scan f db [] = (Replied es, db, [])" "distinct (map eid es)"
    "\<forall>e. e \<in> set es \<longleftrightarrow> fst (get_entry (eid e) db []) = Replied e \<and> matches_filter f e"
    using query_answers [OF assms(1,2), of f] assms(3) by blast
  have "e \<in> set es \<longleftrightarrow> (\<forall>q \<in> set (single_queries scan f). answers q db e)" if "\<not> filter_is_empty f" for e
    using query_is_intersection [OF assms(1,2) that, of e] assms(3,4) es(1) by (fastforce simp: answers_def)
  moreover have "matches_filter f e \<longleftrightarrow> asks_for f e" for e by (rule asks_matches [OF assms(3,4)])
  ultimately show ?thesis using es by auto
qed

theorem query_exact_witness:
  "\<exists>es. query rev (tag_filter [''x'']) sample_db [] = (Replied es, sample_db, []) \<and> distinct (map eid es)"
  using query_exact [of sample_db rev "tag_filter [''x'']"] sample_db_ok by (auto simp: any_order_def tag_filter_def)

section \<open>Replacing a tag\<close>

text \<open>The tags of a namespace: up to the case of ASCII letters, the namespace and a colon come first.\<close>

definition in_namespace :: "string \<Rightarrow> string \<Rightarrow> bool" where
  "in_namespace namespace t \<longleftrightarrow>
     map fold_case (take (length namespace) t) = map fold_case namespace \<and>
     (case drop (length namespace) t of [] \<Rightarrow> False | c # rest \<Rightarrow> c = CHR '':'')"

definition escape_char :: "char \<Rightarrow> string" where
  "escape_char c = (if c = CHR 0x5C \<or> c = CHR ''%'' \<or> c = CHR ''_'' then [CHR 0x5C, c] else [c])"

lemma replace_char_simps:
  "replace_char c r [] = []" "replace_char c r (x # s) = (if x = c then r else [x]) @ replace_char c r s"
  "replace_char c r (s @ t) = replace_char c r s @ replace_char c r t"
  by (simp_all add: replace_char_def)

lemma like_escape_simps: "like_escape [] = []" "like_escape (c # s) = escape_char c @ like_escape s"
  by (auto simp: like_escape_def replace_char_simps escape_char_def)

lemma like_escaped:
  "like (like_escape ns @ p) s \<longleftrightarrow>
     length ns \<le> length s \<and> map fold_case (take (length ns) s) = map fold_case ns \<and> like p (drop (length ns) s)"
proof (induction ns arbitrary: s)
  case (Cons c ns)
  show ?case by (cases s) (auto simp: like_escape_simps escape_char_def Cons.IH)
qed (simp add: like_escape_simps)

lemma fold_case_colon: "fold_case c = fold_case (CHR '':'') \<longleftrightarrow> c = CHR '':''"
proof
  assume a: "fold_case c = fold_case (CHR '':'')"
  have r: "fold_case (CHR '':'') = CHR '':''" by (simp add: fold_case_def)
  show "c = CHR '':''"
  proof (cases "0x41 \<le> (of_char c :: nat) \<and> (of_char c :: nat) \<le> 0x5A")
    case True
    then have "(of_char (fold_case c) :: nat) = of_char c + 32" by (simp add: fold_case_def Let_def)
    then show ?thesis using a r True by simp
  next
    case False
    then show ?thesis using a r by (simp add: fold_case_def Let_def split: if_splits)
  qed
qed simp

lemma like_rest: "like '':%'' s \<longleftrightarrow> (case s of [] \<Rightarrow> False | c # rest \<Rightarrow> c = CHR '':'')"
proof (cases s)
  case (Cons c t)
  have "like [] (drop (length t) t)" by simp
  then have "\<exists>n \<in> set [0..<Suc (length t)]. like [] (drop n t)" by (intro bexI [of _ "length t"]) simp_all
  then show ?thesis using fold_case_colon [of c] unfolding Cons by simp
qed simp

lemma like_namespace: "like (namespace_pattern ns) t \<longleftrightarrow> in_namespace ns t"
proof -
  have "length ns \<le> length t" if "map fold_case (take (length ns) t) = map fold_case ns"
    using map_eq_imp_length_eq [OF that] by simp
  then show ?thesis unfolding namespace_pattern_def in_namespace_def like_escaped like_rest by blast
qed

lemma calm_insert_or_ignore [calm_simps]:
  "(i, t) \<in> set (tags_table db) \<Longrightarrow> insert_tag_or_ignore env i t db [] = (Replied (), db, [])"
  "(i, t) \<notin> set (tags_table db) \<Longrightarrow> hm_get (entries_table db) i \<noteq> None \<Longrightarrow>
   insert_tag_or_ignore env i t db [] = (Replied (), db\<lparr>tags_table := tags_table db @ [(i, t)]\<rparr>, [])"
  "(i, t) \<notin> set (tags_table db) \<Longrightarrow> hm_get (entries_table db) i = None \<Longrightarrow>
   insert_tag_or_ignore env i t db [] = (Failed (Database (env_violation env EntryTagForeignKey)), db, [])"
  by (simp_all add: insert_tag_or_ignore_def calm_simps)

text \<open>The tables without an entry's tags of a namespace.\<close>

definition evicted :: "nat \<Rightarrow> string \<Rightarrow> store_db \<Rightarrow> store_db" where
  "evicted i ns db = db\<lparr>tags_table := filter (\<lambda>row. \<not> (fst row = i \<and> in_namespace ns (snd row))) (tags_table db)\<rparr>"

lemma evicted_simps [simp]:
  "entries_table (evicted i ns db) = entries_table db"
  "(j, s) \<in> set (tags_table (evicted i ns db)) \<longleftrightarrow> (j, s) \<in> set (tags_table db) \<and> \<not> (j = i \<and> in_namespace ns s)"
  "tags_of (evicted i ns db) j = (if j = i then filter (\<lambda>s. \<not> in_namespace ns s) (tags_of db i) else tags_of db j)"
  by (auto simp: evicted_def tags_of_def filter_map comp_def intro!: arg_cong [where f = "map snd"] filter_cong)

lemma calm_replace_tag:
  assumes "ns \<noteq> []"
  shows "replace_tag env pick i ns t db [] =
    (let old = filter (in_namespace ns) (tags_of db i); prior = (if old = [] then None else Some (pick old)) in
     case insert_tag_or_ignore env i t (evicted i ns db) [] of
       (Replied u, db', fs) \<Rightarrow> (Replied prior, db', []) | (Failed e, db', fs) \<Rightarrow> (Failed e, db, []) | (Panicked, db', fs) \<Rightarrow> (Panicked, db, []))"
proof -
  have old: "map snd (filter (\<lambda>row :: nat \<times> string. fst row = i \<and> in_namespace ns (snd row)) (tags_table db)) =
      filter (in_namespace ns) (tags_of db i)"
    by (simp add: tags_of_def filter_map comp_def conj_commute)
  let ?d = "evicted i ns db" and ?old = "filter (in_namespace ns) (tags_of db i)"
  let ?prior = "if ?old = [] then None else Some (pick ?old)"
  define evict where "evict = bind_call (query_call (\<lambda>db. let found = map snd (filter (\<lambda>row :: nat \<times> string. fst row = i \<and> in_namespace ns (snd row)) (tags_table db))
      in if found = [] then None else Some (pick found)))
    (\<lambda>prior. seq_call (execute_call (evicted i ns)) (return_call prior))"
  have call: "replace_tag env pick i ns t = transaction (bind_call evict (\<lambda>prior. seq_call (insert_tag_or_ignore env i t) (return_call prior)))"
    using assms by (simp add: replace_tag_def like_namespace evict_def evicted_def [abs_def] Let_def)
  have evict: "evict db [] = (Replied ?prior, ?d, [])"
    unfolding evict_def by (simp only: calm_simps old Let_def)
  consider "insert_tag_or_ignore env i t ?d [] = (Replied (), ?d, [])"
    | db' where "insert_tag_or_ignore env i t ?d [] = (Replied (), db', [])"
    | e where "insert_tag_or_ignore env i t ?d [] = (Failed e, ?d, [])"
    using calm_insert_or_ignore [where db = ?d and i = i and t = t and env = env] by metis
  then show ?thesis by cases (simp_all add: call evict calm_simps Let_def)
qed

text \<open>
  Replacing the tag of a namespace of an existing entry succeeds and leaves it with the new
  tag and its tags outside the namespace; it returns one of the evicted tags, or nothing if
  there were none, and no other entry changes. The namespace covers a tag if the namespace
  followed by a colon starts it, letters compared without case: percent signs, underscores and
  backslashes of the namespace stand for themselves. For an unknown entry the call fails with
  the engine's foreign-key message and changes nothing.
\<close>

theorem replace_tag_exact:
  assumes "store_ok db" and "ns \<noteq> []" and "\<And>xs. xs \<noteq> [] \<Longrightarrow> pick xs \<in> set xs"
  shows "case fst (get_entry i db []) of
      Replied e \<Rightarrow>
        (let old = {s \<in> set (tags e). in_namespace ns s} in
         \<exists>prior db' ts. replace_tag env pick i ns t db [] = (Replied prior, db', []) \<and> store_ok db' \<and>
           fst (get_entry i db' []) = Replied (e\<lparr>tags := ts\<rparr>) \<and> distinct ts \<and> set ts = insert t (set (tags e) - old) \<and>
           (case prior of None \<Rightarrow> old = {} | Some s \<Rightarrow> s \<in> old) \<and>
           (\<forall>j. j \<noteq> i \<longrightarrow> fst (get_entry j db' []) = fst (get_entry j db [])))
    | _ \<Rightarrow> replace_tag env pick i ns t db [] = (Failed (Database (env_violation env EntryTagForeignKey)), db, [])"
proof (cases "hm_get (entries_table db) i")
  case None
  then have "(i, t) \<notin> set (tags_table (evicted i ns db))" using fresh_tags [OF assms(1)] by simp
  then show ?thesis using None by (simp add: calm_get_iff calm_replace_tag [OF assms(2)] calm_simps)
next
  case (Some row)
  let ?e = "stored_entry db i row" and ?d = "evicted i ns db"
  let ?new = "if (i, t) \<in> set (tags_table ?d) then [] else [(i, t)]"
  let ?db = "?d\<lparr>tags_table := tags_table ?d @ ?new\<rparr>"
  let ?old = "filter (in_namespace ns) (tags_of db i)"
  have call: "replace_tag env pick i ns t db [] = (Replied (if ?old = [] then None else Some (pick ?old)), ?db, [])"
    using Some by (simp add: calm_replace_tag [OF assms(2)] calm_simps Let_def)
  have dist: "distinct (tags_table ?d @ ?new)" using assms(1) by (simp add: store_ok_def tags_ok_def evicted_def)
  have "store_ok (db\<lparr>tags_table := tags_table ?d @ ?new\<rparr>)"
  proof (rule store_ok_tags [OF assms(1) dist])
    show "fst ` set (tags_table ?d @ ?new) \<subseteq> dom (hm_get (entries_table db))"
      using assms(1) Some by (auto simp: store_ok_def tags_ok_def evicted_def)
  qed
  then have ok: "store_ok ?db" by (simp add: evicted_def)
  let ?ts = "sort_by bytes_le (tags_of ?db i)"
  have e: "fst (get_entry i ?db []) = Replied (?e\<lparr>tags := ?ts\<rparr>)" using Some by (simp add: calm_get_iff stored_entry_def)
  have tags: "tags_of ?db j = tags_of ?d j @ map snd (filter (\<lambda>r. fst r = j) ?new)" for j by (simp add: tags_of_def)
  have ts: "set ?ts = insert t (set (tags ?e) - {s \<in> set (tags ?e). in_namespace ns s})"
    unfolding mset_eq_setD [OF sort_by_mset] tags by (auto simp: tags_of_def evicted_def intro: rev_image_eqI)
  have "distinct (tags_of ?db i)"
    using dist unfolding tags_of_def by (auto simp: distinct_map inj_on_def intro: prod_eqI)
  then have d: "distinct ?ts" using mset_eq_imp_distinct_iff [OF sort_by_mset] by blast
  have others: "fst (get_entry j ?db []) = fst (get_entry j db [])" if "j \<noteq> i" for j
    by (rule get_entry_same) (use that tags in simp_all)
  have prior: "case (if ?old = [] then None else Some (pick ?old)) of None \<Rightarrow> {s \<in> set (tags ?e). in_namespace ns s} = {}
      | Some s \<Rightarrow> s \<in> {s \<in> set (tags ?e). in_namespace ns s}"
    using assms(3) [of ?old] by (auto simp: filter_empty_conv)
  show ?thesis using call ok e d ts prior others Some by (auto simp: calm_get_iff Let_def)
qed

text \<open>A namespace evicts the tags of another that differs from it in case only.\<close>

definition tagged_db :: store_db where
  "tagged_db = fst (snd (insert_entry sample_env (sample_new ''A'' [''team:x'', ''Status:open'', ''st:z'']) empty_db []))"

lemma tagged_db_facts:
  shows tagged_db_ok: "store_ok tagged_db"
    and tagged_db_get: "\<exists>e. fst (get_entry 1 tagged_db []) = Replied e \<and> set (tags e) = {''team:x'', ''Status:open'', ''st:z''}"
proof -
  let ?new = "sample_new ''A'' [''team:x'', ''Status:open'', ''st:z'']"
  have d: "distinct (ne_tags ?new)" by (simp add: sample_new_def)
  have z: "last_id empty_db = 0" by (simp add: last_id_def counter_value_def empty_db_def)
  have s: "set (sort_by bytes_le (ne_tags ?new)) = {''team:x'', ''Status:open'', ''st:z''}"
    and n: "set (ne_tags ?new) = {''team:x'', ''Status:open'', ''st:z''}"
    unfolding mset_eq_setD [OF sort_by_mset] by (auto simp: sample_new_def)
  have "last_id empty_db < id_limit" by (simp add: z id_limit_def)
  from insert_entry_calm [OF store_ok_empty below_limit [OF this], of sample_env ?new]
  have e: "tagged_db = added (inserted_row sample_env 1 ?new) (ne_tags ?new) (allocated empty_db)"
    using d by (simp add: tagged_db_def z)
  have r: "eid (inserted_row sample_env 1 ?new) = Suc (last_id empty_db)" by (simp add: inserted_row_def z)
  show "store_ok tagged_db" using store_ok_inserted [OF store_ok_empty d r] by (simp add: e)
  have "tags_of tagged_db 1 = ne_tags ?new" using r by (simp add: e z tags_of_added) (simp add: tags_of_def empty_db_def)
  then show "\<exists>e. fst (get_entry 1 tagged_db []) = Replied e \<and> set (tags e) = {''team:x'', ''Status:open'', ''st:z''}"
    using n r by (simp add: calm_get_iff) (simp add: e z)
qed

theorem replace_tag_exact_witness:
  "\<exists>prior db' e. replace_tag sample_env hd 1 ''status'' ''status:done'' tagged_db [] = (Replied (Some prior), db', []) \<and>
    fst (get_entry 1 db' []) = Replied e \<and> set (tags e) = {''team:x'', ''st:z'', ''status:done''}"
proof -
  obtain e where e: "fst (get_entry 1 tagged_db []) = Replied e" "set (tags e) = {''team:x'', ''Status:open'', ''st:z''}"
    using tagged_db_get by blast
  have old: "{s \<in> set (tags e). in_namespace ''status'' s} = {''Status:open''}"
  proof -
    have "in_namespace ''status'' ''Status:open''" "\<not> in_namespace ''status'' ''team:x''" "\<not> in_namespace ''status'' ''st:z''"
      by code_simp+
    then show ?thesis unfolding e(2) by auto
  qed
  have "hd xs \<in> set xs" if "xs \<noteq> []" for xs :: "string list" using that by simp
  from replace_tag_exact [OF tagged_db_ok, where ns = "''status''" and pick = hd and i = 1 and env = sample_env and t = "''status:done''", OF _ this]
  obtain prior db' ts where r: "replace_tag sample_env hd 1 ''status'' ''status:done'' tagged_db [] = (Replied prior, db', [])"
    "fst (get_entry 1 db' []) = Replied (e\<lparr>tags := ts\<rparr>)" "set ts = insert ''status:done'' (set (tags e) - {''Status:open''})"
    "case prior of None \<Rightarrow> {''Status:open''} = {} | Some s \<Rightarrow> s \<in> {''Status:open''}"
    unfolding e(1) by (auto simp: Let_def old)
  obtain s where "prior = Some s" using r(4) by (cases prior) simp_all
  moreover have "set ts = {''team:x'', ''st:z'', ''status:done''}" unfolding r(3) e(2) by auto
  ultimately show ?thesis using r(1,2) by (intro exI [of _ s] exI [of _ db'] exI [of _ "e\<lparr>tags := ts\<rparr>"]) simp
qed

end
