(* ===== verification/Usage_Service.thy ===== *)
theory Usage_Service
  imports Usage_Dedup Store_Query_Props
begin

text \<open>
  The usage service, \<open>services/usage.rs\<close>, on top of the deduplication and the store: what
  an access of a tool, a hook or a briefing asks of the tracker, and the job it leaves for a
  detached task. \<open>generate_pairs\<close> is from \<open>unimatrix-engine/src/coaccess.rs\<close>.

  A detached task logs the errors of its calls and goes on; the co-access pairs go to the
  analytics queue. The confidence function is an argument, as it is of the store.
\<close>

section \<open>Co-access pairs\<close>

definition MAX_CO_ACCESS_ENTRIES :: nat where
  "MAX_CO_ACCESS_ENTRIES = 10"

fun ordered_pairs :: "nat list \<Rightarrow> (nat \<times> nat) list" where
  "ordered_pairs [] = []"
| "ordered_pairs (x # xs) = map (\<lambda>y. if x \<le> y then (x, y) else (y, x)) xs @ ordered_pairs xs"

definition generate_pairs :: "nat list \<Rightarrow> nat \<Rightarrow> (nat \<times> nat) list" where
  "generate_pairs entry_ids max_entries = ordered_pairs (take (min (length entry_ids) max_entries) entry_ids)"

section \<open>Accesses\<close>

datatype access_source = McpTool | HookInjection | Briefing

record usage_context =
  ctx_agent_id :: "string option"
  ctx_helpful :: "bool option"
  ctx_feature_cycle :: "string option"
  ctx_access_weight :: nat
  ctx_current_phase :: "string option"
  ctx_write_capable :: bool

text \<open>What a detached task is to write: usage, feature entries and pairs.\<close>

record usage_job =
  job_usage :: "usage_batch option"
  job_features :: "(string \<times> nat list \<times> string option) option"
  job_pairs :: "(nat \<times> nat) list option"

definition no_job :: usage_job where
  "no_job = \<lparr>job_usage = None, job_features = None, job_pairs = None\<rparr>"

definition feature_recording :: "nat list \<Rightarrow> usage_context \<Rightarrow> (string \<times> nat list \<times> string option) option" where
  "feature_recording entry_ids ctx =
     (case ctx_feature_cycle ctx of
        None \<Rightarrow> None
      | Some feature_str \<Rightarrow> if ctx_write_capable ctx then Some (feature_str, entry_ids, ctx_current_phase ctx) else None)"

definition agent_of :: "usage_context \<Rightarrow> string" where
  "agent_of ctx = (case ctx_agent_id ctx of Some a \<Rightarrow> a | None \<Rightarrow> [])"

definition multiplied :: "nat \<Rightarrow> nat list \<Rightarrow> nat list" where
  "multiplied weight ids = (if weight \<le> 1 then ids else concat (map (replicate weight) ids))"

text \<open>The vote actions, if the caller voted, and the pairs not seen before.\<close>

definition mcp_votes :: "dedup_state \<Rightarrow> nat list \<Rightarrow> usage_context \<Rightarrow> vote_batches \<times> dedup_state" where
  "mcp_votes st entry_ids ctx =
     (case ctx_helpful ctx of
        None \<Rightarrow> (vote_lists True [], st)
      | Some helpful_value \<Rightarrow>
          (let (vote_actions, st') = check_votes st (agent_of ctx) entry_ids helpful_value
           in (vote_lists helpful_value vote_actions, st')))"

definition mcp_pairs :: "dedup_state \<Rightarrow> nat list \<Rightarrow> (nat \<times> nat) list option \<times> dedup_state" where
  "mcp_pairs st entry_ids =
     (if 2 \<le> length entry_ids
      then (let (new_pairs, st') = filter_co_access_pairs st (generate_pairs entry_ids MAX_CO_ACCESS_ENTRIES)
            in (if new_pairs = [] then None else Some new_pairs, st'))
      else (None, st))"

definition record_mcp_usage :: "dedup_state \<Rightarrow> nat list \<Rightarrow> usage_context \<Rightarrow> usage_job \<times> dedup_state" where
  "record_mcp_usage st entry_ids ctx =
     (let (fresh_ids, st1) = filter_access st (agent_of ctx) entry_ids;
          (votes, st2) = mcp_votes st1 entry_ids ctx;
          (co_access_pairs, st3) = mcp_pairs st2 entry_ids
      in (\<lparr>job_usage = Some \<lparr>usage_all = multiplied (ctx_access_weight ctx) entry_ids,
              usage_access = multiplied (ctx_access_weight ctx) fresh_ids,
              usage_helpful = helpful_ids votes, usage_unhelpful = unhelpful_ids votes,
              usage_dec_helpful = decrement_helpful_ids votes, usage_dec_unhelpful = decrement_unhelpful_ids votes\<rparr>,
            job_features = feature_recording entry_ids ctx, job_pairs = co_access_pairs\<rparr>, st3))"

definition record_hook_injection :: "nat list \<Rightarrow> usage_context \<Rightarrow> usage_job" where
  "record_hook_injection entry_ids ctx =
     \<lparr>job_usage = None, job_features = feature_recording entry_ids ctx,
      job_pairs = (if 2 \<le> length entry_ids
        then (let pairs = generate_pairs entry_ids (length entry_ids) in if pairs = [] then None else Some pairs)
        else None)\<rparr>"

definition record_briefing_usage :: "dedup_state \<Rightarrow> nat list \<Rightarrow> usage_context \<Rightarrow> usage_job \<times> dedup_state" where
  "record_briefing_usage st entry_ids ctx =
     (if ctx_access_weight ctx = 0 then (no_job, st)
      else let (fresh_ids, st1) = filter_access st (agent_of ctx) entry_ids in
        if fresh_ids = [] then (no_job, st1)
        else (no_job\<lparr>job_usage := Some \<lparr>usage_all = fresh_ids, usage_access = fresh_ids, usage_helpful = [], usage_unhelpful = [],
          usage_dec_helpful = [], usage_dec_unhelpful = []\<rparr>\<rparr>, st1))"

definition record_access :: "dedup_state \<Rightarrow> nat list \<Rightarrow> access_source \<Rightarrow> usage_context \<Rightarrow> usage_job \<times> dedup_state" where
  "record_access st entry_ids origin ctx =
     (if entry_ids = [] then (no_job, st)
      else case origin of
          McpTool \<Rightarrow> record_mcp_usage st entry_ids ctx
        | HookInjection \<Rightarrow> (record_hook_injection entry_ids ctx, st)
        | Briefing \<Rightarrow> record_briefing_usage st entry_ids ctx)"

section \<open>The detached task\<close>

text \<open>A call whose error is logged.\<close>

definition logged :: "unit call \<Rightarrow> unit call" where
  "logged m db fs = (case m db fs of (Failed e, db', fs') \<Rightarrow> (Replied (), db', fs') | r \<Rightarrow> r)"

definition run_job :: "call_env \<Rightarrow> (entry_record \<Rightarrow> nat \<Rightarrow> 64 word) \<Rightarrow> usage_job \<Rightarrow> unit call" where
  "run_job env confidence_fn job =
     seq_call
       (case job_usage job of None \<Rightarrow> return_call ()
        | Some b \<Rightarrow> logged (record_usage_with_confidence env b (Some confidence_fn)))
       (case job_features job of None \<Rightarrow> return_call ()
        | Some (feature_str, ids, phase) \<Rightarrow> logged (record_feature_entries feature_str ids phase))"

definition enqueued_pairs :: "usage_job \<Rightarrow> (nat \<times> nat) list" where
  "enqueued_pairs job = (case job_pairs job of None \<Rightarrow> [] | Some pairs \<Rightarrow> record_co_access_pairs pairs)"

end
