(* ===== verification/Usage_Props.thy ===== *)
theory Usage_Props
  imports Usage_Service
begin

text \<open>
  The usage counters of the store under accesses: what one access adds to the counters of an
  entry, and what the votes of many agents add up to.
\<close>

section \<open>The counters of a row\<close>

definition usage_counts :: "entry_record \<Rightarrow> nat \<times> nat \<times> nat" where
  "usage_counts r = (access_count r, helpful_count r, unhelpful_count r)"

text \<open>What one pass of the loop over the ids does to the counters of one of them.\<close>

definition bump :: "usage_batch \<Rightarrow> nat \<Rightarrow> nat \<times> nat \<times> nat \<Rightarrow> nat \<times> nat \<times> nat" where
  "bump b i c = (case c of (a, h, u) \<Rightarrow>
     (if i \<in> set (usage_access b) then a + 1 else a,
      if i \<in> set (usage_dec_helpful b) then h - 1 else if i \<in> set (usage_helpful b) then h + 1 else h,
      if i \<in> set (usage_dec_unhelpful b) then u - 1 else if i \<in> set (usage_unhelpful b) then u + 1 else u))"

lemma usage_row_counts: "usage_counts (usage_row env b i row) = bump b i (usage_counts row)"
  by (simp add: usage_counts_def bump_def usage_row_def usage_sets_def set_column_def)

lemma iterated_bump:
  "(bump b i ^^ n) (a, h, u) =
     (if i \<in> set (usage_access b) then a + n else a,
      if i \<in> set (usage_dec_helpful b) then h - n else if i \<in> set (usage_helpful b) then h + n else h,
      if i \<in> set (usage_dec_unhelpful b) then u - n else if i \<in> set (usage_unhelpful b) then u + n else u)"
  by (induction n) (simp_all add: bump_def)

definition counts_of :: "store_db \<Rightarrow> nat \<Rightarrow> (nat \<times> nat \<times> nat) option" where
  "counts_of db i = map_option usage_counts (hm_get (entries_table db) i)"

lemma calm_entry_exists [calm_simps]:
  "hm_get (entries_table db) i = Some row \<Longrightarrow> entry_exists i db [] = (Replied True, db, [])"
  "hm_get (entries_table db) i = None \<Longrightarrow> entry_exists i db [] = (Replied False, db, [])"
  by (simp_all add: entry_exists_def calm_query)

lemma calm_record_usage_of:
  obtains db' where "record_usage_of env b cf i db [] = (Replied (), db', [])"
    "\<And>j. counts_of db' j = (if j = i then map_option (bump b i) (counts_of db i) else counts_of db j)"
proof (cases "hm_get (entries_table db) i")
  case None
  then have "record_usage_of env b cf i db [] = (Replied (), db, [])"
    by (simp add: record_usage_of_def bind_call_def calm_simps)
  then show thesis using that None by (simp add: counts_of_def)
next
  case (Some row)
  let ?row = "usage_row env b i row"
  let ?db = "db\<lparr>entries_table := hm_insert i ?row (entries_table db)\<rparr>"
  have u: "update_row i (usage_row env b i) db [] = (Replied (), ?db, [])" using Some by (rule calm_simps)
  show thesis
  proof (cases cf)
    case None
    then have "record_usage_of env b cf i db [] = (Replied (), ?db, [])"
      using Some u by (simp add: record_usage_of_def bind_call_def calm_simps)
    then show thesis using that Some usage_row_counts by (simp add: counts_of_def)
  next
    case (Some f)
    obtain m where m: "load_tags_for_entries [i] ?db [] = (Replied m, ?db, [])"
      by (rule calm_load_tags [of i ?db])
    define e where "e = (case hm_get m i of Some ts \<Rightarrow> (entry_from_row ?row)\<lparr>tags := ts\<rparr> | None \<Rightarrow> entry_from_row ?row)"
    let ?db' = "?db\<lparr>entries_table := hm_insert i (?row\<lparr>confidence := f e (env_now env)\<rparr>) (entries_table ?db)\<rparr>"
    have get: "hm_get (entries_table ?db) i = Some ?row" by simp
    have "recompute_confidence env f i ?db [] = (Replied (), ?db', [])"
      using calm_update_row(1) [OF get] by (simp add: recompute_confidence_def calm_simps m Let_def e_def)
    then have "record_usage_of env b cf i db [] = (Replied (), ?db', [])"
      using Some u \<open>hm_get (entries_table db) i = Some row\<close> by (simp add: record_usage_of_def bind_call_def calm_simps)
    moreover have "usage_counts (?row\<lparr>confidence := f e (env_now env)\<rparr>) = bump b i (usage_counts row)"
      using usage_row_counts [of env b i row] by (simp add: usage_counts_def)
    ultimately show thesis using that \<open>hm_get (entries_table db) i = Some row\<close> by (simp add: counts_of_def)
  qed
qed

lemma calm_usage_loop:
  "\<exists>db'. for_each (record_usage_of env b cf) is db [] = (Replied (), db', []) \<and>
    (\<forall>j. counts_of db' j = map_option (bump b j ^^ count_list is j) (counts_of db j))"
proof (induction "is" arbitrary: db)
  case Nil
  then show ?case by (simp add: calm_simps option.map_ident)
next
  case (Cons i ids)
  obtain db1 where 1: "record_usage_of env b cf i db [] = (Replied (), db1, [])"
    "\<And>j. counts_of db1 j = (if j = i then map_option (bump b i) (counts_of db i) else counts_of db j)"
    by (rule calm_record_usage_of [of env b cf i db]) blast
  obtain db' where 2: "for_each (record_usage_of env b cf) ids db1 [] = (Replied (), db', [])"
    "\<forall>j. counts_of db' j = map_option (bump b j ^^ count_list ids j) (counts_of db1 j)"
    using Cons.IH by blast
  have "counts_of db' j = map_option (bump b j ^^ count_list (i # ids) j) (counts_of db j)" for j
    using 2(2) 1(2) [of j] by (cases "counts_of db i") (simp_all add: funpow_swap1)
  then show ?case using 1(1) 2(1) by (simp add: calm_simps)
qed

lemma calm_record_usage:
  "\<exists>db'. record_usage_with_confidence env b cf db [] = (Replied (), db', []) \<and>
    (\<forall>j. counts_of db' j = map_option (bump b j ^^ count_list (usage_all b) j) (counts_of db j))"
  using calm_usage_loop [of env b cf "usage_all b" db]
  by (auto simp: record_usage_with_confidence_def calm_simps option.map_ident)

lemma calm_feature_entries:
  "\<exists>db'. record_feature_entries c is ph db [] = (Replied (), db', []) \<and> entries_table db' = entries_table db"
proof (induction "is" arbitrary: db)
  case Nil
  then show ?case by (simp add: record_feature_entries_def calm_simps)
next
  case (Cons i ids)
  let ?db = "if hm_get (feature_table db) (c, i) \<noteq> None then db else db\<lparr>feature_table := hm_insert (c, i) ph (feature_table db)\<rparr>"
  have "entries_table ?db = entries_table db" by simp
  then show ?case using Cons.IH [of ?db] by (simp add: record_feature_entries_def calm_simps)
qed

lemma calm_job:
  assumes "job_usage job = Some b"
  shows "\<exists>db'. run_job env f job db [] = (Replied (), db', []) \<and>
    (\<forall>j. counts_of db' j = map_option (bump b j ^^ count_list (usage_all b) j) (counts_of db j))"
proof -
  obtain db1 where 1: "record_usage_with_confidence env b (Some f) db [] = (Replied (), db1, [])"
    "\<forall>j. counts_of db1 j = map_option (bump b j ^^ count_list (usage_all b) j) (counts_of db j)"
    using calm_record_usage by blast
  show ?thesis
  proof (cases "job_features job")
    case None
    then show ?thesis using 1 assms by (simp add: run_job_def logged_def calm_simps)
  next
    case (Some x)
    obtain c ids ph where x: "x = (c, ids, ph)" by (rule prod_cases3)
    obtain db2 where 2: "record_feature_entries c ids ph db1 [] = (Replied (), db2, [])" "entries_table db2 = entries_table db1"
      using calm_feature_entries by blast
    then have "counts_of db2 j = counts_of db1 j" for j by (simp add: counts_of_def)
    then show ?thesis using 1 2 assms Some x by (simp add: run_job_def logged_def calm_simps)
  qed
qed

section \<open>One access\<close>

lemma set_push_vote:
  "set (helpful_ids (push_vote h (i, a) b)) = set (helpful_ids b) \<union> (if h \<and> a \<noteq> NoOp then {i} else {})"
  "set (unhelpful_ids (push_vote h (i, a) b)) = set (unhelpful_ids b) \<union> (if \<not> h \<and> a \<noteq> NoOp then {i} else {})"
  "set (decrement_helpful_ids (push_vote h (i, a) b)) = set (decrement_helpful_ids b) \<union> (if \<not> h \<and> a = CorrectedVote then {i} else {})"
  "set (decrement_unhelpful_ids (push_vote h (i, a) b)) = set (decrement_unhelpful_ids b) \<union> (if h \<and> a = CorrectedVote then {i} else {})"
  by (cases a; simp add: push_vote_def)+

lemma set_push_votes:
  "set (helpful_ids (fold (push_vote h) acts b)) = set (helpful_ids b) \<union> {i. h \<and> (\<exists>a. (i, a) \<in> set acts \<and> a \<noteq> NoOp)}"
  "set (unhelpful_ids (fold (push_vote h) acts b)) = set (unhelpful_ids b) \<union> {i. \<not> h \<and> (\<exists>a. (i, a) \<in> set acts \<and> a \<noteq> NoOp)}"
  "set (decrement_helpful_ids (fold (push_vote h) acts b)) = set (decrement_helpful_ids b) \<union> {i. \<not> h \<and> (i, CorrectedVote) \<in> set acts}"
  "set (decrement_unhelpful_ids (fold (push_vote h) acts b)) = set (decrement_unhelpful_ids b) \<union> {i. h \<and> (i, CorrectedVote) \<in> set acts}"
  by (induction acts arbitrary: b) (auto simp: set_push_vote split: if_splits)

lemma set_vote_lists:
  "set (helpful_ids (vote_lists h acts)) = {i. h \<and> (\<exists>a. (i, a) \<in> set acts \<and> a \<noteq> NoOp)}"
  "set (unhelpful_ids (vote_lists h acts)) = {i. \<not> h \<and> (\<exists>a. (i, a) \<in> set acts \<and> a \<noteq> NoOp)}"
  "set (decrement_helpful_ids (vote_lists h acts)) = {i. \<not> h \<and> (i, CorrectedVote) \<in> set acts}"
  "set (decrement_unhelpful_ids (vote_lists h acts)) = {i. h \<and> (i, CorrectedVote) \<in> set acts}"
  by (simp_all add: vote_lists_def set_push_votes)

lemma check_votes_actions:
  "check_votes st agent ids h = (acts, st') \<Longrightarrow> distinct ids \<Longrightarrow>
   set acts = (\<lambda>i. (i, action_of (vote_recorded st (agent, i)) h)) ` set ids \<and>
   vote_recorded st' = (\<lambda>k. if fst k = agent \<and> snd k \<in> set ids then Some h else vote_recorded st k) \<and>
   access_counted st' = access_counted st"
proof (induction ids arbitrary: st acts)
  case Nil
  then show ?case by auto
next
  case (Cons i ids)
  let ?st = "st\<lparr>vote_recorded := (vote_recorded st)((agent, i) \<mapsto> h)\<rparr>"
  obtain res where c: "check_votes ?st agent ids h = (res, st')" and acts: "acts = (i, action_of (vote_recorded st (agent, i)) h) # res"
    using Cons.prems(1) unfolding check_votes_Cons by (cases "check_votes ?st agent ids h") auto
  note IH = Cons.IH [OF c] Cons.prems(2)
  show ?case using IH by (auto simp: acts fun_eq_iff image_iff)
qed

lemma filter_access_frame:
  "filter_access st agent ids = (res, st') \<Longrightarrow> vote_recorded st' = vote_recorded st"
proof (induction ids arbitrary: st res)
  case (Cons i ids)
  then show ?case by (cases "(agent, i) \<in> access_counted st") (auto split: prod.splits)
qed simp

lemma filter_pairs_frame:
  "filter_co_access_pairs st ps = (res, st') \<Longrightarrow> vote_recorded st' = vote_recorded st \<and> access_counted st' = access_counted st"
proof (induction ps arbitrary: st res)
  case (Cons p ps)
  then show ?case by (cases "p \<in> co_access_recorded st") (auto split: prod.splits)
qed simp

text \<open>The weight of an access: how often each id stands in the list of ids.\<close>

definition passes :: "usage_context \<Rightarrow> nat" where
  "passes ctx = max 1 (ctx_access_weight ctx)"

lemma count_multiplied:
  "distinct ids \<Longrightarrow> count_list (multiplied (ctx_access_weight ctx) ids) i = (if i \<in> set ids then passes ctx else 0)"
proof -
  have r: "count_list (replicate n x) i = (if x = i then n else 0)" for n x by (induction n) auto
  have "count_list (concat (map (replicate n) ids)) i = n * count_list ids i" for n
    by (induction ids) (simp_all add: r)
  moreover assume "distinct ids"
  then have "count_list ids i = (if i \<in> set ids then 1 else 0)" by (induction ids) auto
  ultimately show ?thesis by (simp add: multiplied_def passes_def)
qed

lemma set_multiplied: "set (multiplied w ids) = set ids"
  by (cases "w \<le> 1") (auto simp: multiplied_def)

text \<open>The batch of an access, as sets.\<close>

lemma mcp_batch:
  assumes "record_mcp_usage st ids ctx = (job, st')" and "distinct ids"
  obtains b where "job_usage job = Some b"
    "\<And>i. count_list (usage_all b) i = (if i \<in> set ids then passes ctx else 0)"
    "set (usage_access b) = {i \<in> set ids. (agent_of ctx, i) \<notin> access_counted st}"
    "\<And>i. i \<in> set ids \<Longrightarrow>
      (i \<in> set (usage_helpful b) \<longleftrightarrow> ctx_helpful ctx = Some True \<and> vote_recorded st (agent_of ctx, i) \<noteq> Some True) \<and>
      (i \<in> set (usage_unhelpful b) \<longleftrightarrow> ctx_helpful ctx = Some False \<and> vote_recorded st (agent_of ctx, i) \<noteq> Some False) \<and>
      (i \<in> set (usage_dec_helpful b) \<longleftrightarrow> ctx_helpful ctx = Some False \<and> vote_recorded st (agent_of ctx, i) = Some True) \<and>
      (i \<in> set (usage_dec_unhelpful b) \<longleftrightarrow> ctx_helpful ctx = Some True \<and> vote_recorded st (agent_of ctx, i) = Some False)"
    "vote_recorded st' = (\<lambda>k. if fst k = agent_of ctx \<and> snd k \<in> set ids \<and> ctx_helpful ctx \<noteq> None
      then ctx_helpful ctx else vote_recorded st k)"
    "access_counted st' = access_counted st \<union> Pair (agent_of ctx) ` set ids"
proof -
  obtain fresh st1 where f: "filter_access st (agent_of ctx) ids = (fresh, st1)" by fastforce
  obtain votes st2 where v: "mcp_votes st1 ids ctx = (votes, st2)" by fastforce
  obtain pairs st3 where p: "mcp_pairs st2 ids = (pairs, st3)" by fastforce
  let ?b = "\<lparr>usage_all = multiplied (ctx_access_weight ctx) ids, usage_access = multiplied (ctx_access_weight ctx) fresh,
      usage_helpful = helpful_ids votes, usage_unhelpful = unhelpful_ids votes,
      usage_dec_helpful = decrement_helpful_ids votes, usage_dec_unhelpful = decrement_unhelpful_ids votes\<rparr>"
  have job: "job_usage job = Some ?b" "st' = st3"
    using assms(1) by (auto simp: record_mcp_usage_def f v p)
  have frame1: "vote_recorded st1 = vote_recorded st" by (rule filter_access_frame [OF f])
  note fa = filter_access_spec [OF f]
  have frame3: "vote_recorded st3 = vote_recorded st2 \<and> access_counted st3 = access_counted st2"
    using p filter_pairs_frame by (auto simp: mcp_pairs_def split: if_splits prod.splits)
  have votes: "i \<in> set ids \<Longrightarrow>
      (i \<in> set (helpful_ids votes) \<longleftrightarrow> ctx_helpful ctx = Some True \<and> vote_recorded st (agent_of ctx, i) \<noteq> Some True) \<and>
      (i \<in> set (unhelpful_ids votes) \<longleftrightarrow> ctx_helpful ctx = Some False \<and> vote_recorded st (agent_of ctx, i) \<noteq> Some False) \<and>
      (i \<in> set (decrement_helpful_ids votes) \<longleftrightarrow> ctx_helpful ctx = Some False \<and> vote_recorded st (agent_of ctx, i) = Some True) \<and>
      (i \<in> set (decrement_unhelpful_ids votes) \<longleftrightarrow> ctx_helpful ctx = Some True \<and> vote_recorded st (agent_of ctx, i) = Some False)"
    and rec: "vote_recorded st2 = (\<lambda>k. if fst k = agent_of ctx \<and> snd k \<in> set ids \<and> ctx_helpful ctx \<noteq> None
      then ctx_helpful ctx else vote_recorded st k)"
    and acc: "access_counted st2 = access_counted st1" for i
  proof -
    have "(i \<in> set ids \<longrightarrow>
      (i \<in> set (helpful_ids votes) \<longleftrightarrow> ctx_helpful ctx = Some True \<and> vote_recorded st (agent_of ctx, i) \<noteq> Some True) \<and>
      (i \<in> set (unhelpful_ids votes) \<longleftrightarrow> ctx_helpful ctx = Some False \<and> vote_recorded st (agent_of ctx, i) \<noteq> Some False) \<and>
      (i \<in> set (decrement_helpful_ids votes) \<longleftrightarrow> ctx_helpful ctx = Some False \<and> vote_recorded st (agent_of ctx, i) = Some True) \<and>
      (i \<in> set (decrement_unhelpful_ids votes) \<longleftrightarrow> ctx_helpful ctx = Some True \<and> vote_recorded st (agent_of ctx, i) = Some False)) \<and>
      vote_recorded st2 = (\<lambda>k. if fst k = agent_of ctx \<and> snd k \<in> set ids \<and> ctx_helpful ctx \<noteq> None
        then ctx_helpful ctx else vote_recorded st k) \<and> access_counted st2 = access_counted st1" for i
    proof (cases "ctx_helpful ctx")
      case None
      then show ?thesis using v frame1 by (auto simp: mcp_votes_def set_vote_lists)
    next
      case (Some h)
      obtain acts s where c: "check_votes st1 (agent_of ctx) ids h = (acts, s)" by fastforce
      then have vs: "votes = vote_lists h acts" "st2 = s" using v Some by (simp_all add: mcp_votes_def)
      note ca = check_votes_actions [OF c assms(2)]
      have "(i, a) \<in> set acts \<longleftrightarrow> i \<in> set ids \<and> a = action_of (vote_recorded st (agent_of ctx, i)) h" for i a
        using ca frame1 by auto
      moreover have "action_of r h = NoOp \<longleftrightarrow> r = Some h" "action_of r h = CorrectedVote \<longleftrightarrow> r = Some (\<not> h)"
        "NoOp = action_of r h \<longleftrightarrow> r = Some h" "CorrectedVote = action_of r h \<longleftrightarrow> r = Some (\<not> h)" for r
        by (auto simp: action_of_def split: option.splits)
      ultimately show ?thesis using ca Some frame1 unfolding vs set_vote_lists by (cases h) (auto simp: fun_eq_iff)
    qed
    then show "i \<in> set ids \<Longrightarrow>
      (i \<in> set (helpful_ids votes) \<longleftrightarrow> ctx_helpful ctx = Some True \<and> vote_recorded st (agent_of ctx, i) \<noteq> Some True) \<and>
      (i \<in> set (unhelpful_ids votes) \<longleftrightarrow> ctx_helpful ctx = Some False \<and> vote_recorded st (agent_of ctx, i) \<noteq> Some False) \<and>
      (i \<in> set (decrement_helpful_ids votes) \<longleftrightarrow> ctx_helpful ctx = Some False \<and> vote_recorded st (agent_of ctx, i) = Some True) \<and>
      (i \<in> set (decrement_unhelpful_ids votes) \<longleftrightarrow> ctx_helpful ctx = Some True \<and> vote_recorded st (agent_of ctx, i) = Some False)"
      "vote_recorded st2 = (\<lambda>k. if fst k = agent_of ctx \<and> snd k \<in> set ids \<and> ctx_helpful ctx \<noteq> None
      then ctx_helpful ctx else vote_recorded st k)" "access_counted st2 = access_counted st1" by blast+
  qed
  show thesis
  proof (rule that [OF job(1)])
    show "count_list (usage_all ?b) i = (if i \<in> set ids then passes ctx else 0)" for i
      using count_multiplied [OF assms(2)] by simp
    show "set (usage_access ?b) = {i \<in> set ids. (agent_of ctx, i) \<notin> access_counted st}" using fa by (simp add: set_multiplied)
  qed (use votes rec acc frame3 fa job(2) in auto)
qed

text \<open>What a vote does to the counter of a side, given the agent's vote before.\<close>

definition voted :: "bool option \<Rightarrow> bool \<Rightarrow> bool option \<Rightarrow> nat \<Rightarrow> nat \<Rightarrow> nat" where
  "voted vote side prior w n =
     (case vote of
        None \<Rightarrow> n
      | Some v \<Rightarrow> if v = side then if prior = Some side then n else n + w else if prior = Some side then n - w else n)"

lemma access_counts:
  assumes "record_access st ids McpTool ctx = (job, st')" and "distinct ids" and "counts_of db i = Some (a, h, u)"
  defines "prior \<equiv> vote_recorded st (agent_of ctx, i)" and "w \<equiv> passes ctx"
  shows "(\<exists>db'. run_job env f job db [] = (Replied (), db', []) \<and>
    counts_of db' i = Some (if i \<in> set ids
      then (if (agent_of ctx, i) \<in> access_counted st then a else a + w,
        voted (ctx_helpful ctx) True prior w h, voted (ctx_helpful ctx) False prior w u)
      else (a, h, u))) \<and>
    vote_recorded st' = (\<lambda>k. if fst k = agent_of ctx \<and> snd k \<in> set ids \<and> ctx_helpful ctx \<noteq> None then ctx_helpful ctx else vote_recorded st k)"
proof (cases "ids = []")
  case True
  then have j: "job = no_job" "st' = st" using assms(1) by (simp_all add: record_access_def)
  have "run_job env f job db [] = (Replied (), db, [])" by (simp add: j run_job_def no_job_def calm_simps)
  then show ?thesis using True assms(3) j(2) by simp
next
  case False
  then have "record_mcp_usage st ids ctx = (job, st')" using assms(1) by (simp add: record_access_def)
  from this assms(2) obtain b where b: "job_usage job = Some b"
    "\<And>i. count_list (usage_all b) i = (if i \<in> set ids then passes ctx else 0)"
    "set (usage_access b) = {i \<in> set ids. (agent_of ctx, i) \<notin> access_counted st}"
    "\<And>i. i \<in> set ids \<Longrightarrow>
      (i \<in> set (usage_helpful b) \<longleftrightarrow> ctx_helpful ctx = Some True \<and> vote_recorded st (agent_of ctx, i) \<noteq> Some True) \<and>
      (i \<in> set (usage_unhelpful b) \<longleftrightarrow> ctx_helpful ctx = Some False \<and> vote_recorded st (agent_of ctx, i) \<noteq> Some False) \<and>
      (i \<in> set (usage_dec_helpful b) \<longleftrightarrow> ctx_helpful ctx = Some False \<and> vote_recorded st (agent_of ctx, i) = Some True) \<and>
      (i \<in> set (usage_dec_unhelpful b) \<longleftrightarrow> ctx_helpful ctx = Some True \<and> vote_recorded st (agent_of ctx, i) = Some False)"
    "vote_recorded st' = (\<lambda>k. if fst k = agent_of ctx \<and> snd k \<in> set ids \<and> ctx_helpful ctx \<noteq> None
      then ctx_helpful ctx else vote_recorded st k)"
    "access_counted st' = access_counted st \<union> Pair (agent_of ctx) ` set ids"
    by (rule mcp_batch) (use that in blast)
  obtain db' where run: "run_job env f job db [] = (Replied (), db', [])"
    "\<forall>j. counts_of db' j = map_option (bump b j ^^ count_list (usage_all b) j) (counts_of db j)"
    using calm_job [OF b(1)] by blast
  have bools: "x = Some True \<or> x = Some False \<or> x = None" for x :: "bool option" by (cases x) auto
  show ?thesis
  proof (cases "i \<in> set ids")
    case True
    then show ?thesis using run b(2) [of i] b(3) b(4) [OF True] b(5) assms(3) bools [of "ctx_helpful ctx"]
      by (auto simp: iterated_bump w_def prior_def voted_def)
  next
    case False
    then show ?thesis using run b(2) [of i] b(5) assms(3) by auto
  qed
qed

text \<open>The same for the rows, whatever the weight: votes are multiplied like accesses, and 0 counts as 1.\<close>

lemma weighted_access:
  assumes "record_access st ids McpTool ctx = (job, st')" and "distinct ids" and "i \<in> set ids"
    and "hm_get (entries_table db) i = Some row"
  shows "let w = passes ctx; prior = vote_recorded st (agent_of ctx, i) in
    \<exists>db' row'. run_job env f job db [] = (Replied (), db', []) \<and> hm_get (entries_table db') i = Some row' \<and>
      access_count row' = access_count row + (if (agent_of ctx, i) \<in> access_counted st then 0 else w) \<and>
      helpful_count row' = voted (ctx_helpful ctx) True prior w (helpful_count row) \<and>
      unhelpful_count row' = voted (ctx_helpful ctx) False prior w (unhelpful_count row) \<and>
      vote_recorded st' (agent_of ctx, i) = (case ctx_helpful ctx of None \<Rightarrow> prior | Some v \<Rightarrow> Some v)"
proof -
  have "counts_of db i = Some (access_count row, helpful_count row, unhelpful_count row)"
    using assms(4) by (simp add: counts_of_def usage_counts_def)
  from access_counts [OF assms(1,2) this, of env f] assms(3) show ?thesis
    by (auto simp: counts_of_def usage_counts_def Let_def split: option.splits)
qed

lemma voted_once: "w = 1 \<or> vote = None \<or> vote = prior \<Longrightarrow> voted vote side prior w n = voted vote side prior 1 n"
  by (auto simp: voted_def split: option.split)

text \<open>
  C28. One access by a tool, of weight \<open>w\<close> of at least 1, with distinct ids: for each accessed
  entry of the store the task adds \<open>w\<close> to its access counter, unless the agent was counted for it
  before. Without a vote, with one that repeats the agent's last vote on the entry, and with any
  vote of an access of weight 1, the vote counters are exact: a vote adds 1 to the counter of its side, unless
  it repeats the agent's last vote, and takes 1 from the counter of the other side, not below zero,
  if that was the last vote. The tracker then holds the vote.
\<close>

theorem mcp_access_exact:
  assumes "record_access st ids McpTool ctx = (job, st')" and "distinct ids" and "i \<in> set ids"
    and "hm_get (entries_table db) i = Some row" and "1 \<le> ctx_access_weight ctx"
  shows "let w = ctx_access_weight ctx; vote = ctx_helpful ctx; prior = vote_recorded st (agent_of ctx, i) in
    \<exists>db' row'. run_job env f job db [] = (Replied (), db', []) \<and> hm_get (entries_table db') i = Some row' \<and>
      access_count row' = access_count row + (if (agent_of ctx, i) \<in> access_counted st then 0 else w) \<and>
      (w = 1 \<or> vote = None \<or> vote = prior \<longrightarrow>
         helpful_count row' = voted vote True prior 1 (helpful_count row) \<and>
         unhelpful_count row' = voted vote False prior 1 (unhelpful_count row)) \<and>
      vote_recorded st' (agent_of ctx, i) = (case vote of None \<Rightarrow> prior | Some v \<Rightarrow> Some v)"
proof -
  have "passes ctx = ctx_access_weight ctx" using assms(5) by (simp add: passes_def)
  with weighted_access [OF assms(1-4), of env f] show ?thesis unfolding Let_def by (metis voted_once)
qed

definition tool_context :: "string \<Rightarrow> bool option \<Rightarrow> nat \<Rightarrow> usage_context" where
  "tool_context agent vote w = \<lparr>ctx_agent_id = Some agent, ctx_helpful = vote, ctx_feature_cycle = None, ctx_access_weight = w,
     ctx_current_phase = None, ctx_write_capable = False\<rparr>"

lemma sample_db_row:
  obtains row where "hm_get (entries_table sample_db) 1 = Some row" "access_count row = 0" "helpful_count row = 0" "unhelpful_count row = 0"
proof -
  have "eid (inserted_row sample_env 1 (sample_new ''A'' [''y'', ''x''])) = 1" by (simp add: inserted_row_def)
  moreover have "last_id empty_db = 0" by (simp add: last_id_def counter_value_def empty_db_def)
  moreover have "distinct (ne_tags (sample_new ''A'' [''y'', ''x'']))" by (simp add: sample_new_def)
  ultimately have "hm_get (entries_table sample_db) 1 = Some (inserted_row sample_env 1 (sample_new ''A'' [''y'', ''x'']))"
    using insert_entry_calm [OF store_ok_empty, of sample_env "sample_new ''A'' [''y'', ''x'']"] by (simp add: sample_db_def u64_max_def)
  then show thesis by (rule that) (simp_all add: inserted_row_def)
qed

theorem mcp_access_exact_witness:
  "\<exists>db' row'. run_job sample_env (\<lambda>e now. 0) (fst (record_access dedup_new [1] McpTool (tool_context ''a'' (Some True) 1))) sample_db []
      = (Replied (), db', []) \<and> hm_get (entries_table db') 1 = Some row' \<and> access_count row' = 1 \<and> helpful_count row' = 1"
proof -
  obtain job st' where r: "record_access dedup_new [1] McpTool (tool_context ''a'' (Some True) 1) = (job, st')" by fastforce
  obtain row where row: "hm_get (entries_table sample_db) 1 = Some row" "access_count row = 0" "helpful_count row = 0" "unhelpful_count row = 0"
    by (rule sample_db_row)
  show ?thesis unfolding r fst_conv using mcp_access_exact [OF r _ _ row(1), of sample_env "\<lambda>e now. 0"]
    by (auto simp: row Let_def tool_context_def dedup_new_def agent_of_def voted_def)
qed

section \<open>Many accesses\<close>

text \<open>A sequence of tool accesses whose tasks run in order, and the votes in it.\<close>

fun usage_run :: "call_env \<Rightarrow> (entry_record \<Rightarrow> nat \<Rightarrow> 64 word) \<Rightarrow> dedup_state \<Rightarrow> store_db \<Rightarrow> (nat list \<times> usage_context) list \<Rightarrow> store_db" where
  "usage_run env f st db [] = db"
| "usage_run env f st db ((ids, ctx) # accesses) =
     (let (job, st') = record_access st ids McpTool ctx
      in usage_run env f st' (fst (snd (run_job env f job db []))) accesses)"

definition votes_cast :: "(nat list \<times> usage_context) list \<Rightarrow> (string \<times> nat list \<times> bool) list" where
  "votes_cast accesses = concat (map (\<lambda>(ids, ctx). case ctx_helpful ctx of None \<Rightarrow> [] | Some h \<Rightarrow> [(agent_of ctx, ids, h)]) accesses)"

lemma voters_update:
  assumes "finite (dom (vote_recorded st))"
    and "vote_recorded st' = (\<lambda>k. if fst k = agent \<and> snd k \<in> set ids \<and> vote \<noteq> None then vote else vote_recorded st k)"
  shows "finite (dom (vote_recorded st'))"
    and "w * card (voters st' side e) =
      (if e \<in> set ids then voted vote side (vote_recorded st (agent, e)) w (w * card (voters st side e)) else w * card (voters st side e))"
proof -
  have "dom (vote_recorded st') \<subseteq> dom (vote_recorded st) \<union> Pair agent ` set ids" unfolding assms(2) by (auto split: if_splits)
  then show "finite (dom (vote_recorded st'))" using assms(1) by (meson finite_UnI finite_imageI finite_set finite_subset)
  have "voters st side e \<subseteq> fst ` dom (vote_recorded st)" by (force simp: voters_def)
  then have fin: "finite (voters st side e)" using assms(1) by (meson finite_imageI finite_subset)
  show "w * card (voters st' side e) =
      (if e \<in> set ids then voted vote side (vote_recorded st (agent, e)) w (w * card (voters st side e)) else w * card (voters st side e))"
  proof (cases "e \<in> set ids \<and> vote \<noteq> None")
    case False
    then have "voters st' side e = voters st side e" by (auto simp: voters_def assms(2))
    then show ?thesis using False by (auto simp: voted_def)
  next
    case True
    then obtain v where v: "vote = Some v" "e \<in> set ids" by auto
    have "voters st' side e = (if v = side then insert agent (voters st side e) else voters st side e - {agent})"
      using v by (auto simp: voters_def assms(2))
    moreover have "agent \<in> voters st side e \<longleftrightarrow> vote_recorded st (agent, e) = Some side" by (simp add: voters_def)
    ultimately show ?thesis using v fin
      by (auto simp: voted_def insert_absorb card_Diff_singleton diff_mult_distrib2)
  qed
qed

lemma usage_run_counts:
  assumes "\<forall>(ids, ctx) \<in> set accesses. distinct ids \<and> (ctx_helpful ctx = None \<or> passes ctx = w)"
    and "finite (dom (vote_recorded st))"
    and "counts_of db e = Some (a, w * card (voters st True e), w * card (voters st False e))"
  shows "\<exists>st' a'. counts_of (usage_run env f st db accesses) e = Some (a', w * card (voters st' True e), w * card (voters st' False e)) \<and>
    (\<forall>agent. vote_recorded st' (agent, e) =
      (case last_vote (votes_cast accesses) agent e of Some v \<Rightarrow> Some v | None \<Rightarrow> vote_recorded st (agent, e)))"
  using assms
proof (induction accesses arbitrary: st db a)
  case Nil
  then show ?case by (auto simp: votes_cast_def)
next
  case (Cons x accesses)
  obtain ids ctx where x: "x = (ids, ctx)" by fastforce
  obtain job st1 where r: "record_access st ids McpTool ctx = (job, st1)" by fastforce
  have d: "distinct ids" and w: "ctx_helpful ctx = None \<or> passes ctx = w" using Cons.prems(1) by (simp_all add: x)
  then have v: "voted (ctx_helpful ctx) side prior (passes ctx) n = voted (ctx_helpful ctx) side prior w n" for side prior n
    by (auto simp: voted_def)
  note ac = access_counts [OF r d Cons.prems(3), of env f]
  obtain db1 a1 where run: "run_job env f job db [] = (Replied (), db1, [])"
    "counts_of db1 e = Some (a1, w * card (voters st1 True e), w * card (voters st1 False e))"
    using ac voters_update(2) [OF Cons.prems(2), of st1 "agent_of ctx" ids "ctx_helpful ctx" w _ e] unfolding v by fastforce
  have rec: "vote_recorded st1 = (\<lambda>k. if fst k = agent_of ctx \<and> snd k \<in> set ids \<and> ctx_helpful ctx \<noteq> None then ctx_helpful ctx else vote_recorded st k)"
    using ac by blast
  have "\<forall>(ids, ctx) \<in> set accesses. distinct ids \<and> (ctx_helpful ctx = None \<or> passes ctx = w)" using Cons.prems(1) by simp
  from Cons.IH [OF this voters_update(1) [OF Cons.prems(2) rec] run(2)] obtain st' a' where
    IH: "counts_of (usage_run env f st1 db1 accesses) e = Some (a', w * card (voters st' True e), w * card (voters st' False e))"
      "\<forall>agent. vote_recorded st' (agent, e) =
        (case last_vote (votes_cast accesses) agent e of Some v \<Rightarrow> Some v | None \<Rightarrow> vote_recorded st1 (agent, e))"
    by blast
  have "vote_recorded st' (agent, e) =
      (case last_vote (votes_cast (x # accesses)) agent e of Some v \<Rightarrow> Some v | None \<Rightarrow> vote_recorded st (agent, e))" for agent
    using IH(2) rec by (cases "ctx_helpful ctx") (auto simp: x votes_cast_def split: option.split)
  then show ?case using IH(1) by (auto simp: x r run(1))
qed

text \<open>
  Votes of one weight \<open>w\<close>, in accesses whose tasks run in order without faults: the counters of
  an entry that started without votes are \<open>w\<close> times the numbers of agents. With the weight 2 of
  \<open>context_get\<close> and \<open>context_lookup\<close> a vote counts twice.
\<close>

lemma weighted_votes:
  assumes "\<forall>(ids, ctx) \<in> set accesses. distinct ids \<and> (ctx_helpful ctx = None \<or> passes ctx = w)"
    and "hm_get (entries_table db) e = Some row" and "helpful_count row = 0" and "unhelpful_count row = 0"
  shows "\<exists>row'. hm_get (entries_table (usage_run env f dedup_new db accesses)) e = Some row' \<and>
    helpful_count row' = w * card {agent. last_vote (votes_cast accesses) agent e = Some True} \<and>
    unhelpful_count row' = w * card {agent. last_vote (votes_cast accesses) agent e = Some False}"
proof -
  have "voters dedup_new side e = {}" for side by (simp add: voters_def dedup_new_def)
  then have start: "counts_of db e = Some (access_count row, w * card (voters dedup_new True e), w * card (voters dedup_new False e))"
    using assms(2-4) by (simp add: counts_of_def usage_counts_def)
  have fin: "finite (dom (vote_recorded dedup_new))" and none: "vote_recorded dedup_new k = None" for k
    by (simp_all add: dedup_new_def)
  from usage_run_counts [OF assms(1) fin start, of env f] obtain st' a' where
    r: "counts_of (usage_run env f dedup_new db accesses) e = Some (a', w * card (voters st' True e), w * card (voters st' False e))"
      "\<forall>agent. vote_recorded st' (agent, e) = (case last_vote (votes_cast accesses) agent e of Some v \<Rightarrow> Some v | None \<Rightarrow> None)"
    unfolding none by blast
  have "voters st' side e = {agent. last_vote (votes_cast accesses) agent e = Some side}" for side
    using r(2) by (auto simp: voters_def split: option.splits)
  then show ?thesis using r(1) by (auto simp: counts_of_def usage_counts_def)
qed

text \<open>
  C29. Votes through the service into the store: over any sequence of tool accesses of any
  weights, whose votes are cast in accesses of weight 1 and whose tasks run in order without
  faults, the helpful counter of an entry that started without votes ends at the number of agents
  whose last vote on it was helpful, and the unhelpful counter at the number of those whose last
  vote was unhelpful: one vote for each agent and entry, however often it is repeated or changed.
\<close>

theorem votes_reach_the_store:
  assumes "\<forall>(ids, ctx) \<in> set accesses. distinct ids \<and> (ctx_helpful ctx = None \<or> ctx_access_weight ctx = 1)"
    and "hm_get (entries_table db) e = Some row" and "helpful_count row = 0" and "unhelpful_count row = 0"
  shows "\<exists>row'. hm_get (entries_table (usage_run env f dedup_new db accesses)) e = Some row' \<and>
    helpful_count row' = card {agent. last_vote (votes_cast accesses) agent e = Some True} \<and>
    unhelpful_count row' = card {agent. last_vote (votes_cast accesses) agent e = Some False}"
proof -
  have "\<forall>(ids, ctx) \<in> set accesses. distinct ids \<and> (ctx_helpful ctx = None \<or> passes ctx = 1)"
    using assms(1) by (auto simp: passes_def)
  from weighted_votes [OF this assms(2-4), of env f] show ?thesis by simp
qed

theorem votes_reach_the_store_witness:
  "\<exists>row'. hm_get (entries_table (usage_run sample_env (\<lambda>e now. 0) dedup_new sample_db
      [([1], tool_context ''a'' (Some True) 1), ([1], tool_context ''a'' None 2), ([1], tool_context ''a'' (Some True) 1),
       ([1], tool_context ''b'' (Some True) 1), ([1], tool_context ''b'' (Some False) 1)])) 1 = Some row' \<and>
    helpful_count row' = 1 \<and> unhelpful_count row' = 1"
proof -
  let ?calls = "[([1 :: nat], tool_context ''a'' (Some True) 1), ([1], tool_context ''a'' None 2), ([1], tool_context ''a'' (Some True) 1),
     ([1], tool_context ''b'' (Some True) 1), ([1], tool_context ''b'' (Some False) 1)]"
  have v: "votes_cast ?calls = [(''a'', [1], True), (''a'', [1], True), (''b'', [1], True), (''b'', [1], False)]"
    by (simp add: votes_cast_def tool_context_def agent_of_def)
  have last: "{agent. last_vote (votes_cast ?calls) agent 1 = Some True} = {''a''}"
    "{agent. last_vote (votes_cast ?calls) agent 1 = Some False} = {''b''}"
    unfolding v by (auto split: if_splits)
  obtain row where row: "hm_get (entries_table sample_db) 1 = Some row" "access_count row = 0" "helpful_count row = 0" "unhelpful_count row = 0"
    by (rule sample_db_row)
  have "\<forall>(ids, ctx) \<in> set ?calls. distinct ids \<and> (ctx_helpful ctx = None \<or> ctx_access_weight ctx = 1)"
    by (simp add: tool_context_def)
  from votes_reach_the_store [OF this row(1,3,4), of sample_env "\<lambda>e now. 0"] show ?thesis unfolding last by simp
qed

end
