(* ===== verification/Graph_Props.thy ===== *)
theory Graph_Props
  imports Graph_Walk_Props
begin

text \<open>
  The properties of the supersession traversals and of the penalty, for the graph that
  \<open>build_typed_relation_graph\<close> returns, over the entries it was built from.
\<close>

section \<open>A chain of versions\<close>

text \<open>Versions 0 to \<open>n\<close>, each superseded by the next; the last one is active.\<close>

definition chain_version :: "nat \<Rightarrow> nat \<Rightarrow> entry_record" where
  "chain_version n i = entry_v i (if i = 0 then None else Some (i - 1))
     (if i = n then Active else Deprecated) (if i = n then None else Some (Suc i))"

definition version_chain :: "nat \<Rightarrow> entry_record list" where
  "version_chain n = map (chain_version n) [0..<Suc n]"

lemma chain_version_sel:
  "eid (chain_version n i) = i" "supersedes (chain_version n i) = (if i = 0 then None else Some (i - 1))"
  "status (chain_version n i) = (if i = n then Active else Deprecated)"
  "superseded_by (chain_version n i) = (if i = n then None else Some (Suc i))"
  by (simp_all add: chain_version_def)

lemma version_chain_set: "set (version_chain n) = chain_version n ` {..n}"
  by (simp add: version_chain_def atLeastLessThanSuc_atLeastAtMost atLeast0AtMost del: upt_Suc)

lemma version_chain_distinct: "distinct (map eid (version_chain n))"
  by (simp add: version_chain_def comp_def chain_version_sel del: upt_Suc)

lemma version_chain_supersession: "supersession (version_chain n) = {(i, Suc i) | i. i < n}"
proof -
  have "(p, k) \<in> supersession (version_chain n) \<longleftrightarrow> k \<le> n \<and> k \<noteq> 0 \<and> p = k - 1" for p k
    by (auto simp: supersession_def version_chain_set chain_version_sel image_image split: if_splits
        intro!: exI [of _ "chain_version n k"])
  then show ?thesis by (auto simp: set_eq_iff)
qed

lemma version_chain_acyclic: "acyclic (supersession (version_chain n))"
proof -
  have "supersession (version_chain n) \<subseteq> less_than" by (auto simp: version_chain_supersession)
  then show ?thesis using acyclic_subset wf_acyclic wf_less_than by blast
qed

lemma version_chain_relpow: "(0, t) \<in> supersession (version_chain n) ^^ h \<longleftrightarrow> t = h \<and> h \<le> n"
  by (induction h arbitrary: t) (auto simp: version_chain_supersession)

lemma version_chain_current: "is_current (version_chain n) t \<longleftrightarrow> t = n"
  by (auto simp: is_current_iff [OF version_chain_distinct] version_chain_set chain_version_sel)

lemma version_chain_graph:
  obtains g i where "build_typed_relation_graph list_petgraph list_petgraph (version_chain n) [] = Some (Inr g)"
    "corpus_graph list_petgraph (version_chain n) g" "hm_get (node_index g) 0 = Some i"
proof -
  obtain g where b: "build_typed_relation_graph list_petgraph list_petgraph (version_chain n) [] = Some (Inr g)"
    using build_graph [OF list_petgraph_ok list_petgraph_ok version_chain_distinct, of n "[]"] version_chain_acyclic [of n]
    by auto
  then have c: "corpus_graph list_petgraph (version_chain n) g"
    by (intro corpus_graph_built [OF list_petgraph_ok list_petgraph_ok version_chain_distinct])
  have "0 \<in> eid ` set (version_chain n)" by (auto simp: version_chain_set chain_version_sel image_image)
  then obtain i where "hm_get (node_index g) 0 = Some i" using corpus_index [OF c] by blast
  with b c show thesis by (rule that)
qed

section \<open>Terminal version\<close>

text \<open>
  C11. On the graph of a corpus with unique ids, \<open>find_terminal_active\<close> never panics and is
  complete: it returns None if and only if no active, unsuperseded version is reached from
  the entry by at most ten supersessions (the entry itself included), and an id it returns
  is such a version.
\<close>

theorem find_terminal_active_exact:
  assumes "petgraph_ok pg" and "petgraph_ok pt" and "distinct (map eid entries)"
    and "build_typed_relation_graph pg pt entries edges = Some (Inr g)"
  shows "\<exists>r. find_terminal_active pg u g entries = Some r \<and>
    (r = None \<longleftrightarrow> \<not> (\<exists>h \<le> 10. \<exists>t. (u, t) \<in> supersession entries ^^ h \<and> is_current entries t)) \<and>
    (\<forall>t. r = Some t \<longrightarrow> is_current entries t \<and> (\<exists>h \<le> 10. (u, t) \<in> supersession entries ^^ h))"
proof -
  obtain r where r: "find_terminal_active pg u g entries = Some r"
    "r = None \<longrightarrow> \<not> (\<exists>h \<le> 10. \<exists>t. (u, t) \<in> supersession entries ^^ h \<and> is_current entries t)"
    "\<forall>t. r = Some t \<longrightarrow> is_current entries t \<and> (\<exists>h \<le> 10. (u, t) \<in> supersession entries ^^ h)"
    using find_terminal_active_id [OF corpus_graph_built [OF assms], of u] by (auto simp: MAX_TRAVERSAL_DEPTH_def)
  then show ?thesis by (cases r) blast+
qed

theorem find_terminal_active_exact_witness:
  "\<exists>g. build_typed_relation_graph list_petgraph list_petgraph (version_chain 2) [] = Some (Inr g) \<and>
     find_terminal_active list_petgraph 0 g (version_chain 2) = Some (Some 2)"
proof -
  obtain g i where b: "build_typed_relation_graph list_petgraph list_petgraph (version_chain 2) [] = Some (Inr g)"
    by (rule version_chain_graph)
  obtain r where r: "find_terminal_active list_petgraph 0 g (version_chain 2) = Some r"
    "r = None \<longleftrightarrow> \<not> (\<exists>h \<le> 10. \<exists>t. (0, t) \<in> supersession (version_chain 2) ^^ h \<and> is_current (version_chain 2) t)"
    "\<forall>t. r = Some t \<longrightarrow> is_current (version_chain 2) t"
    using find_terminal_active_exact [OF list_petgraph_ok list_petgraph_ok version_chain_distinct b, of 0] by blast
  have "\<exists>h \<le> 10. \<exists>t. (0, t) \<in> supersession (version_chain 2) ^^ h \<and> is_current (version_chain 2) t"
    by (intro exI [of _ 2]) (simp add: version_chain_relpow version_chain_current)
  then have "r \<noteq> None" using r(2) by blast
  then have "r = Some 2" using r(3) by (auto simp: version_chain_current)
  then show ?thesis using b r(1) by blast
qed

section \<open>Penalty\<close>

text \<open>
  The penalty as it is computed: chains of up to \<open>max_traversal_depth + 1\<close> hops are followed, one
  more than the documentation of \<open>dfs_active_reachable\<close> and \<open>bfs_chain_depth\<close> admits
  (\<open>depth_cap_exceeded\<close>).
\<close>

lemma graph_penalty_computed:
  assumes "petgraph_ok pg" and "petgraph_ok pt" and "distinct (map eid entries)"
    and "build_typed_relation_graph pg pt entries edges = Some (Inr g)"
    and "e \<in> set entries"
  shows "(\<exists>r. least_hop (active_after entries (max_traversal_depth p) (eid e)) r \<and>
      graph_penalty_with fmul fpowi pg (eid e) g entries p = Some
        (if status e = Deprecated \<and> successors entries (eid e) = [] then orphan p
         else case r of None \<Rightarrow> dead_end p
           | Some d \<Rightarrow>
               if 1 < length (successors entries (eid e)) then partial_supersession p
               else if d = 1 then clean_replacement p
               else if clean_replacement p \<le> HOP_DECAY_CLAMP_FLOOR then clean_replacement p
               else max HOP_DECAY_CLAMP_FLOOR
                 (min (clean_replacement p) (fmul (clean_replacement p) (fpowi (hop_decay p) (as_i32 (d - 1))))))) \<and>
    (u \<notin> eid ` set entries \<longrightarrow> graph_penalty_with fmul fpowi pg u g entries p = Some 1)"
proof -
  let ?m = "max_traversal_depth p" and ?u = "eid e"
  note c = corpus_graph_built [OF assms(1-4)]
  obtain i where i: "hm_get (node_index g) ?u = Some i" using corpus_index [OF c] assms(5) by blast
  note find = entry_by_id_unique [OF assms(3,5)]
  obtain r where r: "bfs_chain_depth i pg g entries ?m = Some r" "least_hop (active_after entries ?m ?u) r"
    by (rule bfs_chain_depth_id [OF c i])
  have d: "dfs_active_reachable i pg g entries ?m = Some (r \<noteq> None)"
    using r(2) dfs_active_reachable_id [OF c i] by (auto simp: least_hop_def split: option.splits)
  have d1: "1 \<le> d" if "r = Some d" for d using r(2) that by (simp add: least_hop_def active_after_def)
  have "chain_penalty fmul fpowi p r = Some (case r of None \<Rightarrow> dead_end p
      | Some d \<Rightarrow> if d = 1 then clean_replacement p
         else if clean_replacement p \<le> HOP_DECAY_CLAMP_FLOOR then clean_replacement p
         else max HOP_DECAY_CLAMP_FLOOR
           (min (clean_replacement p) (fmul (clean_replacement p) (fpowi (hop_decay p) (as_i32 (d - 1))))))"
    using d1 by (cases r) (auto simp: chain_penalty_def f64_clamp_def Let_def min_def max_def)
  then show ?thesis using r corpus_index [OF c, of u]
    by (intro conjI exI [of _ r])
      (auto simp: graph_penalty_with_def i find d corpus_out_degree [OF c i] split: option.splits)
qed

text \<open>The documented cap: an active, unsuperseded version is reached over at most \<open>m\<close> hops.\<close>

definition active_within :: "entry_record list \<Rightarrow> nat \<Rightarrow> nat \<Rightarrow> nat \<Rightarrow> bool" where
  "active_within entries m u h \<longleftrightarrow> 1 \<le> h \<and> h \<le> m \<and>
     (\<exists>t. (u, t) \<in> supersession entries ^^ h \<and> is_current entries t)"

lemma active_within_after:
  assumes "\<not> least_hop (active_after entries m u) (Some (Suc m))"
  shows "least_hop (active_after entries m u) r \<longleftrightarrow> least_hop (active_within entries m u) r"
proof -
  have later: "active_after entries m u h \<longleftrightarrow> active_within entries m u h \<or> h = Suc m \<and> active_after entries m u (Suc m)" for h
  proof (cases "h = Suc m")
    case False
    then have "h \<le> Suc m \<longleftrightarrow> h \<le> m" by linarith
    then show ?thesis using False by (simp add: active_after_def active_within_def)
  qed (simp add: active_within_def)
  have "\<exists>h. active_within entries m u h" if "active_after entries m u (Suc m)"
  proof (rule ccontr)
    assume "\<not> ?thesis"
    then have "least_hop (active_after entries m u) (Some (Suc m))" using that later unfolding least_hop_def option.case by (metis le_refl)
    then show False using assms by blast
  qed
  note reached = this
  have small: "h \<le> m" if "active_within entries m u h" for h using that by (simp add: active_within_def)
  show ?thesis
  proof (cases r)
    case None
    show ?thesis using later reached unfolding None least_hop_def option.case by blast
  next
    case (Some d)
    have "active_within entries m u d" if "active_after entries m u d" "\<forall>h. active_after entries m u h \<longrightarrow> d \<le> h"
      using that later reached small by (metis not_less_eq_eq)
    moreover have "d \<le> h" if "active_within entries m u d" "\<forall>h. active_within entries m u h \<longrightarrow> d \<le> h" "active_after entries m u h" for h
      using that later [of h] small [of d] le_SucI by blast
    ultimately show ?thesis using later unfolding Some least_hop_def option.case by blast
  qed
qed

text \<open>
  C12. The penalty is a function of the entries alone. For an entry of a corpus with unique
  ids, \<open>graph_penalty_with\<close> never panics and returns: the orphan penalty for a deprecated
  entry without successors; the dead-end penalty when no active, unsuperseded version is
  reached over at most \<open>max_traversal_depth\<close> hops; the partial penalty when several entries
  supersede it; otherwise the penalty of the length of the shortest chain to such a version,
  which is the clean replacement for one hop and for more hops the decayed value clamped between
  0.10 and the clean replacement (or the clean replacement when it is below 0.10). This is the
  documented function; the only entries left out are those whose nearest active version is
  exactly one hop beyond the cap, which the code still counts. Entries not in the corpus get 1.0.
  The rounding of the product and of the power does not matter.
\<close>

theorem graph_penalty_exact:
  assumes "petgraph_ok pg" and "petgraph_ok pt" and "distinct (map eid entries)"
    and "build_typed_relation_graph pg pt entries edges = Some (Inr g)"
    and "e \<in> set entries"
    and "\<not> least_hop (active_after entries (max_traversal_depth p) (eid e)) (Some (Suc (max_traversal_depth p)))"
  shows "(\<exists>r. least_hop (active_within entries (max_traversal_depth p) (eid e)) r \<and>
      graph_penalty_with fmul fpowi pg (eid e) g entries p = Some
        (if status e = Deprecated \<and> successors entries (eid e) = [] then orphan p
         else case r of None \<Rightarrow> dead_end p
           | Some d \<Rightarrow>
               if 1 < length (successors entries (eid e)) then partial_supersession p
               else if d = 1 then clean_replacement p
               else if clean_replacement p \<le> HOP_DECAY_CLAMP_FLOOR then clean_replacement p
               else max HOP_DECAY_CLAMP_FLOOR
                 (min (clean_replacement p) (fmul (clean_replacement p) (fpowi (hop_decay p) (as_i32 (d - 1))))))) \<and>
    (u \<notin> eid ` set entries \<longrightarrow> graph_penalty_with fmul fpowi pg u g entries p = Some 1)"
  using graph_penalty_computed [OF assms(1-5), where p = p and fmul = fmul and fpowi = fpowi and u = u]
  unfolding active_within_after [OF assms(6)] .

lemma version_chain_successors: "successors (version_chain n) 0 = (if n = 0 then [] else [chain_version n 1])"
proof (cases n)
  case (Suc k)
  have "filter (\<lambda>e. supersedes e = Some 0) (map (chain_version n) xs) =
      map (chain_version n) (filter (\<lambda>i. i = 1) xs)" for xs
    by (induction xs) (auto simp: chain_version_sel)
  moreover have "filter (\<lambda>i. i = 1) [0..<Suc n] = [1]"
    by (simp add: Suc upt_conv_Cons filter_eq_Cons_iff del: upt_Suc)
  ultimately show ?thesis by (simp add: successors_def version_chain_def Suc del: upt_Suc)
qed (simp add: successors_def version_chain_def chain_version_sel)

lemma version_chain_active: "active_after (version_chain n) m 0 h \<longleftrightarrow> h = n \<and> 1 \<le> n \<and> n \<le> Suc m"
  by (auto simp: active_after_def version_chain_relpow version_chain_current)

text \<open>Two hops with exact arithmetic: 0.4 times 0.6.\<close>

theorem graph_penalty_exact_witness:
  "\<exists>g. build_typed_relation_graph list_petgraph list_petgraph (version_chain 2) [] = Some (Inr g) \<and>
     graph_penalty_with (*) (\<lambda>x k. x ^ nat k) list_petgraph 0 g (version_chain 2) default_params =
       Some (CLEAN_REPLACEMENT_PENALTY * HOP_DECAY_FACTOR)"
proof -
  obtain g i where b: "build_typed_relation_graph list_petgraph list_petgraph (version_chain 2) [] = Some (Inr g)"
    by (rule version_chain_graph)
  have e: "chain_version 2 0 \<in> set (version_chain 2)" by (simp add: version_chain_set)
  have succ: "successors (version_chain 2) 0 = [chain_version 2 1]"
    by (simp add: version_chain_successors)
  have cap: "\<not> least_hop (active_after (version_chain 2) (max_traversal_depth default_params) (eid (chain_version 2 0)))
      (Some (Suc (max_traversal_depth default_params)))"
    by (simp add: least_hop_def version_chain_active chain_version_sel default_params_def MAX_TRAVERSAL_DEPTH_def)
  obtain r where r: "least_hop (active_within (version_chain 2) (max_traversal_depth default_params) 0) r"
    "graph_penalty_with (*) (\<lambda>x k. x ^ nat k) list_petgraph 0 g (version_chain 2) default_params = Some
      (case r of None \<Rightarrow> dead_end default_params | Some d \<Rightarrow>
         if d = 1 then clean_replacement default_params
         else if clean_replacement default_params \<le> HOP_DECAY_CLAMP_FLOOR then clean_replacement default_params
         else max HOP_DECAY_CLAMP_FLOOR (min (clean_replacement default_params)
           (clean_replacement default_params * hop_decay default_params ^ nat (as_i32 (d - 1)))))"
    using graph_penalty_exact [OF list_petgraph_ok list_petgraph_ok version_chain_distinct b e cap,
        of "(*)" "\<lambda>x k. x ^ nat k" 0, THEN conjunct1] unfolding chain_version_sel(1) succ by (auto cong: option.case_cong)
  have "r = Some 2" using r(1)
    by (auto simp: least_hop_def active_within_def version_chain_relpow version_chain_current default_params_def
        MAX_TRAVERSAL_DEPTH_def split: option.splits)
  then have "graph_penalty_with (*) (\<lambda>x k. x ^ nat k) list_petgraph 0 g (version_chain 2) default_params =
      Some (CLEAN_REPLACEMENT_PENALTY * HOP_DECAY_FACTOR)"
    using r(2) by (simp add: default_params_def as_i32_def CLEAN_REPLACEMENT_PENALTY_def HOP_DECAY_FACTOR_def
        HOP_DECAY_CLAMP_FLOOR_def)
  then show ?thesis using b by blast
qed

text \<open>
  Bounds of the default penalty, for any graph and whatever the rounding of the
  arithmetic: a penalty that \<open>graph_penalty\<close> returns is 1.0, the orphan, dead-end or partial
  value, or lies between 0.10 and the clean replacement 0.40; so a replaced entry is always
  ranked below orphans, dead ends and partial supersessions, and never to zero.
\<close>

theorem graph_penalty_bounds:
  assumes "graph_penalty fmul fpowi pg u g entries = Some x"
  shows "(x \<in> {1, ORPHAN_PENALTY, DEAD_END_PENALTY, PARTIAL_SUPERSESSION_PENALTY} \<and> CLEAN_REPLACEMENT_PENALTY < x \<or>
    HOP_DECAY_CLAMP_FLOOR \<le> x \<and> x \<le> CLEAN_REPLACEMENT_PENALTY) \<and> 0 < x \<and> x \<le> 1"
proof -
  note penalty_values = ORPHAN_PENALTY_def DEAD_END_PENALTY_def PARTIAL_SUPERSESSION_PENALTY_def
    CLEAN_REPLACEMENT_PENALTY_def HOP_DECAY_CLAMP_FLOOR_def
  have chain: "x = DEAD_END_PENALTY \<or> HOP_DECAY_CLAMP_FLOOR \<le> x \<and> x \<le> CLEAN_REPLACEMENT_PENALTY"
    if "chain_penalty fmul fpowi default_params r = Some x" for r
    using that by (auto simp: chain_penalty_def default_params_def f64_clamp_def Let_def penalty_values split: option.splits if_splits)
  have "x \<in> {1, ORPHAN_PENALTY, DEAD_END_PENALTY, PARTIAL_SUPERSESSION_PENALTY} \<or>
      HOP_DECAY_CLAMP_FLOOR \<le> x \<and> x \<le> CLEAN_REPLACEMENT_PENALTY"
    using assms chain unfolding graph_penalty_def graph_penalty_with_def Let_def
    by (auto simp: default_params_def split: option.splits if_splits)
  then show ?thesis by (auto simp: penalty_values)
qed

theorem graph_penalty_bounds_witness:
  "graph_penalty (*) (\<lambda>x k. x) list_petgraph 7 (graph_empty list_petgraph) [] = Some 1 \<and> (0 :: real) < 1"
  using graph_penalty_bounds [of "(*)" "\<lambda>x k. x" list_petgraph 7 "graph_empty list_petgraph" "[]" 1]
  by (simp add: graph_penalty_def graph_penalty_with_def graph_empty_def)

text \<open>
  The depth caps disagree by one. On a chain of eleven supersessions to an active
  version, \<open>find_terminal_active\<close> (cap 10) finds nothing, while with the same cap
  \<open>dfs_active_reachable\<close> reports a reachable active version and \<open>bfs_chain_depth\<close> returns a
  depth of 11, beyond the cap it documents.
\<close>

theorem depth_cap_exceeded:
  "\<exists>g i. build_typed_relation_graph list_petgraph list_petgraph (version_chain 11) [] = Some (Inr g) \<and>
     hm_get (node_index g) 0 = Some i \<and>
     find_terminal_active list_petgraph 0 g (version_chain 11) = Some None \<and>
     dfs_active_reachable i list_petgraph g (version_chain 11) MAX_TRAVERSAL_DEPTH = Some True \<and>
     bfs_chain_depth i list_petgraph g (version_chain 11) MAX_TRAVERSAL_DEPTH = Some (Some 11)"
proof -
  obtain g i where b: "build_typed_relation_graph list_petgraph list_petgraph (version_chain 11) [] = Some (Inr g)"
    and c: "corpus_graph list_petgraph (version_chain 11) g" and i: "hm_get (node_index g) 0 = Some i"
    by (rule version_chain_graph)
  note cap = MAX_TRAVERSAL_DEPTH_def
  obtain t where t: "find_terminal_active list_petgraph 0 g (version_chain 11) = Some t"
    "\<forall>v. t = Some v \<longrightarrow> is_current (version_chain 11) v \<and> (\<exists>h \<le> MAX_TRAVERSAL_DEPTH. (0, v) \<in> supersession (version_chain 11) ^^ h)"
    using find_terminal_active_id [OF c, of 0] by blast
  have "t = None" using t(2) by (cases t) (auto simp: version_chain_current version_chain_relpow cap)
  moreover have "dfs_active_reachable i list_petgraph g (version_chain 11) MAX_TRAVERSAL_DEPTH = Some True"
    by (simp add: dfs_active_reachable_id [OF c i] version_chain_active cap)
  moreover obtain r where "bfs_chain_depth i list_petgraph g (version_chain 11) MAX_TRAVERSAL_DEPTH = Some r"
    "least_hop (active_after (version_chain 11) MAX_TRAVERSAL_DEPTH 0) r"
    by (rule bfs_chain_depth_id [OF c i])
  moreover from this(2) have "r = Some 11"
    by (auto simp: least_hop_def version_chain_active cap split: option.splits)
  ultimately show ?thesis using b i t(1) by blast
qed

end
