(* ===== verification/Graph_Path_Props.thy ===== *)
theory Graph_Path_Props
  imports Graph_Path
begin

text \<open>
  What path mode answers. The search in the snapshot and the search in the database are two
  loops with one contract, the locale \<open>path_bfs\<close>: breadth-first search for a shortest path
  of hops. It is interpreted on both loops.
\<close>

section \<open>Resolution\<close>

definition succession :: "(nat \<Rightarrow> store_error + entry_record) \<Rightarrow> (nat \<times> nat) set" where
  "succession get = {(i, j). \<exists>e. get i = Inr e \<and> superseded_by e = Some j}"

definition current_entry :: "(nat \<Rightarrow> store_error + entry_record) \<Rightarrow> nat \<Rightarrow> bool" where
  "current_entry get j \<longleftrightarrow> (\<exists>e. get j = Inr e \<and> superseded_by e = None \<and> status e = Active)"

lemma follow_loop_iff: "follow_loop get n i = Some j \<longleftrightarrow> (\<exists>k < n. (i, j) \<in> succession get ^^ k) \<and> current_entry get j"
proof (induction n arbitrary: i)
  case (Suc n)
  have step: "(i, j) \<in> succession get ^^ Suc k \<longleftrightarrow> (\<exists>y. (i, y) \<in> succession get \<and> (y, j) \<in> succession get ^^ k)" for k
    unfolding relpow.simps(2) relpow_commute [symmetric] by auto
  have split: "(\<exists>k < Suc n. (i, j) \<in> succession get ^^ k) \<longleftrightarrow>
      i = j \<or> (\<exists>y. (i, y) \<in> succession get \<and> (\<exists>k < n. (y, j) \<in> succession get ^^ k))"
    unfolding Ex_less_Suc2 step by auto
  show ?case
  proof (cases "get i")
    case (Inl e)
    then have "(i, y) \<notin> succession get" "\<not> current_entry get i" for y by (simp_all add: succession_def current_entry_def)
    then show ?thesis unfolding split using Inl by auto
  next
    case (Inr e)
    show ?thesis
    proof (cases "superseded_by e")
      case None
      then have "(i, y) \<notin> succession get" for y using Inr by (simp add: succession_def)
      then show ?thesis unfolding split using Inr None by (auto simp: current_entry_def)
    next
      case (Some y)
      then have "(i, z) \<in> succession get \<longleftrightarrow> z = y" for z using Inr by (auto simp: succession_def)
      moreover have "\<not> current_entry get i" using Inr Some by (simp add: current_entry_def)
      ultimately show ?thesis unfolding split using Inr Some Suc.IH [of y] by auto
    qed
  qed
qed simp

text \<open>
  \<open>follow_to_current\<close> finds the current version if and only if fewer than fifty supersessions
  lead to an active entry that is not superseded.
\<close>

lemma follow_to_current_iff:
  "follow_to_current get i = Some j \<longleftrightarrow> (\<exists>k < 50. (i, j) \<in> succession get ^^ k) \<and> current_entry get j"
  by (simp add: follow_to_current_def follow_loop_iff)

section \<open>Paths of hops\<close>

fun hop_path :: "(nat \<times> string \<times> nat) set \<Rightarrow> nat \<Rightarrow> path_hop list \<Rightarrow> nat \<Rightarrow> bool" where
  "hop_path E u [] v \<longleftrightarrow> u = v"
| "hop_path E u (h # hs) v \<longleftrightarrow> (u, hop_type h, hop_entry h) \<in> E \<and> hop_path E (hop_entry h) hs v"

definition hop_rel :: "(nat \<times> string \<times> nat) set \<Rightarrow> (nat \<times> nat) set" where
  "hop_rel E = {(u, v). \<exists>l. (u, l, v) \<in> E}"

lemma hop_path_snoc:
  "hop_path E u (hs @ [h]) v \<longleftrightarrow> (\<exists>w. hop_path E u hs w \<and> (w, hop_type h, hop_entry h) \<in> E \<and> hop_entry h = v)"
  by (induction hs arbitrary: u) auto

lemma hop_path_near: "hop_path E u hs v \<Longrightarrow> v \<in> near (hop_rel E) {u} (length hs)"
proof (induction hs arbitrary: v rule: rev_induct)
  case (snoc h hs)
  then obtain w where "hop_path E u hs w" "(w, hop_type h, v) \<in> E" by (auto simp: hop_path_snoc)
  then show ?case using snoc.IH by (auto simp: near_Suc hop_rel_def)
qed auto

lemma hop_path_last:
  assumes "hop_path E u hs v" and "hs \<noteq> []"
  shows "v \<in> hop_rel E `` near (hop_rel E) {u} (length hs - 1)"
proof -
  obtain hs' h where hs: "hs = hs' @ [h]" using assms(2) by (metis rev_exhaust)
  then obtain w where "hop_path E u hs' w" "(w, hop_type h, v) \<in> E" using assms(1) by (auto simp: hop_path_snoc)
  then show ?thesis using hop_path_near [of E u hs' w] by (auto simp: hs hop_rel_def)
qed

text \<open>Where a path from \<open>u\<close> ends.\<close>

definition path_end :: "nat \<Rightarrow> path_hop list \<Rightarrow> nat" where
  "path_end u hs = (if hs = [] then u else hop_entry (last hs))"

lemma hop_path_end: "hop_path E u hs v \<Longrightarrow> v = path_end u hs"
  by (induction hs arbitrary: u) (auto simp: path_end_def)

lemma path_end_snoc [simp]: "path_end u (hs @ [h]) = hop_entry h"
  by (simp add: path_end_def)

text \<open>The answer expected of a search: a shortest non-empty path of at most \<open>m\<close> hops, if there is one.\<close>

definition shortest_path :: "(nat \<times> string \<times> nat) set \<Rightarrow> nat \<Rightarrow> nat \<Rightarrow> nat \<Rightarrow> path_hop list option \<Rightarrow> bool" where
  "shortest_path E u v m r \<longleftrightarrow>
     (case r of
        None \<Rightarrow> \<forall>hs. hs \<noteq> [] \<longrightarrow> hop_path E u hs v \<longrightarrow> m < length hs
      | Some p \<Rightarrow> p \<noteq> [] \<and> hop_path E u p v \<and> length p \<le> m \<and>
          (\<forall>hs. hs \<noteq> [] \<longrightarrow> hop_path E u hs v \<longrightarrow> length p \<le> length hs))"

lemma shortest_path_unique:
  assumes "shortest_path E u v m r" and "shortest_path E u v m r'"
  shows "map_option length r = map_option length r'"
proof (cases r)
  case None
  then have r: "m < length hs" if "hs \<noteq> []" "hop_path E u hs v" for hs
    using assms(1) that unfolding shortest_path_def by simp
  show ?thesis
  proof (cases r')
    case (Some q)
    then have "q \<noteq> []" "hop_path E u q v" "length q \<le> m" using assms(2) by (simp_all add: shortest_path_def)
    then show ?thesis using r [of q] by simp
  qed (use None in simp)
next
  case (Some p)
  then have p: "p \<noteq> []" "hop_path E u p v" "length p \<le> m" "\<And>hs. hs \<noteq> [] \<Longrightarrow> hop_path E u hs v \<Longrightarrow> length p \<le> length hs"
    using assms(1) unfolding shortest_path_def by simp_all
  show ?thesis
  proof (cases r')
    case None
    then have "m < length p" using assms(2) p(1,2) unfolding shortest_path_def by simp
    then show ?thesis using p(3) by simp
  next
    case q: (Some q)
    then have "q \<noteq> []" "hop_path E u q v" "length q \<le> length p" using assms(2) p(1,2) unfolding shortest_path_def by simp_all
    then show ?thesis using p(4) [of q] Some q by simp
  qed
qed

section \<open>One expansion\<close>

text \<open>
  The body both loops share: the hops from a node in the order they are tried, each with the
  node to continue from, if it has one.
\<close>

fun visit :: "nat \<Rightarrow> path_hop list \<Rightarrow> nat \<Rightarrow> (path_hop \<times> 'n option) list \<Rightarrow>
    ('n \<times> path_hop list \<times> nat) list \<Rightarrow> nat set \<Rightarrow> path_hop list + ('n \<times> path_hop list \<times> nat) list \<times> nat set" where
  "visit t p d [] Q V = Inr (Q, V)"
| "visit t p d ((h, n) # hs) Q V =
     (if hop_entry h = t then Inl (p @ [h])
      else if hop_entry h \<notin> V then
        visit t p d hs (case n of Some m \<Rightarrow> Q @ [(m, p @ [h], d + 1)] | None \<Rightarrow> Q) (insert (hop_entry h) V)
      else visit t p d hs Q V)"

lemma visit_append:
  "visit t p d (xs @ ys) Q V = (case visit t p d xs Q V of Inl r \<Rightarrow> Inl r | Inr (Q', V') \<Rightarrow> visit t p d ys Q' V')"
  by (induction t p d xs Q V rule: visit.induct) simp_all

lemma visit_Inl: "visit t p d hs Q V = Inl r \<Longrightarrow> \<exists>h \<in> fst ` set hs. hop_entry h = t \<and> r = p @ [h]"
  by (induction t p d hs Q V rule: visit.induct) (auto split: if_splits)

lemma visit_Inr:
  "visit t p d hs Q V = Inr (Q', V') \<Longrightarrow>
   (\<forall>h \<in> fst ` set hs. hop_entry h \<noteq> t) \<and> V' = V \<union> hop_entry ` fst ` set hs"
  by (induction t p d hs Q V rule: visit.induct) (auto split: if_splits)

text \<open>Every id newly visited is queued, or has no node to continue from.\<close>

definition queued :: "path_hop list \<Rightarrow> nat \<Rightarrow> (path_hop \<times> 'n option) list \<Rightarrow> nat set \<Rightarrow>
    ('n \<times> path_hop list \<times> nat) list \<Rightarrow> bool" where
  "queued p d hs W new \<longleftrightarrow>
     (\<forall>x \<in> set new. \<exists>k h. x = (k, p @ [h], d) \<and> (h, Some k) \<in> set hs) \<and>
     (\<forall>v \<in> W. (\<exists>k h. (k, p @ [h], d) \<in> set new \<and> hop_entry h = v) \<or> (\<exists>h. (h, None) \<in> set hs \<and> hop_entry h = v))"

lemma queued_mono: "queued p d hs W new \<Longrightarrow> set hs \<subseteq> set hs' \<Longrightarrow> queued p d hs' W new"
  unfolding queued_def by blast

lemma queued_append: "queued p d hs W new \<Longrightarrow> queued p d hs W' new' \<Longrightarrow> queued p d hs (W \<union> W') (new @ new')"
  unfolding queued_def set_append by blast

lemma queued_single:
  "queued p d ((h, n) # hs) {hop_entry h} (case n of Some k \<Rightarrow> [(k, p @ [h], d)] | None \<Rightarrow> [])"
  by (cases n) (auto simp: queued_def)

lemma visit_queued:
  "visit t p d hs Q V = Inr (Q', V') \<Longrightarrow> \<exists>new. Q' = Q @ new \<and> queued p (Suc d) hs (V' - V) new"
proof (induction t p d hs Q V rule: visit.induct)
  case (1 t p d Q V)
  then show ?case by (simp add: queued_def)
next
  case (2 t p d h n hs Q V)
  have t: "hop_entry h \<noteq> t" using "2.prems" by auto
  have sub: "set hs \<subseteq> set ((h, n) # hs)" by auto
  show ?case
  proof (cases "hop_entry h \<in> V")
    case True
    then obtain new where "Q' = Q @ new" "queued p (Suc d) hs (V' - V) new" using "2.IH"(2) [OF t] "2.prems" t by auto
    then show ?thesis using queued_mono [OF _ sub] by blast
  next
    case False
    define mid where "mid = (case n of Some k \<Rightarrow> [(k, p @ [h], Suc d)] | None \<Rightarrow> [])"
    have q: "(case n of Some k \<Rightarrow> Q @ [(k, p @ [h], d + 1)] | None \<Rightarrow> Q) = Q @ mid"
      by (simp add: mid_def split: option.split)
    have v: "visit t p d hs (Q @ mid) (insert (hop_entry h) V) = Inr (Q', V')"
      using "2.prems" t False by (simp add: q)
    then obtain new where new: "Q' = (Q @ mid) @ new" "queued p (Suc d) hs (V' - insert (hop_entry h) V) new"
      using "2.IH"(1) [OF t False] unfolding q by blast
    have "{hop_entry h} \<union> (V' - insert (hop_entry h) V) = V' - V" using visit_Inr [OF v] False by auto
    then have "queued p (Suc d) ((h, n) # hs) (V' - V) (mid @ new)"
      using queued_append [OF queued_single [of p "Suc d" h n hs] queued_mono [OF new(2) sub]] by (simp add: mid_def)
    then show ?thesis using new(1) by auto
  qed
qed

section \<open>The contract of a search\<close>

locale path_bfs =
  fixes expand :: "'n \<Rightarrow> (path_hop \<times> 'n option) list"
    and node_at :: "'n \<Rightarrow> nat \<Rightarrow> bool"
    and E :: "(nat \<times> string \<times> nat) set"
    and t :: nat
    and m :: nat
    and loop :: "('n \<times> path_hop list \<times> nat) list \<Rightarrow> nat set \<Rightarrow> 'r"
    and ret :: "path_hop list option \<Rightarrow> 'r"
  assumes loop_empty: "loop [] V = ret None"
    and loop_deep: "m \<le> d \<Longrightarrow> loop ((n, p, d) # Q) V = loop Q V"
    and loop_found: "node_at n u \<Longrightarrow> d < m \<Longrightarrow> visit t p d (expand n) Q V = Inl r \<Longrightarrow>
      loop ((n, p, d) # Q) V = ret (Some r)"
    and loop_step: "node_at n u \<Longrightarrow> d < m \<Longrightarrow> visit t p d (expand n) Q V = Inr (Q', V') \<Longrightarrow>
      loop ((n, p, d) # Q) V = loop Q' V'"
    and expand_edges: "node_at n u \<Longrightarrow> (\<lambda>h. (u, hop_type h, hop_entry h)) ` fst ` set (expand n) = E \<inter> {u} \<times> UNIV"
    and expand_node: "node_at n u \<Longrightarrow> (h, Some k) \<in> set (expand n) \<Longrightarrow> node_at k (hop_entry h)"
    and expand_leaf: "node_at n u \<Longrightarrow> (h, None) \<in> set (expand n) \<Longrightarrow> (hop_entry h, l, v) \<notin> E"
begin

lemma expand_rel: "node_at n u \<Longrightarrow> hop_entry ` fst ` set (expand n) = hop_rel E `` {u}"
proof -
  assume n: "node_at n u"
  have "hop_entry ` fst ` set (expand n) = (snd \<circ> snd) ` (\<lambda>h. (u, hop_type h, hop_entry h)) ` fst ` set (expand n)"
    by (simp add: image_image)
  also have "\<dots> = hop_rel E `` {u}" unfolding expand_edges [OF n] by (force simp: hop_rel_def image_iff)
  finally show ?thesis .
qed

definition on_path :: "nat \<Rightarrow> nat \<Rightarrow> ('n \<times> path_hop list \<times> nat) list \<Rightarrow> bool" where
  "on_path f D Q \<longleftrightarrow> (\<forall>(n, p, d) \<in> set Q. d = D \<and> length p = D \<and> hop_path E f p (path_end f p) \<and> node_at n (path_end f p))"

definition ends :: "nat \<Rightarrow> ('n \<times> path_hop list \<times> nat) list \<Rightarrow> nat set" where
  "ends f Q = (\<lambda>(n, p, d). path_end f p) ` set Q"

lemma ends_simps [simp]:
  "ends f [] = {}" "ends f ((n, p, d) # Q) = insert (path_end f p) (ends f Q)" "ends f (Q @ Q') = ends f Q \<union> ends f Q'"
  by (simp_all add: ends_def image_Un)

lemma on_path_simps [simp]:
  "on_path f D []"
  "on_path f D ((n, p, d) # Q) \<longleftrightarrow>
     d = D \<and> length p = D \<and> hop_path E f p (path_end f p) \<and> node_at n (path_end f p) \<and> on_path f D Q"
  "on_path f D (Q @ Q') \<longleftrightarrow> on_path f D Q \<and> on_path f D Q'"
  by (simp_all add: on_path_def ball_Un)

text \<open>
  The frontier is the nodes \<open>A\<close> at distance \<open>D\<close> still to expand and nodes \<open>B\<close> found from
  that level: no expanded node has a hop to the target.
\<close>

definition search_inv :: "nat \<Rightarrow> nat \<Rightarrow> ('n \<times> path_hop list \<times> nat) list \<Rightarrow> ('n \<times> path_hop list \<times> nat) list \<Rightarrow> nat set \<Rightarrow> bool" where
  "search_inv f D A B V \<longleftrightarrow>
     on_path f D A \<and> on_path f (Suc D) B \<and>
     near (hop_rel E) {f} D \<subseteq> V \<and> V \<subseteq> near (hop_rel E) {f} (Suc D) \<and>
     hop_rel E `` (near (hop_rel E) {f} D - ends f A) \<subseteq> V \<and>
     t \<notin> hop_rel E `` (near (hop_rel E) {f} D - ends f A) \<and>
     (\<forall>v \<in> V - near (hop_rel E) {f} D. v \<in> ends f B \<or> hop_rel E `` {v} = {}) \<and>
     (\<forall>k < D. t \<notin> hop_rel E `` near (hop_rel E) {f} k)"

lemma ends_near: "on_path f D Q \<Longrightarrow> ends f Q \<subseteq> near (hop_rel E) {f} D"
  using hop_path_near unfolding on_path_def ends_def by fastforce

lemma search_next: "search_inv f D [] B V \<Longrightarrow> search_inv f (Suc D) B [] V"
proof -
  let ?N = "near (hop_rel E) {f}"
  assume "search_inv f D [] B V"
  then have i: "on_path f (Suc D) B" "?N D \<subseteq> V" "V \<subseteq> ?N (Suc D)" "hop_rel E `` ?N D \<subseteq> V" "t \<notin> hop_rel E `` ?N D"
    "\<And>v. v \<in> V \<Longrightarrow> v \<notin> ?N D \<Longrightarrow> v \<notin> ends f B \<Longrightarrow> hop_rel E `` {v} = {}" "\<forall>k < D. t \<notin> hop_rel E `` ?N k"
    unfolding search_inv_def ends_simps by (simp_all, blast)
  have N: "?N (Suc D) = V" using i(2-4) by (auto simp: near_Suc)
  have out: "hop_rel E `` {v} \<subseteq> hop_rel E `` ?N D" if "v \<in> ?N (Suc D) - ends f B" for v
    using that i(6) [of v] unfolding N by blast
  have "hop_rel E `` (?N (Suc D) - ends f B) \<subseteq> hop_rel E `` ?N D" using out by blast
  moreover have "?N (Suc D) \<subseteq> ?N (Suc (Suc D))" by (rule near_mono) simp
  ultimately show ?thesis using i(1,4,5,7) N less_Suc_eq
    unfolding search_inv_def by (intro conjI) auto
qed

text \<open>Nothing left to expand: no path reaches the target at all.\<close>

lemma search_exhausted: "search_inv f D [] [] V \<Longrightarrow> shortest_path E f t m None"
proof -
  let ?N = "near (hop_rel E) {f}"
  assume inv: "search_inv f D [] [] V"
  then have i: "search_inv f (Suc D) [] [] V" by (rule search_next)
  have V: "V \<subseteq> ?N (Suc D)" using inv by (simp add: search_inv_def)
  have "hop_rel E `` ?N (Suc D) \<subseteq> V" "t \<notin> hop_rel E `` ?N (Suc D)" "\<forall>k < Suc D. t \<notin> hop_rel E `` ?N k"
    using i by (simp_all add: search_inv_def)
  moreover from this have "?N (Suc D + n) = ?N (Suc D)" for n using V by (intro near_closed) blast
  ultimately have "t \<notin> hop_rel E `` ?N k" for k
    by (cases "k < Suc D") (simp, metis le_add_diff_inverse not_less)
  then show ?thesis using hop_path_last unfolding shortest_path_def by fastforce
qed

lemma search_cut:
  assumes "\<forall>k < m. t \<notin> hop_rel E `` near (hop_rel E) {f} k"
  shows "shortest_path E f t m None"
proof -
  have "m < length hs" if "hs \<noteq> []" "hop_path E f hs t" for hs
  proof (rule ccontr)
    assume "\<not> m < length hs"
    then have "length hs - 1 < m" using that(1) by (cases hs) auto
    then show False using assms hop_path_last [OF that(2,1)] by blast
  qed
  then show ?thesis by (simp add: shortest_path_def)
qed

lemma search_found:
  assumes "search_inv f D ((n, p, d) # A) B V" and "d < m" and "h \<in> fst ` set (expand n)" and "hop_entry h = t"
  shows "shortest_path E f t m (Some (p @ [h]))"
proof -
  have p: "d = D" "length p = D" "hop_path E f p (path_end f p)" "node_at n (path_end f p)"
    and none: "\<forall>k < D. t \<notin> hop_rel E `` near (hop_rel E) {f} k"
    using assms(1) by (simp_all add: search_inv_def)
  have "(path_end f p, hop_type h, hop_entry h) \<in> E \<inter> {path_end f p} \<times> UNIV"
    unfolding expand_edges [OF p(4), symmetric] using assms(3) by blast
  then have "hop_path E f (p @ [h]) t" using p(3) assms(4) by (auto simp: hop_path_snoc)
  moreover have "length (p @ [h]) \<le> length hs" if "hs \<noteq> []" "hop_path E f hs t" for hs
  proof (rule ccontr)
    assume "\<not> length (p @ [h]) \<le> length hs"
    then have "length hs - 1 < D" using that(1) p(2) by (cases hs) auto
    then show False using none hop_path_last [OF that(2,1)] by blast
  qed
  ultimately show ?thesis using assms(2) p(1,2) by (simp add: shortest_path_def)
qed

lemma search_expand:
  assumes "search_inv f D ((n, p, d) # A) B V"
    and "visit t p d (expand n) (A @ B) V = Inr (Q', V')"
  shows "\<exists>new. Q' = A @ B @ new \<and> search_inv f D A (B @ new) V'"
proof -
  let ?N = "near (hop_rel E) {f}" and ?u = "path_end f p"
  have i: "d = D" "length p = D" "hop_path E f p ?u" "node_at n ?u" "on_path f D A" "on_path f (Suc D) B" "?N D \<subseteq> V"
    "V \<subseteq> ?N (Suc D)" "hop_rel E `` (?N D - insert ?u (ends f A)) \<subseteq> V" "t \<notin> hop_rel E `` (?N D - insert ?u (ends f A))"
    "\<And>v. v \<in> V \<Longrightarrow> v \<notin> ?N D \<Longrightarrow> v \<in> ends f B \<or> hop_rel E `` {v} = {}" "\<forall>k < D. t \<notin> hop_rel E `` ?N k"
    using assms(1) unfolding search_inv_def by auto
  have u: "?u \<in> ?N D" using hop_path_near [OF i(3)] i(2) by simp
  note r = expand_rel [OF i(4)]
  have V': "V' = V \<union> hop_rel E `` {?u}" and t: "t \<notin> hop_rel E `` {?u}"
    unfolding r [symmetric] using visit_Inr [OF assms(2)] by (simp_all add: image_iff) metis
  obtain new where new: "Q' = (A @ B) @ new" and q: "queued p (Suc D) (expand n) (V' - V) new"
    using visit_queued [OF assms(2)] i(1) by blast
  have hop: "hop_path E f (p @ [h]) (hop_entry h)" if "h \<in> fst ` set (expand n)" for h
  proof -
    have "(?u, hop_type h, hop_entry h) \<in> E \<inter> {?u} \<times> UNIV"
      unfolding expand_edges [OF i(4), symmetric] using that by blast
    then show ?thesis using i(3) by (auto simp: hop_path_snoc)
  qed
  have "on_path f (Suc D) new" unfolding on_path_def
  proof clarify
    fix k s e
    assume "(k, s, e) \<in> set new"
    then obtain h where h: "s = p @ [h]" "e = Suc D" "(h, Some k) \<in> set (expand n)" using q unfolding queued_def by blast
    then have "h \<in> fst ` set (expand n)" by force
    then show "e = Suc D \<and> length s = Suc D \<and> hop_path E f s (path_end f s) \<and> node_at k (path_end f s)"
      using h hop expand_node [OF i(4) h(3)] i(2) by simp
  qed
  then have B: "on_path f (Suc D) (B @ new)" using i(6) by simp
  have leaf: "v \<in> ends f (B @ new) \<or> hop_rel E `` {v} = {}" if "v \<in> V' - ?N D" for v
  proof (cases "v \<in> V")
    case True
    then show ?thesis using i(11) [of v] that by auto
  next
    case False
    then consider k h where "(k, p @ [h], Suc D) \<in> set new" "hop_entry h = v" | h where "(h, None) \<in> set (expand n)" "hop_entry h = v"
      using q \<open>v \<in> V' - ?N D\<close> unfolding queued_def by blast
    then show ?thesis
    proof cases
      case 1
      then have "v \<in> ends f new" unfolding ends_def by force
      then show ?thesis by simp
    next
      case 2
      then show ?thesis using expand_leaf [OF i(4) 2(1)] by (auto simp: hop_rel_def)
    qed
  qed
  have "?N D - ends f A \<subseteq> insert ?u (?N D - insert ?u (ends f A))" by blast
  then have out: "hop_rel E `` (?N D - ends f A) \<subseteq> hop_rel E `` {?u} \<union> hop_rel E `` (?N D - insert ?u (ends f A))" by blast
  have "V' \<subseteq> ?N (Suc D)" unfolding V' using i(8) u by (auto simp: near_Suc)
  moreover have "hop_rel E `` (?N D - ends f A) \<subseteq> V'" "t \<notin> hop_rel E `` (?N D - ends f A)" "?N D \<subseteq> V'"
    using out i(7,9,10) t unfolding V' by blast+
  ultimately have "search_inv f D A (B @ new) V'" using i(5,12) B leaf unfolding search_inv_def by blast
  then show ?thesis using new by auto
qed

lemma loop_tail: "on_path f D A \<Longrightarrow> m \<le> D \<Longrightarrow> loop A V = ret None"
  by (induction A) (auto simp: loop_empty loop_deep)

lemma search_correct:
  "search_inv f D A B V \<Longrightarrow> D < m \<or> D = m \<and> B = [] \<Longrightarrow>
   \<exists>r. loop (A @ B) V = ret r \<and> shortest_path E f t m r"
proof (induction "A @ B" arbitrary: D A B V rule: wf_induct_rule [OF wf_hops [of "path_measure m"]])
  case 1
  have step: "\<exists>r. loop (A @ B) V = ret r \<and> shortest_path E f t m r"
    if inv: "search_inv f D ((n, p, d) # A') B' V" and D: "D < m \<or> D = m \<and> B' = []" and Q: "A @ B = (n, p, d) # A' @ B'"
    for D n p d A' B'
  proof (cases "D < m")
    case False
    then have "on_path f D ((n, p, d) # A')" "B' = []" "m \<le> D" "D = m" using inv D by (auto simp: search_inv_def)
    then show ?thesis using loop_tail [of f D "(n, p, d) # A'" V] Q inv search_cut by (auto simp: search_inv_def)
  next
    case True
    have n: "node_at n (path_end f p)" "d = D" using inv by (simp_all add: search_inv_def)
    show ?thesis
    proof (cases "visit t p d (expand n) (A' @ B') V")
      case (Inl r)
      then obtain h where "h \<in> fst ` set (expand n)" "hop_entry h = t" "r = p @ [h]" using visit_Inl [OF Inl] by blast
      then show ?thesis using search_found [OF inv] loop_found [OF n(1) _ Inl] True n(2) Q by auto
    next
      case (Inr QV)
      obtain Q' V' where v: "visit t p d (expand n) (A' @ B') V = Inr (Q', V')" using Inr by (cases QV) auto
      obtain new where new: "Q' = A' @ B' @ new" "search_inv f D A' (B' @ new) V'"
        using search_expand [OF inv v] by blast
      have "on_path f (Suc D) new" using new(2) by (simp add: search_inv_def)
      then have "\<forall>(k, q, e) \<in> set new. e = Suc d" using n(2) unfolding on_path_def by fastforce
      then have "(path_measure m (A' @ B' @ new), path_measure m (A @ B)) \<in> mult less_than"
        using path_measure_expand [of new d m "A' @ B'" n p] True n(2) Q by simp
      then have "\<exists>r. loop (A' @ B' @ new) V' = ret r \<and> shortest_path E f t m r"
        using "1.hyps" [of A' "B' @ new"] new(2) True by simp
      then show ?thesis using loop_step [OF n(1) _ v] True n(2) Q new(1) by simp
    qed
  qed
  show ?case
  proof (cases A)
    case (Cons x A')
    then show ?thesis using step [of D "fst x" "fst (snd x)" "snd (snd x)" A' B] "1.prems" by simp
  next
    case Nil
    show ?thesis
    proof (cases B)
      case B: Nil
      then show ?thesis using Nil search_exhausted "1.prems"(1) loop_empty by auto
    next
      case (Cons x B')
      then have "search_inv f (Suc D) (x # B') [] V" "Suc D < m \<or> Suc D = m"
        using search_next "1.prems" Nil by auto
      then show ?thesis using step [of "Suc D" "fst x" "fst (snd x)" "snd (snd x)" B' "[]"] Nil Cons by simp
    qed
  qed
qed

theorem search_shortest:
  assumes "node_at n f"
  shows "\<exists>r. loop [(n, [], 0)] {f} = ret r \<and> shortest_path E f t m r"
proof -
  have "search_inv f 0 [(n, [], 0)] [] {f}"
    using assms by (auto simp: search_inv_def path_end_def near_Suc)
  then show ?thesis using search_correct [of f 0 "[(n, [], 0)]" "[]" "{f}"] by auto
qed

end

section \<open>The search in the snapshot\<close>

definition target_hops :: "('g, 'ix, relation_edge) petgraph \<Rightarrow> ('g, 'ix) typed_relation_graph \<Rightarrow> (nat \<Rightarrow> nat) \<Rightarrow>
    relation_type \<Rightarrow> 'ix list \<Rightarrow> (path_hop \<times> 'ix option) list" where
  "target_hops pg g eff rt tgts = concat (map (\<lambda>i.
     case node_id_for_index pg g i of
       None \<Rightarrow> []
     | Some raw \<Rightarrow> [(\<lparr>hop_entry = eff raw, hop_type = as_str rt\<rparr>, node_index_for g (eff raw))]) tgts)"

definition snapshot_expand :: "('g, 'ix, relation_edge) petgraph \<Rightarrow> ('g, 'ix) typed_relation_graph \<Rightarrow> (nat \<Rightarrow> nat) \<Rightarrow>
    relation_type list \<Rightarrow> 'ix \<Rightarrow> (path_hop \<times> 'ix option) list" where
  "snapshot_expand pg g eff types n = concat (map (\<lambda>rt.
     target_hops pg g eff rt (map (\<lambda>(_, target, _). target) (edges_of_type pg g n rt Outgoing))) types)"

lemma path_targets_visit:
  "path_targets pg g eff t rt p d tgts Q V = visit t p d (target_hops pg g eff rt tgts) Q V"
proof (induction tgts arbitrary: Q V)
  case (Cons i tgts)
  then show ?case
    by (cases "node_id_for_index pg g i"; cases "node_index_for g (eff (the (node_id_for_index pg g i)))")
      (simp_all add: target_hops_def Let_def)
qed (simp add: target_hops_def)

lemma path_types_visit:
  "path_types pg g eff t n p d types Q V = visit t p d (snapshot_expand pg g eff types n) Q V"
  by (induction types arbitrary: Q V)
    (simp_all add: snapshot_expand_def path_targets_visit visit_append split: sum.split)

definition snapshot_node :: "('g, 'ix, relation_edge) petgraph \<Rightarrow> ('g, 'ix) typed_relation_graph \<Rightarrow> 'ix \<Rightarrow> nat \<Rightarrow> bool" where
  "snapshot_node pg g n u \<longleftrightarrow> petgraph_ok pg \<and> graph_wf pg g \<and> node_index_for g u = Some n"

text \<open>An edge leads to the current version of its target.\<close>

definition snapshot_edges :: "('g, 'ix, relation_edge) petgraph \<Rightarrow> ('g, 'ix) typed_relation_graph \<Rightarrow> (nat \<Rightarrow> nat) \<Rightarrow>
    relation_type list \<Rightarrow> (nat \<times> string \<times> nat) set" where
  "snapshot_edges pg g eff types = {(u, l, v). \<exists>rt \<in> set types. \<exists>w. (u, w) \<in> type_rel pg g rt \<and> l = as_str rt \<and> v = eff w}"

lemma target_hops_set:
  "set (target_hops pg g eff rt tgts) =
   (\<lambda>w. (\<lparr>hop_entry = eff w, hop_type = as_str rt\<rparr>, node_index_for g (eff w))) ` {w. \<exists>i \<in> set tgts. node_id_for_index pg g i = Some w}"
proof (rule set_eqI)
  fix x
  show "x \<in> set (target_hops pg g eff rt tgts) \<longleftrightarrow> x \<in> (\<lambda>w. (\<lparr>hop_entry = eff w, hop_type = as_str rt\<rparr>,
      node_index_for g (eff w))) ` {w. \<exists>i \<in> set tgts. node_id_for_index pg g i = Some w}"
    by (induction tgts) (auto simp: target_hops_def split: option.splits)
qed

lemma snapshot_expand_set:
  assumes "snapshot_node pg g n u"
  shows "set (snapshot_expand pg g eff types n) = (\<Union>rt \<in> set types.
    (\<lambda>w. (\<lparr>hop_entry = eff w, hop_type = as_str rt\<rparr>, node_index_for g (eff w))) ` (type_rel pg g rt `` {u}))"
proof -
  have ok: "petgraph_ok pg" "graph_wf pg g" "hm_get (node_index g) u = Some n"
    using assms by (simp_all add: snapshot_node_def node_index_for_def)
  have "{w. \<exists>i \<in> set (map (\<lambda>(_, target, _). target) (edges_of_type pg g n rt Outgoing)). node_id_for_index pg g i = Some w} =
      type_rel pg g rt `` {u}" for rt
    unfolding out_ids [OF ok, symmetric] node_id_for_index_def
    using edges_weights(2) [OF ok(1,2)] by (force simp: image_iff)
  then show ?thesis by (simp add: snapshot_expand_def target_hops_set)
qed

interpretation snapshot: path_bfs "snapshot_expand pg g eff types" "snapshot_node pg g" "snapshot_edges pg g eff types"
    t m "path_loop pg g eff t types m" "\<lambda>r. r" for pg g eff types t m
proof
  fix n u h k l v
  assume n: "snapshot_node pg g n u"
  show "(\<lambda>h. (u, hop_type h, hop_entry h)) ` fst ` set (snapshot_expand pg g eff types n) =
      snapshot_edges pg g eff types \<inter> {u} \<times> UNIV"
    unfolding snapshot_expand_set [OF n] snapshot_edges_def by (force simp: image_iff)
  show "(h, Some k) \<in> set (snapshot_expand pg g eff types n) \<Longrightarrow> snapshot_node pg g k (hop_entry h)"
    unfolding snapshot_expand_set [OF n] using n by (auto simp: snapshot_node_def)
  show "(h, None) \<in> set (snapshot_expand pg g eff types n) \<Longrightarrow> (hop_entry h, l, v) \<notin> snapshot_edges pg g eff types"
  proof
    assume "(h, None) \<in> set (snapshot_expand pg g eff types n)"
    then have "hop_entry h \<notin> graph_ids g"
      unfolding snapshot_expand_set [OF n] by (auto simp: node_index_for_def graph_ids_def)
    moreover assume "(hop_entry h, l, v) \<in> snapshot_edges pg g eff types"
    ultimately show False using id_edges_ids [of pg g] n by (auto simp: snapshot_edges_def type_rel_def snapshot_node_def)
  qed
qed (simp_all add: path_types_visit)

section \<open>The search in the database\<close>

definition row_hops :: "(nat \<Rightarrow> nat) \<Rightarrow> raw_edge_row list \<Rightarrow> (path_hop \<times> nat option) list" where
  "row_hops eff rows = map (\<lambda>row. (\<lparr>hop_entry = eff (raw_target_id row), hop_type = raw_relation_type row\<rparr>,
     Some (eff (raw_target_id row)))) rows"

lemma path_rows_visit: "path_rows eff t p d rows Q V = visit t p d (row_hops eff rows) Q V"
  by (induction rows arbitrary: Q V) (simp_all add: row_hops_def Let_def)

text \<open>The engine answers every selection with the rows that satisfy it.\<close>

definition table_ok :: "edge_fetch \<Rightarrow> graph_edge_row list \<Rightarrow> bool" where
  "table_ok fetch rows \<longleftrightarrow> (\<forall>P. \<exists>rs. fetch P = Inr rs \<and> mset rs = mset (filter P rows))"

text \<open>No entry has more outgoing rows of the types than the search reads.\<close>

definition fan_out_ok :: "string list \<Rightarrow> graph_edge_row list \<Rightarrow> bool" where
  "fan_out_ok type_strs rows \<longleftrightarrow> (\<forall>u. length (filter (outgoing_condition u type_strs) rows) \<le> MAX_DB_NEIGHBORS_PER_NODE)"

definition db_expand :: "edge_fetch \<Rightarrow> (nat \<Rightarrow> nat) \<Rightarrow> string list \<Rightarrow> nat \<Rightarrow> (path_hop \<times> nat option) list" where
  "db_expand fetch eff type_strs u =
     (case query_direct_neighbors fetch u type_strs NOutgoing of
        Inl _ \<Rightarrow> []
      | Inr rows \<Rightarrow> row_hops eff (take MAX_DB_NEIGHBORS_PER_NODE rows))"

definition db_edges :: "(nat \<Rightarrow> nat) \<Rightarrow> string list \<Rightarrow> graph_edge_row list \<Rightarrow> (nat \<times> string \<times> nat) set" where
  "db_edges eff type_strs rows =
     {(u, l, v). \<exists>row \<in> set rows. outgoing_condition u type_strs row \<and> l = row_type row \<and> v = eff (target_id row)}"

definition db_node :: "edge_fetch \<Rightarrow> string list \<Rightarrow> graph_edge_row list \<Rightarrow> nat \<Rightarrow> nat \<Rightarrow> bool" where
  "db_node fetch type_strs rows n u \<longleftrightarrow> table_ok fetch rows \<and> fan_out_ok type_strs rows \<and> n = u"

lemma query_outgoing:
  assumes "db_node fetch strs rows n u"
  obtains rs where "query_direct_neighbors fetch u strs NOutgoing = Inr (map map_edge_row rs)"
    "set rs = {row \<in> set rows. outgoing_condition u strs row}"
    "take MAX_DB_NEIGHBORS_PER_NODE (map map_edge_row rs) = map map_edge_row rs"
proof -
  obtain rs where rs: "fetch (outgoing_condition u strs) = Inr rs" "mset rs = mset (filter (outgoing_condition u strs) rows)"
    using assms unfolding db_node_def table_ok_def by blast
  have "length rs \<le> MAX_DB_NEIGHBORS_PER_NODE"
    using assms mset_eq_length [OF rs(2)] unfolding db_node_def fan_out_ok_def by metis
  moreover have "set rs = {row \<in> set rows. outgoing_condition u strs row}" using mset_eq_setD [OF rs(2)] by simp
  ultimately show thesis using rs(1) that [of rs] by (simp add: query_direct_neighbors_def run_outgoing_query_def)
qed

lemma db_expand_set:
  assumes "db_node fetch strs rows n u"
  shows "set (db_expand fetch eff strs n) =
    (\<lambda>row. (\<lparr>hop_entry = eff (target_id row), hop_type = row_type row\<rparr>, Some (eff (target_id row)))) `
      {row \<in> set rows. outgoing_condition u strs row}"
proof -
  obtain rs where "query_direct_neighbors fetch u strs NOutgoing = Inr (map map_edge_row rs)"
    "set rs = {row \<in> set rows. outgoing_condition u strs row}"
    "take MAX_DB_NEIGHBORS_PER_NODE (map map_edge_row rs) = map map_edge_row rs" by (rule query_outgoing [OF assms])
  moreover have "n = u" using assms by (simp add: db_node_def)
  ultimately show ?thesis by (simp add: db_expand_def row_hops_def map_edge_row_def image_image del: take_map)
qed

interpretation database: path_bfs "db_expand fetch eff strs" "db_node fetch strs rows" "db_edges eff strs rows"
    t m "path_db_loop fetch eff t strs m" Inr for fetch eff strs rows t m
proof
  fix n u h k l v
  assume n: "db_node fetch strs rows n u"
  show "(\<lambda>h. (u, hop_type h, hop_entry h)) ` fst ` set (db_expand fetch eff strs n) = db_edges eff strs rows \<inter> {u} \<times> UNIV"
    unfolding db_expand_set [OF n] db_edges_def by (force simp: image_iff)
  show "(h, Some k) \<in> set (db_expand fetch eff strs n) \<Longrightarrow> db_node fetch strs rows k (hop_entry h)"
    unfolding db_expand_set [OF n] using n by (auto simp: db_node_def)
  show "(h, None) \<in> set (db_expand fetch eff strs n) \<Longrightarrow> (hop_entry h, l, v) \<notin> db_edges eff strs rows"
    unfolding db_expand_set [OF n] by auto
next
  fix n u d p Q V r Q' V'
  assume n: "db_node fetch strs rows n u" and d: "d < m"
  obtain rs where q: "query_direct_neighbors fetch n strs NOutgoing = Inr (map map_edge_row rs)"
    using query_outgoing [OF n] n by (auto simp: db_node_def)
  then have e: "path_rows eff t p d (take MAX_DB_NEIGHBORS_PER_NODE (map map_edge_row rs)) Q V = visit t p d (db_expand fetch eff strs n) Q V"
    by (simp add: path_rows_visit db_expand_def)
  show "visit t p d (db_expand fetch eff strs n) Q V = Inl r \<Longrightarrow> path_db_loop fetch eff t strs m ((n, p, d) # Q) V = Inr (Some r)"
    using d q e by simp
  show "visit t p d (db_expand fetch eff strs n) Q V = Inr (Q', V') \<Longrightarrow>
      path_db_loop fetch eff t strs m ((n, p, d) # Q) V = path_db_loop fetch eff t strs m Q' V'"
    using d q e by simp
qed simp_all

section \<open>What the handler answers\<close>

definition current_of :: "(nat \<Rightarrow> store_error + entry_record) \<Rightarrow> graph_params \<Rightarrow> nat \<Rightarrow> nat" where
  "current_of get params = effective get (gp_resolve params \<noteq> Some False)"

definition search_response :: "nat \<Rightarrow> nat \<Rightarrow> path_hop list option \<Rightarrow> path_response" where
  "search_response f t r = (case r of None \<Rightarrow> path_not_found f t | Some p \<Rightarrow> path_found f t p)"

lemma path_depth_bound: "path_depth params = Inr m \<Longrightarrow> 1 \<le> m \<and> m \<le> 10"
  by (auto simp: path_depth_def DEFAULT_DEPTH_def MAX_DEPTH_UPPER_def split: option.splits if_splits)

lemma parse_loop_length: "parse_loop ts parsed = Inr types \<Longrightarrow> length types = length parsed + length ts"
  by (induction ts parsed rule: parse_loop.induct) (auto split: option.splits)

lemma path_edge_types_nonempty: "path_edge_types params = Inr types \<Longrightarrow> types \<noteq> []"
  using parse_loop_length [of _ "[]" types]
  by (fastforce simp: path_edge_types_def all_non_supersedes_types_def parse_relation_types_def split: option.splits if_splits)

lemma search_response_facts:
  assumes "shortest_path E f t m r" and "f \<noteq> t" and "m \<le> 10"
  shows "(resp_found (search_response f t r) \<longleftrightarrow> (\<exists>hs. hop_path E f hs t \<and> length hs \<le> m)) \<and>
    (resp_found (search_response f t r) \<longrightarrow> hop_path E f (resp_hops (search_response f t r)) t \<and>
       (\<forall>hs. hop_path E f hs t \<longrightarrow> length (resp_hops (search_response f t r)) \<le> length hs)) \<and>
    resp_length (search_response f t r) = length (resp_hops (search_response f t r))"
proof -
  have ne: "hs \<noteq> []" if "hop_path E f hs t" for hs using that assms(2) by auto
  show ?thesis
  proof (cases r)
    case None
    then show ?thesis using assms(1) ne
      by (auto simp: search_response_def path_not_found_def shortest_path_def not_le)
  next
    case (Some p)
    then show ?thesis using assms(1,3) ne
      by (auto simp: search_response_def path_found_def shortest_path_def)
  qed
qed

lemma handle_path_valid:
  assumes "gp_from_id params = Some a" and "gp_to_id params = Some b" and "a \<noteq> b"
    and "path_depth params = Inr m" and "path_edge_types params = Inr types"
  shows "handle_path pg fetch get st params =
    path_search pg fetch get st (current_of get params a) (current_of get params b) types m (gp_resolve params \<noteq> Some False)"
  using assms by (auto simp: handle_path_def current_of_def split: option.split)

lemma path_search_snapshot:
  assumes "petgraph_ok pg" and "graph_wf pg (typed_graph st)" and "\<not> use_fallback st"
    and "f \<in> graph_ids (typed_graph st)" and "t \<in> graph_ids (typed_graph st)" and "f \<noteq> t"
  shows "\<exists>r. path_search pg fetch get st f t types m resolve = Inr (search_response f t r) \<and>
    shortest_path (snapshot_edges pg (typed_graph st) (effective get resolve) types) f t m r"
proof -
  let ?g = "typed_graph st"
  obtain i j where ij: "node_index_for ?g f = Some i" "node_index_for ?g t = Some j"
    using assms(4,5) by (auto simp: graph_ids_def node_index_for_def)
  have "i \<noteq> j" using ij assms(6) wf_index [OF assms(2)] by (auto simp: node_index_for_def)
  moreover have n: "snapshot_node pg ?g i f" using assms(1,2) ij by (simp add: snapshot_node_def)
  ultimately show ?thesis
    using snapshot.search_shortest [OF n, where eff = "effective get resolve" and types = types and t = t and m = m] assms(3) ij
    by (auto simp: path_search_def search_response_def Let_def simp del: path_loop.simps split: option.split)
qed

lemma path_search_absent:
  assumes "\<not> use_fallback st" and "f \<notin> graph_ids (typed_graph st) \<or> t \<notin> graph_ids (typed_graph st) \<or> f = t"
  shows "path_search pg fetch get st f t types m resolve = Inr (path_not_found f t)"
  using assms by (auto simp: path_search_def graph_ids_def node_index_for_def Let_def domIff split: option.splits)

lemma path_search_database:
  assumes "use_fallback st" and "table_ok fetch rows" and "fan_out_ok (map as_str types) rows"
  shows "\<exists>r. path_search pg fetch get st f t types m resolve = Inr (search_response f t r) \<and>
    shortest_path (db_edges (effective get resolve) (map as_str types) rows) f t m r"
proof -
  have n: "db_node fetch (map as_str types) rows f f" using assms(2,3) by (simp add: db_node_def)
  show ?thesis
    using database.search_shortest [OF n, where eff = "effective get resolve" and t = t and m = m] assms(1)
    by (auto simp: path_search_def path_via_db_def search_response_def Let_def simp del: path_db_loop.simps split: option.split)
qed

text \<open>
  C13. Path mode on a warm snapshot, for every well-formed graph and every valid request: the
  handler answers without an error. If an endpoint is missing from the snapshot or both
  resolve to one entry, nothing is found. Otherwise a path is found if and only if some
  sequence of at most \<open>depth\<close> outgoing edges of the requested types, each continued from the
  current version of its target, leads from the resolved source to the resolved target; the
  hops returned are such a path, no path has fewer hops, and the length field is their number.
\<close>

theorem handle_path_shortest:
  assumes "petgraph_ok pg" and "graph_wf pg (typed_graph st)" and "\<not> use_fallback st"
    and "gp_from_id params = Some a" and "gp_to_id params = Some b" and "a \<noteq> b"
    and "path_depth params = Inr m" and "path_edge_types params = Inr types"
  shows "\<exists>resp. handle_path pg fetch get st params = Inr resp \<and>
    resp_from resp = current_of get params a \<and> resp_to resp = current_of get params b \<and>
    (let f = current_of get params a; t = current_of get params b; ids = graph_ids (typed_graph st);
         E = snapshot_edges pg (typed_graph st) (current_of get params) types
     in (if f \<notin> ids \<or> t \<notin> ids \<or> f = t then \<not> resp_found resp \<and> resp_hops resp = []
         else (resp_found resp \<longleftrightarrow> (\<exists>hs. hop_path E f hs t \<and> length hs \<le> m)) \<and>
           (resp_found resp \<longrightarrow> hop_path E f (resp_hops resp) t \<and>
              (\<forall>hs. hop_path E f hs t \<longrightarrow> length (resp_hops resp) \<le> length hs))) \<and>
        resp_length resp = length (resp_hops resp))"
proof -
  let ?f = "current_of get params a" and ?t = "current_of get params b" and ?ids = "graph_ids (typed_graph st)"
  note h = handle_path_valid [OF assms(4-8), of pg fetch get st]
  show ?thesis
  proof (cases "?f \<notin> ?ids \<or> ?t \<notin> ?ids \<or> ?f = ?t")
    case True
    then show ?thesis using path_search_absent [OF assms(3) True] by (simp add: h Let_def path_not_found_def)
  next
    case False
    then obtain r where "handle_path pg fetch get st params = Inr (search_response ?f ?t r)"
      "shortest_path (snapshot_edges pg (typed_graph st) (current_of get params) types) ?f ?t m r"
      using path_search_snapshot [OF assms(1-3)] unfolding h current_of_def by blast
    moreover have "resp_from (search_response ?f ?t r) = ?f" "resp_to (search_response ?f ?t r) = ?t" for r
      by (simp_all add: search_response_def path_not_found_def path_found_def split: option.split)
    ultimately show ?thesis
      using search_response_facts path_depth_bound [OF assms(7)] False by (simp add: Let_def)
  qed
qed

definition path_request :: "nat \<Rightarrow> nat \<Rightarrow> graph_params" where
  "path_request a b = \<lparr>gp_from_id = Some a, gp_to_id = Some b, gp_depth = None, gp_edge_types = None, gp_resolve = None\<rparr>"

lemma path_request_simps [simp]:
  "gp_from_id (path_request a b) = Some a" "gp_to_id (path_request a b) = Some b" "gp_resolve (path_request a b) = None"
  "path_depth (path_request a b) = Inr 5" "path_edge_types (path_request a b) = Inr all_non_supersedes_types"
  by (simp_all add: path_request_def path_depth_def path_edge_types_def DEFAULT_DEPTH_def)

definition all_active :: "nat \<Rightarrow> store_error + entry_record" where
  "all_active i = Inr (entry_v i None Active None)"

lemma current_all_active [simp]: "current_of all_active params i = i"
  by (simp add: current_of_def effective_def follow_to_current_def all_active_def numeral_eq_Suc)

theorem handle_path_shortest_witness:
  "\<exists>resp. handle_path list_petgraph (\<lambda>_. Inr []) all_active
     \<lparr>typed_graph = contradiction_sample, all_entries = [], use_fallback = False\<rparr> (path_request 1 2) = Inr resp \<and>
   resp_found resp \<and> resp_length resp = length (resp_hops resp)"
proof -
  let ?st = "\<lparr>typed_graph = contradiction_sample, all_entries = [], use_fallback = False\<rparr>"
  let ?E = "snapshot_edges list_petgraph contradiction_sample (current_of all_active (path_request 1 2)) all_non_supersedes_types"
  have "(1, 2) \<in> type_rel list_petgraph contradiction_sample Contradicts"
    by (simp add: type_rel_def id_edges_def contradiction_sample_def list_petgraph_def)
  then have "(1, ''Contradicts'', 2) \<in> ?E" by (auto simp: snapshot_edges_def all_non_supersedes_types_def)
  then have "hop_path ?E 1 [\<lparr>hop_entry = 2, hop_type = ''Contradicts''\<rparr>] 2" by simp
  then have p: "\<exists>hs. hop_path ?E 1 hs 2 \<and> length hs \<le> 5" by (rule_tac exI [of _ "[\<lparr>hop_entry = 2, hop_type = ''Contradicts''\<rparr>]"]) simp
  have "graph_ids contradiction_sample = {1, 2}" by (auto simp: graph_ids_def contradiction_sample_def)
  then show ?thesis
    using handle_path_shortest [OF list_petgraph_ok, of ?st "path_request 1 2" 1 2 5 all_non_supersedes_types
        "\<lambda>_. Inr []" all_active] contradiction_sample_wf p
    by (fastforce simp: Let_def)
qed

section \<open>Cold and warm\<close>

text \<open>The entries of the snapshot.\<close>

definition live_ids :: "entry_record list \<Rightarrow> nat set" where
  "live_ids entries = eid ` {e \<in> set entries. status e \<noteq> Quarantined}"

lemma live_ids_code: "live_ids entries = eid ` set (filter (\<lambda>e. status e \<noteq> Quarantined) entries)"
  by (simp add: live_ids_def)

lemma distinct_filter_eids: "distinct (map eid entries) \<Longrightarrow> distinct (map eid (filter P entries))"
  by (simp add: distinct_map inj_on_def)

lemma rebuild_state:
  assumes "petgraph_ok pg" and "petgraph_ok pt" and "distinct (map eid entries)"
    and "rebuild pg pt (Inr entries) (Inr rows) = Some (Inr st)"
  shows "graph_wf pg (typed_graph st) \<and> graph_ids (typed_graph st) = live_ids entries \<and> \<not> use_fallback st \<and>
    id_edges pg (typed_graph st) = expected_edges (filter (\<lambda>e. status e \<noteq> Quarantined) entries) rows"
proof -
  let ?es = "filter (\<lambda>e. status e \<noteq> Quarantined) entries"
  obtain g where "build_typed_relation_graph pg pt ?es rows = Some (if acyclic (supersession ?es) then Inr g else Inl CycleDetected)"
    "graph_wf pg g" "graph_ids g = eid ` set ?es" "id_edges pg g = expected_edges ?es rows"
    using build_graph [OF assms(1,2) distinct_filter_eids [OF assms(3)], of _ rows] by blast
  then show ?thesis using assms(4)
    by (auto simp: rebuild_def live_ids_def split: if_splits)
qed

lemma row_type_rel:
  assumes "id_edges pg g = expected_edges es rows" and "rt \<noteq> Supersedes"
  shows "type_rel pg g rt = {(source_id row, target_id row) | row. row \<in> set rows \<and> admitted_row (eid ` set es) row \<and> row_type row = as_str rt}"
proof -
  have "as_str rt \<noteq> ''Supersedes''" using assms(2) by (cases rt) simp_all
  then show ?thesis unfolding type_rel_def assms(1)
    by (force simp: expected_edges_def supersession_edges_def supersedes_edge_def row_edges_def row_edge_def
        split: option.splits if_splits)
qed

text \<open>
  C14. Path mode answers the same before and after the first tick. Let the snapshot be rebuilt
  from the entries and the edge table, and let every row of a requested type join two entries
  that are not quarantined, without the bootstrap flag, and Supersedes not be requested; let
  no entry have more outgoing rows than the database search reads. Then for every valid
  request whose endpoints resolve to two different entries of the snapshot, the search in the
  snapshot and the search in the database agree whether there is a path and on its length.
\<close>

theorem path_modes_agree:
  assumes "petgraph_ok pg" and "petgraph_ok pt" and "distinct (map eid entries)"
    and "rebuild pg pt (Inr entries) (Inr rows) = Some (Inr st)" and "use_fallback cold"
    and "table_ok fetch rows" and "fan_out_ok (map as_str types) rows"
    and "gp_from_id params = Some a" and "gp_to_id params = Some b"
    and "path_depth params = Inr m" and "path_edge_types params = Inr types" and "Supersedes \<notin> set types"
    and "\<forall>row \<in> set rows. row_type row \<in> as_str ` set types \<longrightarrow>
      \<not> row_bootstrap_only row \<and> source_id row \<in> live_ids entries \<and> target_id row \<in> live_ids entries"
    and "current_of get params a \<in> live_ids entries" and "current_of get params b \<in> live_ids entries"
    and "current_of get params a \<noteq> current_of get params b"
  shows "\<exists>warm_resp cold_resp. handle_path pg fetch get st params = Inr warm_resp \<and>
    handle_path pg fetch get cold params = Inr cold_resp \<and>
    resp_found warm_resp = resp_found cold_resp \<and> resp_length warm_resp = resp_length cold_resp \<and>
    resp_from warm_resp = resp_from cold_resp \<and> resp_to warm_resp = resp_to cold_resp"
proof -
  let ?f = "current_of get params a" and ?t = "current_of get params b" and ?r = "gp_resolve params \<noteq> Some False"
  let ?W = "snapshot_edges pg (typed_graph st) (effective get ?r) types" and ?C = "db_edges (effective get ?r) (map as_str types) rows"
  have st: "graph_wf pg (typed_graph st)" "graph_ids (typed_graph st) = live_ids entries" "\<not> use_fallback st"
    "id_edges pg (typed_graph st) = expected_edges (filter (\<lambda>e. status e \<noteq> Quarantined) entries) rows"
    using rebuild_state [OF assms(1-4)] by simp_all
  have ids: "eid ` set (filter (\<lambda>e. status e \<noteq> Quarantined) entries) = live_ids entries" by (simp add: live_ids_def)
  have sup: "as_str rt = ''Supersedes'' \<longleftrightarrow> rt = Supersedes" for rt by (cases rt) simp_all
  have adm: "admitted_row (live_ids entries) row" if "row \<in> set rows" "row_type row = as_str rt" "rt \<in> set types" for row rt
    using assms(12,13) that by (auto simp: admitted_row_def sup)
  have ne: "types \<noteq> []" by (rule path_edge_types_nonempty [OF assms(11)])
  have rel: "type_rel pg (typed_graph st) rt = {(source_id row, target_id row) | row. row \<in> set rows \<and> row_type row = as_str rt}"
    if "rt \<in> set types" for rt
  proof -
    have "rt \<noteq> Supersedes" using that assms(12) by blast
    then show ?thesis using adm [OF _ _ that] unfolding row_type_rel [OF st(4) \<open>rt \<noteq> Supersedes\<close>] ids by blast
  qed
  have "(u, l, v) \<in> ?W \<longleftrightarrow> (u, l, v) \<in> ?C" for u l v
  proof -
    have "(u, l, v) \<in> ?W \<longleftrightarrow> (\<exists>rt \<in> set types. \<exists>row \<in> set rows. source_id row = u \<and> row_type row = as_str rt \<and>
        l = as_str rt \<and> v = effective get ?r (target_id row))"
      by (auto simp: snapshot_edges_def rel)
    also have "\<dots> \<longleftrightarrow> (u, l, v) \<in> ?C" using ne by (auto simp: db_edges_def outgoing_condition_def)
    finally show ?thesis .
  qed
  then have E: "?W = ?C" by auto
  obtain r where w: "path_search pg fetch get st ?f ?t types m ?r = Inr (search_response ?f ?t r)" "shortest_path ?W ?f ?t m r"
    using path_search_snapshot [OF assms(1) st(1,3)] assms(14-16) unfolding st(2) by blast
  obtain r' where c: "path_search pg fetch get cold ?f ?t types m ?r = Inr (search_response ?f ?t r')" "shortest_path ?C ?f ?t m r'"
    using path_search_database [OF assms(5-7)] by blast
  have "map_option length r = map_option length r'"
    using shortest_path_unique [OF w(2)] c(2) unfolding E by blast
  then have "resp_found (search_response ?f ?t r) = resp_found (search_response ?f ?t r') \<and>
      resp_length (search_response ?f ?t r) = resp_length (search_response ?f ?t r') \<and>
      resp_from (search_response ?f ?t r) = resp_from (search_response ?f ?t r') \<and>
      resp_to (search_response ?f ?t r) = resp_to (search_response ?f ?t r')"
    by (cases r; cases r') (auto simp: search_response_def path_found_def path_not_found_def)
  moreover have ab: "a \<noteq> b" using assms(16) by auto
  moreover note handle_path_valid [OF assms(8,9) ab assms(10,11), of pg fetch get st]
    handle_path_valid [OF assms(8,9) ab assms(10,11), of pg fetch get cold]
  ultimately show ?thesis using w(1) c(1) by simp
qed

definition cites_row :: "nat \<Rightarrow> nat \<Rightarrow> graph_edge_row" where
  "cites_row a b = \<lparr>source_id = a, target_id = b, row_type = ''Cites'', row_weight = 0x3F800000, row_created_at = 0,
     row_created_by = ''agent'', row_source = ''agent'', row_bootstrap_only = False\<rparr>"

lemma cites_row_sel [simp]:
  "source_id (cites_row a b) = a" "target_id (cites_row a b) = b" "row_type (cites_row a b) = ''Cites''"
  "row_bootstrap_only (cites_row a b) = False"
  by (simp_all add: cites_row_def)

definition list_fetch :: "graph_edge_row list \<Rightarrow> edge_fetch" where
  "list_fetch rows P = Inr (filter P rows)"

lemma list_fetch_ok: "table_ok (list_fetch rows) rows"
  by (simp add: table_ok_def list_fetch_def)

text \<open>Two entries, the first of which cites the second.\<close>

theorem path_modes_agree_witness:
  "\<exists>st warm_resp cold_resp.
     rebuild list_petgraph list_petgraph (Inr [entry_v 7 None Active None, entry_v 8 None Active None])
       (Inr [cites_row 7 8]) = Some (Inr st) \<and>
     handle_path list_petgraph (list_fetch [cites_row 7 8]) all_active st (path_request 7 8) = Inr warm_resp \<and>
     handle_path list_petgraph (list_fetch [cites_row 7 8]) all_active (graph_state_new list_petgraph) (path_request 7 8) =
       Inr cold_resp \<and> resp_found warm_resp = resp_found cold_resp"
proof -
  let ?es = "[entry_v 7 None Active None, entry_v 8 None Active None]" and ?rows = "[cites_row 7 8]"
  have "supersession ?es = {}" by (auto simp: supersession_code)
  then have "acyclic (supersession ?es)" by (simp add: acyclic_def)
  then obtain g where "build_typed_relation_graph list_petgraph (list_petgraph :: (unit list_graph, nat, unit) petgraph) ?es ?rows = Some (Inr g)"
    using build_graph [OF list_petgraph_ok list_petgraph_ok, of ?es ?rows] by auto
  then obtain st where st: "rebuild list_petgraph (list_petgraph :: (unit list_graph, nat, unit) petgraph) (Inr ?es) (Inr ?rows) = Some (Inr st)"
    by (auto simp: rebuild_def)
  have "fan_out_ok (map as_str all_non_supersedes_types) ?rows"
    by (simp add: fan_out_ok_def MAX_DB_NEIGHBORS_PER_NODE_def)
  moreover have "live_ids ?es = {7, 8}" by (simp add: live_ids_code)
  ultimately show ?thesis
    using path_modes_agree [OF list_petgraph_ok list_petgraph_ok _ st, of "graph_state_new list_petgraph" "list_fetch ?rows"
        all_non_supersedes_types "path_request 7 8" 7 8 5 all_active] list_fetch_ok st
    by (auto simp: graph_state_new_def all_non_supersedes_types_def)
qed

definition merged_entries :: "nat \<Rightarrow> store_error + entry_record" where
  "merged_entries i = Inr (if i = 9 then entry_v 9 None Deprecated (Some 7) else entry_v i None Active None)"

text \<open>
  A request the two modes answer differently. Entry 9 is superseded by entry 7, and the
  entries 7 and 8 cite each other: the endpoints of a request from 7 to 9 resolve to one entry.
  Every warm snapshot answers that nothing is found; while the state is cold the database
  search answers with the cycle through entry 8.
\<close>

theorem cold_path_to_itself:
  "handle_path list_petgraph (list_fetch [cites_row 7 8, cites_row 8 7]) merged_entries
     (graph_state_new list_petgraph) (path_request 7 9) =
   Inr (path_found 7 7 [\<lparr>hop_entry = 8, hop_type = ''Cites''\<rparr>, \<lparr>hop_entry = 7, hop_type = ''Cites''\<rparr>]) \<and>
   handle_path pg fetch merged_entries \<lparr>typed_graph = g, all_entries = es, use_fallback = False\<rparr> (path_request 7 9) =
     Inr (path_not_found 7 7)"
proof -
  have c: "current_of merged_entries (path_request 7 9) i = (if i = 9 then 7 else i)" for i
    by (simp add: current_of_def effective_def follow_to_current_def merged_entries_def numeral_eq_Suc)
  have e: "effective merged_entries True i = (if i = 9 then 7 else i)" for i
    using c [of i] by (simp add: current_of_def)
  have h: "handle_path pg fetch merged_entries s (path_request 7 9) =
      path_search pg fetch merged_entries s 7 7 all_non_supersedes_types 5 True" for pg fetch s
    using handle_path_valid [of "path_request 7 9" 7 9 5 all_non_supersedes_types pg fetch merged_entries s] by (simp add: c)
  show ?thesis
    using path_search_absent [of "\<lparr>typed_graph = g, all_entries = es, use_fallback = False\<rparr>" 7 7] unfolding h
    by (simp add: path_search_def graph_state_new_def path_via_db_def query_direct_neighbors_def run_outgoing_query_def
        list_fetch_def outgoing_condition_def all_non_supersedes_types_def map_edge_row_def
        MAX_DB_NEIGHBORS_PER_NODE_def e)
qed

text \<open>
  A row with the bootstrap flag is not an edge of the snapshot, but the database search
  follows it.
\<close>

lemma cold_path_over_bootstrap_row:
  "let rows = [(cites_row 7 8)\<lparr>row_bootstrap_only := True\<rparr>]
   in handle_path list_petgraph (list_fetch rows) all_active (graph_state_new list_petgraph) (path_request 7 8) =
        Inr (path_found 7 8 [\<lparr>hop_entry = 8, hop_type = ''Cites''\<rparr>]) \<and> \<not> (\<exists>row \<in> set rows. admitted_row ids row)"
proof -
  have e: "effective all_active True i = i" for i
    using current_all_active [of "path_request 7 8" i] by (simp add: current_of_def)
  show ?thesis
    using handle_path_valid [of "path_request 7 8" 7 8 5 all_non_supersedes_types list_petgraph _ all_active]
    by (simp add: path_search_def graph_state_new_def path_via_db_def query_direct_neighbors_def run_outgoing_query_def
        list_fetch_def outgoing_condition_def all_non_supersedes_types_def map_edge_row_def
        MAX_DB_NEIGHBORS_PER_NODE_def e admitted_row_def cites_row_def)
qed

end
