(* ===== verification/Graph_Neighbors.thy ===== *)
theory Graph_Neighbors
  imports Graph_Path
begin

text \<open>
  Neighbours mode of the graph tool: \<open>unimatrix-server/src/mcp/graph_read_neighbors.rs\<close>. As in
  path mode, \<open>get\<close> is \<open>Store::get\<close> and \<open>fetch\<close> selects rows of the edge table.
\<close>

section \<open>Requests and answers\<close>

record neighbor_params =
  np_depth :: "nat option"
  np_direction :: "string option"
  np_edge_types :: "string list option"
  np_resolve :: "bool option"

text \<open>The metadata of an edge record is always absent.\<close>

record edge_record =
  er_source :: nat
  er_target :: nat
  er_relation :: string
  er_direction :: string
  er_depth :: nat
  er_metadata :: "string option"

text \<open>\<open>eq_ignore_ascii_case\<close>.\<close>

definition ascii_lower_char :: "char \<Rightarrow> char" where
  "ascii_lower_char c = (let n = (of_char c :: nat) in if 0x41 \<le> n \<and> n \<le> 0x5A then char_of (n + 32) else c)"

definition eq_ignore_ascii_case :: "string \<Rightarrow> string \<Rightarrow> bool" where
  "eq_ignore_ascii_case a b \<longleftrightarrow> map ascii_lower_char a = map ascii_lower_char b"

definition neighbor_depth :: "neighbor_params \<Rightarrow> error_data + nat" where
  "neighbor_depth params =
     (let depth = (case np_depth params of Some d \<Rightarrow> d | None \<Rightarrow> 1)
      in if depth = 0 \<or> depth > 10
         then Inl (ErrorData ERROR_INVALID_PARAMS (''depth must be in range 1..=10, got '' @ show_nat depth))
         else Inr depth)"

definition neighbor_direction_of :: "neighbor_params \<Rightarrow> error_data + neighbor_direction" where
  "neighbor_direction_of params =
     (let other = (case np_direction params of Some d \<Rightarrow> d | None \<Rightarrow> ''both'')
      in if other = ''incoming'' then Inr NIncoming
         else if other = ''outgoing'' then Inr NOutgoing
         else if other = ''both'' then Inr NBoth
         else Inl (ErrorData ERROR_INVALID_PARAMS (''invalid direction '' @ [CHR 0x27] @ other @ [CHR 0x27] @
           '' for neighbors mode '' @ [CHR 0xE2, CHR 0x80, CHR 0x94] @ '' valid values: incoming, outgoing, both'')))"

fun neighbor_types_loop :: "string list \<Rightarrow> relation_type list \<Rightarrow> error_data + relation_type list" where
  "neighbor_types_loop [] resolved = Inr resolved"
| "neighbor_types_loop (s # type_strings) resolved =
     (if eq_ignore_ascii_case s ''Supersedes'' then
        Inl (ErrorData ERROR_INVALID_PARAMS (''Supersedes edges are not traversable via neighbors mode '' @
          [CHR 0xE2, CHR 0x80, CHR 0x94] @ '' use chain or current modes for supersession navigation''))
      else case from_str s of
          Some rel_type \<Rightarrow> neighbor_types_loop type_strings (resolved @ [rel_type])
        | None \<Rightarrow>
            Inl (ErrorData ERROR_INVALID_PARAMS (''unknown edge type '' @ [CHR 0x27] @ s @ [CHR 0x27, CHR 0x20, CHR 0xE2, CHR 0x80, CHR 0x94] @
              '' valid types: Advances, Asserts, About, Cites, CoAccess, Contradicts, DerivedFrom, Informs, Mentions, '' @
              ''Motivates, Prerequisite, Refutes, RelatedTo, Supports, Tests'')))"

definition neighbor_types :: "neighbor_params \<Rightarrow> error_data + relation_type list" where
  "neighbor_types params =
     (case np_edge_types params of
        None \<Rightarrow> Inr all_non_supersedes_types
      | Some type_strings \<Rightarrow>
          if type_strings = [] then Inr all_non_supersedes_types else neighbor_types_loop type_strings [])"

section \<open>Depth 1: the edge table\<close>

definition resolve_memoized :: "(nat \<Rightarrow> store_error + entry_record) \<Rightarrow> (nat, nat) hmap \<Rightarrow> nat \<Rightarrow> nat \<times> (nat, nat) hmap" where
  "resolve_memoized get memo raw_id =
     (case hm_get memo raw_id of
        Some terminal \<Rightarrow> (terminal, memo)
      | None \<Rightarrow>
          let terminal = (case follow_to_current get raw_id of Some j \<Rightarrow> j | None \<Rightarrow> raw_id)
          in (terminal, hm_insert raw_id terminal memo))"

definition sql_row :: "(nat \<Rightarrow> store_error + entry_record) \<Rightarrow> nat \<Rightarrow> bool \<Rightarrow> raw_edge_row \<Rightarrow>
    (nat, nat) hmap \<times> edge_record list \<Rightarrow> (nat, nat) hmap \<times> edge_record list" where
  "sql_row get i resolve row st =
     (case st of (memo, edges) \<Rightarrow>
        let outgoing = (raw_source_id row = i);
            (src, tgt, memo') =
              (if resolve then
                 if outgoing then (case resolve_memoized get memo (raw_target_id row) of (t, memo') \<Rightarrow> (raw_source_id row, t, memo'))
                 else (case resolve_memoized get memo (raw_source_id row) of (s, memo') \<Rightarrow> (s, raw_target_id row, memo'))
               else (raw_source_id row, raw_target_id row, memo))
        in (memo', edges @ [\<lparr>er_source = src, er_target = tgt, er_relation = raw_relation_type row,
              er_direction = (if outgoing then ''outgoing'' else ''incoming''), er_depth = 1, er_metadata = None\<rparr>]))"

definition graph_query_failed :: "store_error \<Rightarrow> error_data" where
  "graph_query_failed e = ErrorData ERROR_INTERNAL (''graph query failed: '' @ store_error_display e)"

definition neighbors_sql :: "edge_fetch \<Rightarrow> (nat \<Rightarrow> store_error + entry_record) \<Rightarrow> nat \<Rightarrow> relation_type list \<Rightarrow>
    neighbor_direction \<Rightarrow> bool \<Rightarrow> error_data + edge_record list" where
  "neighbors_sql fetch get i types direction resolve =
     (case query_direct_neighbors fetch i (map as_str types) direction of
        Inl e \<Rightarrow> Inl (graph_query_failed e)
      | Inr raw_rows \<Rightarrow> Inr (snd (fold (sql_row get i resolve) raw_rows ([], []))))"

section \<open>Deeper: the graph snapshot\<close>

definition petgraph_dirs :: "neighbor_direction \<Rightarrow> direction list" where
  "petgraph_dirs d = (case d of NOutgoing \<Rightarrow> [Outgoing] | NIncoming \<Rightarrow> [Incoming] | NBoth \<Rightarrow> [Outgoing, Incoming])"

text \<open>The neighbour ids of a node; a stale index is skipped.\<close>

definition neighbor_ids :: "('g, 'ix, relation_edge) petgraph \<Rightarrow> ('g, 'ix) typed_relation_graph \<Rightarrow> 'ix \<Rightarrow> relation_type \<Rightarrow>
    direction \<Rightarrow> nat list" where
  "neighbor_ids pg graph current_idx rel_type d =
     List.map_filter (\<lambda>(source, target, _). node_id_for_index pg graph (case d of Outgoing \<Rightarrow> target | Incoming \<Rightarrow> source))
       (edges_of_type pg graph current_idx rel_type d)"

type_synonym 'ix neighbor_state = "('ix \<times> nat \<times> nat) list \<times> nat set \<times> edge_record list"

definition neighbor_visit :: "('g, 'ix) typed_relation_graph \<Rightarrow> (nat \<Rightarrow> nat) \<Rightarrow> nat \<Rightarrow> nat \<Rightarrow> nat \<Rightarrow> relation_type \<Rightarrow> direction \<Rightarrow>
    nat \<Rightarrow> 'ix neighbor_state \<Rightarrow> 'ix neighbor_state" where
  "neighbor_visit graph eff depth current_id current_depth rel_type d neighbor_node_id st =
     (case st of (frontier, visited, result_edges) \<Rightarrow>
        let effective_id = eff neighbor_node_id
        in if effective_id \<notin> visited then
             let hop_depth = current_depth + 1;
                 (record_src, record_tgt) =
                   (case d of Outgoing \<Rightarrow> (current_id, effective_id) | Incoming \<Rightarrow> (effective_id, current_id))
             in (if hop_depth < depth then
                   (case node_index_for graph effective_id of
                      Some neighbor_node_idx \<Rightarrow> frontier @ [(neighbor_node_idx, effective_id, hop_depth)]
                    | None \<Rightarrow> frontier)
                 else frontier,
                 insert effective_id visited,
                 result_edges @ [\<lparr>er_source = record_src, er_target = record_tgt, er_relation = as_str rel_type,
                   er_direction = (case d of Outgoing \<Rightarrow> ''outgoing'' | Incoming \<Rightarrow> ''incoming''),
                   er_depth = hop_depth, er_metadata = None\<rparr>])
           else (frontier, visited, result_edges))"

definition neighbor_expand :: "('g, 'ix, relation_edge) petgraph \<Rightarrow> ('g, 'ix) typed_relation_graph \<Rightarrow> (nat \<Rightarrow> nat) \<Rightarrow>
    relation_type list \<Rightarrow> neighbor_direction \<Rightarrow> nat \<Rightarrow> 'ix \<Rightarrow> nat \<Rightarrow> nat \<Rightarrow> 'ix neighbor_state \<Rightarrow> 'ix neighbor_state" where
  "neighbor_expand pg graph eff types direction depth current_idx current_id current_depth =
     fold (\<lambda>rel_type. fold (\<lambda>d. fold (neighbor_visit graph eff depth current_id current_depth rel_type d)
       (neighbor_ids pg graph current_idx rel_type d)) (petgraph_dirs direction)) types"

text \<open>A step that only appends entries of depth \<open>e\<close> to the frontier; folds of such steps do the same.\<close>

definition grows :: "('f \<Rightarrow> nat) \<Rightarrow> nat \<Rightarrow> ('f list \<times> 'v \<Rightarrow> 'f list \<times> 'v) \<Rightarrow> bool" where
  "grows dep e f \<longleftrightarrow> (\<forall>st. \<exists>new. fst (f st) = fst st @ new \<and> (\<forall>x \<in> set new. dep x = e))"

lemma grows_fold: "(\<And>x. grows dep e (f x)) \<Longrightarrow> grows dep e (fold f xs)"
proof (induction xs)
  case Nil
  show ?case by (simp add: grows_def)
next
  case (Cons x xs)
  show ?case unfolding grows_def
  proof
    fix st
    obtain new1 where 1: "fst (f x st) = fst st @ new1" "\<forall>y \<in> set new1. dep y = e"
      using Cons.prems [of x] unfolding grows_def by blast
    obtain new2 where 2: "fst (fold f xs (f x st)) = fst (f x st) @ new2" "\<forall>y \<in> set new2. dep y = e"
      using Cons.IH [OF Cons.prems] unfolding grows_def by blast
    show "\<exists>new. fst (fold f (x # xs) st) = fst st @ new \<and> (\<forall>y \<in> set new. dep y = e)"
      using 1 2 by (intro exI [of _ "new1 @ new2"]) auto
  qed
qed

lemma grows_visit: "grows (snd \<circ> snd) (Suc c) (neighbor_visit g eff m u c rt d v)"
  unfolding grows_def
proof
  fix st :: "'a neighbor_state"
  obtain F V R where st: "st = (F, V, R)" by (rule prod_cases3)
  show "\<exists>new. fst (neighbor_visit g eff m u c rt d v st) = fst st @ new \<and> (\<forall>x \<in> set new. (snd \<circ> snd) x = Suc c)"
    by (cases d; cases "node_index_for g (eff v)") (simp_all add: st neighbor_visit_def Let_def)
qed

lemma grows_expand: "grows (snd \<circ> snd) (Suc c) (neighbor_expand pg g eff types dr m i u c)"
  unfolding neighbor_expand_def by (intro grows_fold grows_visit)

lemma neighbor_expand_new:
  assumes "neighbor_expand pg g eff types dr m i u c (F, V, R) = (F', V', R')"
  shows "\<exists>new. F' = F @ new \<and> (\<forall>(n, x, e) \<in> set new. e = Suc c)"
proof -
  obtain new where "fst (neighbor_expand pg g eff types dr m i u c (F, V, R)) = fst (F, V, R) @ new"
    "\<forall>x \<in> set new. (snd \<circ> snd) x = Suc c"
    using grows_expand [of c pg g eff types dr m i u, unfolded grows_def, THEN spec, of "(F, V, R)"] by blast
  then show ?thesis using assms by (intro exI [of _ new]) (auto simp: assms)
qed

function neighbors_loop :: "('g, 'ix, relation_edge) petgraph \<Rightarrow> ('g, 'ix) typed_relation_graph \<Rightarrow> (nat \<Rightarrow> nat) \<Rightarrow>
    relation_type list \<Rightarrow> neighbor_direction \<Rightarrow> nat \<Rightarrow> ('ix \<times> nat \<times> nat) list \<Rightarrow> nat set \<Rightarrow> edge_record list \<Rightarrow> edge_record list" where
  "neighbors_loop pg graph eff types direction depth [] visited result_edges = result_edges"
| "neighbors_loop pg graph eff types direction depth ((current_idx, current_id, current_depth) # frontier) visited result_edges =
     (if current_depth \<ge> depth then neighbors_loop pg graph eff types direction depth frontier visited result_edges
      else case neighbor_expand pg graph eff types direction depth current_idx current_id current_depth
                  (frontier, visited, result_edges) of
             (frontier', visited', result_edges') \<Rightarrow>
               neighbors_loop pg graph eff types direction depth frontier' visited' result_edges')"
  by pat_completeness auto
termination
proof (relation "inv_image (mult less_than) (\<lambda>(pg, g, eff, types, dr, m, frontier, visited, edges). path_measure m frontier)", goal_cases)
  case 1
  show ?case by (rule wf_hops)
next
  case (2 pg g eff types dr m i u d frontier visited edges)
  show ?case by (simp add: path_measure_pop)
next
  case (3 pg g eff types dr m i u d frontier visited edges frontier' y visited' edges')
  then obtain new where "frontier' = frontier @ new" "\<forall>(n, q, e) \<in> set new. e = Suc d"
    using neighbor_expand_new by metis
  then show ?case using 3(1) by (simp add: path_measure_expand)
qed

section \<open>Deeper: the database\<close>

definition neighbor_row :: "(nat \<Rightarrow> nat) \<Rightarrow> nat \<Rightarrow> nat \<Rightarrow> nat \<Rightarrow> raw_edge_row \<Rightarrow>
    (nat \<times> nat) list \<times> nat set \<times> edge_record list \<Rightarrow> (nat \<times> nat) list \<times> nat set \<times> edge_record list" where
  "neighbor_row eff depth current_id current_depth row st =
     (case st of (frontier, visited, result_edges) \<Rightarrow>
        let (neighbor_id, edge_dir_str, record_src, record_tgt) =
              (if raw_source_id row = current_id
               then (raw_target_id row, ''outgoing'', current_id, raw_target_id row)
               else (raw_source_id row, ''incoming'', raw_source_id row, current_id));
            effective_id = eff neighbor_id
        in if effective_id \<notin> visited then
             let hop_depth = current_depth + 1
             in (if hop_depth < depth then frontier @ [(effective_id, hop_depth)] else frontier,
                 insert effective_id visited,
                 result_edges @ [\<lparr>er_source = record_src, er_target = record_tgt, er_relation = raw_relation_type row,
                   er_direction = edge_dir_str, er_depth = hop_depth, er_metadata = None\<rparr>])
           else (frontier, visited, result_edges))"

lemma grows_row: "grows snd (Suc c) (neighbor_row eff m u c row)"
  by (auto simp: grows_def neighbor_row_def Let_def split: prod.split)

lemma neighbor_rows_new:
  assumes "fold (neighbor_row eff m u c) rows (F, V, R) = (F', V', R')"
  shows "\<exists>new. F' = F @ new \<and> snd ` set new \<subseteq> {Suc c}"
proof -
  obtain new where "fst (fold (neighbor_row eff m u c) rows (F, V, R)) = F @ new" "\<forall>x \<in> set new. snd x = Suc c"
    using grows_fold [of snd "Suc c" "neighbor_row eff m u c" rows, OF grows_row]
    unfolding grows_def by (metis fst_conv)
  then show ?thesis using assms by auto
qed

function neighbors_db_loop :: "edge_fetch \<Rightarrow> (nat \<Rightarrow> nat) \<Rightarrow> string list \<Rightarrow> neighbor_direction \<Rightarrow> nat \<Rightarrow> (nat \<times> nat) list \<Rightarrow>
    nat set \<Rightarrow> edge_record list \<Rightarrow> error_data + edge_record list" where
  "neighbors_db_loop fetch eff type_strs direction depth [] visited result_edges = Inr result_edges"
| "neighbors_db_loop fetch eff type_strs direction depth ((current_id, current_depth) # frontier) visited result_edges =
     (if current_depth \<ge> depth then neighbors_db_loop fetch eff type_strs direction depth frontier visited result_edges
      else case query_direct_neighbors fetch current_id type_strs direction of
          Inl e \<Rightarrow> Inl (graph_query_failed e)
        | Inr raw_neighbors \<Rightarrow>
            (case fold (neighbor_row eff depth current_id current_depth) (take MAX_DB_NEIGHBORS_PER_NODE raw_neighbors)
                    (frontier, visited, result_edges) of
               (frontier', visited', result_edges') \<Rightarrow>
                 neighbors_db_loop fetch eff type_strs direction depth frontier' visited' result_edges'))"
  by pat_completeness auto
termination
proof (relation "inv_image (mult less_than) (\<lambda>(fetch, eff, types, dr, m, frontier, visited, edges). hops_left m frontier)", goal_cases)
  case 1
  show ?case by (rule wf_hops)
next
  case (2 fetch eff types dr m u d frontier visited edges)
  show ?case by (simp add: hops_pop)
next
  case (3 fetch eff types dr m u d frontier visited edges rows frontier' y visited' edges')
  then obtain new where "frontier' = frontier @ new" "snd ` set new \<subseteq> {Suc d}"
    using neighbor_rows_new by metis
  then have "mset frontier' = mset frontier + mset new" "snd ` set new \<subseteq> {Suc d}" by simp_all
  then show ?case using 3(1) by (simp add: hops_expand)
qed

definition neighbors_via_db :: "edge_fetch \<Rightarrow> (nat \<Rightarrow> store_error + entry_record) \<Rightarrow> nat \<Rightarrow> relation_type list \<Rightarrow>
    neighbor_direction \<Rightarrow> nat \<Rightarrow> bool \<Rightarrow> error_data + edge_record list" where
  "neighbors_via_db fetch get i types direction depth resolve =
     neighbors_db_loop fetch (effective get resolve) (map as_str types) direction depth [(i, 0)] {i} []"

section \<open>The handler\<close>

definition neighbors_bfs :: "('g, 'ix, relation_edge) petgraph \<Rightarrow> edge_fetch \<Rightarrow> (nat \<Rightarrow> store_error + entry_record) \<Rightarrow>
    ('g, 'ix) typed_graph_state \<Rightarrow> nat \<Rightarrow> relation_type list \<Rightarrow> neighbor_direction \<Rightarrow> nat \<Rightarrow> bool \<Rightarrow>
    error_data + edge_record list" where
  "neighbors_bfs pg fetch get state i types direction depth resolve =
     (let graph = typed_graph state
      in if use_fallback state then neighbors_via_db fetch get i types direction depth resolve
         else case node_index_for graph i of
             None \<Rightarrow> Inr []
           | Some start_node \<Rightarrow>
               Inr (neighbors_loop pg graph (effective get resolve) types direction depth [(start_node, i, 0)] {i} []))"

definition handle_neighbors :: "('g, 'ix, relation_edge) petgraph \<Rightarrow> edge_fetch \<Rightarrow> (nat \<Rightarrow> store_error + entry_record) \<Rightarrow>
    ('g, 'ix) typed_graph_state \<Rightarrow> neighbor_params \<Rightarrow> nat \<Rightarrow> error_data + edge_record list" where
  "handle_neighbors pg fetch get state params i =
     (case neighbor_depth params of
        Inl e \<Rightarrow> Inl e
      | Inr depth \<Rightarrow>
          (case neighbor_direction_of params of
             Inl e \<Rightarrow> Inl e
           | Inr direction \<Rightarrow>
               (case neighbor_types params of
                  Inl e \<Rightarrow> Inl e
                | Inr requested_types \<Rightarrow>
                    let resolve = (case np_resolve params of Some b \<Rightarrow> b | None \<Rightarrow> True)
                    in if depth = 1 then neighbors_sql fetch get i requested_types direction resolve
                       else neighbors_bfs pg fetch get state i requested_types direction depth resolve)))"

end
