(* ===== verification/Graph_Levels.thy ===== *)
theory Graph_Levels
  imports Graph_Neighbors
begin

text \<open>
  The contract of the neighbours loops over the snapshot and over the database is one
  locale, \<open>level_search\<close>: each id within the depth is discovered once, at its
  distance.
\<close>

section \<open>One expansion\<close>

definition discover :: "(nat \<Rightarrow> 'n option) \<Rightarrow> (nat \<Rightarrow> nat \<times> 'x \<Rightarrow> nat \<Rightarrow> 'rec) \<Rightarrow> nat \<Rightarrow> nat \<Rightarrow> nat \<Rightarrow> nat \<times> 'x \<Rightarrow>
    ('n \<times> nat \<times> nat) list \<times> nat set \<times> 'rec list \<Rightarrow> ('n \<times> nat \<times> nat) list \<times> nat set \<times> 'rec list" where
  "discover node_of mk m u d p st =
     (case st of (F, V, R) \<Rightarrow>
        if fst p \<notin> V then
          (if Suc d < m then (case node_of (fst p) of Some k \<Rightarrow> F @ [(k, fst p, Suc d)] | None \<Rightarrow> F) else F,
           insert (fst p) V, R @ [mk u p (Suc d)])
        else (F, V, R))"

definition continued :: "(nat \<Rightarrow> 'n option) \<Rightarrow> nat \<Rightarrow> nat \<Rightarrow> (nat \<times> 'x) list \<Rightarrow> ('n \<times> nat \<times> nat) list" where
  "continued node_of m d ps =
     (if Suc d < m then List.map_filter (\<lambda>p. map_option (\<lambda>k. (k, fst p, Suc d)) (node_of (fst p))) ps else [])"

lemma continued_simps [simp]:
  "continued node_of m d [] = []"
  "continued node_of m d (p # ps) =
     (if Suc d < m then (case node_of (fst p) of Some k \<Rightarrow> [(k, fst p, Suc d)] | None \<Rightarrow> []) else []) @ continued node_of m d ps"
  by (simp_all add: continued_def map_filter_simps split: option.split)

lemma continued_set:
  "set (continued node_of m d ps) = {(k, fst p, Suc d) | k p. p \<in> set ps \<and> node_of (fst p) = Some k \<and> Suc d < m}"
proof (induction ps)
  case (Cons p ps)
  then show ?case by (cases p; cases "node_of (fst p)"; cases "Suc d < m") auto
qed simp

lemma discover_old: "fst p \<in> V \<Longrightarrow> discover node_of mk m u d p (F, V, R) = (F, V, R)"
  by (simp add: discover_def)

lemma discover_new:
  "fst p \<notin> V \<Longrightarrow> discover node_of mk m u d p (F, V, R) =
     (F @ continued node_of m d [p], insert (fst p) V, R @ [mk u p (Suc d)])"
  by (simp add: discover_def split: option.split)

lemma fold_discover:
  "fold (discover node_of mk m u d) ps (F, V, R) = (F', V', R') \<Longrightarrow>
   \<exists>G. R' = R @ map (\<lambda>p. mk u p (Suc d)) G \<and> F' = F @ continued node_of m d G \<and> V' = V \<union> fst ` set ps \<and>
     set G \<subseteq> set ps \<and> distinct (map fst G) \<and> fst ` set G = fst ` set ps - V"
proof (induction ps arbitrary: F V R)
  case (Cons p ps)
  show ?case
  proof (cases "fst p \<in> V")
    case True
    then have "fold (discover node_of mk m u d) ps (F, V, R) = (F', V', R')" using Cons.prems by (simp add: discover_old)
    from Cons.IH [OF this] show ?thesis using True by auto
  next
    case False
    let ?F = "F @ continued node_of m d [p]"
    have "fold (discover node_of mk m u d) ps (?F, insert (fst p) V, R @ [mk u p (Suc d)]) = (F', V', R')"
      using Cons.prems False by (simp add: discover_new del: continued_simps)
    from Cons.IH [OF this] obtain G where G: "R' = (R @ [mk u p (Suc d)]) @ map (\<lambda>p. mk u p (Suc d)) G"
      "F' = ?F @ continued node_of m d G" "V' = insert (fst p) V \<union> fst ` set ps" "set G \<subseteq> set ps" "distinct (map fst G)"
      "fst ` set G = fst ` set ps - insert (fst p) V" by blast
    have p: "fst p \<notin> fst ` set G" using G(6) by blast
    have "fst ` set (p # G) = fst ` set (p # ps) - V" using G(6) False by auto
    moreover have "V' = V \<union> fst ` set (p # ps)" using G(3) by simp
    moreover have "F' = F @ continued node_of m d (p # G)" using G(2) by simp
    ultimately show ?thesis using G(1,4,5) p by (intro exI [of _ "p # G"]) auto
  qed
qed auto

section \<open>The contract\<close>

text \<open>
  What is discovered: \<open>(u, p, d)\<close> says that the neighbour \<open>p\<close> of \<open>u\<close> was new at depth \<open>d\<close>.
\<close>

definition discoveries :: "(nat \<times> nat) set \<Rightarrow> (nat \<Rightarrow> (nat \<times> 'x) set) \<Rightarrow> nat \<Rightarrow> nat \<Rightarrow> (nat \<times> (nat \<times> 'x) \<times> nat) list \<Rightarrow> bool" where
  "discoveries N nbrs a m G \<longleftrightarrow> distinct (map (\<lambda>(u, p, d). fst p) G) \<and>
     (\<forall>(u, p, d) \<in> set G. p \<in> nbrs u \<and> 1 \<le> d \<and> d \<le> m \<and> u \<in> near N {a} (d - 1) \<and>
        fst p \<in> near N {a} d - near N {a} (d - 1))"

definition found_ids :: "(nat \<times> (nat \<times> 'x) \<times> nat) list \<Rightarrow> nat set" where
  "found_ids G = (\<lambda>(u, p, d). fst p) ` set G"

definition nbrs_of :: "('n \<Rightarrow> (nat \<times> 'x) list) \<Rightarrow> (nat \<Rightarrow> 'n option) \<Rightarrow> nat \<Rightarrow> (nat \<times> 'x) set" where
  "nbrs_of expand node_of u = (case node_of u of None \<Rightarrow> {} | Some n \<Rightarrow> set (expand n))"

definition records_of :: "(nat \<Rightarrow> nat \<times> 'x \<Rightarrow> nat \<Rightarrow> 'rec) \<Rightarrow> (nat \<times> (nat \<times> 'x) \<times> nat) list \<Rightarrow> 'rec list" where
  "records_of mk G = map (\<lambda>(u, p, d). mk u p d) G"

locale level_search =
  fixes expand :: "'n \<Rightarrow> (nat \<times> 'x) list"
    and node_of :: "nat \<Rightarrow> 'n option"
    and valid :: bool
    and N :: "(nat \<times> nat) set"
    and m :: nat
    and mk :: "nat \<Rightarrow> nat \<times> 'x \<Rightarrow> nat \<Rightarrow> 'rec"
    and loop :: "('n \<times> nat \<times> nat) list \<Rightarrow> nat set \<Rightarrow> 'rec list \<Rightarrow> 'r"
    and ret :: "'rec list \<Rightarrow> 'r"
  assumes loop_empty: "loop [] V R = ret R"
    and loop_step: "valid \<Longrightarrow> node_of u = Some n \<Longrightarrow> d < m \<Longrightarrow>
      fold (discover node_of mk m u d) (expand n) (F, V, R) = (F', V', R') \<Longrightarrow>
      loop ((n, u, d) # F) V R = loop F' V' R'"
    and expand_nbrs: "valid \<Longrightarrow> node_of u = Some n \<Longrightarrow> fst ` set (expand n) = N `` {u}"
    and leaf: "valid \<Longrightarrow> node_of u = None \<Longrightarrow> N `` {u} = {}"
begin

abbreviation nbrs :: "nat \<Rightarrow> (nat \<times> 'x) set" where
  "nbrs \<equiv> nbrs_of expand node_of"

abbreviation records :: "(nat \<times> (nat \<times> 'x) \<times> nat) list \<Rightarrow> 'rec list" where
  "records \<equiv> records_of mk"

definition at_level :: "nat \<Rightarrow> nat \<Rightarrow> ('n \<times> nat \<times> nat) list \<Rightarrow> bool" where
  "at_level a D Q \<longleftrightarrow> (\<forall>(n, u, d) \<in> set Q. d = D \<and> node_of u = Some n \<and> u \<in> near N {a} D)"

definition ids :: "('n \<times> nat \<times> nat) list \<Rightarrow> nat set" where
  "ids Q = (\<lambda>(n, u, d). u) ` set Q"

lemma at_level_simps [simp]:
  "at_level a D []"
  "at_level a D ((n, u, d) # Q) \<longleftrightarrow> d = D \<and> node_of u = Some n \<and> u \<in> near N {a} D \<and> at_level a D Q"
  "at_level a D (Q @ Q') \<longleftrightarrow> at_level a D Q \<and> at_level a D Q'"
  by (simp_all add: at_level_def ball_Un)

lemma ids_simps [simp]:
  "ids [] = {}" "ids ((n, u, d) # Q) = insert u (ids Q)" "ids (Q @ Q') = ids Q \<union> ids Q'"
  by (simp_all add: ids_def image_Un)

definition level_ok :: "nat \<Rightarrow> nat \<Rightarrow> ('n \<times> nat \<times> nat) list \<Rightarrow> ('n \<times> nat \<times> nat) list \<Rightarrow> nat set \<Rightarrow>
    (nat \<times> (nat \<times> 'x) \<times> nat) list \<Rightarrow> bool" where
  "level_ok a D A B V G \<longleftrightarrow> D < m \<and> at_level a D A \<and> at_level a (Suc D) B \<and> (Suc D = m \<longrightarrow> B = []) \<and>
     discoveries N nbrs a m G \<and> V = insert a (found_ids G) \<and> a \<notin> found_ids G \<and>
     near N {a} D \<subseteq> V \<and> V \<subseteq> near N {a} (Suc D) \<and> N `` (near N {a} D - ids A) \<subseteq> V \<and>
     (Suc D < m \<longrightarrow> (\<forall>v \<in> V - near N {a} D. v \<in> ids B \<or> N `` {v} = {}))"

lemma level_ok_next:
  assumes "level_ok a D [] B V G" and "Suc D < m"
  shows "level_ok a (Suc D) B [] V G"
proof -
  let ?N = "near N {a}"
  have i: "at_level a (Suc D) B" "discoveries N nbrs a m G" "V = insert a (found_ids G)" "a \<notin> found_ids G"
    "?N D \<subseteq> V" "V \<subseteq> ?N (Suc D)" "N `` ?N D \<subseteq> V" "\<And>v. v \<in> V \<Longrightarrow> v \<notin> ?N D \<Longrightarrow> v \<in> ids B \<or> N `` {v} = {}"
    using assms by (auto simp: level_ok_def)
  have V: "?N (Suc D) = V" using i(5-7) by (auto simp: near_Suc)
  have "N `` (?N (Suc D) - ids B) \<subseteq> N `` ?N D" unfolding V using i(8) by blast
  moreover have "?N (Suc D) \<subseteq> ?N (Suc (Suc D))" by (rule near_mono) simp
  ultimately show ?thesis using i(1-4,7) V assms(2) unfolding level_ok_def by (intro conjI) auto
qed

lemma level_ok_done:
  assumes "level_ok a D [] [] V G"
  shows "found_ids G = near N {a} m - {a}"
proof -
  let ?N = "near N {a}"
  have i: "D < m" "V = insert a (found_ids G)" "a \<notin> found_ids G" "?N D \<subseteq> V" "V \<subseteq> ?N (Suc D)" "N `` ?N D \<subseteq> V"
    using assms unfolding level_ok_def ids_simps(1) Diff_empty by blast+
  have V: "?N (Suc D) = V" using i(4-6) by (auto simp: near_Suc)
  have "?N m = V"
  proof (cases "Suc D = m")
    case False
    then have "Suc D < m" using i(1) by simp
    then have "\<forall>v \<in> V - ?N D. N `` {v} = {}" using assms unfolding level_ok_def ids_simps(1) by blast
    then have "N `` ?N (Suc D) \<subseteq> ?N (Suc D)" using i(6) unfolding V by blast
    then have "?N (Suc D + (m - Suc D)) = ?N (Suc D)" by (rule near_closed)
    then show ?thesis using V \<open>Suc D < m\<close> by simp
  qed (use V in simp)
  then show ?thesis using i(2,3) by auto
qed

lemma level_ok_expand:
  assumes "valid" and "level_ok a D ((n, u, d) # A) B V G"
    and "fold (discover node_of mk m u d) (expand n) (A @ B, V, R) = (F', V', R')"
  shows "\<exists>G' new. R' = R @ map (\<lambda>p. mk u p (Suc d)) G' \<and> F' = A @ B @ new \<and>
    (\<forall>(k, x, e) \<in> set new. e = Suc d) \<and> level_ok a D A (B @ new) V' (G @ map (\<lambda>p. (u, p, Suc d)) G')"
proof -
  let ?N = "near N {a}"
  have i: "D < m" "d = D" "node_of u = Some n" "u \<in> ?N D" "at_level a D A" "at_level a (Suc D) B" "Suc D = m \<longrightarrow> B = []"
    "discoveries N nbrs a m G" "V = insert a (found_ids G)" "a \<notin> found_ids G" "?N D \<subseteq> V" "V \<subseteq> ?N (Suc D)"
    "N `` (?N D - insert u (ids A)) \<subseteq> V" "Suc D < m \<Longrightarrow> v \<in> V \<Longrightarrow> v \<notin> ?N D \<Longrightarrow> v \<in> ids B \<or> N `` {v} = {}" for v
    using assms(2) by (auto simp: level_ok_def)
  note nb = expand_nbrs [OF assms(1) i(3)]
  obtain G' where G': "R' = R @ map (\<lambda>p. mk u p (Suc d)) G'" "F' = (A @ B) @ continued node_of m d G'"
    "V' = V \<union> N `` {u}" "set G' \<subseteq> set (expand n)" "distinct (map fst G')" "fst ` set G' = N `` {u} - V"
    using fold_discover [OF assms(3)] unfolding nb by blast
  let ?new = "continued node_of m d G'" and ?G = "G @ map (\<lambda>p. (u, p, Suc d)) G'"
  have reach: "N `` {u} \<subseteq> ?N (Suc D)" using i(4) by (auto simp: near_Suc)
  have new_id: "fst p \<in> ?N (Suc D) - ?N D" "fst p \<notin> V" if "p \<in> set G'" for p
  proof -
    have "fst p \<in> N `` {u} - V" unfolding G'(6) [symmetric] using that by (rule imageI)
    then show "fst p \<in> ?N (Suc D) - ?N D" "fst p \<notin> V" using reach i(11) by auto
  qed
  have fG: "found_ids ?G = found_ids G \<union> fst ` set G'" by (simp add: found_ids_def image_Un image_image)
  have V': "V' = insert a (found_ids ?G)" using G'(3,6) i(9) unfolding fG by blast
  have "a \<notin> found_ids ?G" using i(9,10) new_id(2) unfolding fG by blast
  moreover have "discoveries N nbrs a m ?G"
  proof -
    have "found_ids G \<inter> fst ` set G' = {}" using new_id(2) i(9) by blast
    then have "distinct (map (\<lambda>(u, p, d). fst p) ?G)"
      using i(8) G'(5) unfolding discoveries_def map_append distinct_append map_map comp_def found_ids_def by simp
    moreover have "p \<in> nbrs u" if "p \<in> set G'" for p using that G'(4) i(3) by (auto simp: nbrs_of_def)
    ultimately show ?thesis using i(1,2,4,8) new_id(1) unfolding discoveries_def by auto
  qed
  moreover have "at_level a (Suc D) (B @ ?new)"
    using i(6) new_id(1) i(2) by (auto simp: at_level_def continued_set)
  moreover have "Suc D = m \<longrightarrow> B @ ?new = []" using i(2,7) by (simp add: continued_def)
  moreover have "?N D \<subseteq> V'" "V' \<subseteq> ?N (Suc D)" using i(11,12) reach G'(3) by blast+
  moreover have "N `` (?N D - ids A) \<subseteq> V'"
  proof -
    have "?N D - ids A \<subseteq> insert u (?N D - insert u (ids A))" by blast
    then have "N `` (?N D - ids A) \<subseteq> N `` {u} \<union> N `` (?N D - insert u (ids A))" by blast
    then show ?thesis using i(13) G'(3) by blast
  qed
  moreover have "v \<in> ids (B @ ?new) \<or> N `` {v} = {}" if "Suc D < m" "v \<in> V' - ?N D" for v
  proof (cases "v \<in> V")
    case True
    then show ?thesis using i(14) [OF that(1)] that(2) by auto
  next
    case False
    then have "v \<in> fst ` set G'" using that(2) G'(3,6) by blast
    then obtain p where p: "p \<in> set G'" "fst p = v" by blast
    show ?thesis
    proof (cases "node_of v")
      case None
      then show ?thesis using leaf [OF assms(1)] by simp
    next
      case (Some k)
      then have "(k, v, Suc d) \<in> set ?new" unfolding continued_set using p that(1) i(2) by blast
      then have "v \<in> ids ?new" unfolding ids_def by force
      then show ?thesis by simp
    qed
  qed
  ultimately have "level_ok a D A (B @ ?new) V' ?G" using i(1,5) V' unfolding level_ok_def by blast
  moreover have "\<forall>(k, x, e) \<in> set ?new. e = Suc d" by (auto simp: continued_set)
  ultimately show ?thesis using G'(1,2) by (intro exI [of _ G'] exI [of _ ?new]) simp
qed

lemma search_correct:
  "valid \<Longrightarrow> level_ok a D A B V G \<Longrightarrow>
   \<exists>G'. loop (A @ B) V (records G) = ret (records G') \<and> discoveries N nbrs a m G' \<and> found_ids G' = near N {a} m - {a}"
proof (induction "A @ B" arbitrary: D A B V G rule: wf_induct_rule [OF wf_hops [of "path_measure m"]])
  case 1
  have step: "\<exists>G'. loop (A @ B) V (records G) = ret (records G') \<and> discoveries N nbrs a m G' \<and> found_ids G' = near N {a} m - {a}"
    if inv: "level_ok a D ((n, u, d) # A') B' V G" and Q: "A @ B = (n, u, d) # A' @ B'" for D n u d A' B'
  proof -
    have n: "node_of u = Some n" "d = D" "d < m" using inv by (simp_all add: level_ok_def)
    obtain F' V' R' where f: "fold (discover node_of mk m u d) (expand n) (A' @ B', V, records G) = (F', V', R')"
      by (rule prod_cases3)
    obtain G' new where new: "R' = records G @ map (\<lambda>p. mk u p (Suc d)) G'" "F' = A' @ B' @ new"
      "\<forall>(k, x, e) \<in> set new. e = Suc d" "level_ok a D A' (B' @ new) V' (G @ map (\<lambda>p. (u, p, Suc d)) G')"
      using level_ok_expand [OF "1.prems"(1) inv f] by blast
    have "(path_measure m (A' @ B' @ new), path_measure m (A @ B)) \<in> mult less_than"
      using path_measure_expand [of new d m "A' @ B'" n u] new(3) n(3) Q by simp
    moreover have "R' = records (G @ map (\<lambda>p. (u, p, Suc d)) G')" using new(1) by (simp add: records_of_def comp_def)
    ultimately show ?thesis
      using "1.hyps" [of A' "B' @ new"] new(4) "1.prems"(1) loop_step [OF "1.prems"(1) n(1,3) f] new(2) Q by simp
  qed
  show ?case
  proof (cases A)
    case (Cons x A')
    then show ?thesis using step [of D "fst x" "fst (snd x)" "snd (snd x)" A' B] "1.prems" by simp
  next
    case Nil
    show ?thesis
    proof (cases B)
      case B: Nil
      have inv: "level_ok a D [] [] V G" using "1.prems"(2) Nil B by simp
      have "discoveries N nbrs a m G" using inv by (simp add: level_ok_def)
      moreover have "found_ids G = near N {a} m - {a}" using inv by (rule level_ok_done)
      ultimately show ?thesis using Nil B loop_empty by (intro exI [of _ G]) simp
    next
      case (Cons x B')
      then have "Suc D < m" using "1.prems"(2) by (auto simp: level_ok_def)
      then have "level_ok a (Suc D) (x # B') [] V G" using level_ok_next "1.prems"(2) Nil Cons by simp
      then show ?thesis using step [of "Suc D" "fst x" "fst (snd x)" "snd (snd x)" B' "[]"] Nil Cons by simp
    qed
  qed
qed

lemma search_finds:
  assumes "valid" and "node_of a = Some n" and "0 < m"
  shows "\<exists>G. loop [(n, a, 0)] {a} [] = ret (records G) \<and> discoveries N nbrs a m G \<and> found_ids G = near N {a} m - {a}"
proof -
  have "level_ok a 0 [(n, a, 0)] [] {a} []"
    using assms(2,3) by (auto simp: level_ok_def discoveries_def found_ids_def near_Suc)
  from search_correct [OF assms(1) this] show ?thesis by (simp add: records_of_def)
qed

end

end
