(* ===== verification/Graph_Neighbors_Props.thy ===== *)
theory Graph_Neighbors_Props
  imports Graph_Levels Graph_Path_Props
begin

text \<open>
  What neighbours mode answers: the two loops meet the contract \<open>level_search\<close>, and the
  handler's answer is read off it.
\<close>

section \<open>The loop in the snapshot\<close>

definition snapshot_neighbors :: "('g, 'ix, relation_edge) petgraph \<Rightarrow> ('g, 'ix) typed_relation_graph \<Rightarrow> (nat \<Rightarrow> nat) \<Rightarrow>
    relation_type list \<Rightarrow> neighbor_direction \<Rightarrow> 'ix \<Rightarrow> (nat \<times> relation_type \<times> direction) list" where
  "snapshot_neighbors pg g eff types dr n =
     concat (map (\<lambda>rt. concat (map (\<lambda>d. map (\<lambda>v. (eff v, rt, d)) (neighbor_ids pg g n rt d)) (petgraph_dirs dr))) types)"

definition snapshot_record :: "nat \<Rightarrow> nat \<times> relation_type \<times> direction \<Rightarrow> nat \<Rightarrow> edge_record" where
  "snapshot_record u p d = (case p of (w, rt, dir) \<Rightarrow>
     \<lparr>er_source = (case dir of Outgoing \<Rightarrow> u | Incoming \<Rightarrow> w), er_target = (case dir of Outgoing \<Rightarrow> w | Incoming \<Rightarrow> u),
      er_relation = as_str rt, er_direction = (case dir of Outgoing \<Rightarrow> ''outgoing'' | Incoming \<Rightarrow> ''incoming''),
      er_depth = d, er_metadata = None\<rparr>)"

lemma visit_discover:
  "neighbor_visit g eff m u c rt d v st = discover (node_index_for g) snapshot_record m u c (eff v, rt, d) st"
proof -
  obtain F V R where st: "st = (F, V, R)" by (rule prod_cases3)
  show ?thesis
    by (cases d) (simp_all add: st neighbor_visit_def discover_def snapshot_record_def Let_def split: option.split)
qed

lemma fold_concat_map: "fold f (concat (map g xs)) = fold (\<lambda>x. fold f (g x)) xs"
  by (induction xs) (simp_all add: fun_eq_iff)

lemma expand_discover:
  "neighbor_expand pg g eff types dr m n u c =
   fold (discover (node_index_for g) snapshot_record m u c) (snapshot_neighbors pg g eff types dr n)"
  unfolding neighbor_expand_def snapshot_neighbors_def fold_concat_map fold_map comp_def visit_discover ..

text \<open>The entries joined to an entry, in the requested types and directions, at their current version.\<close>

definition neighbor_rel :: "('g, 'ix, relation_edge) petgraph \<Rightarrow> ('g, 'ix) typed_relation_graph \<Rightarrow> (nat \<Rightarrow> nat) \<Rightarrow>
    relation_type list \<Rightarrow> neighbor_direction \<Rightarrow> (nat \<times> nat) set" where
  "neighbor_rel pg g eff types dr = {(u, eff v) | u v. \<exists>rt \<in> set types.
     dr \<noteq> NIncoming \<and> (u, v) \<in> type_rel pg g rt \<or> dr \<noteq> NOutgoing \<and> (v, u) \<in> type_rel pg g rt}"

lemma set_map_filter_iff: "y \<in> set (List.map_filter f xs) \<longleftrightarrow> (\<exists>x \<in> set xs. f x = Some y)"
  by (induction xs) (auto split: option.split)

lemma neighbor_ids_set:
  assumes "snapshot_node pg g n u"
  shows "set (neighbor_ids pg g n rt d) =
    (case d of Outgoing \<Rightarrow> {v. (u, v) \<in> type_rel pg g rt} | Incoming \<Rightarrow> {v. (v, u) \<in> type_rel pg g rt})"
proof -
  have ok: "petgraph_ok pg" "graph_wf pg g" "hm_get (node_index g) u = Some n"
    using assms by (simp_all add: snapshot_node_def node_index_for_def)
  have e: "set (neighbor_ids pg g n rt d) = {v. \<exists>(a, b, w) \<in> set (edges_of_type pg g n rt d).
      pg_node_weight pg (inner g) (case d of Outgoing \<Rightarrow> b | Incoming \<Rightarrow> a) = Some v}"
    by (auto simp: neighbor_ids_def set_map_filter_iff node_id_for_index_def case_prod_unfold)
  show ?thesis
  proof (cases d)
    case Outgoing
    have "{v. (u, v) \<in> type_rel pg g rt} = {v. \<exists>(a, b, w) \<in> set (edges_of_type pg g n rt Outgoing). pg_node_weight pg (inner g) b = Some v}"
      using out_ids [OF ok, of rt] edges_weights(2) [OF ok(1,2), of _ _ _ n rt Outgoing] by (force simp: set_eq_iff image_iff)
    then show ?thesis unfolding e by (simp add: Outgoing)
  next
    case Incoming
    have "{v. (v, u) \<in> type_rel pg g rt} = {v. \<exists>(a, b, w) \<in> set (edges_of_type pg g n rt Incoming). pg_node_weight pg (inner g) a = Some v}"
      using in_ids [OF ok, of rt] edges_weights(1) [OF ok(1,2), of _ _ _ n rt Incoming] by (force simp: set_eq_iff image_iff)
    then show ?thesis unfolding e by (simp add: Incoming)
  qed
qed

lemma petgraph_dirs_simps [simp]:
  "Outgoing \<in> set (petgraph_dirs dr) \<longleftrightarrow> dr \<noteq> NIncoming"
  "Incoming \<in> set (petgraph_dirs dr) \<longleftrightarrow> dr \<noteq> NOutgoing"
  by (cases dr; simp add: petgraph_dirs_def)+

lemma snapshot_neighbors_iff:
  assumes "snapshot_node pg g n u"
  shows "(w, rt, d) \<in> set (snapshot_neighbors pg g eff types dr n) \<longleftrightarrow> rt \<in> set types \<and> d \<in> set (petgraph_dirs dr) \<and>
    (\<exists>v. w = eff v \<and> (case d of Outgoing \<Rightarrow> (u, v) \<in> type_rel pg g rt | Incoming \<Rightarrow> (v, u) \<in> type_rel pg g rt))"
  by (cases d) (auto simp: snapshot_neighbors_def neighbor_ids_set [OF assms] image_iff)

lemma snapshot_neighbors_fst:
  assumes "snapshot_node pg g n u"
  shows "fst ` set (snapshot_neighbors pg g eff types dr n) = neighbor_rel pg g eff types dr `` {u}"
proof (intro set_eqI iffI)
  fix w
  assume "w \<in> fst ` set (snapshot_neighbors pg g eff types dr n)"
  then obtain rt d where "(w, rt, d) \<in> set (snapshot_neighbors pg g eff types dr n)" by force
  then show "w \<in> neighbor_rel pg g eff types dr `` {u}"
    unfolding snapshot_neighbors_iff [OF assms] by (cases d) (auto simp: neighbor_rel_def)
next
  fix w
  assume "w \<in> neighbor_rel pg g eff types dr `` {u}"
  then obtain v rt where v: "w = eff v" "rt \<in> set types"
    "dr \<noteq> NIncoming \<and> (u, v) \<in> type_rel pg g rt \<or> dr \<noteq> NOutgoing \<and> (v, u) \<in> type_rel pg g rt"
    by (auto simp: neighbor_rel_def)
  then have "\<exists>d. (w, rt, d) \<in> set (snapshot_neighbors pg g eff types dr n)"
    unfolding snapshot_neighbors_iff [OF assms] by (metis direction.simps(3,4) petgraph_dirs_simps)
  then show "w \<in> fst ` set (snapshot_neighbors pg g eff types dr n)" by force
qed

interpretation near_snapshot: level_search "snapshot_neighbors pg g eff types dr" "node_index_for g"
    "petgraph_ok pg \<and> graph_wf pg g" "neighbor_rel pg g eff types dr" m snapshot_record
    "neighbors_loop pg g eff types dr m" "\<lambda>r. r" for pg g eff types dr m
proof
  fix u n d F V R F' V' R'
  assume "petgraph_ok pg \<and> graph_wf pg g" and n: "node_index_for g u = Some n"
  then have sn: "snapshot_node pg g n u" by (simp add: snapshot_node_def)
  show "fst ` set (snapshot_neighbors pg g eff types dr n) = neighbor_rel pg g eff types dr `` {u}"
    by (rule snapshot_neighbors_fst [OF sn])
  show "d < m \<Longrightarrow> fold (discover (node_index_for g) snapshot_record m u d) (snapshot_neighbors pg g eff types dr n) (F, V, R) = (F', V', R') \<Longrightarrow>
      neighbors_loop pg g eff types dr m ((n, u, d) # F) V R = neighbors_loop pg g eff types dr m F' V' R'"
    by (simp add: expand_discover)
next
  fix u
  assume "petgraph_ok pg \<and> graph_wf pg g" and "node_index_for g u = None"
  then show "neighbor_rel pg g eff types dr `` {u} = {}"
    using id_edges_ids [of pg g] by (auto simp: neighbor_rel_def type_rel_def node_index_for_def graph_ids_def)
qed simp

section \<open>The loop over the database\<close>

text \<open>The other end of a row, as the loop reads it.\<close>

definition row_far :: "nat \<Rightarrow> raw_edge_row \<Rightarrow> nat" where
  "row_far u row = (if raw_source_id row = u then raw_target_id row else raw_source_id row)"

definition row_record :: "nat \<Rightarrow> nat \<times> raw_edge_row \<Rightarrow> nat \<Rightarrow> edge_record" where
  "row_record u p d = (case p of (w, row) \<Rightarrow>
     \<lparr>er_source = (if raw_source_id row = u then u else row_far u row),
      er_target = (if raw_source_id row = u then row_far u row else u),
      er_relation = raw_relation_type row, er_direction = (if raw_source_id row = u then ''outgoing'' else ''incoming''),
      er_depth = d, er_metadata = None\<rparr>)"

text \<open>The queue of the database loop has no node index: there every entry is its own node.\<close>

definition unindexed :: "(nat \<times> nat \<times> nat) list \<times> 'v \<Rightarrow> (nat \<times> nat) list \<times> 'v" where
  "unindexed st = (case st of (F, v) \<Rightarrow> (map snd F, v))"

lemma row_discover:
  "neighbor_row eff m u c row (unindexed st) = unindexed (discover Some row_record m u c (eff (row_far u row), row) st)"
proof -
  obtain F V R where st: "st = (F, V, R)" by (rule prod_cases3)
  show ?thesis
    by (simp add: st neighbor_row_def discover_def row_record_def row_far_def unindexed_def Let_def)
qed

lemma rows_discover:
  "fold (neighbor_row eff m u c) rows (unindexed st) =
   unindexed (fold (discover Some row_record m u c) (map (\<lambda>row. (eff (row_far u row), row)) rows) st)"
  by (induction rows arbitrary: st) (simp_all add: row_discover)

definition database_neighbors :: "edge_fetch \<Rightarrow> (nat \<Rightarrow> nat) \<Rightarrow> string list \<Rightarrow> neighbor_direction \<Rightarrow> nat \<Rightarrow> (nat \<times> raw_edge_row) list" where
  "database_neighbors fetch eff strs dr u =
     (case query_direct_neighbors fetch u strs dr of
        Inl _ \<Rightarrow> []
      | Inr rows \<Rightarrow> map (\<lambda>row. (eff (row_far u row), row)) (take MAX_DB_NEIGHBORS_PER_NODE rows))"

definition database_rel :: "(nat \<Rightarrow> nat) \<Rightarrow> string list \<Rightarrow> neighbor_direction \<Rightarrow> graph_edge_row list \<Rightarrow> (nat \<times> nat) set" where
  "database_rel eff strs dr rows = {(u, eff v) | u v. \<exists>row \<in> set rows.
     dr \<noteq> NIncoming \<and> outgoing_condition u strs row \<and> v = target_id row \<or>
     dr \<noteq> NOutgoing \<and> incoming_condition u strs row \<and> v = source_id row}"

text \<open>No entry has more rows of the types, in either direction, than the search reads.\<close>

definition degree_ok :: "string list \<Rightarrow> graph_edge_row list \<Rightarrow> bool" where
  "degree_ok strs rows \<longleftrightarrow> (\<forall>u. length (filter (outgoing_condition u strs) rows) +
     length (filter (incoming_condition u strs) rows) \<le> MAX_DB_NEIGHBORS_PER_NODE)"

lemma selection:
  assumes "table_ok fetch rows"
  obtains rs where "fetch P = Inr rs" "set rs = {row \<in> set rows. P row}" "length rs = length (filter P rows)"
proof -
  obtain rs where rs: "fetch P = Inr rs" "mset rs = mset (filter P rows)"
    using assms unfolding table_ok_def by blast
  then show thesis using that [of rs] mset_eq_setD [OF rs(2)] mset_eq_length [OF rs(2)] by simp
qed

lemma query_selects:
  assumes "table_ok fetch rows" and "degree_ok strs rows"
  obtains rs where "query_direct_neighbors fetch u strs dr = Inr (map map_edge_row rs)"
    "take MAX_DB_NEIGHBORS_PER_NODE rs = rs"
    "set rs = {row \<in> set rows. dr \<noteq> NIncoming \<and> outgoing_condition u strs row \<or> dr \<noteq> NOutgoing \<and> incoming_condition u strs row}"
proof -
  obtain os where os: "fetch (outgoing_condition u strs) = Inr os" "set os = {row \<in> set rows. outgoing_condition u strs row}"
    "length os = length (filter (outgoing_condition u strs) rows)" by (rule selection [OF assms(1)])
  obtain ins where ins: "fetch (incoming_condition u strs) = Inr ins" "set ins = {row \<in> set rows. incoming_condition u strs row}"
    "length ins = length (filter (incoming_condition u strs) rows)" by (rule selection [OF assms(1)])
  have len: "length os + length ins \<le> MAX_DB_NEIGHBORS_PER_NODE"
    using assms(2) os(3) ins(3) unfolding degree_ok_def by simp
  show thesis
  proof (cases dr)
    case NIncoming
    then show ?thesis using that [of ins] ins len by (simp add: query_direct_neighbors_def run_incoming_query_def)
  next
    case NOutgoing
    then show ?thesis using that [of os] os len by (simp add: query_direct_neighbors_def run_outgoing_query_def)
  next
    case NBoth
    then show ?thesis using that [of "os @ ins"] os ins len
      by (auto simp: query_direct_neighbors_def run_outgoing_query_def run_incoming_query_def)
  qed
qed

lemma far_out: "outgoing_condition u strs row \<Longrightarrow> row_far u (map_edge_row row) = target_id row"
  by (simp add: outgoing_condition_def row_far_def map_edge_row_def split: if_splits)

lemma far_in: "incoming_condition u strs row \<Longrightarrow> row_far u (map_edge_row row) = source_id row"
  by (auto simp: incoming_condition_def row_far_def map_edge_row_def split: if_splits)

lemma database_neighbors_fst:
  assumes "table_ok fetch rows" and "degree_ok strs rows"
  shows "fst ` set (database_neighbors fetch eff strs dr u) = database_rel eff strs dr rows `` {u}"
proof -
  obtain rs where rs: "query_direct_neighbors fetch u strs dr = Inr (map map_edge_row rs)"
    "take MAX_DB_NEIGHBORS_PER_NODE rs = rs"
    "set rs = {row \<in> set rows. dr \<noteq> NIncoming \<and> outgoing_condition u strs row \<or> dr \<noteq> NOutgoing \<and> incoming_condition u strs row}"
    by (rule query_selects [OF assms])
  have "fst ` set (database_neighbors fetch eff strs dr u) = (\<lambda>row. eff (row_far u (map_edge_row row))) ` set rs"
    using rs(1,2) by (simp add: database_neighbors_def take_map image_image)
  also have "\<dots> = database_rel eff strs dr rows `` {u}"
    unfolding rs(3) database_rel_def by (fastforce simp: image_iff far_out far_in)
  finally show ?thesis .
qed

interpretation near_database: level_search "database_neighbors fetch eff strs dr" Some
    "table_ok fetch rows \<and> degree_ok strs rows" "database_rel eff strs dr rows" m row_record
    "\<lambda>F. neighbors_db_loop fetch eff strs dr m (map snd F)" Inr for fetch eff strs dr rows m
proof
  fix u n :: nat and d F V R F' V' R'
  assume ok: "table_ok fetch rows \<and> degree_ok strs rows" and n: "Some u = Some n"
  then show "fst ` set (database_neighbors fetch eff strs dr n) = database_rel eff strs dr rows `` {u}"
    using database_neighbors_fst by simp
  assume d: "d < m" and f: "fold (discover Some row_record m u d) (database_neighbors fetch eff strs dr n) (F, V, R) = (F', V', R')"
  obtain rs where "query_direct_neighbors fetch u strs dr = Inr (map map_edge_row rs)"
    using query_selects [of fetch rows strs u dr] ok by blast
  then show "neighbors_db_loop fetch eff strs dr m (map snd ((n, u, d) # F)) V R = neighbors_db_loop fetch eff strs dr m (map snd F') V' R'"
    using d n f rows_discover [of eff m u d "take MAX_DB_NEIGHBORS_PER_NODE (map map_edge_row rs)" "(F, V, R)"]
    by (simp add: database_neighbors_def unindexed_def)
qed simp_all

section \<open>What the handler answers\<close>

text \<open>The ends of the edge a record shows: the entry it was found from, and the entry found.\<close>

definition far_end :: "edge_record \<Rightarrow> nat" where
  "far_end e = (if er_direction e = ''outgoing'' then er_target e else er_source e)"

definition near_end :: "edge_record \<Rightarrow> nat" where
  "near_end e = (if er_direction e = ''outgoing'' then er_source e else er_target e)"

lemma snapshot_record_simps [simp]:
  "far_end (snapshot_record u p d) = fst p" "near_end (snapshot_record u p d) = u" "er_depth (snapshot_record u p d) = d"
  by (cases p; simp add: far_end_def near_end_def snapshot_record_def split: direction.split)+

lemma row_record_simps [simp]:
  "far_end (row_record u p d) = row_far u (snd p)" "near_end (row_record u p d) = u" "er_depth (row_record u p d) = d"
  by (cases p; simp add: far_end_def near_end_def row_record_def)+

text \<open>An edge of a requested type and direction joins the ends of the record, the far end at its current version.\<close>

definition record_stands :: "('g, 'ix, relation_edge) petgraph \<Rightarrow> ('g, 'ix) typed_relation_graph \<Rightarrow> (nat \<Rightarrow> nat) \<Rightarrow>
    relation_type list \<Rightarrow> neighbor_direction \<Rightarrow> edge_record \<Rightarrow> bool" where
  "record_stands pg g eff types dr e \<longleftrightarrow> (\<exists>rt \<in> set types. \<exists>v. er_relation e = as_str rt \<and> far_end e = eff v \<and>
     (er_direction e = ''outgoing'' \<and> dr \<noteq> NIncoming \<and> (near_end e, v) \<in> type_rel pg g rt \<or>
      er_direction e = ''incoming'' \<and> dr \<noteq> NOutgoing \<and> (v, near_end e) \<in> type_rel pg g rt))"

lemma snapshot_record_stands:
  assumes "snapshot_node pg g n u" and "(w, rt, d) \<in> set (snapshot_neighbors pg g eff types dr n)"
  shows "record_stands pg g eff types dr (snapshot_record u (w, rt, d) k)"
proof -
  have f: "far_end (snapshot_record u (w, rt, d) k) = w" "near_end (snapshot_record u (w, rt, d) k) = u" by simp_all
  show ?thesis
    using assms(2) unfolding snapshot_neighbors_iff [OF assms(1)] record_stands_def f
    by (cases d) (auto simp: snapshot_record_def)
qed

text \<open>At each distance the records of that depth show the entries first reached at it, once each.\<close>

definition level_records :: "(nat \<times> nat) set \<Rightarrow> (nat \<Rightarrow> nat) \<Rightarrow> nat \<Rightarrow> nat \<Rightarrow> edge_record list \<Rightarrow> bool" where
  "level_records N res a m edges \<longleftrightarrow> distinct (map (res \<circ> far_end) edges) \<and>
     (res \<circ> far_end) ` set edges = near N {a} m - {a} \<and>
     (\<forall>e \<in> set edges. 1 \<le> er_depth e \<and> er_depth e \<le> m \<and> near_end e \<in> near N {a} (er_depth e - 1) \<and>
        res (far_end e) \<in> near N {a} (er_depth e) - near N {a} (er_depth e - 1))"

lemma near_isolated: "N `` {a} = {} \<Longrightarrow> near N {a} m = {a}"
  using near_closed [of N "{a}" 0 m] by simp

lemma neighbors_bfs_snapshot:
  assumes "petgraph_ok pg" and "graph_wf pg (typed_graph st)" and "\<not> use_fallback st" and "0 < m"
  shows "\<exists>edges. neighbors_bfs pg fetch get st a types dr m resolve = Inr edges \<and>
    level_records (neighbor_rel pg (typed_graph st) (effective get resolve) types dr) (\<lambda>i. i) a m edges \<and>
    (\<forall>e \<in> set edges. record_stands pg (typed_graph st) (effective get resolve) types dr e)"
proof -
  let ?g = "typed_graph st" and ?eff = "effective get resolve"
  let ?N = "neighbor_rel pg ?g ?eff types dr"
  have ok: "petgraph_ok pg \<and> graph_wf pg ?g" using assms(1,2) by simp
  show ?thesis
  proof (cases "node_index_for ?g a")
    case None
    then have "?N `` {a} = {}" by (rule near_snapshot.leaf [OF ok])
    then show ?thesis using assms(3) None by (simp add: neighbors_bfs_def Let_def level_records_def near_isolated)
  next
    case (Some n)
    obtain G where G: "neighbors_loop pg ?g ?eff types dr m [(n, a, 0)] {a} [] = records_of snapshot_record G"
      "discoveries ?N (nbrs_of (snapshot_neighbors pg ?g ?eff types dr) (node_index_for ?g)) a m G" "found_ids G = near ?N {a} m - {a}"
      using near_snapshot.search_finds [OF ok Some assms(4), where eff = ?eff and types = types and dr = dr] by auto
    have stands: "record_stands pg ?g ?eff types dr (snapshot_record u p d)" if "(u, p, d) \<in> set G" for u p d
    proof -
      have "p \<in> nbrs_of (snapshot_neighbors pg ?g ?eff types dr) (node_index_for ?g) u" using G(2) that unfolding discoveries_def by blast
      then obtain k where k: "node_index_for ?g u = Some k" "p \<in> set (snapshot_neighbors pg ?g ?eff types dr k)"
        unfolding nbrs_of_def by (auto split: option.splits)
      then have "snapshot_node pg ?g k u" using ok by (simp add: snapshot_node_def)
      then show ?thesis using snapshot_record_stands k(2) by (cases p) simp
    qed
    have "level_records ?N (\<lambda>i. i) a m (records_of snapshot_record G)"
      using G(2,3) unfolding level_records_def discoveries_def records_of_def found_ids_def
      by (auto simp: comp_def case_prod_unfold image_image)
    moreover have "\<forall>e \<in> set (records_of snapshot_record G). record_stands pg ?g ?eff types dr e"
      using stands unfolding records_of_def by auto
    ultimately show ?thesis using assms(3) Some G(1) by (simp add: neighbors_bfs_def Let_def)
  qed
qed

lemma follow_idem: "follow_to_current get i = Some j \<Longrightarrow> follow_to_current get j = Some j"
  unfolding follow_to_current_iff by (auto intro: exI [of _ 0])

lemma effective_idem [simp]: "effective get r (effective get r i) = effective get r i"
  using follow_idem [of get i] by (cases "follow_to_current get i") (auto simp: effective_def)

lemma neighbors_bfs_database:
  assumes "use_fallback st" and "table_ok fetch rows" and "degree_ok (map as_str types) rows" and "0 < m"
  shows "\<exists>edges. neighbors_bfs pg fetch get st a types dr m resolve = Inr edges \<and>
    level_records (database_rel (effective get resolve) (map as_str types) dr rows) (effective get resolve) a m edges"
proof -
  let ?eff = "effective get resolve" and ?strs = "map as_str types"
  let ?N = "database_rel ?eff ?strs dr rows" and ?nb = "database_neighbors fetch ?eff ?strs dr"
  have ok: "table_ok fetch rows \<and> degree_ok ?strs rows" using assms(2,3) by simp
  obtain G where G: "neighbors_db_loop fetch ?eff ?strs dr m [(a, 0)] {a} [] = Inr (records_of row_record G)"
    "discoveries ?N (nbrs_of ?nb Some) a m G" "found_ids G = near ?N {a} m - {a}"
    using near_database.search_finds [OF ok refl assms(4), where eff = ?eff and dr = dr] by auto
  have res: "?eff (row_far u (snd p)) = fst p" if "(u, p, d) \<in> set G" for u p d
  proof -
    have "p \<in> set (?nb u)" using G(2) that unfolding discoveries_def nbrs_of_def by auto
    then show ?thesis by (auto simp: database_neighbors_def split: sum.splits)
  qed
  have m: "map (?eff \<circ> far_end) (records_of row_record G) = map (\<lambda>(u, p, d). fst p) G"
    using res by (auto simp: records_of_def)
  have "level_records ?N ?eff a m (records_of row_record G)"
    unfolding level_records_def m
  proof (intro conjI ballI)
    show "distinct (map (\<lambda>(u, p, d). fst p) G)" using G(2) by (simp add: discoveries_def)
    show "(?eff \<circ> far_end) ` set (records_of row_record G) = near ?N {a} m - {a}"
      using arg_cong [OF m, of set] G(3) by (simp add: found_ids_def)
  next
    fix e
    assume "e \<in> set (records_of row_record G)"
    then obtain u p d where e: "e = row_record u p d" "(u, p, d) \<in> set G" by (auto simp: records_of_def)
    then have "1 \<le> d \<and> d \<le> m \<and> u \<in> near ?N {a} (d - 1) \<and> fst p \<in> near ?N {a} d - near ?N {a} (d - 1)"
      using G(2) unfolding discoveries_def by blast
    then show "1 \<le> er_depth e" "er_depth e \<le> m" "near_end e \<in> near ?N {a} (er_depth e - 1)"
      "?eff (far_end e) \<in> near ?N {a} (er_depth e) - near ?N {a} (er_depth e - 1)"
      using res [OF e(2)] by (simp_all add: e(1))
  qed
  then show ?thesis using assms(1) G(1) by (simp add: neighbors_bfs_def neighbors_via_db_def Let_def)
qed

text \<open>The id a record's far end stands for.\<close>

definition neighbor_current :: "(nat \<Rightarrow> store_error + entry_record) \<Rightarrow> neighbor_params \<Rightarrow> nat \<Rightarrow> nat" where
  "neighbor_current get params = effective get (np_resolve params \<noteq> Some False)"

lemma handle_neighbors_bfs:
  assumes "neighbor_depth params = Inr m" and "m \<noteq> 1" and "neighbor_direction_of params = Inr dr" and "neighbor_types params = Inr types"
  shows "handle_neighbors pg fetch get st params a = neighbors_bfs pg fetch get st a types dr m (np_resolve params \<noteq> Some False)"
  using assms by (auto simp: handle_neighbors_def split: option.split)

lemma neighbor_depth_bound: "neighbor_depth params = Inr m \<Longrightarrow> 1 \<le> m \<and> m \<le> 10"
  by (auto simp: neighbor_depth_def Let_def split: option.splits if_splits)

section \<open>Depth one\<close>

text \<open>The memo holds the current versions of the ids it knows.\<close>

definition memo_sound :: "(nat \<Rightarrow> store_error + entry_record) \<Rightarrow> (nat, nat) hmap \<Rightarrow> bool" where
  "memo_sound get memo \<longleftrightarrow> (\<forall>i t. hm_get memo i = Some t \<longrightarrow> t = effective get True i)"

lemma resolve_memoized_sound:
  assumes "memo_sound get memo" and "resolve_memoized get memo i = (t, memo')"
  shows "t = effective get True i \<and> memo_sound get memo'"
proof (cases "hm_get memo i")
  case None
  then show ?thesis using assms
    by (auto simp: resolve_memoized_def memo_sound_def effective_def hm_get_insert Let_def split: if_splits)
next
  case (Some x)
  then show ?thesis using assms by (auto simp: resolve_memoized_def memo_sound_def)
qed

text \<open>The record of one row: the anchor's end as stored, the other at its current version.\<close>

definition direct_record :: "(nat \<Rightarrow> nat) \<Rightarrow> nat \<Rightarrow> raw_edge_row \<Rightarrow> edge_record" where
  "direct_record eff i row =
     \<lparr>er_source = (if raw_source_id row = i then i else eff (raw_source_id row)),
      er_target = (if raw_source_id row = i then eff (raw_target_id row) else raw_target_id row),
      er_relation = raw_relation_type row, er_direction = (if raw_source_id row = i then ''outgoing'' else ''incoming''),
      er_depth = 1, er_metadata = None\<rparr>"

lemma sql_row_step:
  assumes "memo_sound get memo"
  shows "\<exists>memo'. sql_row get i resolve row (memo, edges) = (memo', edges @ [direct_record (effective get resolve) i row]) \<and>
    memo_sound get memo'"
proof (cases resolve)
  case True
  obtain t memo' where r: "resolve_memoized get memo (if raw_source_id row = i then raw_target_id row else raw_source_id row) = (t, memo')"
    by fastforce
  show ?thesis using resolve_memoized_sound [OF assms r] r True
    by (cases "raw_source_id row = i") (simp_all add: sql_row_def direct_record_def)
next
  case False
  then show ?thesis using assms by (simp add: sql_row_def direct_record_def effective_def)
qed

lemma sql_rows:
  "memo_sound get memo \<Longrightarrow>
   snd (fold (sql_row get i resolve) rows (memo, edges)) = edges @ map (direct_record (effective get resolve) i) rows"
proof (induction rows arbitrary: memo edges)
  case (Cons row rows)
  obtain memo' where "sql_row get i resolve row (memo, edges) = (memo', edges @ [direct_record (effective get resolve) i row])"
    "memo_sound get memo'" using sql_row_step [OF Cons.prems] by blast
  then show ?case using Cons.IH by simp
qed simp

text \<open>
  Neighbours mode at depth one, in every state of the snapshot: one record for each row
  the edge table returns, in its order and with its relation; the anchor's end is the stored
  id and the other end is followed to its current version, exactly as if each row were
  resolved afresh, although the handler remembers resolutions within a request. A failed
  query is the internal error with the store's message.
\<close>

lemma depth_one_exact:
  assumes "neighbor_depth params = Inr 1" and "neighbor_direction_of params = Inr dr" and "neighbor_types params = Inr types"
  shows "handle_neighbors pg fetch get st params i =
    (case query_direct_neighbors fetch i (map as_str types) dr of
       Inl e \<Rightarrow> Inl (ErrorData ERROR_INTERNAL (''graph query failed: '' @ store_error_display e))
     | Inr rows \<Rightarrow> Inr (map (direct_record (neighbor_current get params) i) rows))"
proof -
  have "memo_sound get []" by (simp add: memo_sound_def)
  then show ?thesis using assms sql_rows [of get "[]" i "np_resolve params \<noteq> Some False" _ "[]"]
    by (auto simp: handle_neighbors_def neighbors_sql_def graph_query_failed_def neighbor_current_def split: sum.split option.split)
qed

section \<open>The answer\<close>

text \<open>
  C15. Neighbours mode, for every valid request. At depth one, the default, the answer is read
  from the edge table whatever the state of the snapshot: one record for each row the table
  returns, in its order, so an entry joined by several edges is shown several times; the
  anchor's end is the stored id and the other end is followed to its current version, and a
  failed query is the internal error with the store's message. From depth two to ten, on a warm
  well-formed snapshot, the handler answers without an error: the entries shown are exactly those
  other than the anchor that edges of the requested types and directions reach within the depth,
  each followed to its current version, and each is shown once; a record's depth is the least
  number of edges to its entry; the entry it was found from is one edge nearer; and an edge of the
  record's type runs between them in the record's direction. An anchor outside the snapshot has
  no neighbours then.
\<close>

theorem handle_neighbors_exact:
  assumes "petgraph_ok pg" and "neighbor_depth params = Inr m" and "neighbor_direction_of params = Inr dr"
    and "neighbor_types params = Inr types" and "m = 1 \<or> graph_wf pg (typed_graph st) \<and> \<not> use_fallback st"
  shows "if m = 1 then
      handle_neighbors pg fetch get st params a =
        (case query_direct_neighbors fetch a (map as_str types) dr of
           Inl e \<Rightarrow> Inl (ErrorData ERROR_INTERNAL (''graph query failed: '' @ store_error_display e))
         | Inr rows \<Rightarrow> Inr (map (direct_record (neighbor_current get params) a) rows))
    else \<exists>edges. handle_neighbors pg fetch get st params a = Inr edges \<and>
      (let eff = neighbor_current get params; N = neighbor_rel pg (typed_graph st) eff types dr
       in distinct (map far_end edges) \<and> far_end ` set edges = near N {a} m - {a} \<and>
          (\<forall>e \<in> set edges. 1 \<le> er_depth e \<and> er_depth e \<le> m \<and> near_end e \<in> near N {a} (er_depth e - 1) \<and>
             far_end e \<in> near N {a} (er_depth e) - near N {a} (er_depth e - 1) \<and>
             record_stands pg (typed_graph st) eff types dr e))"
proof (cases "m = 1")
  case True
  then show ?thesis using depth_one_exact [OF _ assms(3,4)] assms(2) by simp
next
  case False
  then have st: "graph_wf pg (typed_graph st)" "\<not> use_fallback st" using assms(5) by simp_all
  have "0 < m" using neighbor_depth_bound [OF assms(2)] by simp
  then obtain edges where e: "neighbors_bfs pg fetch get st a types dr m (np_resolve params \<noteq> Some False) = Inr edges"
    "level_records (neighbor_rel pg (typed_graph st) (neighbor_current get params) types dr) (\<lambda>i. i) a m edges"
    "\<forall>e \<in> set edges. record_stands pg (typed_graph st) (neighbor_current get params) types dr e"
    using neighbors_bfs_snapshot [OF assms(1) st] unfolding neighbor_current_def by blast
  have "map ((\<lambda>i. i) \<circ> far_end) edges = map far_end edges" by simp
  then show ?thesis using e False unfolding handle_neighbors_bfs [OF assms(2) False assms(3,4)] level_records_def Let_def if_not_P [OF False]
    by (intro exI [of _ edges]) (simp add: comp_def)
qed

definition neighbor_request :: "nat \<Rightarrow> neighbor_params" where
  "neighbor_request m = \<lparr>np_depth = Some m, np_direction = None, np_edge_types = None, np_resolve = None\<rparr>"

lemma neighbor_request_simps [simp]:
  "neighbor_depth (neighbor_request 2) = Inr 2" "neighbor_direction_of (neighbor_request m) = Inr NBoth"
  "neighbor_types (neighbor_request m) = Inr all_non_supersedes_types" "np_resolve (neighbor_request m) = None"
  by (simp_all add: neighbor_request_def neighbor_depth_def neighbor_direction_of_def neighbor_types_def Let_def)

theorem handle_neighbors_exact_witness:
  "\<exists>edges. handle_neighbors list_petgraph (\<lambda>_. Inr []) all_active
     \<lparr>typed_graph = contradiction_sample, all_entries = [], use_fallback = False\<rparr> (neighbor_request 2) 2 = Inr edges \<and>
   far_end ` set edges = near (neighbor_rel list_petgraph contradiction_sample (neighbor_current all_active (neighbor_request 2))
     all_non_supersedes_types NBoth) {2} 2 - {2} \<and> distinct (map far_end edges)"
  using handle_neighbors_exact [OF list_petgraph_ok, of "neighbor_request 2" 2 NBoth all_non_supersedes_types
      "\<lparr>typed_graph = contradiction_sample, all_entries = [], use_fallback = False\<rparr>" "\<lambda>_. Inr []" all_active 2] contradiction_sample_wf
  by (auto simp: Let_def)

section \<open>Cold and warm\<close>

lemma level_records_depth:
  assumes "level_records N res a m edges" and "x \<in> set edges" and "res (far_end x) \<in> near N {a} k - near N {a} (k - 1)"
  shows "er_depth x = k"
proof -
  let ?d = "er_depth x"
  have x: "res (far_end x) \<in> near N {a} ?d - near N {a} (?d - 1)" using assms(1,2) by (simp add: level_records_def)
  have "?d \<le> k - 1 \<Longrightarrow> near N {a} ?d \<subseteq> near N {a} (k - 1)" "k \<le> ?d - 1 \<Longrightarrow> near N {a} k \<subseteq> near N {a} (?d - 1)"
    by (rule near_mono, assumption)+
  then have "\<not> ?d \<le> k - 1" "\<not> k \<le> ?d - 1" using x assms(3) by blast+
  then show ?thesis by linarith
qed

lemma level_records_subset:
  assumes "level_records N res a m edges" and "level_records N res' a m edges'"
  shows "(\<lambda>e. (res (far_end e), er_depth e)) ` set edges \<subseteq> (\<lambda>e. (res' (far_end e), er_depth e)) ` set edges'"
proof
  fix y
  assume "y \<in> (\<lambda>e. (res (far_end e), er_depth e)) ` set edges"
  then obtain e where e: "e \<in> set edges" "y = (res (far_end e), er_depth e)" by blast
  then have "res (far_end e) \<in> (res' \<circ> far_end) ` set edges'" using assms unfolding level_records_def by (metis comp_apply imageI)
  then obtain e' where e': "e' \<in> set edges'" "res' (far_end e') = res (far_end e)" by auto
  have "res' (far_end e') \<in> near N {a} (er_depth e) - near N {a} (er_depth e - 1)"
    unfolding e'(2) using assms(1) e(1) by (simp add: level_records_def)
  then have "er_depth e' = er_depth e" by (rule level_records_depth [OF assms(2) e'(1)])
  then show "y \<in> (\<lambda>e. (res' (far_end e), er_depth e)) ` set edges'" using e(2) e' by (intro image_eqI [of _ _ e']) simp_all
qed

text \<open>The rows of the requested types join entries of the snapshot and carry no bootstrap flag.\<close>

definition rows_admitted :: "relation_type list \<Rightarrow> entry_record list \<Rightarrow> graph_edge_row list \<Rightarrow> bool" where
  "rows_admitted types entries rows \<longleftrightarrow> (\<forall>row \<in> set rows. row_type row \<in> as_str ` set types \<longrightarrow>
     \<not> row_bootstrap_only row \<and> source_id row \<in> live_ids entries \<and> target_id row \<in> live_ids entries)"

lemma neighbor_types_loop_ok:
  "neighbor_types_loop ss res = Inr types \<Longrightarrow> Supersedes \<notin> set res \<Longrightarrow>
   length types = length res + length ss \<and> Supersedes \<notin> set types"
proof (induction ss arbitrary: res)
  case (Cons s ss)
  have "from_str s \<noteq> Some Supersedes" if "\<not> eq_ignore_ascii_case s ''Supersedes''"
  proof
    assume "from_str s = Some Supersedes"
    then have "s = ''Supersedes''" unfolding from_str_def by (simp split: if_splits)
    then show False using that by (simp add: eq_ignore_ascii_case_def)
  qed
  then show ?case using Cons by (auto split: if_splits option.splits)
qed simp

lemma neighbor_types_ok:
  assumes "neighbor_types params = Inr types"
  shows "types \<noteq> []" "Supersedes \<notin> set types"
proof -
  have "types \<noteq> [] \<and> Supersedes \<notin> set types"
  proof (cases "np_edge_types params")
    case (Some ss)
    show ?thesis
    proof (cases "ss = []")
      case True
      then show ?thesis using assms Some by (auto simp: neighbor_types_def all_non_supersedes_types_def)
    next
      case False
      then have "neighbor_types_loop ss [] = Inr types" using assms Some by (simp add: neighbor_types_def)
      from neighbor_types_loop_ok [OF this] show ?thesis using False by auto
    qed
  qed (use assms in \<open>auto simp: neighbor_types_def all_non_supersedes_types_def\<close>)
  then show "types \<noteq> []" "Supersedes \<notin> set types" by simp_all
qed

lemma warm_type_rel:
  assumes "petgraph_ok pg" and "petgraph_ok pt" and "distinct (map eid entries)"
    and "rebuild pg pt (Inr entries) (Inr rows) = Some (Inr st)" and "rows_admitted types entries rows"
    and "rt \<in> set types" and "rt \<noteq> Supersedes"
  shows "type_rel pg (typed_graph st) rt = {(source_id row, target_id row) | row. row \<in> set rows \<and> row_type row = as_str rt}"
proof -
  have ids: "eid ` set (filter (\<lambda>e. status e \<noteq> Quarantined) entries) = live_ids entries" by (simp add: live_ids_def)
  have e: "id_edges pg (typed_graph st) = expected_edges (filter (\<lambda>e. status e \<noteq> Quarantined) entries) rows"
    using rebuild_state [OF assms(1-4)] by simp
  have "as_str rt \<noteq> ''Supersedes''" using assms(7) by (cases rt) simp_all
  then have "admitted_row (live_ids entries) row" if "row \<in> set rows" "row_type row = as_str rt" for row
    using assms(5,6) that by (auto simp: rows_admitted_def admitted_row_def)
  then show ?thesis unfolding row_type_rel [OF e assms(7)] ids by blast
qed

lemma cold_warm_rel:
  assumes "\<And>rt. rt \<in> set types \<Longrightarrow>
      type_rel pg g rt = {(source_id row, target_id row) | row. row \<in> set rows \<and> row_type row = as_str rt}"
    and "types \<noteq> []"
  shows "neighbor_rel pg g eff types dr = database_rel eff (map as_str types) dr rows"
proof -
  have "(\<exists>rt \<in> set types. dr \<noteq> NIncoming \<and> (u, v) \<in> type_rel pg g rt \<or> dr \<noteq> NOutgoing \<and> (v, u) \<in> type_rel pg g rt) \<longleftrightarrow>
      (\<exists>row \<in> set rows. dr \<noteq> NIncoming \<and> outgoing_condition u (map as_str types) row \<and> v = target_id row \<or>
         dr \<noteq> NOutgoing \<and> incoming_condition u (map as_str types) row \<and> v = source_id row)" for u v
    using assms by (auto simp: outgoing_condition_def incoming_condition_def)
  then show ?thesis by (simp add: neighbor_rel_def database_rel_def)
qed

text \<open>
  C16. Neighbours mode before and after the first tick. At depth one the two answers are the
  same, both being read from the edge table. At depths two to ten let the snapshot be rebuilt from
  the entries and the edge table, let every row of a requested type join two entries that are not
  quarantined, without the bootstrap flag, and let no entry have more rows than the database
  search reads. Then both searches succeed and find, once each and at the same depth, the same
  entries up to supersession: the warm answer shows the current version of each, the cold one may
  show a stored id that the current version replaces (\<open>cold_neighbor_unresolved\<close>), and following
  the ids of the cold answer to their current versions gives the ids of the warm one.
\<close>

theorem neighbor_modes_agree:
  assumes "petgraph_ok pg" and "petgraph_ok pt" and "distinct (map eid entries)"
    and "rebuild pg pt (Inr entries) (Inr rows) = Some (Inr st)" and "use_fallback cold"
    and "table_ok fetch rows" and "degree_ok (map as_str types) rows" and "rows_admitted types entries rows"
    and "neighbor_depth params = Inr m" and "neighbor_direction_of params = Inr dr" and "neighbor_types params = Inr types"
  shows "if m = 1 then handle_neighbors pg fetch get st params a = handle_neighbors pg fetch get cold params a
    else \<exists>warm_edges cold_edges. handle_neighbors pg fetch get st params a = Inr warm_edges \<and>
      handle_neighbors pg fetch get cold params a = Inr cold_edges \<and>
      distinct (map far_end warm_edges) \<and> distinct (map (neighbor_current get params \<circ> far_end) cold_edges) \<and>
      (\<lambda>e. (far_end e, er_depth e)) ` set warm_edges =
        (\<lambda>e. (neighbor_current get params (far_end e), er_depth e)) ` set cold_edges"
proof (cases "m = 1")
  case True
  then have "neighbor_depth params = Inr 1" using assms(9) by simp
  note one = depth_one_exact [OF this assms(10,11)]
  show ?thesis unfolding one [of pg fetch get st a] one [of pg fetch get cold a] using True by simp
next
  case False
  let ?eff = "neighbor_current get params"
  let ?N = "neighbor_rel pg (typed_graph st) ?eff types dr"
  have st: "graph_wf pg (typed_graph st)" "\<not> use_fallback st" using rebuild_state [OF assms(1-4)] by simp_all
  have m: "0 < m" using neighbor_depth_bound [OF assms(9)] by simp
  note bfs = handle_neighbors_bfs [OF assms(9) False assms(10,11)]
  have "rt \<noteq> Supersedes" if "rt \<in> set types" for rt using that neighbor_types_ok(2) [OF assms(11)] by blast
  then have N: "?N = database_rel ?eff (map as_str types) dr rows"
    using cold_warm_rel warm_type_rel [OF assms(1-4,8)] neighbor_types_ok(1) [OF assms(11)] by blast
  obtain w where w: "handle_neighbors pg fetch get st params a = Inr w" "level_records ?N (\<lambda>i. i) a m w"
    using neighbors_bfs_snapshot [OF assms(1) st m] unfolding bfs neighbor_current_def by blast
  obtain c where c: "handle_neighbors pg fetch get cold params a = Inr c" "level_records ?N ?eff a m c"
    using neighbors_bfs_database [OF assms(5-7) m] unfolding bfs N unfolding neighbor_current_def by blast
  have "(\<lambda>e. (far_end e, er_depth e)) ` set w = (\<lambda>e. (?eff (far_end e), er_depth e)) ` set c"
    by (intro subset_antisym level_records_subset [OF w(2) c(2)] level_records_subset [OF c(2) w(2)])
  moreover have "distinct (map far_end w)" using w(2) by (simp add: level_records_def comp_def)
  moreover have "distinct (map (?eff \<circ> far_end) c)" using c(2) by (simp add: level_records_def)
  ultimately show ?thesis using w(1) c(1) False by auto
qed

lemma sample_rebuild:
  assumes "distinct (map eid es)" and "acyclic (supersession es)"
  obtains st where "rebuild list_petgraph (list_petgraph :: (unit list_graph, nat, unit) petgraph) (Inr es) (Inr rows) = Some (Inr st)"
proof -
  let ?es = "filter (\<lambda>e. status e \<noteq> Quarantined) es"
  have "supersession ?es \<subseteq> supersession es" by (auto simp: supersession_code)
  then have "acyclic (supersession ?es)" by (rule acyclic_subset [OF assms(2)])
  then obtain g where "build_typed_relation_graph list_petgraph (list_petgraph :: (unit list_graph, nat, unit) petgraph) ?es rows = Some (Inr g)"
    using build_graph [OF list_petgraph_ok list_petgraph_ok distinct_filter_eids [OF assms(1), of "\<lambda>e. status e \<noteq> Quarantined"], of rows]
    by auto
  then show thesis using that by (auto simp: rebuild_def)
qed

definition cited_entries :: "entry_record list" where
  "cited_entries = [entry_v 7 None Active None, entry_v 8 None Active None, entry_v 9 None Deprecated (Some 7)]"

lemma cited_rebuild:
  obtains st where "rebuild list_petgraph (list_petgraph :: (unit list_graph, nat, unit) petgraph) (Inr cited_entries) (Inr rows) = Some (Inr st)"
proof (rule sample_rebuild [of cited_entries rows])
  show "distinct (map eid cited_entries)" by (simp add: cited_entries_def)
  show "acyclic (supersession cited_entries)"
    by (rule acyclicI_order [where f = "\<lambda>i. if i = 9 then 7 else i :: nat"]) (auto simp: supersession_code cited_entries_def)
qed

lemma cited_current [simp]: "effective merged_entries True i = (if i = 9 then 7 else i)"
  by (simp add: effective_def follow_to_current_def merged_entries_def numeral_eq_Suc)

lemma cited_admitted: "rows_admitted all_non_supersedes_types cited_entries [cites_row 8 9]"
  by (simp add: rows_admitted_def live_ids_code cited_entries_def)

lemma cited_degree: "degree_ok (map as_str all_non_supersedes_types) [cites_row 8 9]"
  by (simp add: degree_ok_def MAX_DB_NEIGHBORS_PER_NODE_def)

lemma cited_cold:
  "handle_neighbors list_petgraph (list_fetch [cites_row 8 9]) merged_entries (graph_state_new list_petgraph) (neighbor_request 2) 8 =
   Inr [\<lparr>er_source = 8, er_target = 9, er_relation = ''Cites'', er_direction = ''outgoing'', er_depth = 1, er_metadata = None\<rparr>]"
  unfolding handle_neighbors_bfs [OF neighbor_request_simps(1) _ neighbor_request_simps(2,3), of list_petgraph, simplified]
  by (simp add: neighbors_bfs_def graph_state_new_def neighbors_via_db_def query_direct_neighbors_def run_outgoing_query_def
      run_incoming_query_def list_fetch_def outgoing_condition_def incoming_condition_def all_non_supersedes_types_def map_edge_row_def
      MAX_DB_NEIGHBORS_PER_NODE_def neighbor_row_def)

theorem neighbor_modes_agree_witness:
  "\<exists>st warm_edges. rebuild list_petgraph list_petgraph (Inr cited_entries) (Inr [cites_row 8 9]) = Some (Inr st) \<and>
     handle_neighbors list_petgraph (list_fetch [cites_row 8 9]) merged_entries st (neighbor_request 2) 8 = Inr warm_edges \<and>
     (\<lambda>e. (far_end e, er_depth e)) ` set warm_edges = {(7, 1)}"
proof -
  obtain st where st: "rebuild list_petgraph (list_petgraph :: (unit list_graph, nat, unit) petgraph) (Inr cited_entries) (Inr [cites_row 8 9]) = Some (Inr st)"
    by (rule cited_rebuild)
  have d: "distinct (map eid cited_entries)" by (simp add: cited_entries_def)
  have u: "use_fallback (graph_state_new list_petgraph)" by (simp add: graph_state_new_def)
  have "\<exists>warm_edges cold_edges. handle_neighbors list_petgraph (list_fetch [cites_row 8 9]) merged_entries st (neighbor_request 2) 8 = Inr warm_edges \<and>
    handle_neighbors list_petgraph (list_fetch [cites_row 8 9]) merged_entries (graph_state_new list_petgraph) (neighbor_request 2) 8 = Inr cold_edges \<and>
    distinct (map far_end warm_edges) \<and> distinct (map (neighbor_current merged_entries (neighbor_request 2) \<circ> far_end) cold_edges) \<and>
    (\<lambda>e. (far_end e, er_depth e)) ` set warm_edges =
      (\<lambda>e. (neighbor_current merged_entries (neighbor_request 2) (far_end e), er_depth e)) ` set cold_edges"
    using neighbor_modes_agree [OF list_petgraph_ok list_petgraph_ok d st u list_fetch_ok cited_degree cited_admitted
        neighbor_request_simps(1-3), of merged_entries 8] by simp
  then show ?thesis using st unfolding cited_cold by (auto simp: neighbor_current_def far_end_def)
qed

text \<open>
  Where the two modes differ. Entry 9 is superseded by entry 7, and entry 8 cites entry 9.
  A request from entry 8 that resolves supersessions is shown the neighbour 7 by a warm
  snapshot, and the superseded entry 9 while the state is cold.
\<close>

theorem cold_neighbor_unresolved:
  "handle_neighbors list_petgraph (list_fetch [cites_row 8 9]) merged_entries (graph_state_new list_petgraph) (neighbor_request 2) 8 =
     Inr [\<lparr>er_source = 8, er_target = 9, er_relation = ''Cites'', er_direction = ''outgoing'', er_depth = 1, er_metadata = None\<rparr>] \<and>
   (\<exists>st edges. rebuild list_petgraph list_petgraph (Inr cited_entries) (Inr [cites_row 8 9]) = Some (Inr st) \<and>
     handle_neighbors list_petgraph fetch merged_entries st (neighbor_request 2) 8 = Inr edges \<and> map far_end edges = [7])"
proof
  obtain st where st: "rebuild list_petgraph (list_petgraph :: (unit list_graph, nat, unit) petgraph) (Inr cited_entries) (Inr [cites_row 8 9]) = Some (Inr st)"
    by (rule cited_rebuild)
  let ?t = all_non_supersedes_types and ?eff = "effective merged_entries True"
  let ?N = "neighbor_rel list_petgraph (typed_graph st) ?eff ?t NBoth"
  have d: "distinct (map eid cited_entries)" by (simp add: cited_entries_def)
  have s: "graph_wf list_petgraph (typed_graph st)" "\<not> use_fallback st"
    using rebuild_state [OF list_petgraph_ok list_petgraph_ok d st] by simp_all
  have "rt \<noteq> Supersedes" if "rt \<in> set ?t" for rt using that by (auto simp: all_non_supersedes_types_def)
  then have "?N = database_rel ?eff (map as_str ?t) NBoth [cites_row 8 9]"
    by (intro cold_warm_rel warm_type_rel [OF list_petgraph_ok list_petgraph_ok d st cited_admitted])
      (auto simp: all_non_supersedes_types_def)
  also have "\<dots> = {(u, ?eff v) | u v. (u, v) = (8, 9) \<or> (u, v) = (9, 8)}"
    unfolding database_rel_def by (auto simp: outgoing_condition_def incoming_condition_def all_non_supersedes_types_def simp del: cited_current)
  also have "\<dots> = {(8, ?eff 9), (9, ?eff 8)}" by blast
  also have "\<dots> = {(8, 7), (9, 8)}" by simp
  finally have N: "?N = {(8, 7), (9, 8)}" .
  have near: "near ?N {8} 2 - {8} = {7}" unfolding N by (auto simp: numeral_2_eq_2 near_Suc)
  obtain edges where e: "neighbors_bfs list_petgraph fetch merged_entries st 8 ?t NBoth 2 True = Inr edges" "level_records ?N (\<lambda>i. i) 8 2 edges"
    using neighbors_bfs_snapshot [OF list_petgraph_ok s pos2] by blast
  have "distinct (map far_end edges)" "set (map far_end edges) = {7}"
    using e(2) near by (simp_all add: level_records_def comp_def)
  then have "map far_end edges = [7]" by (cases "map far_end edges"; cases "tl (map far_end edges)") auto
  then show "\<exists>st edges. rebuild list_petgraph list_petgraph (Inr cited_entries) (Inr [cites_row 8 9]) = Some (Inr st) \<and>
     handle_neighbors list_petgraph fetch merged_entries st (neighbor_request 2) 8 = Inr edges \<and> map far_end edges = [7]"
    using st e(1) handle_neighbors_bfs [OF neighbor_request_simps(1) _ neighbor_request_simps(2,3), of list_petgraph fetch merged_entries st 8]
    by (intro exI [of _ st] exI [of _ edges]) simp
qed (rule cited_cold)

text \<open>The default request: one record, at the current version of the other end.\<close>

lemma default_request_sample:
  "handle_neighbors list_petgraph (list_fetch [cites_row 8 9]) merged_entries (graph_state_new list_petgraph)
     \<lparr>np_depth = None, np_direction = Some ''outgoing'', np_edge_types = Some [''Cites''], np_resolve = None\<rparr> 8 =
   Inr [\<lparr>er_source = 8, er_target = 7, er_relation = ''Cites'', er_direction = ''outgoing'', er_depth = 1, er_metadata = None\<rparr>]"
  using depth_one_exact [of "\<lparr>np_depth = None, np_direction = Some ''outgoing'', np_edge_types = Some [''Cites''], np_resolve = None\<rparr>" NOutgoing "[Cites]"
      list_petgraph "list_fetch [cites_row 8 9]" merged_entries "graph_state_new list_petgraph" 8]
  by (simp add: neighbor_depth_def neighbor_direction_of_def neighbor_types_def eq_ignore_ascii_case_def ascii_lower_char_def Let_def
      from_str_def query_direct_neighbors_def run_outgoing_query_def list_fetch_def outgoing_condition_def map_edge_row_def
      direct_record_def neighbor_current_def)

end
