(* ===== verification/Input_Validation.thy ===== *)
theory Input_Validation
  imports Entry_Schema Chain_Verify
begin

text \<open>
  Validation of tool parameters: \<open>unimatrix-server/src/infra/validation.rs\<close> and
  \<open>infra/outcome_tags.rs\<close>.

  The checks look at characters, so a string is the list of its Unicode scalar values here.
  \<open>str::to_lowercase\<close> rests on the Unicode tables: it is the argument \<open>lower\<close>, and what the
  code relies on is its documented behaviour, \<open>lower_ok\<close>: ASCII letters are converted, no
  upper-case ASCII letter is left, and no character is dropped. The parameter records hold
  the fields that validation reads.
\<close>

section \<open>Strings\<close>

type_synonym ustr = "nat list"

definition lit :: "string \<Rightarrow> ustr" where
  "lit s = map of_char s"

text \<open>Length in bytes of the UTF-8 encoding, the \<open>len\<close> of a string.\<close>

definition utf8_width :: "nat \<Rightarrow> nat" where
  "utf8_width c = (if c < 0x80 then 1 else if c < 0x800 then 2 else if c < 0x10000 then 3 else 4)"

definition byte_len :: "ustr \<Rightarrow> nat" where
  "byte_len s = sum_list (map utf8_width s)"

definition is_ascii :: "nat \<Rightarrow> bool" where
  "is_ascii c \<longleftrightarrow> c < 0x80"

definition is_ascii_control :: "nat \<Rightarrow> bool" where
  "is_ascii_control c \<longleftrightarrow> c < 0x20 \<or> c = 0x7F"

definition is_ascii_alphanumeric :: "nat \<Rightarrow> bool" where
  "is_ascii_alphanumeric c \<longleftrightarrow> 0x30 \<le> c \<and> c \<le> 0x39 \<or> 0x41 \<le> c \<and> c \<le> 0x5A \<or> 0x61 \<le> c \<and> c \<le> 0x7A"

text \<open>\<open>char::is_whitespace\<close>, the White_Space property.\<close>

definition is_whitespace :: "nat \<Rightarrow> bool" where
  "is_whitespace c \<longleftrightarrow> 9 \<le> c \<and> c \<le> 13 \<or> c = 0x20 \<or> c = 0x85 \<or> c = 0xA0 \<or> c = 0x1680 \<or>
     0x2000 \<le> c \<and> c \<le> 0x200A \<or> c = 0x2028 \<or> c = 0x2029 \<or> c = 0x202F \<or> c = 0x205F \<or> c = 0x3000"

definition trim :: "ustr \<Rightarrow> ustr" where
  "trim s = rev (dropWhile is_whitespace (rev (dropWhile is_whitespace s)))"

definition ascii_lower :: "nat \<Rightarrow> nat" where
  "ascii_lower c = (if 0x41 \<le> c \<and> c \<le> 0x5A then c + 32 else c)"

definition lower_ok :: "(ustr \<Rightarrow> ustr) \<Rightarrow> bool" where
  "lower_ok lower \<longleftrightarrow> (\<forall>s. list_all is_ascii s \<longrightarrow> lower s = map ascii_lower s) \<and>
     (\<forall>s. \<forall>c \<in> set (lower s). \<not> (0x41 \<le> c \<and> c \<le> 0x5A)) \<and>
     (\<forall>s. s \<noteq> [] \<longrightarrow> lower s \<noteq> [])"

lemma lower_ok_sample: "lower_ok (map ascii_lower)"
  by (auto simp: lower_ok_def ascii_lower_def)

section \<open>Errors and limits\<close>

datatype server_error = InvalidParam ustr ustr

definition MAX_AGENT_ID_LEN :: nat where "MAX_AGENT_ID_LEN = 100"
definition MAX_TITLE_LEN :: nat where "MAX_TITLE_LEN = 200"
definition MAX_CONTENT_LEN :: nat where "MAX_CONTENT_LEN = 50000"
definition MAX_TOPIC_LEN :: nat where "MAX_TOPIC_LEN = 100"
definition MAX_CATEGORY_LEN :: nat where "MAX_CATEGORY_LEN = 50"
definition MAX_TAG_LEN :: nat where "MAX_TAG_LEN = 50"
definition MAX_TAGS_COUNT :: nat where "MAX_TAGS_COUNT = 20"
definition MAX_QUERY_LEN :: nat where "MAX_QUERY_LEN = 1000"
definition MAX_SOURCE_LEN :: nat where "MAX_SOURCE_LEN = 200"
definition MAX_REASON_LEN :: nat where "MAX_REASON_LEN = 1000"
definition MAX_FEATURE_LEN :: nat where "MAX_FEATURE_LEN = 100"
definition MAX_FEATURE_CYCLE_LEN :: nat where "MAX_FEATURE_CYCLE_LEN = 128"
definition MAX_ROLE_LEN :: nat where "MAX_ROLE_LEN = 100"
definition MAX_TASK_LEN :: nat where "MAX_TASK_LEN = 1000"
definition DEFAULT_MAX_TOKENS :: nat where "DEFAULT_MAX_TOKENS = 3000"
definition MIN_MAX_TOKENS :: nat where "MIN_MAX_TOKENS = 500"
definition MAX_MAX_TOKENS :: nat where "MAX_MAX_TOKENS = 10000"
definition MAX_K :: nat where "MAX_K = 100"
definition MAX_LIMIT :: nat where "MAX_LIMIT = 100"
definition DEFAULT_K :: nat where "DEFAULT_K = 5"
definition DEFAULT_LIMIT :: nat where "DEFAULT_LIMIT = 10"

text \<open>The question mark operator on results without a value.\<close>

definition and_then :: "'e + unit \<Rightarrow> 'e + 'a \<Rightarrow> 'e + 'a" where
  "and_then r k = (case r of Inl e \<Rightarrow> Inl e | Inr _ \<Rightarrow> k)"

text \<open>\<open>if let Some(v) = field\<close> around a check.\<close>

definition if_some :: "'a option \<Rightarrow> ('a \<Rightarrow> 'e + unit) \<Rightarrow> 'e + unit" where
  "if_some x f = (case x of None \<Rightarrow> Inr () | Some v \<Rightarrow> f v)"

section \<open>Field checks\<close>

definition check_length :: "ustr \<Rightarrow> ustr \<Rightarrow> nat \<Rightarrow> server_error + unit" where
  "check_length field_name value_text max_len =
     (if length value_text > max_len
      then Inl (InvalidParam field_name (lit ''exceeds '' @ lit (show_nat max_len) @ lit '' characters''))
      else Inr ())"

text \<open>\<open>{code:04X}\<close> for the codes up to 0x1F it is used on.\<close>

definition hex_digit :: "nat \<Rightarrow> nat" where
  "hex_digit d = (if d < 10 then 0x30 + d else 0x37 + d)"

definition show_code :: "nat \<Rightarrow> ustr" where
  "show_code c = lit ''00'' @ [hex_digit (c div 16), hex_digit (c mod 16)]"

fun check_control_chars :: "ustr \<Rightarrow> ustr \<Rightarrow> bool \<Rightarrow> server_error + unit" where
  "check_control_chars field_name [] allow_newline_tab = Inr ()"
| "check_control_chars field_name (ch # chars) allow_newline_tab =
     (if ch \<le> 0x1F then
        if allow_newline_tab \<and> (ch = 10 \<or> ch = 9) then check_control_chars field_name chars allow_newline_tab
        else Inl (InvalidParam field_name (lit ''contains control character U+'' @ show_code ch))
      else check_control_chars field_name chars allow_newline_tab)"

definition validate_string_field :: "ustr \<Rightarrow> ustr \<Rightarrow> nat \<Rightarrow> bool \<Rightarrow> server_error + unit" where
  "validate_string_field field_name value_text max_len allow_newline_tab =
     and_then (check_length field_name value_text max_len)
       (and_then (check_control_chars field_name value_text allow_newline_tab) (Inr ()))"

definition validated_id :: "int \<Rightarrow> server_error + nat" where
  "validated_id i =
     (if i < 0 then Inl (InvalidParam (lit ''id'') (lit ''must be non-negative'')) else Inr (nat i))"

definition validated_k :: "int option \<Rightarrow> server_error + nat" where
  "validated_k k =
     (case k of
        None \<Rightarrow> Inr DEFAULT_K
      | Some v \<Rightarrow>
          if v \<le> 0 then Inl (InvalidParam (lit ''k'') (lit ''must be positive''))
          else if nat v > MAX_K then Inl (InvalidParam (lit ''k'') (lit ''exceeds maximum '' @ lit (show_nat MAX_K)))
          else Inr (nat v))"

definition validated_limit :: "int option \<Rightarrow> server_error + nat" where
  "validated_limit l =
     (case l of
        None \<Rightarrow> Inr DEFAULT_LIMIT
      | Some v \<Rightarrow>
          if v \<le> 0 then Inl (InvalidParam (lit ''limit'') (lit ''must be positive''))
          else if nat v > MAX_LIMIT then Inl (InvalidParam (lit ''limit'') (lit ''exceeds maximum '' @ lit (show_nat MAX_LIMIT)))
          else Inr (nat v))"

definition validated_max_tokens :: "int option \<Rightarrow> server_error + nat" where
  "validated_max_tokens max_tokens =
     (case max_tokens of
        None \<Rightarrow> Inr DEFAULT_MAX_TOKENS
      | Some v \<Rightarrow>
          if v < int MIN_MAX_TOKENS then Inl (InvalidParam (lit ''max_tokens'') (lit ''minimum is '' @ lit (show_nat MIN_MAX_TOKENS)))
          else if v > int MAX_MAX_TOKENS then Inl (InvalidParam (lit ''max_tokens'') (lit ''maximum is '' @ lit (show_nat MAX_MAX_TOKENS)))
          else Inr (nat v))"

definition parse_status :: "(ustr \<Rightarrow> ustr) \<Rightarrow> ustr \<Rightarrow> server_error + status" where
  "parse_status lower s =
     (let l = lower s
      in if l = lit ''active'' then Inr Active
         else if l = lit ''deprecated'' then Inr Deprecated
         else if l = lit ''proposed'' then Inr Proposed
         else if l = lit ''quarantined'' then Inr Quarantined
         else Inl (InvalidParam (lit ''status'') (lit ''must be active, deprecated, proposed, or quarantined'')))"

fun validate_tags :: "ustr list \<Rightarrow> server_error + unit" where
  "validate_tags [] = Inr ()"
| "validate_tags (tag # rest) = and_then (validate_string_field (lit ''tags'') tag MAX_TAG_LEN False) (validate_tags rest)"

definition validate_optional_tags :: "ustr list option \<Rightarrow> server_error + unit" where
  "validate_optional_tags tags_opt =
     if_some tags_opt (\<lambda>tags.
       if length tags > MAX_TAGS_COUNT
       then Inl (InvalidParam (lit ''tags'') (lit ''exceeds '' @ lit (show_nat MAX_TAGS_COUNT) @ lit '' tags''))
       else validate_tags tags)"

text \<open>A check whose value is dropped.\<close>

definition checked :: "'e + 'a \<Rightarrow> 'e + unit" where
  "checked r = (case r of Inl e \<Rightarrow> Inl e | Inr _ \<Rightarrow> Inr ())"

section \<open>Tool parameters\<close>

record search_params =
  sp_query :: ustr
  sp_topic :: "ustr option"
  sp_category :: "ustr option"
  sp_tags :: "ustr list option"

definition validate_search_params :: "search_params \<Rightarrow> server_error + unit" where
  "validate_search_params params =
     and_then (validate_string_field (lit ''query'') (sp_query params) MAX_QUERY_LEN False)
    (and_then (if_some (sp_topic params) (\<lambda>topic. validate_string_field (lit ''topic'') topic MAX_TOPIC_LEN False))
    (and_then (if_some (sp_category params) (\<lambda>category. validate_string_field (lit ''category'') category MAX_CATEGORY_LEN False))
              (validate_optional_tags (sp_tags params))))"

record lookup_params =
  lp_topic :: "ustr option"
  lp_category :: "ustr option"
  lp_tags :: "ustr list option"
  lp_id :: "int option"
  lp_status :: "ustr option"

definition validate_lookup_params :: "(ustr \<Rightarrow> ustr) \<Rightarrow> lookup_params \<Rightarrow> server_error + unit" where
  "validate_lookup_params lower params =
     and_then (if_some (lp_topic params) (\<lambda>topic. validate_string_field (lit ''topic'') topic MAX_TOPIC_LEN False))
    (and_then (if_some (lp_category params) (\<lambda>category. validate_string_field (lit ''category'') category MAX_CATEGORY_LEN False))
    (and_then (validate_optional_tags (lp_tags params))
    (and_then (if_some (lp_status params) (\<lambda>status. checked (parse_status lower status)))
              (if_some (lp_id params) (\<lambda>i. checked (validated_id i))))))"

record store_params =
  st_content :: ustr
  st_topic :: ustr
  st_category :: ustr
  st_tags :: "ustr list option"
  st_title :: "ustr option"
  st_source :: "ustr option"
  st_feature_cycle :: "ustr option"

definition check_content_bytes :: "ustr \<Rightarrow> nat \<Rightarrow> server_error + unit" where
  "check_content_bytes content_text max_content_bytes =
     (let len = byte_len content_text
      in if len > max_content_bytes
         then Inl (InvalidParam (lit ''content'')
           (lit ''Content exceeds configured maximum of '' @ lit (show_nat max_content_bytes) @ lit '' bytes (received '' @
            lit (show_nat len) @ lit '' bytes). Consider breaking this into multiple focused entries.''))
         else Inr ())"

definition validate_store_params :: "store_params \<Rightarrow> nat \<Rightarrow> server_error + unit" where
  "validate_store_params params max_content_bytes =
     and_then (check_content_bytes (st_content params) max_content_bytes)
    (and_then (if_some (st_title params) (\<lambda>title. validate_string_field (lit ''title'') title MAX_TITLE_LEN True))
    (and_then (validate_string_field (lit ''content'') (st_content params) MAX_CONTENT_LEN True)
    (and_then (validate_string_field (lit ''topic'') (st_topic params) MAX_TOPIC_LEN False)
    (and_then (validate_string_field (lit ''category'') (st_category params) MAX_CATEGORY_LEN False)
    (and_then (validate_optional_tags (st_tags params))
    (and_then (if_some (st_source params) (\<lambda>source. validate_string_field (lit ''source'') source MAX_SOURCE_LEN False))
              (if_some (st_feature_cycle params) (\<lambda>fc. validate_string_field (lit ''feature_cycle'') fc MAX_FEATURE_CYCLE_LEN False))))))))"

record correct_params =
  cp_original_id :: int
  cp_content :: ustr
  cp_reason :: "ustr option"
  cp_topic :: "ustr option"
  cp_category :: "ustr option"
  cp_tags :: "ustr list option"
  cp_title :: "ustr option"

definition validate_correct_params :: "correct_params \<Rightarrow> nat \<Rightarrow> server_error + unit" where
  "validate_correct_params params max_content_bytes =
     and_then (checked (validated_id (cp_original_id params)))
    (and_then (check_content_bytes (cp_content params) max_content_bytes)
    (and_then (validate_string_field (lit ''content'') (cp_content params) MAX_CONTENT_LEN True)
    (and_then (if_some (cp_reason params) (\<lambda>reason. validate_string_field (lit ''reason'') reason MAX_REASON_LEN True))
    (and_then (if_some (cp_topic params) (\<lambda>topic. validate_string_field (lit ''topic'') topic MAX_TOPIC_LEN False))
    (and_then (if_some (cp_category params) (\<lambda>category. validate_string_field (lit ''category'') category MAX_CATEGORY_LEN False))
    (and_then (validate_optional_tags (cp_tags params))
              (if_some (cp_title params) (\<lambda>title. validate_string_field (lit ''title'') title MAX_TITLE_LEN True))))))))"

definition validate_get_params :: "int \<Rightarrow> server_error + unit" where
  "validate_get_params i = checked (validated_id i)"

definition validate_deprecate_params :: "int \<Rightarrow> ustr option \<Rightarrow> server_error + unit" where
  "validate_deprecate_params i reason_opt =
     and_then (checked (validated_id i))
       (if_some reason_opt (\<lambda>reason. validate_string_field (lit ''reason'') reason MAX_REASON_LEN True))"

datatype quarantine_action = QuarantineEntry | RestoreEntry

definition parse_quarantine_action :: "(ustr \<Rightarrow> ustr) \<Rightarrow> ustr option \<Rightarrow> server_error + quarantine_action" where
  "parse_quarantine_action lower action =
     (case action of
        None \<Rightarrow> Inr QuarantineEntry
      | Some s \<Rightarrow>
          let l = lower s
          in if l = lit ''quarantine'' then Inr QuarantineEntry
             else if l = lit ''restore'' then Inr RestoreEntry
             else Inl (InvalidParam (lit ''action'')
               (lit ''must be '' @ [0x27] @ lit ''quarantine'' @ [0x27] @ lit '' or '' @ [0x27] @ lit ''restore'' @ [0x27])))"

definition validate_quarantine_params :: "(ustr \<Rightarrow> ustr) \<Rightarrow> int \<Rightarrow> ustr option \<Rightarrow> ustr option \<Rightarrow> server_error + unit" where
  "validate_quarantine_params lower i reason_opt action =
     and_then (checked (validated_id i))
    (and_then (if_some reason_opt (\<lambda>reason. validate_string_field (lit ''reason'') reason MAX_REASON_LEN True))
              (checked (parse_quarantine_action lower action)))"

definition validate_status_params :: "ustr option \<Rightarrow> ustr option \<Rightarrow> server_error + unit" where
  "validate_status_params topic_opt category_opt =
     and_then (if_some topic_opt (\<lambda>topic. validate_string_field (lit ''topic'') topic MAX_TOPIC_LEN False))
       (if_some category_opt (\<lambda>category. validate_string_field (lit ''category'') category MAX_CATEGORY_LEN False))"

definition validate_briefing_params :: "ustr option \<Rightarrow> ustr \<Rightarrow> ustr option \<Rightarrow> server_error + unit" where
  "validate_briefing_params role_opt task feature_opt =
     and_then (if_some role_opt (\<lambda>role. validate_string_field (lit ''role'') role MAX_ROLE_LEN False))
    (and_then (validate_string_field (lit ''task'') task MAX_TASK_LEN True)
              (if_some feature_opt (\<lambda>feature. validate_string_field (lit ''feature'') feature MAX_FEATURE_LEN False)))"

definition validate_feature :: "ustr option \<Rightarrow> server_error + unit" where
  "validate_feature feature_opt =
     if_some feature_opt (\<lambda>f. validate_string_field (lit ''feature'') f MAX_FEATURE_LEN False)"

definition validate_enroll_params :: "ustr \<Rightarrow> server_error + unit" where
  "validate_enroll_params target_agent_id =
     (if target_agent_id = [] then Inl (InvalidParam (lit ''target_agent_id'') (lit ''required''))
      else validate_string_field (lit ''target_agent_id'') target_agent_id MAX_AGENT_ID_LEN False)"

definition validate_retrospective_params :: "ustr \<Rightarrow> server_error + unit" where
  "validate_retrospective_params cycle =
     (if trim cycle = [] then Inl (InvalidParam (lit ''feature_cycle'') (lit ''must not be empty''))
      else validate_string_field (lit ''feature_cycle'') cycle MAX_FEATURE_CYCLE_LEN False)"

text \<open>Nothing to check: the value is an optional boolean already.\<close>

definition validate_helpful :: "bool option \<Rightarrow> server_error + unit" where
  "validate_helpful helpful = Inr ()"

section \<open>Cycle parameters\<close>

definition CYCLE_START_EVENT :: string where "CYCLE_START_EVENT = ''cycle_start''"
definition CYCLE_STOP_EVENT :: string where "CYCLE_STOP_EVENT = ''cycle_stop''"
definition CYCLE_PHASE_END_EVENT :: string where "CYCLE_PHASE_END_EVENT = ''cycle_phase_end''"

definition MAX_CYCLE_TOPIC_LEN :: nat where "MAX_CYCLE_TOPIC_LEN = 128"
definition MAX_PHASE_LEN :: nat where "MAX_PHASE_LEN = 64"
definition MAX_OUTCOME_LEN :: nat where "MAX_OUTCOME_LEN = 512"

datatype cycle_type = CycleStart | CyclePhaseEnd | CycleStop

record validated_cycle_params =
  vc_type :: cycle_type
  vc_topic :: ustr
  vc_phase :: "ustr option"
  vc_outcome :: "ustr option"
  vc_next_phase :: "ustr option"

definition is_valid_feature_id :: "ustr \<Rightarrow> bool" where
  "is_valid_feature_id s \<longleftrightarrow> s \<noteq> [] \<and> byte_len s \<le> MAX_CYCLE_TOPIC_LEN \<and> 0x2D \<in> set s \<and> hd s \<noteq> 0x2D \<and> last s \<noteq> 0x2D \<and>
     list_all (\<lambda>c. is_ascii_alphanumeric c \<or> c = 0x2D \<or> c = 0x5F \<or> c = 0x2E) s"

definition validate_phase_field :: "(ustr \<Rightarrow> ustr) \<Rightarrow> ustr \<Rightarrow> ustr option \<Rightarrow> ustr + ustr option" where
  "validate_phase_field lower field_name phase_opt =
     (case phase_opt of
        None \<Rightarrow> Inr None
      | Some s \<Rightarrow>
          let trimmed = trim s
          in if trimmed = [] then Inl (field_name @ lit '' must not be empty when provided'')
             else let normalized = lower trimmed
               in if length normalized > MAX_PHASE_LEN then Inl (field_name @ lit '' exceeds 64 characters'')
                  else if 0x20 \<in> set normalized then Inl (field_name @ lit '' must not contain spaces'')
                  else if \<not> list_all (\<lambda>c. is_ascii_alphanumeric c \<or> c = 0x2D \<or> c = 0x5F) normalized
                  then Inl (field_name @ lit '' must contain only ASCII letters, digits, hyphens, and underscores'')
                  else Inr (Some normalized))"

definition parse_cycle_type :: "ustr \<Rightarrow> ustr + cycle_type" where
  "parse_cycle_type type_str =
     (if type_str = lit ''start'' then Inr CycleStart
      else if type_str = lit ''phase-end'' then Inr CyclePhaseEnd
      else if type_str = lit ''stop'' then Inr CycleStop
      else Inl (lit ''invalid type '' @ [0x27] @ type_str @ [0x27] @ lit '': must be '' @ [0x27] @ lit ''start'' @ [0x27] @
        lit '', '' @ [0x27] @ lit ''phase-end'' @ [0x27] @ lit '', or '' @ [0x27] @ lit ''stop'' @ [0x27]))"

definition sanitize_topic :: "ustr \<Rightarrow> ustr" where
  "sanitize_topic cycle_topic = take MAX_CYCLE_TOPIC_LEN (filter (\<lambda>c. is_ascii c \<and> \<not> is_ascii_control c) cycle_topic)"

definition validate_outcome :: "ustr option \<Rightarrow> ustr + ustr option" where
  "validate_outcome outcome_opt =
     (case outcome_opt of
        None \<Rightarrow> Inr None
      | Some s \<Rightarrow>
          if length s > MAX_OUTCOME_LEN then Inl (lit ''outcome exceeds 512 characters'')
          else if list_ex (\<lambda>c. c \<le> 0x1F) s then Inl (lit ''outcome contains control characters'')
          else Inr (Some s))"

definition validate_cycle_params :: "(ustr \<Rightarrow> ustr) \<Rightarrow> ustr \<Rightarrow> ustr \<Rightarrow> ustr option \<Rightarrow> ustr option \<Rightarrow> ustr option \<Rightarrow>
    ustr + validated_cycle_params" where
  "validate_cycle_params lower type_str cycle_topic phase_opt outcome_opt next_phase_opt =
     (case parse_cycle_type type_str of
        Inl e \<Rightarrow> Inl e
      | Inr ct \<Rightarrow>
          if cycle_topic = [] then Inl (lit ''topic must not be empty'')
          else let clean_topic = sanitize_topic cycle_topic
            in if clean_topic = [] then Inl (lit ''topic contains only invalid characters'')
               else if \<not> is_valid_feature_id clean_topic then Inl (lit ''topic is not a valid feature cycle identifier'')
               else (case validate_phase_field lower (lit ''phase'') phase_opt of
                   Inl e \<Rightarrow> Inl e
                 | Inr validated_phase \<Rightarrow>
                     (case validate_phase_field lower (lit ''next_phase'') next_phase_opt of
                        Inl e \<Rightarrow> Inl e
                      | Inr validated_next_phase \<Rightarrow>
                          (case validate_outcome outcome_opt of
                             Inl e \<Rightarrow> Inl e
                           | Inr validated_outcome \<Rightarrow>
                               Inr \<lparr>vc_type = ct, vc_topic = clean_topic, vc_phase = validated_phase,
                                    vc_outcome = validated_outcome, vc_next_phase = validated_next_phase\<rparr>))))"

section \<open>Enrollment\<close>

datatype trust_level = TrustSystem | TrustPrivileged | TrustInternal | TrustRestricted

datatype capability = CapRead | CapWrite | CapSearch | CapAdmin | CapSessionWrite

definition parse_trust_level :: "(ustr \<Rightarrow> ustr) \<Rightarrow> ustr \<Rightarrow> server_error + trust_level" where
  "parse_trust_level lower s =
     (let l = lower s
      in if l = lit ''system'' then Inr TrustSystem
         else if l = lit ''privileged'' then Inr TrustPrivileged
         else if l = lit ''internal'' then Inr TrustInternal
         else if l = lit ''restricted'' then Inr TrustRestricted
         else Inl (InvalidParam (lit ''trust_level'') (lit ''must be one of: system, privileged, internal, restricted'')))"

definition capability_named :: "ustr \<Rightarrow> capability option" where
  "capability_named l =
     (if l = lit ''read'' then Some CapRead
      else if l = lit ''write'' then Some CapWrite
      else if l = lit ''search'' then Some CapSearch
      else if l = lit ''admin'' then Some CapAdmin
      else None)"

fun capability_loop :: "(ustr \<Rightarrow> ustr) \<Rightarrow> ustr list \<Rightarrow> ustr set \<Rightarrow> capability list \<Rightarrow> server_error + capability list" where
  "capability_loop lower [] seen result = Inr result"
| "capability_loop lower (cap_str # caps) seen result =
     (let l = lower cap_str
      in if l \<in> seen then Inl (InvalidParam (lit ''capabilities'') (lit ''duplicate capability: '' @ cap_str))
         else case capability_named l of
             None \<Rightarrow> Inl (InvalidParam (lit ''capabilities'')
               (lit ''unknown capability '' @ [0x27] @ cap_str @ [0x27] @ lit ''. Valid: read, write, search, admin''))
           | Some cap \<Rightarrow> capability_loop lower caps (insert l seen) (result @ [cap]))"

definition parse_capabilities :: "(ustr \<Rightarrow> ustr) \<Rightarrow> ustr list \<Rightarrow> server_error + capability list" where
  "parse_capabilities lower caps =
     (if caps = [] then Inl (InvalidParam (lit ''capabilities'') (lit ''at least one capability required''))
      else capability_loop lower caps {} [])"

section \<open>Outcome tags\<close>

definition RECOGNIZED_KEYS :: "ustr list" where
  "RECOGNIZED_KEYS = [lit ''type'', lit ''gate'', lit ''phase'', lit ''result'', lit ''agent'', lit ''wave'']"

definition VALID_TYPES :: "ustr list" where
  "VALID_TYPES = [lit ''feature'', lit ''bugfix'', lit ''incident'', lit ''process'', lit ''session'']"

definition VALID_RESULTS :: "ustr list" where
  "VALID_RESULTS = [lit ''pass'', lit ''fail'', lit ''rework'', lit ''skip'']"

definition VALID_PHASES :: "ustr list" where
  "VALID_PHASES = [lit ''research'', lit ''design'', lit ''implementation'', lit ''testing'', lit ''validation'']"

fun comma_join :: "ustr list \<Rightarrow> ustr" where
  "comma_join [] = []"
| "comma_join [s] = s"
| "comma_join (s # ss) = s @ lit '', '' @ comma_join ss"

text \<open>\<open>split_once(':')\<close>: at the first colon.\<close>

definition parse_structured_tag :: "ustr \<Rightarrow> (ustr \<times> ustr) option" where
  "parse_structured_tag tag =
     (if 0x3A \<in> set tag then Some (takeWhile (\<lambda>c. c \<noteq> 0x3A) tag, tl (dropWhile (\<lambda>c. c \<noteq> 0x3A) tag)) else None)"

text \<open>\<open>parse::<u32>\<close>: an optional plus sign and at least one digit, within the type.\<close>

definition is_digit :: "nat \<Rightarrow> bool" where
  "is_digit c \<longleftrightarrow> 0x30 \<le> c \<and> c \<le> 0x39"

definition decimal :: "ustr \<Rightarrow> nat" where
  "decimal s = fold (\<lambda>c n. 10 * n + (c - 0x30)) s 0"

definition parses_u32 :: "ustr \<Rightarrow> bool" where
  "parses_u32 s \<longleftrightarrow>
     (let digits = (case s of c # cs \<Rightarrow> if c = 0x2B then cs else s | [] \<Rightarrow> [])
      in digits \<noteq> [] \<and> list_all is_digit digits \<and> decimal digits \<le> u32_max)"

definition quoted :: "ustr \<Rightarrow> ustr" where
  "quoted s = [0x27] @ s @ [0x27]"

definition tag_error :: "ustr \<Rightarrow> server_error + unit" where
  "tag_error reason = Inl (InvalidParam (lit ''tags'') reason)"

definition validate_tag_key_value :: "ustr \<Rightarrow> ustr \<Rightarrow> server_error + unit" where
  "validate_tag_key_value k v =
     (if k = lit ''type'' \<and> v \<notin> set VALID_TYPES
      then tag_error (lit ''invalid type value '' @ quoted v @ lit ''. Valid: '' @ comma_join VALID_TYPES)
      else if k = lit ''result'' \<and> v \<notin> set VALID_RESULTS
      then tag_error (lit ''invalid result value '' @ quoted v @ lit ''. Valid: '' @ comma_join VALID_RESULTS)
      else if k = lit ''phase'' \<and> v \<notin> set VALID_PHASES
      then tag_error (lit ''invalid phase value '' @ quoted v @ lit ''. Valid: '' @ comma_join VALID_PHASES)
      else if k = lit ''gate'' \<and> v = [] then tag_error (lit ''gate tag value cannot be empty'')
      else if k = lit ''agent'' \<and> v = [] then tag_error (lit ''agent tag value cannot be empty'')
      else if k = lit ''wave'' \<and> \<not> parses_u32 v
      then tag_error (lit ''wave value '' @ quoted v @ lit '' must be a non-negative integer'')
      else Inr ())"

fun outcome_tag_loop :: "ustr list \<Rightarrow> bool \<Rightarrow> ustr list \<Rightarrow> server_error + bool" where
  "outcome_tag_loop [] has_type seen_keys = Inr has_type"
| "outcome_tag_loop (tag # rest) has_type seen_keys =
     (case parse_structured_tag tag of
        None \<Rightarrow> outcome_tag_loop rest has_type seen_keys
      | Some (k, v) \<Rightarrow>
          if k \<notin> set RECOGNIZED_KEYS then
            Inl (InvalidParam (lit ''tags'') (lit ''unknown structured tag key '' @ quoted k @ lit ''. Recognized keys: '' @
              comma_join RECOGNIZED_KEYS))
          else if k \<in> set seen_keys then
            Inl (InvalidParam (lit ''tags'') (lit ''duplicate structured tag key '' @ quoted k))
          else and_then (validate_tag_key_value k v)
            (outcome_tag_loop rest (has_type \<or> k = lit ''type'') (seen_keys @ [k])))"

definition validate_outcome_tags :: "ustr list \<Rightarrow> server_error + unit" where
  "validate_outcome_tags outcome_tags =
     (case outcome_tag_loop outcome_tags False [] of
        Inl e \<Rightarrow> Inl e
      | Inr has_type \<Rightarrow>
          if \<not> has_type then
            Inl (InvalidParam (lit ''tags'') (lit ''type tag is required for outcome entries (e.g., type:feature, type:bugfix, type:incident, type:process, type:session)''))
          else Inr ())"

end
