(* ===== verification/Input_Props.thy ===== *)
theory Input_Props
  imports Input_Validation
begin

text \<open>
  What validation accepts: exact conditions for the tool parameters, the normal form of cycle
  parameters, capability lists and outcome tags.
\<close>

section \<open>Results\<close>

lemma and_then_Inr [simp]: "and_then r k = Inr x \<longleftrightarrow> r = Inr () \<and> k = Inr x"
  by (cases r) (simp_all add: and_then_def)

lemma and_then_Inl: "and_then r k = Inl e \<longleftrightarrow> r = Inl e \<or> r = Inr () \<and> k = Inl e"
  by (cases r) (simp_all add: and_then_def)

lemma if_some_Inr [simp]: "if_some x f = Inr () \<longleftrightarrow> pred_option (\<lambda>v. f v = Inr ()) x"
  by (cases x) (simp_all add: if_some_def)

lemma if_some_Inl: "if_some x f = Inl e \<longleftrightarrow> (\<exists>v. x = Some v \<and> f v = Inl e)"
  by (simp add: if_some_def split: option.split)

lemma checked_Inr [simp]: "checked r = Inr () \<longleftrightarrow> \<not> isl r"
  by (cases r) (simp_all add: checked_def)

lemma lit_inj [simp]: "lit s = lit t \<longleftrightarrow> s = t"
  unfolding lit_def by (rule inj_map_eq_map) (auto intro: injI)

lemma lit_Nil [simp]: "lit s = [] \<longleftrightarrow> s = []"
  by (simp add: lit_def)

section \<open>Fields\<close>

definition fits :: "nat \<Rightarrow> bool \<Rightarrow> ustr \<Rightarrow> bool" where
  "fits m allow s \<longleftrightarrow> length s \<le> m \<and> (\<forall>c \<in> set s. 0x1F < c \<or> allow \<and> (c = 10 \<or> c = 9))"

lemma check_control_chars_Inr:
  "check_control_chars f s allow = Inr () \<longleftrightarrow> (\<forall>c \<in> set s. 0x1F < c \<or> allow \<and> (c = 10 \<or> c = 9))"
  by (induction f s allow rule: check_control_chars.induct) (auto simp: not_le)

lemma validate_string_field_Inr [simp]: "validate_string_field f s m allow = Inr () \<longleftrightarrow> fits m allow s"
  by (simp add: validate_string_field_def check_length_def check_control_chars_Inr fits_def)

definition tags_fit :: "ustr list \<Rightarrow> bool" where
  "tags_fit ts \<longleftrightarrow> length ts \<le> MAX_TAGS_COUNT \<and> (\<forall>t \<in> set ts. fits MAX_TAG_LEN False t)"

lemma validate_tags_Inr: "validate_tags ts = Inr () \<longleftrightarrow> (\<forall>t \<in> set ts. fits MAX_TAG_LEN False t)"
  by (induction ts) simp_all

lemma validate_optional_tags_Inr [simp]: "validate_optional_tags ts = Inr () \<longleftrightarrow> pred_option tags_fit ts"
  by (cases ts) (auto simp: validate_optional_tags_def tags_fit_def validate_tags_Inr not_le)

text \<open>
  Every field of a store request is within its limits exactly if the request is accepted.
\<close>

lemma validate_store_params_iff:
  "validate_store_params p max_bytes = Inr () \<longleftrightarrow>
     byte_len (st_content p) \<le> max_bytes \<and> fits MAX_CONTENT_LEN True (st_content p) \<and>
     pred_option (fits MAX_TITLE_LEN True) (st_title p) \<and> fits MAX_TOPIC_LEN False (st_topic p) \<and>
     fits MAX_CATEGORY_LEN False (st_category p) \<and> pred_option tags_fit (st_tags p) \<and>
     pred_option (fits MAX_SOURCE_LEN False) (st_source p) \<and>
     pred_option (fits MAX_FEATURE_CYCLE_LEN False) (st_feature_cycle p)"
  by (auto simp: validate_store_params_def check_content_bytes_def Let_def not_less)

lemma validate_correct_params_iff:
  "validate_correct_params p max_bytes = Inr () \<longleftrightarrow>
     0 \<le> cp_original_id p \<and> byte_len (cp_content p) \<le> max_bytes \<and> fits MAX_CONTENT_LEN True (cp_content p) \<and>
     pred_option (fits MAX_REASON_LEN True) (cp_reason p) \<and> pred_option (fits MAX_TOPIC_LEN False) (cp_topic p) \<and>
     pred_option (fits MAX_CATEGORY_LEN False) (cp_category p) \<and> pred_option tags_fit (cp_tags p) \<and>
     pred_option (fits MAX_TITLE_LEN True) (cp_title p)"
  by (auto simp: validate_correct_params_def check_content_bytes_def validated_id_def Let_def not_less)

section \<open>Cycle parameters\<close>

definition phase_char :: "nat \<Rightarrow> bool" where
  "phase_char c \<longleftrightarrow> 0x30 \<le> c \<and> c \<le> 0x39 \<or> 0x61 \<le> c \<and> c \<le> 0x7A \<or> c = 0x2D \<or> c = 0x5F"

definition normal_phase :: "ustr \<Rightarrow> bool" where
  "normal_phase p \<longleftrightarrow> p \<noteq> [] \<and> length p \<le> MAX_PHASE_LEN \<and> list_all phase_char p"

lemma trim_id: "\<forall>c \<in> set s. \<not> is_whitespace c \<Longrightarrow> trim s = s"
proof -
  assume a: "\<forall>c \<in> set s. \<not> is_whitespace c"
  then have "dropWhile is_whitespace s = s" "dropWhile is_whitespace (rev s) = rev s"
    using hd_in_set [of s] hd_in_set [of "rev s"] by (auto simp: dropWhile_eq_self_iff)
  then show ?thesis by (simp add: trim_def)
qed

lemma phase_char_facts:
  assumes "phase_char c"
  shows "\<not> is_whitespace c" "is_ascii c" "ascii_lower c = c" "is_ascii_alphanumeric c \<or> c = 0x2D \<or> c = 0x5F" "c \<noteq> 0x20"
  using assms by (auto simp: phase_char_def is_whitespace_def is_ascii_def ascii_lower_def is_ascii_alphanumeric_def)

lemma normal_phase_lower: "lower_ok lower \<Longrightarrow> normal_phase p \<Longrightarrow> lower p = p"
  using phase_char_facts by (auto simp: lower_ok_def normal_phase_def list_all_iff map_idI)

text \<open>
  An accepted phase is in normal form, and a phase in normal form is accepted as it is.
\<close>

lemma phase_accepted:
  assumes "lower_ok lower" and "validate_phase_field lower f (Some s) = Inr r"
  shows "\<exists>p. r = Some p \<and> p = lower (trim s) \<and> normal_phase p"
proof -
  have "\<not> (0x41 \<le> c \<and> c \<le> 0x5A)" if "c \<in> set (lower (trim s))" for c using assms(1) that by (simp add: lower_ok_def)
  moreover have "trim s \<noteq> [] \<Longrightarrow> lower (trim s) \<noteq> []" using assms(1) by (simp add: lower_ok_def)
  ultimately show ?thesis using assms(2)
    by (auto simp: validate_phase_field_def normal_phase_def list_all_iff phase_char_def is_ascii_alphanumeric_def Let_def
        split: if_splits)
qed

lemma normal_phase_accepted:
  assumes "lower_ok lower" and "normal_phase p"
  shows "validate_phase_field lower f (Some p) = Inr (Some p)"
proof -
  have c: "phase_char c" if "c \<in> set p" for c using assms(2) that by (simp add: normal_phase_def list_all_iff)
  have "trim p = p" by (rule trim_id) (use c phase_char_facts(1) in blast)
  moreover have "0x20 \<notin> set p" using c phase_char_facts(5) by blast
  moreover have "list_all (\<lambda>c. is_ascii_alphanumeric c \<or> c = 0x2D \<or> c = 0x5F) p"
    using c phase_char_facts(4) by (simp add: list_all_iff)
  ultimately show ?thesis using normal_phase_lower [OF assms] assms(2)
    by (simp add: validate_phase_field_def normal_phase_def not_less Let_def)
qed

lemma phase_field_accepted:
  assumes "lower_ok lower" and "validate_phase_field lower f phase_opt = Inr r"
  shows "pred_option normal_phase r \<and> (r = None \<longleftrightarrow> phase_opt = None) \<and> validate_phase_field lower f' r = Inr r"
proof (cases phase_opt)
  case None
  then show ?thesis using assms(2) by (simp add: validate_phase_field_def)
next
  case (Some s)
  then obtain p where "r = Some p" "normal_phase p" using phase_accepted [OF assms(1)] assms(2) by blast
  then show ?thesis using normal_phase_accepted [OF assms(1)] Some by simp
qed

lemma feature_id_sanitized:
  assumes "is_valid_feature_id s"
  shows "sanitize_topic s = s"
proof -
  have c: "c \<noteq> 0x2D \<longrightarrow> c \<noteq> 0x5F \<longrightarrow> c \<noteq> 0x2E \<longrightarrow> is_ascii_alphanumeric c" if "c \<in> set s" for c
    using assms that by (auto simp: is_valid_feature_id_def list_all_iff)
  then have a: "is_ascii c \<and> \<not> is_ascii_control c" if "c \<in> set s" for c
    using c [OF that] by (auto simp: is_ascii_def is_ascii_control_def is_ascii_alphanumeric_def)
  have "length s = byte_len s" unfolding byte_len_def
    using a by (induction s) (auto simp: utf8_width_def is_ascii_def)
  then have "length s \<le> MAX_CYCLE_TOPIC_LEN" using assms by (simp add: is_valid_feature_id_def)
  moreover have "filter (\<lambda>c. is_ascii c \<and> \<not> is_ascii_control c) s = s" using a by (simp add: filter_id_conv)
  ultimately show ?thesis by (simp add: sanitize_topic_def)
qed

text \<open>
  C19. Accepted cycle parameters are in normal form, for every lower-casing that behaves as
  documented: the topic is a valid feature id and the request's topic without its control and
  non-ASCII characters, cut to 128; a phase is present exactly if one was given and consists of
  1 to 64 lower-case letters, digits, hyphens and underscores; an outcome is passed on
  unchanged, has at most 512 characters and no control characters. Validating the result again
  returns it unchanged.
\<close>

theorem cycle_params_normal_form:
  assumes "lower_ok lower" and "validate_cycle_params lower type_str tp ph out nx = Inr v"
  shows "vc_topic v = sanitize_topic tp \<and> is_valid_feature_id (vc_topic v) \<and>
    pred_option normal_phase (vc_phase v) \<and> (vc_phase v = None \<longleftrightarrow> ph = None) \<and>
    pred_option normal_phase (vc_next_phase v) \<and> (vc_next_phase v = None \<longleftrightarrow> nx = None) \<and>
    vc_outcome v = out \<and> pred_option (\<lambda>s. length s \<le> 512 \<and> list_all (\<lambda>c. 0x1F < c) s) (vc_outcome v) \<and>
    validate_cycle_params lower type_str (vc_topic v) (vc_phase v) (vc_outcome v) (vc_next_phase v) = Inr v"
proof -
  obtain ct p q o' where ty: "parse_cycle_type type_str = Inr ct" and tp: "is_valid_feature_id (sanitize_topic tp)"
    and p: "validate_phase_field lower (lit ''phase'') ph = Inr p" and q: "validate_phase_field lower (lit ''next_phase'') nx = Inr q"
    and o: "validate_outcome out = Inr o'"
    and v: "v = \<lparr>vc_type = ct, vc_topic = sanitize_topic tp, vc_phase = p, vc_outcome = o', vc_next_phase = q\<rparr>"
    using assms(2) unfolding validate_cycle_params_def Let_def by (auto split: sum.splits if_splits)
  have o': "o' = out" "pred_option (\<lambda>s. length s \<le> 512 \<and> list_all (\<lambda>c. 0x1F < c) s) out"
    using o by (auto simp: validate_outcome_def MAX_OUTCOME_LEN_def list_all_iff list_ex_iff not_le split: option.splits if_splits)
  have "sanitize_topic tp \<noteq> []" using tp by (simp add: is_valid_feature_id_def)
  then have "validate_cycle_params lower type_str (sanitize_topic tp) p out q = Inr v"
    using phase_field_accepted [OF assms(1) p, of "lit ''phase''"] phase_field_accepted [OF assms(1) q, of "lit ''next_phase''"]
      ty tp o feature_id_sanitized [OF tp] unfolding v o'(1) by (simp add: validate_cycle_params_def)
  then show ?thesis using phase_field_accepted [OF assms(1) p] phase_field_accepted [OF assms(1) q] tp o'
    by (simp add: v)
qed

text \<open>The topic \<open>c-1\<close> with the phase \<open>D1\<close> after a space.\<close>

theorem cycle_params_normal_form_witness:
  "\<exists>v. validate_cycle_params (map ascii_lower) (lit ''start'') [0x63, 0x2D, 0x31] (Some [0x20, 0x44, 0x31]) None None = Inr v \<and>
     pred_option normal_phase (vc_phase v)"
proof -
  let ?r = "validate_cycle_params (map ascii_lower) (lit ''start'') [0x63, 0x2D, 0x31] (Some [0x20, 0x44, 0x31]) None None"
  have t: "sanitize_topic [0x63, 0x2D, 0x31] = [0x63, 0x2D, 0x31]" "is_valid_feature_id [0x63, 0x2D, 0x31]"
    by (simp_all add: sanitize_topic_def is_valid_feature_id_def is_ascii_def is_ascii_control_def is_ascii_alphanumeric_def
        MAX_CYCLE_TOPIC_LEN_def byte_len_def utf8_width_def)
  have p: "validate_phase_field (map ascii_lower) f (Some [0x20, 0x44, 0x31]) = Inr (Some [0x64, 0x31])" for f
    by (simp add: validate_phase_field_def trim_def is_whitespace_def ascii_lower_def MAX_PHASE_LEN_def is_ascii_alphanumeric_def Let_def)
  have "\<not> isl ?r"
    by (simp add: validate_cycle_params_def parse_cycle_type_def t p validate_phase_field_def [of _ _ None] validate_outcome_def Let_def)
  then obtain v where v: "?r = Inr v" by (cases ?r) auto
  then show ?thesis using cycle_params_normal_form [OF lower_ok_sample v] by blast
qed

section \<open>Capabilities\<close>

lemma capability_named_inj: "capability_named l = Some c \<Longrightarrow> capability_named l' = Some c \<Longrightarrow> l = l'"
  by (auto simp: capability_named_def split: if_splits)

lemma capability_loop_Inr:
  "capability_loop lower caps seen acc = Inr r \<longleftrightarrow>
     (\<exists>cs. r = acc @ cs \<and> map (\<lambda>s. capability_named (lower s)) caps = map Some cs \<and>
        distinct (map lower caps) \<and> set (map lower caps) \<inter> seen = {})"
proof (induction caps arbitrary: seen acc)
  case (Cons s caps)
  show ?case
  proof (cases "lower s \<in> seen \<or> capability_named (lower s) = None")
    case True
    then show ?thesis by (auto simp: Let_def map_eq_Cons_conv split: option.splits)
  next
    case False
    then obtain c where c: "lower s \<notin> seen" "capability_named (lower s) = Some c" by auto
    then have "capability_loop lower (s # caps) seen acc = Inr r \<longleftrightarrow>
        (\<exists>cs. r = (acc @ [c]) @ cs \<and> map (\<lambda>s. capability_named (lower s)) caps = map Some cs \<and>
          distinct (map lower caps) \<and> set (map lower caps) \<inter> insert (lower s) seen = {})"
      using Cons.IH [of "insert (lower s) seen" "acc @ [c]"] by (simp add: Let_def)
    also have "\<dots> \<longleftrightarrow> (\<exists>cs. r = acc @ cs \<and> map (\<lambda>s. capability_named (lower s)) (s # caps) = map Some cs \<and>
        distinct (map lower (s # caps)) \<and> set (map lower (s # caps)) \<inter> seen = {})"
      using c by (auto simp: Cons_eq_map_conv)
    finally show ?thesis .
  qed
qed auto

lemma named_distinct:
  assumes "map (\<lambda>s. capability_named (lower s)) caps = map Some cs"
  shows "distinct (map lower caps) \<longleftrightarrow> distinct cs"
proof -
  have eq: "map capability_named (map lower caps) = map Some cs" using assms by (simp add: comp_def)
  have "\<exists>c. capability_named l = Some c" if "l \<in> set (map lower caps)" for l
  proof -
    have "capability_named l \<in> capability_named ` set (map lower caps)" using that by (rule imageI)
    then have "capability_named l \<in> set (map Some cs)" unfolding eq [symmetric] set_map .
    then show ?thesis by auto
  qed
  then have "inj_on capability_named (set (map lower caps))" using capability_named_inj unfolding inj_on_def by metis
  then have "distinct (map capability_named (map lower caps)) \<longleftrightarrow> distinct (map lower caps)"
    unfolding distinct_map [of capability_named] by blast
  then show ?thesis unfolding eq by (simp add: distinct_map)
qed

text \<open>
  A list of capability names is accepted with the capabilities \<open>cs\<close> if and only if it is
  not empty, its names, lower-cased, are the names of \<open>cs\<close> in order, and no capability is
  named twice. The session-scoped capability has no name, so enrollment never grants it.
\<close>

theorem parse_capabilities_exact:
  "(parse_capabilities lower caps = Inr cs \<longleftrightarrow>
      caps \<noteq> [] \<and> map (\<lambda>s. capability_named (lower s)) caps = map Some cs \<and> distinct cs) \<and>
   capability_named l \<noteq> Some CapSessionWrite"
proof -
  have "parse_capabilities lower caps = Inr cs \<longleftrightarrow>
      caps \<noteq> [] \<and> map (\<lambda>s. capability_named (lower s)) caps = map Some cs \<and> distinct (map lower caps)"
    by (simp add: parse_capabilities_def capability_loop_Inr)
  then show ?thesis using named_distinct [of lower caps cs] by (auto simp: capability_named_def)
qed

section \<open>Outcome tags\<close>

text \<open>The key and value of the structured tags of a list.\<close>

definition structured_tags :: "ustr list \<Rightarrow> (ustr \<times> ustr) list" where
  "structured_tags ts = List.map_filter parse_structured_tag ts"

lemma parse_structured_tag_iff: "parse_structured_tag t = Some (k, v) \<longleftrightarrow> t = k @ [0x3A] @ v \<and> 0x3A \<notin> set k"
proof
  assume a: "parse_structured_tag t = Some (k, v)"
  then have c: "0x3A \<in> set t" "k = takeWhile (\<lambda>c. c \<noteq> 0x3A) t" "v = tl (dropWhile (\<lambda>c. c \<noteq> 0x3A) t)"
    by (auto simp: parse_structured_tag_def split: if_splits)
  have "dropWhile (\<lambda>c. c \<noteq> 0x3A) t \<noteq> []" using c(1) by (auto simp: dropWhile_eq_Nil_conv)
  moreover from this have "hd (dropWhile (\<lambda>c. c \<noteq> 0x3A) t) = 0x3A" by (metis (mono_tags, lifting) hd_dropWhile)
  ultimately have "dropWhile (\<lambda>c. c \<noteq> 0x3A) t = [0x3A] @ v" unfolding c(3) by (metis append_Cons append_Nil list.collapse)
  then show "t = k @ [0x3A] @ v \<and> 0x3A \<notin> set k"
    unfolding c(2) by (metis (mono_tags, lifting) set_takeWhileD takeWhile_dropWhile_id)
next
  assume a: "t = k @ [0x3A] @ v \<and> 0x3A \<notin> set k"
  then have "\<forall>c \<in> set k. c \<noteq> 0x3A" by metis
  then have "takeWhile (\<lambda>c. c \<noteq> 0x3A) t = k" "dropWhile (\<lambda>c. c \<noteq> 0x3A) t = 0x3A # v"
    using a by (simp_all add: takeWhile_append2 dropWhile_append2)
  then show "parse_structured_tag t = Some (k, v)" using a by (simp add: parse_structured_tag_def)
qed

text \<open>The documented values of each key.\<close>

definition tag_allowed :: "ustr \<times> ustr \<Rightarrow> bool" where
  "tag_allowed kv \<longleftrightarrow> (case kv of (k, v) \<Rightarrow>
     k = lit ''type'' \<and> v \<in> lit ` {''feature'', ''bugfix'', ''incident'', ''process'', ''session''} \<or>
     k = lit ''result'' \<and> v \<in> lit ` {''pass'', ''fail'', ''rework'', ''skip''} \<or>
     k = lit ''phase'' \<and> v \<in> lit ` {''research'', ''design'', ''implementation'', ''testing'', ''validation''} \<or>
     k = lit ''gate'' \<and> v \<noteq> [] \<or> k = lit ''agent'' \<and> v \<noteq> [] \<or> k = lit ''wave'' \<and> parses_u32 v)"

lemma validate_tag_key_value_Inr:
  "k \<in> set RECOGNIZED_KEYS \<and> validate_tag_key_value k v = Inr () \<longleftrightarrow> tag_allowed (k, v)"
proof -
  consider "k = lit ''type''" | "k = lit ''result''" | "k = lit ''phase''" | "k = lit ''gate''" | "k = lit ''agent''" |
    "k = lit ''wave''" | "k \<notin> set RECOGNIZED_KEYS"
    by (auto simp: RECOGNIZED_KEYS_def)
  then show ?thesis
    by cases (simp_all add: validate_tag_key_value_def tag_error_def tag_allowed_def RECOGNIZED_KEYS_def VALID_TYPES_def
      VALID_RESULTS_def VALID_PHASES_def)
qed

lemma outcome_tag_loop_Inr:
  "outcome_tag_loop ts h seen = Inr b \<longleftrightarrow>
     list_all tag_allowed (structured_tags ts) \<and> distinct (map fst (structured_tags ts)) \<and>
     set (map fst (structured_tags ts)) \<inter> set seen = {} \<and>
     b = (h \<or> lit ''type'' \<in> set (map fst (structured_tags ts)))"
proof (induction ts arbitrary: h seen)
  case Nil
  then show ?case by (auto simp: structured_tags_def map_filter_simps)
next
  case (Cons t ts)
  show ?case
  proof (cases "parse_structured_tag t")
    case None
    then show ?thesis using Cons.IH [of h seen] by (simp add: structured_tags_def map_filter_simps)
  next
    case (Some kv)
    obtain k v where kv: "kv = (k, v)" by (cases kv)
    have s: "structured_tags (t # ts) = (k, v) # structured_tags ts"
      using Some kv by (simp add: structured_tags_def map_filter_simps)
    have "outcome_tag_loop (t # ts) h seen = Inr b \<longleftrightarrow>
        tag_allowed (k, v) \<and> k \<notin> set seen \<and> outcome_tag_loop ts (h \<or> k = lit ''type'') (seen @ [k]) = Inr b"
      using Some kv validate_tag_key_value_Inr [of k v] by auto
    then show ?thesis unfolding Cons.IH s by auto
  qed
qed

text \<open>
  The tags of an outcome entry are accepted if and only if every tag with a colon, split at
  the first one, has a recognized key with an admissible value, no key occurs twice, and there
  is a type tag; tags without a colon are ignored.
\<close>

theorem outcome_tags_exact:
  "validate_outcome_tags ts = Inr () \<longleftrightarrow>
     list_all tag_allowed (structured_tags ts) \<and> distinct (map fst (structured_tags ts)) \<and>
     lit ''type'' \<in> set (map fst (structured_tags ts))"
proof -
  have "validate_outcome_tags ts = Inr () \<longleftrightarrow> outcome_tag_loop ts False [] = Inr True"
    by (cases "outcome_tag_loop ts False []") (auto simp: validate_outcome_tags_def)
  then show ?thesis by (simp add: outcome_tag_loop_Inr)
qed

end
