(* ===== verification/Attribution.thy ===== *)
theory Attribution
  imports Input_Props
begin

text \<open>
  Feature attribution: \<open>unimatrix-observe/src/attribution.rs\<close>. Topic signals are extracted
  from text, and the records of a session are partitioned by the feature they mention.

  Strings are lists of Unicode scalar values. \<open>char::is_alphanumeric\<close> rests on the Unicode
  tables and is the argument \<open>alnum\<close>; the theorems need nothing of it. The serialisation of a
  JSON object is third-party code, the argument \<open>to_json\<close> (None when it fails).
\<close>

section \<open>Extraction\<close>

definition MAX_FEATURE_ID_LEN :: nat where
  "MAX_FEATURE_ID_LEN = 128"

definition plausible_feature_id :: "ustr \<Rightarrow> bool" where
  "plausible_feature_id s \<longleftrightarrow> s \<noteq> [] \<and> byte_len s \<le> MAX_FEATURE_ID_LEN \<and> 0x2D \<in> set s \<and> hd s \<noteq> 0x2D \<and> last s \<noteq> 0x2D \<and>
     list_all (\<lambda>c. is_ascii_alphanumeric c \<or> c = 0x2D \<or> c = 0x5F \<or> c = 0x2E) s"

text \<open>The text after the first occurrence of a marker: \<open>find\<close> and the slice behind it.\<close>

fun after_first :: "ustr \<Rightarrow> ustr \<Rightarrow> ustr option" where
  "after_first marker s =
     (if take (length marker) s = marker then Some (drop (length marker) s)
      else case s of [] \<Rightarrow> None | _ # s' \<Rightarrow> after_first marker s')"

lemma after_first_parts: "after_first marker s = Some rest \<Longrightarrow> \<exists>pre. s = pre @ marker @ rest"
proof (induction s arbitrary: rest)
  case Nil
  then show ?case by (auto split: if_splits)
next
  case (Cons c s)
  show ?case
  proof (cases "take (length marker) (c # s) = marker")
    case True
    then have "c # s = [] @ marker @ rest" using Cons.prems by (metis after_first.simps append_Nil append_take_drop_id option.inject)
    then show ?thesis by blast
  next
    case False
    then have "after_first marker s = Some rest" using Cons.prems by simp
    then obtain pre where "s = pre @ marker @ rest" using Cons.IH by blast
    then have "c # s = (c # pre) @ marker @ rest" by simp
    then show ?thesis by blast
  qed
qed

declare after_first.simps [simp del]

definition path_marker :: ustr where
  "path_marker = lit ''product/features/''"

lemma after_first_shorter: "after_first path_marker s = Some rest \<Longrightarrow> length rest < length s"
  using after_first_parts [of path_marker s rest] by (auto simp: path_marker_def lit_def)

function extract_from_path :: "ustr \<Rightarrow> ustr option" where
  "extract_from_path s =
     (case after_first path_marker s of
        None \<Rightarrow> None
      | Some rest \<Rightarrow>
          let segment = takeWhile (\<lambda>c. c \<noteq> 0x2F) rest
          in if plausible_feature_id segment then Some segment else extract_from_path rest)"
  by pat_completeness auto
termination
  by (relation "measure length") (simp_all add: after_first_shorter)

declare extract_from_path.simps [simp del]

text \<open>\<open>split\<close> at the characters of a predicate and \<open>trim_matches\<close>.\<close>

fun split_at_chars :: "(nat \<Rightarrow> bool) \<Rightarrow> ustr \<Rightarrow> ustr list" where
  "split_at_chars P [] = [[]]"
| "split_at_chars P (c # s) =
     (if P c then [] # split_at_chars P s
      else case split_at_chars P s of w # ws \<Rightarrow> (c # w) # ws | [] \<Rightarrow> [[c]])"

definition trim_matches :: "(nat \<Rightarrow> bool) \<Rightarrow> ustr \<Rightarrow> ustr" where
  "trim_matches P s = rev (dropWhile P (rev (dropWhile P s)))"

definition word_separator :: "nat \<Rightarrow> bool" where
  "word_separator c \<longleftrightarrow> is_whitespace c \<or> c = 0x22 \<or> c = 0x27 \<or> c = 0x28 \<or> c = 0x29"

fun first_candidate :: "(nat \<Rightarrow> bool) \<Rightarrow> ustr list \<Rightarrow> ustr option" where
  "first_candidate alnum [] = None"
| "first_candidate alnum (word # rest) =
     (let candidate = trim_matches (\<lambda>c. \<not> alnum c \<and> c \<noteq> 0x2D) word
      in if plausible_feature_id candidate then Some candidate else first_candidate alnum rest)"

definition extract_feature_id_pattern :: "(nat \<Rightarrow> bool) \<Rightarrow> ustr \<Rightarrow> ustr option" where
  "extract_feature_id_pattern alnum s = first_candidate alnum (split_at_chars word_separator s)"

definition extract_from_git_checkout :: "(nat \<Rightarrow> bool) \<Rightarrow> ustr \<Rightarrow> ustr option" where
  "extract_from_git_checkout alnum s =
     (case after_first (lit ''feature/'') s of
        None \<Rightarrow> None
      | Some rest \<Rightarrow>
          let candidate = takeWhile (\<lambda>c. alnum c \<or> c = 0x2D) rest
          in if plausible_feature_id candidate then Some candidate else None)"

definition extract_topic_signal :: "(nat \<Rightarrow> bool) \<Rightarrow> ustr \<Rightarrow> ustr option" where
  "extract_topic_signal alnum content_text =
     (case extract_from_path content_text of
        Some i \<Rightarrow> Some i
      | None \<Rightarrow>
          (case extract_feature_id_pattern alnum content_text of
             Some i \<Rightarrow> Some i
           | None \<Rightarrow> extract_from_git_checkout alnum content_text))"

section \<open>Attribution of records\<close>

datatype 'o json_input = JString ustr | JObject 'o | JOther

record 'o observation_record =
  obs_ts :: nat
  obs_event_type :: ustr
  obs_source_domain :: ustr
  obs_session_id :: ustr
  obs_tool :: "ustr option"
  obs_input :: "'o json_input option"
  obs_response_size :: "nat option"
  obs_response_snippet :: "ustr option"
  obs_model_id :: "ustr option"

record 'o parsed_session =
  ps_session_id :: ustr
  ps_records :: "'o observation_record list"

definition input_text :: "('o \<Rightarrow> ustr option) \<Rightarrow> 'o json_input \<Rightarrow> ustr" where
  "input_text to_json input =
     (case input of
        JString s \<Rightarrow> s
      | JObject ob \<Rightarrow> (case to_json ob of Some s \<Rightarrow> s | None \<Rightarrow> [])
      | JOther \<Rightarrow> [])"

definition extract_feature_signal :: "(nat \<Rightarrow> bool) \<Rightarrow> ('o \<Rightarrow> ustr option) \<Rightarrow> 'o observation_record \<Rightarrow> ustr option" where
  "extract_feature_signal alnum to_json rec =
     (case obs_input rec of
        None \<Rightarrow> None
      | Some input \<Rightarrow>
          let input_str = input_text to_json input
          in case extract_from_path input_str of
               Some i \<Rightarrow> Some i
             | None \<Rightarrow>
                 (case extract_feature_id_pattern alnum input_str of
                    Some i \<Rightarrow> Some i
                  | None \<Rightarrow>
                      (case extract_from_git_checkout alnum input_str of Some i \<Rightarrow> Some i | None \<Rightarrow> None)))"

text \<open>The state of the partition loop: the current feature, the partitions and the open one.\<close>

type_synonym 'r partition_state = "ustr option \<times> (ustr option \<times> 'r list) list \<times> 'r list"

definition partition_step :: "('r \<Rightarrow> ustr option) \<Rightarrow> 'r \<Rightarrow> 'r partition_state \<Rightarrow> 'r partition_state" where
  "partition_step signal_of rec st =
     (case st of (current_feature, partitions, current_records) \<Rightarrow>
        (case signal_of rec of
           Some signal \<Rightarrow>
             if current_feature \<noteq> Some signal then
               if current_records \<noteq> [] then (Some signal, partitions @ [(current_feature, current_records)], [rec])
               else (Some signal, partitions, [rec])
             else (current_feature, partitions, current_records @ [rec])
         | None \<Rightarrow> (current_feature, partitions, current_records @ [rec])))"

definition session_partitions :: "('r \<Rightarrow> ustr option) \<Rightarrow> 'r list \<Rightarrow> (ustr option \<times> 'r list) list" where
  "session_partitions signal_of recs =
     (case fold (partition_step signal_of) recs (None, [], []) of (current_feature, partitions, current_records) \<Rightarrow>
        if current_records \<noteq> [] then partitions @ [(current_feature, current_records)] else partitions)"

fun find_map :: "('a \<Rightarrow> 'b option) \<Rightarrow> 'a list \<Rightarrow> 'b option" where
  "find_map f [] = None"
| "find_map f (x # xs) = (case f x of Some y \<Rightarrow> Some y | None \<Rightarrow> find_map f xs)"

definition attribute_session :: "('r \<Rightarrow> ustr option) \<Rightarrow> ustr \<Rightarrow> 'r list \<Rightarrow> 'r list" where
  "attribute_session signal_of target_feature recs =
     (let partitions = session_partitions signal_of recs;
          first_feature = find_map fst partitions
      in concat (map (\<lambda>(f, rs).
           let effective_feature = (case f of Some x \<Rightarrow> Some x | None \<Rightarrow> first_feature)
           in if effective_feature = Some target_feature then rs else []) partitions))"

definition attribute_sessions :: "(nat \<Rightarrow> bool) \<Rightarrow> ('o \<Rightarrow> ustr option) \<Rightarrow> 'o parsed_session list \<Rightarrow> ustr \<Rightarrow>
    'o observation_record list" where
  "attribute_sessions alnum to_json sessions target_feature =
     concat (map (\<lambda>session. attribute_session (extract_feature_signal alnum to_json) target_feature (ps_records session)) sessions)"

section \<open>Extracted signals are feature ids of the text\<close>

lemma plausible_valid: "plausible_feature_id s \<longleftrightarrow> is_valid_feature_id s"
  by (simp add: plausible_feature_id_def is_valid_feature_id_def MAX_FEATURE_ID_LEN_def MAX_CYCLE_TOPIC_LEN_def)

definition part_of :: "ustr \<Rightarrow> ustr \<Rightarrow> bool" where
  "part_of x s \<longleftrightarrow> (\<exists>pre post. s = pre @ x @ post)"

lemma part_of_trans: "part_of x y \<Longrightarrow> part_of y s \<Longrightarrow> part_of x s"
  unfolding part_of_def by (metis append.assoc)

lemma part_of_takeWhile: "part_of (takeWhile P s) s"
  unfolding part_of_def by (metis append_Nil takeWhile_dropWhile_id)

lemma part_of_after: "after_first m s = Some rest \<Longrightarrow> part_of rest s"
  using after_first_parts [of m s rest] unfolding part_of_def by (metis append.assoc append_Nil2)

lemma part_of_dropWhile: "part_of (dropWhile P s) s"
  unfolding part_of_def by (metis append_Nil2 takeWhile_dropWhile_id)

lemma part_of_rev: "part_of x s \<Longrightarrow> part_of (rev x) (rev s)"
  unfolding part_of_def by (metis append.assoc rev_append)

lemma part_of_trim: "part_of (trim_matches P s) s"
proof -
  have "part_of (rev (dropWhile P (rev (dropWhile P s)))) (rev (rev (dropWhile P s)))"
    by (intro part_of_rev part_of_dropWhile)
  then show ?thesis unfolding trim_matches_def using part_of_trans [OF _ part_of_dropWhile] by simp
qed

lemma split_nonempty: "split_at_chars P s \<noteq> []"
  by (induction s) (auto split: list.split)

lemma split_parts:
  "\<exists>post. s = hd (split_at_chars P s) @ post" "w \<in> set (split_at_chars P s) \<Longrightarrow> part_of w s"
proof (induction s)
  case Nil
  { case 1 show ?case by simp }
  { case 2 then show ?case by (simp add: part_of_def) }
next
  case (Cons c s)
  obtain v ws where v: "split_at_chars P s = v # ws" using split_nonempty [of P s] by (cases "split_at_chars P s") auto
  then obtain post where post: "s = v @ post" using Cons.IH(1) by auto
  { case 1 show ?case using v post by auto }
  { case 2
    have sub: "part_of x s \<Longrightarrow> part_of x (c # s)" for x unfolding part_of_def by (metis append_Cons)
    have "part_of [] (c # s)" "part_of (c # v) (c # s)" unfolding part_of_def post by (metis append_Nil, metis append_Cons append_Nil)
    then show ?case using 2 v Cons.IH(2) sub by (auto split: if_splits) }
qed

lemma extract_from_path_sound: "extract_from_path s = Some i \<Longrightarrow> is_valid_feature_id i \<and> part_of i s"
proof (induction s rule: extract_from_path.induct)
  case (1 s)
  obtain rest where r: "after_first path_marker s = Some rest"
    using "1.prems" by (auto simp: extract_from_path.simps [of s] split: option.splits)
  show ?case
  proof (cases "plausible_feature_id (takeWhile (\<lambda>c. c \<noteq> 0x2F) rest)")
    case True
    then have "i = takeWhile (\<lambda>c. c \<noteq> 0x2F) rest" using "1.prems" r by (simp add: extract_from_path.simps [of s] Let_def)
    then show ?thesis using True part_of_trans [OF part_of_takeWhile part_of_after [OF r]] by (simp add: plausible_valid)
  next
    case False
    then have "extract_from_path rest = Some i" using "1.prems" r by (simp add: extract_from_path.simps [of s] Let_def)
    then show ?thesis using "1.IH" [OF r refl False] part_of_trans [OF _ part_of_after [OF r]] by blast
  qed
qed

lemma first_candidate_sound:
  "first_candidate alnum ws = Some i \<Longrightarrow> is_valid_feature_id i \<and> (\<exists>w \<in> set ws. part_of i w)"
  by (induction ws) (auto simp: Let_def plausible_valid part_of_trim split: if_splits)

lemma git_checkout_sound: "extract_from_git_checkout alnum s = Some i \<Longrightarrow> is_valid_feature_id i \<and> part_of i s"
  using part_of_trans [OF part_of_takeWhile part_of_after]
  by (auto simp: extract_from_git_checkout_def plausible_valid Let_def split: option.splits if_splits)

lemma pattern_sound: "extract_feature_id_pattern alnum s = Some i \<Longrightarrow> is_valid_feature_id i \<and> part_of i s"
  using first_candidate_sound [of alnum "split_at_chars word_separator s" i] split_parts(2) part_of_trans
  unfolding extract_feature_id_pattern_def by blast

text \<open>
  Topic signals are sound. Whatever text an agent sends, an extracted signal is a
  contiguous part of it and a structurally valid feature id, so it contains a hyphen, has at
  most 128 bytes and only ASCII letters, digits, hyphens, underscores and dots; declared as
  the topic of a cycle it is accepted and kept as it is.
\<close>

theorem topic_signal_sound:
  assumes "extract_topic_signal alnum s = Some i"
  shows "is_valid_feature_id i \<and> part_of i s \<and>
    validate_cycle_params lower (lit ''start'') i None None None =
      Inr \<lparr>vc_type = CycleStart, vc_topic = i, vc_phase = None, vc_outcome = None, vc_next_phase = None\<rparr>"
proof -
  have v: "is_valid_feature_id i" "part_of i s"
    using assms extract_from_path_sound [of s i] pattern_sound [of alnum s i] git_checkout_sound [of alnum s i]
    by (auto simp: extract_topic_signal_def split: option.splits)
  then have "i \<noteq> []" by (simp add: is_valid_feature_id_def)
  then show ?thesis using v feature_id_sanitized [OF v(1)]
    by (simp add: validate_cycle_params_def parse_cycle_type_def validate_phase_field_def validate_outcome_def Let_def)
qed

text \<open>The text \<open>(a-1)\<close>: the parentheses separate words.\<close>

theorem topic_signal_sound_witness:
  "\<exists>i. extract_topic_signal is_ascii_alphanumeric [0x28, 0x61, 0x2D, 0x31, 0x29] = Some i \<and> is_valid_feature_id i"
proof -
  let ?s = "[0x28, 0x61, 0x2D, 0x31, 0x29]"
  have "after_first path_marker ?s = None"
    by (simp add: path_marker_def lit_def after_first.simps)
  then have p: "extract_from_path ?s = None" by (simp add: extract_from_path.simps)
  have "extract_topic_signal is_ascii_alphanumeric ?s = Some [0x61, 0x2D, 0x31]"
    by (simp add: extract_topic_signal_def p extract_feature_id_pattern_def word_separator_def is_whitespace_def
        trim_matches_def is_ascii_alphanumeric_def plausible_feature_id_def byte_len_def utf8_width_def MAX_FEATURE_ID_LEN_def Let_def)
  then show ?thesis using topic_signal_sound by blast
qed

section \<open>Attribution follows the last signal\<close>

text \<open>The feature of each record: the last signal so far, or \<open>cur\<close> before the first one.\<close>

fun running :: "'a option \<Rightarrow> 'a option list \<Rightarrow> 'a option list" where
  "running cur [] = []"
| "running cur (x # xs) = (let c = (case x of Some y \<Rightarrow> Some y | None \<Rightarrow> cur) in c # running c xs)"

definition record_features :: "('r \<Rightarrow> ustr option) \<Rightarrow> 'r list \<Rightarrow> ustr option list" where
  "record_features signal_of recs =
     map (\<lambda>f. case f of Some x \<Rightarrow> Some x | None \<Rightarrow> find_map signal_of recs) (running None (map signal_of recs))"

lemma length_running [simp]: "length (running cur xs) = length xs"
  by (induction xs arbitrary: cur) (simp_all add: Let_def)

definition labelled :: "(ustr option \<times> 'r list) list \<Rightarrow> ('r \<times> ustr option) list" where
  "labelled parts = concat (map (\<lambda>(f, rs). map (\<lambda>r. (r, f)) rs) parts)"

lemma labelled_simps [simp]:
  "labelled [] = []" "labelled ((f, rs) # parts) = map (\<lambda>r. (r, f)) rs @ labelled parts"
  "labelled (parts @ parts') = labelled parts @ labelled parts'"
  by (simp_all add: labelled_def)

definition partition_labels :: "'r partition_state \<Rightarrow> ('r \<times> ustr option) list" where
  "partition_labels st = (case st of (cur, parts, recs) \<Rightarrow> labelled (parts @ [(cur, recs)]))"

definition parts_nonempty :: "'r partition_state \<Rightarrow> bool" where
  "parts_nonempty st = (case st of (cur, parts, recs) \<Rightarrow> \<forall>p \<in> set parts. snd p \<noteq> [])"

lemma partition_step_labels:
  "partition_labels (partition_step sg r st) =
     partition_labels st @ [(r, case sg r of Some y \<Rightarrow> Some y | None \<Rightarrow> fst st)] \<and>
   fst (partition_step sg r st) = (case sg r of Some y \<Rightarrow> Some y | None \<Rightarrow> fst st) \<and>
   (parts_nonempty st \<longrightarrow> parts_nonempty (partition_step sg r st))"
  by (cases st; cases "sg r") (auto simp: partition_step_def partition_labels_def parts_nonempty_def)

lemma fold_partition:
  "partition_labels (fold (partition_step sg) recs st) = partition_labels st @ zip recs (running (fst st) (map sg recs)) \<and>
   (parts_nonempty st \<longrightarrow> parts_nonempty (fold (partition_step sg) recs st))"
proof (induction recs arbitrary: st)
  case (Cons r recs)
  show ?case using Cons [of "partition_step sg r st"] partition_step_labels [of sg r st] by (simp add: Let_def)
qed simp

lemma session_partitions_labels:
  "labelled (session_partitions sg recs) = zip recs (running None (map sg recs)) \<and>
   (\<forall>p \<in> set (session_partitions sg recs). snd p \<noteq> [])"
proof -
  obtain cur parts rs where st: "fold (partition_step sg) recs (None, [], []) = (cur, parts, rs)" by (rule prod_cases3)
  show ?thesis using fold_partition [of sg recs "(None, [], [])"] unfolding st session_partitions_def
    by (auto simp: partition_labels_def parts_nonempty_def)
qed

lemma find_map_labelled: "\<forall>p \<in> set parts. snd p \<noteq> [] \<Longrightarrow> find_map fst parts = find_map snd (labelled parts)"
proof (induction parts)
  case (Cons p parts)
  obtain f r rs where p: "p = (f, r # rs)" using Cons.prems by (cases p; cases "snd p") auto
  have "find_map snd (map (\<lambda>r. (r, None)) rs @ xs) = find_map snd xs" for xs :: "('a \<times> ustr option) list"
    by (induction rs) simp_all
  then show ?case using Cons by (simp add: p split: option.split)
qed simp

lemma find_map_running: "find_map snd (zip recs (running None (map sg recs))) = find_map sg recs"
  by (induction recs) (auto simp: Let_def split: option.split)

lemma filter_labelled:
  "concat (map (\<lambda>(f, rs). if P f then rs else []) parts) = map fst (filter (\<lambda>(r, f). P f) (labelled parts))"
  by (induction parts) (auto simp: filter_map comp_def)

lemma attribute_session_exact:
  "attribute_session sg target recs = map fst (filter (\<lambda>(r, f). f = Some target) (zip recs (record_features sg recs)))"
proof -
  let ?P = "\<lambda>f. (case f of Some x \<Rightarrow> Some x | None \<Rightarrow> find_map sg recs) = Some target"
  have first: "find_map fst (session_partitions sg recs) = find_map sg recs"
    using find_map_labelled session_partitions_labels [of sg recs] find_map_running [of recs sg] by metis
  have "attribute_session sg target recs = map fst (filter (\<lambda>(r, f). ?P f) (labelled (session_partitions sg recs)))"
    unfolding attribute_session_def first Let_def by (rule filter_labelled)
  also have "\<dots> = map fst (filter (\<lambda>(r, f). ?P f) (zip recs (running None (map sg recs))))"
    by (simp add: session_partitions_labels)
  also have "\<dots> = map fst (filter (\<lambda>(r, f). f = Some target) (zip recs (record_features sg recs)))"
    by (simp add: record_features_def zip_map2 filter_map comp_def case_prod_unfold)
  finally show ?thesis .
qed

text \<open>
  C18. Attribution of sessions to a feature keeps, in order, exactly the records of each session
  whose feature is the target, where the feature of a record is the last signal at or before
  it, and for the records before the first signal of the session that first signal.
\<close>

theorem attribute_sessions_exact:
  "attribute_sessions alnum to_json sessions target =
     concat (map (\<lambda>session. map fst (filter (\<lambda>(r, f). f = Some target)
       (zip (ps_records session) (record_features (extract_feature_signal alnum to_json) (ps_records session))))) sessions)"
  by (simp add: attribute_sessions_def attribute_session_exact)

end
