(* ===== verification/Gateway.thy ===== *)
theory Gateway
  imports Input_Validation
begin

text \<open>
  The security gateway, \<open>unimatrix-server/src/services/gateway.rs\<close>: the sliding-window rate
  limiter and the checks on searches and writes; with the content scanner of
  \<open>infra/scanning.rs\<close> and the error and context types of \<open>services/mod.rs\<close>.

  A string is the list of its UTF-8 bytes, as in the store. An instant is a number of
  nanoseconds of the monotonic clock, and the clock reading of a call is an argument. The
  compiled regular expressions are third-party: a pattern holds the function that finds its
  first match. The limiter's mutex recovers from poison, so a panic leaves the state as it was
  at that point.
\<close>

section \<open>Types\<close>

datatype caller_id = Agent string | UdsSession string | HttpBearer string

datatype audit_source =
  McpSource string trust_level
| UdsSource nat "nat option" string
| InternalSource string

record audit_context =
  audit_source :: audit_source
  audit_caller :: string
  audit_session :: "string option"
  audit_feature :: "string option"

datatype vector_error =
  DimensionMismatch nat nat
| VectorStore store_error
| Persistence string
| EmptyIndex
| EntryNotInIndex nat
| HnswIndex string
| InvalidEmbedding string

datatype core_error =
  CoreStore store_error
| CoreVector vector_error
| CoreEmbed string
| JoinError string

datatype service_error =
  ContentRejected string string
| RateLimited nat nat nat
| ValidationFailed string
| Core core_error
| EmbeddingFailed string
| NotFound nat

datatype audit_outcome = OutcomeSuccess | OutcomeDenied | OutcomeError | OutcomeNotImplemented

record audit_event =
  event_id :: nat
  timestamp :: nat
  event_session_id :: string
  event_agent_id :: string
  operation :: string
  target_ids :: "nat list"
  outcome :: audit_outcome
  detail :: string
  credential_type :: string
  capability_used :: string
  agent_attribution :: string
  metadata :: string

text \<open>The event of a call: the sentinels of \<open>AuditEvent::default\<close>, the session and the caller.\<close>

definition audit_of :: "audit_context \<Rightarrow> string \<Rightarrow> nat list \<Rightarrow> string \<Rightarrow> audit_event" where
  "audit_of ctx op ids text_detail =
     \<lparr>event_id = 0, timestamp = 0, event_session_id = (case audit_session ctx of None \<Rightarrow> [] | Some s \<Rightarrow> s),
      event_agent_id = audit_caller ctx, operation = op, target_ids = ids, outcome = OutcomeSuccess, detail = text_detail,
      credential_type = ''none'', capability_used = [], agent_attribution = [], metadata = ''{}''\<rparr>"

section \<open>Rate limiter\<close>

text \<open>The windows are deques of instants, oldest first.\<close>

record rate_limiter =
  windows :: "(caller_id, nat list) hmap"
  search_limit :: nat
  write_limit :: nat
  window_secs :: nat

definition rate_limiter_new :: "nat \<Rightarrow> nat \<Rightarrow> nat \<Rightarrow> rate_limiter" where
  "rate_limiter_new s w secs = \<lparr>windows = [], search_limit = s, write_limit = w, window_secs = secs\<rparr>"

definition from_secs :: "nat \<Rightarrow> nat" where
  "from_secs s = s * 1000000000"

definition as_secs :: "nat \<Rightarrow> nat" where
  "as_secs d = d div 1000000000"

text \<open>\<open>duration_since\<close> and the defaulted \<open>checked_sub\<close> saturate at zero.\<close>

definition evict_expired :: "nat \<Rightarrow> nat \<Rightarrow> nat list \<Rightarrow> nat list" where
  "evict_expired now window_duration ts = dropWhile (\<lambda>t. now - t \<ge> window_duration) ts"

text \<open>A call returns its answer, None if it panics, and the limiter.\<close>

definition check_rate ::
    "rate_limiter \<Rightarrow> nat \<Rightarrow> caller_id \<Rightarrow> nat \<Rightarrow> (service_error + unit) option \<times> rate_limiter" where
  "check_rate r now caller limit =
     (case caller of
        UdsSession _ \<Rightarrow> (Some (Inr ()), r)
      | _ \<Rightarrow>
          let window_duration = from_secs (window_secs r);
              ts = evict_expired now window_duration (case hm_get (windows r) caller of None \<Rightarrow> [] | Some ts \<Rightarrow> ts)
          in if length ts mod 2 ^ 32 \<ge> limit
             then (case ts of
                     [] \<Rightarrow> None
                   | oldest # _ \<Rightarrow> Some (Inl (RateLimited limit (window_secs r) (as_secs (window_duration - (now - oldest))))),
                   r\<lparr>windows := hm_insert caller ts (windows r)\<rparr>)
             else (Some (Inr ()), r\<lparr>windows := hm_insert caller (ts @ [now]) (windows r)\<rparr>))"

definition check_search_rate :: "rate_limiter \<Rightarrow> nat \<Rightarrow> caller_id \<Rightarrow> (service_error + unit) option \<times> rate_limiter" where
  "check_search_rate r now caller = check_rate r now caller (search_limit r)"

definition check_write_rate :: "rate_limiter \<Rightarrow> nat \<Rightarrow> caller_id \<Rightarrow> (service_error + unit) option \<times> rate_limiter" where
  "check_write_rate r now caller = check_rate r now caller (write_limit r)"

text \<open>\<open>RateLimitConfig::default\<close>, with the parsed value of the environment variable.\<close>

definition rate_limit_default :: "nat option \<Rightarrow> rate_limiter" where
  "rate_limit_default env_limit = rate_limiter_new 300 (case env_limit of None \<Rightarrow> 60 | Some w \<Rightarrow> w) 3600"

section \<open>Content scanner\<close>

datatype pattern_category =
  InstructionOverride | RoleImpersonation | SystemPromptExtraction | DelimiterInjection | EncodingEvasion
| EmailAddress | PhoneNumber | SocialSecurityNumber | ApiKey

definition show_category :: "pattern_category \<Rightarrow> string" where
  "show_category c =
     (case c of InstructionOverride \<Rightarrow> ''InstructionOverride'' | RoleImpersonation \<Rightarrow> ''RoleImpersonation''
      | SystemPromptExtraction \<Rightarrow> ''SystemPromptExtraction'' | DelimiterInjection \<Rightarrow> ''DelimiterInjection''
      | EncodingEvasion \<Rightarrow> ''EncodingEvasion'' | EmailAddress \<Rightarrow> ''EmailAddress'' | PhoneNumber \<Rightarrow> ''PhoneNumber''
      | SocialSecurityNumber \<Rightarrow> ''SocialSecurityNumber'' | ApiKey \<Rightarrow> ''ApiKey'')"

record compiled_pattern =
  pattern_category :: pattern_category
  pattern_description :: string
  find_match :: "string \<Rightarrow> string option"

record scan_result =
  scan_category :: pattern_category
  scan_description :: string
  matched_text :: string

record content_scanner =
  injection_patterns :: "compiled_pattern list"
  pii_patterns :: "compiled_pattern list"

fun first_match :: "compiled_pattern list \<Rightarrow> string \<Rightarrow> scan_result option" where
  "first_match [] t = None"
| "first_match (p # ps) t =
     (case find_match p t of
        Some m \<Rightarrow> Some \<lparr>scan_category = pattern_category p, scan_description = pattern_description p, matched_text = m\<rparr>
      | None \<Rightarrow> first_match ps t)"

definition scan_content :: "content_scanner \<Rightarrow> string \<Rightarrow> scan_result + unit" where
  "scan_content s t =
     (case first_match (injection_patterns s) t of
        Some r \<Rightarrow> Inl r
      | None \<Rightarrow> (case first_match (pii_patterns s) t of Some r \<Rightarrow> Inl r | None \<Rightarrow> Inr ()))"

definition scan_title :: "content_scanner \<Rightarrow> string \<Rightarrow> scan_result + unit" where
  "scan_title s t = (case first_match (injection_patterns s) t of Some r \<Rightarrow> Inl r | None \<Rightarrow> Inr ())"

section \<open>Validation\<close>

text \<open>
  A control character other than newline and tab. The control characters beyond ASCII are
  U+0080 to U+009F: in UTF-8 the lead byte C2 and a second byte below A0.
\<close>

fun has_control :: "string \<Rightarrow> bool" where
  "has_control [] = False"
| "has_control (c # cs) \<longleftrightarrow>
     (of_char c < (0x20 :: nat) \<and> c \<noteq> CHR 0x0A \<and> c \<noteq> CHR 0x09) \<or> c = CHR 0x7F \<or>
     (c = CHR 0xC2 \<and> (case cs of d # _ \<Rightarrow> of_char d < (0xA0 :: nat) | [] \<Rightarrow> False)) \<or> has_control cs"

definition is_internal :: "audit_context \<Rightarrow> bool" where
  "is_internal ctx \<longleftrightarrow> (case audit_source ctx of InternalSource _ \<Rightarrow> True | _ \<Rightarrow> False)"

record scan_warning =
  warning_category :: string
  warning_description :: string
  warning_text :: string

text \<open>The answer and the audit events the call sends, which nobody waits for.\<close>

definition validate_search_query ::
    "content_scanner \<Rightarrow> string \<Rightarrow> nat \<Rightarrow> audit_context \<Rightarrow> (service_error + scan_warning option) \<times> audit_event list" where
  "validate_search_query scanner query_text k ctx =
     (if length query_text > 10000 then (Inl (ValidationFailed ''query exceeds 10000 characters''), [])
      else if k = 0 \<or> k > 100 then (Inl (ValidationFailed ''k must be between 1 and 100''), [])
      else if has_control query_text then (Inl (ValidationFailed ''query contains control characters''), [])
      else if is_internal ctx then (Inr None, [])
      else case scan_content scanner query_text of
        Inl r \<Rightarrow>
          (Inr (Some \<lparr>warning_category = show_category (scan_category r),
                      warning_description = scan_description r, warning_text = matched_text r\<rparr>),
           [audit_of ctx ''security_scan_warning'' []
              (''search query scan warning: '' @ show_category (scan_category r) @ '' ('' @ scan_description r @ '')'')])
      | Inr _ \<Rightarrow> (Inr None, []))"

fun check_write_tags :: "string list \<Rightarrow> service_error + unit" where
  "check_write_tags [] = Inr ()"
| "check_write_tags (tag # rest) =
     (if tag = [] then Inl (ValidationFailed ''empty tag'')
      else if length tag > 100 then Inl (ValidationFailed ''tag exceeds 100 characters'')
      else check_write_tags rest)"

definition rejected :: "scan_result \<Rightarrow> service_error" where
  "rejected r = ContentRejected (show_category (scan_category r)) (scan_description r)"

definition validate_write ::
    "content_scanner \<Rightarrow> string \<Rightarrow> string \<Rightarrow> string list \<Rightarrow> audit_context \<Rightarrow> service_error + unit" where
  "validate_write scanner title_text content_text tag_list ctx =
     (if title_text = [] then Inl (ValidationFailed ''title cannot be empty'')
      else if length title_text > 500 then Inl (ValidationFailed ''title exceeds 500 characters'')
      else if content_text = [] then Inl (ValidationFailed ''content cannot be empty'')
      else if length content_text > 50000 then Inl (ValidationFailed ''content exceeds 50000 characters'')
      else if has_control title_text then Inl (ValidationFailed ''title contains control characters'')
      else case check_write_tags tag_list of
        Inl e \<Rightarrow> Inl e
      | Inr _ \<Rightarrow>
          if is_internal ctx then Inr ()
          else case scan_content scanner content_text of
            Inl r \<Rightarrow> Inl (rejected r)
          | Inr _ \<Rightarrow> (case scan_title scanner title_text of Inl r \<Rightarrow> Inl (rejected r) | Inr _ \<Rightarrow> Inr ()))"

definition is_quarantined :: "status \<Rightarrow> bool" where
  "is_quarantined s \<longleftrightarrow> s = Quarantined"

end
