(* ===== verification/Gateway_Props.thy ===== *)
theory Gateway_Props
  imports Gateway
begin

text \<open>
  Properties of the gateway: over any sequence of requests the rate limiter answers as a count
  over the whole history does, what the limits bound and what they do not, and when a refused
  caller is served again; which writes the checks let through.
\<close>

section \<open>Sequences of requests\<close>

datatype request_kind = SearchRequest | WriteRequest

text \<open>A request: its time, its caller and the limit it is checked against.\<close>

type_synonym rate_request = "nat \<times> caller_id \<times> request_kind"

definition limit_of :: "rate_limiter \<Rightarrow> request_kind \<Rightarrow> nat" where
  "limit_of r k = (case k of SearchRequest \<Rightarrow> search_limit r | WriteRequest \<Rightarrow> write_limit r)"

definition rate_call :: "rate_limiter \<Rightarrow> rate_request \<Rightarrow> (service_error + unit) option \<times> rate_limiter" where
  "rate_call r q = (case q of (now, c, k) \<Rightarrow>
     (case k of SearchRequest \<Rightarrow> check_search_rate r now c | WriteRequest \<Rightarrow> check_write_rate r now c))"

fun rate_run :: "rate_limiter \<Rightarrow> rate_request list \<Rightarrow> (service_error + unit) option list \<times> rate_limiter" where
  "rate_run r [] = ([], r)"
| "rate_run r (q # qs) =
     (case rate_call r q of (a, r1) \<Rightarrow> (case rate_run r1 qs of (as, r2) \<Rightarrow> (a # as, r2)))"

text \<open>The reference: the admitted requests of the whole history, never evicted.\<close>

definition recent :: "nat \<Rightarrow> nat \<Rightarrow> caller_id \<Rightarrow> rate_request list \<Rightarrow> nat list" where
  "recent width now c log = map fst (filter (\<lambda>q. fst (snd q) = c \<and> now < fst q + width) log)"

definition exempt :: "caller_id \<Rightarrow> bool" where
  "exempt c \<longleftrightarrow> (\<exists>s. c = UdsSession s)"

definition history_answer :: "rate_limiter \<Rightarrow> rate_request list \<Rightarrow> rate_request \<Rightarrow> service_error + unit" where
  "history_answer r log q = (case q of (now, c, k) \<Rightarrow>
     (let ts = recent (from_secs (window_secs r)) now c log
      in if \<not> exempt c \<and> limit_of r k \<le> length ts
         then Inl (RateLimited (limit_of r k) (window_secs r) (as_secs (hd ts + from_secs (window_secs r) - now)))
         else Inr ()))"

definition history_log :: "rate_limiter \<Rightarrow> rate_request list \<Rightarrow> rate_request \<Rightarrow> rate_request list" where
  "history_log r log q = (if history_answer r log q = Inr () then log @ [q] else log)"

fun history_run :: "rate_limiter \<Rightarrow> rate_request list \<Rightarrow> rate_request list \<Rightarrow> (service_error + unit) list" where
  "history_run r log [] = []"
| "history_run r log (q # qs) = history_answer r log q # history_run r (history_log r log q) qs"

section \<open>The limiter keeps a suffix of the history\<close>

lemma dropWhile_expired:
  assumes "sorted ts" and "\<forall>t \<in> set ts. t \<le> now"
  shows "evict_expired now width ts = filter (\<lambda>t. now < t + width) ts"
  using assms
proof (induction ts)
  case Nil
  then show ?case by (simp add: evict_expired_def)
next
  case (Cons t ts)
  show ?case
  proof (cases "width \<le> now - t")
    case True
    then show ?thesis using Cons by (auto simp: evict_expired_def)
  next
    case False
    then have "\<forall>x \<in> set (t # ts). now < x + width" using Cons.prems by auto
    then show ?thesis using False by (simp add: evict_expired_def)
  qed
qed

definition times_of :: "caller_id \<Rightarrow> rate_request list \<Rightarrow> nat list" where
  "times_of c log = map fst (filter (\<lambda>q. fst (snd q) = c) log)"

lemma times_of_simps [simp]:
  "times_of c [] = []"
  "times_of c (log @ [q]) = (if fst (snd q) = c then times_of c log @ [fst q] else times_of c log)"
  by (simp_all add: times_of_def)

lemma recent_times: "recent width now c log = filter (\<lambda>t. now < t + width) (times_of c log)"
  by (induction log) (auto simp: recent_def times_of_def)

definition window :: "rate_limiter \<Rightarrow> caller_id \<Rightarrow> nat list" where
  "window r c = (case hm_get (windows r) c of None \<Rightarrow> [] | Some ts \<Rightarrow> ts)"

text \<open>The windows hold what of the history may still count.\<close>

definition window_inv :: "nat \<Rightarrow> rate_limiter \<Rightarrow> rate_request list \<Rightarrow> bool" where
  "window_inv now r log \<longleftrightarrow> sorted (map fst log) \<and> (\<forall>q \<in> set log. fst q \<le> now) \<and>
     (\<forall>c. \<not> exempt c \<longrightarrow> length (window r c) \<le> max (search_limit r) (write_limit r) \<and>
        (\<exists>old. times_of c log = old @ window r c \<and> (\<forall>t \<in> set old. t + from_secs (window_secs r) \<le> now)))"

lemma window_inv_mono: "window_inv now r log \<Longrightarrow> now \<le> now' \<Longrightarrow> window_inv now' r log"
  unfolding window_inv_def by (meson order_trans)

lemma sorted_times: "sorted (map fst log) \<Longrightarrow> sorted (times_of c log)"
  unfolding times_of_def by (induction log) auto

lemma evicted_recent:
  assumes "window_inv now r log" and "\<not> exempt c"
  shows "evict_expired now (from_secs (window_secs r)) (window r c) = recent (from_secs (window_secs r)) now c log"
    and "length (recent (from_secs (window_secs r)) now c log) \<le> max (search_limit r) (write_limit r)"
    and "\<exists>old. times_of c log = old @ recent (from_secs (window_secs r)) now c log \<and>
      (\<forall>t \<in> set old. t + from_secs (window_secs r) \<le> now)"
proof -
  let ?w = "from_secs (window_secs r)"
  have inv: "sorted (map fst log)" "\<forall>q \<in> set log. fst q \<le> now"
    and len: "length (window r c) \<le> max (search_limit r) (write_limit r)"
    and "\<exists>old. times_of c log = old @ window r c \<and> (\<forall>t \<in> set old. t + ?w \<le> now)"
    using assms by (simp_all add: window_inv_def)
  then obtain old where old: "times_of c log = old @ window r c" "\<forall>t \<in> set old. t + ?w \<le> now" by blast
  have srt: "sorted (times_of c log)" using inv(1) by (rule sorted_times)
  have bound: "\<forall>t \<in> set (times_of c log). t \<le> now" using inv(2) by (auto simp: times_of_def)
  have none: "filter (\<lambda>t. now < t + ?w) old = []" using old(2) by (auto simp: filter_empty_conv not_less)
  have w: "sorted (window r c)" "\<forall>t \<in> set (window r c). t \<le> now" using srt bound old(1) by (auto simp: sorted_append)
  show ev: "evict_expired now ?w (window r c) = recent ?w now c log"
    unfolding dropWhile_expired [OF w] recent_times old(1) using none by simp
  then have rec: "recent ?w now c log = dropWhile (\<lambda>t. now - t \<ge> ?w) (window r c)" by (simp add: evict_expired_def)
  show "length (recent ?w now c log) \<le> max (search_limit r) (write_limit r)"
    unfolding rec using len length_dropWhile_le order_trans by blast
  let ?front = "takeWhile (\<lambda>t. now - t \<ge> ?w) (window r c)"
  have "times_of c log = (old @ ?front) @ recent ?w now c log" using old(1) rec by simp
  moreover have "\<forall>t \<in> set (old @ ?front). t + ?w \<le> now"
  proof
    fix t assume t: "t \<in> set (old @ ?front)"
    then consider "t \<in> set old" | "now - t \<ge> ?w" "t \<le> now"
      using w(2) by (auto dest: set_takeWhileD)
    then show "t + ?w \<le> now" using old(2) by cases auto
  qed
  ultimately show "\<exists>old. times_of c log = old @ recent ?w now c log \<and> (\<forall>t \<in> set old. t + ?w \<le> now)" by blast
qed


definition set_window :: "caller_id \<Rightarrow> nat list \<Rightarrow> rate_limiter \<Rightarrow> rate_limiter" where
  "set_window c ts r = r\<lparr>windows := hm_insert c ts (windows r)\<rparr>"

lemma set_window_simps [simp]:
  "window (set_window c ts r) c' = (if c' = c then ts else window r c')"
  "search_limit (set_window c ts r) = search_limit r" "write_limit (set_window c ts r) = write_limit r"
  "window_secs (set_window c ts r) = window_secs r"
  by (simp_all add: set_window_def window_def update_conv)

lemma check_rate_window:
  "\<not> exempt c \<Longrightarrow> check_rate r now c limit =
    (let ts = evict_expired now (from_secs (window_secs r)) (window r c)
     in if length ts mod 2 ^ 32 \<ge> limit
        then (case ts of [] \<Rightarrow> None
              | t # _ \<Rightarrow> Some (Inl (RateLimited limit (window_secs r) (as_secs (from_secs (window_secs r) - (now - t))))),
              set_window c ts r)
        else (Some (Inr ()), set_window c (ts @ [now]) r))"
  "exempt c \<Longrightarrow> check_rate r now c limit = (Some (Inr ()), r)"
  by (cases c; simp add: check_rate_def exempt_def window_def set_window_def Let_def)+

lemma window_inv_admit:
  assumes "window_inv now r log" and "exempt c \<or> length (recent (from_secs (window_secs r)) now c log) < limit_of r k"
  shows "window_inv now (if exempt c then r else set_window c (recent (from_secs (window_secs r)) now c log @ [now]) r) (log @ [(now, c, k)])"
proof (cases "exempt c")
  case True
  then show ?thesis using assms(1) by (auto simp: window_inv_def sorted_append)
next
  case False
  let ?w = "from_secs (window_secs r)"
  obtain old where "times_of c log = old @ recent ?w now c log" "\<forall>t \<in> set old. t + ?w \<le> now"
    using evicted_recent(3) [OF assms(1) False] by blast
  moreover have "length (recent ?w now c log @ [now]) \<le> max (search_limit r) (write_limit r)"
    using assms(2) False by (auto simp: limit_of_def max_def split: request_kind.splits)
  ultimately show ?thesis using assms(1) False by (auto simp: window_inv_def sorted_append)
qed

lemma window_inv_refuse:
  assumes "window_inv now r log" and "\<not> exempt c"
  shows "window_inv now (set_window c (recent (from_secs (window_secs r)) now c log) r) log"
  using assms evicted_recent(2,3) [OF assms] by (auto simp: window_inv_def)

lemma check_rate_answer:
  assumes inv: "window_inv now r log" and "0 < limit_of r k" and "max (search_limit r) (write_limit r) < 2 ^ 32"
  shows "fst (check_rate r now c (limit_of r k)) = Some (history_answer r log (now, c, k))"
    and "window_inv now (snd (check_rate r now c (limit_of r k))) (history_log r log (now, c, k))"
proof -
  let ?w = "from_secs (window_secs r)" and ?ts = "recent (from_secs (window_secs r)) now c log"
  have "fst (check_rate r now c (limit_of r k)) = Some (history_answer r log (now, c, k)) \<and>
    window_inv now (snd (check_rate r now c (limit_of r k))) (history_log r log (now, c, k))"
  proof (cases "exempt c")
    case True
    then show ?thesis using window_inv_admit [OF inv, of c k]
      by (simp add: check_rate_window history_answer_def history_log_def)
  next
    case False
    have m: "length ?ts mod 2 ^ 32 = length ?ts"
      using le_less_trans [OF evicted_recent(2) [OF inv False] assms(3)] by (rule mod_less)
    have call: "check_rate r now c (limit_of r k) =
      (if limit_of r k \<le> length ?ts
       then (case ?ts of [] \<Rightarrow> None
             | t # _ \<Rightarrow> Some (Inl (RateLimited (limit_of r k) (window_secs r) (as_secs (?w - (now - t))))), set_window c ?ts r)
       else (Some (Inr ()), set_window c (?ts @ [now]) r))"
      unfolding check_rate_window(1) [OF False] evicted_recent(1) [OF inv False] Let_def m ..
    show ?thesis
    proof (cases "limit_of r k \<le> length ?ts")
      case True
      with assms(2) obtain t rest where ts: "?ts = t # rest" by (cases ?ts) auto
      have "t \<in> set ?ts" using ts by simp
      then have "t \<le> now" using inv by (auto simp: recent_def window_inv_def)
      then have "?w - (now - t) = t + ?w - now" by simp
      then show ?thesis using call True False ts window_inv_refuse [OF inv False]
        by (simp add: history_answer_def history_log_def)
    next
      case ok: False
      then show ?thesis using call False window_inv_admit [OF inv, of c k]
        by (simp add: history_answer_def history_log_def)
    qed
  qed
  then show "fst (check_rate r now c (limit_of r k)) = Some (history_answer r log (now, c, k))"
    and "window_inv now (snd (check_rate r now c (limit_of r k))) (history_log r log (now, c, k))" by blast+
qed

lemma check_rate_limits [simp]:
  "search_limit (snd (check_rate r now c n)) = search_limit r"
  "write_limit (snd (check_rate r now c n)) = write_limit r"
  "window_secs (snd (check_rate r now c n)) = window_secs r"
  by (cases "exempt c"; simp add: check_rate_window Let_def)+

lemma rate_call_eq: "rate_call r (now, c, k) = check_rate r now c (limit_of r k)"
  by (cases k) (simp_all add: rate_call_def check_search_rate_def check_write_rate_def limit_of_def)

section \<open>The properties of the limiter\<close>

definition limits_ok :: "rate_limiter \<Rightarrow> bool" where
  "limits_ok r \<longleftrightarrow> 0 < search_limit r \<and> 0 < write_limit r \<and> max (search_limit r) (write_limit r) < 2 ^ 32"

lemma history_cong:
  assumes "search_limit r' = search_limit r" and "write_limit r' = write_limit r" and "window_secs r' = window_secs r"
  shows "history_answer r' = history_answer r" "history_log r' = history_log r" "history_run r' = history_run r"
proof -
  have lim: "limit_of r' = limit_of r" by (intro ext) (simp add: limit_of_def assms split: request_kind.splits)
  show a: "history_answer r' = history_answer r"
    by (intro ext, unfold history_answer_def lim assms, rule refl)
  then show l: "history_log r' = history_log r" by (intro ext) (simp add: history_log_def)
  show "history_run r' = history_run r"
  proof (intro ext)
    fix log qs show "history_run r' log qs = history_run r log qs" by (induction qs arbitrary: log) (simp_all add: a l)
  qed
qed

lemma rate_run_Cons:
  "fst (rate_run r (q # qs)) = fst (rate_call r q) # fst (rate_run (snd (rate_call r q)) qs)"
  by (simp split: prod.splits)

lemma rate_run_history:
  assumes "window_inv now r log" and "limits_ok r" and "sorted (now # map fst qs)"
  shows "fst (rate_run r qs) = map Some (history_run r log qs)"
  using assms
proof (induction qs arbitrary: now r log)
  case Nil
  then show ?case by simp
next
  case (Cons q qs)
  obtain t c k where q: "q = (t, c, k)" by (cases q)
  have inv: "window_inv t r log" using Cons.prems window_inv_mono [OF Cons.prems(1)] by (simp add: q)
  have lim: "0 < limit_of r k" "max (search_limit r) (write_limit r) < 2 ^ 32"
    using Cons.prems(2) by (auto simp: limits_ok_def limit_of_def split: request_kind.splits)
  let ?r = "snd (check_rate r t c (limit_of r k))"
  have "fst (rate_run ?r qs) = map Some (history_run ?r (history_log r log q) qs)"
    using Cons.IH [of t ?r "history_log r log q"] check_rate_answer(2) [OF inv lim] Cons.prems(2,3)
    by (simp add: q limits_ok_def)
  then show ?case using check_rate_answer(1) [OF inv lim] history_cong(3) [of ?r r]
    by (simp add: q rate_call_eq rate_run_Cons del: rate_run.simps)
qed


lemma window_inv_new: "window_inv now (rate_limiter_new s w secs) []"
  by (simp add: window_inv_def rate_limiter_new_def window_def)

definition log_after :: "rate_limiter \<Rightarrow> rate_request list \<Rightarrow> rate_request list \<Rightarrow> rate_request list" where
  "log_after r log qs = foldl (history_log r) log qs"

lemma history_run_append: "history_run r log (qs @ qs') = history_run r log qs @ history_run r (log_after r log qs) qs'"
  by (induction qs arbitrary: log) (simp_all add: log_after_def)

text \<open>In no span of one window are more requests of some kinds admitted than each of the kinds allows.\<close>

definition in_span :: "nat \<Rightarrow> nat \<Rightarrow> caller_id \<Rightarrow> (request_kind \<Rightarrow> bool) \<Rightarrow> rate_request \<Rightarrow> bool" where
  "in_span t width c K q \<longleftrightarrow> fst (snd q) = c \<and> K (snd (snd q)) \<and> t \<le> fst q \<and> fst q < t + width"

lemma filter_length_mono: "(\<And>x. x \<in> set xs \<Longrightarrow> P x \<Longrightarrow> Q x) \<Longrightarrow> length (filter P xs) \<le> length (filter Q xs)"
  by (induction xs) auto

lemma span_step:
  assumes "\<not> exempt c" and "\<And>k. K k \<Longrightarrow> limit_of r k \<le> m"
    and "length (filter (in_span t (from_secs (window_secs r)) c K) log) \<le> m"
  shows "length (filter (in_span t (from_secs (window_secs r)) c K) (history_log r log q)) \<le> m"
proof (cases "history_answer r log q = Inr () \<and> in_span t (from_secs (window_secs r)) c K q")
  case True
  obtain now k where q: "q = (now, c, k)" and k: "K k" and span: "t \<le> now" "now < t + from_secs (window_secs r)"
    using True by (cases q) (auto simp: in_span_def)
  have "length (filter (in_span t (from_secs (window_secs r)) c K) log) \<le> length (recent (from_secs (window_secs r)) now c log)"
    unfolding recent_def length_map by (rule filter_length_mono) (use span in \<open>auto simp: in_span_def\<close>)
  also have "\<dots> < limit_of r k" using True assms(1) by (auto simp: q history_answer_def Let_def not_le split: if_splits)
  finally show ?thesis using assms(2) [OF k] by (auto simp: history_log_def)
next
  case False
  then show ?thesis using assms(3) by (auto simp: history_log_def)
qed

lemma span_bound:
  assumes "\<not> exempt c" and "\<And>k. K k \<Longrightarrow> limit_of r k \<le> m"
  shows "length (filter (in_span t (from_secs (window_secs r)) c K) log) \<le> m \<Longrightarrow>
    length (filter (in_span t (from_secs (window_secs r)) c K) (log_after r log qs)) \<le> m"
  by (induction qs arbitrary: log) (simp_all add: log_after_def span_step [OF assms])

definition admitted :: "rate_limiter \<Rightarrow> rate_request list \<Rightarrow> rate_request list" where
  "admitted r qs = map fst (filter (\<lambda>(q, a). a = Some (Inr ())) (zip qs (fst (rate_run r qs))))"

lemma admitted_log: "log @ map fst (filter (\<lambda>(q, a). a = Some (Inr ())) (zip qs (map Some (history_run r log qs)))) = log_after r log qs"
proof (induction qs arbitrary: log)
  case Nil
  then show ?case by (simp add: log_after_def)
next
  case (Cons q qs)
  show ?case using Cons.IH [of "history_log r log q"] by (simp add: log_after_def history_log_def split: if_splits)
qed

text \<open>
  C30. Over any sequence of requests at non-decreasing times every answer is the one that the
  whole history of admitted requests gives: an exempt caller is admitted; another is refused
  exactly if as many of its earlier requests, searches and writes counted together, as the
  limit of the request allows were admitted less than a window ago, and is told the seconds
  until the oldest of them expires, rounded down. No request panics, provided
  that the limits are positive (\<open>limits_ok\<close>): a limit of 0 panics (\<open>zero_limit_panics\<close>).
\<close>

theorem rate_limiter_exact:
  assumes "limits_ok (rate_limiter_new s w secs)" and "sorted (map fst qs)"
  shows "fst (rate_run (rate_limiter_new s w secs) qs) = map Some (history_run (rate_limiter_new s w secs) [] qs)"
  using rate_run_history [OF window_inv_new assms(1), of 0 qs] assms(2) by simp

text \<open>
  C31. Of a caller that is not exempt the limiter admits, in no span as long as the window, more
  searches than the search limit, or more writes than the write limit, where both are positive.
  The callers of a session of the Unix socket are exempt, and nothing bounds theirs.
\<close>

theorem rate_limiter_bounds:
  assumes "limits_ok (rate_limiter_new s w secs)" and "sorted (map fst qs)" and "\<not> exempt c"
  shows "length (filter (\<lambda>(now, caller, kind). caller = c \<and> kind = k \<and> t \<le> now \<and> now < t + from_secs secs)
      (admitted (rate_limiter_new s w secs) qs)) \<le> (case k of SearchRequest \<Rightarrow> s | WriteRequest \<Rightarrow> w)"
proof -
  let ?r = "rate_limiter_new s w secs"
  have run: "fst (rate_run ?r qs) = map Some (history_run ?r [] qs)"
    using rate_run_history [OF window_inv_new assms(1), of 0 qs] assms(2) by simp
  have "length (filter (in_span t (from_secs (window_secs ?r)) c (\<lambda>x. x = k)) (admitted ?r qs)) \<le> limit_of ?r k"
    unfolding admitted_def run using span_bound [OF assms(3), of "\<lambda>x. x = k" ?r "limit_of ?r k" t "[]" qs] admitted_log [of "[]" qs ?r]
    by simp
  moreover have "in_span t (from_secs (window_secs ?r)) c (\<lambda>x. x = k) =
      (\<lambda>(now, caller, kind). caller = c \<and> kind = k \<and> t \<le> now \<and> now < t + from_secs secs)"
    by (auto simp: in_span_def rate_limiter_new_def)
  ultimately show ?thesis by (simp add: limit_of_def rate_limiter_new_def split: request_kind.splits)
qed


text \<open>Requests of others do not count.\<close>

lemma recent_others: "\<forall>q \<in> set qs. fst (snd q) \<noteq> c \<Longrightarrow> recent width now c (log_after r log qs) = recent width now c log"
  by (induction qs arbitrary: log) (simp_all add: log_after_def history_log_def recent_def)

lemma recent_later: "now \<le> now' \<Longrightarrow> length (recent width now' c log) \<le> length (recent width now c log)"
  unfolding recent_def length_map by (rule filter_length_mono) auto

lemma log_sorted:
  "sorted (map fst log @ map fst qs) \<Longrightarrow> sorted (map fst (log_after r log qs)) \<and> set (log_after r log qs) \<subseteq> set log \<union> set qs"
proof (induction qs arbitrary: log)
  case Nil
  then show ?case by (simp add: log_after_def)
next
  case (Cons q qs)
  have "sorted (map fst (history_log r log q) @ map fst qs)" using Cons.prems by (auto simp: history_log_def sorted_append)
  from Cons.IH [OF this] show ?case by (auto simp: log_after_def history_log_def split: if_splits)
qed

lemma recent_bound:
  assumes "\<not> exempt c" and "sorted (map fst qs @ [now])"
  shows "length (recent (from_secs (window_secs r)) now c (log_after r [] qs)) \<le> max (search_limit r) (write_limit r)"
proof -
  let ?w = "from_secs (window_secs r)" and ?log = "log_after r [] qs"
  have "\<forall>q \<in> set ?log. fst q \<le> now" using log_sorted [of "[]" qs r] assms(2) by (auto simp: sorted_append)
  then have "length (recent ?w now c ?log) \<le> length (filter (in_span (Suc now - ?w) ?w c (\<lambda>_. True)) ?log)"
    unfolding recent_def length_map by (intro filter_length_mono) (auto simp: in_span_def)
  also have "\<dots> \<le> max (search_limit r) (write_limit r)"
    by (rule span_bound [OF assms(1)]) (auto simp: limit_of_def split: request_kind.splits)
  finally show ?thesis .
qed

lemma waits_enough: "now + from_secs (as_secs d + 1) \<le> later \<Longrightarrow> now + d \<le> later"
  using dividend_less_div_times [of 1000000000 d] by (simp add: from_secs_def as_secs_def)

text \<open>
  A caller whose search was refused with a number of seconds, and that sends nothing for
  one second longer than that, is admitted, whatever others do meanwhile: as long as the write
  limit is not above the search limit.
\<close>

theorem refused_search_recovers:
  assumes "limits_ok (rate_limiter_new s w secs)" and "w \<le> s" and "\<not> exempt c"
    and "sorted (map fst (qs @ [(now, c, SearchRequest)] @ others @ [(later, c, SearchRequest)]))"
    and "last (fst (rate_run (rate_limiter_new s w secs) (qs @ [(now, c, SearchRequest)]))) = Some (Inl (RateLimited s secs retry))"
    and "\<forall>q \<in> set others. fst (snd q) \<noteq> c" and "now + from_secs (retry + 1) \<le> later"
  shows "last (fst (rate_run (rate_limiter_new s w secs) (qs @ [(now, c, SearchRequest)] @ others @ [(later, c, SearchRequest)]))) =
    Some (Inr ())"
proof -
  let ?r = "rate_limiter_new s w secs" and ?w = "from_secs secs"
  let ?q = "(now, c, SearchRequest)" and ?log = "log_after (rate_limiter_new s w secs) [] qs"
  have r: "limit_of ?r SearchRequest = s" "window_secs ?r = secs" "search_limit ?r = s" "write_limit ?r = w"
    by (simp_all add: limit_of_def rate_limiter_new_def)
  have run: "fst (rate_run ?r xs) = map Some (history_run ?r [] xs)" if "sorted (map fst xs)" for xs
    using rate_run_history [OF window_inv_new assms(1), of 0 xs] that by simp
  have srt: "sorted (map fst (qs @ [?q]))" using assms(4) by (auto simp: sorted_append)
  let ?ts = "recent ?w now c ?log"
  have refused: "history_answer ?r ?log ?q = Inl (RateLimited s secs retry)"
    using assms(5) run [OF srt] by (simp add: history_run_append)
  then have full: "s \<le> length ?ts" and retry: "retry = as_secs (hd ?ts + ?w - now)"
    by (auto simp: history_answer_def r Let_def split: if_splits)
  have "length ?ts \<le> s" using recent_bound [OF assms(3), of qs now ?r] srt assms(2) by (simp add: r)
  with full have len: "length ?ts = s" by simp
  have "0 < s" using assms(1) by (simp add: limits_ok_def r)
  with len obtain t rest where ts: "?ts = t # rest" by (cases ?ts) auto
  have old: "t + ?w \<le> later" using waits_enough [of now "t + ?w - now" later] assms(7) retry by (simp add: ts)
  have le: "now \<le> later" using assms(7) by simp
  let ?log2 = "log_after ?r ?log (?q # others)"
  have "recent ?w later c ?log2 = recent ?w later c ?log"
    using recent_others [OF assms(6), of ?w later ?r "history_log ?r ?log ?q"] refused
    by (simp add: log_after_def history_log_def)
  also have "\<dots> = filter (\<lambda>x. later < x + ?w) ?ts"
    unfolding recent_times filter_filter by (rule filter_cong) (use le in auto)
  also have "\<dots> = filter (\<lambda>x. later < x + ?w) rest" using old by (simp add: ts)
  finally have "length (recent ?w later c ?log2) \<le> length rest" by simp
  then have "length (recent ?w later c ?log2) < s" using len ts by simp
  then have "history_answer ?r ?log2 (later, c, SearchRequest) = Inr ()" by (simp add: history_answer_def r)
  then show ?thesis
    using run [OF assms(4)] history_run_append [of ?r "[]" "qs @ ?q # others" "[(later, c, SearchRequest)]"]
    by (simp add: log_after_def)
qed

text \<open>
  A limit of zero panics, and one request of either kind counts against both limits: a caller
  that has searched cannot write, and for writes the announced time is too short.
\<close>

theorem zero_limit_panics:
  "fst (check_write_rate (rate_limiter_new 300 0 3600) now (Agent a)) = None"
  by (simp add: check_write_rate_def check_rate_def rate_limiter_new_def evict_expired_def Let_def)

lemma searches_block_writes:
  "fst (rate_run (rate_limiter_new 3 1 60)
     [(0, Agent a, SearchRequest), (from_secs 10, Agent a, SearchRequest), (from_secs 20, Agent a, WriteRequest),
      (from_secs 61, Agent a, WriteRequest)]) =
   [Some (Inr ()), Some (Inr ()), Some (Inl (RateLimited 1 60 40)), Some (Inl (RateLimited 1 60 9))]"
  by (simp add: rate_call_def check_search_rate_def check_write_rate_def check_rate_def rate_limiter_new_def evict_expired_def
      from_secs_def as_secs_def Let_def)


definition sample_requests :: "rate_request list" where
  "sample_requests = [(0, Agent ''a'', SearchRequest), (5, Agent ''b'', SearchRequest), (from_secs 3, Agent ''a'', SearchRequest)]"

lemmas sample_run = sample_requests_def rate_call_def check_search_rate_def check_rate_def rate_limiter_new_def evict_expired_def
  from_secs_def as_secs_def

theorem rate_limiter_exact_witness:
  "fst (rate_run (rate_limiter_new 1 1 10) sample_requests) = [Some (Inr ()), Some (Inr ()), Some (Inl (RateLimited 1 10 7))]"
proof -
  have "history_run (rate_limiter_new 1 1 10) [] sample_requests = [Inr (), Inr (), Inl (RateLimited 1 10 7)]"
    by (simp add: sample_requests_def history_answer_def history_log_def recent_def exempt_def limit_of_def rate_limiter_new_def
        from_secs_def as_secs_def)
  then show ?thesis using rate_limiter_exact [of 1 1 10 sample_requests]
    by (simp add: limits_ok_def rate_limiter_new_def sample_requests_def from_secs_def)
qed

theorem rate_limiter_bounds_witness:
  "length (filter (\<lambda>(now, caller, kind). caller = Agent ''a'' \<and> kind = SearchRequest \<and> 0 \<le> now \<and> now < 0 + from_secs 10)
     (admitted (rate_limiter_new 1 1 10) sample_requests)) \<le> 1"
  using rate_limiter_bounds [of 1 1 10 sample_requests "Agent ''a''" SearchRequest 0]
  by (simp add: limits_ok_def rate_limiter_new_def sample_requests_def exempt_def from_secs_def)

theorem refused_search_recovers_witness:
  "last (fst (rate_run (rate_limiter_new 1 1 10)
     ([(0, Agent ''a'', SearchRequest), (5, Agent ''b'', SearchRequest)] @ [(from_secs 3, Agent ''a'', SearchRequest)] @
      [(from_secs 4, Agent ''b'', SearchRequest)] @ [(from_secs 11, Agent ''a'', SearchRequest)]))) = Some (Inr ())"
proof (rule refused_search_recovers [where retry = 7])
  show "last (fst (rate_run (rate_limiter_new 1 1 10)
      ([(0, Agent ''a'', SearchRequest), (5, Agent ''b'', SearchRequest)] @ [(from_secs 3, Agent ''a'', SearchRequest)]))) =
    Some (Inl (RateLimited 1 10 7))"
    by (simp add: sample_run)
qed (simp_all add: limits_ok_def rate_limiter_new_def exempt_def from_secs_def)

section \<open>Validation\<close>

lemma first_match_None: "first_match ps t = None \<longleftrightarrow> (\<forall>p \<in> set ps. find_match p t = None)"
  by (induction ps) (auto split: option.splits)

lemma check_write_tags_Inr: "check_write_tags ts = Inr () \<longleftrightarrow> (\<forall>t \<in> set ts. t \<noteq> [] \<and> length t \<le> 100)"
  by (induction ts) auto

lemma check_write_tags_rejects: "check_write_tags ts \<noteq> Inl (ContentRejected c d)"
  by (induction ts) auto

lemma scan_content_Inr:
  "scan_content s t = Inr () \<longleftrightarrow> (\<forall>p \<in> set (injection_patterns s) \<union> set (pii_patterns s). find_match p t = None)"
  by (auto simp: scan_content_def ball_Un simp flip: first_match_None split: option.splits)

lemma scan_title_Inr: "scan_title s t = Inr () \<longleftrightarrow> (\<forall>p \<in> set (injection_patterns s). find_match p t = None)"
  by (auto simp: scan_title_def simp flip: first_match_None split: option.splits)

text \<open>The control characters of a text, on its UTF-8 encoding.\<close>

definition utf8_char :: "nat \<Rightarrow> string" where
  "utf8_char c = map char_of
     (if c < 0x80 then [c]
      else if c < 0x800 then [0xC0 + c div 64, 0x80 + c mod 64]
      else if c < 0x10000 then [0xE0 + c div 4096, 0x80 + c div 64 mod 64, 0x80 + c mod 64]
      else [0xF0 + c div 262144, 0x80 + c div 4096 mod 64, 0x80 + c div 64 mod 64, 0x80 + c mod 64])"

definition is_control :: "nat \<Rightarrow> bool" where
  "is_control c \<longleftrightarrow> c < 0x20 \<or> 0x7F \<le> c \<and> c < 0xA0"

lemma has_control_char_of:
  fixes n :: nat
  assumes "n < 256"
  shows "has_control (char_of n # cs) \<longleftrightarrow>
     n < 0x20 \<and> n \<noteq> 0x0A \<and> n \<noteq> 0x09 \<or> n = 0x7F \<or>
     n = 0xC2 \<and> (case cs of d # _ \<Rightarrow> of_char d < (0xA0 :: nat) | [] \<Rightarrow> False) \<or> has_control cs"
proof -
  have "char_of n = c \<longleftrightarrow> n = of_char c" for c
    using assms by (metis char_of_char mod_less of_char_of)
  then show ?thesis using assms by auto
qed

lemma control_bytes [simp]:
  fixes n :: nat
  shows "has_control (char_of (0x80 + n mod 64) # cs) \<longleftrightarrow> has_control cs"
    and "0xE0 \<le> n \<Longrightarrow> n < 256 \<Longrightarrow> has_control (char_of n # cs) \<longleftrightarrow> has_control cs"
proof -
  have "0x80 + n mod 64 < 256" "0x80 + n mod 64 \<noteq> 0xC2"
    using mod_less_divisor [of 64 n] by linarith+
  then show "has_control (char_of (0x80 + n mod 64) # cs) \<longleftrightarrow> has_control cs"
    by (simp add: has_control_char_of del: has_control.simps)
qed (simp add: has_control_char_of del: has_control.simps)

lemma has_control_utf8_char:
  assumes "c < 0x110000"
  shows "has_control (utf8_char c @ cs) \<longleftrightarrow> (is_control c \<and> c \<noteq> 0x0A \<and> c \<noteq> 0x09) \<or> has_control cs"
proof -
  consider "c < 0x80" | "0x80 \<le> c" "c < 0x800" | "0x800 \<le> c" "c < 0x10000" | "0x10000 \<le> c" by linarith
  then show ?thesis
  proof cases
    case 1
    then show ?thesis by (auto simp: utf8_char_def is_control_def has_control_char_of simp del: has_control.simps)
  next
    case 2
    then have lead: "0xC0 + c div 64 < 256" "2 \<le> c div 64"
      by (simp_all add: less_eq_div_iff_mult_less_eq div_less_iff_less_mult)
    have lt: "0x80 + c mod 64 < 0xA0 \<longleftrightarrow> c mod 64 < 0x20" by linarith
    have "0xC0 + c div 64 = 0xC2 \<and> c mod 64 < 0x20 \<longleftrightarrow> c < 0xA0"
    proof
      assume "0xC0 + c div 64 = 0xC2 \<and> c mod 64 < 0x20"
      then show "c < 0xA0" using mult_div_mod_eq [of 64 c] by linarith
    next
      assume "c < 0xA0"
      then have "c div 64 < 3" by (simp add: div_less_iff_less_mult)
      then show "0xC0 + c div 64 = 0xC2 \<and> c mod 64 < 0x20" using lead(2) \<open>c < 0xA0\<close> mult_div_mod_eq [of 64 c] by linarith
    qed
    moreover have "of_char (char_of (0x80 + c mod 64) :: char) = 0x80 + c mod 64"
      unfolding of_char_of by (rule mod_less) (use mod_less_divisor [of 64 c] in linarith)
    moreover have "has_control (utf8_char c @ cs) \<longleftrightarrow>
        0xC0 + c div 64 = 0xC2 \<and> of_char (char_of (0x80 + c mod 64) :: char) < (0xA0 :: nat) \<or> has_control cs"
      using 2 lead by (simp add: utf8_char_def has_control_char_of [OF lead(1)] del: has_control.simps)
    ultimately show ?thesis using 2 lt by (auto simp: is_control_def)
  next
    case 3
    then have "0xE0 + c div 4096 < 256" by (simp add: div_less_iff_less_mult)
    then show ?thesis using 3 by (simp add: utf8_char_def is_control_def del: has_control.simps)
  next
    case 4
    then have "0xF0 + c div 262144 < 256" using assms by (simp add: div_less_iff_less_mult)
    then show ?thesis using 4 by (simp add: utf8_char_def is_control_def del: has_control.simps)
  qed
qed

lemma has_control_utf8:
  "list_all (\<lambda>c. c < 0x110000) s \<Longrightarrow>
   has_control (concat (map utf8_char s)) \<longleftrightarrow> (\<exists>c \<in> set s. is_control c \<and> c \<noteq> 0x0A \<and> c \<noteq> 0x09)"
  by (induction s) (auto simp: has_control_utf8_char)

text \<open>
  C32. The gateway lets a write through exactly if the title and the content are not empty and
  within their limits, the title has no control characters, every tag is between 1 and 100 bytes,
  and, unless the server itself writes, no injection or personal-data pattern matches the
  content and no injection pattern the title.
\<close>

theorem validate_write_exact:
  "validate_write scanner t c ts ctx = Inr () \<longleftrightarrow>
     t \<noteq> [] \<and> length t \<le> 500 \<and> c \<noteq> [] \<and> length c \<le> 50000 \<and> \<not> has_control t \<and>
     (\<forall>g \<in> set ts. g \<noteq> [] \<and> length g \<le> 100) \<and>
     (\<not> is_internal ctx \<longrightarrow>
        (\<forall>p \<in> set (injection_patterns scanner) \<union> set (pii_patterns scanner). find_match p c = None) \<and>
        (\<forall>p \<in> set (injection_patterns scanner). find_match p t = None))"
  unfolding validate_write_def
  by (auto simp flip: check_write_tags_Inr scan_content_Inr scan_title_Inr split: sum.splits)


definition sample_scanner :: content_scanner where
  "sample_scanner = \<lparr>injection_patterns = [\<lparr>pattern_category = InstructionOverride, pattern_description = ''override'',
       find_match = (\<lambda>t. if t = ''ignore all'' then Some t else None)\<rparr>], pii_patterns = []\<rparr>"

theorem validate_write_exact_witness:
  "validate_write sample_scanner ''ok'' ''fine'' [''t''] \<lparr>audit_source = McpSource ''a'' TrustRestricted, audit_caller = ''a'',
     audit_session = None, audit_feature = None\<rparr> = Inr ()"
  by (rule iffD2 [OF validate_write_exact]) (simp add: sample_scanner_def)

end
