(* ===== verification/Event_Queue.thy ===== *)
theory Event_Queue
  imports Input_Validation "HOL-Library.Char_ord" "HOL-Library.List_Lexorder"
begin

text \<open>
  The event queue of the hook client, \<open>unimatrix-engine/src/event_queue.rs\<close>: events that could
  not be sent are appended to files and replayed later.

  The world of a call is the queue directory, with the text and the modification time of each
  file, and the requests offered to the transport so far. A call also takes the faults of the
  operating system, one for each system call it makes: an error text, or None for none; an
  empty list is a system without faults. File texts are lists of Unicode scalar values, file
  names are bytes. The JSON functions of serde are arguments, as is the answer of the
  transport, which may depend on what it was offered before. A call reads the clock once, in
  nanoseconds.
\<close>

section \<open>System calls\<close>

record queue_file =
  file_text :: ustr
  modified :: nat

record 'r queue_world =
  dir_exists :: bool
  dir_files :: "(string, queue_file) hmap"
  offered :: "'r list"

type_synonym ('r, 'a) io =
  "'r queue_world \<Rightarrow> string option list \<Rightarrow> (string + 'a) \<times> 'r queue_world \<times> string option list"

definition io_return :: "'a \<Rightarrow> ('r, 'a) io" where
  "io_return a w fs = (Inr a, w, fs)"

definition io_fail :: "string \<Rightarrow> ('r, 'a) io" where
  "io_fail e w fs = (Inl e, w, fs)"

definition io_bind :: "('r, 'a) io \<Rightarrow> ('a \<Rightarrow> ('r, 'b) io) \<Rightarrow> ('r, 'b) io" where
  "io_bind m f w fs =
     (case m w fs of (Inr a, w', fs') \<Rightarrow> f a w' fs' | (Inl e, w', fs') \<Rightarrow> (Inl e, w', fs'))"

definition io_seq :: "('r, 'a) io \<Rightarrow> ('r, 'b) io \<Rightarrow> ('r, 'b) io" where
  "io_seq m k = io_bind m (\<lambda>_. k)"

text \<open>A call whose error is ignored.\<close>

definition io_try :: "('r, 'a) io \<Rightarrow> ('r, 'a option) io" where
  "io_try m w fs = (case m w fs of (Inr a, w', fs') \<Rightarrow> (Inr (Some a), w', fs') | (Inl _, w', fs') \<Rightarrow> (Inr None, w', fs'))"

definition sys :: "('r queue_world \<Rightarrow> string + 'a \<times> 'r queue_world) \<Rightarrow> ('r, 'a) io" where
  "sys f w fs =
     (case fs of
        Some e # fs' \<Rightarrow> (Inl e, w, fs')
      | _ \<Rightarrow> (case f w of Inl e \<Rightarrow> (Inl e, w, tl fs) | Inr (a, w') \<Rightarrow> (Inr a, w', tl fs)))"

definition create_dir_all :: "('r, unit) io" where
  "create_dir_all = sys (\<lambda>w. Inr ((), w\<lparr>dir_exists := True\<rparr>))"

text \<open>\<open>Path::exists\<close> is false if it cannot tell.\<close>

definition path_exists :: "('r, bool) io" where
  "path_exists w fs = (Inr (case fs of Some _ # _ \<Rightarrow> False | _ \<Rightarrow> dir_exists w), w, tl fs)"

definition not_found :: string where
  "not_found = ''No such file or directory''"

definition read_dir :: "('r, string list) io" where
  "read_dir = sys (\<lambda>w. if dir_exists w then Inr (map fst (dir_files w), w) else Inl not_found)"

definition next_entry :: "('r, unit) io" where
  "next_entry = sys (\<lambda>w. Inr ((), w))"

definition file_modified :: "string \<Rightarrow> ('r, nat) io" where
  "file_modified name = sys (\<lambda>w. case hm_get (dir_files w) name of None \<Rightarrow> Inl not_found | Some f \<Rightarrow> Inr (modified f, w))"

definition read_to_string :: "string \<Rightarrow> ('r, ustr) io" where
  "read_to_string name = sys (\<lambda>w. case hm_get (dir_files w) name of None \<Rightarrow> Inl not_found | Some f \<Rightarrow> Inr (file_text f, w))"

definition remove_file :: "string \<Rightarrow> ('r, unit) io" where
  "remove_file name = sys (\<lambda>w. case hm_get (dir_files w) name of
       None \<Rightarrow> Inl not_found
     | Some f \<Rightarrow> Inr ((), w\<lparr>dir_files := hm_remove name (dir_files w)\<rparr>))"

text \<open>Opening for append creates the file.\<close>

definition open_append :: "nat \<Rightarrow> string \<Rightarrow> ('r, unit) io" where
  "open_append now name = sys (\<lambda>w. case hm_get (dir_files w) name of
       None \<Rightarrow> Inr ((), w\<lparr>dir_files := hm_insert name \<lparr>file_text = [], modified = now\<rparr> (dir_files w)\<rparr>)
     | Some f \<Rightarrow> Inr ((), w))"

definition write_text :: "nat \<Rightarrow> string \<Rightarrow> ustr \<Rightarrow> ('r, unit) io" where
  "write_text now name t = sys (\<lambda>w. case hm_get (dir_files w) name of
       None \<Rightarrow> Inl not_found
     | Some f \<Rightarrow> Inr ((), w\<lparr>dir_files := hm_insert name \<lparr>file_text = file_text f @ t, modified = now\<rparr> (dir_files w)\<rparr>))"

definition flush :: "('r, unit) io" where
  "flush = sys (\<lambda>w. Inr ((), w))"

section \<open>Text\<close>

text \<open>\<open>str::lines\<close>: lines end in a line feed, possibly after a carriage return.\<close>

fun split_lf :: "ustr \<Rightarrow> ustr list" where
  "split_lf [] = []"
| "split_lf (c # cs) = (if c = 10 then [] # split_lf cs else case split_lf cs of [] \<Rightarrow> [[c]] | l # ls \<Rightarrow> (c # l) # ls)"

definition strip_cr :: "ustr \<Rightarrow> ustr" where
  "strip_cr l = (if l \<noteq> [] \<and> last l = 13 then butlast l else l)"

definition text_lines :: "ustr \<Rightarrow> ustr list" where
  "text_lines t = map strip_cr (split_lf t)"

section \<open>The queue\<close>

definition MAX_EVENTS_PER_FILE :: nat where "MAX_EVENTS_PER_FILE = 1000"
definition MAX_QUEUE_FILES :: nat where "MAX_QUEUE_FILES = 10"
definition PRUNE_AGE :: nat where "PRUNE_AGE = 7 * 24 * 60 * 60 * 1000000000"
definition FILE_PREFIX :: string where "FILE_PREFIX = ''pending-''"
definition FILE_EXTENSION :: string where "FILE_EXTENSION = ''.jsonl''"

definition starts_with :: "string \<Rightarrow> string \<Rightarrow> bool" where
  "starts_with p s \<longleftrightarrow> take (length p) s = p"

definition is_queue_file :: "string \<Rightarrow> bool" where
  "is_queue_file name \<longleftrightarrow> starts_with FILE_PREFIX name \<and> starts_with (rev FILE_EXTENSION) (rev name)"

definition prune_entry :: "nat \<Rightarrow> string \<Rightarrow> ('r, unit) io" where
  "prune_entry now name = io_seq next_entry
     (if \<not> is_queue_file name then io_return ()
      else io_bind (io_try (file_modified name)) (\<lambda>m. case m of
        None \<Rightarrow> io_return ()
      | Some t \<Rightarrow> if t \<le> now \<and> PRUNE_AGE < now - t then remove_file name else io_return ()))"

fun io_for :: "('x \<Rightarrow> ('r, unit) io) \<Rightarrow> 'x list \<Rightarrow> ('r, unit) io" where
  "io_for f [] = io_return ()"
| "io_for f (x # xs) = io_seq (f x) (io_for f xs)"

definition prune :: "nat \<Rightarrow> ('r, unit) io" where
  "prune now = io_bind path_exists (\<lambda>ex.
     if \<not> ex then io_return () else io_bind read_dir (io_for (prune_entry now)))"

fun queue_entries :: "string list \<Rightarrow> ('r, string list) io" where
  "queue_entries [] = io_return []"
| "queue_entries (name # names) = io_seq next_entry
     (io_bind (queue_entries names) (\<lambda>rest. io_return (if is_queue_file name then name # rest else rest)))"

definition list_queue_files :: "('r, string list) io" where
  "list_queue_files = io_bind path_exists (\<lambda>ex.
     if \<not> ex then io_return []
     else io_bind read_dir (\<lambda>names. io_bind (queue_entries names) (\<lambda>files. io_return (sort files))))"

fun remove_oldest :: "string list \<Rightarrow> ('r, unit) io" where
  "remove_oldest [] = io_return ()"
| "remove_oldest (oldest # files) =
     (if MAX_QUEUE_FILES \<le> length (oldest # files) then io_seq (remove_file oldest) (remove_oldest files) else io_return ())"

definition enforce_file_limit :: "('r, unit) io" where
  "enforce_file_limit = io_bind list_queue_files remove_oldest"

definition new_file_name :: "nat \<Rightarrow> string" where
  "new_file_name now = FILE_PREFIX @ show_nat (now div 1000000) @ FILE_EXTENSION"

definition line_count :: "ustr \<Rightarrow> nat" where
  "line_count t = length (filter (\<lambda>l. trim l \<noteq> []) (text_lines t))"

definition find_or_create_target :: "nat \<Rightarrow> ('r, string) io" where
  "find_or_create_target now = io_bind list_queue_files (\<lambda>files.
     if files = [] then io_return (new_file_name now)
     else io_bind (read_to_string (last files)) (\<lambda>content_text.
       if line_count content_text < MAX_EVENTS_PER_FILE then io_return (last files)
       else io_return (new_file_name now)))"

text \<open>The line and its line feed are two writes: \<open>writeln!\<close> on a file is not buffered.\<close>

definition enqueue :: "('r \<Rightarrow> string + ustr) \<Rightarrow> nat \<Rightarrow> 'r \<Rightarrow> ('r, unit) io" where
  "enqueue to_json now request =
     io_seq create_dir_all (
     io_seq (io_try (prune now)) (
     io_seq enforce_file_limit (
     io_bind (find_or_create_target now) (\<lambda>target_file.
       case to_json request of
         Inl e \<Rightarrow> io_fail (''serialize failed: '' @ e)
       | Inr json_line \<Rightarrow>
           io_seq (open_append now target_file) (
           io_seq (write_text now target_file json_line) (
           io_seq (write_text now target_file [10])
           flush))))))"

definition fire_and_forget :: "('r list \<Rightarrow> 'r \<Rightarrow> bool) \<Rightarrow> 'r \<Rightarrow> ('r, bool) io" where
  "fire_and_forget accepts r w fs = (Inr (accepts (offered w) r), w\<lparr>offered := offered w @ [r]\<rparr>, fs)"

fun replay_lines :: "(ustr \<Rightarrow> 'r option) \<Rightarrow> ('r list \<Rightarrow> 'r \<Rightarrow> bool) \<Rightarrow> ustr list \<Rightarrow> nat \<Rightarrow> ('r, nat) io" where
  "replay_lines from_json accepts [] replayed = io_return replayed"
| "replay_lines from_json accepts (l # ls) replayed =
     (let line = trim l
      in if line = [] then replay_lines from_json accepts ls replayed
         else case from_json line of
           None \<Rightarrow> replay_lines from_json accepts ls replayed
         | Some request \<Rightarrow> io_bind (fire_and_forget accepts request) (\<lambda>ok.
             replay_lines from_json accepts ls (if ok then replayed + 1 else replayed)))"

fun replay_files :: "(ustr \<Rightarrow> 'r option) \<Rightarrow> ('r list \<Rightarrow> 'r \<Rightarrow> bool) \<Rightarrow> string list \<Rightarrow> nat \<Rightarrow> ('r, nat) io" where
  "replay_files from_json accepts [] replayed = io_return replayed"
| "replay_files from_json accepts (name # names) replayed =
     io_bind (read_to_string name) (\<lambda>content_text.
     io_bind (replay_lines from_json accepts (text_lines content_text) replayed) (\<lambda>n.
     io_seq (remove_file name) (replay_files from_json accepts names n)))"

definition replay :: "(ustr \<Rightarrow> 'r option) \<Rightarrow> ('r list \<Rightarrow> 'r \<Rightarrow> bool) \<Rightarrow> ('r, nat) io" where
  "replay from_json accepts = io_bind path_exists (\<lambda>ex.
     if \<not> ex then io_return 0
     else io_bind list_queue_files (\<lambda>files. replay_files from_json accepts files 0))"

definition has_pending :: "('r, bool) io" where
  "has_pending = io_bind (io_try list_queue_files) (\<lambda>files.
     io_return (case files of Some fs \<Rightarrow> fs \<noteq> [] | None \<Rightarrow> False))"

end
