(* ===== verification/Event_Queue_Laws.thy ===== *)
theory Event_Queue_Laws
  imports Event_Queue
begin

text \<open>
  The calls of the event queue without faults, the directory as a sorted list of queue files,
  and an enqueue as a step on chunks of events.
\<close>

section \<open>Calls without faults\<close>

lemma calm_io [simp]:
  "io_return b w fs = (Inr b, w, fs)"
  "io_fail e w fs = (Inl e, w, fs)"
  "io_bind m f w [] = (case m w [] of (Inr a, w', fs') \<Rightarrow> f a w' fs' | (Inl e, w', fs') \<Rightarrow> (Inl e, w', fs'))"
  "io_seq m k w [] = (case m w [] of (Inr a, w', fs') \<Rightarrow> k w' fs' | (Inl e, w', fs') \<Rightarrow> (Inl e, w', fs'))"
  "sys g w [] = (case g w of Inl e \<Rightarrow> (Inl e, w, []) | Inr (a, w') \<Rightarrow> (Inr a, w', []))"
  "path_exists w [] = (Inr (dir_exists w), w, [])"
  "next_entry w [] = (Inr (), w, [])"
  "flush w [] = (Inr (), w, [])"
  by (simp_all add: io_return_def io_fail_def io_bind_def io_seq_def sys_def path_exists_def next_entry_def flush_def
      split: sum.splits prod.splits)

lemma calm_files [simp]:
  "create_dir_all w [] = (Inr (), w\<lparr>dir_exists := True\<rparr>, [])"
  "dir_exists w \<Longrightarrow> read_dir w [] = (Inr (map fst (dir_files w)), w, [])"
  "hm_get (dir_files w) name = Some f \<Longrightarrow> file_modified name w [] = (Inr (modified f), w, [])"
  "hm_get (dir_files w) name = Some f \<Longrightarrow> read_to_string name w [] = (Inr (file_text f), w, [])"
  "hm_get (dir_files w) name = Some f \<Longrightarrow> remove_file name w [] = (Inr (), w\<lparr>dir_files := hm_remove name (dir_files w)\<rparr>, [])"
  "hm_get (dir_files w) name = Some f \<Longrightarrow> open_append now name w [] = (Inr (), w, [])"
  "hm_get (dir_files w) name = None \<Longrightarrow> open_append now name w [] =
     (Inr (), w\<lparr>dir_files := hm_insert name \<lparr>file_text = [], modified = now\<rparr> (dir_files w)\<rparr>, [])"
  "hm_get (dir_files w) name = Some f \<Longrightarrow> write_text now name t w [] =
     (Inr (), w\<lparr>dir_files := hm_insert name \<lparr>file_text = file_text f @ t, modified = now\<rparr> (dir_files w)\<rparr>, [])"
  by (simp_all add: create_dir_all_def read_dir_def file_modified_def read_to_string_def remove_file_def open_append_def
      write_text_def)

section \<open>The directory as a sorted list of queue files\<close>

definition view :: "(string, queue_file) hmap \<Rightarrow> (string \<times> queue_file) list" where
  "view d = sort_key fst (filter (\<lambda>nf. is_queue_file (fst nf)) d)"

lemma map_insort_fst: "(\<And>x. fst (g x) = fst x) \<Longrightarrow> insort_key fst (g x) (map g xs) = map g (insort_key fst x xs)"
  by (induction xs) auto

lemma sort_map_fst: "(\<And>x. fst (g x) = fst x) \<Longrightarrow> sort_key fst (map g xs) = map g (sort_key fst xs)"
  by (induction xs) (simp_all add: map_insort_fst)

lemma map_fst_insort: "map fst (insort_key fst x xs) = insort (fst x) (map fst xs)"
  by (induction xs) auto

lemma map_fst_sort: "map fst (sort_key fst xs) = sort (map fst xs)"
  by (induction xs) (simp_all add: map_fst_insort)

lemma view_names: "sort (filter is_queue_file (map fst d)) = map fst (view d)"
  by (simp add: view_def map_fst_sort filter_map comp_def)

lemma view_set: "set (view d) = {(n, f) \<in> set d. is_queue_file n}"
  by (auto simp: view_def)

lemma view_get: "hm_ok d \<Longrightarrow> (n, f) \<in> set (view d) \<longleftrightarrow> hm_get d n = Some f \<and> is_queue_file n"
  by (auto simp: view_set hm_ok_def)

lemma view_distinct: "hm_ok d \<Longrightarrow> distinct (map fst (view d)) \<and> distinct (view d)"
  using distinct_map_filter [of fst d "\<lambda>nf. is_queue_file (fst nf)"]
  by (simp add: view_def map_fst_sort hm_ok_def distinct_map)

lemma view_filter: "view (filter (\<lambda>nf. is_queue_file (fst nf) \<longrightarrow> K nf) d) = filter K (view d)"
proof -
  have "filter (\<lambda>nf. is_queue_file (fst nf)) (filter (\<lambda>nf. is_queue_file (fst nf) \<longrightarrow> K nf) d) =
    filter K (filter (\<lambda>nf. is_queue_file (fst nf)) d)"
    by (simp add: filter_filter conj_commute cong: conj_cong)
  then show ?thesis by (simp add: view_def filter_sort)
qed

lemma update_present:
  "hm_ok d \<Longrightarrow> hm_get d n = Some g \<Longrightarrow> hm_insert n f d = map (\<lambda>nf. if fst nf = n then (n, f) else nf) d"
proof (induction d)
  case (Cons x d)
  show ?case
  proof (cases "fst x = n")
    case True
    then have "n \<notin> fst ` set d" using Cons.prems(1) by (auto simp: hm_ok_def)
    then have "map (\<lambda>nf. if fst nf = n then (n, f) else nf) d = d" by (intro map_idI) force
    then show ?thesis using True by (cases x) simp
  next
    case False
    then show ?thesis using Cons by (cases x) (auto simp: hm_ok_def)
  qed
qed simp

lemma view_update:
  assumes "hm_ok d" and "hm_get d n = Some g"
  shows "view (hm_insert n f d) = map (\<lambda>nf. if fst nf = n then (n, f) else nf) (view d)"
proof -
  let ?g = "\<lambda>nf :: string \<times> queue_file. if fst nf = n then (n, f) else nf"
  have g: "fst (?g x) = fst x" for x by simp
  have "filter (\<lambda>nf. is_queue_file (fst nf)) (map ?g d) = map ?g (filter (\<lambda>nf. is_queue_file (fst nf)) d)"
    by (simp add: filter_map comp_def g cong: filter_cong if_cong)
  then show ?thesis unfolding update_present [OF assms] view_def by (simp only: sort_map_fst [OF g])
qed

lemma insort_last: "fst y < fst x \<Longrightarrow> insort_key fst y (ys @ [x]) = insort_key fst y ys @ [x]"
  by (induction ys) auto

lemma sort_last: "\<forall>y \<in> set ys. fst y < fst x \<Longrightarrow> sort_key fst (ys @ [x]) = sort_key fst ys @ [x]"
  by (induction ys) (simp_all add: insort_last)

lemma update_absent: "hm_get d n = None \<Longrightarrow> hm_insert n f d = d @ [(n, f)]"
  by (induction d) auto

lemma view_insert:
  assumes "hm_get d n = None" and "is_queue_file n" and "\<forall>x \<in> set (view d). fst x < n"
  shows "view (hm_insert n f d) = view d @ [(n, f)]"
  unfolding update_absent [OF assms(1)] using assms(2,3) by (simp add: view_def sort_last)


lemma remove_filter: "hm_remove n d = filter (\<lambda>nf. fst nf \<noteq> n) d"
  by (induction d) auto

lemma hm_ok_filtered: "hm_ok d \<Longrightarrow> hm_ok (filter P d)"
  by (simp add: hm_ok_def distinct_map_filter)

lemma get_filter: "hm_ok d \<Longrightarrow> hm_get (filter P d) n = (case hm_get d n of None \<Rightarrow> None | Some f \<Rightarrow> if P (n, f) then Some f else None)"
  by (induction d) (auto simp: hm_ok_def map_of_eq_None_iff split: option.splits)

lemma get_set: "hm_ok d \<Longrightarrow> (n, f) \<in> set d \<longleftrightarrow> hm_get d n = Some f"
  by (simp add: hm_ok_def)

section \<open>Pruning and the limit on files\<close>

definition expired :: "nat \<Rightarrow> queue_file \<Rightarrow> bool" where
  "expired now f \<longleftrightarrow> modified f \<le> now \<and> PRUNE_AGE < now - modified f"

lemma calm_prune_entry:
  assumes "hm_ok (dir_files w)" and "hm_get (dir_files w) n = Some f"
  shows "prune_entry now n w [] =
    (Inr (), w\<lparr>dir_files := filter (\<lambda>nf. fst nf = n \<and> is_queue_file (fst nf) \<longrightarrow> \<not> expired now (snd nf)) (dir_files w)\<rparr>, [])"
proof -
  have same: "filter (\<lambda>nf. fst nf = n \<and> is_queue_file (fst nf) \<longrightarrow> \<not> expired now (snd nf)) (dir_files w) = dir_files w"
    if "\<not> (is_queue_file n \<and> expired now f)"
    using that get_set [OF assms(1), of n] assms(2) by (auto simp: filter_id_conv)
  have gone: "filter (\<lambda>nf. fst nf = n \<and> is_queue_file (fst nf) \<longrightarrow> \<not> expired now (snd nf)) (dir_files w) =
      filter (\<lambda>nf. fst nf \<noteq> n) (dir_files w)"
    if "is_queue_file n \<and> expired now f"
    using that get_set [OF assms(1), of n] assms(2) by (intro filter_cong) auto
  show ?thesis using assms(2) same gone
    by (auto simp: prune_entry_def io_try_def expired_def remove_filter)
qed

lemma calm_prune_loop:
  "distinct names \<Longrightarrow> hm_ok (dir_files w) \<Longrightarrow> \<forall>n \<in> set names. hm_get (dir_files w) n \<noteq> None \<Longrightarrow>
   io_for (prune_entry now) names w [] =
     (Inr (), w\<lparr>dir_files := filter (\<lambda>nf. fst nf \<in> set names \<and> is_queue_file (fst nf) \<longrightarrow> \<not> expired now (snd nf)) (dir_files w)\<rparr>, [])"
proof (induction names arbitrary: w)
  case Nil
  then show ?case by simp
next
  case (Cons n names)
  then obtain f where f: "hm_get (dir_files w) n = Some f" by auto
  let ?d = "filter (\<lambda>nf. fst nf = n \<and> is_queue_file (fst nf) \<longrightarrow> \<not> expired now (snd nf)) (dir_files w)"
  have "\<forall>m \<in> set names. hm_get ?d m \<noteq> None"
  proof
    fix m assume m: "m \<in> set names"
    then obtain g where "hm_get (dir_files w) m = Some g" using Cons.prems(3) by auto
    then show "hm_get ?d m \<noteq> None" using m Cons.prems(1) get_filter [OF Cons.prems(2)] by auto
  qed
  then show ?case
    using Cons.IH [of "w\<lparr>dir_files := ?d\<rparr>"] Cons.prems calm_prune_entry [OF Cons.prems(2) f] hm_ok_filtered [OF Cons.prems(2)]
    by (auto intro!: arg_cong [of _ _ "\<lambda>d. w\<lparr>dir_files := d\<rparr>"] filter_cong simp: conj_commute)
qed

lemma calm_prune:
  assumes "dir_exists w" and "hm_ok (dir_files w)"
  shows "prune now w [] =
    (Inr (), w\<lparr>dir_files := filter (\<lambda>nf. is_queue_file (fst nf) \<longrightarrow> \<not> expired now (snd nf)) (dir_files w)\<rparr>, [])"
proof -
  have "distinct (map fst (dir_files w))" using assms(2) by (simp add: hm_ok_def)
  then show ?thesis using calm_prune_loop [of "map fst (dir_files w)" w now] assms
    by (auto simp: prune_def map_of_eq_None_iff intro!: arg_cong [of _ _ "\<lambda>d. w\<lparr>dir_files := d\<rparr>"] filter_cong)
qed

lemma calm_queue_entries: "queue_entries names w [] = (Inr (filter is_queue_file names), w, [])"
  by (induction names) simp_all

lemma calm_list: "dir_exists w \<Longrightarrow> list_queue_files w [] = (Inr (map fst (view (dir_files w))), w, [])"
  by (simp add: list_queue_files_def calm_queue_entries view_names)

lemma calm_remove_oldest:
  "distinct names \<Longrightarrow> hm_ok (dir_files w) \<Longrightarrow> \<forall>n \<in> set names. hm_get (dir_files w) n \<noteq> None \<Longrightarrow>
   remove_oldest names w [] =
     (Inr (), w\<lparr>dir_files := filter (\<lambda>nf. fst nf \<notin> set (take (length names - 9) names)) (dir_files w)\<rparr>, [])"
proof (induction names arbitrary: w)
  case Nil
  then show ?case by simp
next
  case (Cons n names)
  then obtain f where f: "hm_get (dir_files w) n = Some f" by auto
  show ?case
  proof (cases "MAX_QUEUE_FILES \<le> length (n # names)")
    case True
    then have len: "length (n # names) - 9 = Suc (length names - 9)" by (simp add: MAX_QUEUE_FILES_def)
    let ?d = "hm_remove n (dir_files w)"
    have "\<forall>m \<in> set names. hm_get ?d m \<noteq> None" using Cons.prems(1,3) by (auto simp: delete_conv')
    moreover have "hm_ok ?d" using Cons.prems(2) hm_ok_filtered by (simp add: remove_filter)
    ultimately have "remove_oldest names (w\<lparr>dir_files := ?d\<rparr>) [] =
        (Inr (), w\<lparr>dir_files := filter (\<lambda>nf. fst nf \<notin> set (take (length names - 9) names)) ?d\<rparr>, [])"
      using Cons.IH [of "w\<lparr>dir_files := ?d\<rparr>"] Cons.prems(1) by simp
    moreover have "filter (\<lambda>nf. fst nf \<notin> set (take (length names - 9) names)) ?d =
        filter (\<lambda>nf. fst nf \<notin> set (take (length (n # names) - 9) (n # names))) (dir_files w)"
      unfolding len remove_filter filter_filter by (rule filter_cong) auto
    ultimately show ?thesis using True f by (simp del: take_Suc_Cons)
  next
    case False
    then show ?thesis by (simp add: MAX_QUEUE_FILES_def)
  qed
qed

lemma drop_by_names: "distinct (map fst xs) \<Longrightarrow> filter (\<lambda>x. fst x \<notin> set (take k (map fst xs))) xs = drop k xs"
proof (induction xs arbitrary: k)
  case (Cons x xs)
  show ?case
  proof (cases k)
    case (Suc m)
    have "filter (\<lambda>y. fst y \<notin> set (take (Suc m) (map fst (x # xs)))) xs = filter (\<lambda>y. fst y \<notin> set (take m (map fst xs))) xs"
      using Cons.prems by (intro filter_cong refl) (auto intro: rev_image_eqI)
    then show ?thesis using Suc Cons by simp
  qed simp
qed simp

lemma calm_enforce:
  assumes "dir_exists w" and "hm_ok (dir_files w)"
  shows "\<exists>d. enforce_file_limit w [] = (Inr (), w\<lparr>dir_files := d\<rparr>, []) \<and> hm_ok d \<and> set d \<subseteq> set (dir_files w) \<and>
    view d = drop (length (view (dir_files w)) - 9) (view (dir_files w))"
proof -
  let ?v = "view (dir_files w)"
  let ?K = "\<lambda>nf. fst nf \<notin> set (take (length ?v - 9) (map fst ?v))"
  have dist: "distinct (map fst ?v)" using view_distinct [OF assms(2)] by simp
  have mem: "\<forall>n \<in> set (map fst ?v). hm_get (dir_files w) n \<noteq> None \<and> is_queue_file n"
    using view_get [OF assms(2)] by force
  have "filter ?K (dir_files w) = filter (\<lambda>nf. is_queue_file (fst nf) \<longrightarrow> ?K nf) (dir_files w)"
    using mem set_take_subset [of "length ?v - 9" "map fst ?v"] by (intro filter_cong) blast+
  then have "view (filter ?K (dir_files w)) = filter ?K ?v" by (simp only: view_filter)
  then have "view (filter ?K (dir_files w)) = drop (length ?v - 9) ?v" using drop_by_names [OF dist] by simp
  moreover have "enforce_file_limit w [] = (Inr (), w\<lparr>dir_files := filter ?K (dir_files w)\<rparr>, [])"
    using calm_remove_oldest [OF dist assms(2)] mem by (simp add: enforce_file_limit_def calm_list assms(1))
  ultimately show ?thesis using hm_ok_filtered [OF assms(2), of ?K] by (intro exI [of _ "filter ?K (dir_files w)"]) auto
qed


section \<open>Lines of a file\<close>

definition complete :: "ustr \<Rightarrow> bool" where
  "complete t \<longleftrightarrow> t = [] \<or> last t = 10"

lemma split_lf_Nil: "split_lf t = [] \<longleftrightarrow> t = []"
  by (cases t) (auto split: list.splits)

lemma split_lf_append: "complete a \<Longrightarrow> split_lf (a @ b) = split_lf a @ split_lf b"
proof (induction a)
  case (Cons c cs)
  then have "complete cs" by (auto simp: complete_def split: if_splits)
  with Cons show ?case
    by (cases "cs = []") (auto simp: complete_def split_lf_Nil Cons_eq_append_conv split: list.splits)
qed simp

lemma split_lf_line: "10 \<notin> set l \<Longrightarrow> split_lf (l @ [10]) = [l]"
  by (induction l) auto

text \<open>What the code relies on of the JSON of a request.\<close>

definition json_ok :: "('r \<Rightarrow> string + ustr) \<Rightarrow> (ustr \<Rightarrow> 'r option) \<Rightarrow> bool" where
  "json_ok to_json from_json \<longleftrightarrow> (\<forall>r l. to_json r = Inr l \<longrightarrow> from_json l = Some r \<and> l \<noteq> [] \<and> 10 \<notin> set l \<and>
     \<not> is_whitespace (hd l) \<and> \<not> is_whitespace (last l))"

lemma trim_line: "l \<noteq> [] \<Longrightarrow> \<not> is_whitespace (hd l) \<Longrightarrow> \<not> is_whitespace (last l) \<Longrightarrow> trim l = l"
  by (simp add: trim_def dropWhile_eq_self_iff [THEN iffD2] hd_rev)

definition parse_line :: "(ustr \<Rightarrow> 'r option) \<Rightarrow> ustr \<Rightarrow> 'r option" where
  "parse_line from_json l = (if trim l = [] then None else from_json (trim l))"

definition parsed :: "(ustr \<Rightarrow> 'r option) \<Rightarrow> ustr \<Rightarrow> 'r list" where
  "parsed from_json t = List.map_filter (parse_line from_json) (text_lines t)"

text \<open>Every line is complete, and every line that is not blank is an event.\<close>

definition good_file :: "(ustr \<Rightarrow> 'r option) \<Rightarrow> queue_file \<Rightarrow> bool" where
  "good_file from_json f \<longleftrightarrow> complete (file_text f) \<and> line_count (file_text f) = length (parsed from_json (file_text f))"

lemma append_event:
  assumes "json_ok to_json from_json" and "to_json r = Inr l" and "complete t"
  shows "complete (t @ l @ [10])" and "line_count (t @ l @ [10]) = Suc (line_count t)"
    and "parsed from_json (t @ l @ [10]) = parsed from_json t @ [r]"
proof -
  have l: "from_json l = Some r" "l \<noteq> []" "10 \<notin> set l" "\<not> is_whitespace (hd l)" "\<not> is_whitespace (last l)"
    using assms(1,2) by (auto simp: json_ok_def)
  have "strip_cr l = l" using l(5) by (auto simp: strip_cr_def is_whitespace_def)
  then have lines: "text_lines (t @ l @ [10]) = text_lines t @ [l]"
    unfolding text_lines_def split_lf_append [OF assms(3)] split_lf_line [OF l(3)] by simp
  show "complete (t @ l @ [10])" by (simp add: complete_def)
  show "line_count (t @ l @ [10]) = Suc (line_count t)"
    using trim_line [OF l(2,4,5)] l(2) by (simp add: line_count_def lines)
  show "parsed from_json (t @ l @ [10]) = parsed from_json t @ [r]"
    using trim_line [OF l(2,4,5)] l(1,2) by (simp add: parsed_def lines parse_line_def map_filter_def)
qed

section \<open>An enqueue, as a step on chunks of events\<close>

type_synonym 'r chunk = "string \<times> nat \<times> 'r list"

definition chunk_of :: "(ustr \<Rightarrow> 'r option) \<Rightarrow> string \<times> queue_file \<Rightarrow> 'r chunk" where
  "chunk_of from_json nf = (fst nf, modified (snd nf), parsed from_json (file_text (snd nf)))"

definition chunks :: "(ustr \<Rightarrow> 'r option) \<Rightarrow> 'r queue_world \<Rightarrow> 'r chunk list" where
  "chunks from_json w = map (chunk_of from_json) (view (dir_files w))"

definition old_chunk :: "nat \<Rightarrow> 'r chunk \<Rightarrow> bool" where
  "old_chunk now c \<longleftrightarrow> fst (snd c) \<le> now \<and> PRUNE_AGE < now - fst (snd c)"

definition add_event :: "nat \<Rightarrow> 'r \<Rightarrow> 'r chunk list \<Rightarrow> 'r chunk list" where
  "add_event now r cs =
     (if cs = [] \<or> MAX_EVENTS_PER_FILE \<le> length (snd (snd (last cs))) then cs @ [(new_file_name now, now, [r])]
      else butlast cs @ [(fst (last cs), now, snd (snd (last cs)) @ [r])])"

text \<open>The abstract enqueue: forget old chunks, keep nine, add the event to the last or to a new one.\<close>

definition chunk_enqueue :: "nat \<Rightarrow> 'r \<Rightarrow> 'r chunk list \<Rightarrow> 'r chunk list" where
  "chunk_enqueue now r cs =
     (let young = filter (\<lambda>c. \<not> old_chunk now c) cs in add_event now r (drop (length young - 9) young))"

definition queue_ok :: "(ustr \<Rightarrow> 'r option) \<Rightarrow> 'r queue_world \<Rightarrow> bool" where
  "queue_ok from_json w \<longleftrightarrow> hm_ok (dir_files w) \<and> (\<forall>nf \<in> set (view (dir_files w)). good_file from_json (snd nf))"

lemma update_update: "hm_insert k v (hm_insert k u d) = hm_insert k v d"
  by (induction d) auto

lemma hm_ok_insert: "hm_ok d \<Longrightarrow> hm_ok (hm_insert k v d)"
  by (simp add: hm_ok_def distinct_update)

definition write_event :: "nat \<Rightarrow> string \<Rightarrow> ustr \<Rightarrow> ('r, unit) io" where
  "write_event now n l = io_seq (open_append now n) (io_seq (write_text now n l) (io_seq (write_text now n [10]) flush))"

lemma calm_write_event:
  "write_event now n l w [] = (Inr (), w\<lparr>dir_files := hm_insert n
     \<lparr>file_text = (case hm_get (dir_files w) n of None \<Rightarrow> [] | Some f \<Rightarrow> file_text f) @ l @ [10], modified = now\<rparr> (dir_files w)\<rparr>, [])"
  by (cases "hm_get (dir_files w) n") (simp_all add: write_event_def update_conv' update_update)

lemma new_file_is_queue_file: "is_queue_file (new_file_name now)"
  by (simp add: is_queue_file_def new_file_name_def starts_with_def FILE_PREFIX_def FILE_EXTENSION_def)

lemma map_last_unique:
  "xs \<noteq> [] \<Longrightarrow> distinct (map fst xs) \<Longrightarrow> map (\<lambda>x. if fst x = fst (last xs) then y else x) xs = butlast xs @ [y]"
proof (induction xs)
  case (Cons x xs)
  show ?case
  proof (cases "xs = []")
    case False
    then have "fst x \<noteq> fst (last xs)" using Cons.prems(2) last_in_set [OF False] by auto
    then show ?thesis using Cons False by simp
  qed simp
qed simp


lemma enqueue_write:
  "to_json r = Inr l \<Longrightarrow> enqueue to_json now r = io_seq create_dir_all (io_seq (io_try (prune now)) (io_seq enforce_file_limit
     (io_bind (find_or_create_target now) (\<lambda>n. write_event now n l))))"
  by (simp add: enqueue_def write_event_def)

lemma calm_target:
  assumes "dir_exists w" and "hm_ok (dir_files w)" and "v = view (dir_files w)"
  shows "find_or_create_target now w [] =
    (Inr (if v = [] \<or> MAX_EVENTS_PER_FILE \<le> line_count (file_text (snd (last v))) then new_file_name now else fst (last v)), w, [])"
proof (cases "v = []")
  case True
  then show ?thesis using assms by (simp add: find_or_create_target_def calm_list)
next
  case False
  then have "hm_get (dir_files w) (fst (last v)) = Some (snd (last v))"
    using view_get [OF assms(2), of "fst (last v)" "snd (last v)"] last_in_set [OF False] assms(3) by simp
  then show ?thesis using False assms by (simp add: find_or_create_target_def calm_list last_map)
qed

lemma add_event_step:
  assumes "hm_ok d" and "\<forall>nf \<in> set (view d). good_file from_json (snd nf)" and "\<forall>nf \<in> set (view d). fst nf < new_file_name now"
    and "json_ok to_json from_json" and "to_json r = Inr l"
    and n: "n = (if view d = [] \<or> MAX_EVENTS_PER_FILE \<le> line_count (file_text (snd (last (view d)))) then new_file_name now
               else fst (last (view d)))"
    and d': "d' = hm_insert n \<lparr>file_text = (case hm_get d n of None \<Rightarrow> [] | Some f \<Rightarrow> file_text f) @ l @ [10], modified = now\<rparr> d"
  shows "map (chunk_of from_json) (view d') = add_event now r (map (chunk_of from_json) (view d))"
    and "\<forall>nf \<in> set (view d'). good_file from_json (snd nf)"
proof -
  let ?v = "view d"
  note ae = append_event [OF assms(4,5)]
  have count: "line_count (file_text (snd (last ?v))) = length (snd (snd (last (map (chunk_of from_json) ?v))))" if "?v \<noteq> []"
    using assms(2) last_in_set [OF that] that by (auto simp: last_map chunk_of_def good_file_def)
  have "map (chunk_of from_json) (view d') = add_event now r (map (chunk_of from_json) ?v) \<and>
    (\<forall>nf \<in> set (view d'). good_file from_json (snd nf))"
  proof (cases "?v = [] \<or> MAX_EVENTS_PER_FILE \<le> line_count (file_text (snd (last ?v)))")
    case True
    with n have n: "n = new_file_name now" by simp
    have none: "hm_get d n = None"
      using assms(3) view_get [OF assms(1), of n] new_file_is_queue_file n by (cases "hm_get d n") fastforce+
    have "view d' = ?v @ [(n, \<lparr>file_text = l @ [10], modified = now\<rparr>)]"
      using view_insert [OF none, of "\<lparr>file_text = l @ [10], modified = now\<rparr>"] assms(3) new_file_is_queue_file
      by (simp add: d' none [unfolded n] n)
    moreover have "parsed from_json [] = []" "line_count [] = 0" "complete []"
      by (simp_all add: parsed_def line_count_def text_lines_def complete_def map_filter_def)
    ultimately show ?thesis using True count assms(2) ae [of "[]"] n
      by (auto simp: add_event_def chunk_of_def good_file_def)
  next
    case False
    then have ne: "?v \<noteq> []" and n: "n = fst (last ?v)" using assms(6) by auto
    have some: "hm_get d n = Some (snd (last ?v))"
      using view_get [OF assms(1), of n "snd (last ?v)"] last_in_set [OF ne] n by simp
    have good: "good_file from_json (snd (last ?v))" using assms(2) last_in_set [OF ne] by blast
    let ?f = "\<lparr>file_text = file_text (snd (last ?v)) @ l @ [10], modified = now\<rparr>"
    have v: "view d' = butlast ?v @ [(n, ?f)]"
      using view_update [OF assms(1) some, of ?f] map_last_unique [OF ne, of "(n, ?f)"] view_distinct [OF assms(1)]
      by (simp add: d' some [unfolded n] n)
    have "add_event now r (map (chunk_of from_json) ?v) = map (chunk_of from_json) (butlast ?v) @ [(n, now, parsed from_json (file_text ?f))]"
      using False count ne ae(3) [of "file_text (snd (last ?v))"] good n
      by (auto simp: add_event_def last_map map_butlast chunk_of_def good_file_def)
    moreover have "good_file from_json ?f" using ae [of "file_text (snd (last ?v))"] good by (simp add: good_file_def)
    ultimately show ?thesis using v assms(2) by (auto simp: chunk_of_def dest: in_set_butlastD)
  qed
  then show "map (chunk_of from_json) (view d') = add_event now r (map (chunk_of from_json) ?v)"
    and "\<forall>nf \<in> set (view d'). good_file from_json (snd nf)" by blast+
qed

lemma enqueue_chunks:
  assumes "queue_ok from_json w" and "json_ok to_json from_json" and "to_json r = Inr l"
    and "\<forall>c \<in> set (chunks from_json w). fst c < new_file_name now"
  shows "\<exists>w'. enqueue to_json now r w [] = (Inr (), w', []) \<and> queue_ok from_json w' \<and> offered w' = offered w \<and> dir_exists w' \<and>
    chunks from_json w' = chunk_enqueue now r (chunks from_json w)"
proof -
  define w1 where "w1 = w\<lparr>dir_exists := True, dir_files := filter (\<lambda>nf. is_queue_file (fst nf) \<longrightarrow> \<not> expired now (snd nf)) (dir_files w)\<rparr>"
  have ok: "hm_ok (dir_files w)" and good: "\<forall>nf \<in> set (view (dir_files w)). good_file from_json (snd nf)"
    using assms(1) by (simp_all add: queue_ok_def)
  have prune: "prune now (w\<lparr>dir_exists := True\<rparr>) [] = (Inr (), w1, [])"
    using calm_prune [of "w\<lparr>dir_exists := True\<rparr>" now] ok by (simp add: w1_def)
  have v1: "view (dir_files w1) = filter (\<lambda>nf. \<not> expired now (snd nf)) (view (dir_files w))"
    by (simp add: w1_def view_filter)
  have ok1: "dir_exists w1" "hm_ok (dir_files w1)" using ok by (simp_all add: w1_def hm_ok_filtered)
  from calm_enforce [OF ok1] obtain d where d: "enforce_file_limit w1 [] = (Inr (), w1\<lparr>dir_files := d\<rparr>, [])" "hm_ok d"
    "view d = drop (length (view (dir_files w1)) - 9) (view (dir_files w1))" by blast
  have sub: "set (view d) \<subseteq> set (view (dir_files w))"
    unfolding d(3) v1 using set_drop_subset [of _ "filter _ (view (dir_files w))"] by fastforce
  define n where "n = (if view d = [] \<or> MAX_EVENTS_PER_FILE \<le> line_count (file_text (snd (last (view d)))) then new_file_name now
    else fst (last (view d)))"
  define d' where "d' = hm_insert n \<lparr>file_text = (case hm_get d n of None \<Rightarrow> [] | Some f \<Rightarrow> file_text f) @ l @ [10], modified = now\<rparr> d"
  have run: "enqueue to_json now r w [] = (Inr (), w1\<lparr>dir_files := d'\<rparr>, [])"
    unfolding enqueue_write [of to_json r l now, OF assms(3)]
    using prune d calm_target [of "w1\<lparr>dir_files := d\<rparr>" "view d" now] ok1
    by (simp add: io_try_def calm_write_event n_def d'_def)
  have names: "\<forall>nf \<in> set (view d). fst nf < new_file_name now"
    using sub assms(4) by (auto simp: chunks_def chunk_of_def)
  have good_d: "\<forall>nf \<in> set (view d). good_file from_json (snd nf)" using sub good by blast
  note step = add_event_step [OF d(2) good_d names assms(2,3) n_def d'_def]
  have "chunk_enqueue now r (chunks from_json w) = add_event now r (map (chunk_of from_json) (view d))"
    by (simp add: chunk_enqueue_def chunks_def d(3) v1 filter_map comp_def drop_map old_chunk_def chunk_of_def expired_def)
  then show ?thesis using run step hm_ok_insert [OF d(2)] ok1
    by (intro exI [of _ "w1\<lparr>dir_files := d'\<rparr>"]) (simp add: queue_ok_def chunks_def d'_def w1_def)
qed


end
