(* ===== verification/Event_Queue_Props.thy ===== *)
theory Event_Queue_Props
  imports Event_Queue_Laws
begin

text \<open>
  Properties of the event queue: an enqueue refines a list of chunks of events; what is queued
  is replayed in order; and whatever fails, a replay forgets no event it has not offered.
\<close>

section \<open>Replay\<close>

definition pending :: "(ustr \<Rightarrow> 'r option) \<Rightarrow> 'r queue_world \<Rightarrow> 'r list" where
  "pending from_json w = concat (map (\<lambda>c. snd (snd c)) (chunks from_json w))"

fun accepted_count :: "('r list \<Rightarrow> 'r \<Rightarrow> bool) \<Rightarrow> 'r list \<Rightarrow> 'r list \<Rightarrow> nat" where
  "accepted_count accepts sent [] = 0"
| "accepted_count accepts sent (r # rs) = (if accepts sent r then 1 else 0) + accepted_count accepts (sent @ [r]) rs"

lemma accepted_count_append:
  "accepted_count accepts sent (rs @ ss) = accepted_count accepts sent rs + accepted_count accepts (sent @ rs) ss"
  by (induction rs arbitrary: sent) simp_all

lemma replay_lines_result:
  "replay_lines from_json accepts ls n w fs =
     (let rs = List.map_filter (parse_line from_json) ls
      in (Inr (n + accepted_count accepts (offered w) rs), w\<lparr>offered := offered w @ rs\<rparr>, fs))"
  by (induction ls arbitrary: n w)
    (auto simp: io_bind_def fire_and_forget_def parse_line_def map_filter_def io_return_def Let_def split: option.splits)

lemma sys_cases:
  assumes "sys f w fs = (res, w', fs')"
  shows "(\<exists>e. res = Inl e \<and> w' = w) \<or> (\<exists>a. f w = Inr (a, w') \<and> res = Inr a)"
  using assms by (auto simp: sys_def split: list.splits option.splits sum.splits prod.splits)

lemma list_queue_files_cases:
  assumes "list_queue_files w fs = (res, w', fs')"
  shows "w' = w \<and> (\<forall>files. res = Inr files \<longrightarrow> files = [] \<or> files = map fst (view (dir_files w)))"
proof -
  have entries: "queue_entries names w gs = (r, w1, gs') \<Longrightarrow> w1 = w \<and> (\<forall>files. r = Inr files \<longrightarrow> files = filter is_queue_file names)"
    for names gs r w1 gs'
    by (induction names arbitrary: gs r w1 gs')
      (auto simp: io_bind_def io_seq_def io_return_def next_entry_def dest!: sys_cases split: prod.splits sum.splits)
  show ?thesis using assms
    by (auto simp: list_queue_files_def io_bind_def path_exists_def io_return_def read_dir_def view_names
        dest!: sys_cases entries split: prod.splits sum.splits if_splits)
qed


abbreviation events_of :: "(ustr \<Rightarrow> 'r option) \<Rightarrow> (string \<times> queue_file) list \<Rightarrow> 'r list" where
  "events_of from_json v \<equiv> concat (map (\<lambda>nf. parsed from_json (file_text (snd nf))) v)"

definition faulty :: "string option list \<Rightarrow> bool" where
  "faulty fs \<longleftrightarrow> (\<exists>e gs. fs = Some e # gs)"

lemma faulty_simps [simp]: "\<not> faulty []" "\<not> faulty (None # gs)" "faulty (Some e # gs)"
  by (simp_all add: faulty_def)

lemma fault_cases: obtains "fs = []" | gs where "fs = None # gs" | e gs where "fs = Some e # gs"
proof (cases fs)
  case (Cons x gs)
  then show ?thesis using that by (cases x) auto
qed (use that in simp)

lemma sys_calm: "\<not> faulty fs \<Longrightarrow> sys f w fs = (case f w of Inl e \<Rightarrow> (Inl e, w, tl fs) | Inr (a, w') \<Rightarrow> (Inr a, w', tl fs))"
  by (cases fs rule: fault_cases) (simp_all add: sys_def split: sum.split prod.split)

lemma sys_faulty: "faulty fs \<Longrightarrow> \<exists>e. sys f w fs = (Inl e, w, tl fs)"
  by (cases fs rule: fault_cases) (simp_all add: sys_def)

lemma path_exists_result: "path_exists w fs = (Inr (\<not> faulty fs \<and> dir_exists w), w, tl fs)"
  by (cases fs rule: fault_cases) (simp_all add: path_exists_def)

lemma read_result:
  assumes "hm_get (dir_files w) n = Some f"
  shows "\<not> faulty fs \<Longrightarrow> read_to_string n w fs = (Inr (file_text f), w, tl fs)"
    and "faulty fs \<Longrightarrow> \<exists>e. read_to_string n w fs = (Inl e, w, tl fs)"
  using assms by (simp_all add: read_to_string_def sys_calm sys_faulty)

lemma remove_result:
  assumes "hm_get (dir_files w) n = Some f"
  shows "\<not> faulty fs \<Longrightarrow> remove_file n w fs = (Inr (), w\<lparr>dir_files := hm_remove n (dir_files w)\<rparr>, tl fs)"
    and "faulty fs \<Longrightarrow> \<exists>e. remove_file n w fs = (Inl e, w, tl fs)"
  using assms by (simp_all add: remove_file_def sys_calm sys_faulty)

lemma replay_files_cases:
  assumes "replay_files from_json accepts (map fst v) k w fs = (res, w', fs')" and "hm_ok (dir_files w)"
    and "distinct (map fst v)" and "\<forall>nf \<in> set v. hm_get (dir_files w) (fst nf) = Some (snd nf)"
  shows "\<exists>i j. i \<le> j \<and> j \<le> length v \<and> dir_files w' = filter (\<lambda>nf. fst nf \<notin> set (take i (map fst v))) (dir_files w) \<and>
    offered w' = offered w @ events_of from_json (take j v) \<and>
    (\<forall>n. res = Inr n \<longrightarrow> i = length v \<and> j = length v \<and> n = k + accepted_count accepts (offered w) (events_of from_json v)) \<and>
    (fs = [] \<longrightarrow> (\<exists>n. res = Inr n) \<and> fs' = [])"
  using assms
proof (induction v arbitrary: k w fs)
  case Nil
  then show ?case by (auto simp: io_return_def)
next
  case (Cons x v)
  let ?n = "fst x" and ?t = "file_text (snd x)" and ?r = "parsed from_json (file_text (snd x))"
  let ?w1 = "w\<lparr>offered := offered w @ ?r\<rparr>"
  let ?w2 = "?w1\<lparr>dir_files := hm_remove ?n (dir_files w)\<rparr>"
  have get: "hm_get (dir_files w) ?n = Some (snd x)" using Cons.prems(4) by simp
  have lines: "replay_lines from_json accepts (text_lines ?t) k w gs =
      (Inr (k + accepted_count accepts (offered w) ?r), ?w1, gs)" for gs
    by (simp add: replay_lines_result parsed_def Let_def)
  consider (read) e gs where "read_to_string ?n w fs = (Inl e, w, gs)" "res = Inl e" "w' = w" "fs \<noteq> []"
    | (remove) gs e gs' where "read_to_string ?n w fs = (Inr ?t, w, gs)" "remove_file ?n ?w1 gs = (Inl e, ?w1, gs')"
        "res = Inl e" "w' = ?w1" "fs \<noteq> []"
    | (finished) gs gs' where "read_to_string ?n w fs = (Inr ?t, w, gs)" "remove_file ?n ?w1 gs = (Inr (), ?w2, gs')"
        "replay_files from_json accepts (map fst v) (k + accepted_count accepts (offered w) ?r) ?w2 gs' = (res, w', fs')"
        "fs = [] \<longrightarrow> gs' = []"
  proof (cases "faulty fs")
    case True
    with read_result(2) [OF get] obtain e where e: "read_to_string ?n w fs = (Inl e, w, tl fs)" by blast
    have "res = Inl e" "w' = w" using Cons.prems(1) e by (simp_all add: io_bind_def)
    moreover have "fs \<noteq> []" using True by auto
    ultimately show ?thesis using that(1) [OF e] by blast
  next
    case False
    note r = read_result(1) [OF get False]
    have get1: "hm_get (dir_files ?w1) ?n = Some (snd x)" using get by simp
    show ?thesis
    proof (cases "faulty (tl fs)")
      case True
      with remove_result(2) [OF get1] obtain e where e: "remove_file ?n ?w1 (tl fs) = (Inl e, ?w1, tl (tl fs))" by blast
      have "res = Inl e" "w' = ?w1" using Cons.prems(1) r lines e by (simp_all add: io_bind_def io_seq_def)
      moreover have "fs \<noteq> []" using True by auto
      ultimately show ?thesis using that(2) [OF r e] by blast
    next
      case ok: False
      have e: "remove_file ?n ?w1 (tl fs) = (Inr (), ?w2, tl (tl fs))" using remove_result(1) [OF get1 ok] by simp
      have "replay_files from_json accepts (map fst v) (k + accepted_count accepts (offered w) ?r) ?w2 (tl (tl fs)) = (res, w', fs')"
        using Cons.prems(1) r lines e by (simp add: io_bind_def io_seq_def)
      then show ?thesis using that(3) [OF r e] by simp
    qed
  qed
  then show ?case
  proof cases
    case read
    then show ?thesis by (intro exI [of _ 0]) auto
  next
    case remove
    then show ?thesis by (intro exI [of _ 0] exI [of _ 1]) auto
  next
    case finished
    have "hm_ok (dir_files ?w2)" using Cons.prems(2) by (simp add: remove_filter hm_ok_filtered)
    moreover have "\<forall>nf \<in> set v. hm_get (dir_files ?w2) (fst nf) = Some (snd nf)"
      using Cons.prems(3,4) by (auto simp: delete_conv' rev_image_eqI)
    ultimately obtain i j where ij: "i \<le> j" "j \<le> length v"
        "dir_files w' = filter (\<lambda>nf. fst nf \<notin> set (take i (map fst v))) (dir_files ?w2)"
        "offered w' = offered ?w2 @ events_of from_json (take j v)"
        "\<forall>n. res = Inr n \<longrightarrow> i = length v \<and> j = length v \<and>
          n = k + accepted_count accepts (offered w) ?r + accepted_count accepts (offered ?w2) (events_of from_json v)"
        "gs' = [] \<longrightarrow> (\<exists>n. res = Inr n) \<and> fs' = []"
      using Cons.IH [OF finished(3)] Cons.prems(3) by auto
    have "dir_files w' = filter (\<lambda>nf. fst nf \<notin> set (take (Suc i) (map fst (x # v)))) (dir_files w)"
      unfolding ij(3) by (simp add: remove_filter filter_filter conj_commute)
    moreover have "offered w' = offered w @ events_of from_json (take (Suc j) (x # v))" using ij(4) by simp
    moreover have "\<forall>n. res = Inr n \<longrightarrow> Suc i = length (x # v) \<and> Suc j = length (x # v) \<and>
        n = k + accepted_count accepts (offered w) (events_of from_json (x # v))"
      using ij(5) by (simp add: accepted_count_append add.assoc)
    moreover have "fs = [] \<longrightarrow> (\<exists>n. res = Inr n) \<and> fs' = []" using ij(6) finished(4) by blast
    moreover have "Suc i \<le> Suc j" "Suc j \<le> length (x # v)" using ij(1,2) by simp_all
    ultimately show ?thesis by blast
  qed
qed

lemma chunks_pending: "pending from_json w = events_of from_json (view (dir_files w))"
  by (simp add: pending_def chunks_def chunk_of_def comp_def)

lemma replay_spec:
  assumes "hm_ok (dir_files w)" and "replay from_json accepts w fs = (res, w', fs')"
  shows "(\<exists>k j. k \<le> j \<and> pending from_json w' = drop k (pending from_json w) \<and>
      offered w' = offered w @ take j (pending from_json w)) \<and>
    (fs = [] \<and> dir_exists w \<longrightarrow> res = Inr (accepted_count accepts (offered w) (pending from_json w)) \<and>
      view (dir_files w') = [] \<and> offered w' = offered w @ pending from_json w \<and> fs' = [])"
proof -
  let ?v = "view (dir_files w)"
  have dist: "distinct (map fst ?v)" using view_distinct [OF assms(1)] by simp
  have mem: "\<forall>nf \<in> set ?v. hm_get (dir_files w) (fst nf) = Some (snd nf)" using view_get [OF assms(1)] by auto
  consider (none) "w' = w" "\<not> (fs = [] \<and> dir_exists w \<and> ?v \<noteq> [])" "fs = [] \<and> dir_exists w \<longrightarrow> res = Inr 0 \<and> fs' = []"
    | (some) gs where "replay_files from_json accepts (map fst ?v) 0 w gs = (res, w', fs')" "fs = [] \<longrightarrow> gs = []"
  proof (cases "fs = []")
    case True
    then show ?thesis using assms(2) that by (auto simp: replay_def calm_list split: if_splits)
  next
    case False
    obtain r1 w1 fs1 where l: "list_queue_files w (tl fs) = (r1, w1, fs1)" by (cases "list_queue_files w (tl fs)")
    from list_queue_files_cases [OF l] have w1: "w1 = w" "\<forall>files. r1 = Inr files \<longrightarrow> files = [] \<or> files = map fst ?v" by auto
    have run: "replay from_json accepts w fs =
        (if \<not> faulty fs \<and> dir_exists w
         then (case r1 of Inr files \<Rightarrow> replay_files from_json accepts files 0 w1 fs1 | Inl e \<Rightarrow> (Inl e, w1, fs1))
         else (Inr 0, w, tl fs))"
      by (simp add: replay_def io_bind_def path_exists_result io_return_def l split: sum.split)
    show ?thesis
    proof (cases "\<not> faulty fs \<and> dir_exists w \<and> r1 = Inr (map fst ?v)")
      case True
      then show ?thesis using assms(2) run w1(1) False that(2) by simp
    next
      case other: False
      then have "w' = w" using assms(2) run w1 by (auto simp: io_return_def split: if_splits sum.splits)
      then show ?thesis using that(1) False by simp
    qed
  qed
  then show ?thesis
  proof cases
    case none
    then show ?thesis by (auto simp: chunks_pending intro!: exI [of _ 0])
  next
    case some
    from replay_files_cases [OF some(1) assms(1) dist mem] obtain i j where ij: "i \<le> j" "j \<le> length ?v"
      "dir_files w' = filter (\<lambda>nf. fst nf \<notin> set (take i (map fst ?v))) (dir_files w)"
      "offered w' = offered w @ events_of from_json (take j ?v)"
      "\<forall>n. res = Inr n \<longrightarrow> i = length ?v \<and> j = length ?v \<and> n = 0 + accepted_count accepts (offered w) (events_of from_json ?v)"
      "gs = [] \<longrightarrow> (\<exists>n. res = Inr n) \<and> fs' = []" by blast
    have queue_names: "\<forall>n \<in> set (map fst ?v). is_queue_file n" by (auto simp: view_set)
    have "filter (\<lambda>nf. fst nf \<notin> set (take i (map fst ?v))) (dir_files w) =
        filter (\<lambda>nf. is_queue_file (fst nf) \<longrightarrow> fst nf \<notin> set (take i (map fst ?v))) (dir_files w)"
      using queue_names by (intro filter_cong refl) (metis in_set_takeD)
    then have v': "view (dir_files w') = drop i ?v"
      unfolding ij(3) using view_filter [of "\<lambda>nf. fst nf \<notin> set (take i (map fst ?v))"] drop_by_names [OF dist, of i] by simp
    have split: "events_of from_json ?v = events_of from_json (take m ?v) @ events_of from_json (drop m ?v)" for m
      by (metis append_take_drop_id concat_append map_append)
    let ?k = "length (events_of from_json (take i ?v))" and ?j = "length (events_of from_json (take j ?v))"
    obtain m where "j = i + m" using ij(1) le_Suc_ex by blast
    then have "?k \<le> ?j" by (simp add: take_add)
    moreover have "pending from_json w' = drop ?k (pending from_json w)" using split [of i] by (simp add: chunks_pending v')
    moreover have "offered w' = offered w @ take ?j (pending from_json w)" using split [of j] by (simp add: chunks_pending ij(4))
    moreover have "res = Inr (accepted_count accepts (offered w) (pending from_json w)) \<and> view (dir_files w') = [] \<and>
        offered w' = offered w @ pending from_json w \<and> fs' = []" if calm: "fs = []"
    proof -
      obtain n where n: "res = Inr n" "fs' = []" using calm some(2) ij(6) by blast
      then have "i = length ?v" "j = length ?v" "n = accepted_count accepts (offered w) (events_of from_json ?v)"
        using ij(5) by auto
      then show ?thesis using n ij(4) by (simp add: v' chunks_pending)
    qed
    ultimately show ?thesis by blast
  qed
qed


text \<open>
  C34. Whatever the operating system does, a replay offers the queued events in order from the
  oldest on, and what it leaves in the queue is the rest, possibly with events again that it
  offered: no event is lost that was not offered. Without faults it offers all of them once,
  deletes their files and reports how many the transport accepted.
\<close>

theorem replay_loses_nothing:
  assumes "hm_ok (dir_files w)" and "replay from_json accepts w fs = (res, w', fs')"
  shows "(\<exists>k j. k \<le> j \<and> pending from_json w' = drop k (pending from_json w) \<and>
      offered w' = offered w @ take j (pending from_json w)) \<and>
    (fs = [] \<and> dir_exists w \<longrightarrow> res = Inr (accepted_count accepts (offered w) (pending from_json w)) \<and>
      view (dir_files w') = [] \<and> offered w' = offered w @ pending from_json w)"
  using replay_spec [OF assms] by blast

text \<open>
  The abstract enqueue: chunks not written for seven days are forgotten, the event is added to the
  newest chunk if it has fewer than 1000 events, else to a new one, and if that makes more than ten
  chunks the oldest go. The code deletes before it knows whether it needs a new file, so of ten
  chunks whose newest has room it forgets one (\<open>enqueue_chunks\<close>).
\<close>

definition documented_enqueue :: "nat \<Rightarrow> 'r \<Rightarrow> 'r chunk list \<Rightarrow> 'r chunk list" where
  "documented_enqueue now r cs =
     (let all = add_event now r (filter (\<lambda>c. \<not> old_chunk now c) cs) in drop (length all - 10) all)"

definition needs_no_room :: "nat \<Rightarrow> 'r chunk list \<Rightarrow> bool" where
  "needs_no_room now cs \<longleftrightarrow>
     (let young = filter (\<lambda>c. \<not> old_chunk now c) cs
      in length young < 10 \<or> length (snd (snd (last young))) \<ge> MAX_EVENTS_PER_FILE)"

lemma enqueue_as_documented:
  assumes "needs_no_room now cs"
  shows "chunk_enqueue now r cs = documented_enqueue now r cs"
proof -
  let ?young = "filter (\<lambda>c. \<not> old_chunk now c) cs"
  consider "length ?young < 10" | "10 \<le> length ?young" "MAX_EVENTS_PER_FILE \<le> length (snd (snd (last ?young)))"
    by (cases "length ?young < 10") (use assms in \<open>auto simp: needs_no_room_def Let_def\<close>)
  then show ?thesis
  proof cases
    case 1
    then have "length (add_event now r ?young) \<le> 10" by (auto simp: add_event_def)
    then show ?thesis using 1 by (simp add: chunk_enqueue_def documented_enqueue_def Let_def)
  next
    case 2
    let ?k = "length ?young - 9"
    have "last (drop ?k ?young) = last ?young" "drop ?k ?young \<noteq> []" using 2(1) by (auto simp: last_drop)
    then have "add_event now r (drop ?k ?young) = drop ?k ?young @ [(new_file_name now, now, [r])]"
      "add_event now r ?young = ?young @ [(new_file_name now, now, [r])]"
      using 2(2) by (auto simp: add_event_def)
    moreover have "length (?young @ [(new_file_name now, now, [r])]) - 10 = ?k" "?k \<le> length ?young" using 2(1) by simp_all
    ultimately show ?thesis by (simp add: chunk_enqueue_def documented_enqueue_def Let_def)
  qed
qed

text \<open>
  C33. An enqueue without faults refines the abstract one, which adds the event to the newest
  chunk with room, else to a new one, and forgets what is older than seven days and what is beyond
  the ten newest chunks: where the young files are fewer than ten, or the newest of them is full. It
  offers nothing, and the files stay well formed. Its only assumption on the clock is that a new
  file's name comes after the old ones.
\<close>

theorem enqueue_refines:
  assumes "queue_ok from_json w" and "json_ok to_json from_json" and "to_json r = Inr l"
    and "\<forall>c \<in> set (chunks from_json w). fst c < new_file_name now" and "needs_no_room now (chunks from_json w)"
  shows "\<exists>w'. enqueue to_json now r w [] = (Inr (), w', []) \<and> queue_ok from_json w' \<and> offered w' = offered w \<and> dir_exists w' \<and>
    chunks from_json w' = documented_enqueue now r (chunks from_json w)"
  using enqueue_chunks [OF assms(1-4)] enqueue_as_documented [OF assms(5)] by metis

section \<open>Names of queue files\<close>

lemma show_nat_less:
  "a < b \<Longrightarrow> length (show_nat a) = length (show_nat b) \<Longrightarrow>
   \<exists>p x y u v. show_nat a = p @ x # u \<and> show_nat b = p @ y # v \<and> x < y"
proof (induction a arbitrary: b rule: show_nat.induct)
  case (1 a)
  have digit: "char_of (48 + i) < (char_of (48 + j) :: char)" if "i < j" "j < 10" for i j :: nat
    using that by (simp add: less_char_def)
  have rec: "show_nat n = show_nat (n div 10) @ [char_of (48 + n mod 10)]" if "\<not> n < 10" for n
    using that by (subst show_nat.simps) simp
  have single: "show_nat n = [char_of (48 + n)]" if "n < 10" for n using that by (subst show_nat.simps) simp
  show ?case
  proof (cases "b < 10")
    case True
    then have "show_nat a = [] @ char_of (48 + a) # []" "show_nat b = [] @ char_of (48 + b) # []" using 1 single by simp_all
    then show ?thesis using digit [OF "1.prems"(1) True] by blast
  next
    case False
    have a: "\<not> a < 10"
    proof
      assume "a < 10"
      then show False using "1.prems"(2) rec [OF False] single [of a] by simp
    qed
    then have len: "length (show_nat (a div 10)) = length (show_nat (b div 10))" using "1.prems"(2) rec [OF a] rec [OF False] by simp
    show ?thesis
    proof (cases "a div 10 < b div 10")
      case True
      from "1.IH" [OF a True len] obtain p x y u v where
        "show_nat (a div 10) = p @ x # u" "show_nat (b div 10) = p @ y # v" "x < y" by blast
      then have "show_nat a = p @ x # (u @ [char_of (48 + a mod 10)])" "show_nat b = p @ y # (v @ [char_of (48 + b mod 10)])" "x < y"
        using rec [OF a] rec [OF False] by simp_all
      then show ?thesis by blast
    next
      case same: False
      then have "a div 10 = b div 10" using "1.prems"(1) by (simp add: div_le_mono le_antisym)
      then have "show_nat a = show_nat (b div 10) @ char_of (48 + a mod 10) # []"
          "show_nat b = show_nat (b div 10) @ char_of (48 + b mod 10) # []" "a mod 10 < b mod 10"
        using rec [OF a] rec [OF False] "1.prems"(1) mult_div_mod_eq [of 10 a] mult_div_mod_eq [of 10 b] by (simp, simp, linarith)
      then show ?thesis using digit [of "a mod 10" "b mod 10"] by (metis mod_less_divisor zero_less_numeral)
    qed
  qed
qed

lemma length_show_nat: "10 ^ k \<le> n \<Longrightarrow> n < 10 ^ Suc k \<Longrightarrow> length (show_nat n) = Suc k"
proof (induction k arbitrary: n)
  case 0
  then show ?case by (subst show_nat.simps) simp
next
  case (Suc k)
  then have "10 ^ k \<le> n div 10" "n div 10 < 10 ^ Suc k"
    by (auto simp: less_eq_div_iff_mult_less_eq div_less_iff_less_mult mult.commute)
  moreover have "\<not> n < 10" using Suc.prems(1) self_le_power [of "10 :: nat" "Suc k"] by linarith
  ultimately show ?case using Suc.IH [of "n div 10"] by (subst show_nat.simps) simp
qed

text \<open>The times whose milliseconds have thirteen digits: from September 2001 to November 2286.\<close>

definition this_era :: "nat \<Rightarrow> bool" where
  "this_era now \<longleftrightarrow> 10 ^ 12 \<le> now div 1000000 \<and> now div 1000000 < 10 ^ 13"

lemma file_names_less:
  assumes "this_era now" and "this_era now'" and "now div 1000000 < now' div 1000000"
  shows "new_file_name now < new_file_name now'"
proof -
  have "length (show_nat (now div 1000000)) = length (show_nat (now' div 1000000))"
    using assms(1,2) length_show_nat [of 12 "now div 1000000"] length_show_nat [of 12 "now' div 1000000"]
    by (simp add: this_era_def)
  from show_nat_less [OF assms(3) this] obtain p x y u v where
    "show_nat (now div 1000000) = p @ x # u" "show_nat (now' div 1000000) = p @ y # v" "x < y" by blast
  then have "new_file_name now = (FILE_PREFIX @ p) @ x # (u @ FILE_EXTENSION)"
      "new_file_name now' = (FILE_PREFIX @ p) @ y # (v @ FILE_EXTENSION)" "(x, y) \<in> {(u, v). u < v}"
    by (simp_all add: new_file_name_def)
  then show ?thesis unfolding list_less_def by (simp only: lexord_append_left_rightI)
qed


section \<open>First in, first out\<close>

text \<open>
  The chunks after some events, of which the oldest \<open>e\<close> thousands were dropped: full chunks but
  for the last.
\<close>

definition chunked :: "nat \<Rightarrow> 'r list \<Rightarrow> 'r chunk list \<Rightarrow> bool" where
  "chunked e rs cs \<longleftrightarrow> concat (map (\<lambda>c. snd (snd c)) cs) = drop (1000 * e) rs \<and> 1000 * e \<le> length rs \<and>
     (\<forall>c \<in> set (butlast cs). length (snd (snd c)) = 1000) \<and>
     (cs \<noteq> [] \<longrightarrow> 0 < length (snd (snd (last cs))) \<and> length (snd (snd (last cs))) \<le> 1000)"

lemma length_full: "\<forall>c \<in> set cs. length (f c) = 1000 \<Longrightarrow> length (concat (map f cs)) = 1000 * length cs"
  by (induction cs) simp_all

lemma chunked_count:
  assumes "chunked e rs cs"
  shows "length cs + e = (length rs + 999) div 1000"
proof (cases "cs = []")
  case True
  then show ?thesis using assms by (auto simp: chunked_def)
next
  case False
  then obtain ds d where cs: "cs = ds @ [d]" by (cases cs rule: rev_cases) auto
  let ?l = "length (snd (snd d))"
  have full: "\<forall>c \<in> set ds. length (snd (snd c)) = 1000" and l: "0 < ?l" "?l \<le> 1000"
    using assms by (simp_all add: chunked_def cs)
  have "length (concat (map (\<lambda>c. snd (snd c)) cs)) = 1000 * length ds + ?l"
    using length_full [OF full] by (simp add: cs)
  moreover have "length (concat (map (\<lambda>c. snd (snd c)) cs)) + 1000 * e = length rs" using assms by (simp add: chunked_def)
  ultimately have "length rs = 1000 * (length ds + e) + ?l" by simp
  then have "length rs + 999 = (?l - 1) + Suc (length ds + e) * 1000" using l(1) by simp
  then have "(length rs + 999) div 1000 = Suc (length ds + e) + (?l - 1) div 1000" by (simp only: div_mult_self1)
  then show ?thesis using l by (simp add: cs)
qed

lemma chunked_drop:
  assumes "chunked e rs cs"
  shows "chunked (e + (length cs - 9)) rs (drop (length cs - 9) cs)"
proof -
  let ?k = "length cs - 9" and ?f = "\<lambda>c :: 'a chunk. snd (snd c)"
  have "set (take ?k cs) \<subseteq> set (butlast cs)"
    by (cases cs rule: rev_cases) (auto dest: in_set_takeD)
  then have len: "length (concat (map ?f (take ?k cs))) = 1000 * ?k"
    using assms length_full [of "take ?k cs" ?f] by (auto simp: chunked_def)
  have "concat (map ?f cs) = concat (map ?f (take ?k cs)) @ concat (map ?f (drop ?k cs))"
    by (metis append_take_drop_id concat_append map_append)
  moreover from this have "length (concat (map ?f (take ?k cs))) \<le> length (concat (map ?f cs))" by simp
  ultimately have "concat (map ?f (drop ?k cs)) = drop (1000 * (e + ?k)) rs" "1000 * (e + ?k) \<le> length rs"
    using assms len by (auto simp: chunked_def algebra_simps append_eq_conv_conj)
  then show ?thesis using assms by (auto simp: chunked_def butlast_drop dest: in_set_dropD)
qed

lemma chunked_add:
  assumes "chunked e rs cs"
  shows "chunked e (rs @ [r]) (add_event now r cs)"
proof (cases "cs = [] \<or> MAX_EVENTS_PER_FILE \<le> length (snd (snd (last cs)))")
  case True
  then have "\<forall>c \<in> set cs. length (snd (snd c)) = 1000"
    using assms by (cases cs rule: rev_cases) (auto simp: chunked_def MAX_EVENTS_PER_FILE_def)
  then show ?thesis using assms True by (auto simp: chunked_def add_event_def)
next
  case False
  then obtain ds d where cs: "cs = ds @ [d]" by (cases cs rule: rev_cases) auto
  then show ?thesis using assms False by (auto simp: chunked_def add_event_def MAX_EVENTS_PER_FILE_def)
qed

text \<open>How many thousands of events are dropped of \<open>n\<close>.\<close>

definition dropped :: "nat \<Rightarrow> nat" where
  "dropped n = (n + 998) div 1000 - 9"

lemma chunk_enqueue_chunked:
  assumes "chunked (dropped (length rs)) rs cs" and "\<forall>c \<in> set cs. \<not> old_chunk now c"
  shows "chunked (dropped (Suc (length rs))) (rs @ [r]) (chunk_enqueue now r cs)"
proof -
  let ?e = "dropped (length rs)"
  have "filter (\<lambda>c. \<not> old_chunk now c) cs = cs" using assms(2) by (simp add: filter_id_conv)
  then have step: "chunk_enqueue now r cs = add_event now r (drop (length cs - 9) cs)" by (simp add: chunk_enqueue_def Let_def)
  have "?e \<le> (length rs + 999) div 1000 - 9" unfolding dropped_def by (intro diff_le_mono div_le_mono) simp
  then have "?e + (length cs - 9) = (length rs + 999) div 1000 - 9" using chunked_count [OF assms(1)] by linarith
  then have "?e + (length cs - 9) = dropped (Suc (length rs))" by (simp add: dropped_def)
  then show ?thesis using chunked_add [OF chunked_drop [OF assms(1)], of r now] by (simp add: step)
qed


lemma chunk_enqueue_members:
  assumes "c \<in> set (chunk_enqueue now r cs)"
  shows "(fst c = new_file_name now \<or> fst c \<in> fst ` set cs) \<and> (fst (snd c) = now \<or> c \<in> set cs)"
proof -
  let ?ds = "drop (length (filter (\<lambda>c. \<not> old_chunk now c) cs) - 9) (filter (\<lambda>c. \<not> old_chunk now c) cs)"
  have sub: "set ?ds \<subseteq> set cs" using set_drop_subset by fastforce
  have "c \<in> set (add_event now r ?ds)" using assms by (simp add: chunk_enqueue_def Let_def)
  then consider "c \<in> set ?ds" | "c = (new_file_name now, now, [r])" | "?ds \<noteq> []" "c = (fst (last ?ds), now, snd (snd (last ?ds)) @ [r])"
    by (auto simp: add_event_def dest: in_set_butlastD split: if_splits)
  then show ?thesis
  proof cases
    case 3
    then show ?thesis using last_in_set [OF 3(1)] sub by auto
  qed (use sub in auto)
qed

definition empty_world :: "'r queue_world" where
  "empty_world = \<lparr>dir_exists = False, dir_files = [], offered = []\<rparr>"

definition enqueue_run :: "('r \<Rightarrow> string + ustr) \<Rightarrow> (nat \<times> 'r) list \<Rightarrow> 'r queue_world" where
  "enqueue_run to_json steps = foldl (\<lambda>w s. fst (snd (enqueue to_json (fst s) (snd s) w []))) empty_world steps"

text \<open>The clock advances by a millisecond at least between two calls, and by a week at most over all.\<close>

definition clock_ok :: "(nat \<times> 'r) list \<Rightarrow> bool" where
  "clock_ok steps \<longleftrightarrow> sorted_wrt (\<lambda>a b. fst a div 1000000 < fst b div 1000000) steps \<and>
     (\<forall>a \<in> set steps. this_era (fst a) \<and> (\<forall>b \<in> set steps. fst b \<le> fst a + PRUNE_AGE))"

lemma enqueue_run_chunks:
  assumes "json_ok to_json from_json" and "\<forall>s \<in> set steps. \<exists>l. to_json (snd s) = Inr l" and "clock_ok steps"
  defines "w \<equiv> enqueue_run to_json steps"
  shows "queue_ok from_json w \<and> offered w = [] \<and> (steps \<noteq> [] \<longrightarrow> dir_exists w) \<and>
    chunked (dropped (length steps)) (map snd steps) (chunks from_json w) \<and>
    (\<forall>c \<in> set (chunks from_json w). fst c \<in> (\<lambda>s. new_file_name (fst s)) ` set steps \<and> fst (snd c) \<in> fst ` set steps)"
  unfolding w_def using assms(2,3)
proof (induction steps rule: rev_induct)
  case Nil
  then show ?case
    by (simp add: enqueue_run_def empty_world_def queue_ok_def chunks_def view_def chunked_def dropped_def)
next
  case (snoc s steps)
  obtain now r where s: "s = (now, r)" by (cases s)
  let ?w = "enqueue_run to_json steps"
  have "clock_ok steps" using snoc.prems(2) by (auto simp: clock_ok_def sorted_wrt_append)
  with snoc have IH: "queue_ok from_json ?w" "offered ?w = []"
      "chunked (dropped (length steps)) (map snd steps) (chunks from_json ?w)"
      "\<forall>c \<in> set (chunks from_json ?w). fst c \<in> (\<lambda>s. new_file_name (fst s)) ` set steps \<and> fst (snd c) \<in> fst ` set steps"
    by simp_all
  obtain l where l: "to_json r = Inr l" using snoc.prems(1) by (auto simp: s)
  have names: "\<forall>c \<in> set (chunks from_json ?w). fst c < new_file_name now"
    using IH(4) snoc.prems(2) file_names_less by (fastforce simp: clock_ok_def sorted_wrt_append s)
  have young: "\<forall>c \<in> set (chunks from_json ?w). \<not> old_chunk now c"
    using IH(4) snoc.prems(2) by (fastforce simp: clock_ok_def old_chunk_def s)
  from enqueue_chunks [OF IH(1) assms(1) l names] obtain w' where w': "enqueue to_json now r ?w [] = (Inr (), w', [])"
    "queue_ok from_json w'" "offered w' = offered ?w" "dir_exists w'"
    "chunks from_json w' = chunk_enqueue now r (chunks from_json ?w)" by blast
  have run: "enqueue_run to_json (steps @ [s]) = w'" using w'(1) by (simp add: enqueue_run_def s)
  have "chunked (dropped (length (steps @ [s]))) (map snd (steps @ [s])) (chunks from_json w')"
    using chunk_enqueue_chunked [of "map snd steps" "chunks from_json ?w" now r] IH(3) young w'(5) by (simp add: s)
  moreover have "fst c \<in> (\<lambda>s. new_file_name (fst s)) ` set (steps @ [s]) \<and> fst (snd c) \<in> fst ` set (steps @ [s])"
    if "c \<in> set (chunks from_json w')" for c
  proof -
    have "fst ` set (chunks from_json ?w) \<subseteq> (\<lambda>s. new_file_name (fst s)) ` set steps" using IH(4) by auto
    then show ?thesis using chunk_enqueue_members [OF that [unfolded w'(5)]] IH(4) by (auto simp: s)
  qed
  ultimately show ?case using w' IH(2) run by simp
qed

text \<open>
  What exactly is kept of events enqueued one after the other, without faults: all of them up to
  9001 events, then all but the oldest thousands, so that between 8002 and 9001 are left.
\<close>

lemma replay_run:
  assumes "json_ok to_json from_json" and "\<forall>s \<in> set steps. \<exists>l. to_json (snd s) = Inr l" and "clock_ok steps" and "steps \<noteq> []"
  shows "(\<exists>n w'. replay from_json accepts (enqueue_run to_json steps) [] = (Inr n, w', []) \<and>
      offered w' = drop (1000 * ((length steps + 998) div 1000 - 9)) (map snd steps) \<and> view (dir_files w') = []) \<and>
    length (chunks from_json (enqueue_run to_json steps)) \<le> 10 \<and>
    (\<forall>c \<in> set (chunks from_json (enqueue_run to_json steps)). length (snd (snd c)) \<le> 1000)"
proof (intro conjI)
  let ?w = "enqueue_run to_json steps"
  note run = enqueue_run_chunks [OF assms(1-3)]
  have ok: "hm_ok (dir_files ?w)" and ex: "dir_exists ?w" "offered ?w = []" using run assms(4) by (simp_all add: queue_ok_def)
  have ch: "chunked (dropped (length steps)) (map snd steps) (chunks from_json ?w)" using run by blast
  obtain res w' fs' where r: "replay from_json accepts ?w [] = (res, w', fs')" by (cases "replay from_json accepts ?w []")
  have "res = Inr (accepted_count accepts (offered ?w) (pending from_json ?w)) \<and> view (dir_files w') = [] \<and>
      offered w' = offered ?w @ pending from_json ?w \<and> fs' = []"
    using replay_spec [OF ok r] ex by simp
  moreover have "pending from_json ?w = drop (1000 * dropped (length steps)) (map snd steps)"
    using ch by (simp add: chunked_def pending_def)
  ultimately show "\<exists>n w'. replay from_json accepts ?w [] = (Inr n, w', []) \<and>
      offered w' = drop (1000 * ((length steps + 998) div 1000 - 9)) (map snd steps) \<and> view (dir_files w') = []"
    using r ex by (auto simp: dropped_def)
  have "length (chunks from_json ?w) + dropped (length steps) = (length steps + 999) div 1000" using chunked_count [OF ch] by simp
  moreover have "(length steps + 999) div 1000 \<le> Suc ((length steps + 998) div 1000)"
    using div_le_mono [of "length steps + 999" "length steps + 998 + 1000" 1000] by simp
  ultimately show "length (chunks from_json ?w) \<le> 10" by (simp add: dropped_def)
  show "\<forall>c \<in> set (chunks from_json ?w). length (snd (snd c)) \<le> 1000"
    using ch by (cases "chunks from_json ?w" rule: rev_cases) (auto simp: chunked_def)
qed

text \<open>
  C35. Events enqueued one after the other, without faults, in times that advance by a millisecond
  at least, and a week at most over all, are replayed in order: all of them up to 9001 events, and
  of more the newest, at least 8002. The directory holds at most ten files of at most 1000 events,
  and none after the replay.
\<close>

theorem replay_first_in_first_out:
  assumes "json_ok to_json from_json" and "\<forall>s \<in> set steps. \<exists>l. to_json (snd s) = Inr l" and "clock_ok steps" and "steps \<noteq> []"
  shows "(\<exists>n w' k. replay from_json accepts (enqueue_run to_json steps) [] = (Inr n, w', []) \<and>
      offered w' = drop k (map snd steps) \<and> (length steps \<le> 9001 \<longrightarrow> k = 0) \<and> min (length steps) 8002 \<le> length (offered w') \<and>
      view (dir_files w') = []) \<and>
    length (chunks from_json (enqueue_run to_json steps)) \<le> 10 \<and>
    (\<forall>c \<in> set (chunks from_json (enqueue_run to_json steps)). length (snd (snd c)) \<le> 1000)"
proof -
  let ?k = "1000 * ((length steps + 998) div 1000 - 9)"
  have "?k = 0" if "length steps \<le> 9001" using that by simp
  moreover have "min (length steps) 8002 \<le> length steps - ?k"
  proof -
    have "1000 * ((length steps + 998) div 1000) \<le> length steps + 998" by (rule times_div_less_eq_dividend)
    then show ?thesis unfolding diff_mult_distrib2 by linarith
  qed
  ultimately show ?thesis using replay_run [OF assms, of accepts] by fastforce
qed

section \<open>Examples\<close>

text \<open>Requests that are numbers, written as as many letters and one.\<close>

definition sample_to_json :: "nat \<Rightarrow> string + ustr" where
  "sample_to_json n = Inr (replicate (Suc n) 0x61)"

definition sample_from_json :: "ustr \<Rightarrow> nat option" where
  "sample_from_json l = (if set l = {0x61} then Some (length l - 1) else None)"

lemma sample_json_ok: "json_ok sample_to_json sample_from_json"
  by (auto simp: json_ok_def sample_to_json_def sample_from_json_def is_whitespace_def simp del: replicate_Suc)

definition sample_steps_queue :: "(nat \<times> nat) list" where
  "sample_steps_queue = [(10 ^ 18, 3), (10 ^ 18 + 1000000, 5)]"

lemma sample_clock: "clock_ok sample_steps_queue"
  by (simp add: clock_ok_def sample_steps_queue_def this_era_def PRUNE_AGE_def)

theorem replay_first_in_first_out_witness:
  "\<exists>n w'. replay sample_from_json (\<lambda>sent r. True) (enqueue_run sample_to_json sample_steps_queue) [] = (Inr n, w', []) \<and>
     offered w' = [3, 5]"
  using replay_first_in_first_out [OF sample_json_ok _ sample_clock, of "\<lambda>sent r. True"]
  by (auto simp: sample_steps_queue_def sample_to_json_def)

definition sample_world :: "nat queue_world" where
  "sample_world = \<lparr>dir_exists = True, dir_files = [(''pending-0.jsonl'', \<lparr>file_text = [0x61, 10, 0x61, 0x61, 10], modified = 7\<rparr>)],
     offered = []\<rparr>"

lemmas sample_view = view_def is_queue_file_def starts_with_def FILE_PREFIX_def FILE_EXTENSION_def chunks_def chunk_of_def
  parsed_def text_lines_def strip_cr_def parse_line_def trim_def is_whitespace_def sample_from_json_def map_filter_def

theorem replay_loses_nothing_witness:
  "\<exists>k j. k \<le> j \<and> pending sample_from_json (fst (snd (replay sample_from_json (\<lambda>sent r. True) sample_world [None, None, None, None, None, Some ''busy'']))) =
       drop k [0, 1] \<and>
     offered (fst (snd (replay sample_from_json (\<lambda>sent r. True) sample_world [None, None, None, None, None, Some ''busy'']))) = take j [0, 1]"
proof -
  have ok: "hm_ok (dir_files sample_world)" by (simp add: sample_world_def hm_ok_def)
  have "pending sample_from_json sample_world = [0, 1]"
    by (simp add: pending_def sample_world_def sample_view)
  then show ?thesis
    using replay_loses_nothing [OF ok, of sample_from_json "\<lambda>sent r. True" "[None, None, None, None, None, Some ''busy'']"]
    by (cases "replay sample_from_json (\<lambda>sent r. True) sample_world [None, None, None, None, None, Some ''busy'']")
      (auto simp: sample_world_def)
qed


theorem enqueue_refines_witness:
  "\<exists>w'. enqueue sample_to_json (10 ^ 18) 4 sample_world [] = (Inr (), w', []) \<and>
     chunks sample_from_json w' = [(new_file_name (10 ^ 18), 10 ^ 18, [4])]"
proof -
  have c: "chunks sample_from_json sample_world = [(''pending-0.jsonl'', 7, [0, 1])]"
    by (simp add: sample_world_def sample_view)
  have ok: "queue_ok sample_from_json sample_world"
    by (simp add: queue_ok_def hm_ok_def good_file_def complete_def line_count_def sample_world_def sample_view)
  have "new_file_name (10 ^ 18) = ''pending-1000000000000.jsonl''"
    by (simp add: new_file_name_def FILE_PREFIX_def FILE_EXTENSION_def show_nat.simps char_of_eq_iff take_bit_eq_mod)
  moreover have room: "needs_no_room (10 ^ 18) [(''pending-0.jsonl'', 7, [0, Suc 0])]"
    by (simp add: needs_no_room_def old_chunk_def PRUNE_AGE_def)
  moreover have "documented_enqueue (10 ^ 18) 4 [(''pending-0.jsonl'', 7, [0, 1 :: nat])] = [(new_file_name (10 ^ 18), 10 ^ 18, [4])]"
    by (simp add: documented_enqueue_def old_chunk_def add_event_def PRUNE_AGE_def)
  ultimately show ?thesis
    using enqueue_refines [OF ok sample_json_ok, of 4 _ "10 ^ 18"] c by (auto simp: sample_to_json_def room)
qed

text \<open>
  The line and its end are written apart. If the second write fails, the next event lands on
  the same line, and a replay offers neither.
\<close>

definition braced :: "nat \<Rightarrow> string + ustr" where
  "braced n = Inr ([0x7B] @ replicate n 0x61 @ [0x7D])"

definition unbraced :: "ustr \<Rightarrow> nat option" where
  "unbraced l = (let n = length l - 2 in if l = [0x7B] @ replicate n 0x61 @ [0x7D] then Some n else None)"

lemma torn_write_loses_two:
  "\<exists>w fs. enqueue braced 8000000 1 empty_world [None, None, None, None, None, None, None, None, None, Some ''disk full''] =
       (Inl ''disk full'', w, fs) \<and>
     pending unbraced (fst (snd (enqueue braced 9000000 2 w []))) = []"
proof -
  define w :: "nat queue_world" where "w = \<lparr>dir_exists = True,
    dir_files = [(''pending-8.jsonl'', \<lparr>file_text = [0x7B, 0x61, 0x7D], modified = 8000000\<rparr>)], offered = []\<rparr>"
  have name: "new_file_name 8000000 = ''pending-8.jsonl''"
    by (simp add: new_file_name_def FILE_PREFIX_def FILE_EXTENSION_def show_nat.simps char_of_eq_iff take_bit_eq_mod)
  note io = io_bind_def io_seq_def io_try_def io_return_def sys_def path_exists_def read_dir_def next_entry_def
  have "enqueue braced 8000000 1 empty_world [None, None, None, None, None, None, None, None, None, Some ''disk full''] =
      (Inl ''disk full'', w, [])"
    by (simp add: enqueue_def create_dir_all_def prune_def enforce_file_limit_def list_queue_files_def find_or_create_target_def
        open_append_def write_text_def flush_def empty_world_def braced_def name w_def io)
  moreover have "enqueue braced 9000000 2 w [] = (Inr (), w\<lparr>dir_files := [(''pending-8.jsonl'',
      \<lparr>file_text = [0x7B, 0x61, 0x7D, 0x7B, 0x61, 0x61, 0x7D, 10], modified = 9000000\<rparr>)]\<rparr>, [])"
    by (simp add: enqueue_def create_dir_all_def prune_def prune_entry_def enforce_file_limit_def list_queue_files_def
        find_or_create_target_def open_append_def write_text_def flush_def file_modified_def read_to_string_def braced_def
        w_def io is_queue_file_def starts_with_def FILE_PREFIX_def FILE_EXTENSION_def MAX_QUEUE_FILES_def PRUNE_AGE_def
        line_count_def text_lines_def MAX_EVENTS_PER_FILE_def strip_cr_def trim_def is_whitespace_def numeral_2_eq_2)
  ultimately show ?thesis
    by (simp add: w_def pending_def chunks_def chunk_of_def view_def is_queue_file_def starts_with_def FILE_PREFIX_def
        FILE_EXTENSION_def parsed_def text_lines_def strip_cr_def parse_line_def trim_def is_whitespace_def unbraced_def
        map_filter_def)
qed

end
