(* ===== verification/Agent_Registry.thy ===== *)
theory Agent_Registry
  imports Store_Laws Input_Validation
begin

text \<open>
  Agents and what they may do: the calls of \<open>unimatrix-store/src/registry.rs\<close> on the table
  \<open>agent_registry\<close>, the registry of \<open>unimatrix-server/src/infra/registry.rs\<close> on top of them,
  the identities of \<open>mcp/identity.rs\<close>, and the enrollment tool of \<open>mcp/tools.rs\<close>.

  Lists are stored as JSON; the functions of serde are an argument. A registry call has the
  effects of a store call, and its reply is None for a panic. Ids are lists of characters.
\<close>

section \<open>Records\<close>

definition trust_as_u8 :: "trust_level \<Rightarrow> nat" where
  "trust_as_u8 t = (case t of TrustSystem \<Rightarrow> 0 | TrustPrivileged \<Rightarrow> 1 | TrustInternal \<Rightarrow> 2 | TrustRestricted \<Rightarrow> 3)"

definition trust_try_from :: "nat \<Rightarrow> trust_level option" where
  "trust_try_from b = (if b = 0 then Some TrustSystem else if b = 1 then Some TrustPrivileged
     else if b = 2 then Some TrustInternal else if b = 3 then Some TrustRestricted else None)"

definition capability_as_u8 :: "capability \<Rightarrow> nat" where
  "capability_as_u8 c = (case c of CapRead \<Rightarrow> 0 | CapWrite \<Rightarrow> 1 | CapSearch \<Rightarrow> 2 | CapAdmin \<Rightarrow> 3 | CapSessionWrite \<Rightarrow> 4)"

definition capability_try_from :: "nat \<Rightarrow> capability option" where
  "capability_try_from b = (if b = 0 then Some CapRead else if b = 1 then Some CapWrite else if b = 2 then Some CapSearch
     else if b = 3 then Some CapAdmin else if b = 4 then Some CapSessionWrite else None)"

record agent_record =
  agent_id :: ustr
  trust_level :: trust_level
  capabilities :: "capability list"
  allowed_topics :: "ustr list option"
  allowed_categories :: "ustr list option"
  enrolled_at :: nat
  last_seen_at :: nat
  active :: bool

record json_codec =
  bytes_to_json :: "nat list \<Rightarrow> string + string"
  bytes_from_json :: "string \<Rightarrow> nat list option"
  names_from_json :: "string \<Rightarrow> ustr list option"

definition or_empty :: "'a list option \<Rightarrow> 'a list" where
  "or_empty x = (case x of None \<Rightarrow> [] | Some xs \<Rightarrow> xs)"

definition agent_from_row :: "json_codec \<Rightarrow> ustr \<Rightarrow> agent_row \<Rightarrow> agent_record" where
  "agent_from_row json a row =
     \<lparr>agent_id = a,
      trust_level = (case trust_try_from (row_trust row mod 256) of None \<Rightarrow> TrustRestricted | Some t \<Rightarrow> t),
      capabilities = List.map_filter capability_try_from (or_empty (bytes_from_json json (row_capabilities row))),
      allowed_topics = map_option (\<lambda>j. or_empty (names_from_json json j)) (row_topics row),
      allowed_categories = map_option (\<lambda>j. or_empty (names_from_json json j)) (row_categories row),
      enrolled_at = row_enrolled row, last_seen_at = row_seen row, active = (row_active row \<noteq> 0)\<rparr>"

section \<open>The table\<close>

text \<open>A transaction whose begin reports a timeout as any other error of the database.\<close>

definition plain_transaction :: "'a call \<Rightarrow> 'a call" where
  "plain_transaction body db fs =
     (case bind_call (seq_call (exchange database_error) body)
             (\<lambda>a. seq_call (exchange database_error) (return_call a)) db fs of
        (Replied a, db', fs') \<Rightarrow> (Replied a, db', fs')
      | (r, db', fs') \<Rightarrow> (r, db, fs'))"

definition to_json :: "json_codec \<Rightarrow> nat list \<Rightarrow> string call" where
  "to_json json bs = (case bytes_to_json json bs of Inl e \<Rightarrow> fail_call (Serialization e) | Inr t \<Rightarrow> return_call t)"

definition new_row :: "nat \<Rightarrow> trust_level \<Rightarrow> string \<Rightarrow> agent_row" where
  "new_row now t caps = \<lparr>row_trust = trust_as_u8 t, row_capabilities = caps, row_topics = None, row_categories = None,
     row_enrolled = now, row_seen = now, row_active = 1\<rparr>"

definition insert_agent_or_ignore :: "ustr \<Rightarrow> agent_row \<Rightarrow> unit call" where
  "insert_agent_or_ignore a row = execute_call (\<lambda>db. case hm_get (agent_table db) a of
       Some r \<Rightarrow> db
     | None \<Rightarrow> db\<lparr>agent_table := hm_insert a row (agent_table db)\<rparr>)"

definition update_agent :: "ustr \<Rightarrow> (agent_row \<Rightarrow> agent_row) \<Rightarrow> unit call" where
  "update_agent a f = execute_call (\<lambda>db. case hm_get (agent_table db) a of
       Some r \<Rightarrow> db\<lparr>agent_table := hm_insert a (f r) (agent_table db)\<rparr>
     | None \<Rightarrow> db)"

definition insert_agent :: "call_env \<Rightarrow> ustr \<Rightarrow> agent_row \<Rightarrow> unit call" where
  "insert_agent env a row = statement (\<lambda>db. case hm_get (agent_table db) a of
       Some r \<Rightarrow> Inl (env_violation env AgentIdUnique)
     | None \<Rightarrow> Inr ((), db\<lparr>agent_table := hm_insert a row (agent_table db)\<rparr>))"

definition SYSTEM :: ustr where "SYSTEM = lit ''system''"
definition HUMAN :: ustr where "HUMAN = lit ''human''"
definition CORTICAL_IMPLANT :: ustr where "CORTICAL_IMPLANT = lit ''cortical-implant''"

definition agent_bootstrap_defaults :: "call_env \<Rightarrow> json_codec \<Rightarrow> unit call" where
  "agent_bootstrap_defaults env json = plain_transaction (
     bind_call (to_json json (map capability_as_u8 [CapRead, CapWrite, CapSearch, CapAdmin])) (\<lambda>system_caps.
     seq_call (insert_agent_or_ignore SYSTEM (new_row (env_now env) TrustSystem system_caps)) (
     seq_call (insert_agent_or_ignore HUMAN (new_row (env_now env) TrustPrivileged system_caps)) (
     bind_call (to_json json (map capability_as_u8 [CapRead, CapSearch])) (\<lambda>ci_caps.
     insert_agent_or_ignore CORTICAL_IMPLANT (new_row (env_now env) TrustInternal ci_caps))))))"

definition agent_get :: "json_codec \<Rightarrow> ustr \<Rightarrow> agent_record option call" where
  "agent_get json a = query_call (\<lambda>db. map_option (agent_from_row json a) (hm_get (agent_table db) a))"

definition enrollment_default :: "bool \<Rightarrow> capability list option \<Rightarrow> capability list" where
  "enrollment_default permissive session_caps =
     (case session_caps of
        Some caps \<Rightarrow> caps
      | None \<Rightarrow> if permissive then [CapRead, CapWrite, CapSearch] else [CapRead, CapSearch])"

definition row_not_found :: string where
  "row_not_found = ''no rows returned by a query that expected to return at least one row''"

definition fetch_agent :: "json_codec \<Rightarrow> ustr \<Rightarrow> agent_record call" where
  "fetch_agent json a = statement (\<lambda>db. case hm_get (agent_table db) a of
       None \<Rightarrow> Inl row_not_found
     | Some r \<Rightarrow> Inr (agent_from_row json a r, db))"

definition agent_resolve_or_enroll ::
    "call_env \<Rightarrow> json_codec \<Rightarrow> ustr \<Rightarrow> bool \<Rightarrow> capability list option \<Rightarrow> agent_record call" where
  "agent_resolve_or_enroll env json a permissive session_caps =
     bind_call (agent_get json a) (\<lambda>found. case found of
       Some rec \<Rightarrow> return_call rec
     | None \<Rightarrow>
         bind_call (to_json json (map capability_as_u8 (enrollment_default permissive session_caps))) (\<lambda>caps_json.
         seq_call (insert_agent_or_ignore a (new_row (env_now env) TrustRestricted caps_json))
           (fetch_agent json a)))"

definition agent_update_last_seen :: "call_env \<Rightarrow> ustr \<Rightarrow> unit call" where
  "agent_update_last_seen env a = update_agent a (\<lambda>r. r\<lparr>row_seen := env_now env\<rparr>)"

definition agent_enroll ::
    "call_env \<Rightarrow> json_codec \<Rightarrow> ustr \<Rightarrow> trust_level \<Rightarrow> capability list \<Rightarrow> (bool \<times> agent_record) call" where
  "agent_enroll env json target t caps =
     bind_call (agent_get json target) (\<lambda>existing.
     bind_call (to_json json (map capability_as_u8 caps)) (\<lambda>caps_json.
       case existing of
         Some old \<Rightarrow>
           seq_call (update_agent target (\<lambda>r. r\<lparr>row_trust := trust_as_u8 t, row_capabilities := caps_json, row_seen := env_now env\<rparr>))
             (return_call (False, \<lparr>agent_id = target, trust_level = t, capabilities = caps, allowed_topics = allowed_topics old,
                allowed_categories = allowed_categories old, enrolled_at = enrolled_at old, last_seen_at = env_now env,
                active = active old\<rparr>))
       | None \<Rightarrow>
           seq_call (insert_agent env target (new_row (env_now env) t caps_json))
             (return_call (True, \<lparr>agent_id = target, trust_level = t, capabilities = caps, allowed_topics = None,
                allowed_categories = None, enrolled_at = env_now env, last_seen_at = env_now env, active = True\<rparr>))))"

section \<open>The registry\<close>

datatype registry_error =
  RegistryFailed ustr
| CapabilityDenied ustr capability
| ProtectedAgent ustr
| SelfLockout
| InvalidParams server_error

type_synonym 'a registry_call =
  "store_db \<Rightarrow> fault option list \<Rightarrow> (registry_error + 'a) option \<times> store_db \<times> fault option list"

definition from_store :: "'a call \<Rightarrow> 'a registry_call" where
  "from_store m db fs =
     (case m db fs of
        (Replied a, db', fs') \<Rightarrow> (Some (Inr a), db', fs')
      | (Failed e, db', fs') \<Rightarrow> (Some (Inl (RegistryFailed (lit (store_error_display e)))), db', fs')
      | (Panicked, db', fs') \<Rightarrow> (None, db', fs'))"

definition reg_return :: "registry_error + 'a \<Rightarrow> 'a registry_call" where
  "reg_return r db fs = (Some r, db, fs)"

definition reg_bind :: "'a registry_call \<Rightarrow> ('a \<Rightarrow> 'b registry_call) \<Rightarrow> 'b registry_call" where
  "reg_bind m f db fs =
     (case m db fs of
        (Some (Inr a), db', fs') \<Rightarrow> f a db' fs'
      | (Some (Inl e), db', fs') \<Rightarrow> (Some (Inl e), db', fs')
      | (None, db', fs') \<Rightarrow> (None, db', fs'))"

definition PROTECTED_AGENTS :: "ustr list" where
  "PROTECTED_AGENTS = [SYSTEM, HUMAN]"

text \<open>The settings of a registry; an empty list of capabilities means no override.\<close>

record agent_registry =
  permissive :: bool
  session_caps :: "capability list"

definition registry_caps :: "agent_registry \<Rightarrow> capability list" where
  "registry_caps reg = enrollment_default (permissive reg) (if session_caps reg = [] then None else Some (session_caps reg))"

definition bootstrap_defaults :: "call_env \<Rightarrow> json_codec \<Rightarrow> unit registry_call" where
  "bootstrap_defaults env json = from_store (agent_bootstrap_defaults env json)"

definition resolve_or_enroll :: "call_env \<Rightarrow> json_codec \<Rightarrow> agent_registry \<Rightarrow> ustr \<Rightarrow> agent_record registry_call" where
  "resolve_or_enroll env json reg a = from_store (agent_resolve_or_enroll env json a (permissive reg)
     (if session_caps reg = [] then None else Some (session_caps reg)))"

definition has_capability :: "json_codec \<Rightarrow> ustr \<Rightarrow> capability \<Rightarrow> bool registry_call" where
  "has_capability json a cap = reg_bind (from_store (agent_get json a)) (\<lambda>found. case found of
       None \<Rightarrow> reg_return (Inl (RegistryFailed (lit ''agent '' @ [0x27] @ a @ [0x27] @ lit '' not found'')))
     | Some rec \<Rightarrow> reg_return (Inr (cap \<in> set (capabilities rec))))"

definition require_capability :: "json_codec \<Rightarrow> ustr \<Rightarrow> capability \<Rightarrow> unit registry_call" where
  "require_capability json a cap = reg_bind (has_capability json a cap) (\<lambda>ok.
     if \<not> ok then reg_return (Inl (CapabilityDenied a cap)) else reg_return (Inr ()))"

definition update_last_seen :: "call_env \<Rightarrow> ustr \<Rightarrow> unit registry_call" where
  "update_last_seen env a = from_store (agent_update_last_seen env a)"

definition enroll_agent ::
    "call_env \<Rightarrow> json_codec \<Rightarrow> ustr \<Rightarrow> ustr \<Rightarrow> trust_level \<Rightarrow> capability list \<Rightarrow> (bool \<times> agent_record) registry_call" where
  "enroll_agent env json caller target t caps =
     (if target \<in> set PROTECTED_AGENTS then reg_return (Inl (ProtectedAgent target))
      else if caller = target \<and> CapAdmin \<notin> set caps then reg_return (Inl SelfLockout)
      else from_store (agent_enroll env json target t caps))"

section \<open>Identities and the enrollment tool\<close>

definition extract_agent_id :: "ustr option \<Rightarrow> ustr" where
  "extract_agent_id i =
     (case i of
        Some a \<Rightarrow> if trim a = [] then lit ''anonymous'' else trim a
      | None \<Rightarrow> lit ''anonymous'')"

record resolved_identity =
  who :: ustr
  whose_trust :: trust_level
  whose_capabilities :: "capability list"

definition resolve_identity :: "call_env \<Rightarrow> json_codec \<Rightarrow> agent_registry \<Rightarrow> ustr \<Rightarrow> resolved_identity registry_call" where
  "resolve_identity env json reg a =
     reg_bind (resolve_or_enroll env json reg a) (\<lambda>rec.
     reg_bind (update_last_seen env a) (\<lambda>_.
       reg_return (Inr \<lparr>who = agent_id rec, whose_trust = trust_level rec, whose_capabilities = capabilities rec\<rparr>)))"

record enroll_params =
  param_caller :: "ustr option"
  param_target :: ustr
  param_trust :: ustr
  param_capabilities :: "ustr list"

definition checked_params :: "server_error + 'a \<Rightarrow> 'a registry_call" where
  "checked_params r = reg_return (case r of Inl e \<Rightarrow> Inl (InvalidParams e) | Inr a \<Rightarrow> Inr a)"

text \<open>
  Steps 1 to 4 of the tool, without the parsing of its output format. The two readings of the
  clock are one.
\<close>

definition context_enroll ::
    "call_env \<Rightarrow> json_codec \<Rightarrow> (ustr \<Rightarrow> ustr) \<Rightarrow> agent_registry \<Rightarrow> enroll_params \<Rightarrow> (bool \<times> agent_record) registry_call" where
  "context_enroll env json lower reg p =
     reg_bind (resolve_identity env json reg (extract_agent_id (param_caller p))) (\<lambda>identity.
     reg_bind (require_capability json (who identity) CapAdmin) (\<lambda>_.
     reg_bind (checked_params (validate_enroll_params (param_target p))) (\<lambda>_.
     reg_bind (checked_params (parse_trust_level lower (param_trust p))) (\<lambda>t.
     reg_bind (checked_params (parse_capabilities lower (param_capabilities p))) (\<lambda>caps.
       enroll_agent env json (who identity) (param_target p) t caps)))))"

end
