(* ===== verification/Agent_Props.thy ===== *)
theory Agent_Props
  imports Agent_Registry Store_Effects
begin

text \<open>
  Properties of the agent registry, under any faults of the database: who can gain which
  capabilities, and what never changes.
\<close>

section \<open>Capabilities in the table\<close>

definition codec_ok :: "json_codec \<Rightarrow> bool" where
  "codec_ok json \<longleftrightarrow> (\<forall>bs t. (\<forall>b \<in> set bs. b < 256) \<longrightarrow> bytes_to_json json bs = Inr t \<longrightarrow> bytes_from_json json t = Some bs)"

definition caps_of :: "json_codec \<Rightarrow> store_db \<Rightarrow> ustr \<Rightarrow> capability list option" where
  "caps_of json db a = map_option (\<lambda>row. capabilities (agent_from_row json a row)) (hm_get (agent_table db) a)"

definition is_admin :: "json_codec \<Rightarrow> store_db \<Rightarrow> ustr \<Rightarrow> bool" where
  "is_admin json db a \<longleftrightarrow> (\<exists>cs. caps_of json db a = Some cs \<and> CapAdmin \<in> set cs)"

lemma capability_roundtrip: "List.map_filter capability_try_from (map capability_as_u8 cs) = cs"
  by (induction cs) (auto simp: map_filter_def capability_try_from_def capability_as_u8_def split: capability.splits)

lemma trust_roundtrip: "trust_try_from (trust_as_u8 t mod 256) = Some t"
  by (cases t) (simp_all add: trust_try_from_def trust_as_u8_def)

lemma stored_capabilities:
  assumes "codec_ok json" and "bytes_to_json json (map capability_as_u8 cs) = Inr t"
  shows "capabilities (agent_from_row json a (row\<lparr>row_capabilities := t\<rparr>)) = cs"
    and "capabilities (agent_from_row json a (new_row now l t)) = cs"
proof -
  have "\<forall>b \<in> set (map capability_as_u8 cs). b < 256" by (auto simp: capability_as_u8_def split: capability.splits)
  then have "bytes_from_json json t = Some (map capability_as_u8 cs)" using assms by (auto simp: codec_ok_def)
  then show "capabilities (agent_from_row json a (row\<lparr>row_capabilities := t\<rparr>)) = cs"
      "capabilities (agent_from_row json a (new_row now l t)) = cs"
    by (simp_all add: agent_from_row_def new_row_def or_empty_def capability_roundtrip)
qed

lemma caps_insert: "caps_of json (db\<lparr>agent_table := hm_insert a row (agent_table db)\<rparr>) b =
    (if b = a then Some (capabilities (agent_from_row json a row)) else caps_of json db b)"
  by (simp add: caps_of_def update_conv')

lemma caps_of_None: "caps_of json db a = None \<longleftrightarrow> hm_get (agent_table db) a = None"
  by (simp add: caps_of_def)

section \<open>What the calls do, whatever fails\<close>

lemma statement_cases:
  assumes "statement f db fs = (r, db', fs')"
  obtains e where "r = Failed e" "db' = db" | a where "f db = Inr (a, db')" "r = Replied a"
  using assms by (auto simp: statement_def seq_call_def bind_call_def exchange_def
      split: list.splits option.splits sum.splits prod.splits)

lemma query_cases:
  assumes "query_call f db fs = (r, db', fs')"
  obtains e where "r = Failed e" "db' = db" | "r = Replied (f db)" "db' = db"
  using assms by (auto simp: query_call_def elim: statement_cases)

lemma execute_cases:
  assumes "execute_call f db fs = (r, db', fs')"
  obtains e where "r = Failed e" "db' = db" | "r = Replied ()" "db' = f db"
  using assms by (auto simp: execute_call_def elim: statement_cases)

lemma to_json_cases:
  assumes "to_json json bs db fs = (r, db', fs')"
  obtains e where "r = Failed e" "db' = db" | t where "bytes_to_json json bs = Inr t" "r = Replied t" "db' = db"
  using assms by (auto simp: to_json_def fail_call_def return_call_def split: sum.splits)

lemma bind_cases:
  assumes "bind_call m f db fs = (r, db', fs')"
  obtains e where "m db fs = (Failed e, db', fs')" "r = Failed e"
    | "m db fs = (Panicked, db', fs')" "r = Panicked"
    | a db1 fs1 where "m db fs = (Replied a, db1, fs1)" "f a db1 fs1 = (r, db', fs')"
  using assms by (auto simp: bind_call_def split: prod.splits reply.splits)

lemma reg_bind_cases:
  assumes "reg_bind m f db fs = (r, db', fs')"
  obtains e where "m db fs = (Some (Inl e), db', fs')" "r = Some (Inl e)"
    | "m db fs = (None, db', fs')" "r = None"
    | a db1 fs1 where "m db fs = (Some (Inr a), db1, fs1)" "f a db1 fs1 = (r, db', fs')"
  using assms by (auto simp: reg_bind_def split: prod.splits option.splits sum.splits)

lemma from_store_cases:
  assumes "from_store m db fs = (r, db', fs')"
  obtains r1 where "m db fs = (r1, db', fs')" "\<forall>a. r = Some (Inr a) \<longrightarrow> r1 = Replied a"
  using assms by (auto simp: from_store_def split: prod.splits reply.splits)

text \<open>A row may only appear, with given capabilities.\<close>

lemma insert_or_ignore_caps:
  assumes "insert_agent_or_ignore a row db fs = (r, db', fs')"
  shows "caps_of json db' b = caps_of json db b \<or>
    b = a \<and> caps_of json db a = None \<and> caps_of json db' a = Some (capabilities (agent_from_row json a row))"
  using assms unfolding insert_agent_or_ignore_def
  by (elim execute_cases) (auto simp: caps_insert caps_of_None split: option.splits)

lemma update_agent_caps:
  assumes "update_agent a f db fs = (r, db', fs')"
    and "\<And>row. capabilities (agent_from_row json a (f row)) = capabilities (agent_from_row json a row)"
  shows "caps_of json db' b = caps_of json db b"
  using assms unfolding update_agent_def
  by (elim execute_cases) (auto simp: caps_insert caps_of_def split: option.splits)

lemma resolve_caps:
  assumes "codec_ok json" and "agent_resolve_or_enroll env json a p s db fs = (r, db', fs')"
  shows "(caps_of json db' b = caps_of json db b \<or>
      b = a \<and> caps_of json db a = None \<and> caps_of json db' a = Some (enrollment_default p s)) \<and>
    (\<forall>rec. r = Replied rec \<longrightarrow> agent_id rec = a \<and> caps_of json db' a = Some (capabilities rec))"
  using assms(2) unfolding agent_resolve_or_enroll_def
proof (elim bind_cases)
  fix found db1 fs1
  assume get: "agent_get json a db fs = (Replied found, db1, fs1)"
    and rest: "(case found of Some rec \<Rightarrow> return_call rec
      | None \<Rightarrow> bind_call (to_json json (map capability_as_u8 (enrollment_default p s))) (\<lambda>caps_json.
          seq_call (insert_agent_or_ignore a (new_row (env_now env) TrustRestricted caps_json)) (fetch_agent json a))) db1 fs1 =
      (r, db', fs')"
  have f: "found = map_option (agent_from_row json a) (hm_get (agent_table db) a)" "db1 = db"
    using get unfolding agent_get_def by (auto elim: query_cases)
  show ?thesis
  proof (cases found)
    case (Some rec)
    then show ?thesis using rest f by (auto simp: return_call_def caps_of_def agent_from_row_def)
  next
    case None
    with f have none: "caps_of json db a = None" by (simp add: caps_of_None)
    from rest None show ?thesis unfolding f(2)
    proof (simp, elim bind_cases to_json_cases)
      fix t db2 fs2 t'
      assume t: "bytes_to_json json (map capability_as_u8 (enrollment_default p s)) = Inr t'" "Replied t = Replied t'" "db2 = db"
        and ins: "seq_call (insert_agent_or_ignore a (new_row (env_now env) TrustRestricted t)) (fetch_agent json a) db2 fs2 = (r, db', fs')"
      have caps: "capabilities (agent_from_row json a (new_row (env_now env) TrustRestricted t)) = enrollment_default p s"
        using stored_capabilities(2) [OF assms(1) t(1)] t(2) by simp
      from ins show ?thesis unfolding seq_call_def
      proof (elim bind_cases)
        fix u db3 fs3
        assume i: "insert_agent_or_ignore a (new_row (env_now env) TrustRestricted t) db2 fs2 = (Replied u, db3, fs3)"
          and fetch: "fetch_agent json a db3 fs3 = (r, db', fs')"
        have "db' = db3" "\<forall>rec. r = Replied rec \<longrightarrow> agent_id rec = a \<and> caps_of json db3 a = Some (capabilities rec)"
          using fetch unfolding fetch_agent_def
          by (auto elim!: statement_cases simp: caps_of_def agent_from_row_def split: option.splits)
        then show ?thesis using insert_or_ignore_caps [OF i, of json b] caps none t(3) by auto
      qed (use insert_or_ignore_caps [of a "new_row (env_now env) TrustRestricted t" db2 fs2 _ db' fs' json b] caps t(3) in
          \<open>auto simp: insert_agent_or_ignore_def execute_call_def elim: statement_cases\<close>)
    qed auto
  qed
qed (auto simp: agent_get_def elim: query_cases)


lemma enroll_caps:
  assumes "codec_ok json" and "agent_enroll env json t l cs db fs = (r, db', fs')"
  shows "(caps_of json db' b = caps_of json db b \<or> b = t \<and> caps_of json db' t = Some cs) \<and>
    (\<forall>x. r = Replied x \<longrightarrow> caps_of json db' t = Some cs \<and> agent_id (snd x) = t \<and> trust_level (snd x) = l \<and>
       capabilities (snd x) = cs)"
  using assms(2) unfolding agent_enroll_def
proof (elim bind_cases to_json_cases)
  fix found db1 fs1 j db2 fs2 j'
  assume get: "agent_get json t db fs = (Replied found, db1, fs1)"
    and j: "bytes_to_json json (map capability_as_u8 cs) = Inr j'" "Replied j = Replied j'" "db2 = db1"
    and rest: "(case found of
        Some old \<Rightarrow>
          seq_call (update_agent t (\<lambda>r. r\<lparr>row_trust := trust_as_u8 l, row_capabilities := j, row_seen := env_now env\<rparr>))
            (return_call (False, \<lparr>agent_id = t, trust_level = l, capabilities = cs, allowed_topics = allowed_topics old,
               allowed_categories = allowed_categories old, enrolled_at = enrolled_at old, last_seen_at = env_now env,
               active = active old\<rparr>))
      | None \<Rightarrow>
          seq_call (insert_agent env t (new_row (env_now env) l j))
            (return_call (True, \<lparr>agent_id = t, trust_level = l, capabilities = cs, allowed_topics = None,
               allowed_categories = None, enrolled_at = env_now env, last_seen_at = env_now env, active = True\<rparr>))) db2 fs2 =
      (r, db', fs')"
  have f: "found = map_option (agent_from_row json t) (hm_get (agent_table db) t)" "db1 = db"
    using get unfolding agent_get_def by (auto elim: query_cases)
  have caps: "capabilities (agent_from_row json t (row\<lparr>row_trust := x, row_capabilities := j, row_seen := y\<rparr>)) = cs"
      "capabilities (agent_from_row json t (new_row now l j)) = cs" for row x y now
    using stored_capabilities [OF assms(1) j(1)] j(2) by (simp_all add: agent_from_row_def)
  show ?thesis
    using rest f caps j(3)
    by (cases found) (auto simp: seq_call_def return_call_def update_agent_def insert_agent_def caps_insert caps_of_None
        elim!: bind_cases execute_cases statement_cases split: option.splits if_splits)
qed (auto simp: agent_get_def elim: query_cases)

text \<open>The registry's calls, in the same terms.\<close>

lemma update_last_seen_caps:
  "update_last_seen env a db fs = (r, db', fs') \<Longrightarrow> caps_of json db' b = caps_of json db b"
  unfolding update_last_seen_def agent_update_last_seen_def
  by (elim from_store_cases update_agent_caps) (simp add: agent_from_row_def)

lemma resolve_or_enroll_caps:
  assumes "codec_ok json" and "resolve_or_enroll env json reg a db fs = (r, db', fs')"
  shows "(caps_of json db' b = caps_of json db b \<or>
      b = a \<and> caps_of json db a = None \<and> caps_of json db' a = Some (registry_caps reg)) \<and>
    (\<forall>rec. r = Some (Inr rec) \<longrightarrow> agent_id rec = a \<and> caps_of json db' a = Some (capabilities rec))"
proof -
  from assms(2) obtain r1 where "agent_resolve_or_enroll env json a (permissive reg)
      (if session_caps reg = [] then None else Some (session_caps reg)) db fs = (r1, db', fs')" "\<forall>x. r = Some (Inr x) \<longrightarrow> r1 = Replied x"
    unfolding resolve_or_enroll_def by (rule from_store_cases)
  with resolve_caps [OF assms(1) this(1), of b] show ?thesis unfolding registry_caps_def by blast
qed

lemma resolve_identity_caps:
  assumes "codec_ok json" and "resolve_identity env json reg a db fs = (r, db', fs')"
  shows "(caps_of json db' b = caps_of json db b \<or>
      b = a \<and> caps_of json db a = None \<and> caps_of json db' a = Some (registry_caps reg)) \<and>
    (\<forall>i. r = Some (Inr i) \<longrightarrow> who i = a \<and> caps_of json db' a = Some (whose_capabilities i))"
  using assms(2) unfolding resolve_identity_def
proof (rule reg_bind_cases)
  fix rec db1 fs1
  assume r: "resolve_or_enroll env json reg a db fs = (Some (Inr rec), db1, fs1)"
    and rest: "reg_bind (update_last_seen env a) (\<lambda>_. reg_return (Inr \<lparr>who = agent_id rec,
      whose_trust = trust_level rec, whose_capabilities = capabilities rec\<rparr>)) db1 fs1 = (r, db', fs')"
  note res = resolve_or_enroll_caps [OF assms(1) r]
  from rest have "(\<forall>c. caps_of json db' c = caps_of json db1 c) \<and>
      (\<forall>i. r = Some (Inr i) \<longrightarrow> who i = agent_id rec \<and> whose_capabilities i = capabilities rec)"
    by (rule reg_bind_cases) (auto simp: reg_return_def update_last_seen_caps)
  then show ?thesis using res [of b] res [of a] by auto
qed (use resolve_or_enroll_caps [OF assms(1), of env reg a db fs _ db' fs' b] in auto)

lemma require_capability_cases:
  assumes "require_capability json a cap db fs = (r, db', fs')"
  shows "db' = db \<and> (r = Some (Inr ()) \<longrightarrow> (\<exists>cs. caps_of json db a = Some cs \<and> cap \<in> set cs))"
  using assms unfolding require_capability_def has_capability_def agent_get_def
  by (elim reg_bind_cases from_store_cases query_cases)
    (auto simp: reg_return_def caps_of_def split: option.splits if_splits)

lemma enroll_agent_caps:
  assumes "codec_ok json" and "enroll_agent env json c t l cs db fs = (r, db', fs')"
  shows "(caps_of json db' b = caps_of json db b \<or>
      b = t \<and> t \<notin> set PROTECTED_AGENTS \<and> (c = t \<longrightarrow> CapAdmin \<in> set cs) \<and> caps_of json db' t = Some cs) \<and>
    (\<forall>x. r = Some (Inr x) \<longrightarrow> t \<notin> set PROTECTED_AGENTS \<and> (c = t \<longrightarrow> CapAdmin \<in> set cs) \<and> caps_of json db' t = Some cs)"
proof (cases "t \<in> set PROTECTED_AGENTS \<or> c = t \<and> CapAdmin \<notin> set cs")
  case True
  then show ?thesis using assms(2) by (auto simp: enroll_agent_def reg_return_def split: if_splits)
next
  case False
  with assms(2) have "from_store (agent_enroll env json t l cs) db fs = (r, db', fs')" by (auto simp: enroll_agent_def)
  then obtain r1 where "agent_enroll env json t l cs db fs = (r1, db', fs')" "\<forall>x. r = Some (Inr x) \<longrightarrow> r1 = Replied x"
    by (rule from_store_cases)
  with enroll_caps [OF assms(1) this(1), of b] False show ?thesis by auto
qed


text \<open>Calls that only add agents, with capabilities that a relation allows.\<close>

definition adds_agents :: "json_codec \<Rightarrow> (ustr \<Rightarrow> capability list \<Rightarrow> bool) \<Rightarrow> 'a call \<Rightarrow> bool" where
  "adds_agents json A m \<longleftrightarrow> (\<forall>db fs b. let db' = fst (snd (m db fs)) in
     caps_of json db' b = caps_of json db b \<or> caps_of json db b = None \<and> (\<exists>cs. A b cs \<and> caps_of json db' b = Some cs))"

lemma adds_agents_bind:
  assumes "adds_agents json A m" and "\<And>x. adds_agents json A (f x)"
  shows "adds_agents json A (bind_call m f)"
  unfolding adds_agents_def Let_def
proof (intro allI)
  fix db fs b
  obtain r db1 fs1 where m: "m db fs = (r, db1, fs1)" by (cases "m db fs")
  note step = assms(1) [unfolded adds_agents_def Let_def, rule_format, of db fs b, unfolded m, simplified]
  show "caps_of json (fst (snd (bind_call m f db fs))) b = caps_of json db b \<or>
    caps_of json db b = None \<and> (\<exists>cs. A b cs \<and> caps_of json (fst (snd (bind_call m f db fs))) b = Some cs)"
  proof (cases r)
    case (Replied x)
    then have "bind_call m f db fs = f x db1 fs1" using m by (simp add: bind_call_def)
    then show ?thesis using step assms(2) [of x, unfolded adds_agents_def Let_def, rule_format, of db1 fs1 b] by auto
  qed (use m step in \<open>auto simp: bind_call_def\<close>)
qed

lemma adds_agents_same: "(\<And>db fs. fst (snd (m db fs)) = db) \<Longrightarrow> adds_agents json A m"
  by (simp add: adds_agents_def)

lemma adds_agents_insert:
  assumes "A a (capabilities (agent_from_row json a row))"
  shows "adds_agents json A (insert_agent_or_ignore a row)"
  unfolding adds_agents_def Let_def
proof (intro allI)
  fix db fs b
  obtain r db' fs' where i: "insert_agent_or_ignore a row db fs = (r, db', fs')" by (cases "insert_agent_or_ignore a row db fs")
  show "caps_of json (fst (snd (insert_agent_or_ignore a row db fs))) b = caps_of json db b \<or>
    caps_of json db b = None \<and> (\<exists>cs. A b cs \<and> caps_of json (fst (snd (insert_agent_or_ignore a row db fs))) b = Some cs)"
    using insert_or_ignore_caps [OF i, of json b] assms i by auto
qed

lemma adds_agents_json:
  assumes "\<And>t. bytes_to_json json bs = Inr t \<Longrightarrow> adds_agents json A (f t)"
  shows "adds_agents json A (bind_call (to_json json bs) f)"
proof (cases "bytes_to_json json bs")
  case (Inl e)
  then show ?thesis by (intro adds_agents_same) (simp add: bind_call_def to_json_def fail_call_def)
next
  case (Inr t)
  then have "bind_call (to_json json bs) f = f t" by (intro ext) (simp add: bind_call_def to_json_def return_call_def)
  then show ?thesis using assms [OF Inr] by simp
qed

lemma exchange_state: "fst (snd (exchange to_err db fs)) = db"
  by (simp add: exchange_def split: list.splits option.splits)

lemma adds_agents_transaction:
  assumes "adds_agents json A m"
  shows "adds_agents json A (plain_transaction m)"
proof -
  let ?m = "bind_call (seq_call (exchange database_error) m) (\<lambda>a. seq_call (exchange database_error) (return_call a))"
  have "adds_agents json A ?m" unfolding seq_call_def
    by (intro adds_agents_bind adds_agents_same assms exchange_state) (simp add: return_call_def)
  then have "caps_of json (fst (snd (?m db fs))) b = caps_of json db b \<or>
      caps_of json db b = None \<and> (\<exists>cs. A b cs \<and> caps_of json (fst (snd (?m db fs))) b = Some cs)" for db fs b
    by (simp add: adds_agents_def Let_def)
  moreover have "fst (snd (plain_transaction m db fs)) \<in> {fst (snd (?m db fs)), db}" for db fs
    by (auto simp: plain_transaction_def split: prod.splits reply.splits)
  ultimately show ?thesis unfolding adds_agents_def Let_def by (metis empty_iff insert_iff)
qed

definition bootstrapped :: "ustr \<Rightarrow> capability list \<Rightarrow> bool" where
  "bootstrapped a cs \<longleftrightarrow> a \<in> {SYSTEM, HUMAN} \<and> cs = [CapRead, CapWrite, CapSearch, CapAdmin] \<or>
     a = CORTICAL_IMPLANT \<and> cs = [CapRead, CapSearch]"

lemma bootstrap_adds: "codec_ok json \<Longrightarrow> adds_agents json bootstrapped (agent_bootstrap_defaults env json)"
  unfolding agent_bootstrap_defaults_def seq_call_def
  by (intro adds_agents_transaction adds_agents_json adds_agents_bind adds_agents_insert)
    (simp_all add: stored_capabilities(2) bootstrapped_def)


section \<open>Sequences of calls\<close>

datatype registry_event = Bootstrap call_env | Resolve call_env "ustr option" | Enroll call_env enroll_params

definition registry_after ::
    "json_codec \<Rightarrow> (ustr \<Rightarrow> ustr) \<Rightarrow> agent_registry \<Rightarrow> store_db \<Rightarrow> registry_event \<times> fault option list \<Rightarrow> store_db" where
  "registry_after json lower reg db ef = (case ef of (e, fs) \<Rightarrow>
     (case e of
        Bootstrap env \<Rightarrow> fst (snd (bootstrap_defaults env json db fs))
      | Resolve env i \<Rightarrow> fst (snd (resolve_identity env json reg (extract_agent_id i) db fs))
      | Enroll env p \<Rightarrow> fst (snd (context_enroll env json lower reg p db fs))))"

definition registry_history ::
    "json_codec \<Rightarrow> (ustr \<Rightarrow> ustr) \<Rightarrow> agent_registry \<Rightarrow> store_db \<Rightarrow> (registry_event \<times> fault option list) list \<Rightarrow> store_db" where
  "registry_history json lower reg db es = foldl (registry_after json lower reg) db es"

definition grants :: "(ustr \<Rightarrow> ustr) \<Rightarrow> enroll_params \<Rightarrow> ustr \<Rightarrow> capability list \<Rightarrow> bool" where
  "grants lower p a cs \<longleftrightarrow> a = param_target p \<and> a \<notin> set PROTECTED_AGENTS \<and> parse_capabilities lower (param_capabilities p) = Inr cs"

lemma checked_cases: "checked_params q db fs = (r, db', fs') \<Longrightarrow> db' = db \<and> (\<forall>x. r = Some (Inr x) \<longrightarrow> q = Inr x)"
  by (auto simp: checked_params_def reg_return_def split: sum.splits)

lemma context_enroll_caps:
  assumes "codec_ok json" and "context_enroll env json lower reg p db fs = (r, db', fs')"
  defines "c \<equiv> extract_agent_id (param_caller p)"
  shows "caps_of json db' b = caps_of json db b \<or>
    caps_of json db b = None \<and> caps_of json db' b = Some (registry_caps reg) \<or>
    (\<exists>cs db1. grants lower p b cs \<and> caps_of json db' b = Some cs \<and> is_admin json db1 c \<and>
      (caps_of json db1 c = caps_of json db c \<or> caps_of json db1 c = Some (registry_caps reg)))"
  using assms(2) unfolding context_enroll_def c_def [symmetric]
proof (rule reg_bind_cases)
  fix i db1 fs1
  assume i: "resolve_identity env json reg c db fs = (Some (Inr i), db1, fs1)"
    and rest: "reg_bind (require_capability json (who i) CapAdmin) (\<lambda>_.
      reg_bind (checked_params (validate_enroll_params (param_target p))) (\<lambda>_.
      reg_bind (checked_params (parse_trust_level lower (param_trust p))) (\<lambda>t.
      reg_bind (checked_params (parse_capabilities lower (param_capabilities p))) (\<lambda>caps.
        enroll_agent env json (who i) (param_target p) t caps)))) db1 fs1 = (r, db', fs')"
  note res = resolve_identity_caps [OF assms(1) i]
  have "caps_of json db' b = caps_of json db1 b \<or>
      (\<exists>cs. grants lower p b cs \<and> caps_of json db' b = Some cs \<and> is_admin json db1 c)"
    using rest
  proof (rule reg_bind_cases)
    fix u db2 fs2
    assume "require_capability json (who i) CapAdmin db1 fs1 = (Some (Inr u), db2, fs2)"
      and rest: "reg_bind (checked_params (validate_enroll_params (param_target p))) (\<lambda>_.
        reg_bind (checked_params (parse_trust_level lower (param_trust p))) (\<lambda>t.
        reg_bind (checked_params (parse_capabilities lower (param_capabilities p))) (\<lambda>caps.
          enroll_agent env json (who i) (param_target p) t caps))) db2 fs2 = (r, db', fs')"
    from require_capability_cases [OF this(1)] have db2: "db2 = db1" and admin: "is_admin json db1 c"
      using res [of b] by (auto simp: is_admin_def)
    from rest show ?thesis unfolding db2
      by (elim reg_bind_cases) (use admin in \<open>auto simp: grants_def dest!: checked_cases enroll_agent_caps [OF assms(1), where b = b]\<close>)
  qed (auto dest!: require_capability_cases)
  then show ?thesis using res [of b] res [of c] by metis
qed (use resolve_identity_caps [OF assms(1), of env reg c db fs _ db' fs' b] in auto)


lemma bootstrap_caps:
  assumes "codec_ok json"
  shows "caps_of json (fst (snd (bootstrap_defaults env json db fs))) b = caps_of json db b \<or>
    caps_of json db b = None \<and> (\<exists>cs. bootstrapped b cs \<and> caps_of json (fst (snd (bootstrap_defaults env json db fs))) b = Some cs)"
proof -
  have "fst (snd (bootstrap_defaults env json db fs)) = fst (snd (agent_bootstrap_defaults env json db fs))"
    by (auto simp: bootstrap_defaults_def from_store_def split: prod.splits reply.splits)
  then show ?thesis using bootstrap_adds [OF assms, of env, unfolded adds_agents_def Let_def] by metis
qed

lemma registry_after_caps:
  assumes "codec_ok json" and "db' = registry_after json lower reg db (e, fs)"
  shows "caps_of json db' b = caps_of json db b \<or>
    caps_of json db b = None \<and> (\<exists>cs. (bootstrapped b cs \<or> cs = registry_caps reg) \<and> caps_of json db' b = Some cs) \<or>
    (\<exists>env p cs db1. e = Enroll env p \<and> grants lower p b cs \<and> caps_of json db' b = Some cs \<and>
      is_admin json db1 (extract_agent_id (param_caller p)) \<and>
      (caps_of json db1 (extract_agent_id (param_caller p)) = caps_of json db (extract_agent_id (param_caller p)) \<or>
       caps_of json db1 (extract_agent_id (param_caller p)) = Some (registry_caps reg)))"
proof (cases e)
  case (Bootstrap env)
  then show ?thesis using assms(2) bootstrap_caps [OF assms(1), of env db fs b] by (auto simp: registry_after_def)
next
  case (Resolve env i)
  obtain r db1 fs1 where r: "resolve_identity env json reg (extract_agent_id i) db fs = (r, db1, fs1)"
    by (cases "resolve_identity env json reg (extract_agent_id i) db fs")
  then show ?thesis using assms(2) Resolve resolve_identity_caps [OF assms(1) r, of b] by (auto simp: registry_after_def)
next
  case (Enroll env p)
  obtain r db1 fs1 where r: "context_enroll env json lower reg p db fs = (r, db1, fs1)"
    by (cases "context_enroll env json lower reg p db fs")
  then have "db' = db1" using assms(2) Enroll by (simp add: registry_after_def)
  with context_enroll_caps [OF assms(1) r, of b] Enroll show ?thesis by blast
qed

lemma history_snoc: "registry_history json lower reg db (es @ [e]) = registry_after json lower reg (registry_history json lower reg db es) e"
  by (simp add: registry_history_def)

lemma protected_unchanged:
  assumes "codec_ok json" and "a \<in> set PROTECTED_AGENTS" and "caps_of json db a = Some cs"
  shows "caps_of json (registry_history json lower reg db es) a = Some cs"
proof (induction es rule: rev_induct)
  case Nil
  then show ?case using assms(3) by (simp add: registry_history_def)
next
  case (snoc ef es)
  obtain e fs where ef: "ef = (e, fs)" by (cases ef)
  show ?case
    using registry_after_caps [OF assms(1) refl, where lower = lower and reg = reg and db = "registry_history json lower reg db es"
        and e = e and fs = fs and b = a] snoc assms(2)
    by (auto simp: history_snoc ef grants_def)
qed

text \<open>
  C36. No call, whoever makes it and whatever fails, changes what the agents \<open>system\<close> and
  \<open>human\<close> may do once they are there: an administrator is never locked out.
\<close>

theorem protected_agents_keep_admin:
  assumes "codec_ok json" and "is_admin json db HUMAN"
  shows "is_admin json (registry_history json lower reg db es) HUMAN"
  using assms(2) protected_unchanged [OF assms(1), of HUMAN db _ lower reg es] by (auto simp: is_admin_def PROTECTED_AGENTS_def)

lemma admin_origin:
  assumes "codec_ok json" and "CapAdmin \<notin> set (registry_caps reg)"
    and "is_admin json (registry_history json lower reg db es) a" and "\<not> is_admin json db a" and "a \<notin> {SYSTEM, HUMAN}"
  shows "\<exists>pre env p fs post cs. es = pre @ (Enroll env p, fs) # post \<and> grants lower p a cs \<and> CapAdmin \<in> set cs \<and>
    is_admin json (registry_history json lower reg db pre) (extract_agent_id (param_caller p))"
  using assms(3)
proof (induction es rule: rev_induct)
  case Nil
  then show ?case using assms(4) by (simp add: registry_history_def)
next
  case (snoc ef es)
  obtain e fs where ef: "ef = (e, fs)" by (cases ef)
  let ?db = "registry_history json lower reg db es"
  show ?case
  proof (cases "is_admin json ?db a")
    case True
    from snoc.IH [OF this] obtain pre env p gs post cs where
      "es = pre @ (Enroll env p, gs) # post" "grants lower p a cs" "CapAdmin \<in> set cs"
      "is_admin json (registry_history json lower reg db pre) (extract_agent_id (param_caller p))" by blast
    then show ?thesis by (intro exI [of _ pre] exI [of _ env] exI [of _ p] exI [of _ gs] exI [of _ "post @ [ef]"] exI [of _ cs]) simp
  next
    case False
    have now: "is_admin json (registry_after json lower reg ?db (e, fs)) a" using snoc.prems by (simp add: history_snoc ef)
    have "caps_of json (registry_after json lower reg ?db (e, fs)) a \<noteq> caps_of json ?db a" using now False by (auto simp: is_admin_def)
    moreover have "\<not> (bootstrapped a cs \<or> cs = registry_caps reg)"
      if "caps_of json (registry_after json lower reg ?db (e, fs)) a = Some cs" for cs
      using now that assms(2,5) by (auto simp: is_admin_def bootstrapped_def)
    ultimately obtain env p cs db1 where e: "e = Enroll env p" and g: "grants lower p a cs"
      "caps_of json (registry_after json lower reg ?db (e, fs)) a = Some cs"
      and c: "is_admin json db1 (extract_agent_id (param_caller p))"
      "caps_of json db1 (extract_agent_id (param_caller p)) = caps_of json ?db (extract_agent_id (param_caller p)) \<or>
       caps_of json db1 (extract_agent_id (param_caller p)) = Some (registry_caps reg)"
      using registry_after_caps [OF assms(1) refl, where lower = lower and reg = reg and db = ?db and e = e and fs = fs and b = a]
      by blast
    have "is_admin json ?db (extract_agent_id (param_caller p))" using c assms(2) by (auto simp: is_admin_def)
    moreover have "CapAdmin \<in> set cs" using now g(2) by (simp add: is_admin_def)
    ultimately show ?thesis using e g(1)
      by (intro exI [of _ es] exI [of _ env] exI [of _ p] exI [of _ fs] exI [of _ "[]"] exI [of _ cs]) (simp add: ef)
  qed
qed

text \<open>
  If new agents do not get it by default, an agent other than \<open>system\<close> and \<open>human\<close> can hold
  the administrator capability only because a caller that held it at that moment asked the
  enrollment tool for it, over any sequence of calls with any faults.
\<close>

theorem admin_only_by_grant:
  assumes "codec_ok json" and "CapAdmin \<notin> set (registry_caps reg)"
    and "is_admin json (registry_history json lower reg db es) a" and "\<not> is_admin json db a" and "a \<notin> {SYSTEM, HUMAN}"
  shows "\<exists>pre env p fs post cs. es = pre @ (Enroll env p, fs) # post \<and> a = param_target p \<and>
    parse_capabilities lower (param_capabilities p) = Inr cs \<and> CapAdmin \<in> set cs \<and>
    is_admin json (registry_history json lower reg db pre) (extract_agent_id (param_caller p))"
  using admin_origin [OF assms] unfolding grants_def by blast


section \<open>Enrollment without faults\<close>

definition codec_total :: "json_codec \<Rightarrow> bool" where
  "codec_total json \<longleftrightarrow> (\<forall>bs. \<exists>t. bytes_to_json json bs = Inr t)"

definition put_row :: "ustr \<Rightarrow> agent_row \<Rightarrow> store_db \<Rightarrow> store_db" where
  "put_row a row db = db\<lparr>agent_table := hm_insert a row (agent_table db)\<rparr>"

lemma put_row_simps [simp]:
  "hm_get (agent_table (put_row a row db)) b = (if b = a then Some row else hm_get (agent_table db) b)"
  "(put_row a row db)\<lparr>agent_table := t\<rparr> = db\<lparr>agent_table := t\<rparr>"
  by (simp_all add: put_row_def)

lemma calm_known_identity:
  assumes "hm_get (agent_table db) a = Some row"
  shows "\<exists>i. resolve_identity env json reg a db [] = (Some (Inr i), put_row a (row\<lparr>row_seen := env_now env\<rparr>) db, []) \<and> who i = a"
  using assms by (simp add: resolve_identity_def resolve_or_enroll_def agent_resolve_or_enroll_def agent_get_def from_store_def
      reg_bind_def update_last_seen_def agent_update_last_seen_def update_agent_def reg_return_def agent_from_row_def
      calm_simps put_row_def)

text \<open>The record an enrollment stores and replies, given the one before.\<close>

definition enrolled_record :: "nat \<Rightarrow> ustr \<Rightarrow> trust_level \<Rightarrow> capability list \<Rightarrow> agent_record option \<Rightarrow> agent_record" where
  "enrolled_record now t l cs before =
     (case before of
        None \<Rightarrow> \<lparr>agent_id = t, trust_level = l, capabilities = cs, allowed_topics = None, allowed_categories = None,
          enrolled_at = now, last_seen_at = now, active = True\<rparr>
      | Some old \<Rightarrow> old\<lparr>trust_level := l, capabilities := cs, last_seen_at := now\<rparr>)"

lemma calm_get_agent: "agent_get json a db [] = (Replied (map_option (agent_from_row json a) (hm_get (agent_table db) a)), db, [])"
  by (simp add: agent_get_def calm_simps)

lemma stored_record:
  assumes "codec_ok json" and "bytes_to_json json (map capability_as_u8 cs) = Inr j"
  shows "agent_from_row json t (row\<lparr>row_trust := trust_as_u8 l, row_capabilities := j, row_seen := now\<rparr>) =
      enrolled_record now t l cs (Some (agent_from_row json t row))"
    and "agent_from_row json t (new_row now l j) = enrolled_record now t l cs None"
  using stored_capabilities [OF assms] by (simp_all add: agent_from_row_def enrolled_record_def new_row_def trust_roundtrip)

lemma calm_enroll:
  assumes "codec_ok json" and "codec_total json" and "t \<notin> set PROTECTED_AGENTS" and "c = t \<longrightarrow> CapAdmin \<in> set cs"
  obtains row where "enroll_agent env json c t l cs db [] = (Some (Inr (hm_get (agent_table db) t = None,
      enrolled_record (env_now env) t l cs (map_option (agent_from_row json t) (hm_get (agent_table db) t)))), put_row t row db, [])"
    "agent_from_row json t row = enrolled_record (env_now env) t l cs (map_option (agent_from_row json t) (hm_get (agent_table db) t))"
proof -
  obtain j where j: "bytes_to_json json (map capability_as_u8 cs) = Inr j" using assms(2) by (auto simp: codec_total_def)
  show thesis
  proof (cases "hm_get (agent_table db) t")
    case None
    let ?row = "new_row (env_now env) l j"
    have "enroll_agent env json c t l cs db [] =
        (Some (Inr (True, enrolled_record (env_now env) t l cs None)), put_row t ?row db, [])"
      using assms(3,4) j None by (auto simp: enroll_agent_def from_store_def agent_enroll_def calm_get_agent to_json_def
          insert_agent_def calm_simps put_row_def enrolled_record_def)
    then show thesis using that [of ?row] None stored_record(2) [OF assms(1) j] by simp
  next
    case (Some old)
    let ?row = "old\<lparr>row_trust := trust_as_u8 l, row_capabilities := j, row_seen := env_now env\<rparr>"
    have "enroll_agent env json c t l cs db [] =
        (Some (Inr (False, enrolled_record (env_now env) t l cs (Some (agent_from_row json t old)))), put_row t ?row db, [])"
      using assms(3,4) j Some by (auto simp: enroll_agent_def from_store_def agent_enroll_def calm_get_agent to_json_def
          update_agent_def calm_simps put_row_def enrolled_record_def agent_from_row_def)
    then show thesis using that [of ?row] Some stored_record(1) [OF assms(1) j] by simp
  qed
qed

text \<open>A row after the call was seen then, if its agent made the call.\<close>

definition seen_by_call :: "nat \<Rightarrow> ustr \<Rightarrow> ustr \<Rightarrow> agent_row option \<Rightarrow> agent_row option" where
  "seen_by_call now c b row = (if b = c then map_option (\<lambda>r. r\<lparr>row_seen := now\<rparr>) row else row)"

lemma calm_context_enroll:
  assumes "codec_ok json" and "codec_total json" and "is_admin json db c" and "c = extract_agent_id (param_caller p)"
    and "validate_enroll_params (param_target p) = Inr ()" and "parse_trust_level lower (param_trust p) = Inr l"
    and "parse_capabilities lower (param_capabilities p) = Inr cs"
    and "param_target p \<notin> {SYSTEM, HUMAN}" and "c = param_target p \<longrightarrow> CapAdmin \<in> set cs"
  defines "t \<equiv> param_target p"
  shows "\<exists>r db'. context_enroll env json lower reg p db [] = (Some (Inr (hm_get (agent_table db) t = None, r)), db', []) \<and>
    r = enrolled_record (env_now env) t l cs (map_option (agent_from_row json t) (hm_get (agent_table db) t)) \<and>
    agent_get json t db' [] = (Replied (Some r), db', []) \<and>
    (\<forall>b. b \<noteq> t \<longrightarrow> hm_get (agent_table db') b = seen_by_call (env_now env) c b (hm_get (agent_table db) b)) \<and>
    db'\<lparr>agent_table := agent_table db\<rparr> = db"
proof -
  from assms(3) obtain row where row: "hm_get (agent_table db) c = Some row" "CapAdmin \<in> set (capabilities (agent_from_row json c row))"
    by (auto simp: is_admin_def caps_of_def)
  define db1 where "db1 = put_row c (row\<lparr>row_seen := env_now env\<rparr>) db"
  obtain i where i: "resolve_identity env json reg c db [] = (Some (Inr i), db1, [])" "who i = c"
    using calm_known_identity [OF row(1), of env json reg] unfolding db1_def by blast
  have cap: "require_capability json c CapAdmin db1 [] = (Some (Inr ()), db1, [])"
    using row(2) by (simp add: require_capability_def has_capability_def from_store_def reg_bind_def reg_return_def
        calm_get_agent db1_def agent_from_row_def)
  have "t \<notin> set PROTECTED_AGENTS" "c = t \<longrightarrow> CapAdmin \<in> set cs" using assms(8,9) by (simp_all add: PROTECTED_AGENTS_def t_def)
  from calm_enroll [OF assms(1,2) this, of env l db1] obtain row' where
    e: "enroll_agent env json c t l cs db1 [] = (Some (Inr (hm_get (agent_table db1) t = None,
      enrolled_record (env_now env) t l cs (map_option (agent_from_row json t) (hm_get (agent_table db1) t)))), put_row t row' db1, [])"
    and row': "agent_from_row json t row' = enrolled_record (env_now env) t l cs (map_option (agent_from_row json t) (hm_get (agent_table db1) t))"
    by blast
  have same: "(hm_get (agent_table db1) t = None) = (hm_get (agent_table db) t = None)"
    "enrolled_record (env_now env) t l cs (map_option (agent_from_row json t) (hm_get (agent_table db1) t)) =
     enrolled_record (env_now env) t l cs (map_option (agent_from_row json t) (hm_get (agent_table db) t))"
    using row(1) by (auto simp: db1_def enrolled_record_def agent_from_row_def)
  let ?r = "enrolled_record (env_now env) t l cs (map_option (agent_from_row json t) (hm_get (agent_table db) t))"
  have "context_enroll env json lower reg p db [] = (Some (Inr (hm_get (agent_table db) t = None, ?r)), put_row t row' db1, [])"
    using i cap e assms(5-7) same unfolding t_def
    by (simp add: context_enroll_def assms(4) [symmetric] reg_bind_def checked_params_def reg_return_def)
  moreover have "agent_get json t (put_row t row' db1) [] = (Replied (Some ?r), put_row t row' db1, [])"
    using row' same by (simp add: calm_get_agent)
  moreover have "hm_get (agent_table (put_row t row' db1)) b = seen_by_call (env_now env) c b (hm_get (agent_table db) b)" if "b \<noteq> t" for b
    using that row(1) by (simp add: db1_def seen_by_call_def)
  moreover have "(put_row t row' db1)\<lparr>agent_table := agent_table db\<rparr> = db" by (simp add: db1_def)
  ultimately show ?thesis by blast
qed


text \<open>
  C37. Without faults a known administrator enrolls any agent but the protected ones and, lest it
  lock itself out, itself without the administrator capability. The reply says whether the agent
  is new and carries its record, which the table then holds: a new record with the trust and the
  capabilities asked for, or the old one with its trust, its capabilities and its last time
  replaced. The row of no other agent changes, but that the caller's says when it was seen, and
  nothing else in the store does.
\<close>

theorem enrollment_exact:
  assumes "codec_ok json" and "codec_total json" and "is_admin json db c" and "c = extract_agent_id (param_caller p)"
    and "validate_enroll_params (param_target p) = Inr ()" and "parse_trust_level lower (param_trust p) = Inr l"
    and "parse_capabilities lower (param_capabilities p) = Inr cs"
    and "param_target p \<notin> {SYSTEM, HUMAN}" and "c = param_target p \<longrightarrow> CapAdmin \<in> set cs"
    and "t = param_target p"
  shows "\<exists>r db'. context_enroll env json lower reg p db [] = (Some (Inr (hm_get (agent_table db) t = None, r)), db', []) \<and>
    r = enrolled_record (env_now env) t l cs (map_option (agent_from_row json t) (hm_get (agent_table db) t)) \<and>
    agent_get json t db' [] = (Replied (Some r), db', []) \<and>
    (\<forall>b. b \<noteq> t \<longrightarrow> hm_get (agent_table db') b = seen_by_call (env_now env) c b (hm_get (agent_table db) b)) \<and>
    db'\<lparr>agent_table := agent_table db\<rparr> = db"
  using calm_context_enroll [OF assms(1-9)] unfolding assms(10) .

lemma enrolled_caps: "agent_get json t db' [] = (Replied (Some r), db', []) \<Longrightarrow> caps_of json db' t = Some (capabilities r)"
  by (auto simp: calm_get_agent caps_of_def)

section \<open>Examples\<close>

text \<open>A codec that writes a byte as itself, a human administrator, and a request of it.\<close>

definition sample_codec :: json_codec where
  "sample_codec = \<lparr>bytes_to_json = (\<lambda>bs. Inr (map char_of bs)), bytes_from_json = (\<lambda>t. Some (map of_char t)),
     names_from_json = (\<lambda>t. None)\<rparr>"

definition sample_agents :: store_db where
  "sample_agents = empty_db\<lparr>agent_table := [(HUMAN, new_row 1 TrustPrivileged (map char_of [0 :: nat, 1, 2, 3]))]\<rparr>"

definition sample_registry :: agent_registry where
  "sample_registry = \<lparr>permissive = True, session_caps = []\<rparr>"

definition sample_enroll :: enroll_params where
  "sample_enroll = \<lparr>param_caller = Some (lit ''human''), param_target = lit ''bob'', param_trust = lit ''internal'',
     param_capabilities = [lit ''admin'']\<rparr>"

definition sample_call_env :: call_env where
  "sample_call_env = \<lparr>env_now = 7, env_sha = rev, env_violation = (\<lambda>c. ''UNIQUE'')\<rparr>"

lemma sample_codec_ok: "codec_ok sample_codec" "codec_total sample_codec"
  by (auto simp: codec_ok_def codec_total_def sample_codec_def intro!: map_idI)

lemma sample_human: "is_admin sample_codec sample_agents HUMAN"
  by (simp add: is_admin_def caps_of_def sample_agents_def sample_codec_def agent_from_row_def new_row_def or_empty_def
      capability_try_from_def map_filter_def)

lemma sample_caller: "extract_agent_id (param_caller sample_enroll) = HUMAN"
  by (simp add: extract_agent_id_def sample_enroll_def HUMAN_def lit_def trim_def is_whitespace_def)

lemma sample_params:
  "validate_enroll_params (param_target sample_enroll) = Inr ()"
  "parse_trust_level (map ascii_lower) (param_trust sample_enroll) = Inr TrustInternal"
  "parse_capabilities (map ascii_lower) (param_capabilities sample_enroll) = Inr [CapAdmin]"
  "param_target sample_enroll \<notin> {SYSTEM, HUMAN}"
  by (simp_all add: sample_enroll_def validate_enroll_params_def validate_string_field_def check_length_def and_then_def
      MAX_AGENT_ID_LEN_def parse_trust_level_def parse_capabilities_def capability_named_def lit_def ascii_lower_def SYSTEM_def
      HUMAN_def)

theorem enrollment_exact_witness:
  "\<exists>r db'. context_enroll sample_call_env sample_codec (map ascii_lower) sample_registry sample_enroll sample_agents [] =
     (Some (Inr (True, r)), db', []) \<and> is_admin sample_codec db' (lit ''bob'')"
proof -
  have t: "param_target sample_enroll = lit ''bob''" by (simp add: sample_enroll_def)
  have none: "hm_get (agent_table sample_agents) (lit ''bob'') = None"
    by (simp add: sample_agents_def HUMAN_def lit_def)
  have "HUMAN = param_target sample_enroll \<longrightarrow> CapAdmin \<in> set [CapAdmin]" by simp
  from enrollment_exact [OF sample_codec_ok sample_human sample_caller [symmetric] sample_params this t [symmetric],
      of sample_call_env sample_registry, unfolded none]
  show ?thesis using enrolled_caps by (fastforce simp: is_admin_def enrolled_record_def)
qed

theorem protected_agents_keep_admin_witness:
  "is_admin sample_codec (registry_history sample_codec (map ascii_lower) sample_registry sample_agents
     [(Enroll sample_call_env (sample_enroll\<lparr>param_target := HUMAN\<rparr>), [None, Some (SqlxError ''disk'')])]) HUMAN"
  by (rule protected_agents_keep_admin [OF sample_codec_ok(1) sample_human])


theorem admin_only_by_grant_witness:
  "\<exists>pre env p fs post cs. [(Enroll sample_call_env sample_enroll, [])] = pre @ (Enroll env p, fs) # post \<and>
     lit ''bob'' = param_target p \<and> parse_capabilities (map ascii_lower) (param_capabilities p) = Inr cs \<and> CapAdmin \<in> set cs \<and>
     is_admin sample_codec (registry_history sample_codec (map ascii_lower) sample_registry sample_agents pre)
       (extract_agent_id (param_caller p))"
proof (rule admin_only_by_grant)
  show "is_admin sample_codec (registry_history sample_codec (map ascii_lower) sample_registry sample_agents
      [(Enroll sample_call_env sample_enroll, [])]) (lit ''bob'')"
    using calm_context_enroll [OF sample_codec_ok sample_human sample_caller [symmetric] sample_params,
        of sample_call_env sample_registry] sample_params(4)
    by (auto simp: registry_history_def registry_after_def is_admin_def sample_enroll_def enrolled_record_def
        split: option.splits dest!: enrolled_caps)
  show "\<not> is_admin sample_codec sample_agents (lit ''bob'')"
    by (simp add: is_admin_def caps_of_def sample_agents_def HUMAN_def lit_def)
qed (simp_all add: sample_codec_ok sample_registry_def registry_caps_def enrollment_default_def SYSTEM_def HUMAN_def lit_def)

end
