(* ===== verification/Vector_Index.thy ===== *)
theory Vector_Index
  imports Store_Laws Gateway Complex_Main
begin

text \<open>
  The vector index: \<open>unimatrix-vector/src/index.rs\<close>, \<open>filter.rs\<close> and \<open>config.rs\<close>.

  The graph of points itself is the third-party crate \<open>hnsw_rs\<close>. It is a parameter, the record
  \<open>hnsw_ops\<close> of its operations on some type of graphs; what the index relies on is
  \<open>hnsw_ok\<close>. A float is one of its special values or a rational; the rounding of doubles is an
  argument. A call that writes to the store returns its answer, None if it panics, the index,
  the tables and the faults left, as in \<open>Store_State\<close>.
\<close>

section \<open>Floats and the graph library\<close>

datatype float_value = NaN | Infinite bool | Finite rat

fun float_less :: "float_value \<Rightarrow> float_value \<Rightarrow> bool" where
  "float_less (Finite a) (Finite b) \<longleftrightarrow> a < b"
| "float_less (Finite a) (Infinite p) \<longleftrightarrow> p"
| "float_less (Infinite p) (Finite b) \<longleftrightarrow> \<not> p"
| "float_less (Infinite p) (Infinite q) \<longleftrightarrow> \<not> p \<and> q"
| "float_less _ _ \<longleftrightarrow> False"

record vector_config =
  dimension :: nat
  max_nb_connection :: nat
  ef_construction :: nat
  max_elements :: nat
  max_layer :: nat
  default_ef_search :: nat

definition default_config :: vector_config where
  "default_config = \<lparr>dimension = 384, max_nb_connection = 16, ef_construction = 200, max_elements = 10000,
     max_layer = 16, default_ef_search = 32\<rparr>"

text \<open>
  \<open>points\<close> are the points in the order in which the iterator of the graph visits them, with the
  id each was inserted under. A search returns ids and distances.
\<close>

record 'h hnsw_ops =
  hnsw_new :: "vector_config \<Rightarrow> 'h"
  insert_slice :: "float_value list \<Rightarrow> nat \<Rightarrow> 'h \<Rightarrow> 'h"
  get_nb_point :: "'h \<Rightarrow> nat"
  points :: "'h \<Rightarrow> (nat \<times> float_value list) list"
  hnsw_search :: "'h \<Rightarrow> float_value list \<Rightarrow> nat \<Rightarrow> nat \<Rightarrow> (nat \<times> float_value) list"
  hnsw_search_filter :: "'h \<Rightarrow> float_value list \<Rightarrow> nat \<Rightarrow> nat \<Rightarrow> (nat \<Rightarrow> bool) \<Rightarrow> (nat \<times> float_value) list"

section \<open>The index\<close>

record search_result =
  entry_id_of :: nat
  similarity :: float_value

record id_map =
  data_to_entry :: "(nat, nat) hmap"
  entry_to_data :: "(nat, nat) hmap"

definition id_map_new :: id_map where
  "id_map_new = \<lparr>data_to_entry = [], entry_to_data = []\<rparr>"

definition active_count :: "id_map \<Rightarrow> nat" where
  "active_count m = length (entry_to_data m)"

record 'h vector_index =
  hnsw :: 'h
  index_config :: vector_config
  next_data_id :: nat
  ids :: id_map

definition vector_index_new :: "'h hnsw_ops \<Rightarrow> vector_config \<Rightarrow> 'h vector_index" where
  "vector_index_new ops config = \<lparr>hnsw = hnsw_new ops config, index_config = config, next_data_id = 0, ids = id_map_new\<rparr>"

definition from_parts :: "'h \<Rightarrow> vector_config \<Rightarrow> nat \<Rightarrow> (nat \<times> nat) list \<Rightarrow> 'h vector_index" where
  "from_parts h config next_id id_map_data =
     \<lparr>hnsw = h, index_config = config, next_data_id = next_id,
      ids = fold (\<lambda>(e, d) m. m\<lparr>entry_to_data := hm_insert e d (entry_to_data m),
                               data_to_entry := hm_insert d e (data_to_entry m)\<rparr>) id_map_data id_map_new\<rparr>"

definition validate_dimension :: "'h vector_index \<Rightarrow> float_value list \<Rightarrow> vector_error + unit" where
  "validate_dimension v embedding =
     (if length embedding \<noteq> dimension (index_config v)
      then Inl (DimensionMismatch (dimension (index_config v)) (length embedding)) else Inr ())"

fun validate_from :: "nat \<Rightarrow> float_value list \<Rightarrow> vector_error + unit" where
  "validate_from i [] = Inr ()"
| "validate_from i (NaN # xs) = Inl (InvalidEmbedding (''NaN at index '' @ show_nat i))"
| "validate_from i (Infinite _ # xs) = Inl (InvalidEmbedding (''infinity at index '' @ show_nat i))"
| "validate_from i (Finite _ # xs) = validate_from (Suc i) xs"

definition validate_embedding :: "float_value list \<Rightarrow> vector_error + unit" where
  "validate_embedding embedding = validate_from 0 embedding"

definition check_embedding :: "'h vector_index \<Rightarrow> float_value list \<Rightarrow> vector_error + unit" where
  "check_embedding v embedding =
     (case validate_dimension v embedding of Inl e \<Rightarrow> Inl e | Inr _ \<Rightarrow> validate_embedding embedding)"

section \<open>Writing\<close>

definition allocate_data_id :: "'h vector_index \<Rightarrow> nat \<times> 'h vector_index" where
  "allocate_data_id v = (next_data_id v, v\<lparr>next_data_id := (next_data_id v + 1) mod 2 ^ 64\<rparr>)"

definition add_point :: "'h hnsw_ops \<Rightarrow> nat \<Rightarrow> float_value list \<Rightarrow> 'h vector_index \<Rightarrow> 'h vector_index" where
  "add_point ops data_id embedding v = v\<lparr>hnsw := insert_slice ops embedding data_id (hnsw v)\<rparr>"

text \<open>The update of both maps; the point of an earlier embedding loses its entry.\<close>

definition assign_id :: "nat \<Rightarrow> nat \<Rightarrow> id_map \<Rightarrow> id_map" where
  "assign_id entry data_id m =
     m\<lparr>entry_to_data := hm_insert entry data_id (entry_to_data m),
       data_to_entry := hm_insert data_id entry
         (case hm_get (entry_to_data m) entry of
            Some old_data_id \<Rightarrow> hm_remove old_data_id (data_to_entry m)
          | None \<Rightarrow> data_to_entry m)\<rparr>"

type_synonym ('h, 'a) vector_call =
  "'h vector_index \<Rightarrow> store_db \<Rightarrow> fault option list \<Rightarrow>
   (vector_error + 'a) option \<times> 'h vector_index \<times> store_db \<times> fault option list"

definition vector_insert :: "'h hnsw_ops \<Rightarrow> nat \<Rightarrow> float_value list \<Rightarrow> ('h, unit) vector_call" where
  "vector_insert ops entry embedding v db fs =
     (case check_embedding v embedding of
        Inl e \<Rightarrow> (Some (Inl e), v, db, fs)
      | Inr _ \<Rightarrow>
          let (data_id, v1) = allocate_data_id v;
              v2 = add_point ops data_id embedding v1
          in case put_vector_mapping entry data_id db fs of
               (Panicked, db', fs') \<Rightarrow> (None, v2, db', fs')
             | (Failed e, db', fs') \<Rightarrow> (Some (Inl (VectorStore e)), v2, db', fs')
             | (Replied _, db', fs') \<Rightarrow> (Some (Inr ()), v2\<lparr>ids := assign_id entry data_id (ids v2)\<rparr>, db', fs'))"

definition insert_hnsw_only ::
    "'h hnsw_ops \<Rightarrow> nat \<Rightarrow> nat \<Rightarrow> float_value list \<Rightarrow> 'h vector_index \<Rightarrow> (vector_error + unit) \<times> 'h vector_index" where
  "insert_hnsw_only ops entry data_id embedding v =
     (case check_embedding v embedding of
        Inl e \<Rightarrow> (Inl e, v)
      | Inr _ \<Rightarrow>
          let v1 = add_point ops data_id embedding v
          in (Inr (), v1\<lparr>ids := assign_id entry data_id (ids v1)\<rparr>))"

definition remove_entry :: "nat \<Rightarrow> 'h vector_index \<Rightarrow> 'h vector_index" where
  "remove_entry entry v =
     (case hm_get (entry_to_data (ids v)) entry of
        Some data_id \<Rightarrow>
          v\<lparr>ids := \<lparr>data_to_entry = hm_remove data_id (data_to_entry (ids v)),
                    entry_to_data = hm_remove entry (entry_to_data (ids v))\<rparr>\<rparr>
      | None \<Rightarrow> v)"

text \<open>The loop of \<open>compact\<close>, over the new graph, the new maps and the rows to write.\<close>

fun compact_loop ::
    "'h hnsw_ops \<Rightarrow> 'h vector_index \<Rightarrow> nat \<Rightarrow> (nat \<times> float_value list) list \<Rightarrow> 'h \<times> id_map \<times> (nat \<times> nat) list \<Rightarrow>
     vector_error + 'h \<times> id_map \<times> (nat \<times> nat) list" where
  "compact_loop ops v data_id [] acc = Inr acc"
| "compact_loop ops v data_id ((entry, embedding) # rest) (h, m, rows) =
     (case check_embedding v embedding of
        Inl e \<Rightarrow> Inl e
      | Inr _ \<Rightarrow>
          compact_loop ops v (Suc data_id) rest
            (insert_slice ops embedding data_id h,
             \<lparr>data_to_entry = hm_insert data_id entry (data_to_entry m),
              entry_to_data = hm_insert entry data_id (entry_to_data m)\<rparr>,
             rows @ [(entry, data_id)]))"

text \<open>\<open>violation\<close> is the engine's message for a second row of one entry.\<close>

definition compact :: "'h hnsw_ops \<Rightarrow> string \<Rightarrow> (nat \<times> float_value list) list \<Rightarrow> ('h, unit) vector_call" where
  "compact ops violation embeddings v db fs =
     (case compact_loop ops v 0 embeddings (hnsw_new ops (index_config v), id_map_new, []) of
        Inl e \<Rightarrow> (Some (Inl e), v, db, fs)
      | Inr (new_hnsw, new_ids, rows) \<Rightarrow>
          (case rewrite_vector_map violation rows db fs of
             (Panicked, db', fs') \<Rightarrow> (None, v, db', fs')
           | (Failed e, db', fs') \<Rightarrow> (Some (Inl (VectorStore e)), v, db', fs')
           | (Replied _, db', fs') \<Rightarrow>
               (Some (Inr ()), v\<lparr>hnsw := new_hnsw, ids := new_ids, next_data_id := length embeddings\<rparr>, db', fs')))"

text \<open>The body of the prune pass of \<open>StatusService::run_maintenance\<close>; an error is only logged.\<close>

definition prune_vector :: "nat \<Rightarrow> ('h, unit) vector_call" where
  "prune_vector entry v db fs =
     (case delete_vector_mapping entry db fs of
        (Panicked, db', fs') \<Rightarrow> (None, v, db', fs')
      | (Failed e, db', fs') \<Rightarrow> (Some (Inl (VectorStore e)), v, db', fs')
      | (Replied _, db', fs') \<Rightarrow> (Some (Inr ()), remove_entry entry v, db', fs'))"

section \<open>Reading\<close>

text \<open>\<open>rnd\<close> rounds to a double; the difference of a float and 1 does not overflow.\<close>

definition similarity_of :: "(rat \<Rightarrow> rat) \<Rightarrow> float_value \<Rightarrow> float_value" where
  "similarity_of rnd distance =
     (case distance of NaN \<Rightarrow> NaN | Infinite p \<Rightarrow> Infinite (\<not> p) | Finite d \<Rightarrow> Finite (rnd (1 - d)))"

fun collect_results ::
    "(rat \<Rightarrow> rat) \<Rightarrow> id_map \<Rightarrow> nat list \<Rightarrow> (nat \<times> float_value) list \<Rightarrow> search_result list" where
  "collect_results rnd m seen [] = []"
| "collect_results rnd m seen ((data_id, distance) # ns) =
     (case hm_get (data_to_entry m) data_id of
        Some e \<Rightarrow>
          if e \<in> set seen then collect_results rnd m seen ns
          else \<lparr>entry_id_of = e, similarity = similarity_of rnd distance\<rparr> # collect_results rnd m (e # seen) ns
      | None \<Rightarrow> collect_results rnd m seen ns)"

text \<open>
  The sort is stable and descending; a pair that does not compare counts as equal. (With NaN
  among the similarities, which \<open>hnsw_ok\<close> excludes, the library leaves the order open.)
\<close>

definition map_neighbours_to_results :: "(rat \<Rightarrow> rat) \<Rightarrow> id_map \<Rightarrow> (nat \<times> float_value) list \<Rightarrow> search_result list" where
  "map_neighbours_to_results rnd m neighbours =
     sort_by (\<lambda>a b. \<not> float_less (similarity a) (similarity b)) (collect_results rnd m [] neighbours)"

definition vector_search ::
    "'h hnsw_ops \<Rightarrow> (rat \<Rightarrow> rat) \<Rightarrow> 'h vector_index \<Rightarrow> float_value list \<Rightarrow> nat \<Rightarrow> nat \<Rightarrow> vector_error + search_result list" where
  "vector_search ops rnd v query top_k ef_search =
     (case check_embedding v query of
        Inl e \<Rightarrow> Inl e
      | Inr _ \<Rightarrow>
          if top_k = 0 then Inr []
          else if get_nb_point ops (hnsw v) = 0 then Inr []
          else Inr (map_neighbours_to_results rnd (ids v) (hnsw_search ops (hnsw v) query top_k (max ef_search top_k))))"

text \<open>The filter sorts its ids, drops duplicates, and looks an id up by binary search.\<close>

definition entry_id_filter :: "nat list \<Rightarrow> nat list" where
  "entry_id_filter allowed = remdups_adj (sort allowed)"

definition hnsw_filter :: "nat list \<Rightarrow> nat \<Rightarrow> bool" where
  "hnsw_filter allowed d \<longleftrightarrow> d \<in> set allowed"

definition search_filtered ::
    "'h hnsw_ops \<Rightarrow> (rat \<Rightarrow> rat) \<Rightarrow> 'h vector_index \<Rightarrow> float_value list \<Rightarrow> nat \<Rightarrow> nat \<Rightarrow> nat list \<Rightarrow>
     vector_error + search_result list" where
  "search_filtered ops rnd v query top_k ef_search allowed_entry_ids =
     (case check_embedding v query of
        Inl e \<Rightarrow> Inl e
      | Inr _ \<Rightarrow>
          if top_k = 0 \<or> allowed_entry_ids = [] then Inr []
          else let allowed_data_ids = List.map_filter (hm_get (entry_to_data (ids v))) allowed_entry_ids
               in if allowed_data_ids = [] then Inr []
                  else if get_nb_point ops (hnsw v) = 0 then Inr []
                  else Inr (map_neighbours_to_results rnd (ids v) (hnsw_search_filter ops (hnsw v) query top_k
                         (max ef_search top_k) (hnsw_filter (entry_id_filter allowed_data_ids)))))"

definition point_count :: "'h hnsw_ops \<Rightarrow> 'h vector_index \<Rightarrow> nat" where
  "point_count ops v = get_nb_point ops (hnsw v)"

definition index_contains :: "'h vector_index \<Rightarrow> nat \<Rightarrow> bool" where
  "index_contains v entry \<longleftrightarrow> hm_get (entry_to_data (ids v)) entry \<noteq> None"

definition get_embedding :: "'h hnsw_ops \<Rightarrow> 'h vector_index \<Rightarrow> nat \<Rightarrow> float_value list option" where
  "get_embedding ops v entry =
     (case hm_get (entry_to_data (ids v)) entry of
        None \<Rightarrow> None
      | Some data_id \<Rightarrow> map_option snd (find (\<lambda>p. fst p = data_id) (points ops (hnsw v))))"

definition stale_count :: "'h hnsw_ops \<Rightarrow> 'h vector_index \<Rightarrow> nat" where
  "stale_count ops v = sat_sub (point_count ops v) (active_count (ids v))"

end
