(* ===== verification/Store_Service.thy ===== *)
theory Store_Service
  imports Vector_Index Store_Query
begin

text \<open>
  The service that writes entries: \<open>services/store_ops.rs\<close> and \<open>services/store_correct.rs\<close> of
  the server, and the passes of \<open>run_maintenance\<close> (\<open>services/status.rs\<close>) that repair the
  vector index. They compose the gateway, the store and the vector index.

  The embedding of an entry (the neural model, its adaptation and the normalisation) is an
  argument; the update of the adaptation, which nothing here reads, is left out. Audit events,
  which nobody waits for, are collected in the state.
\<close>

section \<open>Calls of the service\<close>

record 'h service_state =
  svc_limiter :: rate_limiter
  svc_index :: "'h vector_index"
  svc_tables :: store_db
  svc_audit :: "audit_event list"

type_synonym ('h, 'a) service_call =
  "'h service_state \<Rightarrow> fault option list \<Rightarrow> (service_error + 'a) option \<times> 'h service_state \<times> fault option list"

definition svc_return :: "'a \<Rightarrow> ('h, 'a) service_call" where
  "svc_return a s fs = (Some (Inr a), s, fs)"

definition svc_lift :: "service_error + 'a \<Rightarrow> ('h, 'a) service_call" where
  "svc_lift r s fs = (Some r, s, fs)"

definition svc_bind :: "('h, 'a) service_call \<Rightarrow> ('a \<Rightarrow> ('h, 'b) service_call) \<Rightarrow> ('h, 'b) service_call" where
  "svc_bind m f s fs =
     (case m s fs of
        (Some (Inr a), s', fs') \<Rightarrow> f a s' fs'
      | (Some (Inl e), s', fs') \<Rightarrow> (Some (Inl e), s', fs')
      | (None, s', fs') \<Rightarrow> (None, s', fs'))"

text \<open>A call whose error the caller only looks at.\<close>

definition svc_try :: "('h, 'a) service_call \<Rightarrow> ('h, 'a option) service_call" where
  "svc_try m s fs =
     (case m s fs of
        (Some (Inr a), s', fs') \<Rightarrow> (Some (Inr (Some a)), s', fs')
      | (Some (Inl e), s', fs') \<Rightarrow> (Some (Inr None), s', fs')
      | (None, s', fs') \<Rightarrow> (None, s', fs'))"

fun svc_for :: "('x \<Rightarrow> ('h, unit) service_call) \<Rightarrow> 'x list \<Rightarrow> ('h, unit) service_call" where
  "svc_for f [] = svc_return ()"
| "svc_for f (x # xs) = svc_bind (f x) (\<lambda>_. svc_for f xs)"

definition svc_store :: "(store_error \<Rightarrow> service_error) \<Rightarrow> 'a call \<Rightarrow> ('h, 'a) service_call" where
  "svc_store to_error m s fs =
     (case m (svc_tables s) fs of
        (Replied a, db, fs') \<Rightarrow> (Some (Inr a), s\<lparr>svc_tables := db\<rparr>, fs')
      | (Failed e, db, fs') \<Rightarrow> (Some (Inl (to_error e)), s\<lparr>svc_tables := db\<rparr>, fs')
      | (Panicked, db, fs') \<Rightarrow> (None, s\<lparr>svc_tables := db\<rparr>, fs'))"

definition store_failed :: "store_error \<Rightarrow> service_error" where
  "store_failed e = Core (CoreStore e)"

definition run_vector :: "('h, 'a) vector_call \<Rightarrow> ('h, 'a) service_call" where
  "run_vector m s fs =
     (case m (svc_index s) (svc_tables s) fs of
        (r, v, db, fs') \<Rightarrow>
          (map_option (map_sum (\<lambda>e. Core (CoreVector e)) id) r, s\<lparr>svc_index := v, svc_tables := db\<rparr>, fs'))"

definition emit_audit :: "audit_event \<Rightarrow> ('h, unit) service_call" where
  "emit_audit ev s fs = (Some (Inr ()), s\<lparr>svc_audit := svc_audit s @ [ev]\<rparr>, fs)"

definition allocate_id :: "('h, nat) service_call" where
  "allocate_id s fs = (case allocate_data_id (svc_index s) of (d, v) \<Rightarrow> (Some (Inr d), s\<lparr>svc_index := v\<rparr>, fs))"

definition insert_only :: "'h hnsw_ops \<Rightarrow> nat \<Rightarrow> nat \<Rightarrow> float_value list \<Rightarrow> ('h, unit) service_call" where
  "insert_only ops entry data_id embedding s fs =
     (case insert_hnsw_only ops entry data_id embedding (svc_index s) of
        (r, v) \<Rightarrow> (Some (map_sum (\<lambda>e. Core (CoreVector e)) id r), s\<lparr>svc_index := v\<rparr>, fs))"

definition check_write :: "nat \<Rightarrow> caller_id \<Rightarrow> ('h, unit) service_call" where
  "check_write now caller s fs =
     (case check_write_rate (svc_limiter s) now caller of (r, l) \<Rightarrow> (r, s\<lparr>svc_limiter := l\<rparr>, fs))"

section \<open>Insertion\<close>

record insert_result =
  result_entry :: entry_record
  duplicate_of :: "nat option"
  duplicate_similarity :: "float_value option"

text \<open>The double next to 0.92.\<close>

definition DUPLICATE_THRESHOLD :: float_value where
  "DUPLICATE_THRESHOLD = Finite (8286623314361713 / 9007199254740992)"

definition EF_SEARCH :: nat where "EF_SEARCH = 32"

definition float_ge :: "float_value \<Rightarrow> float_value \<Rightarrow> bool" where
  "float_ge x y \<longleftrightarrow> x \<noteq> NaN \<and> y \<noteq> NaN \<and> \<not> float_less x y"

text \<open>What a call of the service takes from its surroundings; \<open>now\<close> is the instant of the limiter.\<close>

record 'h service_env =
  se_ops :: "'h hnsw_ops"
  se_rnd :: "rat \<Rightarrow> rat"
  se_scanner :: content_scanner
  se_store :: call_env
  se_now :: nat
  se_embed :: "new_entry \<Rightarrow> string + float_value list"
  se_show :: "float_value \<Rightarrow> string"

definition embedding_for :: "'h service_env \<Rightarrow> new_entry \<Rightarrow> float_value list option \<Rightarrow> service_error + float_value list" where
  "embedding_for env e embedding =
     (case embedding of
        Some w \<Rightarrow> Inr w
      | None \<Rightarrow> (case se_embed env e of Inl m \<Rightarrow> Inl (EmbeddingFailed m) | Inr w \<Rightarrow> Inr w))"

text \<open>The first result, if it is near enough and its entry can be read.\<close>

definition near_duplicate ::
    "'h service_env \<Rightarrow> float_value list \<Rightarrow> ('h, (entry_record \<times> search_result) option) service_call" where
  "near_duplicate env w =
     svc_bind (\<lambda>s fs. (Some (map_sum (\<lambda>e. Core (CoreVector e)) id
         (vector_search (se_ops env) (se_rnd env) (svc_index s) w 1 EF_SEARCH)), s, fs)) (\<lambda>dup_results.
       case dup_results of
         [] \<Rightarrow> svc_return None
       | best # _ \<Rightarrow>
           if float_ge (similarity best) DUPLICATE_THRESHOLD
           then svc_bind (svc_try (svc_store store_failed (get_entry (entry_id_of best)))) (\<lambda>existing.
                  svc_return (map_option (\<lambda>e. (e, best)) existing))
           else svc_return None)"

definition store_new ::
    "'h service_env \<Rightarrow> new_entry \<Rightarrow> float_value list \<Rightarrow> audit_context \<Rightarrow> ('h, insert_result) service_call" where
  "store_new env e w ctx =
     svc_bind allocate_id (\<lambda>data_id.
     svc_bind (svc_store store_failed (insert_entry (se_store env) e)) (\<lambda>new_id.
     svc_bind (svc_store store_failed (put_vector_mapping new_id data_id)) (\<lambda>_.
     svc_bind (svc_store store_failed (insert_outcome_index_if_applicable new_id (ne_category e) (ne_feature_cycle e))) (\<lambda>_.
     svc_bind (svc_store store_failed (get_entry new_id)) (\<lambda>rec.
     svc_bind (emit_audit (audit_of ctx ''context_store'' [new_id] (''stored entry: '' @ ne_title e))) (\<lambda>_.
     svc_bind (if w = [] then svc_return () else insert_only (se_ops env) new_id data_id w) (\<lambda>_.
       svc_return \<lparr>result_entry = rec\<lparr>embedding_dim := length w mod 2 ^ 16\<rparr>, duplicate_of = None, duplicate_similarity = None\<rparr>)))))))"

definition service_insert ::
    "'h service_env \<Rightarrow> new_entry \<Rightarrow> float_value list option \<Rightarrow> audit_context \<Rightarrow> caller_id \<Rightarrow> ('h, insert_result) service_call" where
  "service_insert env e embedding ctx caller =
     svc_bind (check_write (se_now env) caller) (\<lambda>_.
     svc_bind (svc_lift (validate_write (se_scanner env) (ne_title e) (ne_content e) (ne_tags e) ctx)) (\<lambda>_.
     svc_bind (svc_lift (embedding_for env e embedding)) (\<lambda>w.
     svc_bind (near_duplicate env w) (\<lambda>dup.
       case dup of
         Some (existing, best) \<Rightarrow>
           svc_bind (emit_audit (audit_of ctx ''context_store'' [eid existing]
               (''near-duplicate detected: entry #'' @ show_nat (eid existing) @ '' at '' @ se_show env (similarity best) @
                '' similarity''))) (\<lambda>_.
           svc_return \<lparr>result_entry = existing, duplicate_of = Some (entry_id_of best),
             duplicate_similarity = Some (similarity best)\<rparr>)
       | None \<Rightarrow> store_new env e w ctx))))"

section \<open>Compaction events\<close>

text \<open>\<open>handler\<close> runs after an error.\<close>

definition svc_catch :: "('h, 'a) service_call \<Rightarrow> (service_error \<Rightarrow> ('h, 'a) service_call) \<Rightarrow> ('h, 'a) service_call" where
  "svc_catch m handler s fs =
     (case m s fs of
        (Some (Inl e), s', fs') \<Rightarrow> handler e s' fs'
      | (r, s', fs') \<Rightarrow> (r, s', fs'))"

definition COMPACTION_EVENTS_INSERT_FAILED :: string where
  "COMPACTION_EVENTS_INSERT_FAILED = ''compaction_events_insert_failed''"

definition bump_compaction_insert_failed_counter :: "('h, unit) service_call" where
  "bump_compaction_insert_failed_counter =
     svc_store store_failed (seq_call (exchange database_error) (increment_counter COMPACTION_EVENTS_INSERT_FAILED 1))"

definition service_insert_compaction_event :: "string \<Rightarrow> int \<Rightarrow> int \<Rightarrow> ('h, unit) service_call" where
  "service_insert_compaction_event session_id compacted_at_secs high_water =
     svc_catch (svc_store store_failed (insert_compaction_event session_id compacted_at_secs high_water)) (\<lambda>e.
       svc_bind (svc_try bump_compaction_insert_failed_counter) (\<lambda>_. svc_lift (Inl e)))"

section \<open>Correction\<close>

definition correction_failed :: "store_error \<Rightarrow> service_error" where
  "correction_failed e = (case e of InvalidInput _ reason \<Rightarrow> ValidationFailed reason | _ \<Rightarrow> Core (CoreStore e))"

text \<open>The answer is the correction and the deprecated original.\<close>

definition service_correct ::
    "'h service_env \<Rightarrow> nat \<Rightarrow> new_entry \<Rightarrow> audit_context \<Rightarrow> caller_id \<Rightarrow> ('h, entry_record \<times> entry_record) service_call" where
  "service_correct env original_id c ctx caller =
     svc_bind (check_write (se_now env) caller) (\<lambda>_.
     svc_bind (svc_lift (validate_write (se_scanner env) (ne_title c) (ne_content c) (ne_tags c) ctx)) (\<lambda>_.
     svc_bind (svc_lift (embedding_for env c None)) (\<lambda>w.
     svc_bind allocate_id (\<lambda>data_id.
     svc_bind (svc_store correction_failed (correct_entry (se_store env) original_id c data_id (length w mod 2 ^ 16)))
       (\<lambda>(deprecated_original, new_correction).
     svc_bind (emit_audit (audit_of ctx ''context_correct'' [original_id, eid new_correction]
         (''corrected entry #'' @ show_nat original_id))) (\<lambda>_.
     svc_bind (if w = [] then svc_return () else insert_only (se_ops env) (eid new_correction) data_id w) (\<lambda>_.
       svc_return (new_correction, deprecated_original))))))))"

section \<open>Maintenance of the vectors\<close>

text \<open>\<open>unwrap_or_else(|e| vec![])\<close> of a query.\<close>

definition rows_or_none :: "(store_db \<Rightarrow> 'a list) \<Rightarrow> ('h, 'a list) service_call" where
  "rows_or_none f = svc_bind (svc_try (svc_store store_failed (query_call f))) (\<lambda>rows.
     svc_return (case rows of Some xs \<Rightarrow> xs | None \<Rightarrow> []))"

text \<open>\<open>scan\<close> is the order of the rows, which the queries leave open.\<close>

definition quarantined_vectors :: "(nat list \<Rightarrow> nat list) \<Rightarrow> store_db \<Rightarrow> nat list" where
  "quarantined_vectors scan db = scan (filter (\<lambda>i. case hm_get (entries_table db) i of
       Some r \<Rightarrow> status r = Quarantined | None \<Rightarrow> False) (map fst (vector_table db)))"

definition prune_pass :: "(nat list \<Rightarrow> nat list) \<Rightarrow> ('h, unit) service_call" where
  "prune_pass scan = svc_bind (rows_or_none (quarantined_vectors scan)) (svc_for (\<lambda>i.
     svc_bind (svc_try (run_vector (prune_vector i))) (\<lambda>_. svc_return ())))"

definition unembedded :: "(nat list \<Rightarrow> nat list) \<Rightarrow> nat \<Rightarrow> store_db \<Rightarrow> nat list" where
  "unembedded scan batch db = take batch (scan (map fst (filter (\<lambda>(i, r). status r = Active \<and> embedding_dim r = 0) (entries_table db))))"

text \<open>Ids to heal: those without an embedding, then those missing from the index, each once.\<close>

definition missing_from_index :: "nat \<Rightarrow> 'h vector_index \<Rightarrow> entry_record list \<Rightarrow> nat list" where
  "missing_from_index batch v active_entries =
     take batch (map eid (filter (\<lambda>e. embedding_dim e > 0 \<and> \<not> index_contains v (eid e)) active_entries))"

definition merge_ids :: "nat list \<Rightarrow> nat list \<Rightarrow> nat list" where
  "merge_ids xs ys = fold (\<lambda>i acc. if i \<in> set acc then acc else acc @ [i]) ys xs"

definition heal_data_id :: "nat \<Rightarrow> ('h, nat option) service_call" where
  "heal_data_id i = svc_bind (svc_try (svc_store store_failed (get_vector_mapping i))) (\<lambda>row.
     case row of
       Some (Some existing) \<Rightarrow> svc_return (Some existing)
     | _ \<Rightarrow> svc_bind allocate_id (\<lambda>new_id.
              svc_bind (svc_try (svc_store store_failed (put_vector_mapping i new_id))) (\<lambda>written.
                svc_return (case written of Some _ \<Rightarrow> Some new_id | None \<Rightarrow> None))))"

definition heal_entry :: "'h hnsw_ops \<Rightarrow> (entry_record \<Rightarrow> string + float_value list) \<Rightarrow> nat \<Rightarrow> ('h, unit) service_call" where
  "heal_entry ops model i =
     svc_bind (svc_try (svc_store store_failed (get_entry i))) (\<lambda>found.
       case found of
         None \<Rightarrow> svc_return ()
       | Some e \<Rightarrow>
           (case model e of
              Inl _ \<Rightarrow> svc_return ()
            | Inr w \<Rightarrow>
                svc_bind (heal_data_id i) (\<lambda>d.
                  case d of
                    None \<Rightarrow> svc_return ()
                  | Some data_id \<Rightarrow>
                      svc_bind (svc_try (insert_only ops i data_id w)) (\<lambda>put.
                        case put of
                          None \<Rightarrow> svc_return ()
                        | Some _ \<Rightarrow>
                            svc_bind (svc_try (svc_store store_failed (update_embedding_dim i (length w mod 2 ^ 16)))) (\<lambda>_.
                              svc_return ())))))"

text \<open>\<open>embedder\<close> is None if the model is not available.\<close>

definition heal_pass ::
    "'h hnsw_ops \<Rightarrow> (nat list \<Rightarrow> nat list) \<Rightarrow> nat \<Rightarrow> (entry_record \<Rightarrow> string + float_value list) option \<Rightarrow>
     entry_record list \<Rightarrow> ('h, unit) service_call" where
  "heal_pass ops scan batch embedder active_entries =
     svc_bind (rows_or_none (unembedded scan batch)) (\<lambda>unembedded_ids s.
       let to_heal = take batch (merge_ids unembedded_ids (missing_from_index batch (svc_index s) active_entries))
       in (case embedder of
             None \<Rightarrow> svc_return ()
           | Some model \<Rightarrow> svc_for (heal_entry ops model) to_heal) s)"

text \<open>
  Step 3: when it is due and the model is available, the index is rebuilt from the embeddings of
  the active entries; \<open>embeddings\<close> is the answer of the model for them.
\<close>

definition compaction_pass ::
    "'h hnsw_ops \<Rightarrow> string \<Rightarrow> (string + float_value list list) option \<Rightarrow> entry_record list \<Rightarrow> ('h, unit) service_call" where
  "compaction_pass ops violation embeddings active_entries =
     (case embeddings of
        Some (Inr ws) \<Rightarrow>
          svc_bind (svc_try (run_vector (compact ops violation (zip (map eid active_entries) ws)))) (\<lambda>_. svc_return ())
      | _ \<Rightarrow> svc_return ())"

end
