(* ===== verification/Vector_Laws.thy ===== *)
theory Vector_Laws
  imports Vector_Index Store_Effects "HOL-Library.Multiset"
begin

text \<open>
  What the index relies on of the graph library, the invariant of the index, and how each call
  changes it. The maps of ids are inverse to each other, and ids of points are below the next id.
\<close>

section \<open>The graph library\<close>

definition neighbours_ok ::
    "(float_value list \<Rightarrow> float_value list \<Rightarrow> float_value) \<Rightarrow> float_value list \<Rightarrow> nat \<Rightarrow>
     (nat \<times> float_value list) list \<Rightarrow> (nat \<times> float_value) list \<Rightarrow> bool" where
  "neighbours_ok metric q k ps ns \<longleftrightarrow> length ns \<le> k \<and>
     (\<forall>n \<in> set ns. snd n \<noteq> NaN \<and> (\<exists>w. (fst n, w) \<in> set ps \<and> snd n = metric q w))"

text \<open>
  An insertion adds the point; a search answers at most as many neighbours as asked for, each a
  point with its distance to the query, which the library asserts to be a number; a filtered
  search answers points that pass the filter.
\<close>

definition hnsw_ok :: "'h hnsw_ops \<Rightarrow> (float_value list \<Rightarrow> float_value list \<Rightarrow> float_value) \<Rightarrow> bool" where
  "hnsw_ok ops metric \<longleftrightarrow>
     (\<forall>c. points ops (hnsw_new ops c) = []) \<and>
     (\<forall>w d h. mset (points ops (insert_slice ops w d h)) = add_mset (d, w) (mset (points ops h))) \<and>
     (\<forall>h. get_nb_point ops h = length (points ops h)) \<and>
     (\<forall>h q k ef. neighbours_ok metric q k (points ops h) (hnsw_search ops h q k ef)) \<and>
     (\<forall>h q k ef f. neighbours_ok metric q k (points ops h) (hnsw_search_filter ops h q k ef f) \<and>
        (\<forall>n \<in> set (hnsw_search_filter ops h q k ef f). f (fst n)))"

lemma hnsw_okD:
  assumes "hnsw_ok ops metric"
  shows "points ops (hnsw_new ops c) = []"
    and "mset (points ops (insert_slice ops w d h)) = add_mset (d, w) (mset (points ops h))"
    and "get_nb_point ops h = length (points ops h)"
    and "neighbours_ok metric q k (points ops h) (hnsw_search ops h q k ef)"
    and "neighbours_ok metric q k (points ops h) (hnsw_search_filter ops h q k ef f)"
    and "n \<in> set (hnsw_search_filter ops h q k ef f) \<Longrightarrow> f (fst n)"
  using assms unfolding hnsw_ok_def by blast+

lemma find_key: "map_option snd (find (\<lambda>p. fst p = d) ps) = map_of ps d"
  by (induction ps) auto

lemma map_of_add_mset:
  assumes "mset ps' = add_mset (d, w) (mset ps)" and "distinct (map fst ps)" and "d \<notin> fst ` set ps"
  shows "distinct (map fst ps')" and "map_of ps' = (map_of ps)(d \<mapsto> w)"
proof -
  have "mset (map fst ps') = mset (d # map fst ps)" using arg_cong [OF assms(1), of "image_mset fst"] by simp
  then show distinct': "distinct (map fst ps')" using assms(2,3) by (metis distinct.simps(2) image_set mset_eq_imp_distinct_iff)
  have members: "set ps' = insert (d, w) (set ps)" using assms(1) by (metis set_mset_add_mset_insert set_mset_mset)
  show "map_of ps' = (map_of ps)(d \<mapsto> w)"
  proof
    fix k
    have "(map_of ps' k = Some x) = (((map_of ps)(d \<mapsto> w)) k = Some x)" for x
      using assms(2,3) distinct' members by (auto simp: map_of_eq_Some_iff map_of_eq_None_iff dest: map_of_SomeD) force
    then show "map_of ps' k = ((map_of ps)(d \<mapsto> w)) k" by (metis not_None_eq)
  qed
qed

section \<open>The invariant\<close>

definition inverse_maps :: "id_map \<Rightarrow> bool" where
  "inverse_maps m \<longleftrightarrow> (\<forall>e d. hm_get (entry_to_data m) e = Some d \<longleftrightarrow> hm_get (data_to_entry m) d = Some e)"

definition index_ok :: "'h hnsw_ops \<Rightarrow> 'h vector_index \<Rightarrow> bool" where
  "index_ok ops v \<longleftrightarrow> inverse_maps (ids v) \<and>
     (\<forall>p \<in> set (points ops (hnsw v)). fst p < next_data_id v \<and> check_embedding v (snd p) = Inr ()) \<and>
     (\<forall>e d. hm_get (entry_to_data (ids v)) e = Some d \<longrightarrow> d \<in> fst ` set (points ops (hnsw v)))"

definition one_each :: "'h hnsw_ops \<Rightarrow> 'h vector_index \<Rightarrow> bool" where
  "one_each ops v \<longleftrightarrow> distinct (map fst (points ops (hnsw v)))"

lemma check_embedding_simps [simp]:
  "check_embedding (v\<lparr>hnsw := h\<rparr>) = check_embedding v" "check_embedding (v\<lparr>ids := m\<rparr>) = check_embedding v"
  "check_embedding (v\<lparr>next_data_id := n\<rparr>) = check_embedding v"
  by (simp_all add: fun_eq_iff check_embedding_def validate_dimension_def)

lemma index_ok_new: "hnsw_ok ops metric \<Longrightarrow> index_ok ops (vector_index_new ops c) \<and> one_each ops (vector_index_new ops c)"
  by (simp add: index_ok_def one_each_def vector_index_new_def inverse_maps_def id_map_new_def hnsw_okD(1))

lemma mapped_below:
  assumes "index_ok ops v"
  shows "hm_get (entry_to_data (ids v)) e = Some d \<Longrightarrow> d < next_data_id v"
    and "hm_get (data_to_entry (ids v)) d = Some e \<Longrightarrow> d < next_data_id v"
  using assms unfolding index_ok_def inverse_maps_def by (metis imageE)+

lemma inverse_maps_inj:
  "inverse_maps m \<Longrightarrow> hm_get (entry_to_data m) e = Some d \<Longrightarrow> hm_get (entry_to_data m) e' = Some d \<Longrightarrow> e = e'"
  unfolding inverse_maps_def by (metis option.inject)

lemma assign_id_get [simp]:
  "hm_get (entry_to_data (assign_id e d m)) = (hm_get (entry_to_data m))(e \<mapsto> d)"
  by (simp add: assign_id_def)

lemma inverse_assign:
  assumes "inverse_maps m" and "\<And>e'. hm_get (data_to_entry m) d = Some e' \<Longrightarrow> e' = e"
  shows "inverse_maps (assign_id e d m)"
  using assms unfolding inverse_maps_def assign_id_def
  by (auto split: option.splits if_splits) (metis option.inject option.discI)+

lemma inverse_remove:
  assumes "inverse_maps m" and "hm_get (entry_to_data m) e = Some d"
  shows "inverse_maps \<lparr>data_to_entry = hm_remove d (data_to_entry m), entry_to_data = hm_remove e (entry_to_data m)\<rparr>"
  using assms unfolding inverse_maps_def by (auto split: if_splits) (metis option.inject)+

text \<open>The embedding of an entry is that of the point its data id names.\<close>

lemma get_embedding_map: "get_embedding ops v = map_of (points ops (hnsw v)) \<circ>\<^sub>m hm_get (entry_to_data (ids v))"
  by (auto simp: get_embedding_def map_comp_def find_key split: option.splits)

section \<open>Inserting\<close>

text \<open>The change of a whole insertion; without the ids it is that of an insertion that fails.\<close>

definition add_next :: "'h hnsw_ops \<Rightarrow> float_value list \<Rightarrow> 'h vector_index \<Rightarrow> 'h vector_index" where
  "add_next ops w v = add_point ops (next_data_id v) w (v\<lparr>next_data_id := (next_data_id v + 1) mod 2 ^ 64\<rparr>)"

definition insert_next :: "'h hnsw_ops \<Rightarrow> nat \<Rightarrow> float_value list \<Rightarrow> 'h vector_index \<Rightarrow> 'h vector_index" where
  "insert_next ops e w v = (let v' = add_next ops w v in v'\<lparr>ids := assign_id e (next_data_id v) (ids v')\<rparr>)"

lemma add_next_simps [simp]:
  "ids (add_next ops w v) = ids v" "index_config (add_next ops w v) = index_config v"
  "hnsw (add_next ops w v) = insert_slice ops w (next_data_id v) (hnsw v)"
  "next_data_id (add_next ops w v) = (next_data_id v + 1) mod 2 ^ 64"
  "check_embedding (add_next ops w v) = check_embedding v"
  by (simp_all add: add_next_def add_point_def)

lemma insert_next_simps [simp]:
  "ids (insert_next ops e w v) = assign_id e (next_data_id v) (ids v)" "index_config (insert_next ops e w v) = index_config v"
  "hnsw (insert_next ops e w v) = insert_slice ops w (next_data_id v) (hnsw v)"
  "next_data_id (insert_next ops e w v) = (next_data_id v + 1) mod 2 ^ 64"
  "check_embedding (insert_next ops e w v) = check_embedding v"
  by (simp_all add: insert_next_def Let_def)

lemma add_next_ok:
  assumes "hnsw_ok ops metric" and "index_ok ops v" and "check_embedding v w = Inr ()" and "next_data_id v < 2 ^ 64 - 1"
  shows "index_ok ops (add_next ops w v)"
    and "one_each ops v \<Longrightarrow> one_each ops (add_next ops w v)"
    and "one_each ops v \<Longrightarrow> get_embedding ops (add_next ops w v) = get_embedding ops v"
proof -
  let ?d = "next_data_id v"
  have next_id: "Suc ?d mod 18446744073709551616 = Suc ?d" using assms(4) by simp
  note ins = hnsw_okD(2) [OF assms(1), of w ?d "hnsw v"]
  have members: "set (points ops (insert_slice ops w ?d (hnsw v))) = insert (?d, w) (set (points ops (hnsw v)))"
    using arg_cong [OF ins, of set_mset] by simp
  have fresh: "?d \<notin> fst ` set (points ops (hnsw v))" using assms(2) by (force simp: index_ok_def)
  show "index_ok ops (add_next ops w v)"
    using assms(2,3) unfolding index_ok_def by (simp add: members next_id less_Suc_eq)
  assume "one_each ops v"
  then have d: "distinct (map fst (points ops (hnsw v)))" by (simp add: one_each_def)
  show "one_each ops (add_next ops w v)" using map_of_add_mset(1) [OF ins d fresh] by (simp add: one_each_def)
  have "\<And>e d'. hm_get (entry_to_data (ids v)) e = Some d' \<Longrightarrow> d' \<noteq> ?d" using mapped_below(1) [OF assms(2)] by blast
  then show "get_embedding ops (add_next ops w v) = get_embedding ops v"
    by (auto simp: get_embedding_map map_of_add_mset(2) [OF ins d fresh] map_comp_def fun_eq_iff split: option.splits)
qed

lemma insert_next_ok:
  assumes "hnsw_ok ops metric" and "index_ok ops v" and "check_embedding v w = Inr ()" and "next_data_id v < 2 ^ 64 - 1"
  shows "index_ok ops (insert_next ops e w v)"
    and "one_each ops v \<Longrightarrow> one_each ops (insert_next ops e w v)"
    and "one_each ops v \<Longrightarrow> get_embedding ops (insert_next ops e w v) = (get_embedding ops v)(e \<mapsto> w)"
proof -
  let ?d = "next_data_id v"
  note added = add_next_ok [OF assms]
  have members: "set (points ops (insert_slice ops w ?d (hnsw v))) = insert (?d, w) (set (points ops (hnsw v)))"
    using arg_cong [OF hnsw_okD(2) [OF assms(1), of w ?d "hnsw v"], of set_mset] by simp
  have "inverse_maps (assign_id e ?d (ids v))"
  proof (rule inverse_assign)
    show "inverse_maps (ids v)" using assms(2) by (simp add: index_ok_def)
    show "e' = e" if "hm_get (data_to_entry (ids v)) ?d = Some e'" for e' using mapped_below(2) [OF assms(2) that] by simp
  qed
  then show "index_ok ops (insert_next ops e w v)"
    using added(1) by (auto simp: index_ok_def members split: if_splits)
  assume one: "one_each ops v"
  show one': "one_each ops (insert_next ops e w v)" using added(2) [OF one] by (simp add: one_each_def)
  have "map_of (points ops (insert_slice ops w ?d (hnsw v))) ?d = Some w"
    using one' members by (simp add: one_each_def map_of_eq_Some_iff)
  then show "get_embedding ops (insert_next ops e w v) = (get_embedding ops v)(e \<mapsto> w)"
    using added(3) [OF one] by (auto simp: get_embedding_map map_comp_def fun_eq_iff)
qed

lemma vector_insert_cases:
  assumes "vector_insert ops e w v db fs = (r, v', db', fs')"
  obtains (refused) er where "check_embedding v w = Inl er" "r = Some (Inl er)" "v' = v" "db' = db"
    | (failed) er where "check_embedding v w = Inr ()" "r = Some (Inl er)" "v' = add_next ops w v" "db' = db"
    | (inserted) "check_embedding v w = Inr ()" "r = Some (Inr ())" "v' = insert_next ops e w v"
        "db' = db\<lparr>vector_table := hm_insert e (next_data_id v) (vector_table db)\<rparr>"
  using assms
  by (auto simp: vector_insert_def allocate_data_id_def insert_next_def add_next_def Let_def put_vector_mapping_def
      execute_call_def statement_def seq_call_def bind_call_def exchange_def
      split: sum.splits list.splits option.splits)

section \<open>Compaction\<close>

text \<open>
  The loop is a sequence of insertions into an empty index, if no entry comes twice, which the
  table of mappings rejects.
\<close>

definition inserted :: "'h hnsw_ops \<Rightarrow> (nat \<times> float_value list) list \<Rightarrow> 'h vector_index \<Rightarrow> 'h vector_index" where
  "inserted ops es v = fold (\<lambda>(e, w). insert_next ops e w) es v"

lemma inserted_simps [simp]:
  "inserted ops [] v = v" "inserted ops ((e, w) # es) v = inserted ops es (insert_next ops e w v)"
  by (simp_all add: inserted_def)

lemma inserted_ok:
  assumes "hnsw_ok ops metric" and "index_ok ops v" and "one_each ops v" and "\<forall>p \<in> set es. check_embedding v (snd p) = Inr ()"
    and "next_data_id v + length es < 2 ^ 64"
  shows "index_ok ops (inserted ops es v) \<and> one_each ops (inserted ops es v) \<and>
    get_embedding ops (inserted ops es v) = fold (\<lambda>(e, w) m. m(e \<mapsto> w)) es (get_embedding ops v) \<and>
    next_data_id (inserted ops es v) = next_data_id v + length es \<and> index_config (inserted ops es v) = index_config v"
  using assms(2-)
proof (induction es arbitrary: v)
  case (Cons p es)
  obtain e w where p: "p = (e, w)" by (cases p)
  note ins = insert_next_ok [OF assms(1) Cons.prems(1), of w e]
  show ?case using Cons.IH [OF ins(1) ins(2)] ins(3) Cons.prems by (auto simp: p)
qed simp

lemma fold_update_distinct:
  "distinct (map fst es) \<Longrightarrow> fold (\<lambda>(e, w) m. m(e \<mapsto> w)) es m = m ++ map_of es"
proof (induction es arbitrary: m)
  case (Cons p es)
  obtain e w where p: "p = (e, w)" by (cases p)
  have "e \<notin> dom (map_of es)" using Cons.prems by (simp add: p dom_map_of_conv_image_fst)
  then have "m(e \<mapsto> w) ++ map_of es = (m ++ map_of es)(e \<mapsto> w)" by (rule map_add_upd_left)
  then show ?case using Cons.IH [of "m(e \<mapsto> w)"] Cons.prems by (simp add: p del: fun_upd_apply)
qed simp

lemma compact_loop_inserted:
  assumes "compact_loop ops v n es (h, m, rows) = Inr (h', m', rows')" and "n + length es < 2 ^ 64"
    and "distinct (map fst rows @ map fst es)" and "map_of rows = hm_get (entry_to_data m)"
  shows "v\<lparr>hnsw := h', ids := m', next_data_id := n + length es\<rparr> = inserted ops es (v\<lparr>hnsw := h, ids := m, next_data_id := n\<rparr>) \<and>
    (\<forall>p \<in> set es. check_embedding v (snd p) = Inr ()) \<and> map_of rows' = hm_get (entry_to_data m')"
  using assms
proof (induction es arbitrary: n h m rows)
  case (Cons p es)
  obtain e w where p: "p = (e, w)" by (cases p)
  let ?m = "\<lparr>data_to_entry = hm_insert n e (data_to_entry m), entry_to_data = hm_insert e n (entry_to_data m)\<rparr>"
  have check: "check_embedding v w = Inr ()"
    and rest: "compact_loop ops v (Suc n) es (insert_slice ops w n h, ?m, rows @ [(e, n)]) = Inr (h', m', rows')"
    using Cons.prems(1) by (auto simp: p split: sum.splits)
  have fresh: "hm_get (entry_to_data m) e = None"
    using Cons.prems(3) by (simp add: p map_of_eq_None_iff flip: Cons.prems(4))
  then have "assign_id e n m = ?m" by (simp add: assign_id_def)
  then have next_index: "insert_next ops e w (v\<lparr>hnsw := h, ids := m, next_data_id := n\<rparr>) =
      v\<lparr>hnsw := insert_slice ops w n h, ids := ?m, next_data_id := Suc n\<rparr>"
    using Cons.prems(2) by (simp add: insert_next_def add_next_def add_point_def Let_def)
  have "map_of (rows @ [(e, n)]) = hm_get (entry_to_data ?m)"
    using fresh Cons.prems(4) by (auto simp: map_add_def fun_eq_iff split: option.splits)
  then show ?case using Cons.IH [OF rest] Cons.prems(2,3) check by (simp add: p next_index)
qed auto

lemma compact_loop_rows:
  "compact_loop ops v n es (h, m, rows) = Inr (h', m', rows') \<Longrightarrow> map fst rows' = map fst rows @ map fst es"
  by (induction es arbitrary: n h m rows) (auto split: sum.splits)

lemma hm_insert_new: "fst p \<notin> set (map fst m) \<Longrightarrow> hm_insert (fst p) (snd p) m = m @ [p]"
  by (induction m) auto

lemma insert_rows_Replied:
  "for_each (insert_vector_row violation) rows db fs = (Replied (), db', fs') \<Longrightarrow> distinct (map fst (vector_table db)) \<Longrightarrow>
   distinct (map fst (vector_table db) @ map fst rows) \<and>
   db' = db\<lparr>vector_table := vector_table db @ rows\<rparr>"
proof (induction rows arbitrary: db fs)
  case (Cons p rows)
  from Cons.prems(1) obtain db1 fs1 where
    first: "insert_vector_row violation p db fs = (Replied (), db1, fs1)" and
    rest: "for_each (insert_vector_row violation) rows db1 fs1 = (Replied (), db', fs')"
    by (auto simp: seq_Replied)
  have fresh: "fst p \<notin> set (map fst (vector_table db))" and
    db1: "db1 = db\<lparr>vector_table := hm_insert (fst p) (snd p) (vector_table db)\<rparr>"
    using first by (auto simp: insert_vector_row_def call_simps map_of_eq_None_iff split: if_splits)
  have "hm_insert (fst p) (snd p) (vector_table db) = vector_table db @ [p]"
    using fresh by (rule hm_insert_new)
  then show ?case using Cons.IH [OF rest] Cons.prems(2) fresh by (auto simp: db1)
qed (simp add: call_simps)

lemma rewrite_vector_map_cases:
  assumes "rewrite_vector_map violation rows db fs = (r, db', fs')"
  obtains (kept) "db' = db" "\<And>a. r \<noteq> Replied a"
    | (rewritten) "r = Replied ()" "distinct (map fst rows)" "db' = db\<lparr>vector_table := rows\<rparr>"
proof (cases rule: transaction_cases [OF assms [unfolded rewrite_vector_map_def]])
  case 1
  then show ?thesis using kept by blast
next
  case (2 a fs1)
  then obtain fs2 where "for_each (insert_vector_row violation) rows (db\<lparr>vector_table := []\<rparr>) fs2 = (Replied (), db', fs1)"
    by (auto simp: seq_Replied execute_Replied)
  from insert_rows_Replied [OF this] show ?thesis using rewritten 2(1) by simp
qed

lemma compact_cases:
  assumes "compact ops violation es v db fs = (r, v', db', fs')" and "length es < 2 ^ 64"
  obtains (kept) "r \<noteq> Some (Inr ())" "v' = v" "db' = db"
    | (compacted) rows where "r = Some (Inr ())" "distinct (map fst es)" "\<forall>p \<in> set es. check_embedding v (snd p) = Inr ()"
        "v' = inserted ops es (v\<lparr>hnsw := hnsw_new ops (index_config v), ids := id_map_new, next_data_id := 0\<rparr>)"
        "db' = db\<lparr>vector_table := rows\<rparr>" "map_of rows = hm_get (entry_to_data (ids v'))"
proof (cases "compact_loop ops v 0 es (hnsw_new ops (index_config v), id_map_new, [])")
  case (Inl er)
  then show ?thesis using assms(1) kept by (auto simp: compact_def)
next
  case (Inr acc)
  obtain h m rows where acc: "acc = (h, m, rows)" by (cases acc)
  obtain r1 db1 fs1 where rewrite: "rewrite_vector_map violation rows db fs = (r1, db1, fs1)"
    by (cases "rewrite_vector_map violation rows db fs")
  note result = assms(1) [unfolded compact_def Inr acc sum.case prod.case rewrite]
  show ?thesis
  proof (cases rule: rewrite_vector_map_cases [OF rewrite])
    case 1
    then show ?thesis using result kept by (auto split: reply.splits)
  next
    case 2
    note loop = Inr [unfolded acc]
    have keys: "distinct (map fst es)" using 2(2) compact_loop_rows [OF loop] by simp
    have "v\<lparr>hnsw := h, ids := m, next_data_id := length es\<rparr> =
        inserted ops es (v\<lparr>hnsw := hnsw_new ops (index_config v), ids := id_map_new, next_data_id := 0\<rparr>) \<and>
      (\<forall>p \<in> set es. check_embedding v (snd p) = Inr ()) \<and> map_of rows = hm_get (entry_to_data m)"
      using compact_loop_inserted [OF loop] assms(2) keys by (simp add: id_map_new_def)
    then show ?thesis using result 2 keys by (intro compacted [of rows]) auto
  qed
qed

lemma prune_vector_cases:
  assumes "prune_vector e v db fs = (r, v', db', fs')"
  obtains (kept) "r \<noteq> Some (Inr ())" "v' = v" "db' = db"
    | (pruned) "r = Some (Inr ())" "v' = remove_entry e v" "db' = db\<lparr>vector_table := hm_remove e (vector_table db)\<rparr>"
  using assms
  by (auto simp: prune_vector_def delete_vector_mapping_def execute_call_def statement_def seq_call_def bind_call_def exchange_def
      split: list.splits option.splits)

lemma remove_entry_simps [simp]:
  "hnsw (remove_entry e v) = hnsw v" "next_data_id (remove_entry e v) = next_data_id v"
  "index_config (remove_entry e v) = index_config v" "check_embedding (remove_entry e v) = check_embedding v"
  "hm_get (entry_to_data (ids (remove_entry e v))) = (hm_get (entry_to_data (ids v)))(e := None)"
  by (auto simp: remove_entry_def split: option.splits)

lemma remove_entry_ok:
  assumes "index_ok ops v"
  shows "index_ok ops (remove_entry e v)" and "get_embedding ops (remove_entry e v) = (get_embedding ops v)(e := None)"
proof -
  have "inverse_maps (ids (remove_entry e v))"
    using assms inverse_remove by (auto simp: remove_entry_def index_ok_def split: option.splits)
  then show "index_ok ops (remove_entry e v)" using assms by (auto simp: index_ok_def split: if_splits)
  show "get_embedding ops (remove_entry e v) = (get_embedding ops v)(e := None)"
    by (auto simp: get_embedding_map map_comp_def fun_eq_iff)
qed

end
