(* ===== verification/Service_Laws.thy ===== *)
theory Service_Laws
  imports Store_Service Vector_Laws Store_Events Store_Query_Laws
begin

text \<open>
  The link between the index in memory and the table of mappings, and that every call of the
  service keeps it whatever fails: rules in the style of Hoare, with one condition for the value
  a call returns and one for its failure, error or panic.
\<close>

section \<open>Conditions on calls\<close>

definition hoare ::
    "('h service_state \<Rightarrow> bool) \<Rightarrow> ('h, 'a) service_call \<Rightarrow> ('a \<Rightarrow> 'h service_state \<Rightarrow> bool) \<Rightarrow> ('h service_state \<Rightarrow> bool) \<Rightarrow> bool" where
  "hoare P m Q R \<longleftrightarrow> (\<forall>s fs r s' fs'. P s \<longrightarrow> m s fs = (r, s', fs') \<longrightarrow>
     (case r of Some (Inr a) \<Rightarrow> Q a s' | _ \<Rightarrow> R s'))"

lemma hoareI:
  "(\<And>s fs r s' fs'. P s \<Longrightarrow> m s fs = (r, s', fs') \<Longrightarrow> case r of Some (Inr a) \<Rightarrow> Q a s' | _ \<Rightarrow> R s') \<Longrightarrow> hoare P m Q R"
  unfolding hoare_def by blast

lemma hoareD:
  "hoare P m Q R \<Longrightarrow> P s \<Longrightarrow> m s fs = (r, s', fs') \<Longrightarrow> case r of Some (Inr a) \<Rightarrow> Q a s' | _ \<Rightarrow> R s'"
  unfolding hoare_def by blast

lemma hoare_weaken:
  assumes "hoare P m Q R" and "\<And>s. P' s \<Longrightarrow> P s" and "\<And>a s. Q a s \<Longrightarrow> Q' a s" and "\<And>s. R s \<Longrightarrow> R' s"
  shows "hoare P' m Q' R'"
proof (rule hoareI)
  fix s fs r s' fs'
  assume "P' s" and "m s fs = (r, s', fs')"
  then have "case r of Some (Inr a) \<Rightarrow> Q a s' | _ \<Rightarrow> R s'" using hoareD [OF assms(1) assms(2)] by blast
  then show "case r of Some (Inr a) \<Rightarrow> Q' a s' | _ \<Rightarrow> R' s'" using assms(3,4) by (auto split: option.splits sum.splits)
qed

lemma hoare_pre: "hoare P m Q R \<Longrightarrow> (\<And>s. P' s \<Longrightarrow> P s) \<Longrightarrow> hoare P' m Q R"
  unfolding hoare_def by blast

lemma hoare_return: "(\<And>s. P s \<Longrightarrow> Q a s) \<Longrightarrow> hoare P (svc_return a) Q R"
  by (auto simp: hoare_def svc_return_def)

lemma hoare_bind:
  assumes "hoare P m Q R" and "\<And>a. hoare (Q a) (f a) T R"
  shows "hoare P (svc_bind m f) T R"
proof (rule hoareI)
  fix s fs r s' fs'
  assume P: "P s" and run: "svc_bind m f s fs = (r, s', fs')"
  obtain r1 s1 fs1 where m: "m s fs = (r1, s1, fs1)" by (rule prod_cases3)
  note first = hoareD [OF assms(1) P m]
  show "case r of Some (Inr a) \<Rightarrow> T a s' | _ \<Rightarrow> R s'"
  proof (cases r1)
    case None
    then show ?thesis using run m first by (auto simp: svc_bind_def)
  next
    case (Some x)
    show ?thesis
    proof (cases x)
      case (Inl e)
      then show ?thesis using run m first Some by (auto simp: svc_bind_def)
    next
      case (Inr a)
      then have "f a s1 fs1 = (r, s', fs')" "Q a s1" using run m first Some by (simp_all add: svc_bind_def)
      then show ?thesis using hoareD [OF assms(2)] by blast
    qed
  qed
qed

lemma hoare_try:
  assumes "hoare P m Q R" and "\<And>s. R s \<Longrightarrow> R' s"
  shows "hoare P (svc_try m) (\<lambda>x s. case x of Some a \<Rightarrow> Q a s | None \<Rightarrow> R s) R'"
proof (rule hoareI)
  fix s fs r s' fs'
  assume P: "P s" and run: "svc_try m s fs = (r, s', fs')"
  obtain r1 s1 fs1 where m: "m s fs = (r1, s1, fs1)" by (rule prod_cases3)
  show "case r of Some (Inr a) \<Rightarrow> (case a of Some b \<Rightarrow> Q b s' | None \<Rightarrow> R s') | _ \<Rightarrow> R' s'"
    using hoareD [OF assms(1) P m] run m assms(2) by (auto simp: svc_try_def split: option.splits sum.splits)
qed

lemma hoare_if: "hoare P m Q R \<Longrightarrow> hoare P k Q R \<Longrightarrow> hoare P (if b then m else k) Q R"
  by simp

lemma hoare_store:
  assumes "\<And>s fs r db' fs'. P s \<Longrightarrow> m (svc_tables s) fs = (r, db', fs') \<Longrightarrow>
    case r of Replied a \<Rightarrow> Q a (s\<lparr>svc_tables := db'\<rparr>) | _ \<Rightarrow> R (s\<lparr>svc_tables := db'\<rparr>)"
  shows "hoare P (svc_store c m) Q R"
proof (rule hoareI)
  fix s fs r s' fs'
  assume P: "P s" and run: "svc_store c m s fs = (r, s', fs')"
  obtain r1 db1 fs1 where m: "m (svc_tables s) fs = (r1, db1, fs1)" by (rule prod_cases3)
  show "case r of Some (Inr a) \<Rightarrow> Q a s' | _ \<Rightarrow> R s'"
    using assms [OF P m] run m by (auto simp: svc_store_def split: reply.splits)
qed

section \<open>The link\<close>

text \<open>
  What a restart relies on: every entry the index knows has its row, up to some entries \<open>X\<close>; rows
  name different ids below the next one, and entries that exist. The active entries \<open>act\<close> that a
  maintenance tick has read exist too. \<open>n\<close> more ids may be taken.
\<close>

definition row_ids :: "store_db \<Rightarrow> nat set" where
  "row_ids db = dom (hm_get (entries_table db))"

definition loaded :: "entry_record list \<Rightarrow> store_db \<Rightarrow> bool" where
  "loaded act db \<longleftrightarrow> length act \<le> last_id db \<and> eid ` set act \<subseteq> row_ids db"

lemma loaded_less: "loaded act db \<Longrightarrow> last_id db \<le> last_id db' \<Longrightarrow> row_ids db \<subseteq> row_ids db' \<Longrightarrow> loaded act db'"
  unfolding loaded_def by auto

lemma loaded_Nil [simp]: "loaded [] db"
  by (simp add: loaded_def)

definition linked :: "'h hnsw_ops \<Rightarrow> nat \<Rightarrow> entry_record list \<Rightarrow> nat set \<Rightarrow> nat \<Rightarrow> 'h service_state \<Rightarrow> bool" where
  "linked ops width act X n s \<longleftrightarrow>
     store_ok (svc_tables s) \<and> index_ok ops (svc_index s) \<and> dimension (index_config (svc_index s)) = width \<and>
     next_data_id (svc_index s) + n < 2 ^ 64 \<and> loaded act (svc_tables s) \<and> last_id (svc_tables s) + n < id_limit \<and>
     (\<forall>e d. e \<notin> X \<longrightarrow> hm_get (entry_to_data (ids (svc_index s))) e = Some d \<longrightarrow> hm_get (vector_table (svc_tables s)) e = Some d) \<and>
     (\<forall>e d. hm_get (vector_table (svc_tables s)) e = Some d \<longrightarrow> d < next_data_id (svc_index s) \<and> e \<in> row_ids (svc_tables s)) \<and>
     (\<forall>e e' d. hm_get (vector_table (svc_tables s)) e = Some d \<longrightarrow> hm_get (vector_table (svc_tables s)) e' = Some d \<longrightarrow> e = e')"

lemma linkedD:
  assumes "linked ops width act X n s"
  shows "store_ok (svc_tables s)" and "index_ok ops (svc_index s)" and "dimension (index_config (svc_index s)) = width"
    and "next_data_id (svc_index s) + n < 2 ^ 64" and "last_id (svc_tables s) + n < id_limit"
    and "e \<notin> X \<Longrightarrow> hm_get (entry_to_data (ids (svc_index s))) e = Some d \<Longrightarrow> hm_get (vector_table (svc_tables s)) e = Some d"
    and "hm_get (vector_table (svc_tables s)) e = Some d \<Longrightarrow> d < next_data_id (svc_index s)"
    and "hm_get (vector_table (svc_tables s)) e = Some d \<Longrightarrow> e \<in> row_ids (svc_tables s)"
    and "hm_get (vector_table (svc_tables s)) e = Some d \<Longrightarrow> hm_get (vector_table (svc_tables s)) e' = Some d \<Longrightarrow> e = e'"
    and "loaded act (svc_tables s)"
  using assms unfolding linked_def by blast+

lemma linked_less: "linked ops width act X m s \<Longrightarrow> n \<le> m \<Longrightarrow> linked ops width act X n s"
  unfolding linked_def by simp

lemma linked_mono: "linked ops width act X n s \<Longrightarrow> X \<subseteq> Y \<Longrightarrow> linked ops width act Y n s"
  unfolding linked_def by blast

lemma linked_new_index:
  assumes "linked ops width act X n s" and "index_ok ops v" and "index_config v = index_config (svc_index s)"
    and "next_data_id v = next_data_id (svc_index s)"
    and "\<forall>e d. e \<notin> Y \<longrightarrow> hm_get (entry_to_data (ids v)) e = Some d \<longrightarrow> hm_get (vector_table (svc_tables s)) e = Some d"
  shows "linked ops width act Y n (s\<lparr>svc_index := v\<rparr>)"
  using assms by (simp add: linked_def)

lemma linked_frame [simp]:
  "linked ops width act X n (s\<lparr>svc_limiter := l\<rparr>) = linked ops width act X n s"
  "linked ops width act X n (s\<lparr>svc_audit := a\<rparr>) = linked ops width act X n s"
  by (simp_all add: linked_def)

text \<open>A call that takes \<open>c\<close> ids and keeps the link.\<close>

definition spends :: "'h hnsw_ops \<Rightarrow> nat \<Rightarrow> entry_record list \<Rightarrow> nat \<Rightarrow> ('h, 'a) service_call \<Rightarrow> bool" where
  "spends ops width act c m \<longleftrightarrow> (\<forall>n. hoare (linked ops width act {} (n + c)) m (\<lambda>_. linked ops width act {} n) (linked ops width act {} n))"

lemma spendsI: "(\<And>n. hoare (linked ops width act {} (n + c)) m (\<lambda>_. linked ops width act {} n) (linked ops width act {} n)) \<Longrightarrow> spends ops width act c m"
  unfolding spends_def by blast

lemma spendsD: "spends ops width act c m \<Longrightarrow> hoare (linked ops width act {} (n + c)) m (\<lambda>_. linked ops width act {} n) (linked ops width act {} n)"
  unfolding spends_def by blast

lemma spends_return: "spends ops width act 0 (svc_return a)"
  by (rule spendsI) (auto intro: hoare_return)

lemma spends_lift: "spends ops width act 0 (svc_lift r)"
  by (rule spendsI) (auto simp: hoare_def svc_lift_def split: option.split sum.split)

lemma spends_audit: "spends ops width act 0 (emit_audit ev)"
  by (rule spendsI) (auto simp: hoare_def emit_audit_def)

lemma spends_check: "spends ops width act 0 (check_write now caller)"
  by (rule spendsI) (auto simp: hoare_def check_write_def split: option.split sum.split prod.splits)

lemma spends_bind:
  assumes "spends ops width act a m" and "\<And>x. spends ops width act b (f x)"
  shows "spends ops width act (a + b) (svc_bind m f)"
proof (rule spendsI)
  fix n
  have "hoare (linked ops width act {} (n + (a + b))) m (\<lambda>_. linked ops width act {} (n + b)) (linked ops width act {} n)"
    by (rule hoare_weaken [OF spendsD [OF assms(1), of "n + b"]])
      (simp add: ac_simps, assumption, erule linked_less, simp)
  then show "hoare (linked ops width act {} (n + (a + b))) (svc_bind m f) (\<lambda>_. linked ops width act {} n) (linked ops width act {} n)"
    by (rule hoare_bind) (rule spendsD [OF assms(2)])
qed

lemma spends_seq: "spends ops width act 0 m \<Longrightarrow> (\<And>x. spends ops width act c (f x)) \<Longrightarrow> spends ops width act c (svc_bind m f)"
  using spends_bind [of ops width act 0 m c f] by simp

lemma spends_less:
  assumes "spends ops width act a m" and "a \<le> b"
  shows "spends ops width act b m"
proof (rule spendsI)
  show "hoare (linked ops width act {} (n + b)) m (\<lambda>_. linked ops width act {} n) (linked ops width act {} n)" for n
    by (rule hoare_weaken [OF spendsD [OF assms(1), of n]]) (use assms(2) in \<open>auto elim: linked_less\<close>)
qed

lemma spends_try:
  assumes "spends ops width act c m"
  shows "spends ops width act c (svc_try m)"
proof (rule spendsI)
  fix n
  have "hoare (linked ops width act {} (n + c)) (svc_try m)
      (\<lambda>x s. case x of Some a \<Rightarrow> linked ops width act {} n s | None \<Rightarrow> linked ops width act {} n s) (linked ops width act {} n)"
    by (rule hoare_try [OF spendsD [OF assms]])
  then show "hoare (linked ops width act {} (n + c)) (svc_try m) (\<lambda>_. linked ops width act {} n) (linked ops width act {} n)"
    by (rule hoare_weaken) (auto split: option.splits)
qed

lemma spends_for:
  assumes "\<And>x. x \<in> set xs \<Longrightarrow> spends ops width act c (f x)"
  shows "spends ops width act (c * length xs) (svc_for f xs)"
  using assms
proof (induction xs)
  case (Cons x xs)
  then show ?case using spends_bind [of ops width act c "f x" "c * length xs" "\<lambda>_. svc_for f xs"] by simp
qed (simp add: spends_return)

text \<open>A call of the store that touches neither the mappings nor the ids.\<close>

definition quiet :: "'a call \<Rightarrow> bool" where
  "quiet m \<longleftrightarrow> (\<forall>db fs r db' fs'. store_ok db \<longrightarrow> m db fs = (r, db', fs') \<longrightarrow>
     store_ok db' \<and> last_id db' = last_id db \<and> vector_table db' = vector_table db \<and> row_ids db \<subseteq> row_ids db')"

lemma quiet_linked:
  assumes "quiet m" and "linked ops width act X n s" and "m (svc_tables s) fs = (r, db', fs')"
  shows "linked ops width act X n (s\<lparr>svc_tables := db'\<rparr>)" and "last_id db' = last_id (svc_tables s)"
    and "vector_table db' = vector_table (svc_tables s)" and "row_ids (svc_tables s) \<subseteq> row_ids db'"
proof -
  have "store_ok (svc_tables s)" using assms(2) by (simp add: linked_def)
  then have q: "store_ok db'" "last_id db' = last_id (svc_tables s)" "vector_table db' = vector_table (svc_tables s)"
      "row_ids (svc_tables s) \<subseteq> row_ids db'"
    using assms(1,3) unfolding quiet_def by blast+
  then show "last_id db' = last_id (svc_tables s)" "vector_table db' = vector_table (svc_tables s)"
    "row_ids (svc_tables s) \<subseteq> row_ids db'" by simp_all
  have "loaded act db'" using loaded_less [OF linkedD(10) [OF assms(2)]] q by simp
  then show "linked ops width act X n (s\<lparr>svc_tables := db'\<rparr>)" using assms(2) q by (auto simp: linked_def)
qed

lemma spends_quiet: "quiet m \<Longrightarrow> spends ops width act 0 (svc_store c m)"
  by (rule spendsI, rule hoare_store) (auto dest: quiet_linked split: reply.split)

lemma quiet_keeps:
  assumes "\<And>n. keeps (\<lambda>db. store_ok db \<and> last_id db \<le> n) m"
    and "\<And>l t is. keeps (\<lambda>db. last_id db = l \<and> vector_table db = t \<and> is \<subseteq> row_ids db) m"
  shows "quiet m"
  unfolding quiet_def
proof (intro allI impI)
  fix db fs r db' fs'
  assume "store_ok db" "m db fs = (r, db', fs')"
  then show "store_ok db' \<and> last_id db' = last_id db \<and> vector_table db' = vector_table db \<and> row_ids db \<subseteq> row_ids db'"
    using keepsD [OF assms(1), of db "last_id db" fs r db' fs'] keepsD [OF assms(2), of db "last_id db" "vector_table db" "row_ids db" fs r db' fs']
    by auto
qed

lemma quiet_reads: "quiet (query_call f)" "quiet (get_entry i)" "quiet (get_vector_mapping i)"
proof -
  show q: "quiet (query_call f)" for f :: "store_db \<Rightarrow> 'b" by (rule quiet_keeps) (rule keeps_query)+
  show "quiet (get_vector_mapping i)" unfolding get_vector_mapping_def by (rule q)
  have "db' = db" if "get_entry i db fs = (r, db', fs')" for db fs r db' fs'
    using get_entry_state [of i db fs] that by simp
  then show "quiet (get_entry i)" unfolding quiet_def by blast
qed

lemma quiet_outcome: "quiet (insert_outcome_index_if_applicable i k c)"
proof (rule quiet_keeps)
  show "keeps (\<lambda>db. store_ok db \<and> last_id db \<le> n) (insert_outcome_index_if_applicable i k c)" for n
    by (rule tables.keeps_index_calls)
  show "keeps (\<lambda>db. last_id db = l \<and> vector_table db = t \<and> is \<subseteq> row_ids db) (insert_outcome_index_if_applicable i k c)" for l t "is"
    unfolding insert_outcome_index_if_applicable_def by (intro keeps_if keeps_basic keeps_execute) (auto simp: row_ids_def)
qed

lemma quiet_dim: "quiet (update_embedding_dim i d)"
proof (rule quiet_keeps)
  show "keeps (\<lambda>db. store_ok db \<and> last_id db \<le> n) (update_embedding_dim i d)" for n
    by (rule tables.keeps_usage_calls)
  show "keeps (\<lambda>db. last_id db = l \<and> vector_table db = t \<and> is \<subseteq> row_ids db) (update_embedding_dim i d)" for l t "is"
    unfolding update_embedding_dim_def update_row_def by (rule keeps_execute) (auto simp: row_ids_def split: option.split)
qed

lemma spends_catch:
  assumes "spends ops width act 0 m" and "\<And>e. spends ops width act 0 (handler e)"
  shows "spends ops width act 0 (svc_catch m handler)"
proof (rule spendsI, rule hoareI)
  fix n s fs r s' fs'
  let ?L = "linked ops width act {} n"
  assume s: "linked ops width act {} (n + 0) s" and run: "svc_catch m handler s fs = (r, s', fs')"
  obtain r1 s1 fs1 where m: "m s fs = (r1, s1, fs1)" by (rule prod_cases3)
  have first: "?L s1" using hoareD [OF spendsD [OF assms(1)] s m] by (simp split: option.splits sum.splits)
  have "?L s'"
  proof (cases "\<exists>e. r1 = Some (Inl e)")
    case True
    then obtain e where "handler e s1 fs1 = (r, s', fs')" using run m by (auto simp: svc_catch_def)
    from hoareD [OF spendsD [OF assms(2)] _ this, of n] show ?thesis using first by (simp split: option.splits sum.splits)
  next
    case False
    then have "s' = s1" using run m by (auto simp: svc_catch_def split: option.splits sum.splits)
    then show ?thesis using first by simp
  qed
  then show "case r of Some (Inr a) \<Rightarrow> ?L s' | _ \<Rightarrow> ?L s'" by (simp split: option.split sum.split)
qed

lemma quiet_compaction_event: "quiet (insert_compaction_event i t h)"
proof (rule quiet_keeps)
  show "keeps (\<lambda>db. store_ok db \<and> last_id db \<le> n) (insert_compaction_event i t h)" for n
    by (rule tables.keeps_index_calls)
  show "keeps (\<lambda>db. last_id db = l \<and> vector_table db = u \<and> is \<subseteq> row_ids db) (insert_compaction_event i t h)" for l u "is"
    unfolding insert_compaction_event_def by (rule keeps_execute) (auto simp: row_ids_def)
qed

text \<open>A counter that is neither the next id nor a count of a status.\<close>

lemma quiet_bump: "quiet (seq_call (exchange database_error) (increment_counter COMPACTION_EVENTS_INSERT_FAILED 1))"
proof (rule quiet_keeps)
  have other: "COMPACTION_EVENTS_INSERT_FAILED \<noteq> ''next_entry_id''" "COMPACTION_EVENTS_INSERT_FAILED \<noteq> status_counter_key st" for st
    by (cases st; simp add: COMPACTION_EVENTS_INSERT_FAILED_def status_counter_key_def)+
  then have same: "store_ok (db\<lparr>counters_table := hm_insert COMPACTION_EVENTS_INSERT_FAILED v (counters_table db)\<rparr>) = store_ok db"
    "last_id (db\<lparr>counters_table := hm_insert COMPACTION_EVENTS_INSERT_FAILED v (counters_table db)\<rparr>) = last_id db"
    "row_ids (db\<lparr>counters_table := hm_insert COMPACTION_EVENTS_INSERT_FAILED v (counters_table db)\<rparr>) = row_ids db" for v db
    by (simp_all add: store_ok_def ids_ok_def tags_ok_def counters_ok_def last_id_def counter_value_def row_ids_def other [symmetric])
  show "keeps (\<lambda>db. store_ok db \<and> last_id db \<le> n) (seq_call (exchange database_error) (increment_counter COMPACTION_EVENTS_INSERT_FAILED 1))" for n
    unfolding counter_calls by (intro keeps_intros keeps_execute) (simp_all add: same)
  show "keeps (\<lambda>db. last_id db = l \<and> vector_table db = u \<and> is \<subseteq> row_ids db)
      (seq_call (exchange database_error) (increment_counter COMPACTION_EVENTS_INSERT_FAILED 1))" for l u "is"
    unfolding counter_calls by (intro keeps_intros keeps_execute) (simp_all add: same)
qed

lemma spends_compaction_event: "spends ops width act 0 (service_insert_compaction_event i t h)"
  unfolding service_insert_compaction_event_def bump_compaction_insert_failed_counter_def
  by (intro spends_catch spends_seq [OF spends_try] spends_quiet quiet_compaction_event quiet_bump spends_lift)

section \<open>Ids\<close>

text \<open>An id that no row names yet, and one that the row of an entry names.\<close>

definition unused :: "nat \<Rightarrow> 'h service_state \<Rightarrow> bool" where
  "unused d s \<longleftrightarrow> d < next_data_id (svc_index s) \<and> (\<forall>e. hm_get (vector_table (svc_tables s)) e \<noteq> Some d)"

definition known :: "nat \<Rightarrow> 'h service_state \<Rightarrow> bool" where
  "known i s \<longleftrightarrow> i \<in> row_ids (svc_tables s)"

definition mapped :: "nat \<Rightarrow> nat \<Rightarrow> 'h service_state \<Rightarrow> bool" where
  "mapped i d s \<longleftrightarrow> hm_get (vector_table (svc_tables s)) i = Some d"

definition unindexed :: "nat \<Rightarrow> 'h service_state \<Rightarrow> bool" where
  "unindexed i s \<longleftrightarrow> hm_get (entry_to_data (ids (svc_index s))) i = None"

lemmas id_state = unused_def known_def mapped_def unindexed_def

lemma linked_unindexed:
  assumes "linked ops width act (insert i X) n s" and "unindexed i s"
  shows "linked ops width act X n s"
proof -
  have "\<forall>e d. e \<notin> X \<longrightarrow> hm_get (entry_to_data (ids (svc_index s))) e = Some d \<longrightarrow> hm_get (vector_table (svc_tables s)) e = Some d"
    using assms unfolding linked_def unindexed_def by (metis insertE option.distinct(1))
  then show ?thesis using assms(1) by (simp add: linked_def)
qed

lemma hoare_allocate:
  assumes "\<And>s. P s \<Longrightarrow> linked ops width act X (Suc n) s"
  shows "hoare P allocate_id (\<lambda>d s. linked ops width act X n s \<and> unused d s \<and>
    (\<exists>s0. P s0 \<and> svc_tables s = svc_tables s0 \<and> ids (svc_index s) = ids (svc_index s0))) R"
proof (rule hoareI)
  fix s fs r s' fs'
  assume P: "P s" and run: "allocate_id s fs = (r, s', fs')"
  have l: "linked ops width act X (Suc n) s" by (rule assms [OF P])
  then have next_id: "Suc (next_data_id (svc_index s)) < 2 ^ 64" by (simp add: linked_def)
  have r: "r = Some (Inr (next_data_id (svc_index s)))"
    "s' = s\<lparr>svc_index := (svc_index s)\<lparr>next_data_id := Suc (next_data_id (svc_index s))\<rparr>\<rparr>"
    using run next_id by (simp_all add: allocate_id_def allocate_data_id_def)
  have "index_ok ops ((svc_index s)\<lparr>next_data_id := Suc (next_data_id (svc_index s))\<rparr>)"
    using l by (auto simp: linked_def index_ok_def)
  then have "linked ops width act X n s'" using l by (simp add: linked_def r(2) less_Suc_eq)
  moreover have "unused (next_data_id (svc_index s)) s'" using l by (auto simp: linked_def unused_def r(2))
  ultimately show "case r of Some (Inr d) \<Rightarrow> linked ops width act X n s' \<and> unused d s' \<and>
      (\<exists>s0. P s0 \<and> svc_tables s' = svc_tables s0 \<and> ids (svc_index s') = ids (svc_index s0)) | _ \<Rightarrow> R s'"
    using P by (auto simp: r)
qed

lemma put_mapping_cases:
  assumes "put_vector_mapping i d db fs = (r, db', fs')"
  obtains (failed) e where "r = Failed e" "db' = db"
    | (put) "r = Replied ()" "db' = db\<lparr>vector_table := hm_insert i d (vector_table db)\<rparr>"
  using assms
  by (auto simp: put_vector_mapping_def execute_call_def statement_def seq_call_def bind_call_def exchange_def
      split: list.splits option.splits)

lemma linked_put:
  assumes "linked ops width act {} n s" and "unused d s" and "known i s"
  shows "linked ops width act {i} n (s\<lparr>svc_tables := (svc_tables s)\<lparr>vector_table := hm_insert i d (vector_table (svc_tables s))\<rparr>\<rparr>)"
  using assms unfolding linked_def id_state by (auto simp: store_ok_frame row_ids_def loaded_def split: if_splits)

lemma hoare_put:
  "hoare (\<lambda>s. linked ops width act {} n s \<and> unused d s \<and> known i s \<and> P (svc_index s)) (svc_store c (put_vector_mapping i d))
     (\<lambda>_ s. linked ops width act {i} n s \<and> mapped i d s \<and> P (svc_index s)) (linked ops width act {} n)"
proof (rule hoare_store)
  fix s fs r db' fs'
  assume s: "linked ops width act {} n s \<and> unused d s \<and> known i s \<and> P (svc_index s)"
    and put: "put_vector_mapping i d (svc_tables s) fs = (r, db', fs')"
  from put show "case r of Replied a \<Rightarrow> linked ops width act {i} n (s\<lparr>svc_tables := db'\<rparr>) \<and> mapped i d (s\<lparr>svc_tables := db'\<rparr>) \<and>
      P (svc_index (s\<lparr>svc_tables := db'\<rparr>)) | _ \<Rightarrow> linked ops width act {} n (s\<lparr>svc_tables := db'\<rparr>)"
    by (cases rule: put_mapping_cases) (use s linked_put in \<open>auto simp: mapped_def\<close>)
qed

text \<open>A point under the id that the row of its entry names.\<close>

lemma linked_insert_only:
  assumes "hnsw_ok ops metric" and "linked ops width act {i} n s" and "mapped i d s" and "check_embedding (svc_index s) w = Inr ()"
    and "insert_hnsw_only ops i d w (svc_index s) = (r, v)"
  shows "r = Inr () \<and> linked ops width act {} n (s\<lparr>svc_index := v\<rparr>)"
proof -
  let ?v = "svc_index s"
  have v: "r = Inr ()" "v = ?v\<lparr>hnsw := insert_slice ops w d (hnsw ?v), ids := assign_id i d (ids ?v)\<rparr>"
    using assms(4,5) by (auto simp: insert_hnsw_only_def add_point_def)
  have ok: "index_ok ops ?v" by (rule linkedD [OF assms(2)])
  have below: "d < next_data_id ?v" using linkedD(7) [OF assms(2)] assms(3) by (simp add: mapped_def)
  have owner: "e = i" if e: "hm_get (data_to_entry (ids ?v)) d = Some e" for e
  proof (rule ccontr)
    assume other: "e \<noteq> i"
    have "hm_get (entry_to_data (ids ?v)) e = Some d" using ok e by (simp add: index_ok_def inverse_maps_def)
    then have "hm_get (vector_table (svc_tables s)) e = Some d" using linkedD(6) [OF assms(2)] other by simp
    then show False using linkedD(9) [OF assms(2)] assms(3) other by (simp add: mapped_def)
  qed
  have members: "set (points ops (insert_slice ops w d (hnsw ?v))) = insert (d, w) (set (points ops (hnsw ?v)))"
    using arg_cong [OF hnsw_okD(2) [OF assms(1), of w d "hnsw ?v"], of set_mset] by simp
  have "inverse_maps (assign_id i d (ids ?v))"
    by (rule inverse_assign) (use ok owner in \<open>auto simp: index_ok_def\<close>)
  then have "index_ok ops v" using ok below assms(4) by (auto simp: index_ok_def v(2) members split: if_splits)
  moreover have "\<forall>e d'. hm_get (entry_to_data (ids v)) e = Some d' \<longrightarrow> hm_get (vector_table (svc_tables s)) e = Some d'"
    using linkedD(6) [OF assms(2)] assms(3) by (simp add: v(2) mapped_def)
  ultimately have "linked ops width act {} n (s\<lparr>svc_index := v\<rparr>)" by (intro linked_new_index [OF assms(2)]) (simp_all add: v(2))
  then show ?thesis using v(1) by simp
qed

lemma hoare_insert_only:
  assumes "hnsw_ok ops metric"
  shows "hoare (\<lambda>s. linked ops width act {} n s \<and> mapped i d s) (insert_only ops i d w) (\<lambda>_. linked ops width act {} n) (linked ops width act {} n)"
    and "hoare (\<lambda>s. linked ops width act {i} n s \<and> mapped i d s \<and> check_embedding (svc_index s) w = Inr ()) (insert_only ops i d w)
      (\<lambda>_. linked ops width act {} n) R"
proof -
  have refused: "insert_hnsw_only ops i d w v = (Inl e, v)" if "check_embedding v w = Inl e" for v e
    using that by (simp add: insert_hnsw_only_def)
  have put: "hoare (\<lambda>s. linked ops width act {i} n s \<and> mapped i d s \<and> check_embedding (svc_index s) w = Inr ()) (insert_only ops i d w)
      (\<lambda>_. linked ops width act {} n) R" for R
  proof (rule hoareI)
    fix s fs r s' fs'
    assume s: "linked ops width act {i} n s \<and> mapped i d s \<and> check_embedding (svc_index s) w = Inr ()"
      and run: "insert_only ops i d w s fs = (r, s', fs')"
    obtain r1 v where ins: "insert_hnsw_only ops i d w (svc_index s) = (r1, v)" by (cases "insert_hnsw_only ops i d w (svc_index s)")
    have "r1 = Inr () \<and> linked ops width act {} n (s\<lparr>svc_index := v\<rparr>)" using linked_insert_only [OF assms _ _ _ ins] s by blast
    then show "case r of Some (Inr a) \<Rightarrow> linked ops width act {} n s' | _ \<Rightarrow> R s'" using run ins by (auto simp: insert_only_def)
  qed
  then show "hoare (\<lambda>s. linked ops width act {i} n s \<and> mapped i d s \<and> check_embedding (svc_index s) w = Inr ()) (insert_only ops i d w)
      (\<lambda>_. linked ops width act {} n) R" .
  show "hoare (\<lambda>s. linked ops width act {} n s \<and> mapped i d s) (insert_only ops i d w) (\<lambda>_. linked ops width act {} n) (linked ops width act {} n)"
  proof (rule hoareI)
    fix s fs r s' fs'
    assume s: "linked ops width act {} n s \<and> mapped i d s" and run: "insert_only ops i d w s fs = (r, s', fs')"
    show "case r of Some (Inr a) \<Rightarrow> linked ops width act {} n s' | _ \<Rightarrow> linked ops width act {} n s'"
    proof (cases "check_embedding (svc_index s) w")
      case (Inl e)
      then show ?thesis using s run by (auto simp: insert_only_def refused)
    next
      case (Inr u)
      then show ?thesis using hoareD [OF put _ run] s linked_mono [of ops width act "{}" n s "{i}"] by simp
    qed
  qed
qed

section \<open>Insertion and correction\<close>

definition linked_at :: "'h hnsw_ops \<Rightarrow> nat \<Rightarrow> entry_record list \<Rightarrow> nat \<Rightarrow> nat \<Rightarrow> nat \<Rightarrow> 'h service_state \<Rightarrow> bool" where
  "linked_at ops width act n i d s \<longleftrightarrow> linked ops width act {} n s \<and> mapped i d s"

lemma linked_limit: "linked ops width act X n s \<Longrightarrow> last_id (svc_tables s) < u64_max"
  using linkedD(5) by (fastforce simp: id_limit_def u64_max_def)

lemma hoare_quiet_at:
  assumes "quiet m"
  shows "hoare (linked_at ops width act n i d) (svc_store c m) (\<lambda>_. linked_at ops width act n i d) (linked ops width act {} n)"
proof (rule hoare_store)
  fix s fs r db' fs'
  assume "linked_at ops width act n i d s" and "m (svc_tables s) fs = (r, db', fs')"
  then show "case r of Replied a \<Rightarrow> linked_at ops width act n i d (s\<lparr>svc_tables := db'\<rparr>) | _ \<Rightarrow> linked ops width act {} n (s\<lparr>svc_tables := db'\<rparr>)"
    using quiet_linked [OF assms, of ops width act "{}" n s] by (simp add: linked_at_def mapped_def split: reply.split)
qed

lemma hoare_audit_at: "hoare (linked_at ops width act n i d) (emit_audit ev) (\<lambda>_. linked_at ops width act n i d) R"
  by (auto simp: hoare_def emit_audit_def linked_at_def mapped_def)

lemma hoare_insert_entry:
  "hoare (\<lambda>s. linked ops width act {} (Suc n) s \<and> unused d s) (svc_store c (insert_entry env e))
     (\<lambda>i s. linked ops width act {} n s \<and> unused d s \<and> known i s \<and> unindexed i s) (linked ops width act {} n)"
proof (rule hoare_store)
  fix s fs r db' fs'
  assume pre: "linked ops width act {} (Suc n) s \<and> unused d s" and run: "insert_entry env e (svc_tables s) fs = (r, db', fs')"
  then have l: "linked ops width act {} (Suc n) s" by simp
  note small = linked_limit [OF l] and ok = linkedD(1) [OF l]
  show "case r of
      Replied i \<Rightarrow> linked ops width act {} n (s\<lparr>svc_tables := db'\<rparr>) \<and> unused d (s\<lparr>svc_tables := db'\<rparr>) \<and>
        known i (s\<lparr>svc_tables := db'\<rparr>) \<and> unindexed i (s\<lparr>svc_tables := db'\<rparr>)
    | _ \<Rightarrow> linked ops width act {} n (s\<lparr>svc_tables := db'\<rparr>)"
  proof (cases "\<exists>i. r = Replied i")
    case True
    then obtain i where i: "r = Replied i" by blast
    note ins = store_ok_insert [OF ok run [unfolded i] small]
    then have eq: "vector_table db' = vector_table (svc_tables s)" "last_id db' = Suc (last_id (svc_tables s))"
      by (simp_all add: conj_comms)
    have new: "row_ids db' = insert i (row_ids (svc_tables s))"
      using ins by (auto simp: row_ids_def inserted_row_def split: if_splits)
    have "store_ok db'" using ins by blast
    moreover have "loaded act db'" by (rule loaded_less [OF linkedD(10) [OF l]]) (use new eq(2) in auto)
    ultimately have "linked ops width act {} n (s\<lparr>svc_tables := db'\<rparr>)"
      using l unfolding linked_def by (simp add: eq new)
    moreover have "unindexed i (s\<lparr>svc_tables := db'\<rparr>)"
    proof (rule ccontr)
      assume "\<not> unindexed i (s\<lparr>svc_tables := db'\<rparr>)"
      then obtain d' where "hm_get (entry_to_data (ids (svc_index s))) i = Some d'" by (auto simp: unindexed_def)
      then have "hm_get (vector_table (svc_tables s)) i = Some d'" using linkedD(6) [OF l] by simp
      then have "i \<in> row_ids (svc_tables s)" using linkedD(8) [OF l] by simp
      then show False using fresh_id [of "svc_tables s" i] ok ins by (auto simp: row_ids_def store_ok_def)
    qed
    moreover have "unused d (s\<lparr>svc_tables := db'\<rparr>)" "known i (s\<lparr>svc_tables := db'\<rparr>)"
      using pre by (simp_all add: unused_def known_def eq new)
    ultimately show ?thesis by (simp add: i)
  next
    case False
    then have "db' = svc_tables s" using insert_outcome [OF ok small run] by blast
    then show ?thesis using linked_less [OF l, of n] False by (auto split: reply.split)
  qed
qed

lemma hoare_put_at:
  "hoare (\<lambda>s. linked ops width act {} n s \<and> unused d s \<and> known i s \<and> unindexed i s) (svc_store c (put_vector_mapping i d))
     (\<lambda>_. linked_at ops width act n i d) (linked ops width act {} n)"
  by (rule hoare_weaken [OF hoare_put [where P = "\<lambda>v. hm_get (entry_to_data (ids v)) i = None"]])
    (auto simp: linked_at_def unindexed_def intro: linked_unindexed)

lemma hoare_insert_at:
  assumes "hnsw_ok ops metric"
  shows "hoare (linked_at ops width act n i d) (if w = [] then svc_return () else insert_only ops i d w)
    (\<lambda>_. linked ops width act {} n) (linked ops width act {} n)"
  using hoare_insert_only(1) [OF assms, of width act n i d w] unfolding linked_at_def
  by (auto intro: hoare_return)

lemma hoare_return_linked: "hoare (linked ops width act X n) (svc_return a) (\<lambda>_. linked ops width act X n) R"
  by (rule hoare_return)

lemma spends_store_new:
  assumes "hnsw_ok (se_ops env) metric"
  shows "spends (se_ops env) width act 2 (store_new env e w ctx)"
proof (rule spendsI)
  fix n
  let ?L = "linked (se_ops env) width act {}"
  have start: "hoare (?L (n + 2)) allocate_id (\<lambda>d s. ?L (Suc n) s \<and> unused d s) (?L n)"
    by (rule hoare_weaken [OF hoare_allocate [where P = "?L (n + 2)" and R = "?L n"]]) auto
  show "hoare (?L (n + 2)) (store_new env e w ctx) (\<lambda>_. ?L n) (?L n)"
    unfolding store_new_def
    by (intro hoare_bind [OF start] hoare_bind [OF hoare_insert_entry] hoare_bind [OF hoare_put_at]
        hoare_bind [OF hoare_quiet_at [OF quiet_outcome]] hoare_bind [OF hoare_quiet_at [OF quiet_reads(2)]]
        hoare_bind [OF hoare_audit_at] hoare_bind [OF hoare_insert_at [OF assms]] hoare_return_linked)
qed

lemma spends_near_duplicate: "spends ops width act 0 (near_duplicate env w)"
proof -
  have read: "spends ops width act 0 (\<lambda>s fs. (Some (f s), s, fs))" for f :: "'a service_state \<Rightarrow> service_error + 'b"
    by (rule spendsI) (auto simp: hoare_def split: sum.split)
  have "spends ops width act 0 (svc_bind (svc_try (svc_store store_failed (get_entry i))) (\<lambda>x. svc_return (g x)))"
    for i and g :: "entry_record option \<Rightarrow> 'c"
    by (intro spends_seq spends_try spends_quiet quiet_reads spends_return)
  then show ?thesis unfolding near_duplicate_def
    by (intro spends_seq [OF read]) (auto intro: spends_return split: list.split)
qed

lemma spends_insert:
  assumes "hnsw_ok (se_ops env) metric"
  shows "spends (se_ops env) width act 2 (service_insert env e embedding ctx caller)"
proof -
  have "spends (se_ops env) width act 2 (svc_bind (emit_audit ev) (\<lambda>_. svc_return a))" for ev and a :: insert_result
    by (rule spends_less [OF spends_seq [OF spends_audit spends_return]]) simp
  then show ?thesis unfolding service_insert_def
    by (intro spends_seq [OF spends_check] spends_seq [OF spends_lift] spends_seq [OF spends_near_duplicate])
      (auto intro: spends_store_new [OF assms] split: option.split)
qed

lemma correct_replied:
  assumes "store_ok db" and "last_id db < u64_max" and "correct_entry env i c d wd db fs = (Replied (old, new), db', fs')"
  shows "eid new = Suc (last_id db) \<and> (\<exists>row. correctable db i c row \<and> db' = corrected env i row (correction_of env db i row c wd) d db)"
  using fault_freeD [OF fault_free_correct assms(3)] correct_entry_calm [OF assms(1,2), of env i c d wd]
  by (auto simp: Let_def correctable_def correction_of_def not_le split: option.splits if_splits)

lemma linked_corrected:
  fixes env :: call_env and wd :: nat
  assumes l: "linked ops width act {} (Suc n) s" and d: "unused d s" and c: "correctable (svc_tables s) i c row"
  defines "db' \<equiv> corrected env i row (correction_of env (svc_tables s) i row c wd) d (svc_tables s)"
  shows "linked ops width act {} n (s\<lparr>svc_tables := db'\<rparr>)" and "mapped (Suc (last_id (svc_tables s))) d (s\<lparr>svc_tables := db'\<rparr>)"
proof -
  let ?i = "Suc (last_id (svc_tables s))"
  have eq: "hm_get (vector_table db') = (hm_get (vector_table (svc_tables s)))(?i \<mapsto> d)"
    by (simp add: db'_def corrected_def correction_of_def)
  have ok: "store_ok db'" "last_id db' = ?i" using store_ok_corrected [OF linkedD(1) [OF l] c] unfolding db'_def by blast+
  have "?i \<notin> row_ids (svc_tables s)"
    using fresh_id [of "svc_tables s" ?i] linkedD(1) [OF l] by (auto simp: row_ids_def store_ok_def)
  then have free: "hm_get (vector_table (svc_tables s)) ?i = None"
    using linkedD(8) [OF l, of ?i] by (cases "hm_get (vector_table (svc_tables s)) ?i") auto
  have new: "insert ?i (row_ids (svc_tables s)) \<subseteq> row_ids db'"
    by (auto simp: row_ids_def db'_def corrected_def correction_of_def)
  have known: "loaded act db'" by (rule loaded_less [OF linkedD(10) [OF l]]) (use new ok(2) in auto)
  have "\<forall>e d'. hm_get (entry_to_data (ids (svc_index s))) e = Some d' \<longrightarrow> hm_get (vector_table db') e = Some d'"
    using linkedD(6) [OF l] free unfolding eq by (metis empty_iff fun_upd_other option.distinct(1))
  moreover have "\<forall>e d'. hm_get (vector_table db') e = Some d' \<longrightarrow> d' < next_data_id (svc_index s) \<and> e \<in> row_ids db'"
    using linkedD(7,8) [OF l] d new unfolding eq unused_def by (auto split: if_splits)
  moreover have "\<forall>e e' d'. hm_get (vector_table db') e = Some d' \<longrightarrow> hm_get (vector_table db') e' = Some d' \<longrightarrow> e = e'"
    using linkedD(9) [OF l] d unfolding eq unused_def by (auto split: if_splits)
  ultimately show "linked ops width act {} n (s\<lparr>svc_tables := db'\<rparr>)" using linkedD(2-5) [OF l] ok known by (simp add: linked_def)
  show "mapped ?i d (s\<lparr>svc_tables := db'\<rparr>)" by (simp add: mapped_def eq)
qed

lemma hoare_correct_entry:
  "hoare (\<lambda>s. linked ops width act {} (Suc n) s \<and> unused d s) (svc_store f (correct_entry env i c d wd))
     (\<lambda>(old, new). linked_at ops width act n (eid new) d) (linked ops width act {} n)"
proof (rule hoare_store)
  fix s fs r db' fs'
  assume pre: "linked ops width act {} (Suc n) s \<and> unused d s"
    and run: "correct_entry env i c d wd (svc_tables s) fs = (r, db', fs')"
  then have l: "linked ops width act {} (Suc n) s" and d: "unused d s" by simp_all
  note small = linked_limit [OF l] and ok = linkedD(1) [OF l]
  have any: "linked ops width act {} n (s\<lparr>svc_tables := db'\<rparr>)"
    using correct_outcome [OF ok small run] linked_less [OF l, of n] linked_corrected(1) [OF l d] by auto
  show "case r of Replied x \<Rightarrow> (case x of (old, new) \<Rightarrow> linked_at ops width act n (eid new) d) (s\<lparr>svc_tables := db'\<rparr>)
    | _ \<Rightarrow> linked ops width act {} n (s\<lparr>svc_tables := db'\<rparr>)"
  proof (cases r)
    case (Replied x)
    obtain old new where x: "x = (old, new)" by (cases x)
    show ?thesis using correct_replied [OF ok small run [unfolded Replied x]] linked_corrected(2) [OF l d] any
      by (auto simp: Replied x linked_at_def)
  qed (use any in simp_all)
qed

lemma spends_correct:
  assumes "hnsw_ok (se_ops env) metric"
  shows "spends (se_ops env) width act 2 (service_correct env i c ctx caller)"
proof -
  have rest: "spends (se_ops env) width act 2 (svc_bind allocate_id (\<lambda>data_id.
     svc_bind (svc_store correction_failed (correct_entry (se_store env) i c data_id (length w mod 2 ^ 16)))
       (\<lambda>(deprecated_original, new_correction).
     svc_bind (emit_audit (audit_of ctx ''context_correct'' [i, eid new_correction]
         (''corrected entry #'' @ show_nat i))) (\<lambda>_.
     svc_bind (if w = [] then svc_return () else insert_only (se_ops env) (eid new_correction) data_id w) (\<lambda>_.
       svc_return (new_correction, deprecated_original))))))" for w
  proof (rule spendsI)
    fix n
    let ?L = "linked (se_ops env) width act {}"
    have start: "hoare (?L (n + 2)) allocate_id (\<lambda>d s. ?L (Suc n) s \<and> unused d s) (?L n)"
      by (rule hoare_weaken [OF hoare_allocate [where P = "?L (n + 2)" and R = "?L n"]]) auto
    have last: "hoare (case x of (old, new) \<Rightarrow> linked_at (se_ops env) width act n (eid new) d)
      (case x of (deprecated_original, new_correction) \<Rightarrow>
         svc_bind (emit_audit (audit_of ctx ''context_correct'' [i, eid new_correction] (''corrected entry #'' @ show_nat i))) (\<lambda>_.
         svc_bind (if w = [] then svc_return () else insert_only (se_ops env) (eid new_correction) d w) (\<lambda>_.
           svc_return (new_correction, deprecated_original)))) (\<lambda>_. ?L n) (?L n)" for x d
      unfolding case_prod_beta
      by (intro hoare_bind [OF hoare_audit_at] hoare_bind [OF hoare_insert_at [OF assms]] hoare_return_linked)
    show "hoare (?L (n + 2)) (svc_bind allocate_id (\<lambda>data_id.
       svc_bind (svc_store correction_failed (correct_entry (se_store env) i c data_id (length w mod 2 ^ 16)))
         (\<lambda>(deprecated_original, new_correction).
       svc_bind (emit_audit (audit_of ctx ''context_correct'' [i, eid new_correction]
           (''corrected entry #'' @ show_nat i))) (\<lambda>_.
       svc_bind (if w = [] then svc_return () else insert_only (se_ops env) (eid new_correction) data_id w) (\<lambda>_.
         svc_return (new_correction, deprecated_original)))))) (\<lambda>_. ?L n) (?L n)"
      by (intro hoare_bind [OF start] hoare_bind [OF hoare_correct_entry] last)
  qed
  show ?thesis unfolding service_correct_def
    by (intro spends_seq [OF spends_check] spends_seq [OF spends_lift] rest)
qed

section \<open>Maintenance\<close>

lemma spends_rows: "spends ops width act 0 (rows_or_none f)"
  unfolding rows_or_none_def by (intro spends_seq spends_try spends_quiet quiet_reads spends_return)

lemma vector_lifted:
  assumes "run_vector m s fs = (r, s', fs')"
  obtains r1 v db where "m (svc_index s) (svc_tables s) fs = (r1, v, db, fs')" "s' = s\<lparr>svc_index := v, svc_tables := db\<rparr>"
  using assms by (cases "m (svc_index s) (svc_tables s) fs") (auto simp: run_vector_def)

lemma linked_replace:
  assumes "linked ops width act {} n s" and "index_ok ops v" and "index_config v = index_config (svc_index s)"
    and "next_data_id v + k < 2 ^ 64" and "store_ok db" and "last_id db = last_id (svc_tables s)" and "k \<le> n"
    and "entries_table db = entries_table (svc_tables s)"
    and "\<forall>e d. hm_get (entry_to_data (ids v)) e = Some d \<longrightarrow> hm_get (vector_table db) e = Some d"
    and "\<forall>e d. hm_get (vector_table db) e = Some d \<longrightarrow> d < next_data_id v \<and> e \<in> row_ids (svc_tables s)"
    and "\<forall>e e' d. hm_get (vector_table db) e = Some d \<longrightarrow> hm_get (vector_table db) e' = Some d \<longrightarrow> e = e'"
  shows "linked ops width act {} k (s\<lparr>svc_index := v, svc_tables := db\<rparr>)"
proof -
  have "last_id db + k < id_limit" using linkedD(5) [OF assms(1)] assms(6,7) by simp
  moreover have "row_ids db = row_ids (svc_tables s)" using assms(8) by (simp add: row_ids_def)
  ultimately show ?thesis using assms(2-11) linkedD(3,10) [OF assms(1)] by (simp add: linked_def loaded_def)
qed

lemma linked_pruned:
  assumes l: "linked ops width act {} n s" and eq: "vector_table db = hm_remove i (vector_table (svc_tables s))"
    and ok: "store_ok db" "last_id db = last_id (svc_tables s)" and same: "entries_table db = entries_table (svc_tables s)"
  shows "linked ops width act {} n (s\<lparr>svc_index := remove_entry i (svc_index s), svc_tables := db\<rparr>)"
proof (rule linked_replace [OF l remove_entry_ok(1) [OF linkedD(2) [OF l]] _ _ ok _ same])
  show "\<forall>e d. hm_get (entry_to_data (ids (remove_entry i (svc_index s)))) e = Some d \<longrightarrow> hm_get (vector_table db) e = Some d"
    using linkedD(6) [OF l] by (simp add: eq)
  show "\<forall>e d. hm_get (vector_table db) e = Some d \<longrightarrow>
      d < next_data_id (remove_entry i (svc_index s)) \<and> e \<in> row_ids (svc_tables s)"
    using linkedD(7,8) [OF l] by (simp add: eq)
  show "\<forall>e e' d. hm_get (vector_table db) e = Some d \<longrightarrow> hm_get (vector_table db) e' = Some d \<longrightarrow> e = e'"
    using linkedD(9) [OF l] by (simp add: eq)
qed (use linkedD(4) [OF l] same in simp_all)

lemma spends_prune_vector: "spends ops width act 0 (run_vector (prune_vector i))"
proof (rule spendsI, rule hoareI)
  fix n s fs r s' fs'
  assume "linked ops width act {} (n + 0) s" and run: "run_vector (prune_vector i) s fs = (r, s', fs')"
  then have l: "linked ops width act {} n s" by simp
  obtain r1 v db where step: "prune_vector i (svc_index s) (svc_tables s) fs = (r1, v, db, fs')"
    and s': "s' = s\<lparr>svc_index := v, svc_tables := db\<rparr>" by (rule vector_lifted [OF run])
  have "linked ops width act {} n s'"
  proof (cases rule: prune_vector_cases [OF step])
    case 1
    then show ?thesis using l by (simp add: s')
  next
    case 2
    show ?thesis unfolding s' 2(2)
      by (rule linked_pruned [OF l]) (use linkedD(1) [OF l] in \<open>simp_all add: 2(3) store_ok_frame\<close>)
  qed
  then show "case r of Some (Inr a) \<Rightarrow> linked ops width act {} n s' | _ \<Rightarrow> linked ops width act {} n s'"
    by (auto split: option.split sum.split)
qed

lemma spends_prune_pass: "spends ops width act 0 (prune_pass scan)"
proof -
  have "spends ops width act (0 * length xs) (svc_for (\<lambda>i. svc_bind (svc_try (run_vector (prune_vector i))) (\<lambda>_. svc_return ())) xs)" for xs
    by (rule spends_for) (intro spends_seq [OF spends_try [OF spends_prune_vector]] spends_return)
  then show ?thesis unfolding prune_pass_def by (intro spends_seq [OF spends_rows]) simp
qed

text \<open>The model answers vectors of the configured width, without special values.\<close>

definition model_ok :: "nat \<Rightarrow> (entry_record \<Rightarrow> string + float_value list) \<Rightarrow> bool" where
  "model_ok width model \<longleftrightarrow> (\<forall>e w. model e = Inr w \<longrightarrow> length w = width \<and> validate_embedding w = Inr ())"

lemma model_checked:
  "model_ok width model \<Longrightarrow> model e = Inr w \<Longrightarrow> dimension (index_config v) = width \<Longrightarrow> check_embedding v w = Inr ()"
  by (simp add: model_ok_def check_embedding_def validate_dimension_def)

definition placed :: "'h hnsw_ops \<Rightarrow> nat \<Rightarrow> entry_record list \<Rightarrow> nat \<Rightarrow> nat \<Rightarrow> nat option \<Rightarrow> 'h service_state \<Rightarrow> bool" where
  "placed ops width act n i x s \<longleftrightarrow>
     (case x of None \<Rightarrow> linked ops width act {} n s | Some d \<Rightarrow> linked ops width act {i} n s \<and> mapped i d s)"

lemma hoare_heal_data_id:
  "hoare (\<lambda>s. linked ops width act {} (Suc n) s \<and> known i s) (heal_data_id i) (placed ops width act n i) (linked ops width act {} n)"
proof -
  let ?K = "\<lambda>s. linked ops width act {} (Suc n) s \<and> known i s"
  have "hoare ?K (svc_store store_failed (get_vector_mapping i))
      (\<lambda>row s. ?K s \<and> (\<forall>d. row = Some d \<longrightarrow> mapped i d s)) ?K"
  proof (rule hoare_store)
    fix s fs r db' fs'
    assume k: "?K s" and run: "get_vector_mapping i (svc_tables s) fs = (r, db', fs')"
    note quiet = quiet_linked [OF quiet_reads(3) conjunct1 [OF k] run]
    have "r = Replied row \<Longrightarrow> row = hm_get (vector_table (svc_tables s)) i" for row
      using run by (auto simp: get_vector_mapping_def query_Replied)
    then show "case r of Replied row \<Rightarrow> ?K (s\<lparr>svc_tables := db'\<rparr>) \<and> (\<forall>d. row = Some d \<longrightarrow> mapped i d (s\<lparr>svc_tables := db'\<rparr>))
      | _ \<Rightarrow> ?K (s\<lparr>svc_tables := db'\<rparr>)"
      using quiet k by (auto simp: known_def mapped_def dest: subsetD [OF quiet(4)] split: reply.split)
  qed
  from hoare_try [OF this, of "linked ops width act {} n"]
  have read: "hoare ?K (svc_try (svc_store store_failed (get_vector_mapping i)))
      (\<lambda>x s. ?K s \<and> (\<forall>d. x = Some (Some d) \<longrightarrow> mapped i d s)) (linked ops width act {} n)"
    by (rule hoare_weaken) (auto split: option.splits elim: linked_less)
  have alloc: "hoare ?K allocate_id (\<lambda>d s. linked ops width act {} n s \<and> unused d s \<and> known i s \<and> True) (linked ops width act {} n)"
    by (rule hoare_weaken [OF hoare_allocate [where P = ?K and R = "linked ops width act {} n"]]) (auto simp: known_def)
  have put: "hoare (\<lambda>s. linked ops width act {} n s \<and> unused d s \<and> known i s \<and> True)
      (svc_try (svc_store store_failed (put_vector_mapping i d)))
      (\<lambda>x. placed ops width act n i (case x of Some _ \<Rightarrow> Some d | None \<Rightarrow> None)) (linked ops width act {} n)" for d
    by (rule hoare_weaken [OF hoare_try [OF hoare_put [where P = "\<lambda>_. True"]]]) (auto simp: placed_def split: option.splits)
  have fresh: "hoare ?K (svc_bind allocate_id (\<lambda>new_id.
      svc_bind (svc_try (svc_store store_failed (put_vector_mapping i new_id))) (\<lambda>written.
        svc_return (case written of Some _ \<Rightarrow> Some new_id | None \<Rightarrow> None)))) (placed ops width act n i) (linked ops width act {} n)"
    by (intro hoare_bind [OF alloc] hoare_bind [OF put] hoare_return)
  have "hoare (\<lambda>s. ?K s \<and> (\<forall>d. x = Some (Some d) \<longrightarrow> mapped i d s)) (case x of
       Some (Some existing) \<Rightarrow> svc_return (Some existing)
     | _ \<Rightarrow> svc_bind allocate_id (\<lambda>new_id.
              svc_bind (svc_try (svc_store store_failed (put_vector_mapping i new_id))) (\<lambda>written.
                svc_return (case written of Some _ \<Rightarrow> Some new_id | None \<Rightarrow> None))))
     (placed ops width act n i) (linked ops width act {} n)" for x
  proof (cases x)
    case None
    show ?thesis unfolding None option.case by (rule hoare_pre [OF fresh]) simp
  next
    case x: (Some y)
    show ?thesis
    proof (cases y)
      case None
      show ?thesis unfolding x None option.case by (rule hoare_pre [OF fresh]) simp
    next
      case (Some d)
      have "linked ops width act {i} n s" if "linked ops width act {} (Suc n) s" for s
        using linked_mono [OF linked_less [OF that]] by simp
      then show ?thesis unfolding x Some option.case by (intro hoare_return) (simp add: placed_def)
    qed
  qed
  then show ?thesis unfolding heal_data_id_def by (rule hoare_bind [OF read])
qed

lemma hoare_read_entry:
  "hoare (linked ops width act {} m) (svc_try (svc_store store_failed (get_entry i)))
     (\<lambda>x s. linked ops width act {} m s \<and> (x \<noteq> None \<longrightarrow> known i s)) (linked ops width act {} m)"
proof -
  have "hoare (linked ops width act {} m) (svc_store store_failed (get_entry i))
     (\<lambda>x s. linked ops width act {} m s \<and> known i s) (linked ops width act {} m)"
  proof (rule hoare_store)
    fix s fs r db' fs'
    assume l: "linked ops width act {} m s" and run: "get_entry i (svc_tables s) fs = (r, db', fs')"
    have "db' = svc_tables s" using get_entry_state [of i "svc_tables s" fs] run by simp
    moreover have "i \<in> row_ids (svc_tables s)" if "r = Replied a" for a
      using fault_freeD [OF fault_free_get_entry run [unfolded that]] linkedD(1) [OF l] arg_cong [of _ _ fst]
      by (cases "hm_get (entries_table (svc_tables s)) i") (auto simp: calm_get_entry row_ids_def)
    ultimately show "case r of Replied a \<Rightarrow> linked ops width act {} m (s\<lparr>svc_tables := db'\<rparr>) \<and> known i (s\<lparr>svc_tables := db'\<rparr>)
      | _ \<Rightarrow> linked ops width act {} m (s\<lparr>svc_tables := db'\<rparr>)"
      using l by (simp add: known_def split: reply.split)
  qed
  from hoare_try [OF this, of "linked ops width act {} m"] show ?thesis
    by (rule hoare_weaken) (auto split: option.splits)
qed

text \<open>A step that takes at most one id and leaves the link alone.\<close>

lemma hoare_spends0: "spends ops width act 0 m \<Longrightarrow> hoare (linked ops width act {} n) m (\<lambda>_. linked ops width act {} n) (linked ops width act {} n)"
  using spendsD [of ops width act 0 m n] by simp

lemma hoare_heal_insert:
  assumes "hnsw_ok ops metric" and "model_ok width model" and "model e = Inr w"
  shows "hoare (placed ops width act n i (Some d)) (svc_bind (svc_try (insert_only ops i d w)) (\<lambda>put.
      case put of
        None \<Rightarrow> svc_return ()
      | Some _ \<Rightarrow> svc_bind (svc_try (svc_store store_failed (update_embedding_dim i (length w mod 2 ^ 16)))) (\<lambda>_. svc_return ())))
    (\<lambda>_. linked ops width act {} n) (linked ops width act {} n)"
proof -
  let ?L = "linked ops width act {} n"
  have "hoare (placed ops width act n i (Some d)) (insert_only ops i d w) (\<lambda>_. ?L) ?L"
    by (rule hoare_pre [OF hoare_insert_only(2) [OF assms(1)]])
      (auto simp: placed_def dest: linkedD(3) intro: model_checked [OF assms(2,3)])
  then have put: "hoare (placed ops width act n i (Some d)) (svc_try (insert_only ops i d w)) (\<lambda>_. ?L) ?L"
    by (rule hoare_weaken [OF hoare_try]) (auto split: option.splits)
  have "hoare ?L (case x of None \<Rightarrow> svc_return () | Some _ \<Rightarrow>
      svc_bind (svc_try (svc_store store_failed (update_embedding_dim i (length w mod 2 ^ 16)))) (\<lambda>_. svc_return ()))
      (\<lambda>_. ?L) ?L" for x :: "unit option"
    by (rule hoare_spends0) (auto split: option.split intro!: spends_seq spends_try spends_quiet quiet_dim spends_return)
  then show ?thesis by (rule hoare_bind [OF put])
qed

lemma spends_heal_entry:
  assumes "hnsw_ok ops metric" and "model_ok width model"
  shows "spends ops width act 1 (heal_entry ops model i)"
proof (rule spendsI)
  fix n
  let ?L = "linked ops width act {}"
  let ?put = "\<lambda>w data_id. svc_bind (svc_try (insert_only ops i data_id w)) (\<lambda>put.
      case put of
        None \<Rightarrow> svc_return ()
      | Some _ \<Rightarrow> svc_bind (svc_try (svc_store store_failed (update_embedding_dim i (length w mod 2 ^ 16)))) (\<lambda>_. svc_return ()))"
  have tail: "hoare (placed ops width act n i d) (case d of None \<Rightarrow> svc_return () | Some data_id \<Rightarrow> ?put w data_id)
      (\<lambda>_. ?L n) (?L n)" if "model e = Inr w" for d e w
  proof (cases d)
    case None
    then show ?thesis by (auto intro!: hoare_return simp: placed_def)
  next
    case (Some d')
    show ?thesis unfolding Some option.case by (rule hoare_heal_insert [OF assms that])
  qed
  have "hoare (\<lambda>s. ?L (Suc n) s \<and> (x \<noteq> None \<longrightarrow> known i s)) (case x of
      None \<Rightarrow> svc_return ()
    | Some e \<Rightarrow> (case model e of Inl _ \<Rightarrow> svc_return () | Inr w \<Rightarrow> svc_bind (heal_data_id i) (\<lambda>d.
        case d of None \<Rightarrow> svc_return () | Some data_id \<Rightarrow> ?put w data_id)))
    (\<lambda>_. ?L n) (?L n)" for x
  proof (cases "\<exists>e w. x = Some e \<and> model e = Inr w")
    case True
    then obtain e w where x: "x = Some e" "model e = Inr w" by blast
    show ?thesis unfolding x option.case sum.case
      by (rule hoare_pre [OF hoare_bind [OF hoare_heal_data_id tail [OF x(2)]]]) simp
  next
    case False
    then show ?thesis by (auto split: option.split sum.split intro!: hoare_return elim: linked_less)
  qed
  moreover have "hoare (?L (n + 1)) (svc_try (svc_store store_failed (get_entry i)))
      (\<lambda>x s. ?L (Suc n) s \<and> (x \<noteq> None \<longrightarrow> known i s)) (?L n)"
    by (rule hoare_weaken [OF hoare_read_entry [of ops width act "Suc n"]]) (auto elim: linked_less)
  ultimately show "hoare (?L (n + 1)) (heal_entry ops model i) (\<lambda>_. ?L n) (?L n)"
    unfolding heal_entry_def by (intro hoare_bind)
qed

text \<open>The pass looks at the index itself, which changes nothing.\<close>

lemma spends_look: "(\<And>s. spends ops width act c (f s)) \<Longrightarrow> spends ops width act c (\<lambda>s. f s s)"
  unfolding spends_def hoare_def by blast

lemma spends_heal_pass:
  assumes "hnsw_ok ops metric" and "\<And>model. embedder = Some model \<Longrightarrow> model_ok width model"
  shows "spends ops width act batch (heal_pass ops scan batch embedder active_entries)"
proof -
  have "spends ops width act batch (case embedder of None \<Rightarrow> svc_return () | Some model \<Rightarrow> svc_for (heal_entry ops model) (take batch xs))" for xs
  proof (cases embedder)
    case None
    then show ?thesis using spends_less [OF spends_return] by simp
  next
    case (Some model)
    have each: "spends ops width act (1 * length (take batch xs)) (svc_for (heal_entry ops model) (take batch xs))"
      by (rule spends_for) (rule spends_heal_entry [OF assms(1) assms(2) [OF Some]])
    have "1 * length (take batch xs) \<le> batch" by simp
    from spends_less [OF each this] show ?thesis unfolding Some option.case .
  qed
  then have "spends ops width act batch (\<lambda>s. (case embedder of None \<Rightarrow> svc_return ()
    | Some model \<Rightarrow> svc_for (heal_entry ops model) (take batch (g (svc_index s)))) s)" for g :: "'a vector_index \<Rightarrow> nat list"
    by (intro spends_look [where f = "\<lambda>s. case embedder of None \<Rightarrow> svc_return ()
      | Some model \<Rightarrow> svc_for (heal_entry ops model) (take batch (g (svc_index s)))"])
  then show ?thesis unfolding heal_pass_def Let_def by (intro spends_seq [OF spends_rows])
qed

lemma linked_compacted:
  assumes h: "hnsw_ok ops metric" and l: "linked ops width act {} n s" and few: "length es \<le> last_id (svc_tables s)"
    and es: "\<forall>p \<in> set es. check_embedding (svc_index s) (snd p) = Inr () \<and> fst p \<in> row_ids (svc_tables s)"
    and rows: "map_of (vector_table db) = hm_get (entry_to_data (ids v))"
    and ok: "store_ok db" "last_id db = last_id (svc_tables s)" and same: "entries_table db = entries_table (svc_tables s)"
    and v: "v = inserted ops es ((svc_index s)\<lparr>hnsw := hnsw_new ops (index_config (svc_index s)), ids := id_map_new, next_data_id := 0\<rparr>)"
    and known: "\<forall>e d. hm_get (entry_to_data (ids v)) e = Some d \<longrightarrow> e \<in> fst ` set es"
  shows "linked ops width act {} n (s\<lparr>svc_index := v, svc_tables := db\<rparr>)"
proof -
  let ?v = "(svc_index s)\<lparr>hnsw := hnsw_new ops (index_config (svc_index s)), ids := id_map_new, next_data_id := 0\<rparr>"
  have "points ops (hnsw_new ops (index_config (svc_index s))) = []" using hnsw_okD(1) [OF h] .
  then have "index_ok ops ?v" "one_each ops ?v" by (simp_all add: index_ok_def inverse_maps_def id_map_new_def one_each_def)
  moreover have small: "length es + n < 2 ^ 64" using linkedD(5) [OF l] few by (simp add: id_limit_def)
  ultimately have new: "index_ok ops v" "next_data_id v = length es" "index_config v = index_config (svc_index s)"
    using inserted_ok [OF h, of ?v es] es by (simp_all add: v)
  have get: "hm_get (vector_table db) = hm_get (entry_to_data (ids v))" using rows by (simp add: fun_eq_iff)
  have inverse: "inverse_maps (ids v)" using new(1) by (simp add: index_ok_def)
  have below: "d < next_data_id v" if "hm_get (entry_to_data (ids v)) e = Some d" for e d
    using new(1) that by (fastforce simp: index_ok_def)
  show ?thesis
  proof (rule linked_replace [OF l new(1) new(3) _ ok _ same])
    show "\<forall>e d. hm_get (vector_table db) e = Some d \<longrightarrow> d < next_data_id v \<and> e \<in> row_ids (svc_tables s)"
      using known es below unfolding get by (metis imageE)
    show "\<forall>e e' d. hm_get (vector_table db) e = Some d \<longrightarrow> hm_get (vector_table db) e' = Some d \<longrightarrow> e = e'"
      using inverse_maps_inj [OF inverse] unfolding get by blast
  qed (use small in \<open>simp_all add: new(2) get\<close>)
qed

lemma inserted_known:
  "hm_get (entry_to_data (ids (inserted ops es v))) e = Some d \<Longrightarrow> e \<in> fst ` set es \<or> hm_get (entry_to_data (ids v)) e = Some d"
proof (induction es arbitrary: v)
  case (Cons p es)
  obtain i w where p: "p = (i, w)" by (cases p)
  show ?case using Cons.IH [of "insert_next ops i w v"] Cons.prems by (auto simp: p split: if_splits)
qed simp

lemma spends_compaction:
  assumes h: "hnsw_ok ops metric"
  shows "spends ops width act 0 (compaction_pass ops violation embeddings act)"
proof -
  have pass: "spends ops width act 0 (run_vector (compact ops violation es))" if es: "es = zip (map eid act) ws" for es ws
  proof (rule spendsI, rule hoareI)
    fix n s fs r s' fs'
    assume "linked ops width act {} (n + 0) s" and run: "run_vector (compact ops violation es) s fs = (r, s', fs')"
    then have l: "linked ops width act {} n s" by simp
    obtain r1 v db where step: "compact ops violation es (svc_index s) (svc_tables s) fs = (r1, v, db, fs')"
      and s': "s' = s\<lparr>svc_index := v, svc_tables := db\<rparr>" by (rule vector_lifted [OF run])
    have act: "length act \<le> last_id (svc_tables s)" "eid ` set act \<subseteq> row_ids (svc_tables s)"
      using linkedD(10) [OF l] by (simp_all add: loaded_def)
    then have few: "length es \<le> last_id (svc_tables s)" by (simp add: es)
    then have small: "length es < 2 ^ 64" using linkedD(5) [OF l] by (simp add: id_limit_def)
    have fst_es: "fst p \<in> row_ids (svc_tables s)" if "p \<in> set es" for p
    proof -
      have "fst p \<in> set (map eid act)" using that unfolding es by (metis prod.collapse set_zip_leftD)
      then show ?thesis using act(2) by auto
    qed
    have "linked ops width act {} n s'"
    proof (cases rule: compact_cases [OF step small])
      case 1
      then show ?thesis using l by (simp add: s')
    next
      case (2 rows)
      show ?thesis unfolding s'
      proof (rule linked_compacted [OF h l few _ _ _ _ _ 2(4)])
        show "\<forall>p \<in> set es. check_embedding (svc_index s) (snd p) = Inr () \<and> fst p \<in> row_ids (svc_tables s)" using 2(3) fst_es by blast
        show "\<forall>e d. hm_get (entry_to_data (ids v)) e = Some d \<longrightarrow> e \<in> fst ` set es"
          unfolding 2(4) by (auto dest!: inserted_known simp: id_map_new_def)
      qed (use 2(5,6) linkedD(1) [OF l] in \<open>simp_all add: store_ok_frame\<close>)
    qed
    then show "case r of Some (Inr a) \<Rightarrow> linked ops width act {} n s' | _ \<Rightarrow> linked ops width act {} n s'"
      by (auto split: option.split sum.split)
  qed
  then show ?thesis unfolding compaction_pass_def
    by (auto intro!: spends_seq [OF spends_try] spends_return split: option.split sum.split)
qed

section \<open>Sequences of calls\<close>

text \<open>
  Calls come with what they take from their surroundings. A tick of the maintenance begins with a
  snapshot of the active entries, which its passes work on whatever calls come in between; without
  a snapshot the passes are skipped.
\<close>

datatype 'h service_event =
  StoreEntry "'h service_env" new_entry "float_value list option" audit_context caller_id
| CorrectEntry "'h service_env" nat new_entry audit_context caller_id
| RecordCompaction string int int
| LoadSnapshot "entry_record list \<Rightarrow> entry_record list"
| PruneVectors "nat list \<Rightarrow> nat list"
| HealVectors "nat list \<Rightarrow> nat list" nat "(entry_record \<Rightarrow> string + float_value list) option"
| CompactIndex string "(string + float_value list list) option"

definition service_step ::
    "'h hnsw_ops \<Rightarrow> 'h service_event \<Rightarrow> entry_record list option \<Rightarrow> ('h, entry_record list option) service_call" where
  "service_step ops ev snapshot =
     (let pass = (\<lambda>run. case snapshot of None \<Rightarrow> svc_return None | Some active_entries \<Rightarrow>
        svc_bind (run active_entries) (\<lambda>_ :: unit. svc_return (Some active_entries)))
      in case ev of
        StoreEntry env e w ctx caller \<Rightarrow> svc_bind (service_insert env e w ctx caller) (\<lambda>_. svc_return snapshot)
      | CorrectEntry env i c ctx caller \<Rightarrow> svc_bind (service_correct env i c ctx caller) (\<lambda>_. svc_return snapshot)
      | RecordCompaction i t h \<Rightarrow> svc_bind (service_insert_compaction_event i t h) (\<lambda>_. svc_return snapshot)
      | LoadSnapshot scan \<Rightarrow> svc_bind (svc_try (svc_store store_failed (load_active_entries_with_tags scan))) svc_return
      | PruneVectors scan \<Rightarrow> pass (\<lambda>_. prune_pass scan)
      | HealVectors scan batch embedder \<Rightarrow> pass (heal_pass ops scan batch embedder)
      | CompactIndex violation embeddings \<Rightarrow> pass (compaction_pass ops violation embeddings))"

text \<open>A call that fails leaves the snapshot alone.\<close>

fun service_run ::
    "'h hnsw_ops \<Rightarrow> ('h service_event \<times> fault option list) list \<Rightarrow> entry_record list option \<Rightarrow> 'h service_state \<Rightarrow> 'h service_state" where
  "service_run ops [] snapshot s = s"
| "service_run ops ((ev, fs) # evs) snapshot s =
     (case service_step ops ev snapshot s fs of
        (Some (Inr snapshot'), s', _) \<Rightarrow> service_run ops evs snapshot' s'
      | (_, s', _) \<Rightarrow> service_run ops evs snapshot s')"

text \<open>The engine is one, queries return their rows in some order, and the model answers what it is configured for.\<close>

definition event_ok :: "'h hnsw_ops \<Rightarrow> nat \<Rightarrow> 'h service_event \<Rightarrow> bool" where
  "event_ok ops width ev \<longleftrightarrow>
     (case ev of
        StoreEntry env e w ctx caller \<Rightarrow> se_ops env = ops
      | CorrectEntry env i c ctx caller \<Rightarrow> se_ops env = ops
      | LoadSnapshot scan \<Rightarrow> any_order scan
      | HealVectors scan batch embedder \<Rightarrow> (case embedder of None \<Rightarrow> True | Some model \<Rightarrow> model_ok width model)
      | _ \<Rightarrow> True)"

definition event_ids :: "'h service_event \<Rightarrow> nat" where
  "event_ids ev =
     (case ev of
        StoreEntry env e w ctx caller \<Rightarrow> 2
      | CorrectEntry env i c ctx caller \<Rightarrow> 2
      | HealVectors scan batch embedder \<Rightarrow> batch
      | _ \<Rightarrow> 0)"

abbreviation snapshot_entries :: "entry_record list option \<Rightarrow> entry_record list" where
  "snapshot_entries snapshot \<equiv> (case snapshot of None \<Rightarrow> [] | Some act \<Rightarrow> act)"

text \<open>The condition on a step: the link for the snapshot before it and for the one it returns.\<close>

definition steps_well :: "'h hnsw_ops \<Rightarrow> nat \<Rightarrow> entry_record list option \<Rightarrow> nat \<Rightarrow> ('h, entry_record list option) service_call \<Rightarrow> bool" where
  "steps_well ops width snapshot c m \<longleftrightarrow> (\<forall>n. hoare (linked ops width (snapshot_entries snapshot) {} (n + c)) m
     (\<lambda>snapshot'. linked ops width (snapshot_entries snapshot') {} n) (linked ops width (snapshot_entries snapshot) {} n))"

lemma steps_spends:
  assumes "spends ops width (snapshot_entries snapshot) c m"
  shows "steps_well ops width snapshot c (svc_bind m (\<lambda>_. svc_return snapshot))"
  unfolding steps_well_def
  by (intro allI hoare_bind [OF spendsD [OF assms]] hoare_return)

lemma steps_pass:
  assumes "\<And>act. snapshot = Some act \<Longrightarrow> spends ops width act c (run act)"
  shows "steps_well ops width snapshot c (case snapshot of None \<Rightarrow> svc_return None | Some act \<Rightarrow>
     svc_bind (run act) (\<lambda>_ :: unit. svc_return (Some act)))"
proof (cases snapshot)
  case None
  show ?thesis unfolding steps_well_def None option.case
    by (intro allI hoare_return) (simp, erule linked_less, simp)
next
  case (Some act)
  then show ?thesis using steps_spends [of ops width "Some act" c "run act"] assms by simp
qed

lemma linked_snapshot: "linked ops width act X n s \<Longrightarrow> loaded act' (svc_tables s) \<Longrightarrow> linked ops width act' X n s"
  unfolding linked_def by blast

lemma loaded_active:
  assumes ok: "store_ok db" and order: "any_order scan" and run: "load_active_entries_with_tags scan db fs = (Replied es, db', fs')"
  shows "loaded es db"
proof -
  have "fault_free (load_active_entries_with_tags scan)"
    unfolding load_active_entries_with_tags_def select_entries_def load_tags_for_entries_def by (intro fault_free_intros)
  from fault_freeD [OF this run] have "select_entries scan (status_is Active) db [] = (Replied es, db', [])"
    by (simp add: load_active_entries_with_tags_def)
  moreover obtain es' where "select_entries scan (status_is Active) db [] = (Replied es', db, [])" and es': "distinct (map eid es')"
      "\<And>e. e \<in> set es' \<longleftrightarrow> (\<exists>i row. hm_get (entries_table db) i = Some row \<and> status_is Active db row \<and> e = stored_entry db i row)"
    by (rule select_exact [OF ok order, of "status_is Active"]) (use that in blast)
  ultimately have "es = es'" by simp
  then have es: "distinct (map eid es)" "\<And>e. e \<in> set es \<Longrightarrow> \<exists>i row. hm_get (entries_table db) i = Some row \<and> e = stored_entry db i row"
    using es' by simp_all blast
  have known: "eid e \<in> row_ids db" if "e \<in> set es" for e
    using es(2) [OF that] row_id [OF ok] by (auto simp: row_ids_def)
  have "row_ids db \<subseteq> {1..last_id db}" using ok by (auto simp: row_ids_def store_ok_def ids_ok_def)
  then have "set (map eid es) \<subseteq> {1..last_id db}" using known by auto
  then have "card (set (map eid es)) \<le> last_id db" using card_mono [of "{1..last_id db}"] by fastforce
  then have "length es \<le> last_id db" using distinct_card [OF es(1)] by simp
  then show ?thesis using known by (auto simp: loaded_def)
qed

lemma select_state: "fst (snd (select_entries scan cond db fs)) = db"
proof -
  have "keeps (\<lambda>db'. db' = db) (select_entries scan cond)"
    unfolding select_entries_def load_tags_for_entries_def by (intro keeps_intros)
  then show ?thesis by (cases "select_entries scan cond db fs") (auto dest: keepsD)
qed

lemma steps_load:
  assumes "any_order scan"
  shows "steps_well ops width snapshot 0 (svc_bind (svc_try (svc_store store_failed (load_active_entries_with_tags scan))) svc_return)"
proof -
  let ?L = "\<lambda>act n. linked ops width act {} n"
  have "hoare (?L (snapshot_entries snapshot) n) (svc_store store_failed (load_active_entries_with_tags scan))
      (\<lambda>es. ?L es n) (?L (snapshot_entries snapshot) n)" for n
  proof (rule hoare_store)
    fix s fs r db' fs'
    assume l: "?L (snapshot_entries snapshot) n s" and run: "load_active_entries_with_tags scan (svc_tables s) fs = (r, db', fs')"
    have same: "db' = svc_tables s"
      using select_state [of scan "status_is Active" "svc_tables s" fs] run by (simp add: load_active_entries_with_tags_def)
    have "?L es n s" if "r = Replied es" for es
      by (rule linked_snapshot [OF l loaded_active [OF linkedD(1) [OF l] assms run [unfolded that]]])
    then show "case r of Replied es \<Rightarrow> ?L es n (s\<lparr>svc_tables := db'\<rparr>)
      | _ \<Rightarrow> ?L (snapshot_entries snapshot) n (s\<lparr>svc_tables := db'\<rparr>)"
      using l by (simp add: same split: reply.split)
  qed
  from hoare_try [OF this] have "hoare (?L (snapshot_entries snapshot) n) (svc_try (svc_store store_failed (load_active_entries_with_tags scan)))
      (\<lambda>x. ?L (snapshot_entries x) n) (?L (snapshot_entries snapshot) n)" for n
    by (rule hoare_weaken) (auto split: option.splits elim: linked_snapshot)
  then show ?thesis unfolding steps_well_def add_0_right by (intro allI hoare_bind [OF _ hoare_return])
qed

lemma steps_event:
  assumes h: "hnsw_ok ops metric" and ok: "event_ok ops width ev"
  shows "steps_well ops width snapshot (event_ids ev) (service_step ops ev snapshot)"
proof (cases ev)
  case (StoreEntry env e w ctx caller)
  then have "se_ops env = ops" using ok by (simp add: event_ok_def)
  then have "spends ops width (snapshot_entries snapshot) 2 (service_insert env e w ctx caller)" using spends_insert [of env metric] h by metis
  then show ?thesis by (simp add: StoreEntry event_ids_def service_step_def steps_spends)
next
  case (CorrectEntry env i c ctx caller)
  then have "se_ops env = ops" using ok by (simp add: event_ok_def)
  then have "spends ops width (snapshot_entries snapshot) 2 (service_correct env i c ctx caller)" using spends_correct [of env metric] h by metis
  then show ?thesis by (simp add: CorrectEntry event_ids_def service_step_def steps_spends)
next
  case (HealVectors scan batch embedder)
  have "model_ok width model" if "embedder = Some model" for model
    using ok that by (simp add: HealVectors event_ok_def)
  then have "spends ops width act batch (heal_pass ops scan batch embedder act)" for act by (rule spends_heal_pass [OF h])
  then show ?thesis unfolding service_step_def HealVectors Let_def service_event.case event_ids_def by (intro steps_pass)
next
  case (LoadSnapshot scan)
  then show ?thesis using ok steps_load by (simp add: event_ids_def service_step_def event_ok_def)
next
  case (RecordCompaction i t h)
  then show ?thesis by (simp add: event_ids_def service_step_def steps_spends spends_compaction_event)
next
  case (PruneVectors scan)
  show ?thesis unfolding service_step_def PruneVectors Let_def service_event.case event_ids_def by (intro steps_pass spends_prune_pass)
next
  case (CompactIndex violation embeddings)
  show ?thesis unfolding service_step_def CompactIndex Let_def service_event.case event_ids_def by (intro steps_pass spends_compaction [OF h])
qed

lemma linked_run:
  assumes "hnsw_ok ops metric" and "\<forall>(ev, fs) \<in> set evs. event_ok ops width ev"
    and "linked ops width (snapshot_entries snapshot) {} (n + sum_list (map (\<lambda>(ev, fs). event_ids ev) evs)) s"
  shows "\<exists>act. linked ops width act {} n (service_run ops evs snapshot s)"
  using assms(2,3)
proof (induction evs arbitrary: s snapshot)
  case (Cons p evs)
  obtain ev fs where p: "p = (ev, fs)" by (cases p)
  obtain r s1 fs1 where step: "service_step ops ev snapshot s fs = (r, s1, fs1)" by (rule prod_cases3)
  let ?n = "n + sum_list (map (\<lambda>(ev, fs). event_ids ev) evs)"
  have ok: "event_ok ops width ev" using Cons.prems(1) by (simp add: p)
  have "linked ops width (snapshot_entries snapshot) {} (?n + event_ids ev) s" using Cons.prems(2) by (simp add: p ac_simps)
  then have "case r of Some (Inr snapshot') \<Rightarrow> linked ops width (snapshot_entries snapshot') {} ?n s1
    | _ \<Rightarrow> linked ops width (snapshot_entries snapshot) {} ?n s1"
    using steps_event [OF assms(1) ok, of snapshot] step unfolding steps_well_def hoare_def by blast
  then show ?case using Cons.IH Cons.prems(1) by (auto simp: p step split: option.splits sum.splits)
qed auto

end
