(* ===== verification/Vector_Props.thy ===== *)
theory Vector_Props
  imports Vector_Laws Store_Query_Laws
begin

text \<open>
  Properties of the vector index over sequences of calls, in which any statement of the store
  may fail: its contents refine a map from entries to embeddings, it agrees with the table of
  mappings, and what a search answers.
\<close>

section \<open>Sequences of calls\<close>

datatype vector_event =
  InsertVector nat "float_value list"
| CompactVectors "(nat \<times> float_value list) list"
| PruneVector nat

definition vector_step :: "'h hnsw_ops \<Rightarrow> string \<Rightarrow> vector_event \<Rightarrow> ('h, unit) vector_call" where
  "vector_step ops violation ev =
     (case ev of
        InsertVector e w \<Rightarrow> vector_insert ops e w
      | CompactVectors es \<Rightarrow> compact ops violation es
      | PruneVector e \<Rightarrow> prune_vector e)"

fun vector_run ::
    "'h hnsw_ops \<Rightarrow> string \<Rightarrow> (vector_event \<times> fault option list) list \<Rightarrow> 'h vector_index \<Rightarrow> store_db \<Rightarrow>
     (vector_error + unit) option list \<times> 'h vector_index \<times> store_db" where
  "vector_run ops violation [] v db = ([], v, db)"
| "vector_run ops violation ((ev, fs) # evs) v db =
     (let (r, v', db', _) = vector_step ops violation ev v db fs;
          (rs, v'', db'') = vector_run ops violation evs v' db'
      in (r # rs, v'', db''))"

text \<open>The abstract index: a map from entries to embeddings; a call that fails changes nothing.\<close>

definition abstract_step :: "vector_event \<Rightarrow> (nat \<Rightarrow> float_value list option) \<Rightarrow> nat \<Rightarrow> float_value list option" where
  "abstract_step ev m =
     (case ev of
        InsertVector e w \<Rightarrow> m(e \<mapsto> w)
      | CompactVectors es \<Rightarrow> map_of es
      | PruneVector e \<Rightarrow> m(e := None))"

fun abstract_run ::
    "vector_event list \<Rightarrow> (vector_error + unit) option list \<Rightarrow> (nat \<Rightarrow> float_value list option) \<Rightarrow>
     nat \<Rightarrow> float_value list option" where
  "abstract_run (ev # evs) (r # rs) m = abstract_run evs rs (if r = Some (Inr ()) then abstract_step ev m else m)"
| "abstract_run _ _ m = m"

text \<open>How many ids a call may take; they start again at a compaction.\<close>

definition ids_taken :: "vector_event \<Rightarrow> nat" where
  "ids_taken ev = (case ev of InsertVector _ _ \<Rightarrow> 1 | CompactVectors es \<Rightarrow> length es | PruneVector _ \<Rightarrow> 0)"

definition agrees :: "'h vector_index \<Rightarrow> store_db \<Rightarrow> bool" where
  "agrees v db \<longleftrightarrow> hm_get (vector_table db) = hm_get (entry_to_data (ids v))"

lemma vector_step_ok:
  assumes "hnsw_ok ops metric" and "index_ok ops v" and "one_each ops v"
    and "vector_step ops violation ev v db fs = (r, v', db', fs')" and "next_data_id v + ids_taken ev < 2 ^ 64"
  shows "index_ok ops v' \<and> one_each ops v' \<and> (agrees v db \<longrightarrow> agrees v' db') \<and>
    next_data_id v' \<le> next_data_id v + ids_taken ev \<and> index_config v' = index_config v \<and>
    get_embedding ops v' = (if r = Some (Inr ()) then abstract_step ev (get_embedding ops v) else get_embedding ops v)"
proof (cases ev)
  case (InsertVector e w)
  then have run: "vector_insert ops e w v db fs = (r, v', db', fs')" using assms(4) by (simp add: vector_step_def)
  have small: "next_data_id v < 2 ^ 64 - 1" using assms(5) by (simp add: InsertVector ids_taken_def)
  show ?thesis
  proof (cases rule: vector_insert_cases [OF run])
    case (1 er)
    then show ?thesis using assms(2,3) by simp
  next
    case (2 er)
    then show ?thesis using add_next_ok [OF assms(1,2) 2(1) small] assms(3) small
      by (simp add: InsertVector ids_taken_def agrees_def)
  next
    case 3
    then show ?thesis using insert_next_ok [OF assms(1,2) 3(1) small, of e] assms(3) small
      by (simp add: InsertVector ids_taken_def agrees_def abstract_step_def)
  qed
next
  case (CompactVectors es)
  then have run: "compact ops violation es v db fs = (r, v', db', fs')" using assms(4) by (simp add: vector_step_def)
  have small: "length es < 2 ^ 64" using assms(5) by (simp add: CompactVectors ids_taken_def)
  show ?thesis
  proof (cases rule: compact_cases [OF run small])
    case 1
    then show ?thesis using assms(2,3) by simp
  next
    case (2 rows)
    let ?v = "v\<lparr>hnsw := hnsw_new ops (index_config v), ids := id_map_new, next_data_id := 0\<rparr>"
    have empty: "points ops (hnsw_new ops (index_config v)) = []" using hnsw_okD(1) [OF assms(1)] .
    have "index_ok ops ?v" "one_each ops ?v" "get_embedding ops ?v = Map.empty"
      by (simp_all add: index_ok_def inverse_maps_def id_map_new_def one_each_def get_embedding_map empty)
    then show ?thesis using inserted_ok [OF assms(1), of ?v es] 2 small fold_update_distinct [OF 2(2), of Map.empty]
      by (simp add: CompactVectors ids_taken_def agrees_def abstract_step_def)
  qed
next
  case (PruneVector e)
  then have run: "prune_vector e v db fs = (r, v', db', fs')" using assms(4) by (simp add: vector_step_def)
  show ?thesis
  proof (cases rule: prune_vector_cases [OF run])
    case 1
    then show ?thesis using assms(2,3) by simp
  next
    case 2
    then show ?thesis using remove_entry_ok [OF assms(2), of e] assms(3)
      by (simp add: PruneVector ids_taken_def agrees_def abstract_step_def one_each_def)
  qed
qed

lemma vector_run_ok:
  assumes "hnsw_ok ops metric" and "index_ok ops v" and "one_each ops v"
    and "vector_run ops violation evs v db = (rs, v', db')"
    and "next_data_id v + sum_list (map (\<lambda>e. ids_taken (fst e)) evs) < 2 ^ 64"
  shows "index_ok ops v' \<and> one_each ops v' \<and> (agrees v db \<longrightarrow> agrees v' db') \<and> index_config v' = index_config v \<and>
    get_embedding ops v' = abstract_run (map fst evs) rs (get_embedding ops v)"
  using assms(2-)
proof (induction evs arbitrary: v db rs)
  case (Cons e evs)
  obtain ev fs where e: "e = (ev, fs)" by (cases e)
  obtain r v1 db1 fs1 where step: "vector_step ops violation ev v db fs = (r, v1, db1, fs1)"
    by (cases "vector_step ops violation ev v db fs")
  obtain rs1 where rs: "rs = r # rs1" and rest: "vector_run ops violation evs v1 db1 = (rs1, v', db')"
    using Cons.prems(3) by (auto simp: e step split: prod.splits)
  have "next_data_id v + ids_taken ev < 2 ^ 64" using Cons.prems(4) by (simp add: e)
  note step_ok = vector_step_ok [OF assms(1) Cons.prems(1,2) step this]
  have "next_data_id v1 + sum_list (map (\<lambda>e. ids_taken (fst e)) evs) < 2 ^ 64" using Cons.prems(4) step_ok by (simp add: e)
  from Cons.IH [OF _ _ rest this] show ?case using step_ok by (auto simp: e rs)
qed simp

section \<open>Searches\<close>

text \<open>An order of all floats, NaN below the numbers; results are ordered by descending similarity.\<close>

fun float_le :: "float_value \<Rightarrow> float_value \<Rightarrow> bool" where
  "float_le NaN y \<longleftrightarrow> True"
| "float_le x NaN \<longleftrightarrow> x = NaN"
| "float_le x y \<longleftrightarrow> \<not> float_less y x"

interpretation by_similarity: row_order "\<lambda>a b :: search_result. float_le (similarity b) (similarity a)"
proof
  show "float_le (similarity z) (similarity x)"
    if "float_le (similarity y) (similarity x)" "float_le (similarity z) (similarity y)" for x y z :: search_result
    using that by (cases "similarity x"; cases "similarity y"; cases "similarity z") auto
  show "float_le (similarity y) (similarity x) \<or> float_le (similarity x) (similarity y)" for x y :: search_result
    by (cases "similarity x"; cases "similarity y") auto
qed

lemma float_le_numbers: "x \<noteq> NaN \<Longrightarrow> float_le y x = (\<not> float_less x y)"
  by (cases x; cases y) auto

lemma insert_by_cong: "\<forall>y \<in> set ys. le x y = le' x y \<Longrightarrow> insert_by le x ys = insert_by le' x ys"
  by (induction ys) auto

lemma sort_by_cong: "\<forall>x \<in> set xs. \<forall>y \<in> set xs. le x y = le' x y \<Longrightarrow> sort_by le xs = sort_by le' xs"
proof (induction xs)
  case (Cons x xs)
  have "set (sort_by le' xs) = set xs" by (rule mset_eq_setD [OF sort_by_mset])
  then show ?case using Cons insert_by_cong [of "sort_by le' xs" le x le'] by (simp add: sort_by_def)
qed (simp add: sort_by_def)

lemma collect_results_sound:
  "distinct (map entry_id_of (collect_results rnd m seen ns)) \<and>
   entry_id_of ` set (collect_results rnd m seen ns) \<inter> set seen = {} \<and>
   length (collect_results rnd m seen ns) \<le> length ns \<and>
   (\<forall>r \<in> set (collect_results rnd m seen ns). \<exists>n \<in> set ns.
      hm_get (data_to_entry m) (fst n) = Some (entry_id_of r) \<and> similarity r = similarity_of rnd (snd n))"
proof (induction ns arbitrary: seen)
  case (Cons n ns)
  obtain d x where n: "n = (d, x)" by (cases n)
  show ?case
  proof (cases "hm_get (data_to_entry m) d")
    case None
    then show ?thesis using Cons [of seen] by (auto simp: n)
  next
    case (Some e)
    show ?thesis
    proof (cases "e \<in> set seen")
      case True
      then show ?thesis using Cons [of seen] Some by (auto simp: n)
    next
      case False
      then show ?thesis using Cons [of "e # seen"] Some by (fastforce simp: n)
    qed
  qed
qed simp

text \<open>What a list of results says of the embeddings it was found in.\<close>

definition results_ok ::
    "'h hnsw_ops \<Rightarrow> (float_value list \<Rightarrow> float_value list \<Rightarrow> float_value) \<Rightarrow> (rat \<Rightarrow> rat) \<Rightarrow> 'h vector_index \<Rightarrow>
     float_value list \<Rightarrow> nat \<Rightarrow> search_result list \<Rightarrow> bool" where
  "results_ok ops metric rnd v q k results \<longleftrightarrow>
     length results \<le> k \<and> distinct (map entry_id_of results) \<and>
     sorted_wrt (\<lambda>a b. \<not> float_less (similarity a) (similarity b)) results \<and>
     (\<forall>r \<in> set results. \<exists>w. get_embedding ops v (entry_id_of r) = Some w \<and> similarity r = similarity_of rnd (metric q w))"

lemma results_ok_Nil [simp]: "results_ok ops metric rnd v q k []"
  by (simp add: results_ok_def)

lemma map_neighbours_sound:
  assumes "index_ok ops v" and "one_each ops v" and "neighbours_ok metric q k (points ops (hnsw v)) ns"
  shows "results_ok ops metric rnd v q k (map_neighbours_to_results rnd (ids v) ns)"
    and "r \<in> set (map_neighbours_to_results rnd (ids v) ns) \<Longrightarrow>
      \<exists>n \<in> set ns. hm_get (entry_to_data (ids v)) (entry_id_of r) = Some (fst n)"
proof -
  let ?found = "collect_results rnd (ids v) [] ns" and ?results = "map_neighbours_to_results rnd (ids v) ns"
  note found = collect_results_sound [of rnd "ids v" "[]" ns]
  have same: "mset ?results = mset ?found" by (simp add: map_neighbours_to_results_def sort_by_mset)
  have members: "set ?results = set ?found" by (rule mset_eq_setD [OF same])
  have inv: "inverse_maps (ids v)" using assms(1) by (simp add: index_ok_def)
  have origin: "\<exists>n \<in> set ns. hm_get (entry_to_data (ids v)) (entry_id_of r) = Some (fst n) \<and>
      similarity r = similarity_of rnd (snd n)" if "r \<in> set ?results" for r
    using found that inv by (fastforce simp: members inverse_maps_def)
  then show "r \<in> set ?results \<Longrightarrow> \<exists>n \<in> set ns. hm_get (entry_to_data (ids v)) (entry_id_of r) = Some (fst n)" by blast
  have number: "similarity r \<noteq> NaN" if r: "r \<in> set ?results" for r
  proof -
    obtain n where "n \<in> set ns" "similarity r = similarity_of rnd (snd n)" using origin [OF r] by blast
    then show ?thesis using assms(3) by (auto simp: neighbours_ok_def similarity_of_def split: float_value.splits)
  qed
  have "?results = sort_by (\<lambda>a b. float_le (similarity b) (similarity a)) ?found"
    unfolding map_neighbours_to_results_def using number
    by (intro sort_by_cong) (simp add: float_le_numbers members)
  then have "sorted_wrt (\<lambda>a b. float_le (similarity b) (similarity a)) ?results" by (simp add: by_similarity.sorted_sort_by)
  then have order: "sorted_wrt (\<lambda>a b. \<not> float_less (similarity a) (similarity b)) ?results"
    by (rule sorted_wrt_mono_rel [rotated]) (simp add: float_le_numbers number)
  have len: "length ?results \<le> k" using found assms(3) mset_eq_length [OF same] by (simp add: neighbours_ok_def)
  have keys: "distinct (map entry_id_of ?results)"
    using found arg_cong [OF same, of "image_mset entry_id_of"] by (metis mset_eq_imp_distinct_iff mset_map)
  have embedded: "\<exists>w. get_embedding ops v (entry_id_of r) = Some w \<and> similarity r = similarity_of rnd (metric q w)"
    if r: "r \<in> set ?results" for r
  proof -
    obtain n where n: "n \<in> set ns" "hm_get (entry_to_data (ids v)) (entry_id_of r) = Some (fst n)"
      "similarity r = similarity_of rnd (snd n)" using origin [OF r] by blast
    obtain w where w: "(fst n, w) \<in> set (points ops (hnsw v))" "snd n = metric q w"
      using assms(3) n(1) by (auto simp: neighbours_ok_def)
    then have "map_of (points ops (hnsw v)) (fst n) = Some w" using assms(2) by (simp add: one_each_def map_of_eq_Some_iff)
    then show ?thesis using n w by (auto simp: get_embedding_map map_comp_def)
  qed
  show "results_ok ops metric rnd v q k ?results" using len keys order embedded by (simp add: results_ok_def)
qed

lemma vector_search_found:
  assumes "hnsw_ok ops metric" and "index_ok ops v" and "one_each ops v" and "vector_search ops rnd v q k ef = Inr results"
  shows "results_ok ops metric rnd v q k results"
  using assms(4) map_neighbours_sound(1) [OF assms(2,3) hnsw_okD(4) [OF assms(1)]]
  by (auto simp: vector_search_def split: sum.splits if_splits)

lemma search_filtered_found:
  assumes "hnsw_ok ops metric" and "index_ok ops v" and "one_each ops v"
    and "search_filtered ops rnd v q k ef allowed = Inr results"
  shows "results_ok ops metric rnd v q k results \<and> entry_id_of ` set results \<subseteq> set allowed"
proof (cases "results = []")
  case False
  let ?data = "List.map_filter (hm_get (entry_to_data (ids v))) allowed"
  let ?ns = "hnsw_search_filter ops (hnsw v) q k (max ef k) (hnsw_filter (entry_id_filter ?data))"
  have results: "results = map_neighbours_to_results rnd (ids v) ?ns"
    using assms(4) False by (auto simp: search_filtered_def Let_def split: sum.splits if_splits)
  note sound = map_neighbours_sound [OF assms(2,3) hnsw_okD(5) [OF assms(1)]]
  have "entry_id_of r \<in> set allowed" if r: "r \<in> set results" for r
  proof -
    obtain n where n: "n \<in> set ?ns" "hm_get (entry_to_data (ids v)) (entry_id_of r) = Some (fst n)"
      using sound(2) r results by blast
    have "fst n \<in> set ?data" using hnsw_okD(6) [OF assms(1) n(1)] by (simp add: hnsw_filter_def entry_id_filter_def)
    then obtain e where e: "e \<in> set allowed" "hm_get (entry_to_data (ids v)) e = Some (fst n)"
      by (auto simp: map_filter_def)
    then show ?thesis using inverse_maps_inj [OF _ e(2) n(2)] assms(2) by (simp add: index_ok_def)
  qed
  then show ?thesis using sound(1) results by auto
qed simp

section \<open>Properties\<close>

lemma new_index_run:
  assumes "hnsw_ok ops metric" and "vector_run ops violation evs (vector_index_new ops c) db = (rs, v, db')"
    and "sum_list (map (\<lambda>e. ids_taken (fst e)) evs) < 2 ^ 64"
  shows "index_ok ops v" and "one_each ops v" and "vector_table db = [] \<Longrightarrow> agrees v db'"
    and "get_embedding ops v = abstract_run (map fst evs) rs Map.empty"
proof -
  have new: "index_ok ops (vector_index_new ops c)" "one_each ops (vector_index_new ops c)" using index_ok_new [OF assms(1)] by blast+
  have empty: "get_embedding ops (vector_index_new ops c) = Map.empty" "vector_table db = [] \<Longrightarrow> agrees (vector_index_new ops c) db"
    by (simp_all add: get_embedding_map vector_index_new_def id_map_new_def agrees_def)
  have "next_data_id (vector_index_new ops c) = 0" by (simp add: vector_index_new_def)
  then have bound: "next_data_id (vector_index_new ops c) + sum_list (map (\<lambda>e. ids_taken (fst e)) evs) < 2 ^ 64"
    using assms(3) by simp
  note run = vector_run_ok [OF assms(1) new assms(2) bound]
  show "index_ok ops v" "one_each ops v" "get_embedding ops v = abstract_run (map fst evs) rs Map.empty"
    using run empty by auto
  show "vector_table db = [] \<Longrightarrow> agrees v db'" using run empty by blast
qed

text \<open>
  C38. Over any sequence of insertions, compactions and removals, in which any statement of the
  store may fail, what the index holds as the embedding of each entry is the abstract map: a call
  that returns Ok sets, replaces or removes exactly the embeddings of its entries, and a call that
  fails changes no entry's embedding, though it may leave a stale point in the graph.
\<close>

theorem vector_index_refines:
  assumes "hnsw_ok ops metric" and "vector_run ops violation evs (vector_index_new ops c) db = (rs, v, db')"
    and "sum_list (map (\<lambda>e. ids_taken (fst e)) evs) < 2 ^ 64"
  shows "get_embedding ops v = abstract_run (map fst evs) rs Map.empty"
  using new_index_run(4) [OF assms] .

text \<open>
  C39. Over the same sequences, from an empty table, the table of mappings and the maps in memory
  agree, the two maps are inverse to each other, and every entry the index knows has a point.
\<close>

theorem vector_index_agrees:
  assumes "hnsw_ok ops metric" and "vector_run ops violation evs (vector_index_new ops c) db = (rs, v, db')"
    and "sum_list (map (\<lambda>e. ids_taken (fst e)) evs) < 2 ^ 64" and "vector_table db = []"
  shows "hm_get (vector_table db') e = hm_get (entry_to_data (ids v)) e \<and>
    (hm_get (entry_to_data (ids v)) e = Some d \<longleftrightarrow> hm_get (data_to_entry (ids v)) d = Some e) \<and>
    (index_contains v e \<longleftrightarrow> get_embedding ops v e \<noteq> None)"
proof -
  note run = new_index_run [OF assms(1-3)]
  have "get_embedding ops v e \<noteq> None" if i: "hm_get (entry_to_data (ids v)) e = Some i" for i
  proof -
    have "i \<in> fst ` set (points ops (hnsw v))" using run(1) i by (simp add: index_ok_def)
    then have "map_of (points ops (hnsw v)) i \<noteq> None" by (simp add: map_of_eq_None_iff)
    then show ?thesis using i by (simp add: get_embedding_map map_comp_def)
  qed
  moreover have "get_embedding ops v e = None" if "hm_get (entry_to_data (ids v)) e = None"
    using that by (simp add: get_embedding_def)
  ultimately have "index_contains v e \<longleftrightarrow> get_embedding ops v e \<noteq> None"
    unfolding index_contains_def by (cases "hm_get (entry_to_data (ids v)) e") auto
  then show ?thesis using run(1) run(3) [OF assms(4)] by (simp add: agrees_def index_ok_def inverse_maps_def)
qed

text \<open>
  C40. A search on an index reached by any such sequence answers at most as many results as asked
  for, each entry once, by descending similarity, and each similarity is that of the query to
  the entry's current embedding, never to a replaced one; a filtered search answers allowed
  entries only.
\<close>

theorem vector_search_sound:
  assumes "hnsw_ok ops metric" and "vector_run ops violation evs (vector_index_new ops c) db = (rs, v, db')"
    and "sum_list (map (\<lambda>e. ids_taken (fst e)) evs) < 2 ^ 64"
  shows "(vector_search ops rnd v q k ef = Inr results \<longrightarrow> results_ok ops metric rnd v q k results) \<and>
    (search_filtered ops rnd v q k ef allowed = Inr results \<longrightarrow>
       results_ok ops metric rnd v q k results \<and> entry_id_of ` set results \<subseteq> set allowed)"
  using vector_search_found [OF assms(1) new_index_run(1,2) [OF assms]]
    search_filtered_found [OF assms(1) new_index_run(1,2) [OF assms]]
  by blast

section \<open>An instance of the library, and examples\<close>

text \<open>An exact search in a list of points.\<close>

fun number_of :: "float_value \<Rightarrow> rat option" where
  "number_of (Finite r) = Some r"
| "number_of _ = None"

fun dot :: "float_value list \<Rightarrow> float_value list \<Rightarrow> rat option" where
  "dot (x # xs) (y # ys) = (case (number_of x, number_of y, dot xs ys) of (Some a, Some b, Some r) \<Rightarrow> Some (a * b + r) | _ \<Rightarrow> None)"
| "dot _ _ = Some 0"

definition dot_distance :: "float_value list \<Rightarrow> float_value list \<Rightarrow> float_value" where
  "dot_distance q w = (case dot q w of Some r \<Rightarrow> Finite (max 0 (1 - r)) | None \<Rightarrow> Infinite True)"

definition nearest :: "(nat \<times> float_value list) list \<Rightarrow> float_value list \<Rightarrow> nat \<Rightarrow> (nat \<times> float_value) list" where
  "nearest ps q k = take k (sort_by (\<lambda>a b. float_le (snd a) (snd b)) (map (\<lambda>p. (fst p, dot_distance q (snd p))) ps))"

definition list_hnsw :: "(nat \<times> float_value list) list hnsw_ops" where
  "list_hnsw = \<lparr>hnsw_new = (\<lambda>c. []), insert_slice = (\<lambda>w d h. h @ [(d, w)]), get_nb_point = length, points = (\<lambda>h. h),
     hnsw_search = (\<lambda>h q k ef. nearest h q k),
     hnsw_search_filter = (\<lambda>h q k ef f. nearest (filter (\<lambda>p. f (fst p)) h) q k)\<rparr>"

lemma nearest_ok:
  "length (nearest ps q k) \<le> k" "n \<in> set (nearest ps q k) \<Longrightarrow> \<exists>w. (fst n, w) \<in> set ps \<and> snd n = dot_distance q w"
proof -
  let ?ns = "map (\<lambda>p. (fst p, dot_distance q (snd p))) ps"
  show "length (nearest ps q k) \<le> k" by (simp add: nearest_def)
  have same: "set (sort_by (\<lambda>a b. float_le (snd a) (snd b)) ?ns) = set ?ns" by (rule mset_eq_setD [OF sort_by_mset])
  assume "n \<in> set (nearest ps q k)"
  then have "n \<in> set ?ns" unfolding nearest_def same [symmetric] by (rule in_set_takeD)
  then obtain p where "p \<in> set ps" "n = (fst p, dot_distance q (snd p))" by auto
  then show "\<exists>w. (fst n, w) \<in> set ps \<and> snd n = dot_distance q w" by (intro exI [of _ "snd p"]) simp
qed

lemma dot_distance_number: "dot_distance q w \<noteq> NaN"
  by (simp add: dot_distance_def split: option.splits)

lemma nearest_neighbours:
  assumes "set ps \<subseteq> set h"
  shows "neighbours_ok dot_distance q k h (nearest ps q k)"
proof -
  have "snd n \<noteq> NaN \<and> (\<exists>w. (fst n, w) \<in> set h \<and> snd n = dot_distance q w)" if "n \<in> set (nearest ps q k)" for n
    using nearest_ok(2) [OF that] assms dot_distance_number by (metis subsetD)
  then show ?thesis using nearest_ok(1) by (simp add: neighbours_ok_def)
qed

lemma list_hnsw_ok: "hnsw_ok list_hnsw dot_distance"
proof -
  have "f (fst n)" if "n \<in> set (nearest (filter (\<lambda>p. f (fst p)) h) q k)" for n q k h f
    using nearest_ok(2) [OF that] by auto
  then show ?thesis unfolding hnsw_ok_def list_hnsw_def by (auto intro!: nearest_neighbours)
qed

definition small_config :: vector_config where
  "small_config = default_config\<lparr>dimension := 2\<rparr>"

text \<open>An entry is embedded twice, another once, and a third insertion fails at the store.\<close>

definition sample_events :: "(vector_event \<times> fault option list) list" where
  "sample_events =
     [(InsertVector 7 [Finite 1, Finite 0], []), (InsertVector 8 [Finite (3 / 5), Finite (4 / 5)], []),
      (InsertVector 7 [Finite 0, Finite 1], []), (InsertVector 9 [Finite 1, Finite 0], [Some (SqlxError ''disk'')])]"

lemmas vector_eval = sample_events_def vector_step_def vector_insert_def check_embedding_def validate_dimension_def
  validate_embedding_def small_config_def default_config_def allocate_data_id_def add_point_def assign_id_def put_vector_mapping_def
  vector_index_new_def id_map_new_def list_hnsw_def execute_call_def statement_def seq_call_def bind_call_def exchange_def
  compact_def rewrite_vector_map_def transaction_def insert_vector_row_def return_call_def

lemma sample_vector_run:
  "vector_run list_hnsw [] sample_events (vector_index_new list_hnsw small_config) empty_db =
     ([Some (Inr ()), Some (Inr ()), Some (Inr ()), Some (Inl (VectorStore (Database ''disk'')))],
      \<lparr>hnsw = [(0, [Finite 1, Finite 0]), (1, [Finite (3 / 5), Finite (4 / 5)]), (2, [Finite 0, Finite 1]), (3, [Finite 1, Finite 0])],
       index_config = small_config, next_data_id = 4,
       ids = \<lparr>data_to_entry = [(1, 8), (2, 7)], entry_to_data = [(7, 2), (8, 1)]\<rparr>\<rparr>,
      empty_db\<lparr>vector_table := [(7, 2), (8, 1)]\<rparr>)"
  by (simp add: vector_eval database_error_def empty_db_def)

lemma sample_ids: "sum_list (map (\<lambda>e. ids_taken (fst e)) sample_events) < 2 ^ 64"
  by (simp add: sample_events_def ids_taken_def)

theorem vector_index_refines_witness:
  "get_embedding list_hnsw (fst (snd (vector_run list_hnsw [] sample_events (vector_index_new list_hnsw small_config) empty_db))) =
     [7 \<mapsto> [Finite 0, Finite 1], 8 \<mapsto> [Finite (3 / 5), Finite (4 / 5)]]"
  unfolding sample_vector_run fst_conv snd_conv
  using vector_index_refines [OF list_hnsw_ok sample_vector_run sample_ids]
  by (simp add: sample_events_def abstract_step_def fun_eq_iff)

theorem vector_index_agrees_witness:
  "hm_get (vector_table (snd (snd (vector_run list_hnsw [] sample_events (vector_index_new list_hnsw small_config) empty_db)))) 7 = Some 2 \<and>
   hm_get (data_to_entry (ids (fst (snd (vector_run list_hnsw [] sample_events (vector_index_new list_hnsw small_config) empty_db))))) 2 = Some 7"
  unfolding sample_vector_run fst_conv snd_conv
  using vector_index_agrees [OF list_hnsw_ok sample_vector_run sample_ids, of 7 2]
  by (simp add: empty_db_def)

theorem vector_search_sound_witness:
  "\<exists>results. vector_search list_hnsw (\<lambda>r. r) (fst (snd (vector_run list_hnsw [] sample_events
       (vector_index_new list_hnsw small_config) empty_db))) [Finite 0, Finite 1] 4 0 = Inr results \<and>
     map entry_id_of results = [7, 8] \<and> distinct (map entry_id_of results)"
proof -
  define v where "v = fst (snd (vector_run list_hnsw [] sample_events (vector_index_new list_hnsw small_config) empty_db))"
  have run: "vector_run list_hnsw [] sample_events (vector_index_new list_hnsw small_config) empty_db =
      (fst (vector_run list_hnsw [] sample_events (vector_index_new list_hnsw small_config) empty_db), v,
       snd (snd (vector_run list_hnsw [] sample_events (vector_index_new list_hnsw small_config) empty_db)))"
    by (simp add: v_def)
  let ?results = "[\<lparr>entry_id_of = 7, similarity = Finite 1\<rparr>, \<lparr>entry_id_of = 8, similarity = Finite (4 / 5)\<rparr>]"
  have found: "vector_search list_hnsw (\<lambda>r. r) v [Finite 0, Finite 1] 4 0 = Inr ?results"
    unfolding v_def sample_vector_run fst_conv snd_conv
    by (simp add: vector_search_def check_embedding_def validate_dimension_def validate_embedding_def
        small_config_def default_config_def list_hnsw_def nearest_def dot_distance_def sort_by_def map_neighbours_to_results_def
        similarity_of_def)
  show ?thesis using vector_search_sound [OF list_hnsw_ok run sample_ids] found
    by (intro exI [of _ ?results]) (simp add: v_def results_ok_def)
qed

text \<open>
  A compaction starts the ids again. An id allocated before it and used after it (the store
  service writes to the store in between) is then that of another entry as well: both entries
  name one id, a search answers the later entry with the similarity of the other's embedding, and
  the other is in no search any more.
\<close>

lemma id_allocated_before_compaction:
  "let (d, v1) = allocate_data_id (vector_index_new list_hnsw small_config);
       (_, v2, _) = compact list_hnsw [] [(8, [Finite 1, Finite 0])] v1 empty_db [];
       (_, v3) = insert_hnsw_only list_hnsw 9 d [Finite 0, Finite 1] v2
   in hm_get (entry_to_data (ids v3)) 8 = Some d \<and> hm_get (entry_to_data (ids v3)) 9 = Some d \<and>
      vector_search list_hnsw (\<lambda>r. r) v3 [Finite 1, Finite 0] 4 0 = Inr [\<lparr>entry_id_of = 9, similarity = Finite 1\<rparr>]"
  by (simp add: vector_eval insert_hnsw_only_def empty_db_def vector_search_def nearest_def dot_distance_def sort_by_def
      map_neighbours_to_results_def similarity_of_def)

end
