(* ===== verification/Service_Props.thy ===== *)
theory Service_Props
  imports Service_Laws Vector_Props Store_Props
begin

text \<open>
  Properties of the service: the link between the index and the table over sequences of calls, and
  what an insertion leaves behind whatever it answers.
\<close>

section \<open>Outcomes of an insertion\<close>

text \<open>
  The entry reads back as given under the next id, from a row whose width is 0, and nothing else
  reads differently.
\<close>

definition given_entry :: "call_env \<Rightarrow> new_entry \<Rightarrow> store_db \<Rightarrow> entry_record" where
  "given_entry env e db = (inserted_row env (Suc (last_id db)) e)\<lparr>tags := sort_by bytes_le (ne_tags e)\<rparr>"

definition reads_given :: "call_env \<Rightarrow> new_entry \<Rightarrow> store_db \<Rightarrow> store_db \<Rightarrow> bool" where
  "reads_given env e db db' \<longleftrightarrow> (\<forall>j. fst (get_entry j db' []) =
     (if j = Suc (last_id db) then Replied (given_entry env e db) else fst (get_entry j db []))) \<and>
     map_option embedding_dim (hm_get (entries_table db') (Suc (last_id db))) = Some 0"

lemma reads_given_frame:
  "reads_given env e db db' \<Longrightarrow> entries_table db2 = entries_table db' \<Longrightarrow> tags_table db2 = tags_table db' \<Longrightarrow>
   reads_given env e db db2"
  unfolding reads_given_def using get_entry_same [of db2 _ db'] by (simp add: tags_of_def)

lemma reads_given_inserted:
  assumes ok: "store_ok db" and small: "last_id db < u64_max" and run: "insert_entry env e db fs = (Replied i, db', fs')"
  shows "i = Suc (last_id db)" and "reads_given env e db db'"
proof -
  let ?row = "inserted_row env (Suc (last_id db)) e"
  have row: "eid ?row = Suc (last_id db)" "entry_from_row ?row = ?row" by (simp_all add: inserted_row_def entry_from_row_def)
  note calm = fault_freeD [OF fault_free_writes(1) run] insert_entry_calm [OF ok small, of env e]
  then show "i = Suc (last_id db)" by (auto split: if_splits)
  have db': "db' = added ?row (ne_tags e) (allocated db)" using calm by (auto split: if_splits)
  have "get_entry (Suc (last_id db)) db' [] = (Replied (given_entry env e db), db', [])"
    using no_tags [OF ok next_id_free [OF ok]] row
    by (simp add: db' calm_get_iff stored_entry_def tags_of_added given_entry_def)
  moreover have "fst (get_entry j db' []) = fst (get_entry j db [])" if "j \<noteq> Suc (last_id db)" for j
    by (rule get_entry_same) (use that row(1) in \<open>simp_all add: db' tags_of_added\<close>)
  moreover have "map_option embedding_dim (hm_get (entries_table db') (Suc (last_id db))) = Some 0"
    using row(1) by (simp add: db' inserted_row_def)
  ultimately show "reads_given env e db db'" by (simp add: reads_given_def)
qed

text \<open>The outcome rows after the insertion of an entry under \<open>i\<close>.\<close>

definition outcome_rows :: "new_entry \<Rightarrow> nat \<Rightarrow> (string \<times> nat) list \<Rightarrow> (string \<times> nat) list" where
  "outcome_rows e i rows =
     (if ne_category e \<noteq> ''outcome'' \<or> ne_feature_cycle e = [] \<or> (ne_feature_cycle e, i) \<in> set rows then rows
      else rows @ [(ne_feature_cycle e, i)])"

text \<open>
  What a refused insertion leaves: the index, and in the store the mappings and outcome rows of the
  other entries; the entry itself is absent or reads as given.
\<close>

definition others_kept :: "nat \<Rightarrow> store_db \<Rightarrow> store_db \<Rightarrow> bool" where
  "others_kept i db db' \<longleftrightarrow> (\<forall>j. j \<noteq> i \<longrightarrow> hm_get (vector_table db') j = hm_get (vector_table db) j) \<and>
     filter (\<lambda>row. snd row \<noteq> i) (outcome_table db') = filter (\<lambda>row. snd row \<noteq> i) (outcome_table db)"

definition same_index :: "'h vector_index \<Rightarrow> 'h service_state \<Rightarrow> bool" where
  "same_index v s \<longleftrightarrow> ids (svc_index s) = ids v \<and> hnsw (svc_index s) = hnsw v"

definition left_by_refusal :: "call_env \<Rightarrow> new_entry \<Rightarrow> store_db \<Rightarrow> 'h vector_index \<Rightarrow> 'h service_state \<Rightarrow> bool" where
  "left_by_refusal env e db v s \<longleftrightarrow> same_index v s \<and> others_kept (Suc (last_id db)) db (svc_tables s) \<and>
     (svc_tables s = db \<or> reads_given env e db (svc_tables s))"

text \<open>The entry is stored, its mapping as soon as \<open>row\<close> is its data id, and the outcome rows are \<open>rows\<close>.\<close>

definition holds_entry ::
    "call_env \<Rightarrow> new_entry \<Rightarrow> store_db \<Rightarrow> 'h vector_index \<Rightarrow> nat option \<Rightarrow> (string \<times> nat) list \<Rightarrow> 'h service_state \<Rightarrow> bool" where
  "holds_entry env e db v row rows s \<longleftrightarrow> same_index v s \<and> reads_given env e db (svc_tables s) \<and>
     hm_get (vector_table (svc_tables s)) = (case row of None \<Rightarrow> hm_get (vector_table db)
       | Some d \<Rightarrow> (hm_get (vector_table db))(Suc (last_id db) \<mapsto> d)) \<and>
     outcome_table (svc_tables s) = rows \<and> rows \<in> {outcome_table db, outcome_rows e (Suc (last_id db)) (outcome_table db)}"

lemma stored_left: "holds_entry env e db v row rows s \<Longrightarrow> left_by_refusal env e db v s"
  by (auto simp: holds_entry_def left_by_refusal_def others_kept_def outcome_rows_def split: option.split if_splits)

lemma added_outcome [simp]: "outcome_table (added row ts db) = outcome_table db" "outcome_table (allocated db) = outcome_table db"
  by (simp_all add: added_def allocated_def put_counter_def Let_def)

lemma stored_insert:
  assumes "store_ok db" and "last_id db < u64_max"
  shows "hoare (\<lambda>s. svc_tables s = db \<and> same_index v s) (svc_store c (insert_entry env e))
    (\<lambda>i s. i = Suc (last_id db) \<and> holds_entry env e db v None (outcome_table db) s) (left_by_refusal env e db v)"
proof (rule hoare_store)
  fix s fs r db' fs'
  assume s: "svc_tables s = db \<and> same_index v s" and run: "insert_entry env e (svc_tables s) fs = (r, db', fs')"
  then have run: "insert_entry env e db fs = (r, db', fs')" by simp
  show "case r of Replied i \<Rightarrow> i = Suc (last_id db) \<and> holds_entry env e db v None (outcome_table db) (s\<lparr>svc_tables := db'\<rparr>)
    | _ \<Rightarrow> left_by_refusal env e db v (s\<lparr>svc_tables := db'\<rparr>)"
  proof (cases "\<exists>i. r = Replied i")
    case True
    then obtain i where i: "r = Replied i" by blast
    have "vector_table db' = vector_table db" "outcome_table db' = outcome_table db"
      using store_ok_insert [OF assms(1) run [unfolded i] assms(2)] by simp_all
    then show ?thesis using reads_given_inserted [OF assms run [unfolded i]] s by (simp add: i holds_entry_def same_index_def)
  next
    case False
    then have "db' = db" using insert_outcome [OF assms run] by blast
    then show ?thesis using s False by (auto simp: left_by_refusal_def same_index_def others_kept_def split: reply.split)
  qed
qed

lemma stored_mapping:
  "hoare (holds_entry env e db v None rows) (svc_store c (put_vector_mapping (Suc (last_id db)) d))
    (\<lambda>_. holds_entry env e db v (Some d) rows) (left_by_refusal env e db v)"
proof (rule hoare_store)
  fix s fs r db' fs'
  assume s: "holds_entry env e db v None rows s" and run: "put_vector_mapping (Suc (last_id db)) d (svc_tables s) fs = (r, db', fs')"
  have frame: "reads_given env e db (svc_tables s) \<Longrightarrow> reads_given env e db ((svc_tables s)\<lparr>vector_table := t\<rparr>)" for t
    by (rule reads_given_frame) auto
  from run show "case r of Replied a \<Rightarrow> holds_entry env e db v (Some d) rows (s\<lparr>svc_tables := db'\<rparr>)
    | _ \<Rightarrow> left_by_refusal env e db v (s\<lparr>svc_tables := db'\<rparr>)"
    by (cases rule: put_mapping_cases) (use s stored_left [OF s] frame in \<open>auto simp: holds_entry_def same_index_def\<close>)
qed

lemma stored_outcome:
  "hoare (holds_entry env e db v row (outcome_table db))
    (svc_store c (insert_outcome_index_if_applicable (Suc (last_id db)) (ne_category e) (ne_feature_cycle e)))
    (\<lambda>_. holds_entry env e db v row (outcome_rows e (Suc (last_id db)) (outcome_table db))) (left_by_refusal env e db v)"
proof (rule hoare_store)
  let ?i = "Suc (last_id db)" and ?rows = "outcome_table db"
  fix s fs r db' fs'
  assume s: "holds_entry env e db v row ?rows s"
    and run: "insert_outcome_index_if_applicable ?i (ne_category e) (ne_feature_cycle e) (svc_tables s) fs = (r, db', fs')"
  have o: "outcome_table (svc_tables s) = ?rows" using s by (simp add: holds_entry_def)
  have frame: "holds_entry env e db v row rows (s\<lparr>svc_tables := (svc_tables s)\<lparr>outcome_table := rows\<rparr>\<rparr>)"
    if "rows = outcome_rows e ?i ?rows" for rows
    using s reads_given_frame [of env e db "svc_tables s" "(svc_tables s)\<lparr>outcome_table := rows\<rparr>"] that
    by (simp add: holds_entry_def same_index_def)
  have "r = Replied () \<and> db' = (svc_tables s)\<lparr>outcome_table := outcome_rows e ?i ?rows\<rparr> \<or> (\<exists>m. r = Failed m) \<and> db' = svc_tables s"
    using run unfolding insert_outcome_index_if_applicable_def
    by (auto simp: execute_call_def statement_def seq_call_def bind_call_def exchange_def return_call_def outcome_rows_def o [symmetric]
        split: if_splits list.splits option.splits)
  then show "case r of Replied a \<Rightarrow> holds_entry env e db v row (outcome_rows e ?i ?rows) (s\<lparr>svc_tables := db'\<rparr>)
    | _ \<Rightarrow> left_by_refusal env e db v (s\<lparr>svc_tables := db'\<rparr>)"
    using frame [OF refl] stored_left [OF s] by auto
qed

lemma stored_read:
  "hoare (holds_entry env e db v row rows) (svc_store c (get_entry (Suc (last_id db))))
    (\<lambda>rec s. rec = given_entry env e db \<and> holds_entry env e db v row rows s) (left_by_refusal env e db v)"
proof (rule hoare_store)
  fix s fs r db' fs'
  assume s: "holds_entry env e db v row rows s" and run: "get_entry (Suc (last_id db)) (svc_tables s) fs = (r, db', fs')"
  have same: "db' = svc_tables s" using get_entry_state [of _ "svc_tables s" fs] run by (metis fst_conv snd_conv)
  have "rec = given_entry env e db" if "r = Replied rec" for rec
  proof -
    have "fst (get_entry (Suc (last_id db)) (svc_tables s) []) = Replied rec"
      using fault_freeD [OF fault_free_get_entry run [unfolded that]] by simp
    moreover have "fst (get_entry (Suc (last_id db)) (svc_tables s) []) = Replied (given_entry env e db)"
      using s by (simp add: holds_entry_def reads_given_def)
    ultimately show ?thesis by simp
  qed
  then show "case r of Replied rec \<Rightarrow> rec = given_entry env e db \<and> holds_entry env e db v row rows (s\<lparr>svc_tables := db'\<rparr>)
    | _ \<Rightarrow> left_by_refusal env e db v (s\<lparr>svc_tables := db'\<rparr>)"
    using stored_left [OF s] s same by (auto split: reply.split)
qed

text \<open>The answer of a complete insertion, and what it leaves.\<close>

definition left_by_insert ::
    "'h service_env \<Rightarrow> new_entry \<Rightarrow> store_db \<Rightarrow> 'h vector_index \<Rightarrow> float_value list \<Rightarrow> insert_result \<Rightarrow> 'h service_state \<Rightarrow> bool" where
  "left_by_insert env e db v w res s \<longleftrightarrow>
     (let i = Suc (last_id db); d = next_data_id v in
      res = \<lparr>result_entry = (given_entry (se_store env) e db)\<lparr>embedding_dim := length w mod 2 ^ 16\<rparr>,
        duplicate_of = None, duplicate_similarity = None\<rparr> \<and>
      reads_given (se_store env) e db (svc_tables s) \<and>
      hm_get (vector_table (svc_tables s)) = (hm_get (vector_table db))(i \<mapsto> d) \<and>
      outcome_table (svc_tables s) = outcome_rows e i (outcome_table db) \<and>
      ids (svc_index s) = (if w = [] then ids v else assign_id i d (ids v)) \<and>
      hnsw (svc_index s) = (if w = [] then hnsw v else insert_slice (se_ops env) w d (hnsw v)))"

lemma hoare_known: "(a = x \<Longrightarrow> hoare P (m x) Q R) \<Longrightarrow> hoare (\<lambda>s. a = x \<and> P s) (m a) Q R"
  by (cases "a = x") (simp_all, simp add: hoare_def)

lemma hoare_fact: "(F \<Longrightarrow> hoare P m Q R) \<Longrightarrow> hoare (\<lambda>s. F \<and> P s) m Q R"
  unfolding hoare_def by blast

lemma stored_point:
  "hoare (holds_entry env e db v row rows) (insert_only ops i d w)
    (\<lambda>_ s. ids (svc_index s) = assign_id i d (ids v) \<and> hnsw (svc_index s) = insert_slice ops w d (hnsw v) \<and>
       reads_given env e db (svc_tables s) \<and> hm_get (vector_table (svc_tables s)) = (case row of None \<Rightarrow> hm_get (vector_table db)
       | Some d \<Rightarrow> (hm_get (vector_table db))(Suc (last_id db) \<mapsto> d)) \<and> outcome_table (svc_tables s) = rows) (left_by_refusal env e db v)"
proof (rule hoareI)
  fix s fs r s' fs'
  assume s: "holds_entry env e db v row rows s" and run: "insert_only ops i d w s fs = (r, s', fs')"
  show "case r of Some (Inr a) \<Rightarrow> ids (svc_index s') = assign_id i d (ids v) \<and> hnsw (svc_index s') = insert_slice ops w d (hnsw v) \<and>
       reads_given env e db (svc_tables s') \<and> hm_get (vector_table (svc_tables s')) = (case row of None \<Rightarrow> hm_get (vector_table db)
       | Some d \<Rightarrow> (hm_get (vector_table db))(Suc (last_id db) \<mapsto> d)) \<and> outcome_table (svc_tables s') = rows
    | _ \<Rightarrow> left_by_refusal env e db v s'"
    using run s stored_left [OF s]
    by (auto simp: insert_only_def insert_hnsw_only_def add_point_def holds_entry_def same_index_def split: sum.splits)
qed

lemma store_new_outcomes:
  assumes "store_ok db" and "last_id db < u64_max"
  shows "hoare (\<lambda>s. svc_tables s = db \<and> svc_index s = v) (store_new env e w ctx)
    (left_by_insert env e db v w) (left_by_refusal (se_store env) e db v)"
proof -
  let ?R = "left_by_refusal (se_store env) e db v" and ?rows = "outcome_rows e (Suc (last_id db)) (outcome_table db)" and ?S = "holds_entry (se_store env) e db v" and ?i = "Suc (last_id db)" and ?d = "next_data_id v"
  have allocate: "hoare (\<lambda>s. svc_tables s = db \<and> svc_index s = v) allocate_id
      (\<lambda>d s. d = ?d \<and> svc_tables s = db \<and> same_index v s) ?R"
    by (auto simp: hoare_def allocate_id_def allocate_data_id_def same_index_def)
  have audit: "hoare (\<lambda>s. rec = x \<and> ?S row rows s) (emit_audit ev) (\<lambda>_ s. rec = x \<and> ?S row rows s) ?R" for rec x :: entry_record and row rows ev
    by (auto simp: hoare_def emit_audit_def holds_entry_def same_index_def)
  have last: "hoare (\<lambda>s. rec = given_entry (se_store env) e db \<and> ?S (Some ?d) ?rows s)
      (svc_bind (if w = [] then svc_return () else insert_only (se_ops env) ?i ?d w) (\<lambda>_.
        svc_return \<lparr>result_entry = rec\<lparr>embedding_dim := length w mod 2 ^ 16\<rparr>, duplicate_of = None, duplicate_similarity = None\<rparr>))
      (left_by_insert env e db v w) ?R" for rec
  proof (cases "rec = given_entry (se_store env) e db")
    case True
    show ?thesis
    proof (cases "w = []")
      case empty: True
      show ?thesis
        by (auto simp: hoare_def svc_bind_def svc_return_def empty True left_by_insert_def holds_entry_def same_index_def Let_def)
    next
      case False
      show ?thesis unfolding if_not_P [OF False] True
        by (rule hoare_pre, rule hoare_bind [OF stored_point], rule hoare_return) (simp_all add: False left_by_insert_def Let_def)
    qed
  qed (simp add: hoare_def)
  have read: "hoare (?S (Some ?d) ?rows) (svc_bind (svc_store store_failed (get_entry ?i)) (\<lambda>rec.
      svc_bind (emit_audit (audit_of ctx ''context_store'' [?i] (''stored entry: '' @ ne_title e))) (\<lambda>_.
      svc_bind (if w = [] then svc_return () else insert_only (se_ops env) ?i ?d w) (\<lambda>_.
        svc_return \<lparr>result_entry = rec\<lparr>embedding_dim := length w mod 2 ^ 16\<rparr>, duplicate_of = None, duplicate_similarity = None\<rparr>))))
      (left_by_insert env e db v w) ?R"
    by (intro hoare_bind [OF stored_read] hoare_bind [OF audit] last)
  show ?thesis unfolding store_new_def
    by (rule hoare_bind [OF allocate], rule hoare_known, rule hoare_bind [OF stored_insert [OF assms]], rule hoare_known,
        rule hoare_bind [OF stored_mapping], rule hoare_bind [OF stored_outcome], rule read)
qed

text \<open>The steps before the first write.\<close>

definition untouched :: "store_db \<Rightarrow> 'h vector_index \<Rightarrow> 'h service_state \<Rightarrow> bool" where
  "untouched db v s \<longleftrightarrow> svc_tables s = db \<and> svc_index s = v"

lemma untouched_left: "untouched db v s \<Longrightarrow> left_by_refusal env e db v s"
  by (simp add: untouched_def left_by_refusal_def same_index_def others_kept_def)

lemma untouched_checks:
  "hoare (untouched db v) (check_write now caller) (\<lambda>_. untouched db v) (untouched db v)"
  "hoare (untouched db v) (svc_lift x) (\<lambda>a s. x = Inr a \<and> untouched db v s) (untouched db v)"
  "hoare (untouched db v) (emit_audit ev) (\<lambda>_. untouched db v) (untouched db v)"
  by (auto simp: hoare_def check_write_def svc_lift_def emit_audit_def untouched_def split: option.split sum.split prod.splits)

lemma untouched_read:
  "hoare (untouched db v) (svc_store c (get_entry i))
    (\<lambda>rec s. fst (get_entry i db []) = Replied rec \<and> untouched db v s) (untouched db v)"
proof (rule hoare_store)
  fix s fs r db' fs'
  assume s: "untouched db v s" and run: "get_entry i (svc_tables s) fs = (r, db', fs')"
  have "db' = db" using get_entry_state [of i "svc_tables s" fs] run s by (simp add: untouched_def)
  moreover have "fst (get_entry i db []) = Replied rec" if "r = Replied rec" for rec
    using fault_freeD [OF fault_free_get_entry run [unfolded that]] s by (simp add: untouched_def)
  ultimately show "case r of Replied rec \<Rightarrow> fst (get_entry i db []) = Replied rec \<and> untouched db v (s\<lparr>svc_tables := db'\<rparr>)
    | _ \<Rightarrow> untouched db v (s\<lparr>svc_tables := db'\<rparr>)"
    using s by (simp add: untouched_def split: reply.split)
qed

text \<open>The nearest result for \<open>w\<close> and its entry.\<close>

definition duplicate_found ::
    "'h service_env \<Rightarrow> store_db \<Rightarrow> 'h vector_index \<Rightarrow> float_value list \<Rightarrow> entry_record \<Rightarrow> search_result \<Rightarrow> bool" where
  "duplicate_found env db v w existing best \<longleftrightarrow>
     (\<exists>rest. vector_search (se_ops env) (se_rnd env) v w 1 EF_SEARCH = Inr (best # rest)) \<and>
     float_ge (similarity best) DUPLICATE_THRESHOLD \<and> fst (get_entry (entry_id_of best) db []) = Replied existing"

lemma map_sum_Inr: "map_sum f id x = Inr y \<longleftrightarrow> x = Inr y"
  by (cases x) auto

lemma untouched_duplicate:
  "hoare (untouched db v) (near_duplicate env w)
    (\<lambda>dup s. (\<forall>existing best. dup = Some (existing, best) \<longrightarrow> duplicate_found env db v w existing best) \<and> untouched db v s)
    (untouched db v)"
proof -
  let ?Q = "\<lambda>dup s. (\<forall>existing best. dup = Some (existing, best) \<longrightarrow> duplicate_found env db v w existing best) \<and> untouched db v s"
  have look: "hoare (untouched db v) (\<lambda>s fs. (Some (map_sum (\<lambda>e. Core (CoreVector e)) id
       (vector_search (se_ops env) (se_rnd env) (svc_index s) w 1 EF_SEARCH)), s, fs))
     (\<lambda>rs s. vector_search (se_ops env) (se_rnd env) v w 1 EF_SEARCH = Inr rs \<and> untouched db v s) (untouched db v)"
    by (auto simp: hoare_def untouched_def map_sum_Inr split: sum.split)
  have found: "hoare (untouched db v)
      (svc_bind (svc_try (svc_store store_failed (get_entry (entry_id_of best)))) (\<lambda>existing.
         svc_return (map_option (\<lambda>e. (e, best)) existing))) ?Q (untouched db v)"
    if "vector_search (se_ops env) (se_rnd env) v w 1 EF_SEARCH = Inr (best # rest)"
      and "float_ge (similarity best) DUPLICATE_THRESHOLD" for best rest
    by (rule hoare_bind [OF hoare_try [OF untouched_read]], assumption, rule hoare_return)
      (use that in \<open>auto simp: duplicate_found_def split: option.splits\<close>)
  have "hoare (\<lambda>s. vector_search (se_ops env) (se_rnd env) v w 1 EF_SEARCH = Inr rs \<and> untouched db v s)
      (case rs of [] \<Rightarrow> svc_return None
       | best # _ \<Rightarrow>
           if float_ge (similarity best) DUPLICATE_THRESHOLD
           then svc_bind (svc_try (svc_store store_failed (get_entry (entry_id_of best)))) (\<lambda>existing.
                  svc_return (map_option (\<lambda>e. (e, best)) existing))
           else svc_return None) ?Q (untouched db v)" for rs
  proof (cases "vector_search (se_ops env) (se_rnd env) v w 1 EF_SEARCH = Inr rs")
    case True
    show ?thesis
    proof (cases rs)
      case Nil
      then show ?thesis by (auto intro: hoare_return)
    next
      case (Cons best rest)
      show ?thesis
      proof (cases "float_ge (similarity best) DUPLICATE_THRESHOLD")
        case near: True
        show ?thesis unfolding Cons list.case if_P [OF near]
          by (rule hoare_pre [OF found [OF True [unfolded Cons] near]]) simp
      next
        case False
        show ?thesis unfolding Cons list.case if_not_P [OF False] by (rule hoare_return) simp
      qed
    qed
  qed (simp add: hoare_def)
  then show ?thesis unfolding near_duplicate_def by (rule hoare_bind [OF look])
qed

lemma untouched_step:
  "hoare (untouched db v) m Q (untouched db v) \<Longrightarrow> hoare (untouched db v) m Q (left_by_refusal env e db v)"
  by (erule hoare_weaken) (simp_all add: untouched_left)

text \<open>What an answered insertion is: a duplicate, which changes nothing, or a new entry.\<close>

definition answered ::
    "'h service_env \<Rightarrow> new_entry \<Rightarrow> store_db \<Rightarrow> 'h vector_index \<Rightarrow> float_value list \<Rightarrow> insert_result \<Rightarrow> 'h service_state \<Rightarrow> bool" where
  "answered env e db v w res s \<longleftrightarrow>
     (case duplicate_of res of
        None \<Rightarrow> left_by_insert env e db v w res s
      | Some i \<Rightarrow> untouched db v s \<and> (\<exists>best. duplicate_found env db v w (result_entry res) best \<and>
          i = entry_id_of best \<and> duplicate_similarity res = Some (similarity best)))"

lemma insert_outcomes:
  assumes "store_ok db" and "last_id db < u64_max"
  shows "hoare (untouched db v) (service_insert env e embedding ctx caller)
    (\<lambda>res s. \<exists>w. embedding_for env e embedding = Inr w \<and>
       validate_write (se_scanner env) (ne_title e) (ne_content e) (ne_tags e) ctx = Inr () \<and> answered env e db v w res s)
    (left_by_refusal (se_store env) e db v)"
proof -
  let ?R = "left_by_refusal (se_store env) e db v"
  have new: "hoare (untouched db v) (store_new env e w ctx) (answered env e db v w) ?R" for w
    by (rule hoare_weaken [OF store_new_outcomes [OF assms]])
      (auto simp: untouched_def answered_def left_by_insert_def Let_def)
  have same: "hoare (untouched db v) (svc_bind (emit_audit ev) (\<lambda>_. svc_return \<lparr>result_entry = existing,
      duplicate_of = Some (entry_id_of best), duplicate_similarity = Some (similarity best)\<rparr>)) (answered env e db v w) ?R"
    if "duplicate_found env db v w existing best" for ev existing best w
    by (rule hoare_bind [OF untouched_step [OF untouched_checks(3)] hoare_return])
      (use that in \<open>auto simp: answered_def\<close>)
  have last: "hoare (\<lambda>s. (\<forall>existing best. dup = Some (existing, best) \<longrightarrow> duplicate_found env db v w existing best) \<and> untouched db v s)
      (case dup of
         Some (existing, best) \<Rightarrow>
           svc_bind (emit_audit (audit_of ctx ''context_store'' [eid existing]
               (''near-duplicate detected: entry #'' @ show_nat (eid existing) @ '' at '' @ se_show env (similarity best) @
                '' similarity''))) (\<lambda>_.
           svc_return \<lparr>result_entry = existing, duplicate_of = Some (entry_id_of best),
             duplicate_similarity = Some (similarity best)\<rparr>)
       | None \<Rightarrow> store_new env e w ctx) (answered env e db v w) ?R" for dup w
  proof (cases dup)
    case None
    show ?thesis unfolding None option.case by (rule hoare_pre [OF new]) simp
  next
    case (Some p)
    obtain existing best where p: "p = (existing, best)" by (cases p)
    show ?thesis unfolding Some p option.case prod.case
    proof (cases "duplicate_found env db v w existing best")
      case True
      then show "hoare (\<lambda>s. (\<forall>existing' best'. Some (existing, best) = Some (existing', best') \<longrightarrow>
          duplicate_found env db v w existing' best') \<and> untouched db v s)
        (svc_bind (emit_audit (audit_of ctx ''context_store'' [eid existing]
            (''near-duplicate detected: entry #'' @ show_nat (eid existing) @ '' at '' @ se_show env (similarity best) @
             '' similarity''))) (\<lambda>_.
        svc_return \<lparr>result_entry = existing, duplicate_of = Some (entry_id_of best),
          duplicate_similarity = Some (similarity best)\<rparr>)) (answered env e db v w) ?R"
        by (intro hoare_pre [OF same]) simp_all
    qed (simp add: hoare_def)
  qed
  show ?thesis unfolding service_insert_def
    by (rule hoare_bind [OF untouched_step [OF untouched_checks(1)]], rule hoare_bind [OF untouched_step [OF untouched_checks(2)]],
        rule hoare_fact, rule hoare_bind [OF untouched_step [OF untouched_checks(2)]], rule hoare_fact,
        rule hoare_bind [OF untouched_step [OF untouched_duplicate]], rule hoare_weaken [OF last]) auto
qed

text \<open>The next heal pass lists a new active entry, whatever the embedding it was stored with.\<close>

lemma given_unembedded:
  assumes "reads_given env e db db'" and "ne_status e = Active"
  shows "Suc (last_id db) \<in> set (unembedded (\<lambda>x. x) (length (entries_table db')) db')"
proof -
  let ?i = "Suc (last_id db)" and ?hit = "\<lambda>(i, r). status r = Active \<and> embedding_dim r = 0"
  have "fst (get_entry ?i db' []) = Replied (given_entry env e db)" using assms(1) by (simp add: reads_given_def)
  then obtain row where row: "hm_get (entries_table db') ?i = Some row" "stored_entry db' ?i row = given_entry env e db"
    by (auto simp: calm_get_iff split: option.splits)
  have "status (stored_entry db' ?i row) = Active" using assms(2) by (simp add: row(2) given_entry_def inserted_row_def)
  moreover have "embedding_dim row = 0" using assms(1) row(1) by (simp add: reads_given_def)
  ultimately have "?hit (?i, row)" by (simp add: stored_entry_def entry_from_row_def)
  moreover have "(?i, row) \<in> set (entries_table db')" using row(1) by (simp add: map_of_SomeD)
  ultimately have "?i \<in> set (map fst (filter ?hit (entries_table db')))" by force
  moreover have "length (map fst (filter ?hit (entries_table db'))) \<le> length (entries_table db')" by simp
  ultimately show ?thesis unfolding unembedded_def by simp
qed

section \<open>Properties\<close>

text \<open>
  A new active entry is listed by the next heal pass, whatever the embedding it was stored with:
  the answer gives the width of the embedding, but the stored row keeps width 0.
\<close>

lemma answered_unembedded:
  assumes "answered env e db v w res s" and "duplicate_of res = None" and "ne_status e = Active"
  shows "embedding_dim (result_entry res) = length w mod 2 ^ 16"
    and "Suc (last_id db) \<in> set (unembedded (\<lambda>x. x) (length (entries_table (svc_tables s))) (svc_tables s))"
  using assms given_unembedded [of "se_store env" e db "svc_tables s"] by (simp_all add: answered_def left_by_insert_def Let_def)

text \<open>
  C24. An insertion that answers has passed the checks and either found a readable entry at the
  threshold of similarity or above, and then changed neither the tables nor the index, or has
  stored exactly the given entry under the next id, its mapping to the next data id, its outcome
  row if it has one, and its point. One that is refused, fails at any statement or panics leaves
  the index as it was and of every other entry the row, the tags, the mapping and the outcome
  rows; the entry itself is never stored in part: it is absent or reads as given.
\<close>

theorem service_insert_exact:
  assumes "store_ok (svc_tables s)" and "last_id (svc_tables s) < u64_max"
    and "service_insert env e embedding ctx caller s fs = (r, s', fs')"
  shows "case r of
      Some (Inr res) \<Rightarrow>
        validate_write (se_scanner env) (ne_title e) (ne_content e) (ne_tags e) ctx = Inr () \<and>
        (\<exists>w. embedding_for env e embedding = Inr w \<and> answered env e (svc_tables s) (svc_index s) w res s')
    | _ \<Rightarrow> left_by_refusal (se_store env) e (svc_tables s) (svc_index s) s'"
proof -
  have "untouched (svc_tables s) (svc_index s) s" by (simp add: untouched_def)
  note outcome = hoareD [OF insert_outcomes [OF assms(1,2)] this assms(3)]
  then show ?thesis by (cases r) (auto split: sum.splits)
qed

text \<open>
  C23. Whatever calls of the service and passes of the maintenance run, in any order and with any
  statement of the store failing, the tables keep their invariant, the maps of the index stay
  inverse to each other, every entry the index knows has its row with the same data id, and rows
  name different data ids, all handed out, for entries of the store. The calls may come between
  the snapshot a tick takes of the active entries and the passes that work on it.
\<close>

theorem service_keeps_links:
  assumes "hnsw_ok ops metric" and "\<forall>(ev, fs) \<in> set evs. event_ok ops width ev"
    and "linked ops width [] {} (sum_list (map (\<lambda>(ev, fs). event_ids ev) evs)) s"
    and "s' = service_run ops evs None s"
  shows "store_ok (svc_tables s') \<and> inverse_maps (ids (svc_index s')) \<and>
    (hm_get (entry_to_data (ids (svc_index s'))) e = Some d \<longrightarrow> hm_get (vector_table (svc_tables s')) e = Some d) \<and>
    (hm_get (vector_table (svc_tables s')) e = Some d \<longrightarrow>
       d < next_data_id (svc_index s') \<and> hm_get (entries_table (svc_tables s')) e \<noteq> None \<and>
       (\<forall>e'. hm_get (vector_table (svc_tables s')) e' = Some d \<longrightarrow> e' = e))"
proof -
  obtain act where l: "linked ops width act {} 0 s'"
    using linked_run [OF assms(1,2), of None 0 s] assms(3,4) by auto
  then show ?thesis using linkedD [OF l] by (auto simp: index_ok_def row_ids_def dom_def)
qed

section \<open>Examples\<close>

definition sample_service_env :: "(nat \<times> float_value list) list service_env" where
  "sample_service_env = \<lparr>se_ops = list_hnsw, se_rnd = (\<lambda>x. x), se_scanner = \<lparr>injection_patterns = [], pii_patterns = []\<rparr>,
     se_store = sample_env, se_now = 0, se_embed = (\<lambda>e. Inr [Finite 1, Finite 0]), se_show = (\<lambda>_. ''1.00'')\<rparr>"

definition sample_service :: "(nat \<times> float_value list) list service_state" where
  "sample_service = \<lparr>svc_limiter = rate_limit_default None, svc_index = vector_index_new list_hnsw small_config,
     svc_tables = empty_db, svc_audit = []\<rparr>"

definition sample_caller :: audit_context where
  "sample_caller = \<lparr>audit_source = McpSource ''a'' TrustRestricted, audit_caller = ''a'', audit_session = None, audit_feature = None\<rparr>"

lemma sample_links: "linked list_hnsw 2 [] {} 1000 sample_service"
  using index_ok_new [OF list_hnsw_ok, of small_config] store_ok_empty
  by (auto simp: linked_def sample_service_def vector_index_new_def id_map_new_def empty_db_def last_id_def counter_value_def
      id_limit_def small_config_def default_config_def)

lemma sample_new_simps:
  "ne_title (sample_new t ts) = t" "ne_content (sample_new t ts) = ''body''" "ne_tags (sample_new t ts) = ts"
  "ne_category (sample_new t ts) = ''decision''" "ne_feature_cycle (sample_new t ts) = []"
  by (simp_all add: sample_new_def)

lemma sample_rate: "check_write_rate (rate_limit_default None) 0 (Agent ''a'') =
   (Some (Inr ()), (rate_limit_default None)\<lparr>windows := [(Agent ''a'', [0])]\<rparr>)"
  by (simp add: check_write_rate_def check_rate_def rate_limit_default_def rate_limiter_new_def evict_expired_def Let_def)

lemma sample_checked: "validate_write \<lparr>injection_patterns = [], pii_patterns = []\<rparr> ''A'' ''body'' [''x''] sample_caller = Inr ()"
  by (simp add: validate_write_def sample_caller_def is_internal_def scan_content_def scan_title_def)

lemma sample_search: "vector_search list_hnsw (\<lambda>x. x) (vector_index_new list_hnsw small_config) [Finite 1, Finite 0] (Suc 0) EF_SEARCH = Inr []"
  by (simp add: vector_search_def vector_eval)

lemma empty_last_id: "last_id empty_db = 0"
  by (simp add: last_id_def counter_value_def empty_db_def)

lemmas service_eval = svc_bind_def svc_lift_def svc_return_def svc_try_def check_write_def svc_store_def emit_audit_def
  sample_service_env_def sample_service_def

definition sample_stored :: store_db where
  "sample_stored = added (inserted_row sample_env (Suc 0) (sample_new ''A'' [''x''])) [''x''] (allocated empty_db)"

lemma sample_insert: "insert_entry sample_env (sample_new ''A'' [''x'']) empty_db [] = (Replied (Suc 0), sample_stored, [])"
  using insert_entry_calm [OF store_ok_empty, of sample_env "sample_new ''A'' [''x'']"]
  by (simp add: empty_last_id u64_max_def sample_stored_def sample_new_def)

lemma sample_mapping: "put_vector_mapping (Suc 0) 0 db [] = (Replied (), db\<lparr>vector_table := hm_insert (Suc 0) 0 (vector_table db)\<rparr>, [])"
  by (simp add: put_vector_mapping_def call_simps)

lemma sample_outcome: "insert_outcome_index_if_applicable (Suc 0) ''decision'' [] db [] = (Replied (), db, [])"
  by (simp add: insert_outcome_index_if_applicable_def call_simps)

lemma sample_read: "get_entry (Suc 0) (sample_stored\<lparr>vector_table := t\<rparr>) [] =
   (Replied (given_entry sample_env (sample_new ''A'' [''x'']) empty_db), sample_stored\<lparr>vector_table := t\<rparr>, [])"
proof -
  let ?row = "inserted_row sample_env (Suc 0) (sample_new ''A'' [''x''])"
  have "eid ?row = Suc 0" "entry_from_row ?row = ?row" "tags_table empty_db = []" "entries_table empty_db = []"
    by (simp_all add: inserted_row_def entry_from_row_def empty_db_def)
  then show ?thesis
    by (simp add: sample_stored_def calm_get_iff stored_entry_def tags_of_def given_entry_def empty_last_id sample_new_simps)
qed

lemma sample_index: "next_data_id (vector_index_new ops c) = 0" "check_embedding (vector_index_new list_hnsw small_config) [Finite 1, Finite 0] = Inr ()"
  by (simp_all add: vector_eval)

lemma sample_answer: "fst (service_insert sample_service_env (sample_new ''A'' [''x'']) None sample_caller (Agent ''a'') sample_service []) =
   Some (Inr \<lparr>result_entry = (given_entry sample_env (sample_new ''A'' [''x'']) empty_db)\<lparr>embedding_dim := Suc (Suc 0)\<rparr>,
        duplicate_of = None, duplicate_similarity = None\<rparr>)"
  unfolding service_insert_def near_duplicate_def store_new_def
  by (simp add: service_eval sample_rate sample_checked sample_search sample_insert sample_mapping sample_outcome sample_read sample_new_simps sample_index embedding_for_def allocate_id_def allocate_data_id_def insert_only_def insert_hnsw_only_def Let_def)


theorem service_insert_exact_witness:
  "\<exists>s' fs'. service_insert sample_service_env (sample_new ''A'' [''x'']) None sample_caller (Agent ''a'') sample_service [] =
       (Some (Inr \<lparr>result_entry = (given_entry sample_env (sample_new ''A'' [''x'']) empty_db)\<lparr>embedding_dim := 2\<rparr>,
         duplicate_of = None, duplicate_similarity = None\<rparr>), s', fs') \<and>
     hnsw (svc_index s') = [(0, [Finite 1, Finite 0])] \<and> hm_get (vector_table (svc_tables s')) = [Suc 0 \<mapsto> 0] \<and>
     outcome_table (svc_tables s') = []"
proof -
  let ?run = "service_insert sample_service_env (sample_new ''A'' [''x'']) None sample_caller (Agent ''a'') sample_service []"
  obtain r s' fs' where run: "?run = (r, s', fs')" by (rule prod_cases3)
  have db: "svc_tables sample_service = empty_db" "svc_index sample_service = vector_index_new list_hnsw small_config"
    "vector_table empty_db = []" "outcome_table empty_db = []"
    by (simp_all add: sample_service_def empty_db_def)
  have r: "r = Some (Inr \<lparr>result_entry = (given_entry sample_env (sample_new ''A'' [''x'']) empty_db)\<lparr>embedding_dim := 2\<rparr>,
         duplicate_of = None, duplicate_similarity = None\<rparr>)" using sample_answer run by (simp add: numeral_2_eq_2)
  have "store_ok (svc_tables sample_service)" "last_id (svc_tables sample_service) < u64_max"
    by (simp_all add: db store_ok_empty empty_last_id u64_max_def)
  note outcome = service_insert_exact [OF this run, unfolded r option.case sum.case]
  have "hnsw (svc_index s') = [(0, [Finite 1, Finite 0])] \<and> hm_get (vector_table (svc_tables s')) = [Suc 0 \<mapsto> 0] \<and>
      outcome_table (svc_tables s') = []"
    using outcome by (simp add: db empty_last_id sample_index answered_def left_by_insert_def embedding_for_def sample_service_env_def Let_def
        list_hnsw_def vector_index_new_def outcome_rows_def sample_new_def)
  then show ?thesis using run unfolding r by blast
qed

definition sample_service_events :: "((nat \<times> float_value list) list service_event \<times> fault option list) list" where
  "sample_service_events =
     [(StoreEntry sample_service_env (sample_new ''A'' [''x'']) None sample_caller (Agent ''a''), []),
      (LoadSnapshot rev, []),
      (CorrectEntry sample_service_env 1 (sample_new ''B'' []) sample_caller (Agent ''a''), []),
      (StoreEntry sample_service_env (sample_new ''C'' []) (Some [Finite 0, Finite 1]) sample_caller (Agent ''a''),
         [None, None, Some (SqlxError ''disk'')]),
      (HealVectors (\<lambda>x. x) 10 (Some (\<lambda>e. Inr [Finite 1, Finite 0])), []),
      (CompactIndex [] (Some (Inr [[Finite 1, Finite 0]])), []), (PruneVectors (\<lambda>x. x), [])]"

theorem service_keeps_links_witness:
  "store_ok (svc_tables (service_run list_hnsw sample_service_events None sample_service)) \<and>
   hm_get (entry_to_data (ids (svc_index (service_run list_hnsw sample_service_events None sample_service))))
     \<subseteq>\<^sub>m hm_get (vector_table (svc_tables (service_run list_hnsw sample_service_events None sample_service)))"
proof -
  have events: "\<forall>(ev, fs) \<in> set sample_service_events. event_ok list_hnsw 2 ev"
    by (simp add: sample_service_events_def event_ok_def sample_service_env_def model_ok_def vector_eval any_order_def)
  have "sum_list (map (\<lambda>(ev, fs). event_ids ev) sample_service_events) = 16"
    by (simp add: sample_service_events_def event_ids_def)
  then have "linked list_hnsw 2 [] {} (sum_list (map (\<lambda>(ev, fs). event_ids ev) sample_service_events)) sample_service"
    using linked_less [OF sample_links, of 16] by simp
  from service_keeps_links [OF list_hnsw_ok events this refl] show ?thesis unfolding map_le_def by auto
qed

end
