(* ===== verification/Spec2Isabelle.thy ===== *)
theory Spec2Isabelle
  imports Registry_Signals Usage_Props Chain_Verify Graph_Props Graph_Path_Props
    Graph_Neighbors_Props Attribution Store_Props Gateway_Props Event_Queue_Props Agent_Props Service_Props
begin

text \<open>
  A verification library for the Unimatrix knowledge server: the sessions it tracks and their
  transcripts, the integrity of its entries, and the relation graph it searches.

  \<^bold>\<open>The program.\<close> Agents send events and transcript slices to the server
  (\<open>crates/unimatrix-server\<close>). A registry keeps one state per session: topic votes, injected
  entries, rework events and a bounded transcript buffer. When a session ends, its signals are
  turned into an outcome, and its transcript is parked in a held store until the session
  returns under the same feature cycle or the hold expires. The store
  (\<open>crates/unimatrix-store\<close>) keeps versioned entries linked by hashes, their tags, usage
  counters and a table of typed edges; every access of an agent to entries is turned into
  counter updates by the usage service. The engine (\<open>crates/unimatrix-engine\<close>) builds a relation graph from both; search
  uses it to penalise superseded entries, to suppress contradicted results and to expand the
  candidates, and the graph tool answers path and neighbour requests from it. A gateway limits
  the rate of the callers and scans what they write; a registry of agents decides what they may
  do. When the server cannot be reached, the hook client queues its events in files and replays
  them later.

  \<^bold>\<open>Theories and sources.\<close>
  \<^item> \<open>Prelude\<close>: fixed-width integers, panics as None, slices, hash maps as association lists
    with distinct keys (all lists are quantified over, hence all iteration orders), and the
    interfaces \<open>hash_map\<close>, \<open>budgeted\<close> and \<open>panic_free\<close>.
  \<^item> \<open>Transcript_Activity\<close>, \<open>Transcript_Buffer\<close>, \<open>Transcript_Props\<close>:
    \<open>infra/transcript_activity.rs\<close> and \<open>infra/session_transcript.rs\<close>. The record
    \<open>transcript_buffer\<close> has the fields of \<open>TranscriptBuffer\<close>; each method is one definition,
    and \<open>apply_delta\<close> is split along the numbered steps of the source.
  \<^item> \<open>Buffer_Heap\<close>: \<open>Arc<Mutex<TranscriptBuffer>>\<close> as addresses into a store of cells with a
    poison flag, so that the sharing between registry and held store is explicit.
  \<^item> \<open>Transcript_Hold\<close>: \<open>infra/transcript_hold.rs\<close>; the audit sink is the list of events.
  \<^item> \<open>Session_State\<close>, \<open>Session_Registry\<close>, \<open>Registry_Inv\<close>, \<open>Registry_Props\<close>,
    \<open>Registry_Signals\<close>: \<open>infra/session.rs\<close>. Every public call is a definition and an event of
    \<open>registry_step\<close>; clock readings are arguments.
  \<^item> \<open>Usage_Dedup\<close>: \<open>infra/usage_dedup.rs\<close> and the vote batches of \<open>services/usage.rs\<close>;
    \<open>Usage_Service\<close>, \<open>Usage_Props\<close>: \<open>record_access\<close> of \<open>services/usage.rs\<close> with its three
    sources of accesses, and the detached task each call leaves, run against the store.
  \<^item> \<open>Store_State\<close>: the tables of the store that the modelled calls use, as the record
    \<open>store_db\<close>, and the form of a call: from the tables and a list of faults of the engine (one
    per statement, None for none) to a reply, the tables and the faults left. A reply is a value,
    a failure with a \<open>StoreError\<close>, or a panic. A \<open>transaction\<close> that does not reply restores the
    tables it began with.
  \<^item> \<open>Store_Write\<close>, \<open>Store_Write_Ext\<close>: \<open>write.rs\<close>, \<open>write_ext.rs\<close>, \<open>counters.rs\<close> of the store;
    \<open>Store_Query\<close>: the entry queries of \<open>read.rs\<close>. \<open>Store_Laws\<close>, \<open>Store_Effects\<close>, \<open>Store_Inv\<close>,
    \<open>Store_Calls\<close>, \<open>Store_Keeps\<close>, \<open>Store_Events\<close>, \<open>Store_Chains\<close>, \<open>Store_Query_Laws\<close>: their
    lemmas; \<open>Store_Props\<close>, \<open>Store_Query_Props\<close>: their properties.
  \<^item> \<open>Entry_Schema\<close>, \<open>Chain_Verify\<close>: \<open>schema.rs\<close>, \<open>error.rs\<close>, \<open>hash.rs\<close> and
    \<open>chain_verify.rs\<close> of the store.
  \<^item> \<open>Relation_Graph\<close>, \<open>Graph_Build\<close>: \<open>graph.rs\<close> of the engine up to
    \<open>build_typed_relation_graph\<close>; \<open>Graph_Walk\<close>, \<open>Graph_Walk_Props\<close>, \<open>Graph_Props\<close>: its
    three traversals and the supersession penalty; \<open>Graph_Search\<close>, \<open>Graph_Search_Props\<close>:
    \<open>graph_suppression.rs\<close> and \<open>graph_expand.rs\<close>.
  \<^item> \<open>Graph_Path\<close>, \<open>Graph_Path_Props\<close>: path mode of the graph tool
    (\<open>mcp/graph_read_path.rs\<close>, parts of \<open>graph_read_neighbors.rs\<close>), the graph state
    (\<open>services/typed_graph.rs\<close>) and the neighbour queries of the store.
  \<^item> \<open>Graph_Neighbors\<close>, \<open>Graph_Levels\<close>, \<open>Graph_Neighbors_Props\<close>: neighbours mode of the graph
    tool (\<open>mcp/graph_read_neighbors.rs\<close>).
  \<^item> \<open>Input_Validation\<close>, \<open>Input_Props\<close>: \<open>infra/validation.rs\<close> and \<open>infra/outcome_tags.rs\<close>,
    over strings of Unicode scalar values. \<open>Attribution\<close>: \<open>attribution.rs\<close> of
    \<open>crates/unimatrix-observe\<close>, which extracts topic signals from text.
  \<^item> \<open>Gateway\<close>, \<open>Gateway_Props\<close>: \<open>services/gateway.rs\<close> (the record \<open>rate_limiter\<close> has its
    fields; \<open>check_rate\<close> is one definition) and the scanner of \<open>infra/scanning.rs\<close>, with the
    types of \<open>services/mod.rs\<close> they use.
  \<^item> \<open>Event_Queue\<close>, \<open>Event_Queue_Laws\<close>, \<open>Event_Queue_Props\<close>: \<open>event_queue.rs\<close> of the engine. The
    record \<open>queue_world\<close> is the queue directory and the events offered to the transport; an
    operation is a program of system calls, each of which may fail.
  \<^item> \<open>Agent_Registry\<close>, \<open>Agent_Props\<close>: \<open>registry.rs\<close> of the store (its table is a field of
    \<open>store_db\<close>), \<open>infra/registry.rs\<close>, \<open>mcp/identity.rs\<close> and the first four steps of
    \<open>context_enroll\<close> in \<open>mcp/tools.rs\<close>.
  \<^item> \<open>Vector_Index\<close>, \<open>Vector_Laws\<close>, \<open>Vector_Props\<close>: \<open>index.rs\<close>, \<open>filter.rs\<close> and \<open>config.rs\<close> of
    \<open>crates/unimatrix-vector\<close>. The record \<open>vector_index\<close> is the graph of points, the configuration,
    the next id and the two maps of ids; calls that write also take the tables of the store.
  \<^item> \<open>Store_Service\<close>, \<open>Service_Laws\<close>, \<open>Service_Props\<close>: \<open>services/store_ops.rs\<close>,
    \<open>services/store_correct.rs\<close> and the prune, heal and compaction passes of
    \<open>services/status.rs\<close>. The record \<open>service_state\<close> holds the limiter, the index, the tables and the
    audit events; a call is a program over it (\<open>svc_bind\<close>, \<open>svc_try\<close>, \<open>svc_catch\<close>) with three
    outcomes, a value, a \<open>ServiceError\<close> or a panic.

  \<^bold>\<open>What the lemmas show.\<close>
  \<^item> Buffer: an invariant (span within the cap, at most 64 sorted disjoint holes) is kept and no
    delta makes an operation panic; \<open>apply_delta\<close> refines the merge of byte maps; the counters
    are exact; the readers return received bytes only.
  \<^item> Held store and registry: an ownership invariant (each buffer belongs to one registered or
    one held session) kept by every call; bounds, audit of every loss, exact sweeps; a
    transcript survives a drain; a declared feature is never outvoted.
  \<^item> Decisions: the majority vote, the rework threshold and the eager attribution agree with
    their declarative readings, whatever the iteration order of the maps.
  \<^item> Usage: last vote wins and each access is counted once, over all sequences of calls, in the
    deduplication and, for votes of weight 1, in the counters of the store; a vote of a heavier
    access is multiplied there (\<open>weighted_votes\<close>).
  \<^item> Store: each call is characterised on tables that satisfy the invariant (ids unique and
    allocated, tags unique and owned, counters equal to the number of rows per status). Faults
    never change what a successful call did, so that invariants proved of calm calls hold under
    faults. The locale \<open>table_contract\<close> gives what every call keeps, for the tables and for the
    correction chains; \<open>budgeted\<close> lifts it to sequences of calls. Queries answer the selected
    rows once each, with their tags in order (\<open>row_order\<close>). A write is a transaction, but for
    the recording of feature entries, which may stop half way.
  \<^item> Chain: the verifier reports exactly the defects of a corpus; a replaced entry is detected.
  \<^item> Graph: the build is characterised edge by edge and fails exactly on a cycle; traversals,
    penalty, suppression, expansion and path search agree with relations between ids. The two
    path searches are interpretations of one locale, \<open>path_bfs\<close>, the two neighbour searches of
    another, \<open>level_search\<close>; in both modes the cold and the warm answer agree up to stated
    differences. The penalty is compared with its documented cap, where the code goes one hop
    further (\<open>graph_penalty_computed\<close>, \<open>depth_cap_exceeded\<close>).
  \<^item> Validation: the accepted inputs are characterised exactly; accepted cycle parameters are in
    a normal form that validates to itself; an extracted topic signal is part of its text and
    valid as a cycle topic; attribution follows the last signal.
  \<^item> Gateway: the limiter decides as the whole history of admitted requests does, so that no span
    of a window's length holds more than the limit; a write passes exactly if it keeps the bounds
    and no pattern matches. With a limit of zero the limiter panics (\<open>zero_limit_panics\<close>).
  \<^item> Event queue: without faults an enqueue is the documented one on chunks of events, but that it
    forgets a chunk more when ten are there and the newest has room (\<open>enqueue_chunks\<close> has every
    case), and replay returns the events in order; with faults a replay loses nothing it did not
    offer.
  \<^item> Vectors: whatever statements of the store fail, the embeddings the index holds are the abstract
    map and agree with the table; a search answers current embeddings only, each entry once.
  \<^item> Store service: rules in the style of Hoare (\<open>hoare\<close>, \<open>spends\<close>) with one condition for a value
    and one for a failure. Every sequence of calls and passes keeps the link between the index in
    memory, the table of mappings and the entries (\<open>linked\<close>), also for passes that work on a
    snapshot taken earlier; an insertion does all of what it answers, and one that fails leaves the
    index and the other entries alone, and its own entry whole or absent.
  \<^item> Agents: over all sequences of calls with any faults, the protected agents keep their
    capabilities, and another becomes administrator only by the request of one; an enrollment
    without faults is exact to the rows of the table.

  \<^bold>\<open>Bounds, termination, fuel.\<close> Loops over data are structural. The graph loops terminate by
  the multiset of hops left to each entry of the work list (\<open>hops_left\<close>, \<open>path_measure\<close>):
  an entry is replaced by finitely many with fewer hops, so no fuel is needed. The only counter
  is the source's own: \<open>follow_to_current\<close> makes at most fifty lookups. Integers of the source
  are naturals with their bound, with the checked, saturating and panicking operations written
  out; a status byte is a word; the columns of the tables are naturals, as the code casts them
  back to unsigned integers, and ids stay below \<open>id_limit\<close>, the largest 64-bit signed integer;
  a counter that would leave 32 bits panics where the source does; doubles that are computed with appear as the rounded product
  and power given as arguments.

  \<^bold>\<open>Parameters.\<close> Third-party code is an argument of the definitions that use it, and what the
  code relies on is a named hypothesis with an instance that satisfies it: the regex set
  (\<open>scanner_ok\<close>), the petgraph container (\<open>petgraph_ok\<close>, satisfied by \<open>list_petgraph\<close>),
  lower-casing (\<open>lower_ok\<close>, satisfied by ASCII lower-casing),
  SHA-256 (any function; detection of tampering assumes two different digests), and the
  database engine, which selects rows of the edge table (\<open>table_ok\<close>, satisfied by
  \<open>list_fetch\<close>), serde's JSON (\<open>json_ok\<close> for events, \<open>codec_ok\<close> for capabilities), the patterns of the
  scanner and the transport (any function), and the graph of nearest neighbours (\<open>hnsw_ok\<close>, satisfied
  by the exact search \<open>list_hnsw\<close>). What SQL leaves open, the order of rows without an ORDER BY, is an argument of
  the queries (\<open>scan\<close>, \<open>pick\<close>). A path request sees one state of the database, and so does each
  call of the store: the write pool has one connection. Calls of the store service are whole steps
  in their sequences; what can go wrong between an insertion and a compaction that overtakes it is
  the lemma \<open>id_allocated_before_compaction\<close>.

  \<^bold>\<open>Not modelled.\<close> Locks other than the buffer mutex: each registry call runs under the
  registry lock, so calls are atomic steps; the delta call and the readers of transcripts
  release it between two phases, which are separate definitions. PageRank and confidence
  scoring need a model of every floating-point rounding. The wire format, the configuration
  and the schema migrations rest on serde, toml and SQLite. Of the store, the sessions, signals,
  metrics, audit and observation tables and the write queue are left out, as are the statements
  of its graph-edge maintenance; listener, hook client, HTTP front end and CLI
  are input and output around the modelled registries and queue. The remaining request handlers
  and observation analysis are left for later work.
\<close>

end
